(* ===== verification/Msock_Prelude.thy ===== *)
theory Msock_Prelude
  imports "HOL-Library.Word" "HOL-Library.Multiset"
begin

text \<open>
  Shared vocabulary of the development: the machine types of the library, the ways in which a
  C function of the library can fail to return (as values of a sum type), and the generic facts
  on lists and on results that the component theories share.
\<close>

section \<open>Machine types\<close>

type_synonym byte = "8 word"
type_synonym ulong = "64 word"

section \<open>Failures as values\<close>

text \<open>
  \<open>Fatal\<close> is a call of \<open>fatal()\<close> or \<open>pfatal()\<close> (\<open>src/msock_utils.c\<close>), which print and
  exit; \<open>Abort\<close> is \<open>abort()\<close> or a failed \<open>assert\<close>; \<open>Bad_Deref\<close> is a dereference of NULL,
  of a poison value or of memory that is not live; \<open>Div_By_Zero\<close> is a division by zero; \<open>Diverge\<close> is a
  loop that never ends;
  \<open>No_Fuel\<close> marks a run of a fuelled loop that was cut off, and is never an outcome of the
  program itself.
\<close>

datatype error =
    Fatal string
  | Abort
  | Bad_Deref
  | Div_By_Zero
  | Diverge
  | No_Fuel

definition rbind :: "error + 'a \<Rightarrow> ('a \<Rightarrow> error + 'b) \<Rightarrow> error + 'b" where
  "rbind m f = (case m of Inl e \<Rightarrow> Inl e | Inr x \<Rightarrow> f x)"

text \<open>\<open>need\<close> reads a pointer that must be valid.\<close>

definition need :: "'a option \<Rightarrow> error + 'a" where
  "need p = (case p of None \<Rightarrow> Inl Bad_Deref | Some x \<Rightarrow> Inr x)"

lemma rbind_simps [simp]:
  "rbind (Inl e) f = Inl e"
  "rbind (Inr x) f = f x"
  by (simp_all add: rbind_def)

lemma rbind_eq_Inr [simp]: "rbind m f = Inr y \<longleftrightarrow> (\<exists>x. m = Inr x \<and> f x = Inr y)"
  by (cases m) simp_all

lemma rbind_eq_Inl: "rbind m f = Inl e \<longleftrightarrow> m = Inl e \<or> (\<exists>x. m = Inr x \<and> f x = Inl e)"
  by (cases m) simp_all

lemma rbind_cong [fundef_cong]:
  "m = m' \<Longrightarrow> (\<And>x. m' = Inr x \<Longrightarrow> f x = f' x) \<Longrightarrow> rbind m f = rbind m' f'"
  by (cases m') simp_all

lemma rbind_assoc: "rbind (rbind m f) g = rbind m (\<lambda>x. rbind (f x) g)"
  by (cases m) simp_all

lemma need_simps [simp]:
  "need None = Inl Bad_Deref"
  "need (Some x) = Inr x"
  by (simp_all add: need_def)

lemma need_eq_Inr [simp]: "need p = Inr x \<longleftrightarrow> p = Some x"
  by (cases p) simp_all

section \<open>Collections of hints\<close>

text \<open>
  \<open>rep_simps\<close>: unfolding of representation predicates and of the pointer primitives they are
  proved against. \<open>wf_intros\<close>: preservation of the well-formedness invariants.
\<close>

named_theorems rep_simps
named_theorems wf_intros

section \<open>Machine words\<close>

lemma sint_of_small:
  fixes x :: "32 word"
  assumes "unat x < 2 ^ 31"
  shows "sint x = int (unat x)"
proof -
  have s: "sint x = signed_take_bit 31 (uint x)" using sint_uint [of x] by simp
  have u: "uint x = int (unat x)" by simp
  have "signed_take_bit 31 (int (unat x)) = int (unat x)"
    by (rule signed_take_bit_int_eq_self) (use assms in \<open>simp_all del: of_nat_unat\<close>)
  then show ?thesis using s u by presburger
qed

lemma unat_of_nat_ulong: "n < 2 ^ 64 \<Longrightarrow> unat (of_nat n :: ulong) = n"
  by (simp add: unsigned_of_nat take_bit_nat_eq_self)

lemma unat_ulong_less: "unat (x :: ulong) < 2 ^ 64"
  using unsigned_less [of x] by simp

lemma unat_word32_less: "unat (x :: 32 word) < 2 ^ 32"
  using unsigned_less [of x] by simp

lemma unat_scast_small:
  fixes x :: "32 word"
  assumes "unat x < 2 ^ 31"
  shows "unat (scast x :: ulong) = unat x"
proof -
  have "(scast x :: ulong) = word_of_int (sint x)" by (rule scast_eq)
  also have "\<dots> = of_nat (unat x)" unfolding sint_of_small [OF assms] by (rule of_int_of_nat_eq)
  finally have "(scast x :: ulong) = of_nat (unat x)" .
  moreover have "unat x < 2 ^ 64" using assms by (rule less_trans) simp
  ultimately show ?thesis using unat_of_nat_ulong [of "unat x"] by presburger
qed

lemma signed_pos_small:
  fixes x :: "32 word"
  assumes "unat x < 2 ^ 31"
  shows "0 <s x \<longleftrightarrow> x \<noteq> 0"
proof -
  have "0 <s x \<longleftrightarrow> 0 < unat x"
    unfolding word_sless_alt sint_of_small [OF assms] by (simp del: of_nat_unat)
  then show ?thesis by (simp add: unat_gt_0)
qed

lemma unat_ucast_32: "unat (ucast (x :: ulong) :: 32 word) = unat x mod 2 ^ 32"
  by (simp add: unsigned_ucast_eq take_bit_eq_mod)

lemma unat_add_ulong: "unat (a :: ulong) + unat b < 2 ^ 64 \<Longrightarrow> unat (a + b) = unat a + unat b"
  by (simp add: unat_plus_if')

lemma unat_sub_ulong: "unat (b :: ulong) \<le> unat a \<Longrightarrow> unat (a - b) = unat a - unat b"
  by (simp add: unat_sub word_le_nat_alt)

section \<open>Lists\<close>

lemma last_in_set_Cons [simp]: "last (x # xs) \<in> insert x (set xs)"
  by (cases xs) (auto split: if_splits)

end
