(* ===== verification/Upqueue.thy ===== *)
theory Upqueue
  imports Msock_Prelude "HOL-Library.Monad_Syntax"
begin

text \<open>
  The singly linked queue of \<open>src/upqueue.h\<close>, twice.

  First on an explicit store: a store maps the address of every \<open>struct queue_head\<close> to the value
  of its \<open>next\<close> field, a root is the pair of pointers of \<open>struct queue_root\<close>, and each function
  makes the assignments of the C function in the order of the C function. \<open>None\<close> is the
  dereference of NULL or of the poison value.

  Then as a value: a queue is the list of its nodes together with the one bit of information
  that the list does not determine, whether \<open>last\<close> is NULL. \<open>queue_rep\<close> relates the two and
  each operation on the store is proved to implement the operation on values. The bit matters:
  \<open>queue_splice_prepend\<close> never writes \<open>dst->last\<close>, so it can leave a non-empty queue whose
  \<open>last\<close> is NULL. The other components use the operations on values.
\<close>

section \<open>The store\<close>

text \<open>Values of a \<open>struct queue_head *\<close>: NULL, \<open>QUEUE_POISON1\<close>, or the address of a node.\<close>

datatype 'a qptr = Null | Poison | Ref 'a

type_synonym 'a qheap = "'a \<Rightarrow> 'a qptr"

record 'a queue_root =
  q_first :: "'a qptr"
  q_last :: "'a qptr"

definition deref :: "'a qptr \<Rightarrow> 'a option" where
  "deref p = (case p of Ref a \<Rightarrow> Some a | _ \<Rightarrow> None)"

lemma deref_simps [simp]:
  "deref Null = None" "deref Poison = None" "deref (Ref a) = Some a"
  by (simp_all add: deref_def)

subsection \<open>The operations of upqueue.h\<close>

definition INIT_QUEUE_ROOT :: "'a queue_root" where
  "INIT_QUEUE_ROOT = \<lparr>q_first = Null, q_last = Null\<rparr>"

definition queue_empty :: "'a queue_root \<Rightarrow> bool" where
  "queue_empty root = (if q_first root \<noteq> Null then False else True)"

definition INIT_QUEUE_HEAD :: "'a \<Rightarrow> 'a qheap \<Rightarrow> 'a qheap" where
  "INIT_QUEUE_HEAD item h = h(item := Poison)"

definition queue_put :: "'a \<Rightarrow> 'a qheap \<Rightarrow> 'a queue_root \<Rightarrow> (bool \<times> 'a qheap \<times> 'a queue_root) option" where
  "queue_put new h root =
     (let h = h(new := Null)
      in if q_last root \<noteq> Null
         then do {
           l \<leftarrow> deref (q_last root);
           Some (False, h(l := Ref new), root\<lparr>q_last := Ref new\<rparr>)
         }
         else Some (True, h, root\<lparr>q_first := Ref new, q_last := Ref new\<rparr>))"

definition queue_put_head :: "'a \<Rightarrow> 'a qheap \<Rightarrow> 'a queue_root \<Rightarrow> bool \<times> 'a qheap \<times> 'a queue_root" where
  "queue_put_head new h root =
     (let h = h(new := q_first root)
      in if q_first root \<noteq> Null
         then (False, h, root\<lparr>q_first := Ref new\<rparr>)
         else (True, h, root\<lparr>q_first := Ref new, q_last := Ref new\<rparr>))"

definition queue_is_enqueued :: "'a \<Rightarrow> 'a qheap \<Rightarrow> bool" where
  "queue_is_enqueued item h = (if h item = Poison then False else True)"

definition queue_get :: "'a qheap \<Rightarrow> 'a queue_root \<Rightarrow> ('a option \<times> 'a qheap \<times> 'a queue_root) option" where
  "queue_get h root =
     (if q_first root = Null then Some (None, h, root)
      else do {
        item \<leftarrow> deref (q_first root);
        let root = root\<lparr>q_first := h item\<rparr>;
        let root = (if q_first root = Null then root\<lparr>q_last := Null\<rparr> else root);
        Some (Some item, h(item := Poison), root)
      })"

definition queue_splice ::
  "'a queue_root \<Rightarrow> 'a queue_root \<Rightarrow> 'a qheap \<Rightarrow> ('a qheap \<times> 'a queue_root \<times> 'a queue_root) option" where
  "queue_splice src dst h =
     (if q_first src = Null then Some (h, src, dst)
      else if q_last dst \<noteq> Null
      then do {
        l \<leftarrow> deref (q_last dst);
        Some (h(l := q_first src), INIT_QUEUE_ROOT, dst\<lparr>q_last := q_last src\<rparr>)
      }
      else Some (h, INIT_QUEUE_ROOT, dst\<lparr>q_first := q_first src, q_last := q_last src\<rparr>))"

definition queue_splice_prepend ::
  "'a queue_root \<Rightarrow> 'a queue_root \<Rightarrow> 'a qheap \<Rightarrow> ('a qheap \<times> 'a queue_root \<times> 'a queue_root) option" where
  "queue_splice_prepend src dst h =
     (if q_first src = Null then Some (h, src, dst)
      else (let first = q_first dst; dst = dst\<lparr>q_first := q_first src\<rparr>
        in do {
          l \<leftarrow> deref (q_last src);
          Some (h(l := first), INIT_QUEUE_ROOT, dst)
        }))"

text \<open>
  The loop of \<open>queue_slow_del\<close>. When the queue runs out before \<open>old\<close> is met, \<open>queue_get\<close>
  returns NULL, which differs from \<open>old\<close>, and \<open>queue_put(NULL, ..)\<close> writes through NULL.
\<close>

partial_function (option) queue_slow_del_loop ::
  "'a \<Rightarrow> 'a qheap \<Rightarrow> 'a queue_root \<Rightarrow> 'a queue_root \<Rightarrow> ('a qheap \<times> 'a queue_root \<times> 'a queue_root) option" where
  "queue_slow_del_loop old h root newroot =
     Option.bind (queue_get h root) (\<lambda>(item, h, root).
       case item of
         None \<Rightarrow> None
       | Some i \<Rightarrow>
           if i \<noteq> old
           then Option.bind (queue_put i h newroot) (\<lambda>(_, h, newroot).
                  queue_slow_del_loop old h root newroot)
           else Some (h, root, newroot))"

definition queue_slow_del :: "'a \<Rightarrow> 'a qheap \<Rightarrow> 'a queue_root \<Rightarrow> ('a qheap \<times> 'a queue_root) option" where
  "queue_slow_del old h root = do {
     (h, root, newroot) \<leftarrow> queue_slow_del_loop old h root INIT_QUEUE_ROOT;
     (h, newroot, root) \<leftarrow> queue_splice_prepend newroot root h;
     Some (h, root)
   }"

section \<open>Queues as values\<close>

record 'a vqueue =
  vq_items :: "'a list"
  vq_tail :: bool

definition vq_empty :: "'a vqueue" where
  "vq_empty = \<lparr>vq_items = [], vq_tail = False\<rparr>"

definition vq_put :: "'a \<Rightarrow> 'a vqueue \<Rightarrow> bool \<times> 'a vqueue" where
  "vq_put new q =
     (if vq_tail q then (False, q\<lparr>vq_items := vq_items q @ [new]\<rparr>)
      else (True, \<lparr>vq_items = [new], vq_tail = True\<rparr>))"

definition vq_put_head :: "'a \<Rightarrow> 'a vqueue \<Rightarrow> bool \<times> 'a vqueue" where
  "vq_put_head new q =
     (if vq_items q \<noteq> [] then (False, q\<lparr>vq_items := new # vq_items q\<rparr>)
      else (True, \<lparr>vq_items = [new], vq_tail = True\<rparr>))"

definition vq_get :: "'a vqueue \<Rightarrow> 'a option \<times> 'a vqueue" where
  "vq_get q =
     (case vq_items q of
        [] \<Rightarrow> (None, q)
      | x # xs \<Rightarrow> (Some x, \<lparr>vq_items = xs, vq_tail = (if xs = [] then False else vq_tail q)\<rparr>))"

definition vq_splice :: "'a vqueue \<Rightarrow> 'a vqueue \<Rightarrow> 'a vqueue \<times> 'a vqueue" where
  "vq_splice src dst =
     (if vq_items src = [] then (src, dst)
      else if vq_tail dst
      then (vq_empty, \<lparr>vq_items = vq_items dst @ vq_items src, vq_tail = vq_tail src\<rparr>)
      else (vq_empty, \<lparr>vq_items = vq_items src, vq_tail = vq_tail src\<rparr>))"

definition vq_splice_prepend :: "'a vqueue \<Rightarrow> 'a vqueue \<Rightarrow> ('a vqueue \<times> 'a vqueue) option" where
  "vq_splice_prepend src dst =
     (if vq_items src = [] then Some (src, dst)
      else if vq_tail src
      then Some (vq_empty, dst\<lparr>vq_items := vq_items src @ vq_items dst\<rparr>)
      else None)"

fun vq_slow_del_loop :: "'a \<Rightarrow> 'a list \<Rightarrow> bool \<Rightarrow> 'a vqueue \<Rightarrow> ('a vqueue \<times> 'a vqueue) option" where
  "vq_slow_del_loop old [] t newq = None"
| "vq_slow_del_loop old (x # xs) t newq =
     (let t' = (if xs = [] then False else t)
      in if x \<noteq> old then vq_slow_del_loop old xs t' (snd (vq_put x newq))
         else Some (\<lparr>vq_items = xs, vq_tail = t'\<rparr>, newq))"

definition vq_slow_del :: "'a \<Rightarrow> 'a vqueue \<Rightarrow> 'a vqueue option" where
  "vq_slow_del old q =
     (case vq_slow_del_loop old (vq_items q) (vq_tail q) vq_empty of
        None \<Rightarrow> None
      | Some (q, newq) \<Rightarrow> map_option snd (vq_splice_prepend newq q))"

text \<open>A queue is sound when \<open>last\<close> is NULL exactly for the empty queue.\<close>

definition vq_wf :: "'a vqueue \<Rightarrow> bool" where
  "vq_wf q \<longleftrightarrow> (vq_tail q \<longleftrightarrow> vq_items q \<noteq> [])"

section \<open>Representation\<close>

text \<open>
  \<open>path h p xs r\<close>: following \<open>next\<close> from \<open>p\<close> visits the nodes \<open>xs\<close> and arrives at \<open>r\<close>.
\<close>

fun path :: "'a qheap \<Rightarrow> 'a qptr \<Rightarrow> 'a list \<Rightarrow> 'a qptr \<Rightarrow> bool" where
  "path h p [] r \<longleftrightarrow> p = r"
| "path h p (x # xs) r \<longleftrightarrow> p = Ref x \<and> path h (h x) xs r"

definition queue_rep :: "'a qheap \<Rightarrow> 'a queue_root \<Rightarrow> 'a vqueue \<Rightarrow> bool" where
  "queue_rep h root q \<longleftrightarrow>
     path h (q_first root) (vq_items q) Null \<and> distinct (vq_items q) \<and>
     q_last root = (if vq_tail q then Ref (last (vq_items q)) else Null) \<and>
     (vq_tail q \<longrightarrow> vq_items q \<noteq> [])"

text \<open>\<open>same_off S h h'\<close>: only nodes of \<open>S\<close> were written.\<close>

definition same_off :: "'a set \<Rightarrow> 'a qheap \<Rightarrow> 'a qheap \<Rightarrow> bool" where
  "same_off S h h' \<longleftrightarrow> (\<forall>a. a \<notin> S \<longrightarrow> h' a = h a)"

lemma same_off_refl [simp]: "same_off S h h"
  by (simp add: same_off_def)

lemma same_off_upd [simp]: "a \<in> S \<Longrightarrow> same_off S h (h(a := v))"
  by (simp add: same_off_def)

lemma same_off_trans: "same_off S h h' \<Longrightarrow> same_off T h' h'' \<Longrightarrow> S \<subseteq> U \<Longrightarrow> T \<subseteq> U \<Longrightarrow> same_off U h h''"
  unfolding same_off_def by (metis subsetD)

lemma path_cong: "(\<And>a. a \<in> set xs \<Longrightarrow> h' a = h a) \<Longrightarrow> path h' p xs r = path h p xs r"
  by (induction xs arbitrary: p) auto

lemma path_upd [simp]: "a \<notin> set xs \<Longrightarrow> path (h(a := v)) p xs r = path h p xs r"
  by (rule path_cong) auto

lemma path_append: "path h p (xs @ ys) r \<longleftrightarrow> (\<exists>s. path h p xs s \<and> path h s ys r)"
  by (induction xs arbitrary: p) auto

lemma path_Null [simp]: "path h Null xs r \<longleftrightarrow> xs = [] \<and> r = Null"
  by (cases xs) auto

text \<open>Writing the last node of a path redirects the path.\<close>

lemma path_redirect:
  "path h p xs r \<Longrightarrow> xs \<noteq> [] \<Longrightarrow> distinct xs \<Longrightarrow> path (h(last xs := v)) p xs v"
proof (induction xs arbitrary: p)
  case Nil
  then show ?case by simp
next
  case (Cons x xs)
  show ?case
  proof (cases "xs = []")
    case True
    with Cons.prems show ?thesis by simp
  next
    case False
    with Cons.IH [of "h x"] Cons.prems have "path (h(last xs := v)) (h x) xs v"
      by (simp add: fun_upd_def)
    moreover have "last xs \<noteq> x" using False Cons.prems(3) by auto
    ultimately show ?thesis using False Cons.prems(1) by (simp add: fun_upd_def)
  qed
qed

lemma queue_rep_frame:
  "queue_rep h root q \<Longrightarrow> same_off S h h' \<Longrightarrow> S \<inter> set (vq_items q) = {} \<Longrightarrow> queue_rep h' root q"
  using path_cong [of "vq_items q" h' h "q_first root" Null]
  by (fastforce simp: queue_rep_def same_off_def)

lemma queue_rep_last:
  "queue_rep h root q \<Longrightarrow> q_last root \<noteq> Null \<longleftrightarrow> vq_tail q"
  by (auto simp: queue_rep_def)

lemma queue_rep_first:
  "queue_rep h root q \<Longrightarrow> q_first root = Null \<longleftrightarrow> vq_items q = []"
  by (cases "vq_items q") (auto simp: queue_rep_def)

lemma queue_rep_empty [simp]: "queue_rep h INIT_QUEUE_ROOT vq_empty"
  by (simp add: queue_rep_def INIT_QUEUE_ROOT_def vq_empty_def)

section \<open>Each operation on the store implements the operation on values\<close>

lemma queue_put_refines:
  assumes rep: "queue_rep h root q" and fresh: "new \<notin> set (vq_items q)"
  shows "\<exists>h' root'. queue_put new h root = Some (fst (vq_put new q), h', root') \<and>
     queue_rep h' root' (snd (vq_put new q)) \<and> same_off (insert new (set (vq_items q))) h h'"
proof (cases "vq_tail q")
  case True
  let ?xs = "vq_items q" and ?l = "last (vq_items q)"
  from rep True have ne: "?xs \<noteq> []" and p: "path h (q_first root) ?xs Null"
    and d: "distinct ?xs" and l: "q_last root = Ref ?l"
    by (auto simp: queue_rep_def)
  have nl: "?l \<noteq> new" using ne fresh by (metis last_in_set)
  have "path (h(?l := Ref new)) (q_first root) ?xs (Ref new)"
    by (rule path_redirect [OF p ne d])
  then have "path (h(new := Null, ?l := Ref new)) (q_first root) ?xs (Ref new)"
    using fresh nl by (subst fun_upd_twist) auto
  then have "path (h(new := Null, ?l := Ref new)) (q_first root) (?xs @ [new]) Null"
    using nl by (auto simp: path_append)
  moreover have "same_off (insert new (set ?xs)) h (h(new := Null, ?l := Ref new))"
    using ne by (auto simp: same_off_def)
  ultimately show ?thesis
    using True l d fresh by (simp add: queue_put_def vq_put_def queue_rep_def Let_def)
next
  case False
  with rep have "q_last root = Null" by (simp add: queue_rep_def)
  with False show ?thesis
    by (simp add: queue_put_def vq_put_def queue_rep_def Let_def)
qed

lemma queue_put_head_refines:
  assumes rep: "queue_rep h root q" and fresh: "new \<notin> set (vq_items q)"
  shows "\<exists>h' root'. queue_put_head new h root = (fst (vq_put_head new q), h', root') \<and>
     queue_rep h' root' (snd (vq_put_head new q)) \<and> same_off {new} h h'"
proof (cases "vq_items q = []")
  case True
  with rep show ?thesis
    by (auto simp: queue_put_head_def vq_put_head_def queue_rep_def Let_def)
next
  case False
  then have "q_first root \<noteq> Null" using queue_rep_first [OF rep] by simp
  with False rep fresh show ?thesis
    by (auto simp: queue_put_head_def vq_put_head_def queue_rep_def Let_def)
qed

lemma queue_get_refines:
  assumes rep: "queue_rep h root q"
  shows "\<exists>h' root'. queue_get h root = Some (fst (vq_get q), h', root') \<and>
     queue_rep h' root' (snd (vq_get q)) \<and> same_off (set_option (fst (vq_get q))) h h' \<and>
     (\<forall>x. fst (vq_get q) = Some x \<longrightarrow> \<not> queue_is_enqueued x h')"
proof (cases "vq_items q")
  case Nil
  with rep show ?thesis by (simp add: queue_get_def vq_get_def queue_rep_def)
next
  case (Cons x xs)
  with rep have f: "q_first root = Ref x" and p: "path h (h x) xs Null" and d: "x \<notin> set xs" "distinct xs"
    by (auto simp: queue_rep_def)
  have n: "h x = Null \<longleftrightarrow> xs = []" using p by (cases xs) auto
  show ?thesis
    using rep Cons f p d n
    by (auto simp: queue_get_def vq_get_def queue_rep_def Let_def queue_is_enqueued_def)
qed

lemma queue_splice_refines:
  assumes s: "queue_rep h src qs" and d: "queue_rep h dst qd"
    and disj: "set (vq_items qs) \<inter> set (vq_items qd) = {}"
  shows "\<exists>h' src' dst'. queue_splice src dst h = Some (h', src', dst') \<and>
     queue_rep h' src' (fst (vq_splice qs qd)) \<and> queue_rep h' dst' (snd (vq_splice qs qd)) \<and>
     same_off (set (vq_items qd)) h h'"
proof (cases "vq_items qs = [] \<or> \<not> vq_tail qd")
  case True
  then show ?thesis
    using s d queue_rep_first [OF s] queue_rep_last [OF d]
    by (auto simp: queue_splice_def vq_splice_def queue_rep_def INIT_QUEUE_ROOT_def vq_empty_def)
next
  case False
  let ?xs = "vq_items qd" and ?ys = "vq_items qs"
  from d False have ne: "?xs \<noteq> []" and p: "path h (q_first dst) ?xs Null" and dd: "distinct ?xs"
    and l: "q_last dst = Ref (last ?xs)"
    by (auto simp: queue_rep_def)
  from s False have py: "path h (q_first src) ?ys Null" and dy: "distinct ?ys" by (auto simp: queue_rep_def)
  have nl: "last ?xs \<notin> set ?ys" using ne disj by auto
  have "path (h(last ?xs := q_first src)) (q_first dst) (?xs @ ?ys) Null"
    using path_redirect [OF p ne dd, of "q_first src"] py nl by (auto simp: path_append)
  then show ?thesis
    using s d False ne dd dy l disj queue_rep_first [OF s]
    by (auto simp: queue_splice_def vq_splice_def queue_rep_def INIT_QUEUE_ROOT_def vq_empty_def)
qed

lemma queue_splice_prepend_refines:
  assumes s: "queue_rep h src qs" and d: "queue_rep h dst qd"
    and disj: "set (vq_items qs) \<inter> set (vq_items qd) = {}"
  shows "(case vq_splice_prepend qs qd of
       None \<Rightarrow> queue_splice_prepend src dst h = None
     | Some (qs', qd') \<Rightarrow> \<exists>h' src' dst'. queue_splice_prepend src dst h = Some (h', src', dst') \<and>
         queue_rep h' src' qs' \<and> queue_rep h' dst' qd' \<and> same_off (set (vq_items qs)) h h')"
proof (cases "vq_items qs = []")
  case True
  then show ?thesis using s d queue_rep_first [OF s]
    by (simp add: queue_splice_prepend_def vq_splice_prepend_def)
next
  case ne: False
  let ?xs = "vq_items qs" and ?ys = "vq_items qd"
  show ?thesis
  proof (cases "vq_tail qs")
    case False
    then show ?thesis using ne s queue_rep_first [OF s]
      by (simp add: queue_splice_prepend_def vq_splice_prepend_def queue_rep_def Let_def)
  next
    case True
    from s True have p: "path h (q_first src) ?xs Null" and dx: "distinct ?xs"
      and l: "q_last src = Ref (last ?xs)" by (auto simp: queue_rep_def)
    from d have py: "path h (q_first dst) ?ys Null" and dy: "distinct ?ys" by (auto simp: queue_rep_def)
    have nl: "last ?xs \<notin> set ?ys" using ne disj by (metis disjoint_iff last_in_set)
    have "path (h(last ?xs := q_first dst)) (q_first src) (?xs @ ?ys) Null"
      using path_redirect [OF p ne dx, of "q_first dst"] py nl by (auto simp: path_append)
    then show ?thesis
      using s d ne True dx dy l disj queue_rep_first [OF s]
      by (auto simp: queue_splice_prepend_def vq_splice_prepend_def queue_rep_def INIT_QUEUE_ROOT_def
          vq_empty_def Let_def)
  qed
qed

section \<open>Deleting from the middle\<close>

lemma vq_slow_del_loop_spec:
  assumes "vq_wf newq" and "xs \<noteq> [] \<or> \<not> t"
  shows "vq_slow_del_loop old xs t newq =
     (if old \<in> set xs
      then Some (\<lparr>vq_items = tl (dropWhile (\<lambda>x. x \<noteq> old) xs),
                  vq_tail = (t \<and> tl (dropWhile (\<lambda>x. x \<noteq> old) xs) \<noteq> [])\<rparr>,
                 \<lparr>vq_items = vq_items newq @ takeWhile (\<lambda>x. x \<noteq> old) xs,
                  vq_tail = (vq_items newq @ takeWhile (\<lambda>x. x \<noteq> old) xs \<noteq> [])\<rparr>)
      else None)"
  using assms
proof (induction xs arbitrary: t newq)
  case Nil
  then show ?case by simp
next
  case (Cons x xs)
  let ?n = "snd (vq_put x newq)"
  have n: "vq_items ?n = vq_items newq @ [x]" "vq_wf ?n"
    using Cons.prems(1) by (auto simp: vq_put_def vq_wf_def)
  show ?case
    using Cons.IH [OF n(2), of "if xs = [] then False else t"] n(1) Cons.prems(1)
    by (cases "x = old") (auto simp: Let_def vq_wf_def)
qed

lemma dropWhile_neq_member:
  "a \<in> set xs \<Longrightarrow> takeWhile (\<lambda>x. x \<noteq> a) xs @ tl (dropWhile (\<lambda>x. x \<noteq> a) xs) = remove1 a xs"
  by (induction xs) auto

lemma last_dropWhile_neq:
  "a \<in> set xs \<Longrightarrow> distinct xs \<Longrightarrow> tl (dropWhile (\<lambda>x. x \<noteq> a) xs) = [] \<longleftrightarrow> last xs = a"
  by (induction xs) auto

text \<open>
  The result holds the other nodes in order, but \<open>last\<close> survives only when the deleted node
  was not the last one.
\<close>

lemma vq_slow_del_spec:
  assumes d: "distinct (vq_items q)" and t: "vq_items q \<noteq> [] \<or> \<not> vq_tail q"
  shows "vq_slow_del old q =
     (if old \<in> set (vq_items q)
      then Some \<lparr>vq_items = remove1 old (vq_items q), vq_tail = (vq_tail q \<and> last (vq_items q) \<noteq> old)\<rparr>
      else None)"
proof (cases "old \<in> set (vq_items q)")
  case False
  then show ?thesis
    using vq_slow_del_loop_spec [OF _ t, of vq_empty old]
    by (simp add: vq_slow_del_def vq_empty_def vq_wf_def)
next
  case True
  let ?pre = "takeWhile (\<lambda>x. x \<noteq> old) (vq_items q)"
  let ?suf = "tl (dropWhile (\<lambda>x. x \<noteq> old) (vq_items q))"
  have "vq_slow_del old q =
      map_option snd (vq_splice_prepend \<lparr>vq_items = ?pre, vq_tail = (?pre \<noteq> [])\<rparr>
        \<lparr>vq_items = ?suf, vq_tail = (vq_tail q \<and> ?suf \<noteq> [])\<rparr>)"
    using True vq_slow_del_loop_spec [OF _ t, of vq_empty old]
    by (simp add: vq_slow_del_def vq_empty_def vq_wf_def)
  also have "\<dots> = Some \<lparr>vq_items = ?pre @ ?suf, vq_tail = (vq_tail q \<and> ?suf \<noteq> [])\<rparr>"
    by (simp add: vq_splice_prepend_def)
  also have "\<dots> = Some \<lparr>vq_items = remove1 old (vq_items q),
                        vq_tail = (vq_tail q \<and> last (vq_items q) \<noteq> old)\<rparr>"
    using dropWhile_neq_member [OF True] last_dropWhile_neq [OF True d] by simp
  finally show ?thesis using True by simp
qed

lemma queue_slow_del_loop_refines:
  assumes "queue_rep h root q" and "queue_rep h newroot nq" and "vq_wf nq"
    and "set (vq_items q) \<inter> set (vq_items nq) = {}"
  shows "(case vq_slow_del_loop old (vq_items q) (vq_tail q) nq of
       None \<Rightarrow> queue_slow_del_loop old h root newroot = None
     | Some (q', nq') \<Rightarrow> \<exists>h' root' newroot'. queue_slow_del_loop old h root newroot = Some (h', root', newroot') \<and>
         queue_rep h' root' q' \<and> queue_rep h' newroot' nq' \<and>
         same_off (set (vq_items q) \<union> set (vq_items nq)) h h')"
  using assms
proof (induction "vq_items q" arbitrary: q nq h root newroot)
  case Nil
  then have "vq_items q = []" by simp
  moreover from this have "queue_get h root = Some (None, h, root)"
    using queue_rep_first [OF Nil.prems(1)] by (simp add: queue_get_def)
  ultimately show ?case by (simp add: queue_slow_del_loop.simps)
next
  case (Cons x xs)
  let ?q = "snd (vq_get q)"
  have q: "vq_items q = x # xs" using Cons.hyps(2) by simp
  have g: "fst (vq_get q) = Some x" "vq_items ?q = xs" "vq_tail ?q = (if xs = [] then False else vq_tail q)"
    by (simp_all add: vq_get_def q)
  from queue_get_refines [OF Cons.prems(1)] obtain h1 root1 where
    get: "queue_get h root = Some (Some x, h1, root1)" and r1: "queue_rep h1 root1 ?q"
    and s1: "same_off {x} h h1"
    using g by auto
  have d: "x \<notin> set (vq_items nq)" "x \<notin> set xs" using Cons.prems(1,4) q by (auto simp: queue_rep_def)
  have n1: "queue_rep h1 newroot nq" by (rule queue_rep_frame [OF Cons.prems(2) s1]) (use d in simp)
  show ?case
  proof (cases "x = old")
    case True
    then have "queue_slow_del_loop old h root newroot = Some (h1, root1, newroot)"
      by (subst queue_slow_del_loop.simps) (simp add: get)
    moreover have "vq_slow_del_loop old (vq_items q) (vq_tail q) nq = Some (?q, nq)"
      using True by (simp add: q Let_def vq_get_def)
    moreover have "same_off (set (vq_items q) \<union> set (vq_items nq)) h h1"
      by (rule same_off_trans [OF s1 same_off_refl [of "{}"]]) (auto simp: q)
    ultimately show ?thesis using r1 n1 by simp
  next
    case False
    let ?n = "snd (vq_put x nq)"
    have ni: "vq_items ?n = vq_items nq @ [x]" "vq_wf ?n"
      using Cons.prems(3) by (auto simp: vq_put_def vq_wf_def)
    from queue_put_refines [OF n1 d(1)] obtain b h2 newroot2 where
      put: "queue_put x h1 newroot = Some (b, h2, newroot2)" and n2: "queue_rep h2 newroot2 ?n"
      and s2: "same_off (insert x (set (vq_items nq))) h1 h2" by auto
    have r2: "queue_rep h2 root1 ?q"
      by (rule queue_rep_frame [OF r1 s2]) (use d g(2) q Cons.prems(4) in auto)
    have loop: "queue_slow_del_loop old h root newroot = queue_slow_del_loop old h2 root1 newroot2"
      using False by (subst queue_slow_del_loop.simps) (simp add: get put)
    have vloop: "vq_slow_del_loop old (vq_items q) (vq_tail q) nq =
        vq_slow_del_loop old (vq_items ?q) (vq_tail ?q) ?n"
      using False by (simp add: q g Let_def)
    have disj: "set (vq_items ?q) \<inter> set (vq_items ?n) = {}"
      using d Cons.prems(4) q ni g by auto
    note IH = Cons.hyps(1) [OF g(2) [symmetric] r2 n2 ni(2) disj]
    have S: "set (vq_items ?q) \<union> set (vq_items ?n) = set (vq_items q) \<union> set (vq_items nq)"
      using g ni q by auto
    have "same_off (set (vq_items q) \<union> set (vq_items nq)) h h2"
      by (rule same_off_trans [OF s1 s2]) (auto simp: q)
    then show ?thesis
      using IH unfolding loop vloop S
      by (fastforce split: option.splits intro: same_off_trans [OF _ _ subset_refl subset_refl])
  qed
qed

lemma queue_slow_del_spec:
  assumes rep: "queue_rep h root q" and mem: "old \<in> set (vq_items q)"
  shows "\<exists>h' root'. queue_slow_del old h root = Some (h', root') \<and>
     queue_rep h' root' \<lparr>vq_items = remove1 old (vq_items q),
                         vq_tail = (vq_tail q \<and> last (vq_items q) \<noteq> old)\<rparr> \<and>
     same_off (set (vq_items q)) h h'"
proof -
  have d: "distinct (vq_items q)" and t: "vq_items q \<noteq> [] \<or> \<not> vq_tail q"
    using rep by (auto simp: queue_rep_def)
  obtain q' n' where vl: "vq_slow_del_loop old (vq_items q) (vq_tail q) vq_empty = Some (q', n')"
    and n': "vq_items n' = takeWhile (\<lambda>x. x \<noteq> old) (vq_items q)"
    and q': "vq_items q' = tl (dropWhile (\<lambda>x. x \<noteq> old) (vq_items q))"
    using vq_slow_del_loop_spec [OF _ t, of vq_empty old] mem by (simp add: vq_empty_def vq_wf_def)
  have "vq_wf vq_empty" "set (vq_items q) \<inter> set (vq_items vq_empty) = {}"
    by (simp_all add: vq_wf_def vq_empty_def)
  from queue_slow_del_loop_refines [OF rep queue_rep_empty this, of old] vl
  obtain h1 root1 newroot1 where
    l: "queue_slow_del_loop old h root INIT_QUEUE_ROOT = Some (h1, root1, newroot1)"
    and r1: "queue_rep h1 root1 q'" and n1: "queue_rep h1 newroot1 n'"
    and s1: "same_off (set (vq_items q)) h h1"
    by (auto simp: vq_empty_def)
  have sub: "set (vq_items n') \<subseteq> set (vq_items q)"
    using n' by (auto dest: set_takeWhileD)
  have "distinct (vq_items n' @ vq_items q')"
    unfolding n' q' dropWhile_neq_member [OF mem] using d by (rule distinct_remove1)
  then have disj: "set (vq_items n') \<inter> set (vq_items q') = {}"
    by (metis distinct_append)
  have v: "map_option snd (vq_splice_prepend n' q') =
      Some \<lparr>vq_items = remove1 old (vq_items q), vq_tail = (vq_tail q \<and> last (vq_items q) \<noteq> old)\<rparr>"
    using vq_slow_del_spec [OF d t, of old] mem by (simp add: vq_slow_del_def vl)
  then obtain n2 where v2: "vq_splice_prepend n' q' = Some (n2,
      \<lparr>vq_items = remove1 old (vq_items q), vq_tail = (vq_tail q \<and> last (vq_items q) \<noteq> old)\<rparr>)"
    by auto
  with queue_splice_prepend_refines [OF n1 r1 disj] obtain h2 newroot2 root2 where
    p: "queue_splice_prepend newroot1 root1 h1 = Some (h2, newroot2, root2)"
    and r2: "queue_rep h2 root2 \<lparr>vq_items = remove1 old (vq_items q),
                vq_tail = (vq_tail q \<and> last (vq_items q) \<noteq> old)\<rparr>"
    and s2: "same_off (set (vq_items n')) h1 h2"
    by auto
  have "same_off (set (vq_items q)) h h2"
    by (rule same_off_trans [OF s1 s2 subset_refl sub])
  then show ?thesis using l p r2 by (simp add: queue_slow_del_def)
qed

text \<open>
  C1: \<open>queue_slow_del\<close> on the pointers removes exactly the node asked for and keeps the order of
  the others, in a bounded number of steps and writing only nodes of the queue. The queue it
  leaves has a valid \<open>last\<close> only if the removed node was not the last one: when it was,
  \<open>last\<close> is left NULL although nodes may remain.
\<close>

theorem queue_slow_del_refines:
  assumes rep: "queue_rep h root q" and mem: "old \<in> set (vq_items q)"
  shows "\<exists>h' root'. queue_slow_del old h root = Some (h', root') \<and>
     queue_rep h' root' \<lparr>vq_items = remove1 old (vq_items q),
                         vq_tail = (vq_tail q \<and> last (vq_items q) \<noteq> old)\<rparr> \<and>
     same_off (set (vq_items q)) h h'"
  by (rule queue_slow_del_spec [OF assms])

theorem queue_slow_del_refines_witness:
  "\<exists>h' root'. queue_slow_del 3 ((\<lambda>_. Poison)(1 := Ref 2, 2 := Ref 3, 3 := Null))
       \<lparr>q_first = Ref 1, q_last = Ref (3 :: nat)\<rparr> = Some (h', root') \<and>
     queue_rep h' root' \<lparr>vq_items = [1, 2], vq_tail = False\<rparr> \<and>
     same_off {1, 2, 3} ((\<lambda>_. Poison)(1 := Ref 2, 2 := Ref 3, 3 := Null)) h'"
proof -
  have "queue_rep ((\<lambda>_. Poison)(1 := Ref 2, 2 := Ref 3, 3 := Null))
      \<lparr>q_first = Ref 1, q_last = Ref (3 :: nat)\<rparr> \<lparr>vq_items = [1, 2, 3], vq_tail = True\<rparr>"
    by (simp add: queue_rep_def)
  from queue_slow_del_refines [OF this, of 3] show ?thesis by simp
qed

text \<open>
  A queue into which \<open>queue_splice_prepend\<close> moved nodes while it was empty has them at its
  front but a NULL \<open>last\<close>; the next \<open>queue_put\<close> takes it for an empty queue, answers that it was
  empty, and drops every node that was in it.
\<close>

theorem splice_prepend_then_put_drops:
  assumes s: "queue_rep h src qs" and wf: "vq_wf qs" and ne: "vq_items qs \<noteq> []"
    and new: "new \<notin> set (vq_items qs)"
  shows "\<exists>h' src' dst' h'' dst''.
     queue_splice_prepend src INIT_QUEUE_ROOT h = Some (h', src', dst') \<and>
     q_first dst' = Ref (hd (vq_items qs)) \<and> q_last dst' = Null \<and>
     queue_put new h' dst' = Some (True, h'', dst'') \<and>
     queue_rep h'' dst'' \<lparr>vq_items = [new], vq_tail = True\<rparr>"
proof -
  let ?q = "\<lparr>vq_items = vq_items qs, vq_tail = False\<rparr>"
  have v: "vq_splice_prepend qs vq_empty = Some (vq_empty, ?q)"
    using wf ne by (simp add: vq_splice_prepend_def vq_empty_def vq_wf_def)
  have "set (vq_items qs) \<inter> set (vq_items vq_empty) = {}" by (simp add: vq_empty_def)
  from queue_splice_prepend_refines [OF s queue_rep_empty this] v
  obtain h' src' dst' where sp: "queue_splice_prepend src INIT_QUEUE_ROOT h = Some (h', src', dst')"
    and r: "queue_rep h' dst' ?q" by auto
  have f: "q_first dst' = Ref (hd (vq_items qs))" "q_last dst' = Null"
    using r ne by (cases "vq_items qs"; simp add: queue_rep_def)+
  from queue_put_refines [OF r, of new] new obtain h'' dst'' where
    "queue_put new h' dst' = Some (True, h'', dst'')"
    "queue_rep h'' dst'' \<lparr>vq_items = [new], vq_tail = True\<rparr>"
    by (auto simp: vq_put_def)
  with sp f show ?thesis by blast
qed

theorem splice_prepend_then_put_drops_witness:
  "\<exists>h' src' dst' h'' dst''.
     queue_splice_prepend \<lparr>q_first = Ref 1, q_last = Ref (2 :: nat)\<rparr> INIT_QUEUE_ROOT
       ((\<lambda>_. Poison)(1 := Ref 2, 2 := Null)) = Some (h', src', dst') \<and>
     q_first dst' = Ref 1 \<and> q_last dst' = Null \<and>
     queue_put 7 h' dst' = Some (True, h'', dst'') \<and>
     queue_rep h'' dst'' \<lparr>vq_items = [7], vq_tail = True\<rparr>"
proof -
  have "queue_rep ((\<lambda>_. Poison)(1 := Ref 2, 2 := Null)) \<lparr>q_first = Ref 1, q_last = Ref (2 :: nat)\<rparr>
      \<lparr>vq_items = [1, 2], vq_tail = True\<rparr>"
    by (simp add: queue_rep_def)
  from splice_prepend_then_put_drops [OF this, of 7] show ?thesis by (simp add: vq_wf_def)
qed

section \<open>The queue as an interface\<close>

text \<open>
  What the clients of the queue rely on when they only put at the tail, put at the head and get:
  a first-in first-out list with an exact answer to "was it empty".
\<close>

locale fifo =
  fixes put :: "'a \<Rightarrow> 'q \<Rightarrow> bool \<times> 'q"
    and get :: "'q \<Rightarrow> 'a option \<times> 'q"
    and items :: "'q \<Rightarrow> 'a list"
    and invar :: "'q \<Rightarrow> bool"
  assumes put_items: "invar q \<Longrightarrow> items (snd (put x q)) = items q @ [x]"
    and put_was_empty: "invar q \<Longrightarrow> fst (put x q) \<longleftrightarrow> items q = []"
    and put_invar: "invar q \<Longrightarrow> invar (snd (put x q))"
    and get_Nil: "items q = [] \<Longrightarrow> get q = (None, q)"
    and get_Cons: "items q = x # xs \<Longrightarrow> fst (get q) = Some x \<and> items (snd (get q)) = xs"
    and get_invar: "invar q \<Longrightarrow> invar (snd (get q))"
begin

lemma put_all:
  "invar q \<Longrightarrow> items (fold (\<lambda>x q. snd (put x q)) xs q) = items q @ xs \<and>
     invar (fold (\<lambda>x q. snd (put x q)) xs q)"
proof (induction xs arbitrary: q)
  case Nil
  then show ?case by simp
next
  case (Cons x xs)
  then show ?case using Cons.IH [OF put_invar [OF Cons.prems, of x]] by (simp add: put_items)
qed

lemma get_None_iff: "fst (get q) = None \<longleftrightarrow> items q = []"
  using get_Nil get_Cons by (cases "items q") fastforce+

lemma get_SomeD: "get q = (Some x, q') \<Longrightarrow> items q = x # items q'"
  using get_Nil [of q] get_Cons [of q] by (cases "items q") fastforce+

lemma get_NoneD: "get q = (None, q') \<Longrightarrow> q' = q \<and> items q = []"
  using get_Nil [of q] get_Cons [of q] by (cases "items q") fastforce+

lemma get_mset:
  "get q = (Some x, q') \<Longrightarrow> mset (items q) = add_mset x (mset (items q'))"
  by (simp add: get_SomeD)

end

locale deque = fifo put get items invar
  for put :: "'a \<Rightarrow> 'q \<Rightarrow> bool \<times> 'q"
    and get :: "'q \<Rightarrow> 'a option \<times> 'q"
    and items :: "'q \<Rightarrow> 'a list"
    and invar :: "'q \<Rightarrow> bool" +
  fixes put_head :: "'a \<Rightarrow> 'q \<Rightarrow> bool \<times> 'q"
  assumes put_head_items: "items (snd (put_head x q)) = x # items q"
    and put_head_invar: "invar q \<Longrightarrow> invar (snd (put_head x q))"
begin

lemma get_put_head: "get (snd (put_head x q)) = (Some x, snd (get (snd (put_head x q)))) \<and>
    items (snd (get (snd (put_head x q)))) = items q"
  using get_Cons [OF put_head_items, of x q] by (simp add: prod_eq_iff)

lemma put_head_all:
  "items (fold (\<lambda>x q. snd (put_head x q)) xs q) = rev xs @ items q"
  by (induction xs arbitrary: q) (simp_all add: put_head_items)

end

interpretation vq: deque vq_put vq_get vq_items vq_wf vq_put_head
  by unfold_locales
    (auto simp: vq_put_def vq_get_def vq_wf_def vq_put_head_def split: list.splits)

lemma vq_wf_empty [simp]: "vq_wf vq_empty" "vq_items vq_empty = []"
  by (simp_all add: vq_wf_def vq_empty_def)

lemma vq_splice_wf:
  "vq_wf src \<Longrightarrow> vq_wf dst \<Longrightarrow>
     fst (vq_splice src dst) = vq_empty \<and> vq_wf (snd (vq_splice src dst)) \<and>
     vq_items (snd (vq_splice src dst)) = vq_items dst @ vq_items src"
  by (cases src) (auto simp: vq_splice_def vq_wf_def vq_empty_def)

end
