(* ===== verification/List_Head.thy ===== *)
theory List_Head
  imports Msock_Prelude "HOL-Library.Monad_Syntax"
begin

text \<open>
  The intrusive circular doubly linked list of \<open>src/list.h\<close> on an explicit store. A store maps
  the address of every \<open>struct list_head\<close> to its fields \<open>next\<close> and \<open>prev\<close>; a list is a head
  node and the nodes on the ring between the head and itself. Each function makes the
  assignments of the C function in their order; \<open>None\<close> is the dereference of NULL or of a
  poison value. \<open>dlist s h xs\<close> says that the ring of \<open>h\<close> holds the nodes \<open>xs\<close>; every operation
  is shown to turn such a ring into the ring of the list operation it stands for. The other
  components model their lists as HOL lists, on the strength of these lemmas.
\<close>

section \<open>The store\<close>

text \<open>Values of a \<open>struct list_head *\<close>: \<open>LIST_POISON1\<close>, \<open>LIST_POISON2\<close>, NULL or a node.\<close>

datatype 'a lptr = LPoison1 | LPoison2 | LNull | At 'a

record 'a lheap =
  nxt :: "'a \<Rightarrow> 'a lptr"
  prv :: "'a \<Rightarrow> 'a lptr"

definition at_node :: "'a lptr \<Rightarrow> 'a option" where
  "at_node p = (case p of At a \<Rightarrow> Some a | _ \<Rightarrow> None)"

definition set_next :: "'a \<Rightarrow> 'a lptr \<Rightarrow> 'a lheap \<Rightarrow> 'a lheap" where
  "set_next a v s = s\<lparr>nxt := (nxt s)(a := v)\<rparr>"

definition set_prev :: "'a \<Rightarrow> 'a lptr \<Rightarrow> 'a lheap \<Rightarrow> 'a lheap" where
  "set_prev a v s = s\<lparr>prv := (prv s)(a := v)\<rparr>"

lemma at_node_simps [simp]:
  "at_node LPoison1 = None" "at_node LPoison2 = None" "at_node LNull = None" "at_node (At a) = Some a"
  by (simp_all add: at_node_def)

lemma set_field_simps [simp]:
  "nxt (set_next a v s) = (nxt s)(a := v)" "prv (set_next a v s) = prv s"
  "nxt (set_prev a v s) = nxt s" "prv (set_prev a v s) = (prv s)(a := v)"
  by (simp_all add: set_next_def set_prev_def)

subsection \<open>The operations of list.h\<close>

text \<open>The helpers \<open>__list_add\<close>, \<open>__list_del\<close>, \<open>__list_splice\<close>, \<open>__list_cut_position\<close> have
  the names \<open>list_add_raw\<close> and so on.\<close>

definition INIT_LIST_HEAD :: "'a \<Rightarrow> 'a lheap \<Rightarrow> 'a lheap" where
  "INIT_LIST_HEAD l s = set_prev l (At l) (set_next l (At l) s)"

definition list_add_raw :: "'a \<Rightarrow> 'a lptr \<Rightarrow> 'a lptr \<Rightarrow> 'a lheap \<Rightarrow> 'a lheap option" where
  "list_add_raw new prev next s = do {
     n \<leftarrow> at_node next;
     let s = set_prev n (At new) s;
     let s = set_next new next s;
     let s = set_prev new prev s;
     p \<leftarrow> at_node prev;
     Some (set_next p (At new) s)
   }"

definition list_add :: "'a \<Rightarrow> 'a \<Rightarrow> 'a lheap \<Rightarrow> 'a lheap option" where
  "list_add new head s = list_add_raw new (At head) (nxt s head) s"

definition list_add_tail :: "'a \<Rightarrow> 'a \<Rightarrow> 'a lheap \<Rightarrow> 'a lheap option" where
  "list_add_tail new head s = list_add_raw new (prv s head) (At head) s"

definition list_del_raw :: "'a lptr \<Rightarrow> 'a lptr \<Rightarrow> 'a lheap \<Rightarrow> 'a lheap option" where
  "list_del_raw prev next s = do {
     n \<leftarrow> at_node next;
     let s = set_prev n prev s;
     p \<leftarrow> at_node prev;
     Some (set_next p next s)
   }"

definition list_del :: "'a \<Rightarrow> 'a lheap \<Rightarrow> 'a lheap option" where
  "list_del entry s = do {
     s \<leftarrow> list_del_raw (prv s entry) (nxt s entry) s;
     let s = set_next entry LPoison1 s;
     Some (set_prev entry LPoison2 s)
   }"

definition list_replace :: "'a \<Rightarrow> 'a \<Rightarrow> 'a lheap \<Rightarrow> 'a lheap option" where
  "list_replace old new s = do {
     let s = set_next new (nxt s old) s;
     n \<leftarrow> at_node (nxt s new);
     let s = set_prev n (At new) s;
     let s = set_prev new (prv s old) s;
     p \<leftarrow> at_node (prv s new);
     Some (set_next p (At new) s)
   }"

definition list_replace_init :: "'a \<Rightarrow> 'a \<Rightarrow> 'a lheap \<Rightarrow> 'a lheap option" where
  "list_replace_init old new s = do {
     s \<leftarrow> list_replace old new s;
     Some (INIT_LIST_HEAD old s)
   }"

definition list_del_init :: "'a \<Rightarrow> 'a lheap \<Rightarrow> 'a lheap option" where
  "list_del_init entry s = do {
     s \<leftarrow> list_del_raw (prv s entry) (nxt s entry) s;
     Some (INIT_LIST_HEAD entry s)
   }"

definition list_move :: "'a \<Rightarrow> 'a \<Rightarrow> 'a lheap \<Rightarrow> 'a lheap option" where
  "list_move l head s = do {
     s \<leftarrow> list_del_raw (prv s l) (nxt s l) s;
     list_add l head s
   }"

definition list_move_tail :: "'a \<Rightarrow> 'a \<Rightarrow> 'a lheap \<Rightarrow> 'a lheap option" where
  "list_move_tail l head s = do {
     s \<leftarrow> list_del_raw (prv s l) (nxt s l) s;
     list_add_tail l head s
   }"

definition list_is_last :: "'a \<Rightarrow> 'a \<Rightarrow> 'a lheap \<Rightarrow> bool" where
  "list_is_last l head s \<longleftrightarrow> nxt s l = At head"

definition list_empty :: "'a \<Rightarrow> 'a lheap \<Rightarrow> bool" where
  "list_empty head s \<longleftrightarrow> nxt s head = At head"

definition list_empty_careful :: "'a \<Rightarrow> 'a lheap \<Rightarrow> bool" where
  "list_empty_careful head s \<longleftrightarrow> (let next = nxt s head in next = At head \<and> next = prv s head)"

definition list_is_singular :: "'a \<Rightarrow> 'a lheap \<Rightarrow> bool" where
  "list_is_singular head s \<longleftrightarrow> \<not> list_empty head s \<and> nxt s head = prv s head"

definition list_cut_position_raw :: "'a \<Rightarrow> 'a \<Rightarrow> 'a \<Rightarrow> 'a lheap \<Rightarrow> 'a lheap option" where
  "list_cut_position_raw l head entry s = do {
     let new_first = nxt s entry;
     let s = set_next l (nxt s head) s;
     n \<leftarrow> at_node (nxt s l);
     let s = set_prev n (At l) s;
     let s = set_prev l (At entry) s;
     let s = set_next entry (At l) s;
     let s = set_next head new_first s;
     f \<leftarrow> at_node new_first;
     Some (set_prev f (At head) s)
   }"

definition list_cut_position :: "'a \<Rightarrow> 'a \<Rightarrow> 'a \<Rightarrow> 'a lheap \<Rightarrow> 'a lheap option" where
  "list_cut_position l head entry s =
     (if list_empty head s then Some s
      else if list_is_singular head s \<and> (nxt s head \<noteq> At entry \<and> head \<noteq> entry) then Some s
      else if entry = head then Some (INIT_LIST_HEAD l s)
      else list_cut_position_raw l head entry s)"

definition list_splice_raw :: "'a \<Rightarrow> 'a lptr \<Rightarrow> 'a lptr \<Rightarrow> 'a lheap \<Rightarrow> 'a lheap option" where
  "list_splice_raw l prev next s = do {
     first \<leftarrow> at_node (nxt s l);
     last \<leftarrow> at_node (prv s l);
     let s = set_prev first prev s;
     p \<leftarrow> at_node prev;
     let s = set_next p (At first) s;
     let s = set_next last next s;
     n \<leftarrow> at_node next;
     Some (set_prev n (At last) s)
   }"

definition list_splice :: "'a \<Rightarrow> 'a \<Rightarrow> 'a lheap \<Rightarrow> 'a lheap option" where
  "list_splice l head s =
     (if \<not> list_empty l s then list_splice_raw l (At head) (nxt s head) s else Some s)"

definition list_splice_tail :: "'a \<Rightarrow> 'a \<Rightarrow> 'a lheap \<Rightarrow> 'a lheap option" where
  "list_splice_tail l head s =
     (if \<not> list_empty l s then list_splice_raw l (prv s head) (At head) s else Some s)"

definition list_splice_init :: "'a \<Rightarrow> 'a \<Rightarrow> 'a lheap \<Rightarrow> 'a lheap option" where
  "list_splice_init l head s =
     (if \<not> list_empty l s
      then do {
        s \<leftarrow> list_splice_raw l (At head) (nxt s head) s;
        Some (INIT_LIST_HEAD l s)
      }
      else Some s)"

definition list_splice_tail_init :: "'a \<Rightarrow> 'a \<Rightarrow> 'a lheap \<Rightarrow> 'a lheap option" where
  "list_splice_tail_init l head s =
     (if \<not> list_empty l s
      then do {
        s \<leftarrow> list_splice_raw l (prv s head) (At head) s;
        Some (INIT_LIST_HEAD l s)
      }
      else Some s)"

text \<open>
  The loops. \<open>list_for_each\<close> reads \<open>pos->next\<close> after the body, \<open>list_for_each_safe\<close> before it; the
  body acts on the store and on a state of its own. Both loops may fail to end on a store that
  is not a ring, so they are partial functions.
\<close>

partial_function (option) list_for_each_from ::
  "('a \<Rightarrow> 'a lheap \<times> 's \<Rightarrow> ('a lheap \<times> 's) option) \<Rightarrow> 'a \<Rightarrow> 'a lptr \<Rightarrow> 'a lheap \<times> 's \<Rightarrow> ('a lheap \<times> 's) option" where
  "list_for_each_from body head pos st =
     (if pos = At head then Some st
      else Option.bind (at_node pos) (\<lambda>p.
        Option.bind (body p st) (\<lambda>st. list_for_each_from body head (nxt (fst st) p) st)))"

definition list_for_each ::
  "('a \<Rightarrow> 'a lheap \<times> 's \<Rightarrow> ('a lheap \<times> 's) option) \<Rightarrow> 'a \<Rightarrow> 'a lheap \<times> 's \<Rightarrow> ('a lheap \<times> 's) option" where
  "list_for_each body head st = list_for_each_from body head (nxt (fst st) head) st"

partial_function (option) list_for_each_safe_from ::
  "('a \<Rightarrow> 'a lheap \<times> 's \<Rightarrow> ('a lheap \<times> 's) option) \<Rightarrow> 'a \<Rightarrow> 'a lptr \<Rightarrow> 'a lptr \<Rightarrow> 'a lheap \<times> 's \<Rightarrow> ('a lheap \<times> 's) option" where
  "list_for_each_safe_from body head pos n st =
     (if pos = At head then Some st
      else Option.bind (at_node pos) (\<lambda>p.
        Option.bind (body p st) (\<lambda>st.
          Option.bind (at_node n) (\<lambda>q.
            list_for_each_safe_from body head n (nxt (fst st) q) st))))"

definition list_for_each_safe ::
  "('a \<Rightarrow> 'a lheap \<times> 's \<Rightarrow> ('a lheap \<times> 's) option) \<Rightarrow> 'a \<Rightarrow> 'a lheap \<times> 's \<Rightarrow> ('a lheap \<times> 's) option" where
  "list_for_each_safe body head st =
     Option.bind (at_node (nxt (fst st) head)) (\<lambda>p.
       list_for_each_safe_from body head (At p) (nxt (fst st) p) st)"

section \<open>Rings\<close>

fun linked :: "'a lheap \<Rightarrow> 'a list \<Rightarrow> bool" where
  "linked s (x # y # zs) \<longleftrightarrow> nxt s x = At y \<and> prv s y = At x \<and> linked s (y # zs)"
| "linked s _ \<longleftrightarrow> True"

definition dlist :: "'a lheap \<Rightarrow> 'a \<Rightarrow> 'a list \<Rightarrow> bool" where
  "dlist s h xs \<longleftrightarrow> linked s (h # xs @ [h]) \<and> distinct (h # xs)"

text \<open>Only the fields of nodes of \<open>S\<close> were written.\<close>

definition same_nodes_off :: "'a set \<Rightarrow> 'a lheap \<Rightarrow> 'a lheap \<Rightarrow> bool" where
  "same_nodes_off S s s' \<longleftrightarrow> (\<forall>a. a \<notin> S \<longrightarrow> nxt s' a = nxt s a \<and> prv s' a = prv s a)"

lemma linked_append: "linked s (xs @ y # ys) \<longleftrightarrow> linked s (xs @ [y]) \<and> linked s (y # ys)"
proof (induction xs)
  case Nil
  then show ?case by simp
next
  case (Cons x xs)
  then show ?case by (cases xs) auto
qed

lemma linked_cong:
  "(\<And>c. c \<in> set (butlast xs) \<Longrightarrow> nxt s' c = nxt s c) \<Longrightarrow>
   (\<And>c. c \<in> set (tl xs) \<Longrightarrow> prv s' c = prv s c) \<Longrightarrow> linked s' xs = linked s xs"
  by (induction s xs rule: linked.induct) auto

lemma dlist_frame:
  "dlist s h xs \<Longrightarrow> same_nodes_off S s s' \<Longrightarrow> S \<inter> set (h # xs) = {} \<Longrightarrow> dlist s' h xs"
proof -
  assume d: "dlist s h xs" and o: "same_nodes_off S s s'" and e: "S \<inter> set (h # xs) = {}"
  have "linked s' (h # xs @ [h]) = linked s (h # xs @ [h])"
    by (rule linked_cong) (use o e in \<open>auto simp: same_nodes_off_def butlast_append split: if_splits\<close>)
  with d show ?thesis by (simp add: dlist_def)
qed

text \<open>
  Every change of a ring replaces one link: \<open>p\<close> gets a new successor \<open>n\<close>, and \<open>n\<close> the new
  predecessor \<open>p\<close>. The parts of the ring before \<open>p\<close> and after \<open>n\<close> do not notice.
\<close>

lemma linked_relink:
  assumes "linked s (us @ [p])" and "linked s (n # vs)"
    and np: "nxt s' p = At n" "prv s' n = At p"
    and un: "\<And>c. c \<in> set us \<Longrightarrow> nxt s' c = nxt s c" and up: "\<And>c. c \<in> set (tl (us @ [p])) \<Longrightarrow> prv s' c = prv s c"
    and vn: "\<And>c. c \<in> set (butlast (n # vs)) \<Longrightarrow> nxt s' c = nxt s c" and vp: "\<And>c. c \<in> set vs \<Longrightarrow> prv s' c = prv s c"
  shows "linked s' (us @ p # n # vs)"
proof -
  have "linked s' (us @ [p]) = linked s (us @ [p])" by (rule linked_cong) (use un up in auto)
  moreover have "linked s' (n # vs) = linked s (n # vs)" by (rule linked_cong) (use vn vp in auto)
  ultimately show ?thesis using assms(1,2) np by (simp add: linked_append [of s' us p "n # vs"])
qed

text \<open>Two consecutive nodes of a ring, as the neighbours of an inserted or removed node.\<close>

lemma ring_split:
  "\<exists>us p n vs. h # xs = us @ [p] \<and> ys @ [h] = n # vs \<and> p = last (h # xs) \<and> n = hd (ys @ [h])"
  by (metis append_butlast_last_id list.distinct(1) list.exhaust_sel snoc_eq_iff_butlast)

lemma list_add_raw_between:
  assumes d: "dlist s h (xs @ ys)" and new: "new \<notin> set (h # xs @ ys)"
  shows "\<exists>s'. list_add_raw new (At (last (h # xs))) (At (hd (ys @ [h]))) s = Some s' \<and>
     dlist s' h (xs @ new # ys) \<and> same_nodes_off {new, last (h # xs), hd (ys @ [h])} s s'"
proof -
  obtain us p n vs where r: "h # xs = us @ [p]" "ys @ [h] = n # vs" "last (h # xs) = p" "hd (ys @ [h]) = n"
    using ring_split [of h xs ys] by metis
  have R: "h # (xs @ ys) @ [h] = us @ p # n # vs" using r(1,2) by (metis append_Cons append_assoc append_Nil)
  have L: "linked s (us @ p # n # vs)" using d R by (simp add: dlist_def)
  have l1: "linked s (us @ [p])" and l2: "linked s (n # vs)" and pn: "nxt s p = At n" "prv s n = At p"
    using L by (auto simp: linked_append [of s us p "n # vs"])
  have bd: "distinct (us @ p # butlast (n # vs))"
  proof -
    have "butlast (h # (xs @ ys) @ [h]) = us @ p # butlast (n # vs)" unfolding R by (simp add: butlast_append)
    then show ?thesis using d by (simp add: dlist_def butlast_append)
  qed
  have td: "distinct (tl (us @ [p]) @ n # vs)"
  proof -
    have "tl (h # (xs @ ys) @ [h]) = tl (us @ [p]) @ n # vs" unfolding R by (cases us) auto
    then have "distinct (tl (us @ [p]) @ n # vs) = distinct (xs @ ys @ [h])" by simp
    then show ?thesis using d by (auto simp: dlist_def)
  qed
  have nf: "new \<notin> set us" "new \<noteq> p" "new \<noteq> n" "new \<notin> set vs"
  proof -
    have "new \<notin> set (h # (xs @ ys) @ [h])" using new by auto
    then show "new \<notin> set us" "new \<noteq> p" "new \<noteq> n" "new \<notin> set vs" unfolding R by auto
  qed
  define s' where "s' = set_next p (At new) (set_prev new (At p) (set_next new (At n) (set_prev n (At new) s)))"
  have run: "list_add_raw new (At p) (At n) s = Some s'" by (simp add: list_add_raw_def s'_def Let_def)
  have "linked s' ((us @ [p]) @ new # n # vs)"
  proof -
    have "linked s' (us @ p # [new])"
      by (rule linked_relink [where s = s]) (use l1 bd td nf in \<open>auto simp: s'_def tl_append split: list.splits\<close>)
    moreover have "linked s' (n # vs) = linked s (n # vs)"
      by (rule linked_cong) (use bd td nf in \<open>auto simp: s'_def split: if_splits dest: in_set_butlastD\<close>)
    moreover have "nxt s' new = At n" "prv s' n = At new" using nf by (auto simp: s'_def)
    ultimately show ?thesis using l2 unfolding linked_append [of s' "us @ [p]" new "n # vs"] by simp
  qed
  moreover have "h # (xs @ new # ys) @ [h] = (us @ [p]) @ new # n # vs" using r(1,2) by simp
  ultimately have "dlist s' h (xs @ new # ys)" using d new by (auto simp: dlist_def)
  then show ?thesis using run r(3,4) by (auto simp: same_nodes_off_def s'_def)
qed

lemma dlist_next: "dlist s h xs \<Longrightarrow> nxt s h = At (hd (xs @ [h]))"
  by (cases xs) (auto simp: dlist_def)

lemma linked_snoc2: "linked s (us @ [p, n]) \<longleftrightarrow> linked s (us @ [p]) \<and> nxt s p = At n \<and> prv s n = At p"
  by (simp add: linked_append [of s us p "[n]"])

lemma dlist_prev: "dlist s h xs \<Longrightarrow> prv s h = At (last (h # xs))"
proof (cases xs rule: rev_cases)
  case (snoc ys y)
  assume "dlist s h xs"
  with snoc have "linked s ((h # ys) @ [y, h])" by (simp add: dlist_def)
  then show ?thesis unfolding linked_snoc2 using snoc by simp
qed (simp add: dlist_def)

lemma list_add_dlist:
  assumes "dlist s h xs" and "new \<notin> set (h # xs)"
  shows "\<exists>s'. list_add new h s = Some s' \<and> dlist s' h (new # xs) \<and>
     same_nodes_off ({new, h} \<union> set xs) s s'"
proof -
  have "hd (xs @ [h]) \<in> insert h (set xs)" by (cases xs) auto
  then show ?thesis
    using list_add_raw_between [of s h "[]" xs new] assms dlist_next [OF assms(1)]
    by (fastforce simp: list_add_def same_nodes_off_def)
qed

lemma list_add_tail_dlist:
  assumes "dlist s h xs" and "new \<notin> set (h # xs)"
  shows "\<exists>s'. list_add_tail new h s = Some s' \<and> dlist s' h (xs @ [new]) \<and>
     same_nodes_off ({new, h} \<union> set xs) s s'"
  using list_add_raw_between [of s h xs "[]" new] assms dlist_prev [OF assms(1)]
    last_in_set [of "h # xs"]
  by (fastforce simp: list_add_tail_def same_nodes_off_def simp del: last.simps)

lemma linked_app:
  "xs \<noteq> [] \<Longrightarrow> ys \<noteq> [] \<Longrightarrow> linked s (xs @ ys) \<longleftrightarrow>
     linked s xs \<and> linked s ys \<and> nxt s (last xs) = At (hd ys) \<and> prv s (hd ys) = At (last xs)"
proof -
  assume a: "xs \<noteq> []" "ys \<noteq> []"
  then obtain us p n vs where e: "xs = us @ [p]" "ys = n # vs" by (metis list.exhaust rev_exhaust)
  have "linked s (xs @ ys) \<longleftrightarrow> linked s (us @ p # n # vs)" by (simp add: e)
  then show ?thesis by (simp add: e linked_append [of s us p "n # vs"]) blast
qed

text \<open>A ring cut in two: \<open>h # xs\<close> and \<open>ys @ [h]\<close>.\<close>

lemma dlist_cut:
  "dlist s h (xs @ ys) \<longleftrightarrow>
     linked s (h # xs) \<and> linked s (ys @ [h]) \<and>
     nxt s (last (h # xs)) = At (hd (ys @ [h])) \<and> prv s (hd (ys @ [h])) = At (last (h # xs)) \<and>
     distinct (h # xs @ ys)"
  using linked_app [of "h # xs" "ys @ [h]" s] by (auto simp: dlist_def)

lemma linked_keep:
  assumes "linked s xs"
    and "\<And>c. c \<in> set (butlast xs) \<Longrightarrow> nxt s' c = nxt s c"
    and "\<And>c. c \<in> set (tl xs) \<Longrightarrow> prv s' c = prv s c"
  shows "linked s' xs"
  using linked_cong [of xs s' s] assms by blast

lemma set_butlast_distinct: "distinct xs \<Longrightarrow> xs \<noteq> [] \<Longrightarrow> c \<in> set (butlast xs) \<Longrightarrow> c \<noteq> last xs"
  by (metis append_butlast_last_id distinct_butlast not_distinct_conv_prefix)

lemma set_tl_distinct: "distinct xs \<Longrightarrow> xs \<noteq> [] \<Longrightarrow> c \<in> set (tl xs) \<Longrightarrow> c \<noteq> hd xs"
  by (cases xs) auto

lemma list_del_raw_dlist:
  assumes d: "dlist s h (xs @ e # ys)"
  shows "\<exists>s'. list_del_raw (prv s e) (nxt s e) s = Some s' \<and> dlist s' h (xs @ ys) \<and>
     same_nodes_off {last (h # xs), hd (ys @ [h])} s s'"
proof -
  let ?p = "last (h # xs)" and ?n = "hd (ys @ [h])"
  have c1: "linked s (h # xs)" and dd: "distinct (h # xs @ e # ys)" and pe: "prv s e = At ?p"
    using d unfolding dlist_cut by auto
  have "dlist s h ((xs @ [e]) @ ys)" using d by simp
  then have c2: "linked s (ys @ [h])" and en: "nxt s e = At ?n" unfolding dlist_cut by auto
  define s' where "s' = set_next ?p (At ?n) (set_prev ?n (At ?p) s)"
  have run: "list_del_raw (prv s e) (nxt s e) s = Some s'"
    unfolding pe en by (simp add: list_del_raw_def s'_def Let_def)
  have nx: "?n \<notin> set xs" using dd by (cases ys) auto
  have pq: "?p \<notin> set ys" using dd last_in_set [of "h # xs"] by (auto simp del: last.simps)
  have dn: "distinct (ys @ [h])" using dd by auto
  have "linked s' (h # xs)"
    by (rule linked_keep [OF c1])
      (use nx dd set_butlast_distinct [of "h # xs"] in \<open>auto simp: s'_def\<close>)
  moreover have "linked s' (ys @ [h])"
    by (rule linked_keep [OF c2])
      (use pq dn set_tl_distinct [OF dn] in \<open>auto simp: s'_def butlast_append\<close>)
  ultimately have "dlist s' h (xs @ ys)"
    using dd unfolding dlist_cut by (auto simp: s'_def)
  then show ?thesis using run by (auto simp: same_nodes_off_def s'_def)
qed

lemma INIT_LIST_HEAD_dlist: "dlist (INIT_LIST_HEAD e s) e []"
  by (simp add: dlist_def INIT_LIST_HEAD_def)

lemma same_nodes_off_INIT: "same_nodes_off {e} s (INIT_LIST_HEAD e s)"
  by (simp add: same_nodes_off_def INIT_LIST_HEAD_def)

lemma same_nodes_off_trans:
  "same_nodes_off S s t \<Longrightarrow> same_nodes_off T t u \<Longrightarrow> same_nodes_off (S \<union> T) s u"
  by (auto simp: same_nodes_off_def)

lemma same_nodes_off_mono: "same_nodes_off S s t \<Longrightarrow> S \<subseteq> T \<Longrightarrow> same_nodes_off T s t"
  by (auto simp: same_nodes_off_def)

lemma neighbours_in: "{last (h # xs), hd (ys @ [h])} \<subseteq> {h} \<union> set xs \<union> set ys"
  using last_in_set [of "h # xs"] by (auto simp: hd_append simp del: last.simps)

lemma list_del_dlist:
  assumes d: "dlist s h (xs @ e # ys)"
  shows "\<exists>s'. list_del e s = Some s' \<and> dlist s' h (xs @ ys) \<and> nxt s' e = LPoison1 \<and> prv s' e = LPoison2 \<and>
     same_nodes_off ({h} \<union> set xs \<union> set ys \<union> {e}) s s'"
proof -
  from list_del_raw_dlist [OF d] obtain s1 where
    r: "list_del_raw (prv s e) (nxt s e) s = Some s1" and d1: "dlist s1 h (xs @ ys)"
    and o1: "same_nodes_off {last (h # xs), hd (ys @ [h])} s s1" by blast
  let ?s' = "set_prev e LPoison2 (set_next e LPoison1 s1)"
  have "dlist ?s' h (xs @ ys)"
    by (rule dlist_frame [OF d1, of "{e}"]) (use d in \<open>auto simp: same_nodes_off_def dlist_def\<close>)
  moreover have "same_nodes_off ({h} \<union> set xs \<union> set ys \<union> {e}) s ?s'"
    by (rule same_nodes_off_trans [OF same_nodes_off_mono [OF o1 neighbours_in]])
      (simp add: same_nodes_off_def)
  ultimately show ?thesis using r by (simp add: list_del_def)
qed

lemma list_del_init_dlist:
  assumes d: "dlist s h (xs @ e # ys)"
  shows "\<exists>s'. list_del_init e s = Some s' \<and> dlist s' h (xs @ ys) \<and> dlist s' e [] \<and>
     same_nodes_off ({h} \<union> set xs \<union> set ys \<union> {e}) s s'"
proof -
  from list_del_raw_dlist [OF d] obtain s1 where
    r: "list_del_raw (prv s e) (nxt s e) s = Some s1" and d1: "dlist s1 h (xs @ ys)"
    and o1: "same_nodes_off {last (h # xs), hd (ys @ [h])} s s1" by blast
  have "dlist (INIT_LIST_HEAD e s1) h (xs @ ys)"
    by (rule dlist_frame [OF d1 same_nodes_off_INIT]) (use d in \<open>auto simp: dlist_def\<close>)
  moreover have "same_nodes_off ({h} \<union> set xs \<union> set ys \<union> {e}) s (INIT_LIST_HEAD e s1)"
    by (rule same_nodes_off_trans [OF same_nodes_off_mono [OF o1 neighbours_in] same_nodes_off_INIT])
  ultimately show ?thesis using r INIT_LIST_HEAD_dlist [of e s1] by (simp add: list_del_init_def)
qed

lemma list_empty_dlist: "dlist s h xs \<Longrightarrow> list_empty h s \<longleftrightarrow> xs = []"
  by (cases xs) (auto simp: list_empty_def dlist_def)

text \<open>An entry that is on no list and was initialised is a ring of its own: \<open>list_empty(entry)\<close>
  is the library's test for "not enqueued".\<close>

lemma list_entry_not_empty: "dlist s h (xs @ e # ys) \<Longrightarrow> \<not> list_empty e s"
proof -
  assume "dlist s h (xs @ e # ys)"
  then have "dlist s h ((xs @ [e]) @ ys)" and d: "distinct (h # xs @ e # ys)" by (auto simp: dlist_def)
  then have "nxt s e = At (hd (ys @ [h]))" unfolding dlist_cut by auto
  then show ?thesis using d by (cases ys) (auto simp: list_empty_def)
qed

lemma dlist_ends:
  assumes "dlist s h xs"
  shows "nxt s h = prv s h \<longleftrightarrow> length xs \<le> 1"
proof (cases xs rule: rev_cases)
  case Nil
  then show ?thesis using dlist_next [OF assms] dlist_prev [OF assms] by simp
next
  case (snoc ys y)
  have "nxt s h = prv s h \<longleftrightarrow> hd (ys @ [y]) = y"
    using dlist_next [OF assms] dlist_prev [OF assms] snoc by (simp add: hd_append)
  moreover have "distinct (ys @ [y])" using assms snoc by (simp add: dlist_def)
  ultimately show ?thesis using snoc by (cases ys) auto
qed

lemma list_is_singular_dlist: "dlist s h xs \<Longrightarrow> list_is_singular h s \<longleftrightarrow> length xs = 1"
  using dlist_ends [of s h xs] list_empty_dlist [of s h xs]
  by (cases xs) (simp_all add: list_is_singular_def)

lemma list_empty_careful_dlist: "dlist s h xs \<Longrightarrow> list_empty_careful h s \<longleftrightarrow> xs = []"
  using dlist_ends [of s h xs] list_empty_dlist [of s h xs]
  by (auto simp: list_empty_careful_def list_empty_def Let_def)

lemma list_is_last_dlist: "dlist s h (xs @ e # ys) \<Longrightarrow> list_is_last e h s \<longleftrightarrow> ys = []"
proof -
  assume "dlist s h (xs @ e # ys)"
  then have "dlist s h ((xs @ [e]) @ ys)" and d: "distinct (h # xs @ e # ys)" by (auto simp: dlist_def)
  then have "nxt s e = At (hd (ys @ [h]))" unfolding dlist_cut by auto
  then show ?thesis using d by (cases ys) (auto simp: list_is_last_def)
qed

section \<open>Moving whole lists\<close>

lemma dlist_nonempty:
  "xs \<noteq> [] \<Longrightarrow> dlist s h xs \<longleftrightarrow>
     linked s xs \<and> nxt s h = At (hd xs) \<and> prv s (hd xs) = At h \<and>
     nxt s (last xs) = At h \<and> prv s h = At (last xs) \<and> distinct (h # xs)"
  using linked_app [of "[h]" "xs @ [h]" s] linked_app [of xs "[h]" s]
  by (auto simp: dlist_def)

lemma list_replace_dlist:
  assumes d: "dlist s old xs" and new: "new \<notin> set (old # xs)"
  shows "\<exists>s'. list_replace old new s = Some s' \<and> dlist s' new xs \<and>
     same_nodes_off ({old, new} \<union> set xs) s s'"
proof (cases "xs = []")
  case True
  with d have o: "nxt s old = At old" "prv s old = At old" by (auto simp: dlist_def)
  show ?thesis
    using o new True by (auto simp: list_replace_def Let_def dlist_def same_nodes_off_def)
next
  case False
  let ?n = "hd xs" and ?p = "last xs"
  have mem: "?n \<in> set xs" "?p \<in> set xs" using False by auto
  have o: "nxt s old = At ?n" "prv s old = At ?p" "linked s xs" "distinct (old # xs)"
    using d False by (auto simp: dlist_nonempty)
  have neq: "?n \<noteq> old" "?n \<noteq> new" "?p \<noteq> old" "?p \<noteq> new" using mem o(4) new by auto
  define s' where "s' = set_next ?p (At new) (set_prev new (At ?p) (set_prev ?n (At new) (set_next new (At ?n) s)))"
  have run: "list_replace old new s = Some s'"
    using o neq new by (simp add: list_replace_def s'_def Let_def)
  have "linked s' xs"
    by (rule linked_keep [OF o(3)])
      (use o(4) new False set_butlast_distinct [of xs] set_tl_distinct [of xs] in
        \<open>auto simp: s'_def dest: in_set_butlastD list.set_sel(2)\<close>)
  then have "dlist s' new xs"
    using False o neq new by (simp add: dlist_nonempty s'_def)
  moreover have "same_nodes_off ({old, new} \<union> set xs) s s'"
    using mem by (auto simp: same_nodes_off_def s'_def)
  ultimately show ?thesis using run by blast
qed

lemma list_replace_init_dlist:
  assumes d: "dlist s old xs" and new: "new \<notin> set (old # xs)"
  shows "\<exists>s'. list_replace_init old new s = Some s' \<and> dlist s' new xs \<and> dlist s' old [] \<and>
     same_nodes_off ({old, new} \<union> set xs) s s'"
proof -
  from list_replace_dlist [OF assms] obtain s1 where r: "list_replace old new s = Some s1"
    and d1: "dlist s1 new xs" and o1: "same_nodes_off ({old, new} \<union> set xs) s s1" by blast
  have "dlist (INIT_LIST_HEAD old s1) new xs"
    by (rule dlist_frame [OF d1 same_nodes_off_INIT]) (use d new in \<open>auto simp: dlist_def\<close>)
  moreover have "same_nodes_off ({old, new} \<union> set xs) s (INIT_LIST_HEAD old s1)"
    by (rule same_nodes_off_mono [OF same_nodes_off_trans [OF o1 same_nodes_off_INIT]]) auto
  ultimately show ?thesis using r INIT_LIST_HEAD_dlist [of old s1] by (simp add: list_replace_init_def)
qed

lemma list_splice_raw_dlist:
  assumes l: "dlist s l xs" and ne: "xs \<noteq> []" and h: "dlist s h (as @ bs)"
    and disj: "set (l # xs) \<inter> set (h # as @ bs) = {}"
  shows "\<exists>s'. list_splice_raw l (At (last (h # as))) (At (hd (bs @ [h]))) s = Some s' \<and>
     dlist s' h (as @ xs @ bs) \<and> same_nodes_off (set (h # as @ xs @ bs)) s s'"
proof -
  let ?p = "last (h # as)" and ?n = "hd (bs @ [h])" and ?f = "hd xs" and ?e = "last xs"
  have lx: "nxt s l = At ?f" "prv s l = At ?e" "linked s xs" "distinct xs" using l ne by (auto simp: dlist_nonempty)
  have c: "linked s (h # as)" "linked s (bs @ [h])" and dd: "distinct (h # as @ bs)"
    using h unfolding dlist_cut by auto
  have fx: "?f \<in> set xs" "?e \<in> set xs" using ne by auto
  have pn: "?p \<in> set (h # as)" "?n \<in> set (bs @ [h])" using neighbours_in [of h as bs] last_in_set [of "h # as"]
    by (auto simp: hd_append simp del: last.simps)
  define s' where "s' = set_prev ?n (At ?e) (set_next ?e (At ?n) (set_next ?p (At ?f) (set_prev ?f (At ?p) s)))"
  have run: "list_splice_raw l (At ?p) (At ?n) s = Some s'"
    using lx by (simp add: list_splice_raw_def s'_def Let_def)
  have dn: "distinct (bs @ [h])" and dp: "distinct (h # as)" using dd by auto
  have pb: "?p \<notin> set bs" using dd pn by (auto simp del: last.simps)
  have na: "?n \<notin> set as" using dd pn by (auto simp del: last.simps)
  have px: "?p \<notin> set xs" "?n \<notin> set xs" using disj pn by (auto simp del: last.simps)
  have xh: "set xs \<inter> set (h # as @ bs) = {}" using disj by auto
  have eb: "?e \<notin> set (butlast (h # as))"
    using xh fx(2) in_set_butlastD [of ?e "h # as"] by auto
  have "linked s' (h # as)"
    by (rule linked_keep [OF c(1)])
      (use na xh fx eb set_butlast_distinct [OF dp] in
        \<open>auto simp: s'_def dest: in_set_butlastD simp del: last.simps butlast.simps\<close>)
  moreover have "linked s' (bs @ [h])"
    by (rule linked_keep [OF c(2)])
      (use pb xh fx set_tl_distinct [OF dn] in
        \<open>auto simp: s'_def butlast_append dest!: list.set_sel(2) [rotated] split: if_splits simp del: last.simps\<close>)
  moreover have "linked s' xs"
    by (rule linked_keep [OF lx(3)])
      (use px ne set_butlast_distinct [OF lx(4)] set_tl_distinct [OF lx(4)] in
        \<open>auto simp: s'_def dest: in_set_butlastD list.set_sel(2) simp del: last.simps\<close>)
  moreover have "?p \<noteq> ?e" "?n \<noteq> ?f" using px fx by auto
  ultimately have "linked s' ((h # as) @ (xs @ (bs @ [h])))"
    using ne by (subst linked_app; (simp del: last.simps)?)+ (simp add: s'_def del: last.simps)
  then have "dlist s' h (as @ xs @ bs)" using dd lx(4) xh by (auto simp: dlist_def)
  moreover have "same_nodes_off (set (h # as @ xs @ bs)) s s'"
    using pn fx by (auto simp: same_nodes_off_def s'_def simp del: last.simps)
  ultimately show ?thesis using run by blast
qed

text \<open>The four splices; the \<open>_init\<close> ones also make the emptied head a ring of its own.\<close>

lemma list_splice_dlist:
  assumes l: "dlist s l xs" and h: "dlist s h ys" and disj: "set (l # xs) \<inter> set (h # ys) = {}"
  shows "\<exists>s'. list_splice l h s = Some s' \<and> dlist s' h (xs @ ys) \<and> same_nodes_off (set (h # xs @ ys)) s s'"
    and "\<exists>s'. list_splice_tail l h s = Some s' \<and> dlist s' h (ys @ xs) \<and> same_nodes_off (set (h # ys @ xs)) s s'"
proof -
  show "\<exists>s'. list_splice l h s = Some s' \<and> dlist s' h (xs @ ys) \<and> same_nodes_off (set (h # xs @ ys)) s s'"
  proof (cases "xs = []")
    case True
    then show ?thesis using h list_empty_dlist [OF l] by (simp add: list_splice_def same_nodes_off_def)
  next
    case False
    then show ?thesis
      using list_splice_raw_dlist [OF l False, of h "[]" ys] h disj list_empty_dlist [OF l] dlist_next [OF h]
      by (simp add: list_splice_def)
  qed
  show "\<exists>s'. list_splice_tail l h s = Some s' \<and> dlist s' h (ys @ xs) \<and> same_nodes_off (set (h # ys @ xs)) s s'"
  proof (cases "xs = []")
    case True
    then show ?thesis using h list_empty_dlist [OF l] by (simp add: list_splice_tail_def same_nodes_off_def)
  next
    case False
    then show ?thesis
      using list_splice_raw_dlist [OF l False, of h ys "[]"] h disj list_empty_dlist [OF l] dlist_prev [OF h]
      by (simp add: list_splice_tail_def del: last.simps)
  qed
qed

lemma list_splice_init_unfold:
  "list_splice_init l h s = Option.bind (list_splice l h s) (\<lambda>s'. Some (if list_empty l s then s' else INIT_LIST_HEAD l s'))"
  "list_splice_tail_init l h s = Option.bind (list_splice_tail l h s) (\<lambda>s'. Some (if list_empty l s then s' else INIT_LIST_HEAD l s'))"
  by (simp_all add: list_splice_init_def list_splice_def list_splice_tail_init_def list_splice_tail_def)

lemma splice_init_step:
  assumes l: "dlist s l xs" and d: "dlist s' h zs" and o: "same_nodes_off (set (h # zs)) s s'"
    and n: "l \<notin> set (h # zs)"
  shows "dlist (if list_empty l s then s' else INIT_LIST_HEAD l s') h zs \<and>
    dlist (if list_empty l s then s' else INIT_LIST_HEAD l s') l []"
proof (cases "list_empty l s")
  case True
  then have "dlist s l []" using l list_empty_dlist [OF l] by simp
  then have "dlist s' l []" by (rule dlist_frame [OF _ o]) (use n in auto)
  then show ?thesis using True d by simp
next
  case False
  have "dlist (INIT_LIST_HEAD l s') h zs" by (rule dlist_frame [OF d same_nodes_off_INIT]) (use n in auto)
  then show ?thesis using False INIT_LIST_HEAD_dlist by simp
qed

lemma list_splice_init_dlist:
  assumes l: "dlist s l xs" and h: "dlist s h ys" and disj: "set (l # xs) \<inter> set (h # ys) = {}"
  shows "\<exists>s'. list_splice_init l h s = Some s' \<and> dlist s' h (xs @ ys) \<and> dlist s' l []"
    and "\<exists>s'. list_splice_tail_init l h s = Some s' \<and> dlist s' h (ys @ xs) \<and> dlist s' l []"
proof -
  have n: "l \<notin> set (h # xs @ ys)" "l \<notin> set (h # ys @ xs)" using l disj by (auto simp: dlist_def)
  from list_splice_dlist(1) [OF assms] obtain s1 where
    "list_splice l h s = Some s1" "dlist s1 h (xs @ ys)" "same_nodes_off (set (h # xs @ ys)) s s1" by blast
  with splice_init_step [OF l _ _ n(1)] show
    "\<exists>s'. list_splice_init l h s = Some s' \<and> dlist s' h (xs @ ys) \<and> dlist s' l []"
    by (simp add: list_splice_init_unfold)
  from list_splice_dlist(2) [OF assms] obtain s2 where
    "list_splice_tail l h s = Some s2" "dlist s2 h (ys @ xs)" "same_nodes_off (set (h # ys @ xs)) s s2" by blast
  with splice_init_step [OF l _ _ n(2)] show
    "\<exists>s'. list_splice_tail_init l h s = Some s' \<and> dlist s' h (ys @ xs) \<and> dlist s' l []"
    by (simp add: list_splice_init_unfold)
qed

text \<open>Moving an entry to another list. The entry is off its list when it is added, so the two
  lists may also be the same.\<close>

lemma list_move_same:
  assumes d: "dlist s h (xs @ e # ys)"
  shows "\<exists>s'. list_move e h s = Some s' \<and> dlist s' h (e # xs @ ys)"
    and "\<exists>s'. list_move_tail e h s = Some s' \<and> dlist s' h (xs @ ys @ [e])"
proof -
  from list_del_raw_dlist [OF d] obtain s1 where
    r: "list_del_raw (prv s e) (nxt s e) s = Some s1" and d1: "dlist s1 h (xs @ ys)" by blast
  have n: "e \<notin> set (h # xs @ ys)" using d by (auto simp: dlist_def)
  show "\<exists>s'. list_move e h s = Some s' \<and> dlist s' h (e # xs @ ys)"
    using list_add_dlist [OF d1 n] r by (auto simp: list_move_def)
  show "\<exists>s'. list_move_tail e h s = Some s' \<and> dlist s' h (xs @ ys @ [e])"
    using list_add_tail_dlist [OF d1 n] r by (auto simp: list_move_tail_def)
qed

lemma list_move_other:
  assumes d: "dlist s k (xs @ e # ys)" and h: "dlist s h zs"
    and disj: "set (k # xs @ e # ys) \<inter> set (h # zs) = {}"
  shows "\<exists>s'. list_move e h s = Some s' \<and> dlist s' h (e # zs) \<and> dlist s' k (xs @ ys)"
    and "\<exists>s'. list_move_tail e h s = Some s' \<and> dlist s' h (zs @ [e]) \<and> dlist s' k (xs @ ys)"
proof -
  from list_del_raw_dlist [OF d] obtain s1 where
    r: "list_del_raw (prv s e) (nxt s e) s = Some s1" and d1: "dlist s1 k (xs @ ys)"
    and o1: "same_nodes_off {last (k # xs), hd (ys @ [k])} s s1" by blast
  have h1: "dlist s1 h zs"
    by (rule dlist_frame [OF h same_nodes_off_mono [OF o1 neighbours_in]]) (use disj in auto)
  have n: "e \<notin> set (h # zs)" using disj by auto
  have e: "({e, h} \<union> set zs) \<inter> set (k # xs @ ys) = {}" using d disj by (auto simp: dlist_def)
  from list_add_dlist [OF h1 n] obtain s2 where "list_add e h s1 = Some s2" "dlist s2 h (e # zs)"
    "same_nodes_off ({e, h} \<union> set zs) s1 s2" by blast
  then show "\<exists>s'. list_move e h s = Some s' \<and> dlist s' h (e # zs) \<and> dlist s' k (xs @ ys)"
    using r dlist_frame [OF d1 _ e] by (auto simp: list_move_def)
  from list_add_tail_dlist [OF h1 n] obtain s3 where "list_add_tail e h s1 = Some s3" "dlist s3 h (zs @ [e])"
    "same_nodes_off ({e, h} \<union> set zs) s1 s3" by blast
  then show "\<exists>s'. list_move_tail e h s = Some s' \<and> dlist s' h (zs @ [e]) \<and> dlist s' k (xs @ ys)"
    using r dlist_frame [OF d1 _ e] by (auto simp: list_move_tail_def)
qed

text \<open>
  C2: \<open>list_cut_position\<close> splits a ring at any of its entries: the entries up to and including
  the given one become the ring of the new head, in order, and the old head keeps the rest.
\<close>

theorem list_cut_position_splits:
  assumes d: "dlist s head (xs @ entry # ys)" and l: "l \<notin> set (head # xs @ entry # ys)"
  shows "\<exists>s'. list_cut_position l head entry s = Some s' \<and>
     dlist s' l (xs @ [entry]) \<and> dlist s' head ys \<and>
     same_nodes_off (set (l # head # xs @ entry # ys)) s s'"
proof -
  let ?xs = "xs @ [entry]" and ?f = "hd (xs @ [entry])" and ?n = "hd (ys @ [head])"
  have d': "dlist s head (?xs @ ys)" using d by simp
  have ne: "\<not> list_empty head s" using list_empty_dlist [OF d] by simp
  have hf: "nxt s head = At ?f" using dlist_next [OF d] by (simp add: hd_append)
  have c: "linked s (head # ?xs)" "linked s (ys @ [head])" "nxt s entry = At ?n" and dd: "distinct (head # ?xs @ ys)"
    using d' unfolding dlist_cut by auto
  have lxs: "linked s ?xs" using c(1) linked_app [of "[head]" ?xs s] by simp
  have sing: "\<not> (list_is_singular head s \<and> nxt s head \<noteq> At entry \<and> head \<noteq> entry)"
    using list_is_singular_dlist [OF d] hf by (auto simp: hd_append split: if_splits)
  have eh: "entry \<noteq> head" using dd by auto
  define s' where "s' = set_prev ?n (At head) (set_next head (At ?n) (set_next entry (At l)
     (set_prev l (At entry) (set_prev ?f (At l) (set_next l (At ?f) s)))))"
  have run: "list_cut_position l head entry s = Some s'"
    using ne sing eh hf c(3) l by (auto simp: list_cut_position_def list_cut_position_raw_def s'_def Let_def)
  have fx: "?f \<in> set ?xs" and nin: "?n \<in> insert head (set ys)" by (auto simp: hd_append)
  have dx: "distinct ?xs" and dn: "distinct (ys @ [head])" using dd by auto
  have lx: "l \<notin> set ?xs" "l \<notin> set ys" "l \<noteq> head" using l by auto
  have nx: "?n \<notin> set ?xs" using nin dd by auto
  have fn: "?f \<notin> insert head (set ys)" using fx dd by auto
  have "linked s' ?xs"
    by (rule linked_keep [OF lxs])
      (use lx dd nx dx set_butlast_distinct [OF dx] set_tl_distinct [OF dx] in
        \<open>auto simp: s'_def dest: list.set_sel(2) [rotated]\<close>)
  then have "dlist s' l ?xs"
    using lx dd nx fx fn nin dx by (auto simp: dlist_nonempty s'_def)
  moreover have "linked s' (ys @ [head])"
    by (rule linked_keep [OF c(2)])
      (use lx dd fn set_tl_distinct [OF dn] in
        \<open>auto simp: s'_def butlast_append tl_append dest!: list.set_sel(2) [rotated] split: list.splits\<close>)
  then have "dlist s' head ys"
    using dlist_cut [of s' head "[]" ys] dn by (auto simp: s'_def)
  moreover have "same_nodes_off (set (l # head # xs @ entry # ys)) s s'"
    using fx nin by (auto simp: same_nodes_off_def s'_def)
  ultimately show ?thesis using run by blast
qed

theorem list_cut_position_splits_witness:
  "\<exists>s'. list_cut_position 9 0 2
       \<lparr>nxt = (\<lambda>_. LNull)(0 := At 1, 1 := At 2, 2 := At 3, 3 := At (0::nat)),
        prv = (\<lambda>_. LNull)(0 := At 3, 1 := At 0, 2 := At 1, 3 := At 2)\<rparr> = Some s' \<and>
     dlist s' 9 [1, 2] \<and> dlist s' 0 [3]"
proof -
  have "dlist \<lparr>nxt = (\<lambda>_. LNull)(0 := At 1, 1 := At 2, 2 := At 3, 3 := At (0::nat)),
        prv = (\<lambda>_. LNull)(0 := At 3, 1 := At 0, 2 := At 1, 3 := At 2)\<rparr> 0 ([1] @ 2 # [3])"
    by (simp add: dlist_def)
  from list_cut_position_splits [OF this, of 9] show ?thesis by auto
qed

section \<open>The loops\<close>

lemma list_for_each_from_dlist:
  "dlist s h (us @ xs) \<Longrightarrow>
     list_for_each_from (\<lambda>p (s, a). Some (s, f p a)) h (At (hd (xs @ [h]))) (s, a) = Some (s, fold f xs a)"
proof (induction xs arbitrary: us a)
  case Nil
  then show ?case by (simp add: list_for_each_from.simps)
next
  case (Cons x xs)
  then have "dlist s h ((us @ [x]) @ xs)" and xh: "x \<noteq> h" by (auto simp: dlist_def)
  then have "nxt s x = At (hd (xs @ [h]))" unfolding dlist_cut by auto
  then show ?case using Cons.IH [OF \<open>dlist s h ((us @ [x]) @ xs)\<close>, of "f x a"] xh
    by (subst list_for_each_from.simps) simp
qed

lemma list_for_each_dlist:
  "dlist s h xs \<Longrightarrow> list_for_each (\<lambda>p (s, a). Some (s, f p a)) h (s, a) = Some (s, fold f xs a)"
  using list_for_each_from_dlist [of s h "[]" xs f a] dlist_next [of s h xs]
  by (simp add: list_for_each_def)

definition del_visit :: "('a \<Rightarrow> 'b \<Rightarrow> 'b) \<Rightarrow> 'a \<Rightarrow> 'a lheap \<times> 'b \<Rightarrow> ('a lheap \<times> 'b) option" where
  "del_visit f p st = Option.bind (list_del_init p (fst st)) (\<lambda>s. Some (s, f p (snd st)))"

lemma list_for_each_safe_from_drain:
  "dlist s h (x # xs) \<Longrightarrow> (\<And>y. y \<in> Y \<Longrightarrow> dlist s y []) \<Longrightarrow> Y \<inter> set (h # x # xs) = {} \<Longrightarrow>
     \<exists>s'. list_for_each_safe_from (del_visit f) h (At x) (nxt s x) (s, a) = Some (s', fold f (x # xs) a) \<and>
       dlist s' h [] \<and> (\<forall>y \<in> Y \<union> set (x # xs). dlist s' y [])"
proof (induction xs arbitrary: s x a Y)
  case Nil
  from Nil(1) have n: "nxt s x = At h" and xh: "x \<noteq> h" by (auto simp: dlist_def)
  from list_del_init_dlist [of s h "[]" x "[]"] Nil(1) obtain s1 where
    r: "list_del_init x s = Some s1" and d: "dlist s1 h []" "dlist s1 x []"
    and o: "same_nodes_off ({h} \<union> {} \<union> {} \<union> {x}) s s1" by auto
  have "dlist s1 y []" if "y \<in> Y" for y
    by (rule dlist_frame [OF Nil(2) [OF that] o]) (use that Nil(3) in auto)
  then show ?case
    using r d n xh by (subst list_for_each_safe_from.simps)
      (auto simp: del_visit_def list_for_each_safe_from.simps)
next
  case (Cons z zs)
  from Cons.prems(1) have n: "nxt s x = At z" and xh: "x \<noteq> h" "z \<noteq> x"
    using dlist_cut [of s h "[x]" "z # zs"] by (auto simp: dlist_def)
  from list_del_init_dlist [of s h "[]" x "z # zs"] Cons.prems(1) obtain s1 where
    r: "list_del_init x s = Some s1" and d: "dlist s1 h (z # zs)" "dlist s1 x []"
    and o: "same_nodes_off ({h} \<union> {} \<union> set (z # zs) \<union> {x}) s s1" by auto
  have y: "dlist s1 y []" if "y \<in> insert x Y" for y
  proof (cases "y = x")
    case False
    show ?thesis by (rule dlist_frame [OF Cons.prems(2) o]) (use that False Cons.prems(3) in auto)
  qed (use d in simp)
  have "insert x Y \<inter> set (h # z # zs) = {}" using Cons.prems(1,3) by (auto simp: dlist_def)
  from Cons.IH [OF d(1) y this, of "f x a"] obtain s' where
    "list_for_each_safe_from (del_visit f) h (At z) (nxt s1 z) (s1, f x a) = Some (s', fold f (z # zs) (f x a))"
    "dlist s' h []" "\<forall>y \<in> insert x Y \<union> set (z # zs). dlist s' y []" by blast
  then show ?case
    using r n xh by (subst list_for_each_safe_from.simps) (auto simp: del_visit_def)
qed

text \<open>
  \<open>list_for_each_safe\<close> survives the removal of the current entry: a loop whose body takes
  each entry off the ring visits all entries, once each and in order, ends, leaves the ring empty
  and leaves every entry a ring of its own (so that \<open>list_empty(entry)\<close> answers true).
\<close>

theorem list_for_each_safe_drains:
  assumes d: "dlist s h xs"
  shows "\<exists>s'. list_for_each_safe (del_visit f) h (s, a) = Some (s', fold f xs a) \<and>
     dlist s' h [] \<and> (\<forall>x \<in> set xs. dlist s' x [])"
proof (cases xs)
  case Nil
  with d have "nxt s h = At h" by (simp add: dlist_def)
  then show ?thesis using d Nil
    by (simp add: list_for_each_safe_def list_for_each_safe_from.simps)
next
  case (Cons x ys)
  have "nxt s h = At x" using dlist_next [OF d] Cons by simp
  then show ?thesis using list_for_each_safe_from_drain [of s h x ys "{}" f a] d Cons
    by (simp add: list_for_each_safe_def)
qed

theorem list_for_each_safe_drains_witness:
  "\<exists>s'. list_for_each_safe (del_visit (\<lambda>p a. a @ [p])) 0
       (\<lparr>nxt = (\<lambda>_. LNull)(0 := At 1, 1 := At 2, 2 := At (0::nat)),
        prv = (\<lambda>_. LNull)(0 := At 2, 1 := At 0, 2 := At 1)\<rparr>, []) = Some (s', [1, 2]) \<and>
     dlist s' 0 []"
proof -
  have "dlist \<lparr>nxt = (\<lambda>_. LNull)(0 := At 1, 1 := At 2, 2 := At (0::nat)),
        prv = (\<lambda>_. LNull)(0 := At 2, 1 := At 0, 2 := At 1)\<rparr> 0 [1, 2]"
    by (simp add: dlist_def)
  from list_for_each_safe_drains [OF this, of "\<lambda>p a. a @ [p]" "[]"] show ?thesis by auto
qed

end
