(* ===== verification/List_Loops.thy ===== *)
theory List_Loops
  imports List_Head
begin

text \<open>
  The other loops of \<open>src/list.h\<close>: backwards, from a given entry on, and over the structures that
  contain the nodes (the \<open>entry\<close> macros; a structure is known by its node, so \<open>container_of\<close> is the
  identity). On a ring that the body leaves alone each loop visits the nodes it is named after, in order.
\<close>

section \<open>Backward loops\<close>

partial_function (option) list_for_each_prev_from ::
  "('a \<Rightarrow> 'a lheap \<times> 's \<Rightarrow> ('a lheap \<times> 's) option) \<Rightarrow> 'a \<Rightarrow> 'a lptr \<Rightarrow> 'a lheap \<times> 's \<Rightarrow> ('a lheap \<times> 's) option" where
  "list_for_each_prev_from body head pos st =
     (if pos = At head then Some st
      else Option.bind (at_node pos) (\<lambda>p.
        Option.bind (body p st) (\<lambda>st. list_for_each_prev_from body head (prv (fst st) p) st)))"

definition list_for_each_prev where
  "list_for_each_prev body head st = list_for_each_prev_from body head (prv (fst st) head) st"

partial_function (option) list_for_each_prev_safe_from ::
  "('a \<Rightarrow> 'a lheap \<times> 's \<Rightarrow> ('a lheap \<times> 's) option) \<Rightarrow> 'a \<Rightarrow> 'a lptr \<Rightarrow> 'a lptr \<Rightarrow> 'a lheap \<times> 's \<Rightarrow> ('a lheap \<times> 's) option" where
  "list_for_each_prev_safe_from body head pos n st =
     (if pos = At head then Some st
      else Option.bind (at_node pos) (\<lambda>p.
        Option.bind (body p st) (\<lambda>st.
          Option.bind (at_node n) (\<lambda>q.
            list_for_each_prev_safe_from body head n (prv (fst st) q) st))))"

definition list_for_each_prev_safe where
  "list_for_each_prev_safe body head st =
     Option.bind (at_node (prv (fst st) head)) (\<lambda>p.
       list_for_each_prev_safe_from body head (At p) (prv (fst st) p) st)"

section \<open>Loops over entries\<close>

definition list_first_entry :: "'a \<Rightarrow> 'a lheap \<Rightarrow> 'a option" where
  "list_first_entry head s = at_node (nxt s head)"

definition list_for_each_entry where
  "list_for_each_entry body head st = list_for_each_from body head (nxt (fst st) head) st"

definition list_for_each_entry_reverse where
  "list_for_each_entry_reverse body head st = list_for_each_prev_from body head (prv (fst st) head) st"

text \<open>The entry is \<open>None\<close> when it is NULL.\<close>

definition list_prepare_entry :: "'a option \<Rightarrow> 'a \<Rightarrow> 'a" where
  "list_prepare_entry pos head = (case pos of Some p \<Rightarrow> p | None \<Rightarrow> head)"

definition list_for_each_entry_continue where
  "list_for_each_entry_continue body pos head st = list_for_each_from body head (nxt (fst st) pos) st"

definition list_for_each_entry_continue_reverse where
  "list_for_each_entry_continue_reverse body pos head st = list_for_each_prev_from body head (prv (fst st) pos) st"

definition list_for_each_entry_from where
  "list_for_each_entry_from body pos head st = list_for_each_from body head (At pos) st"

definition list_for_each_entry_safe where
  "list_for_each_entry_safe body head st =
     Option.bind (at_node (nxt (fst st) head)) (\<lambda>p.
       list_for_each_safe_from body head (At p) (nxt (fst st) p) st)"

definition list_for_each_entry_safe_continue where
  "list_for_each_entry_safe_continue body pos head st =
     Option.bind (at_node (nxt (fst st) pos)) (\<lambda>p.
       list_for_each_safe_from body head (At p) (nxt (fst st) p) st)"

definition list_for_each_entry_safe_from where
  "list_for_each_entry_safe_from body pos head st =
     list_for_each_safe_from body head (At pos) (nxt (fst st) pos) st"

definition list_for_each_entry_safe_reverse where
  "list_for_each_entry_safe_reverse body head st =
     Option.bind (at_node (prv (fst st) head)) (\<lambda>p.
       list_for_each_prev_safe_from body head (At p) (prv (fst st) p) st)"

section \<open>What the loops visit\<close>

definition visit :: "('a \<Rightarrow> 'b \<Rightarrow> 'b) \<Rightarrow> 'a \<Rightarrow> 'a lheap \<times> 'b \<Rightarrow> ('a lheap \<times> 'b) option" where
  "visit f p st = Some (fst st, f p (snd st))"

lemma ring_next: "dlist s h (us @ x # vs) \<Longrightarrow> nxt s x = At (hd (vs @ [h])) \<and> x \<noteq> h"
  using dlist_cut [of s h "us @ [x]" vs] by (auto simp: dlist_def)

lemma ring_prev: "dlist s h (us @ x # vs) \<Longrightarrow> prv s x = At (last (h # us)) \<and> x \<noteq> h"
  using dlist_cut [of s h us "x # vs"] by (auto simp: dlist_def)

lemma visit_forward:
  "dlist s h (us @ xs) \<Longrightarrow> list_for_each_from (visit f) h (At (hd (xs @ [h]))) (s, a) = Some (s, fold f xs a)"
proof (induction xs arbitrary: us a)
  case (Cons x xs)
  have "dlist s h ((us @ [x]) @ xs)" using Cons.prems by simp
  from Cons.IH [OF this, of "f x a"] ring_next [of s h us x xs] Cons.prems show ?case
    by (simp add: list_for_each_from.simps [of _ _ "At x"] visit_def [of f x])
qed (simp add: list_for_each_from.simps)

lemma visit_backward:
  "dlist s h (xs @ vs) \<Longrightarrow> list_for_each_prev_from (visit f) h (At (last (h # xs))) (s, a) = Some (s, fold f (rev xs) a)"
proof (induction xs arbitrary: vs a rule: rev_induct)
  case (snoc x xs)
  have "dlist s h (xs @ x # vs)" using snoc.prems by simp
  from snoc.IH [OF this, of "f x a"] ring_prev [OF this] show ?case
    by (simp add: list_for_each_prev_from.simps [of _ _ "At x"] visit_def [of f x])
qed (simp add: list_for_each_prev_from.simps)

lemma visit_forward_safe:
  "dlist s h (us @ xs) \<Longrightarrow>
     list_for_each_safe_from (visit f) h (At (hd (xs @ [h]))) (nxt s (hd (xs @ [h]))) (s, a) = Some (s, fold f xs a)"
proof (induction xs arbitrary: us a)
  case (Cons x xs)
  have "dlist s h ((us @ [x]) @ xs)" using Cons.prems by simp
  from Cons.IH [OF this, of "f x a"] ring_next [of s h us x xs] Cons.prems show ?case
    by (simp add: list_for_each_safe_from.simps [of _ _ "At x"] visit_def [of f x])
qed (simp add: list_for_each_safe_from.simps)

lemma visit_backward_safe:
  "dlist s h (xs @ vs) \<Longrightarrow>
     list_for_each_prev_safe_from (visit f) h (At (last (h # xs))) (prv s (last (h # xs))) (s, a) =
       Some (s, fold f (rev xs) a)"
proof (induction xs arbitrary: vs a rule: rev_induct)
  case (snoc x xs)
  have "dlist s h (xs @ x # vs)" using snoc.prems by simp
  from snoc.IH [OF this, of "f x a"] ring_prev [OF this] show ?case
    by (simp add: list_for_each_prev_safe_from.simps [of _ _ "At x"] visit_def [of f x])
qed (simp add: list_for_each_prev_safe_from.simps)

theorem entry_loops_visit:
  assumes d: "dlist s h (xs @ y # ys)"
  shows "list_for_each_entry (visit f) h (s, a) = Some (s, fold f (xs @ y # ys) a)"
    and "list_for_each_entry_reverse (visit f) h (s, a) = Some (s, fold f (rev (xs @ y # ys)) a)"
    and "list_for_each_entry_continue (visit f) y h (s, a) = Some (s, fold f ys a)"
    and "list_for_each_entry_continue_reverse (visit f) y h (s, a) = Some (s, fold f (rev xs) a)"
    and "list_for_each_entry_from (visit f) y h (s, a) = Some (s, fold f (y # ys) a)"
    and "list_for_each_entry_safe (visit f) h (s, a) = Some (s, fold f (xs @ y # ys) a)"
    and "list_for_each_entry_safe_continue (visit f) y h (s, a) = Some (s, fold f ys a)"
    and "list_for_each_entry_safe_from (visit f) y h (s, a) = Some (s, fold f (y # ys) a)"
    and "list_for_each_entry_safe_reverse (visit f) h (s, a) = Some (s, fold f (rev (xs @ y # ys)) a)"
    and "list_for_each_prev (visit f) h (s, a) = Some (s, fold f (rev (xs @ y # ys)) a)"
    and "list_for_each_prev_safe (visit f) h (s, a) = Some (s, fold f (rev (xs @ y # ys)) a)"
    and "list_first_entry h s = Some (hd (xs @ [y]))"
proof -
  note n = ring_next [OF d] and p = ring_prev [OF d] and r = dlist_next [OF d] and l = dlist_prev [OF d]
  have dd: "dlist s h ([] @ xs @ y # ys)" "dlist s h ((xs @ [y]) @ ys)" "dlist s h ((xs @ y # ys) @ [])" using d by simp_all
  have hh: "hd ((xs @ y # ys) @ [h]) = hd (xs @ [y])" by (cases xs) simp_all
  show "list_for_each_entry (visit f) h (s, a) = Some (s, fold f (xs @ y # ys) a)"
    unfolding list_for_each_entry_def using visit_forward [OF dd(1)] r by simp
  show "list_for_each_entry_reverse (visit f) h (s, a) = Some (s, fold f (rev (xs @ y # ys)) a)"
    "list_for_each_prev (visit f) h (s, a) = Some (s, fold f (rev (xs @ y # ys)) a)"
    unfolding list_for_each_entry_reverse_def list_for_each_prev_def
    by (simp_all only: fst_conv l visit_backward [OF dd(3)])
  show "list_for_each_entry_continue (visit f) y h (s, a) = Some (s, fold f ys a)"
    unfolding list_for_each_entry_continue_def using visit_forward [OF dd(2)] n by simp
  show "list_for_each_entry_continue_reverse (visit f) y h (s, a) = Some (s, fold f (rev xs) a)"
    unfolding list_for_each_entry_continue_reverse_def
    by (simp only: fst_conv p [THEN conjunct1] visit_backward [OF d])
  show "list_for_each_entry_from (visit f) y h (s, a) = Some (s, fold f (y # ys) a)"
    unfolding list_for_each_entry_from_def using visit_forward [OF d] by simp
  show "list_for_each_entry_safe (visit f) h (s, a) = Some (s, fold f (xs @ y # ys) a)"
    unfolding list_for_each_entry_safe_def using visit_forward_safe [OF dd(1)] r by simp
  show "list_for_each_entry_safe_continue (visit f) y h (s, a) = Some (s, fold f ys a)"
    unfolding list_for_each_entry_safe_continue_def using visit_forward_safe [OF dd(2)] n by simp
  show "list_for_each_entry_safe_from (visit f) y h (s, a) = Some (s, fold f (y # ys) a)"
    unfolding list_for_each_entry_safe_from_def using visit_forward_safe [OF d] by simp
  show "list_for_each_entry_safe_reverse (visit f) h (s, a) = Some (s, fold f (rev (xs @ y # ys)) a)"
    "list_for_each_prev_safe (visit f) h (s, a) = Some (s, fold f (rev (xs @ y # ys)) a)"
    unfolding list_for_each_entry_safe_reverse_def list_for_each_prev_safe_def
    by (simp_all only: fst_conv l at_node_simps Option.bind.simps visit_backward_safe [OF dd(3)])
  show "list_first_entry h s = Some (hd (xs @ [y]))" unfolding list_first_entry_def using r hh by simp
qed

end
