(* ===== verification/Hlist.thy ===== *)
theory Hlist
  imports List_Head
begin

text \<open>
  The lists with a head of one pointer of \<open>src/list.h\<close> (\<open>struct hlist_head\<close>, \<open>struct hlist_node\<close>). A node
  keeps in \<open>pprev\<close> the address of the pointer that points at it, which is the field \<open>first\<close> of a head or the
  field \<open>next\<close> of the node before; a store through it is a store into that field. \<open>hlist s h xs\<close> says
  that the list of head \<open>h\<close> holds the nodes \<open>xs\<close>; every operation is shown to turn such a list
  into the list it stands for.
\<close>

section \<open>The store\<close>

datatype 'a hptr = HNull | HPoison1 | HNode 'a

text \<open>Values of a \<open>struct hlist_node **\<close>: NULL, \<open>LIST_POISON2\<close>, or the address of a field.\<close>

datatype ('h, 'a) hslot = SNull | SPoison2 | First 'h | NextOf 'a

record ('h, 'a) hheap =
  h_first :: "'h \<Rightarrow> 'a hptr"
  h_next :: "'a \<Rightarrow> 'a hptr"
  h_pprev :: "'a \<Rightarrow> ('h, 'a) hslot"

fun store_slot :: "('h, 'a) hslot \<Rightarrow> 'a hptr \<Rightarrow> ('h, 'a) hheap \<Rightarrow> ('h, 'a) hheap option" where
  "store_slot (First h) v s = Some (s\<lparr>h_first := (h_first s)(h := v)\<rparr>)"
| "store_slot (NextOf a) v s = Some (s\<lparr>h_next := (h_next s)(a := v)\<rparr>)"
| "store_slot SNull v s = None"
| "store_slot SPoison2 v s = None"

definition set_hnext :: "'a \<Rightarrow> 'a hptr \<Rightarrow> ('h, 'a) hheap \<Rightarrow> ('h, 'a) hheap" where
  "set_hnext a v s = s\<lparr>h_next := (h_next s)(a := v)\<rparr>"

definition set_pprev :: "'a \<Rightarrow> ('h, 'a) hslot \<Rightarrow> ('h, 'a) hheap \<Rightarrow> ('h, 'a) hheap" where
  "set_pprev a v s = s\<lparr>h_pprev := (h_pprev s)(a := v)\<rparr>"

text \<open>\<open>if (p) p->pprev = v\<close>; a poisoned \<open>p\<close> is dereferenced.\<close>

fun fix_pprev :: "'a hptr \<Rightarrow> ('h, 'a) hslot \<Rightarrow> ('h, 'a) hheap \<Rightarrow> ('h, 'a) hheap option" where
  "fix_pprev HNull v s = Some s"
| "fix_pprev (HNode a) v s = Some (set_pprev a v s)"
| "fix_pprev HPoison1 v s = None"

section \<open>The operations\<close>

definition INIT_HLIST_HEAD :: "'h \<Rightarrow> ('h, 'a) hheap \<Rightarrow> ('h, 'a) hheap" where
  "INIT_HLIST_HEAD h s = s\<lparr>h_first := (h_first s)(h := HNull)\<rparr>"

definition INIT_HLIST_NODE :: "'a \<Rightarrow> ('h, 'a) hheap \<Rightarrow> ('h, 'a) hheap" where
  "INIT_HLIST_NODE n s = set_pprev n SNull (set_hnext n HNull s)"

definition hlist_unhashed :: "'a \<Rightarrow> ('h, 'a) hheap \<Rightarrow> bool" where
  "hlist_unhashed n s \<longleftrightarrow> h_pprev s n = SNull"

definition hlist_empty :: "'h \<Rightarrow> ('h, 'a) hheap \<Rightarrow> bool" where
  "hlist_empty h s \<longleftrightarrow> h_first s h = HNull"

definition hlist_del_raw :: "'a \<Rightarrow> ('h, 'a) hheap \<Rightarrow> ('h, 'a) hheap option" where
  "hlist_del_raw n s = do {
     let next = h_next s n;
     let pprev = h_pprev s n;
     s \<leftarrow> store_slot pprev next s;
     fix_pprev next pprev s
   }"

definition hlist_del :: "'a \<Rightarrow> ('h, 'a) hheap \<Rightarrow> ('h, 'a) hheap option" where
  "hlist_del n s = do {
     s \<leftarrow> hlist_del_raw n s;
     Some (set_pprev n SPoison2 (set_hnext n HPoison1 s))
   }"

definition hlist_del_init :: "'a \<Rightarrow> ('h, 'a) hheap \<Rightarrow> ('h, 'a) hheap option" where
  "hlist_del_init n s =
     (if \<not> hlist_unhashed n s
      then do {
        s \<leftarrow> hlist_del_raw n s;
        Some (INIT_HLIST_NODE n s)
      }
      else Some s)"

definition hlist_add_head :: "'a \<Rightarrow> 'h \<Rightarrow> ('h, 'a) hheap \<Rightarrow> ('h, 'a) hheap option" where
  "hlist_add_head n h s = do {
     let first = h_first s h;
     let s = set_hnext n first s;
     s \<leftarrow> fix_pprev first (NextOf n) s;
     let s = s\<lparr>h_first := (h_first s)(h := HNode n)\<rparr>;
     Some (set_pprev n (First h) s)
   }"

definition hlist_add_before :: "'a \<Rightarrow> 'a \<Rightarrow> ('h, 'a) hheap \<Rightarrow> ('h, 'a) hheap option" where
  "hlist_add_before n next s = do {
     let s = set_pprev n (h_pprev s next) s;
     let s = set_hnext n (HNode next) s;
     let s = set_pprev next (NextOf n) s;
     store_slot (h_pprev s n) (HNode n) s
   }"

text \<open>Here \<open>next\<close> is the node that is added, after \<open>n\<close>.\<close>

definition hlist_add_after :: "'a \<Rightarrow> 'a \<Rightarrow> ('h, 'a) hheap \<Rightarrow> ('h, 'a) hheap option" where
  "hlist_add_after n next s = do {
     let s = set_hnext next (h_next s n) s;
     let s = set_hnext n (HNode next) s;
     let s = set_pprev next (NextOf n) s;
     fix_pprev (h_next s next) (NextOf next) s
   }"

definition hlist_move_list :: "'h \<Rightarrow> 'h \<Rightarrow> ('h, 'a) hheap \<Rightarrow> ('h, 'a) hheap option" where
  "hlist_move_list old new s = do {
     let s = s\<lparr>h_first := (h_first s)(new := h_first s old)\<rparr>;
     s \<leftarrow> fix_pprev (h_first s new) (First new) s;
     Some (s\<lparr>h_first := (h_first s)(old := HNull)\<rparr>)
   }"

text \<open>
  The loops \<open>hlist_for_each\<close> and \<open>hlist_for_each_safe\<close>: the body gets the node and changes the store
  and a state; the safe loop reads \<open>next\<close> before it.
\<close>

partial_function (option) hlist_for_each_from ::
  "('a \<Rightarrow> ('h, 'a) hheap \<times> 's \<Rightarrow> (('h, 'a) hheap \<times> 's) option) \<Rightarrow> 'a hptr \<Rightarrow> ('h, 'a) hheap \<times> 's \<Rightarrow>
   (('h, 'a) hheap \<times> 's) option" where
  "hlist_for_each_from body pos st =
     (case pos of
        HNull \<Rightarrow> Some st
      | HPoison1 \<Rightarrow> None
      | HNode n \<Rightarrow> Option.bind (body n st) (\<lambda>st. hlist_for_each_from body (h_next (fst st) n) st))"

definition hlist_for_each where
  "hlist_for_each body h st = hlist_for_each_from body (h_first (fst st) h) st"

partial_function (option) hlist_for_each_safe_from ::
  "('a \<Rightarrow> ('h, 'a) hheap \<times> 's \<Rightarrow> (('h, 'a) hheap \<times> 's) option) \<Rightarrow> 'a hptr \<Rightarrow> ('h, 'a) hheap \<times> 's \<Rightarrow>
   (('h, 'a) hheap \<times> 's) option" where
  "hlist_for_each_safe_from body pos st =
     (case pos of
        HNull \<Rightarrow> Some st
      | HPoison1 \<Rightarrow> None
      | HNode n \<Rightarrow> let nx = h_next (fst st) n in Option.bind (body n st) (hlist_for_each_safe_from body nx))"

definition hlist_for_each_safe where
  "hlist_for_each_safe body h st = hlist_for_each_safe_from body (h_first (fst st) h) st"

section \<open>Lists in the store\<close>

fun load_slot :: "('h, 'a) hheap \<Rightarrow> ('h, 'a) hslot \<Rightarrow> 'a hptr" where
  "load_slot s (First h) = h_first s h"
| "load_slot s (NextOf a) = h_next s a"
| "load_slot s _ = HPoison1"

fun chain :: "('h, 'a) hheap \<Rightarrow> ('h, 'a) hslot \<Rightarrow> 'a list \<Rightarrow> bool" where
  "chain s p [] \<longleftrightarrow> load_slot s p = HNull"
| "chain s p (x # xs) \<longleftrightarrow> load_slot s p = HNode x \<and> h_pprev s x = p \<and> chain s (NextOf x) xs"

definition hlist :: "('h, 'a) hheap \<Rightarrow> 'h \<Rightarrow> 'a list \<Rightarrow> bool" where
  "hlist s h xs \<longleftrightarrow> chain s (First h) xs \<and> distinct xs"

lemma set_simps [simp]:
  "h_next (set_hnext a v s) = (h_next s)(a := v)" "h_first (set_hnext a v s) = h_first s"
  "h_pprev (set_hnext a v s) = h_pprev s"
  "h_pprev (set_pprev a w s) = (h_pprev s)(a := w)" "h_first (set_pprev a w s) = h_first s"
  "h_next (set_pprev a w s) = h_next s"
  by (simp_all add: set_hnext_def set_pprev_def)

text \<open>A chain depends on the slot it starts at and on the fields of its nodes only.\<close>

lemma chain_cong:
  assumes "load_slot s' p = load_slot s p"
    and "\<And>x. x \<in> set xs \<Longrightarrow> h_next s' x = h_next s x \<and> h_pprev s' x = h_pprev s x"
  shows "chain s' p xs \<longleftrightarrow> chain s p xs"
  using assms by (induction xs arbitrary: p) simp_all

text \<open>
  The slots of a list are the field of its head and the \<open>next\<close> fields of its nodes; the first nodes
  \<open>xs\<close> of a list hang on all but the last of \<open>hslots p xs\<close>, what follows them hangs on the last.
\<close>

definition hslots :: "('h, 'a) hslot \<Rightarrow> 'a list \<Rightarrow> ('h, 'a) hslot list" where
  "hslots p xs = p # map NextOf xs"

fun seg :: "('h, 'a) hheap \<Rightarrow> ('h, 'a) hslot \<Rightarrow> 'a list \<Rightarrow> bool" where
  "seg s p [] \<longleftrightarrow> True"
| "seg s p (x # xs) \<longleftrightarrow> load_slot s p = HNode x \<and> h_pprev s x = p \<and> seg s (NextOf x) xs"

lemma hslots_simps [simp]: "hslots p [] = [p]" "hslots p (x # xs) = p # hslots (NextOf x) xs"
  by (simp_all add: hslots_def)

lemma hslots_nonempty [simp]: "hslots p xs \<noteq> []"
  by (simp add: hslots_def)

lemma chain_append: "chain s p (xs @ ys) \<longleftrightarrow> seg s p xs \<and> chain s (last (hslots p xs)) ys"
  by (induction xs arbitrary: p) auto

lemma seg_cong:
  assumes "\<And>x. x \<in> set xs \<Longrightarrow> h_pprev s' x = h_pprev s x"
    and "\<And>r. r \<in> set (butlast (hslots p xs)) \<Longrightarrow> load_slot s' r = load_slot s r"
  shows "seg s' p xs \<longleftrightarrow> seg s p xs"
  using assms by (induction xs arbitrary: p) auto

lemma hslots_split: "distinct xs \<Longrightarrow> last (hslots (First h) xs) \<notin> set (butlast (hslots (First h) xs))"
proof -
  assume "distinct xs"
  then have "distinct (hslots (First h :: ('b, 'a) hslot) xs)" by (auto simp: hslots_def distinct_map inj_on_def)
  then show ?thesis by (metis append_butlast_last_id distinct_append disjoint_insert(1) list.simps(15) hslots_nonempty)
qed

lemma last_slot_cases:
  "last (hslots (First h) xs) = First h \<or> (\<exists>x \<in> set xs. last (hslots (First h) xs) = NextOf x)"
  by (cases xs rule: rev_cases) (simp_all add: hslots_def)

text \<open>Slots of the nodes behind a position are not the slot of that position.\<close>

lemma later_slot: "y \<notin> set xs \<Longrightarrow> last (hslots (First h) xs) \<noteq> NextOf y"
  using last_slot_cases [of h xs] by auto

lemma load_set [simp]:
  "load_slot (set_pprev a w s) r = load_slot s r"
  "load_slot (set_hnext a v s) r = (if r = NextOf a then v else load_slot s r)"
  by (cases r; simp)+

lemma store_load:
  assumes "store_slot q v s = Some s'"
  shows "load_slot s' r = (if r = q then v else load_slot s r)" and "h_pprev s' = h_pprev s"
  using assms by (cases q; cases r; auto)+

lemma store_last: "\<exists>s'. store_slot (last (hslots (First h) xs)) v s = Some s'"
  using last_slot_cases [of h xs] by auto

text \<open>Making \<open>ys\<close> hang on the last slot of \<open>xs\<close>.\<close>

lemma chain_attach:
  fixes s s' :: "('h, 'a) hheap"
  assumes d: "distinct (xs @ ys)" and seg: "seg s (First h) xs"
  defines "q \<equiv> last (hslots (First h) xs)"
  assumes ys: "\<And>y zs. ys = y # zs \<Longrightarrow> chain s (NextOf y) zs"
    and l: "load_slot s' q = (case ys of [] \<Rightarrow> HNull | y # _ \<Rightarrow> HNode y)"
    and p: "\<And>y zs. ys = y # zs \<Longrightarrow> h_pprev s' y = q"
    and rest: "\<And>r. r \<in> set (butlast (hslots (First h) xs)) \<union> NextOf ` set ys \<Longrightarrow> load_slot s' r = load_slot s r"
      "\<And>x. x \<in> set xs \<union> set (tl ys) \<Longrightarrow> h_pprev s' x = h_pprev s x"
  shows "hlist s' h (xs @ ys)"
proof -
  have "seg s' (First h) xs" using seg seg_cong [of xs s' s "First h"] rest by auto
  moreover have "chain s' q ys"
  proof (cases ys)
    case Nil
    then show ?thesis using l by simp
  next
    case (Cons y zs)
    have "chain s' (NextOf y) zs \<longleftrightarrow> chain s (NextOf y) zs"
    proof (rule chain_cong)
      show "load_slot s' (NextOf y) = load_slot s (NextOf y)" by (rule rest(1)) (simp add: Cons)
      show "h_next s' x = h_next s x \<and> h_pprev s' x = h_pprev s x" if "x \<in> set zs" for x
        using rest(1) [of "NextOf x"] rest(2) [of x] that Cons by simp
    qed
    then show ?thesis using ys l p Cons by simp
  qed
  ultimately show ?thesis using d by (simp add: hlist_def chain_append q_def)
qed

section \<open>What the operations do\<close>

lemma INIT_HLIST_HEAD_empty: "hlist (INIT_HLIST_HEAD h s) h []"
  by (simp add: hlist_def INIT_HLIST_HEAD_def)

lemma hlist_empty_iff: "hlist s h xs \<Longrightarrow> hlist_empty h s \<longleftrightarrow> xs = []"
  by (cases xs) (auto simp: hlist_def hlist_empty_def)

lemma hlist_del_raw_spec:
  assumes h: "hlist s h (xs @ x # ys)"
  shows "\<exists>s'. hlist_del_raw x s = Some s' \<and> hlist s' h (xs @ ys) \<and> h_pprev s' x = h_pprev s x"
proof -
  let ?q = "last (hslots (First h) xs)"
  have d: "distinct (xs @ x # ys)" and seg: "seg s (First h) xs" and q: "h_pprev s x = ?q"
    and ys: "chain s (NextOf x) ys" using h by (simp_all add: hlist_def chain_append)
  obtain s1 where s1: "store_slot ?q (h_next s x) s = Some s1"
    using store_last [of h xs "h_next s x" s] by blast
  note l1 = store_load [OF s1]
  have nx: "h_next s x = (case ys of [] \<Rightarrow> HNull | y # _ \<Rightarrow> HNode y)" using ys by (cases ys) simp_all
  obtain s2 where s2: "fix_pprev (h_next s x) ?q s1 = Some s2" and l2: "load_slot s2 r = load_slot s1 r"
    "h_pprev s2 = (case ys of [] \<Rightarrow> h_pprev s1 | y # _ \<Rightarrow> (h_pprev s1)(y := ?q))" for r
    using nx by (cases ys) simp_all
  have "hlist s2 h (xs @ ys)"
  proof (rule chain_attach [of xs ys s])
    show "distinct (xs @ ys)" using d by simp
    show "seg s (First h) xs" by (rule seg)
    show "chain s (NextOf y) zs" if "ys = y # zs" for y zs using ys that by simp
    show "load_slot s2 ?q = (case ys of [] \<Rightarrow> HNull | y # _ \<Rightarrow> HNode y)" by (simp add: l1 l2(1) nx)
    show "h_pprev s2 y = ?q" if "ys = y # zs" for y zs using that by (simp add: l2(2))
    show "load_slot s2 r = load_slot s r" if "r \<in> set (butlast (hslots (First h) xs)) \<union> NextOf ` set ys" for r
    proof -
      have "r \<noteq> ?q" using that hslots_split [of xs h] later_slot [of _ xs h] d by auto
      then show ?thesis by (simp add: l1 l2(1))
    qed
    show "h_pprev s2 z = h_pprev s z" if "z \<in> set xs \<union> set (tl ys)" for z
      using that d by (cases ys) (auto simp: l1 l2(2))
  qed
  moreover have "h_pprev s2 x = h_pprev s x" using d by (cases ys) (auto simp: l1 l2(2))
  ultimately show ?thesis using s1 s2 by (simp add: hlist_del_raw_def q)
qed

text \<open>Changing the fields of a node that is in no list.\<close>

lemma hlist_frame:
  assumes "x \<notin> set xs"
  shows "hlist (set_hnext x v s) h xs = hlist s h xs" and "hlist (set_pprev x w s) h xs = hlist s h xs"
proof -
  have "chain (set_hnext x v s) (First h) xs = chain s (First h) xs"
    by (rule chain_cong) (use assms in auto)
  moreover have "chain (set_pprev x w s) (First h) xs = chain s (First h) xs"
    by (rule chain_cong) (use assms in auto)
  ultimately show "hlist (set_hnext x v s) h xs = hlist s h xs" and "hlist (set_pprev x w s) h xs = hlist s h xs"
    by (simp_all add: hlist_def)
qed

lemma hlist_mid_pprev: "hlist s h (xs @ x # ys) \<Longrightarrow> h_pprev s x \<noteq> SNull"
  using last_slot_cases [of h xs] by (auto simp: hlist_def chain_append)

theorem hlist_del_removes:
  assumes "hlist s h (xs @ x # ys)"
  shows "\<exists>s'. hlist_del x s = Some s' \<and> hlist s' h (xs @ ys) \<and> h_next s' x = HPoison1 \<and> h_pprev s' x = SPoison2"
    and "\<exists>s'. hlist_del_init x s = Some s' \<and> hlist s' h (xs @ ys) \<and> hlist_unhashed x s' \<and>
      hlist_del_init x s' = Some s'"
proof -
  obtain s1 where s1: "hlist_del_raw x s = Some s1" "hlist s1 h (xs @ ys)" using hlist_del_raw_spec [OF assms] by blast
  have x: "x \<notin> set (xs @ ys)" using assms by (simp add: hlist_def)
  show "\<exists>s'. hlist_del x s = Some s' \<and> hlist s' h (xs @ ys) \<and> h_next s' x = HPoison1 \<and> h_pprev s' x = SPoison2"
    using s1 by (simp add: hlist_del_def hlist_frame [OF x])
  show "\<exists>s'. hlist_del_init x s = Some s' \<and> hlist s' h (xs @ ys) \<and> hlist_unhashed x s' \<and> hlist_del_init x s' = Some s'"
    using s1 hlist_mid_pprev [OF assms]
    by (simp add: hlist_del_init_def hlist_unhashed_def INIT_HLIST_NODE_def hlist_frame [OF x])
qed

text \<open>Every insertion stores the same four pointers: those into and out of the new node.\<close>

lemma hlist_insert:
  fixes s s' :: "('h, 'a) hheap"
  assumes h: "hlist s h (xs @ ys)" and n: "n \<notin> set (xs @ ys)"
  defines "q \<equiv> last (hslots (First h) xs)"
  assumes into: "load_slot s' q = HNode n" "h_pprev s' n = q"
    and out: "load_slot s' (NextOf n) = load_slot s q" "\<And>y. y \<in> set (take 1 ys) \<Longrightarrow> h_pprev s' y = NextOf n"
    and rest: "\<And>r. r \<noteq> q \<Longrightarrow> r \<noteq> NextOf n \<Longrightarrow> load_slot s' r = load_slot s r"
      "\<And>x. x \<noteq> n \<Longrightarrow> x \<notin> set (take 1 ys) \<Longrightarrow> h_pprev s' x = h_pprev s x"
  shows "hlist s' h (xs @ n # ys)"
proof -
  have d: "distinct (xs @ ys)" and seg: "seg s (First h) xs" and c: "chain s q ys"
    using h by (simp_all add: hlist_def chain_append q_def)
  have "seg s' (First h) xs \<longleftrightarrow> seg s (First h) xs"
  proof (rule seg_cong)
    show "h_pprev s' x = h_pprev s x" if "x \<in> set xs" for x using rest(2) [of x] that n d by (cases ys) auto
    show "load_slot s' r = load_slot s r" if "r \<in> set (butlast (hslots (First h) xs))" for r
    proof (rule rest(1))
      show "r \<noteq> q" using that hslots_split [of xs h] d by (auto simp: q_def)
      show "r \<noteq> NextOf n" using in_set_butlastD [OF that] n by (auto simp: hslots_def)
    qed
  qed
  moreover have "chain s' (NextOf n) ys"
  proof (cases ys)
    case Nil
    then show ?thesis using c out(1) by simp
  next
    case (Cons y zs)
    have nq: "NextOf z \<noteq> q" if "z \<in> set ys" for z
    proof -
      have "z \<notin> set xs" using that d by auto
      from later_slot [OF this] show ?thesis unfolding q_def by metis
    qed
    have l: "load_slot s' (NextOf z) = load_slot s (NextOf z)" if "z \<in> set ys" for z
      by (rule rest(1)) (use nq [OF that] that n in auto)
    have "chain s' (NextOf y) zs \<longleftrightarrow> chain s (NextOf y) zs"
    proof (rule chain_cong)
      show "h_next s' z = h_next s z \<and> h_pprev s' z = h_pprev s z" if "z \<in> set zs" for z
        using l [of z] rest(2) [of z] that n d Cons by auto
    qed (rule l, simp add: Cons)
    then show ?thesis using c out Cons by simp
  qed
  ultimately show ?thesis using seg into n d by (simp add: hlist_def chain_append flip: q_def)
qed

theorem hlist_add_inserts:
  assumes n: "n \<notin> set (xs @ ys)"
  shows "hlist s h ys \<Longrightarrow> n \<notin> set ys \<Longrightarrow> \<exists>s'. hlist_add_head n h s = Some s' \<and> hlist s' h (n # ys)"
    and "hlist s h (xs @ y # ys) \<Longrightarrow> n \<noteq> y \<Longrightarrow> \<exists>s'. hlist_add_before n y s = Some s' \<and> hlist s' h (xs @ n # y # ys)"
    and "hlist s h (xs @ y # ys) \<Longrightarrow> n \<noteq> y \<Longrightarrow> \<exists>s'. hlist_add_after y n s = Some s' \<and> hlist s' h (xs @ y # n # ys)"
proof -
  assume h: "hlist s h ys" and n: "n \<notin> set ys"
  then have f: "h_first s h = (case ys of [] \<Rightarrow> HNull | y # _ \<Rightarrow> HNode y)" by (cases ys) (simp_all add: hlist_def)
  obtain s2 where s2: "fix_pprev (h_first s h) (NextOf n) (set_hnext n (h_first s h) s) = Some s2"
    and l2: "\<And>r. load_slot s2 r = load_slot (set_hnext n (h_first s h) s) r"
    "h_pprev s2 = (case ys of [] \<Rightarrow> h_pprev s | y # _ \<Rightarrow> (h_pprev s)(y := NextOf n))"
    using f by (cases ys) simp_all
  let ?s' = "set_pprev n (First h) (s2\<lparr>h_first := (h_first s2)(h := HNode n)\<rparr>)"
  have l: "load_slot ?s' r = (if r = First h then HNode n else load_slot s2 r)" for r by (cases r) simp_all
  have p: "h_pprev ?s' = (h_pprev s2)(n := First h)" by simp
  have "hlist ?s' h ([] @ n # ys)"
  proof (rule hlist_insert [of s])
    show "load_slot ?s' (last (hslots (First h) [])) = HNode n" by simp
    show "load_slot ?s' (NextOf n) = load_slot s (last (hslots (First h) []))"
      unfolding l by (simp add: l2(1) del: load_slot.simps(2))
    show "h_pprev ?s' y = NextOf n" if "y \<in> set (take 1 ys)" for y
      using that n unfolding p by (cases ys) (auto simp: l2(2))
    show "load_slot ?s' r = load_slot s r" if "r \<noteq> last (hslots (First h) [])" "r \<noteq> NextOf n" for r
      using that unfolding l by (simp add: l2(1))
    show "h_pprev ?s' x = h_pprev s x" if "x \<noteq> n" "x \<notin> set (take 1 ys)" for x
      using that unfolding p by (cases ys) (auto simp: l2(2))
  qed (use h n in simp_all)
  then show "\<exists>s'. hlist_add_head n h s = Some s' \<and> hlist s' h (n # ys)" using s2 by (simp add: hlist_add_head_def)
next
  assume h: "hlist s h (xs @ y # ys)" and ny: "n \<noteq> y"
  let ?q = "last (hslots (First h) xs)"
  have q: "h_pprev s y = ?q" "load_slot s ?q = HNode y" and d: "distinct (xs @ y # ys)"
    and c: "chain s (NextOf y) ys" using h by (simp_all add: hlist_def chain_append)
  have qn: "?q \<noteq> NextOf n" using later_slot [of n xs h] n by simp
  show "\<exists>s'. hlist_add_before n y s = Some s' \<and> hlist s' h (xs @ n # y # ys)"
  proof -
    let ?s1 = "set_pprev y (NextOf n) (set_hnext n (HNode y) (set_pprev n (h_pprev s y) s))"
    obtain s2 where s2: "store_slot ?q (HNode n) ?s1 = Some s2" using store_last [of h xs "HNode n" ?s1] by blast
    note l = store_load [OF s2]
    have "hlist s2 h (xs @ n # y # ys)"
    proof (rule hlist_insert [of s])
      show "load_slot s2 (NextOf n) = load_slot s ?q" unfolding l(1) using q(2) qn ny by simp
      show "load_slot s2 r = load_slot s r" if "r \<noteq> ?q" "r \<noteq> NextOf n" for r using that by (simp add: l)
    qed (use h n ny q qn in \<open>simp_all add: l\<close>)
    then show ?thesis using s2 ny by (simp add: hlist_add_before_def q)
  qed
  show "\<exists>s'. hlist_add_after y n s = Some s' \<and> hlist s' h (xs @ y # n # ys)"
  proof -
    let ?s1 = "set_pprev n (NextOf y) (set_hnext y (HNode n) (set_hnext n (h_next s y) s))"
    have nx: "h_next s y = (case ys of [] \<Rightarrow> HNull | z # _ \<Rightarrow> HNode z)" using c by (cases ys) simp_all
    obtain s2 where s2: "fix_pprev (h_next s y) (NextOf n) ?s1 = Some s2"
      and l2: "\<And>r. load_slot s2 r = load_slot ?s1 r"
      "h_pprev s2 = (case ys of [] \<Rightarrow> h_pprev ?s1 | z # _ \<Rightarrow> (h_pprev ?s1)(z := NextOf n))"
      using nx by (cases ys) simp_all
    have qy: "last (hslots (First h) (xs @ [y])) = NextOf y" by (simp add: hslots_def)
    have "hlist s2 h ((xs @ [y]) @ n # ys)"
    proof (rule hlist_insert [of s]; (unfold qy)?)
      show "hlist s h ((xs @ [y]) @ ys)" "n \<notin> set ((xs @ [y]) @ ys)" using h n ny by simp_all
      show "load_slot s2 (NextOf y) = HNode n" "load_slot s2 (NextOf n) = load_slot s (NextOf y)"
        unfolding l2(1) using ny by simp_all
      show "h_pprev s2 n = NextOf y" using n by (cases ys) (auto simp: l2(2))
      show "h_pprev s2 z = NextOf n" if "z \<in> set (take 1 ys)" for z using that by (cases ys) (auto simp: l2(2))
      show "load_slot s2 r = load_slot s r" if "r \<noteq> NextOf y" "r \<noteq> NextOf n" for r using that by (simp add: l2(1))
      show "h_pprev s2 x = h_pprev s x" if "x \<noteq> n" "x \<notin> set (take 1 ys)" for x
        using that by (cases ys) (auto simp: l2(2))
    qed
    then show ?thesis using s2 ny by (simp add: hlist_add_after_def)
  qed
qed

text \<open>A whole list moves to another head; what the other head had is dropped.\<close>

theorem hlist_move_list_moves:
  assumes h: "hlist s old xs" and ne: "new \<noteq> old"
  shows "\<exists>s'. hlist_move_list old new s = Some s' \<and> hlist s' new xs \<and> hlist s' old []"
proof -
  have d: "distinct xs" and c: "chain s (First old) xs" using h by (simp_all add: hlist_def)
  have f: "h_first s old = (case xs of [] \<Rightarrow> HNull | y # _ \<Rightarrow> HNode y)" using c by (cases xs) simp_all
  show ?thesis
  proof (cases xs)
    case Nil
    then show ?thesis using f ne by (simp add: hlist_move_list_def hlist_def)
  next
    case (Cons y zs)
    let ?s' = "set_pprev y (First new) (s\<lparr>h_first := (h_first s)(new := h_first s old)\<rparr>)"
    let ?s = "?s'\<lparr>h_first := (h_first ?s')(old := HNull)\<rparr>"
    have "chain ?s (NextOf y) zs \<longleftrightarrow> chain s (NextOf y) zs" by (rule chain_cong) (use d Cons in auto)
    then show ?thesis using f c d ne Cons by (simp add: hlist_move_list_def hlist_def)
  qed
qed

text \<open>A loop over an unchanged list visits its nodes in order; the safe loop may take the visited nodes off.\<close>

lemma hlist_for_each_from_visits:
  "chain s p xs \<Longrightarrow> hlist_for_each_from (\<lambda>n (s, a). Some (s, f n a)) (load_slot s p) (s, a) = Some (s, fold f xs a)"
proof (induction xs arbitrary: p a)
  case (Cons x xs)
  then show ?case
    using Cons.IH [of "NextOf x" "f x a"] by (simp add: hlist_for_each_from.simps [of _ "HNode x"])
qed (simp add: hlist_for_each_from.simps)

theorem hlist_for_each_visits:
  assumes "hlist s h xs"
  shows "hlist_for_each (\<lambda>n (s, a). Some (s, f n a)) h (s, a) = Some (s, fold f xs a)"
  using hlist_for_each_from_visits [of s "First h" xs f a] assms by (simp add: hlist_def hlist_for_each_def)

lemma hlist_for_each_safe_from_drains:
  "hlist s h xs \<Longrightarrow>
     \<exists>s'. hlist_for_each_safe_from (\<lambda>n (s, a). Option.bind (hlist_del n s) (\<lambda>s. Some (s, f n a))) (h_first s h) (s, a) =
       Some (s', fold f xs a) \<and> hlist s' h []"
proof (induction xs arbitrary: s a)
  case Nil
  then show ?case by (simp add: hlist_def hlist_for_each_safe_from.simps)
next
  case (Cons x xs)
  have "hlist s h ([] @ x # xs)" using Cons.prems by simp
  from hlist_del_removes(1) [OF this] obtain s1 where s1: "hlist_del x s = Some s1" "hlist s1 h xs" by auto
  have nx: "h_first s h = HNode x" "h_next s x = h_first s1 h"
    using Cons.prems s1(2) by (cases xs; simp add: hlist_def)+
  from Cons.IH [OF s1(2), of "f x a"] show ?case
    by (simp add: hlist_for_each_safe_from.simps [of _ "HNode x"] nx s1(1) Let_def)
qed

theorem hlist_for_each_safe_drains:
  assumes "hlist s h xs"
  shows "\<exists>s'. hlist_for_each_safe (\<lambda>n (s, a). Option.bind (hlist_del n s) (\<lambda>s. Some (s, f n a))) h (s, a) =
      Some (s', fold f xs a) \<and> hlist s' h []"
  using hlist_for_each_safe_from_drains [OF assms, of f a] by (simp add: hlist_for_each_safe_def)

end
