(* ===== verification/Umap.thy ===== *)
theory Umap
  imports Upqueue
begin

text \<open>
  The table of numbered pointers of \<open>src/umap.h\<close> and \<open>src/umap.c\<close>, which maps the process
  offsets of a domain to processes. A number is found in slot \<open>no % map_sz\<close>; the free slots wait
  in a first-in first-out queue and a counter chooses, for the slot taken, the next larger number
  that falls into it. \<open>umap_abs\<close> is the finite map a table stands for; the operations are shown
  to implement lookup, insertion under a fresh non-zero number, and deletion.
\<close>

section \<open>The table\<close>

record 'p umap_data =
  d_no :: ulong
  d_ptr :: "'p option"

text \<open>
  \<open>struct umap_meta\<close> holds the constant index of its slot and the queue link, so the queue of free
  items is a queue of slot numbers. A NULL user pointer is \<open>None\<close>.
\<close>

record 'p umap_root =
  counter :: ulong
  max_counter :: ulong
  free_items :: "nat vqueue"
  map_sz :: ulong
  slots :: "'p umap_data list"

definition umap_new :: "ulong \<Rightarrow> ulong \<Rightarrow> 'p umap_root" where
  "umap_new sz maxc =
     \<lparr>counter = 1, max_counter = maxc,
      free_items = fold (\<lambda>i q. snd (vq_put i q)) [0 ..< unat sz] vq_empty,
      map_sz = sz,
      slots = replicate (unat sz) \<lparr>d_no = 0, d_ptr = None\<rparr>\<rparr>"

definition umap_get :: "'p umap_root \<Rightarrow> ulong \<Rightarrow> error + 'p option" where
  "umap_get root no =
     (if map_sz root = 0 then Inl Div_By_Zero
      else let data = slots root ! unat (no mod map_sz root)
           in Inr (if d_no data \<noteq> no then None else d_ptr data))"

text \<open>
  The loop around the label \<open>count_again\<close>: \<open>x\<close> is an \<open>int\<close>, so the distance is cut to 32 bits and
  sign-extended when it is added. \<open>None\<close>: the loop never ends.
\<close>

definition umap_step :: "ulong \<Rightarrow> ulong \<Rightarrow> ulong \<Rightarrow> 32 word" where
  "umap_step sz idx c =
     (let x = ucast ((sz + idx - (c mod sz)) mod sz) :: 32 word
      in if x = 0 then ucast sz else x)"

partial_function (option) umap_count ::
  "ulong \<Rightarrow> ulong \<Rightarrow> ulong \<Rightarrow> ulong \<Rightarrow> (ulong \<times> 32 word) option" where
  "umap_count sz maxc idx c =
     (let x = umap_step sz idx c; c = c + scast x
      in if maxc \<le> c then umap_count sz maxc idx 0 else Some (c, x))"

definition umap_add :: "'p umap_root \<Rightarrow> 'p option \<Rightarrow> error + (ulong \<times> 'p umap_root)" where
  "umap_add root ptr =
     (case vq_get (free_items root) of
        (None, _) \<Rightarrow> Inr (0, root)
      | (Some i, free) \<Rightarrow>
          (let idx = of_nat i; root = root\<lparr>free_items := free\<rparr>
           in case umap_count (map_sz root) (max_counter root) idx (counter root) of
                None \<Rightarrow> Inl Diverge
              | Some (c, x) \<Rightarrow>
                  if \<not> (c mod map_sz root = idx \<and> 0 <s x) then Inl Abort
                  else Inr (c, root\<lparr>counter := c,
                     slots := (slots root)[i := \<lparr>d_no = c, d_ptr = ptr\<rparr>]\<rparr>)))"

definition umap_del :: "'p umap_root \<Rightarrow> ulong \<Rightarrow> error + 'p umap_root" where
  "umap_del root no =
     (if map_sz root = 0 then Inl Div_By_Zero
      else let i = unat (no mod map_sz root); data = slots root ! i
           in if d_no data \<noteq> no then Inr root
              else Inr (root\<lparr>slots := (slots root)[i := \<lparr>d_no = 0, d_ptr = None\<rparr>],
                             free_items := snd (vq_put i (free_items root))\<rparr>))"

section \<open>What a table stands for\<close>

definition umap_abs :: "'p umap_root \<Rightarrow> ulong \<rightharpoonup> 'p" where
  "umap_abs root no =
     (let data = slots root ! unat (no mod map_sz root)
      in if no \<noteq> 0 \<and> d_no data = no then d_ptr data else None)"

text \<open>The slots in use: their numbers are live.\<close>

definition live_nos :: "'p umap_root \<Rightarrow> ulong set" where
  "live_nos root = {no. no \<noteq> 0 \<and> d_no (slots root ! unat (no mod map_sz root)) = no}"

definition umap_wf :: "'p umap_root \<Rightarrow> bool" where
  "umap_wf root \<longleftrightarrow>
     (let n = unat (map_sz root) in
      0 < n \<and> n < 2 ^ 31 \<and> n < unat (max_counter root) \<and> unat (max_counter root) + n \<le> 2 ^ 64 \<and>
      unat (counter root) < unat (max_counter root) \<and>
      length (slots root) = n \<and>
      vq_wf (free_items root) \<and> distinct (vq_items (free_items root)) \<and>
      set (vq_items (free_items root)) \<subseteq> {..< n} \<and>
      (\<forall>i < n. if i \<in> set (vq_items (free_items root))
               then slots root ! i = \<lparr>d_no = 0, d_ptr = None\<rparr>
               else d_no (slots root ! i) \<noteq> 0 \<and> unat (d_no (slots root ! i)) mod n = i))"

section \<open>The distance to the next number of a slot\<close>

definition step_nat :: "nat \<Rightarrow> nat \<Rightarrow> nat \<Rightarrow> nat" where
  "step_nat n i c = (let x = (n + i - c mod n) mod n in if x = 0 then n else x)"

lemma step_nat_bounds: "0 < n \<Longrightarrow> 0 < step_nat n i c \<and> step_nat n i c \<le> n"
  by (auto simp: step_nat_def Let_def intro: less_imp_le)

lemma step_nat_mod: "0 < n \<Longrightarrow> i < n \<Longrightarrow> (c + step_nat n i c) mod n = i"
proof -
  assume n: "0 < n" and i: "i < n"
  let ?x = "(n + i - c mod n) mod n"
  have "(c + step_nat n i c) mod n = (c + ?x) mod n"
    by (auto simp: step_nat_def Let_def)
  also have "\<dots> = (c mod n + (n + i - c mod n)) mod n" by (simp add: mod_simps)
  also have "\<dots> = (n + i) mod n"
    using n by (metis le_add_diff_inverse mod_less_divisor nat_less_le trans_le_add1)
  finally show ?thesis using i by simp
qed

lemma umap_step_unat:
  assumes n: "0 < unat sz" "unat sz < 2 ^ 31" and i: "unat idx < unat sz"
  shows "unat (umap_step sz idx c) = step_nat (unat sz) (unat idx) (unat c)"
proof -
  let ?n = "unat sz" and ?x = "(unat sz + unat idx - unat c mod unat sz) mod unat sz"
  have m: "unat c mod ?n < ?n" using n(1) by simp
  have "?n + unat idx < 2 ^ 64" using n(2) i by simp
  then have "unat (sz + idx) = ?n + unat idx" by (rule unat_add_ulong)
  moreover from this have "unat (sz + idx - c mod sz) = ?n + unat idx - unat c mod ?n"
    using m by (subst unat_sub_ulong) (simp_all add: unat_mod)
  ultimately have e: "unat ((sz + idx - c mod sz) mod sz) = ?x" by (simp add: unat_mod)
  have "?x < ?n" using n(1) by simp
  then have u: "unat (ucast ((sz + idx - c mod sz) mod sz) :: 32 word) = ?x"
    using n(2) unfolding unat_ucast_32 e by simp
  have v: "unat (ucast sz :: 32 word) = ?n" using n(2) by (simp add: unat_ucast_32)
  have z: "(ucast ((sz + idx - c mod sz) mod sz) :: 32 word) = 0 \<longleftrightarrow> ?x = 0"
    using u by (metis unat_eq_zero)
  show ?thesis unfolding umap_step_def step_nat_def Let_def z using u v by simp
qed

text \<open>
  The loop takes one turn, or two when the counter passes the maximum; it ends on a non-zero
  number of the slot asked for.
\<close>

lemma umap_count_spec:
  assumes n: "0 < unat sz" "unat sz < 2 ^ 31" and i: "unat idx < unat sz"
    and m: "unat sz < unat maxc" "unat maxc + unat sz \<le> 2 ^ 64" and c: "unat c < unat maxc"
  shows "\<exists>c' x. umap_count sz maxc idx c = Some (c', x) \<and> 0 <s x \<and> c' \<noteq> 0 \<and>
     c' mod sz = idx \<and> unat c' < unat maxc \<and>
     (unat c < unat c' \<or> unat maxc \<le> unat c + unat sz \<and> unat c' \<le> unat sz)"
proof -
  have step: "unat (d + scast (umap_step sz idx d)) = unat d + step_nat (unat sz) (unat idx) (unat d) \<and>
      0 <s umap_step sz idx d \<and> (d + scast (umap_step sz idx d)) mod sz = idx"
    if d: "unat d < unat maxc" for d
  proof -
    let ?x = "umap_step sz idx d" and ?s = "step_nat (unat sz) (unat idx) (unat d)"
    have x: "unat ?x = ?s" by (rule umap_step_unat [OF n i])
    have b: "0 < ?s" "?s \<le> unat sz" using step_nat_bounds [OF n(1)] by auto
    then have xs: "unat ?x < 2 ^ 31" using n(2) x by simp
    have "unat d + ?s < 2 ^ 64" using d b(2) m(2) by simp
    then have a: "unat (d + scast ?x) = unat d + ?s"
      by (subst unat_add_ulong) (simp_all add: unat_scast_small [OF xs] x)
    moreover have "0 <s ?x" unfolding signed_pos_small [OF xs] using b x by (metis less_numeral_extra(3) unat_0)
    moreover have "unat ((d + scast ?x) mod sz) = unat idx"
      unfolding unat_mod a using step_nat_mod [OF n(1) i] by simp
    ultimately show ?thesis by (simp add: word_unat_eq_iff)
  qed
  have done_: "umap_count sz maxc idx d = Some (d + scast (umap_step sz idx d), umap_step sz idx d)"
    if "unat d + step_nat (unat sz) (unat idx) (unat d) < unat maxc" "unat d < unat maxc" for d
    using that step [of d] by (subst umap_count.simps) (simp add: Let_def word_le_nat_alt)
  have pos: "0 < step_nat (unat sz) (unat idx) d" "step_nat (unat sz) (unat idx) d \<le> unat sz" for d
    using step_nat_bounds [OF n(1)] by auto
  show ?thesis
  proof (cases "unat c + step_nat (unat sz) (unat idx) (unat c) < unat maxc")
    case True
    with step [OF c] done_ [OF True c] pos [of "unat c"] show ?thesis by fastforce
  next
    case False
    have z: "unat (0 :: ulong) < unat maxc" using m(1) by simp
    have t: "unat (0 :: ulong) + step_nat (unat sz) (unat idx) (unat (0 :: ulong)) < unat maxc"
      using pos [of 0] m(1) by simp
    have "umap_count sz maxc idx c = umap_count sz maxc idx 0"
      using False step [OF c] by (subst umap_count.simps) (simp add: Let_def word_le_nat_alt)
    moreover have "unat maxc \<le> unat c + unat sz" using False pos [of "unat c"] by linarith
    ultimately show ?thesis using step [OF z] done_ [OF t z] pos [of 0] t by fastforce
  qed
qed

section \<open>The operations implement a finite map\<close>

lemma umap_wf_simps:
  assumes "umap_wf root"
  shows "0 < unat (map_sz root)" "map_sz root \<noteq> 0" "unat (map_sz root) < 2 ^ 31"
    "length (slots root) = unat (map_sz root)" "vq_wf (free_items root)"
    "distinct (vq_items (free_items root))" "unat (counter root) < unat (max_counter root)"
  using assms by (auto simp: umap_wf_def Let_def)

lemma slot_bound: "umap_wf root \<Longrightarrow> unat (no mod map_sz root) < unat (map_sz root)"
  using umap_wf_simps(1) [of root] by (simp add: unat_mod)

lemma slot_free_iff:
  assumes "umap_wf root" and "i < unat (map_sz root)"
  shows "i \<in> set (vq_items (free_items root)) \<longleftrightarrow> d_no (slots root ! i) = 0"
    and "i \<in> set (vq_items (free_items root)) \<Longrightarrow> slots root ! i = \<lparr>d_no = 0, d_ptr = None\<rparr>"
  using assms by (auto simp: umap_wf_def Let_def split: if_splits)

lemma slot_number:
  assumes "umap_wf root" and "i < unat (map_sz root)" and "d_no (slots root ! i) \<noteq> 0"
  shows "unat (d_no (slots root ! i)) mod unat (map_sz root) = i"
  using assms by (auto simp: umap_wf_def Let_def split: if_splits)

lemma umap_get_abs:
  assumes wf: "umap_wf root"
  shows "umap_get root no = Inr (umap_abs root no)"
proof (cases "no = 0 \<and> d_no (slots root ! unat (no mod map_sz root)) = no")
  case True
  then have "slots root ! unat (no mod map_sz root) = \<lparr>d_no = 0, d_ptr = None\<rparr>"
    using slot_free_iff [OF wf slot_bound [OF wf, of no]] by blast
  with True show ?thesis using umap_wf_simps(2) [OF wf] by (simp add: umap_get_def umap_abs_def Let_def)
next
  case False
  then show ?thesis using umap_wf_simps(2) [OF wf] by (auto simp: umap_get_def umap_abs_def Let_def)
qed

lemma fold_vq_put_items: "vq_items (fold (\<lambda>i q. snd (vq_put i q)) xs vq_empty) = xs"
  "vq_wf (fold (\<lambda>i q. snd (vq_put i q)) xs vq_empty)"
  using vq.put_all [of vq_empty xs] by simp_all

lemma umap_new_wf [wf_intros]:
  assumes "0 < unat sz" "unat sz < 2 ^ 31" "unat sz < unat maxc" "unat maxc + unat sz \<le> 2 ^ 64"
  shows "umap_wf (umap_new sz maxc)" and "umap_abs (umap_new sz maxc) = Map.empty"
  using assms by (auto simp: umap_wf_def umap_new_def fold_vq_put_items umap_abs_def Let_def unat_mod)

lemma umap_new_items: "vq_items (free_items (umap_new sz maxc)) = [0 ..< unat sz]"
  by (simp add: umap_new_def fold_vq_put_items)

lemma umap_add_full: "vq_items (free_items root) = [] \<Longrightarrow> umap_add root p = Inr (0, root)"
  by (simp add: umap_add_def vq.get_Nil)

lemma umap_add_run:
  assumes wf: "umap_wf root" and f: "vq_items (free_items root) = i # rest"
  shows "\<exists>no. umap_add root p = Inr (no,
        root\<lparr>free_items := snd (vq_get (free_items root)), counter := no,
             slots := (slots root)[i := \<lparr>d_no = no, d_ptr = p\<rparr>]\<rparr>) \<and>
     no \<noteq> 0 \<and> unat (no mod map_sz root) = i \<and> unat no mod unat (map_sz root) = i \<and> i < unat (map_sz root) \<and>
     unat no < unat (max_counter root) \<and>
     (unat (counter root) < unat no \<or>
      unat (max_counter root) \<le> unat (counter root) + unat (map_sz root) \<and> unat no \<le> unat (map_sz root))"
proof -
  have i: "i < unat (map_sz root)" using wf f by (auto simp: umap_wf_def Let_def)
  have ui: "unat (of_nat i :: ulong) = i"
    using i umap_wf_simps(3) [OF wf] by (intro unat_of_nat_ulong) simp
  have g: "vq_get (free_items root) = (Some i, snd (vq_get (free_items root)))"
    using vq.get_Cons [OF f] by (simp add: prod_eq_iff)
  have m: "unat (map_sz root) < unat (max_counter root)"
      "unat (max_counter root) + unat (map_sz root) \<le> 2 ^ 64"
    using wf by (auto simp: umap_wf_def Let_def)
  from umap_count_spec [OF umap_wf_simps(1) [OF wf] umap_wf_simps(3) [OF wf] _ m umap_wf_simps(7) [OF wf],
      of "of_nat i"] i obtain no x where
    "umap_count (map_sz root) (max_counter root) (of_nat i) (counter root) = Some (no, x)" "0 <s x" "no \<noteq> 0"
    and nm: "no mod map_sz root = of_nat i" and "unat no < unat (max_counter root)"
    "unat (counter root) < unat no \<or>
      unat (max_counter root) \<le> unat (counter root) + unat (map_sz root) \<and> unat no \<le> unat (map_sz root)"
    unfolding ui by blast
  moreover have "unat no mod unat (map_sz root) = i" using nm ui by (metis unat_mod)
  ultimately show ?thesis
    using i ui by (subst umap_add_def, subst g) (simp add: Let_def)
qed

lemma umap_add_spec:
  assumes wf: "umap_wf root" and f: "vq_items (free_items root) = i # rest"
  shows "\<exists>no root'. umap_add root (Some p) = Inr (no, root') \<and> no \<noteq> 0 \<and> no \<notin> live_nos root \<and>
     umap_wf root' \<and> umap_abs root' = (umap_abs root)(no \<mapsto> p) \<and> live_nos root' = insert no (live_nos root) \<and>
     map_sz root' = map_sz root \<and> vq_items (free_items root') = rest \<and>
     unat no mod unat (map_sz root) = i \<and>
     (unat (counter root) < unat no \<or> unat (max_counter root) \<le> unat (counter root) + unat (map_sz root))"
proof -
  from umap_add_run [OF wf f, of "Some p"] obtain no where
    run: "umap_add root (Some p) = Inr (no,
        root\<lparr>free_items := snd (vq_get (free_items root)), counter := no,
             slots := (slots root)[i := \<lparr>d_no = no, d_ptr = Some p\<rparr>]\<rparr>)" (is "_ = Inr (_, ?r)")
    and no: "no \<noteq> 0" "unat (no mod map_sz root) = i" "unat no mod unat (map_sz root) = i" "i < unat (map_sz root)"
      "unat no < unat (max_counter root)"
    and fresh: "unat (counter root) < unat no \<or> unat (max_counter root) \<le> unat (counter root) + unat (map_sz root)"
    by blast
  have i0: "slots root ! i = \<lparr>d_no = 0, d_ptr = None\<rparr>"
    using slot_free_iff(2) [OF wf no(4)] f by simp
  have rest: "vq_items (snd (vq_get (free_items root))) = rest" "vq_wf (snd (vq_get (free_items root)))"
    using vq.get_Cons [OF f] vq.get_invar [OF umap_wf_simps(5) [OF wf]] by auto
  have d: "i \<notin> set rest" "distinct rest" using umap_wf_simps(6) [OF wf] f by auto
  have wf': "umap_wf ?r"
    using wf rest d no f by (auto simp: umap_wf_def Let_def nth_list_update split: if_splits)
  have len: "i < length (slots root)" using no(4) umap_wf_simps(4) [OF wf] by simp
  have same: "d_no (slots root ! unat (m mod map_sz root)) = m \<longrightarrow> m = 0 \<or> unat (m mod map_sz root) \<noteq> i" for m
    using i0 by auto
  have "umap_abs ?r m = ((umap_abs root)(no \<mapsto> p)) m" for m
    using same [of m] no len by (auto simp: umap_abs_def Let_def nth_list_update i0)
  then have "umap_abs ?r = (umap_abs root)(no \<mapsto> p)" by (rule ext)
  moreover have "live_nos ?r = insert no (live_nos root)"
    using no(1,2) len i0 by (auto simp: live_nos_def nth_list_update)
  moreover have "no \<notin> live_nos root" using no i0 by (auto simp: live_nos_def)
  ultimately show ?thesis using run wf' rest(1) no fresh by auto
qed

text \<open>
  C3: \<open>umap_add\<close> on a table with a free slot returns a number that is not 0, was not live, and
  from then on looks up the new pointer; every other number looks up what it did before, and the
  table stays well-formed. The number lies in the slot that had been free the longest, and it is
  larger than every number handed out before unless the counter wrapped at its maximum.
\<close>

theorem umap_add_inserts:
  assumes wf: "umap_wf root" and f: "vq_items (free_items root) = i # rest"
  shows "\<exists>no root'. umap_add root (Some p) = Inr (no, root') \<and> no \<noteq> 0 \<and> no \<notin> live_nos root \<and>
     umap_wf root' \<and> umap_abs root' = (umap_abs root)(no \<mapsto> p) \<and> live_nos root' = insert no (live_nos root) \<and>
     map_sz root' = map_sz root \<and> vq_items (free_items root') = rest \<and>
     unat no mod unat (map_sz root) = i \<and>
     (unat (counter root) < unat no \<or> unat (max_counter root) \<le> unat (counter root) + unat (map_sz root))"
  by (rule umap_add_spec [OF wf f])

theorem umap_add_inserts_witness:
  "\<exists>no root'. umap_add (umap_new 2 100) (Some ''p'') = Inr (no, root') \<and> no \<noteq> 0 \<and>
     umap_wf root' \<and> umap_abs root' = [no \<mapsto> ''p''] \<and> unat no mod 2 = 0"
proof -
  have w: "umap_wf (umap_new 2 100 :: string umap_root)" and e: "umap_abs (umap_new 2 100) = (Map.empty :: ulong \<rightharpoonup> string)"
    by (rule umap_new_wf; simp)+
  have f: "vq_items (free_items (umap_new 2 100 :: string umap_root)) = 0 # [1]"
    by (simp add: umap_new_items upt_rec)
  from umap_add_inserts [OF w f, of "''p''"] show ?thesis
    unfolding e by (auto simp: umap_new_def)
qed

lemma umap_wf_release:
  assumes wf: "umap_wf root" and i: "i < unat (map_sz root)" and nf: "i \<notin> set (vq_items (free_items root))"
  shows "umap_wf (root\<lparr>slots := (slots root)[i := \<lparr>d_no = 0, d_ptr = None\<rparr>],
                 free_items := snd (vq_put i (free_items root))\<rparr>)"
proof -
  note put = vq.put_items [OF umap_wf_simps(5) [OF wf], of i] vq.put_invar [OF umap_wf_simps(5) [OF wf], of i]
  show ?thesis
    using wf put nf i unfolding umap_wf_def Let_def by (simp add: nth_list_update)
qed

lemma umap_del_spec:
  assumes wf: "umap_wf root" and no: "no \<noteq> 0"
  shows "\<exists>root'. umap_del root no = Inr root' \<and> umap_wf root' \<and>
     umap_abs root' = (umap_abs root)(no := None) \<and> live_nos root' = live_nos root - {no} \<and>
     (no \<notin> live_nos root \<longrightarrow> root' = root) \<and>
     (no \<in> live_nos root \<longrightarrow> vq_items (free_items root') = vq_items (free_items root) @ [unat (no mod map_sz root)])"
proof (cases "no \<in> live_nos root")
  case False
  then have "d_no (slots root ! unat (no mod map_sz root)) \<noteq> no" using no by (simp add: live_nos_def)
  then have "umap_del root no = Inr root" "umap_abs root no = None"
    using umap_wf_simps(2) [OF wf] by (simp_all add: umap_del_def umap_abs_def Let_def)
  moreover from this(2) have "(umap_abs root)(no := None) = umap_abs root" by (rule fun_upd_idem)
  ultimately show ?thesis using wf False by simp
next
  case True
  let ?i = "unat (no mod map_sz root)"
  let ?r = "root\<lparr>slots := (slots root)[?i := \<lparr>d_no = 0, d_ptr = None\<rparr>],
                 free_items := snd (vq_put ?i (free_items root))\<rparr>"
  have dn: "d_no (slots root ! ?i) = no" using True by (simp add: live_nos_def)
  have i: "?i < unat (map_sz root)" by (rule slot_bound [OF wf])
  have len: "?i < length (slots root)" using i umap_wf_simps(4) [OF wf] by simp
  have nf: "?i \<notin> set (vq_items (free_items root))" using slot_free_iff(1) [OF wf i] dn no by simp
  have put: "vq_items (snd (vq_put ?i (free_items root))) = vq_items (free_items root) @ [?i]"
      "vq_wf (snd (vq_put ?i (free_items root)))"
    by (rule vq.put_items vq.put_invar; rule umap_wf_simps(5) [OF wf])+
  have run: "umap_del root no = Inr ?r"
    using dn umap_wf_simps(2) [OF wf] by (simp add: umap_del_def Let_def)
  have wf': "umap_wf ?r" by (rule umap_wf_release [OF wf i nf])
  have other: "unat (m mod map_sz root) \<noteq> ?i" if "d_no (slots root ! unat (m mod map_sz root)) = m" "m \<noteq> no" for m
    using that dn by metis
  have "umap_abs ?r m = ((umap_abs root)(no := None)) m" for m
    using other [of m] len by (auto simp: umap_abs_def Let_def nth_list_update)
  then have "umap_abs ?r = (umap_abs root)(no := None)" by (rule ext)
  moreover have "m \<in> live_nos ?r \<longleftrightarrow> m \<in> live_nos root - {no}" for m
    using other [of m] len no
    by (cases "m = no"; cases "unat (m mod map_sz root) = ?i") (auto simp: live_nos_def nth_list_update)
  then have "live_nos ?r = live_nos root - {no}" by blast
  ultimately show ?thesis using run wf' put(1) True by auto
qed

text \<open>
  C4: \<open>umap_del\<close> of any number but 0 removes that number and nothing else; deleting a number
  that is not live, such as one whose slot has been reused, changes nothing.
\<close>

theorem umap_del_deletes:
  assumes wf: "umap_wf root" and no: "no \<noteq> 0"
  shows "\<exists>root'. umap_del root no = Inr root' \<and> umap_wf root' \<and>
     umap_abs root' = (umap_abs root)(no := None) \<and> live_nos root' = live_nos root - {no} \<and>
     (no \<notin> live_nos root \<longrightarrow> root' = root) \<and>
     (no \<in> live_nos root \<longrightarrow> vq_items (free_items root') = vq_items (free_items root) @ [unat (no mod map_sz root)])"
  by (rule umap_del_spec [OF wf no])

theorem umap_del_deletes_witness:
  "\<exists>no root1 root2. umap_add (umap_new 2 100) (Some ''p'') = Inr (no, root1) \<and> umap_abs root1 no = Some ''p'' \<and>
     umap_del root1 no = Inr root2 \<and> umap_wf root2 \<and> umap_abs root2 no = None"
proof -
  have w: "umap_wf (umap_new 2 100 :: string umap_root)" by (rule umap_new_wf; simp)
  have f: "vq_items (free_items (umap_new 2 100 :: string umap_root)) = 0 # [1]"
    by (simp add: umap_new_items upt_rec)
  obtain no root1 where a: "umap_add (umap_new 2 100) (Some ''p'') = Inr (no, root1)" "no \<noteq> 0" "umap_wf root1"
    "umap_abs root1 no = Some ''p''"
    using umap_add_spec [OF w f, of "''p''"] by auto
  obtain root2 where "umap_del root1 no = Inr root2" "umap_wf root2" "umap_abs root2 = (umap_abs root1)(no := None)"
    using umap_del_deletes [OF a(3,2)] by blast
  with a(1,4) show ?thesis by (intro exI [of _ no] exI [of _ root1] exI [of _ root2]) simp
qed

text \<open>
  Deleting the number 0, which \<open>umap_add\<close> returns for "no slot", is not a no-op: when slot 0 is
  free its stored number is 0, so the guard passes and the slot is put into the free queue again.
\<close>

lemma umap_del_zero_requeues:
  assumes wf: "umap_wf root" and f: "0 \<in> set (vq_items (free_items root))"
  shows "\<exists>root'. umap_del root 0 = Inr root' \<and>
     vq_items (free_items root') = vq_items (free_items root) @ [0] \<and> \<not> umap_wf root'"
proof -
  have i: "unat (0 mod map_sz root) = 0" by (simp add: unat_mod)
  have "slots root ! 0 = \<lparr>d_no = 0, d_ptr = None\<rparr>"
    using slot_free_iff(2) [OF wf _ f] umap_wf_simps(1) [OF wf] by simp
  then have "umap_del root 0 = Inr (root\<lparr>slots := (slots root)[0 := \<lparr>d_no = 0, d_ptr = None\<rparr>],
      free_items := snd (vq_put 0 (free_items root))\<rparr>)" (is "_ = Inr ?r")
    using umap_wf_simps(2) [OF wf] i by (simp add: umap_del_def Let_def)
  moreover have p: "vq_items (free_items ?r) = vq_items (free_items root) @ [0]"
    using vq.put_items [OF umap_wf_simps(5) [OF wf]] by simp
  moreover have "\<not> umap_wf ?r"
  proof
    assume "umap_wf ?r"
    then have "distinct (vq_items (free_items ?r))" by (rule umap_wf_simps(6))
    then show False using p f by simp
  qed
  ultimately show ?thesis by blast
qed

section \<open>The table as an interface\<close>

text \<open>
  What a domain relies on: numbers are handed out fresh and not 0, look up their pointer until
  they are deleted, and never interfere. \<open>full\<close> is the answer 0.
\<close>

locale numbered_table =
  fixes add :: "'t \<Rightarrow> 'p \<Rightarrow> error + (ulong \<times> 't)"
    and del :: "'t \<Rightarrow> ulong \<Rightarrow> error + 't"
    and get :: "'t \<Rightarrow> ulong \<Rightarrow> error + 'p option"
    and tab :: "'t \<Rightarrow> ulong \<rightharpoonup> 'p"
    and invar :: "'t \<Rightarrow> bool"
  assumes get_tab: "invar t \<Longrightarrow> get t no = Inr (tab t no)"
    and tab_zero: "tab t 0 = None"
    and add_tab: "invar t \<Longrightarrow> \<exists>no t'. add t p = Inr (no, t') \<and>
        (no = 0 \<and> t' = t \<or> no \<noteq> 0 \<and> tab t no = None \<and> tab t' = (tab t)(no \<mapsto> p) \<and> invar t')"
    and del_tab: "invar t \<Longrightarrow> no \<noteq> 0 \<Longrightarrow> \<exists>t'. del t no = Inr t' \<and> tab t' = (tab t)(no := None) \<and> invar t'"
begin

lemma add_cases:
  assumes "invar t" and "add t p = Inr (no, t')"
  obtains (full) "no = 0" "t' = t"
    | (added) "no \<noteq> 0" "tab t no = None" "tab t' = (tab t)(no \<mapsto> p)" "invar t'"
  using add_tab [OF assms(1), of p] assms(2) by auto

lemma add_invar: "invar t \<Longrightarrow> add t p = Inr (no, t') \<Longrightarrow> invar t'"
  by (frule (1) add_cases) auto

lemma add_other:
  "invar t \<Longrightarrow> add t p = Inr (no, t') \<Longrightarrow> m \<noteq> no \<Longrightarrow> tab t' m = tab t m"
  by (erule (1) add_cases) auto

lemma del_run:
  assumes "invar t" and "no \<noteq> 0"
  obtains t' where "del t no = Inr t'" "tab t' = (tab t)(no := None)" "invar t'"
  using del_tab [OF assms] by blast

lemma get_after_del: "invar t \<Longrightarrow> no \<noteq> 0 \<Longrightarrow> rbind (del t no) (\<lambda>t'. get t' no) = Inr None"
  by (erule (1) del_run) (simp add: get_tab)

lemma del_other: "invar t \<Longrightarrow> no \<noteq> 0 \<Longrightarrow> m \<noteq> no \<Longrightarrow> rbind (del t no) (\<lambda>t'. get t' m) = get t m"
  using get_tab [of t m] by (rule_tac del_run [of t no]) (simp_all add: get_tab)

end

lemma umap_abs_live: "umap_abs root no = Some p \<Longrightarrow> no \<in> live_nos root"
  by (auto simp: umap_abs_def live_nos_def Let_def split: if_splits)

interpretation um: numbered_table "\<lambda>t p. umap_add t (Some p)" umap_del umap_get umap_abs umap_wf
proof unfold_locales
  fix t :: "'a umap_root" and no p
  show "umap_wf t \<Longrightarrow> umap_get t no = Inr (umap_abs t no)" by (rule umap_get_abs)
  show "umap_abs t 0 = None" by (simp add: umap_abs_def)
  show "\<exists>no t'. umap_add t (Some p) = Inr (no, t') \<and>
        (no = 0 \<and> t' = t \<or> no \<noteq> 0 \<and> umap_abs t no = None \<and> umap_abs t' = (umap_abs t)(no \<mapsto> p) \<and> umap_wf t')"
    if wf: "umap_wf t"
  proof (cases "vq_items (free_items t)")
    case Nil
    then show ?thesis using umap_add_full by blast
  next
    case (Cons i rest)
    then show ?thesis using umap_add_spec [OF wf Cons, of p] umap_abs_live [of t]
      by (metis not_None_eq)
  qed
  show "\<exists>t'. umap_del t no = Inr t' \<and> umap_abs t' = (umap_abs t)(no := None) \<and> umap_wf t'"
    if "umap_wf t" "no \<noteq> 0"
    using umap_del_spec [OF that] by blast
qed

end
