(* ===== verification/Memalloc.thy ===== *)
theory Memalloc
  imports Upqueue
begin

text \<open>
  The chunk allocator of \<open>src/memalloc.h\<close> and \<open>src/memalloc.c\<close>: a zone owns pages obtained from
  \<open>posix_memalign\<close>, a page is cut into equal chunks, and a cache (one per domain and zone) holds
  free chunks so that most allocations and releases touch only the cache. A page is found from
  one of its chunks by clearing the low bits of the address. The answers of \<open>posix_memalign\<close> are
  a parameter; \<open>os_ok\<close> states what it documents. The invariant \<open>alloc_wf\<close> accounts for every chunk
  of every page of a zone: it is in the free queue of its page, in a cache, or handed out, and
  never in two of these places.
\<close>

unbundle bit_operations_syntax

section \<open>Layout\<close>

type_synonym addr = ulong

definition PAGE_SIZE :: nat where "PAGE_SIZE = 4096"
definition CACHELINE_SIZE :: nat where "CACHELINE_SIZE = 64"

definition cacheline_align :: "nat \<Rightarrow> nat" where
  "cacheline_align i = ((i + (CACHELINE_SIZE - 1)) div CACHELINE_SIZE) * CACHELINE_SIZE"

text \<open>\<open>sizeof(struct mem_page)\<close> and \<open>sizeof(struct mem_chunk)\<close> where pointers have 8 bytes.\<close>

definition sizeof_mem_page :: nat where "sizeof_mem_page = 40"
definition sizeof_mem_chunk :: nat where "sizeof_mem_chunk = 8"

text \<open>
  The lists and queues hold addresses. A zone's list of pages holds the pages with free chunks.
  \<open>pages\<close> maps the addresses of the live pages to their headers; \<open>ticks\<close> numbers the calls of
  \<open>posix_memalign\<close>.
\<close>

record mem_page =
  pg_queue :: "addr vqueue"
  pg_free :: nat

record mem_zone =
  chunk_size :: nat
  aligned_chunk_size :: nat
  chunks_per_page :: nat
  alloc_pages :: "32 word"
  freed_pages :: "32 word"
  free_chunks :: "32 word"
  list_of_pages :: "addr list"

type_synonym mem_cache = "addr vqueue"

record ram =
  pages :: "addr \<rightharpoonup> mem_page"
  ticks :: nat

type_synonym os = "nat \<Rightarrow> addr set \<Rightarrow> addr option"

section \<open>The operations of memalloc.c\<close>

definition page_from_chunk :: "addr \<Rightarrow> addr" where
  "page_from_chunk chunk = chunk AND NOT (of_nat PAGE_SIZE - 1)"

definition chunk_addr :: "mem_zone \<Rightarrow> addr \<Rightarrow> nat \<Rightarrow> addr" where
  "chunk_addr zone page i = page + of_nat (cacheline_align sizeof_mem_page + i * aligned_chunk_size zone)"

definition init_mem_zone :: "nat \<Rightarrow> error + mem_zone" where
  "init_mem_zone sz =
     (let aligned = cacheline_align sz;
          avail_bytes = PAGE_SIZE - cacheline_align sizeof_mem_page
      in if aligned = 0 then Inl Div_By_Zero
         else let per_page = avail_bytes div aligned
              in if sz < sizeof_mem_chunk \<or> per_page < 2 then Inl Abort
                 else Inr \<lparr>chunk_size = sz, aligned_chunk_size = aligned, chunks_per_page = per_page,
                           alloc_pages = 0, freed_pages = 0, free_chunks = 0, list_of_pages = []\<rparr>)"

definition zone_free :: "mem_zone \<Rightarrow> error + unit" where
  "zone_free zone =
     (if list_of_pages zone \<noteq> [] then Inl Abort
      else if freed_pages zone \<noteq> alloc_pages zone then Inl Abort
      else if free_chunks zone \<noteq> 0 then Inl Abort
      else Inr ())"

definition init_mem_cache :: mem_cache where
  "init_mem_cache = vq_empty"

definition page_alloc :: "os \<Rightarrow> mem_zone \<Rightarrow> ram \<Rightarrow> error + (mem_zone \<times> ram)" where
  "page_alloc os zone ram =
     (case os (ticks ram) (dom (pages ram)) of
        None \<Rightarrow> Inl (Fatal ''posix_memalign(%i, %i)'')
      | Some page \<Rightarrow>
          (let queue = fold (\<lambda>i q. snd (vq_put_head (chunk_addr zone page i) q))
                         [0 ..< chunks_per_page zone] vq_empty
           in Inr (zone\<lparr>list_of_pages := page # list_of_pages zone,
                        free_chunks := free_chunks zone + of_nat (chunks_per_page zone),
                        alloc_pages := alloc_pages zone + 1\<rparr>,
                   ram\<lparr>pages := (pages ram)(page \<mapsto> \<lparr>pg_queue = queue, pg_free = chunks_per_page zone\<rparr>),
                       ticks := Suc (ticks ram)\<rparr>)))"

definition page_free :: "mem_zone \<Rightarrow> ram \<Rightarrow> addr \<Rightarrow> error + (mem_zone \<times> ram)" where
  "page_free zone ram page =
     rbind (need (pages ram page)) (\<lambda>pg.
       if pg_free pg \<noteq> chunks_per_page zone then Inl Abort
       else Inr (zone\<lparr>free_chunks := free_chunks zone - of_nat (pg_free pg),
                      list_of_pages := remove1 page (list_of_pages zone),
                      freed_pages := freed_pages zone + 1\<rparr>,
                 ram\<lparr>pages := (pages ram)(page := None)\<rparr>))"

text \<open>The loop of \<open>_cache_fill\<close>: \<open>list_for_each_safe\<close> over the list of pages, taking off each page
  it visits, until enough chunks were moved.\<close>

fun cache_fill_loop ::
  "addr list \<Rightarrow> nat \<Rightarrow> mem_cache \<Rightarrow> mem_zone \<Rightarrow> ram \<Rightarrow> error + (mem_cache \<times> mem_zone \<times> ram)" where
  "cache_fill_loop [] chunks cache zone ram = Inr (cache, zone, ram)"
| "cache_fill_loop (page # rest) chunks cache zone ram =
     rbind (need (pages ram page)) (\<lambda>pg.
       let chunks = chunks + pg_free pg;
           (queue, cache) = vq_splice (pg_queue pg) cache;
           zone = zone\<lparr>list_of_pages := remove1 page (list_of_pages zone),
                       free_chunks := free_chunks zone - of_nat (pg_free pg)\<rparr>;
           ram = ram\<lparr>pages := (pages ram)(page \<mapsto> \<lparr>pg_queue = queue, pg_free = 0\<rparr>)\<rparr>
       in if chunks_per_page zone \<le> chunks then Inr (cache, zone, ram)
          else cache_fill_loop rest chunks cache zone ram)"

definition cache_fill :: "os \<Rightarrow> mem_cache \<Rightarrow> mem_zone \<Rightarrow> ram \<Rightarrow> error + (mem_cache \<times> mem_zone \<times> ram)" where
  "cache_fill os cache zone ram =
     rbind (if free_chunks zone < of_nat (chunks_per_page zone) then page_alloc os zone ram
            else Inr (zone, ram))
       (\<lambda>(zone, ram). cache_fill_loop (list_of_pages zone) 0 cache zone ram)"

text \<open>One turn of the loop of \<open>cache_drain\<close>, for a chunk taken from the cache.\<close>

definition drain_chunk :: "addr \<Rightarrow> mem_zone \<Rightarrow> ram \<Rightarrow> error + (mem_zone \<times> ram)" where
  "drain_chunk chunk zone ram =
     (let page = page_from_chunk chunk
      in rbind (need (pages ram page)) (\<lambda>pg.
           let queue = snd (vq_put_head chunk (pg_queue pg));
               zone = (if pg_free pg = 0 then zone\<lparr>list_of_pages := page # list_of_pages zone\<rparr> else zone);
               pg = \<lparr>pg_queue = queue, pg_free = Suc (pg_free pg)\<rparr>;
               zone = zone\<lparr>free_chunks := free_chunks zone + 1\<rparr>;
               ram = ram\<lparr>pages := (pages ram)(page \<mapsto> pg)\<rparr>
           in if pg_free pg = chunks_per_page zone then page_free zone ram page
              else Inr (zone, ram)))"

function cache_drain :: "mem_cache \<Rightarrow> mem_zone \<Rightarrow> ram \<Rightarrow> error + (mem_cache \<times> mem_zone \<times> ram)" where
  "cache_drain cache zone ram =
     (case vq_get cache of
        (None, cache) \<Rightarrow> Inr (cache, zone, ram)
      | (Some chunk, cache) \<Rightarrow>
          rbind (drain_chunk chunk zone ram) (\<lambda>(zone, ram). cache_drain cache zone ram))"
  by pat_completeness auto
termination
  by (relation "measure (\<lambda>(cache, zone, ram). length (vq_items cache))")
    (auto simp: vq_get_def split: list.splits)

declare cache_drain.simps [simp del]

definition cache_malloc :: "os \<Rightarrow> mem_cache \<Rightarrow> mem_zone \<Rightarrow> ram \<Rightarrow> error + (addr \<times> mem_cache \<times> mem_zone \<times> ram)" where
  "cache_malloc os cache zone ram =
     (case vq_get cache of
        (Some head, cache) \<Rightarrow> Inr (head, cache, zone, ram)
      | (None, cache) \<Rightarrow>
          rbind (cache_fill os cache zone ram) (\<lambda>(cache, zone, ram).
            case vq_get cache of
              (None, _) \<Rightarrow> Inl Bad_Deref
            | (Some head, cache) \<Rightarrow> Inr (head, cache, zone, ram)))"

definition cache_free :: "addr \<Rightarrow> mem_cache \<Rightarrow> mem_cache" where
  "cache_free chunk cache = snd (vq_put_head chunk cache)"

definition zone_used_bytes :: "mem_zone \<Rightarrow> ulong" where
  "zone_used_bytes zone = ucast (alloc_pages zone - freed_pages zone) * of_nat PAGE_SIZE"

section \<open>Address arithmetic\<close>

definition page_aligned :: "addr \<Rightarrow> bool" where
  "page_aligned p \<longleftrightarrow> unat p mod PAGE_SIZE = 0"

text \<open>What \<open>posix_memalign(&ptr, PAGE_SIZE, PAGE_SIZE)\<close> documents: an aligned page that is not in use.\<close>

definition os_ok :: "os \<Rightarrow> bool" where
  "os_ok os \<longleftrightarrow> (\<forall>n live p. os n live = Some p \<longrightarrow> p \<notin> live \<and> p \<noteq> 0 \<and> page_aligned p)"

lemma and_not_low_bits: "(x :: ulong) AND NOT 4095 = push_bit 12 (drop_bit 12 x)"
proof -
  have "(4095 :: ulong) = mask 12" by (simp add: mask_eq_exp_minus_1)
  then show ?thesis by (simp add: bit_eq_iff bit_simps) (auto simp: not_less)
qed

lemma unat_page_from_chunk: "unat (page_from_chunk c) = unat c - unat c mod PAGE_SIZE"
proof -
  have "page_from_chunk c = push_bit 12 (drop_bit 12 c)"
    using and_not_low_bits [of c] by (simp add: page_from_chunk_def PAGE_SIZE_def)
  then have "unat (page_from_chunk c) = unat (push_bit 12 (drop_bit 12 c))" by (rule arg_cong)
  also have "\<dots> = take_bit 64 (push_bit 12 (drop_bit 12 (take_bit 64 (unat c))))"
    by (simp only: unsigned_push_bit_eq unsigned_drop_bit_eq) simp
  also have "take_bit 64 (unat c) = unat c"
    using unat_ulong_less [of c] by (intro take_bit_nat_eq_self) simp
  also have "drop_bit 12 (unat c) = unat c div 4096" by (simp add: drop_bit_eq_div)
  also have "push_bit 12 (unat c div 4096) = unat c div 4096 * 4096" by (simp add: push_bit_eq_mult)
  also have "take_bit 64 (unat c div 4096 * 4096) = unat c div 4096 * 4096"
  proof (rule take_bit_nat_eq_self)
    have "unat c div 4096 * 4096 \<le> unat c" by simp
    also have "unat c < 2 ^ 64" using unat_ulong_less [of c] by simp
    finally show "unat c div 4096 * 4096 < 2 ^ 64" .
  qed
  finally show ?thesis by (simp add: PAGE_SIZE_def minus_mod_eq_div_mult)
qed


text \<open>The shape of a zone that \<open>init_mem_zone\<close> accepted.\<close>

definition zone_shape :: "mem_zone \<Rightarrow> bool" where
  "zone_shape zone \<longleftrightarrow> 0 < aligned_chunk_size zone \<and> 2 \<le> chunks_per_page zone \<and>
     cacheline_align sizeof_mem_page + chunks_per_page zone * aligned_chunk_size zone \<le> PAGE_SIZE"

lemma zone_shape_fits:
  assumes "zone_shape zone" and "i < chunks_per_page zone"
  shows "cacheline_align sizeof_mem_page + i * aligned_chunk_size zone < PAGE_SIZE"
proof -
  have "i * aligned_chunk_size zone < chunks_per_page zone * aligned_chunk_size zone"
    using assms by (simp add: zone_shape_def)
  then show ?thesis using assms(1) unfolding zone_shape_def by linarith
qed

lemma zone_shape_small: "zone_shape zone \<Longrightarrow> chunks_per_page zone \<le> 4096"
  unfolding zone_shape_def PAGE_SIZE_def
  by (metis add_leD2 le_trans mult.right_neutral mult_le_mono2 One_nat_def Suc_leI)

lemma chunk_addr_unat:
  assumes z: "zone_shape zone" and p: "page_aligned p" and i: "i < chunks_per_page zone"
  shows "unat (chunk_addr zone p i) = unat p + (cacheline_align sizeof_mem_page + i * aligned_chunk_size zone)"
proof -
  let ?o = "cacheline_align sizeof_mem_page + i * aligned_chunk_size zone"
  have o: "?o < PAGE_SIZE" by (rule zone_shape_fits [OF z i])
  then have uo: "unat (of_nat ?o :: ulong) = ?o" by (intro unat_of_nat_ulong) (simp add: PAGE_SIZE_def)
  obtain k where k: "unat p = k * 4096" using p by (auto simp: page_aligned_def PAGE_SIZE_def mod_eq_0_iff_dvd)
  have "unat p < 2 ^ 64" using unat_ulong_less [of p] by simp
  then have "k < 2 ^ 52" using k by simp
  then have "unat p + 4096 \<le> 2 ^ 64" using k by simp
  then have "unat p + ?o < 2 ^ 64" using o by (simp add: PAGE_SIZE_def)
  then show ?thesis unfolding chunk_addr_def using uo by (subst unat_add_ulong) simp_all
qed

lemma page_from_chunk_addr:
  assumes z: "zone_shape zone" and p: "page_aligned p" and i: "i < chunks_per_page zone"
  shows "page_from_chunk (chunk_addr zone p i) = p"
proof -
  have o: "cacheline_align sizeof_mem_page + i * aligned_chunk_size zone < PAGE_SIZE" (is "?o < _")
    by (rule zone_shape_fits [OF z i])
  have "unat (chunk_addr zone p i) mod PAGE_SIZE = ?o"
    using p o unfolding chunk_addr_unat [OF assms] page_aligned_def by (subst mod_add_left_eq [symmetric]) simp
  then have "unat (page_from_chunk (chunk_addr zone p i)) = unat p"
    unfolding unat_page_from_chunk by (simp add: chunk_addr_unat [OF assms])
  then show ?thesis by (simp add: word_unat_eq_iff)
qed

definition chunks_of :: "mem_zone \<Rightarrow> addr \<Rightarrow> addr list" where
  "chunks_of zone p = map (chunk_addr zone p) [0 ..< chunks_per_page zone]"

lemma chunks_of_props:
  assumes z: "zone_shape zone" and p: "page_aligned p"
  shows "distinct (chunks_of zone p)" and "\<forall>c \<in> set (chunks_of zone p). page_from_chunk c = p"
    and "length (chunks_of zone p) = chunks_per_page zone"
proof -
  have "inj_on (chunk_addr zone p) {0 ..< chunks_per_page zone}"
  proof (rule inj_onI)
    fix i j
    assume i: "i \<in> {0 ..< chunks_per_page zone}" and j: "j \<in> {0 ..< chunks_per_page zone}"
      and "chunk_addr zone p i = chunk_addr zone p j"
    then have "unat (chunk_addr zone p i) = unat (chunk_addr zone p j)" by simp
    then have "i * aligned_chunk_size zone = j * aligned_chunk_size zone"
      using chunk_addr_unat [OF z p] i j by auto
    then show "i = j" using z by (auto simp: zone_shape_def)
  qed
  then show "distinct (chunks_of zone p)" by (simp add: chunks_of_def distinct_map)
  show "\<forall>c \<in> set (chunks_of zone p). page_from_chunk c = p"
    using page_from_chunk_addr [OF z p] by (auto simp: chunks_of_def)
  show "length (chunks_of zone p) = chunks_per_page zone" by (simp add: chunks_of_def)
qed

lemma chunks_of_cong:
  "aligned_chunk_size z' = aligned_chunk_size z \<Longrightarrow> chunks_per_page z' = chunks_per_page z \<Longrightarrow>
     chunks_of z' p = chunks_of z p"
  by (simp add: chunks_of_def chunk_addr_def)

lemma init_mem_zone_shape:
  assumes "init_mem_zone sz = Inr zone"
  shows "zone_shape zone" and "sz \<le> aligned_chunk_size zone"
proof -
  let ?a = "cacheline_align sz" and ?n = "PAGE_SIZE - cacheline_align sizeof_mem_page"
  from assms have a: "?a \<noteq> 0" "aligned_chunk_size zone = ?a" "chunks_per_page zone = ?n div ?a" "2 \<le> ?n div ?a"
    by (auto simp: init_mem_zone_def Let_def split: if_splits)
  have "?n div ?a * ?a \<le> ?n" by simp
  then show "zone_shape zone"
    using a by (simp add: zone_shape_def cacheline_align_def PAGE_SIZE_def sizeof_mem_page_def CACHELINE_SIZE_def)
  have "sz \<le> ?a" by (simp add: cacheline_align_def CACHELINE_SIZE_def)
  then show "sz \<le> aligned_chunk_size zone" using a by simp
qed

section \<open>Accounting for every chunk\<close>

text \<open>
  \<open>own\<close> is the set of pages of the zone, \<open>held\<close> the chunks outside their pages: in the caches of
  the zone and handed out.
\<close>

definition page_wf :: "mem_zone \<Rightarrow> ram \<Rightarrow> addr multiset \<Rightarrow> addr \<Rightarrow> bool" where
  "page_wf zone ram held p \<longleftrightarrow> page_aligned p \<and>
     (\<exists>pg. pages ram p = Some pg \<and> vq_wf (pg_queue pg) \<and> length (vq_items (pg_queue pg)) = pg_free pg \<and>
        mset (vq_items (pg_queue pg)) + filter_mset (\<lambda>c. page_from_chunk c = p) held = mset (chunks_of zone p))"

definition alloc_wf :: "mem_zone \<Rightarrow> ram \<Rightarrow> addr set \<Rightarrow> addr multiset \<Rightarrow> bool" where
  "alloc_wf zone ram own held \<longleftrightarrow>
     zone_shape zone \<and> finite own \<and> (\<forall>p \<in> own. page_wf zone ram held p) \<and>
     (\<forall>c \<in># held. page_from_chunk c \<in> own) \<and>
     distinct (list_of_pages zone) \<and>
     set (list_of_pages zone) = {p \<in> own. \<exists>pg. pages ram p = Some pg \<and> 0 < pg_free pg} \<and>
     free_chunks zone = of_nat (\<Sum>p \<in> own. pg_free (the (pages ram p))) \<and>
     alloc_pages zone - freed_pages zone = of_nat (card own)"

text \<open>Between operations no page is completely free: such a page is returned at once.\<close>

definition no_full_page :: "mem_zone \<Rightarrow> ram \<Rightarrow> addr set \<Rightarrow> bool" where
  "no_full_page zone ram own \<longleftrightarrow> (\<forall>p \<in> own. \<forall>pg. pages ram p = Some pg \<longrightarrow> pg_free pg < chunks_per_page zone)"

lemma page_wf_cong:
  assumes "aligned_chunk_size zone' = aligned_chunk_size zone" and "chunks_per_page zone' = chunks_per_page zone"
    and "pages ram' p = pages ram p"
    and "filter_mset (\<lambda>c. page_from_chunk c = p) held' = filter_mset (\<lambda>c. page_from_chunk c = p) held"
  shows "page_wf zone' ram' held' p = page_wf zone ram held p"
  using assms chunks_of_cong [of zone' zone p] by (simp add: page_wf_def)

text \<open>No chunk is held twice, and a held chunk is a chunk of its page.\<close>

lemma alloc_wf_held_distinct:
  assumes "alloc_wf zone ram own held"
  shows "count held c \<le> 1"
proof (cases "c \<in># held")
  case True
  let ?p = "page_from_chunk c"
  have p: "?p \<in> own" "zone_shape zone" using assms True by (auto simp: alloc_wf_def)
  have "page_wf zone ram held ?p" using assms p by (auto simp: alloc_wf_def)
  then obtain pg where pa: "page_aligned ?p" and "pages ram ?p = Some pg"
    and e: "mset (vq_items (pg_queue pg)) + filter_mset (\<lambda>d. page_from_chunk d = ?p) held = mset (chunks_of zone ?p)"
    by (auto simp: page_wf_def)
  have "count held c = count (filter_mset (\<lambda>d. page_from_chunk d = ?p) held) c" by simp
  also have "\<dots> \<le> count (mset (chunks_of zone ?p)) c" unfolding e [symmetric] by simp
  also have "\<dots> \<le> 1" using chunks_of_props(1) [OF p(2) pa] by (simp add: distinct_count_atmost_1)
  finally show ?thesis .
qed (simp add: not_in_iff)


lemma alloc_wf_pageD:
  assumes "alloc_wf zone ram own held" and "p \<in> own"
  obtains pg where "pages ram p = Some pg" "page_aligned p" "vq_wf (pg_queue pg)"
    "length (vq_items (pg_queue pg)) = pg_free pg"
    "mset (vq_items (pg_queue pg)) + filter_mset (\<lambda>c. page_from_chunk c = p) held = mset (chunks_of zone p)"
  using assms unfolding alloc_wf_def page_wf_def by blast

lemma alloc_wf_shape: "alloc_wf zone ram own held \<Longrightarrow> zone_shape zone"
  by (simp add: alloc_wf_def)

lemma alloc_wf_dom: "alloc_wf zone ram own held \<Longrightarrow> own \<subseteq> dom (pages ram)"
  by (auto elim: alloc_wf_pageD)

definition same_shape :: "mem_zone \<Rightarrow> mem_zone \<Rightarrow> bool" where
  "same_shape zone' zone \<longleftrightarrow> aligned_chunk_size zone' = aligned_chunk_size zone \<and>
     chunks_per_page zone' = chunks_per_page zone \<and> chunk_size zone' = chunk_size zone"

lemma same_shape_refl [simp]: "same_shape zone zone"
  by (simp add: same_shape_def)

lemma same_shape_trans: "same_shape z3 z2 \<Longrightarrow> same_shape z2 z1 \<Longrightarrow> same_shape z3 z1"
  by (simp add: same_shape_def)

lemma same_shape_zone: "same_shape zone' zone \<Longrightarrow> zone_shape zone' = zone_shape zone"
  by (simp add: same_shape_def zone_shape_def)

lemma free_sum_update:
  assumes "finite own" and "p \<in> own" and "pages ram p = Some pg"
  shows "(\<Sum>q \<in> own. pg_free (the (((pages ram)(p \<mapsto> pg')) q))) + pg_free pg =
     (\<Sum>q \<in> own. pg_free (the (pages ram q))) + pg_free pg'"
proof -
  have "(\<Sum>q \<in> own. pg_free (the (((pages ram)(p \<mapsto> pg')) q))) =
      pg_free pg' + (\<Sum>q \<in> own - {p}. pg_free (the (pages ram q)))"
    using assms by (subst sum.remove [where x = p]) (auto intro!: sum.cong)
  moreover have "(\<Sum>q \<in> own. pg_free (the (pages ram q))) =
      pg_free pg + (\<Sum>q \<in> own - {p}. pg_free (the (pages ram q)))"
    using assms by (subst sum.remove [where x = p]) auto
  ultimately show ?thesis by simp
qed

text \<open>Rewriting one page: what the loops of \<open>_cache_fill\<close> and \<open>cache_drain\<close> do.\<close>

lemma alloc_wf_update:
  assumes wf: "alloc_wf zone ram own held" and p: "p \<in> own" and pg: "pages ram p = Some pg"
    and q: "vq_wf q" "length (vq_items q) = n"
    and m: "mset (vq_items q) + filter_mset (\<lambda>c. page_from_chunk c = p) held' =
        mset (vq_items (pg_queue pg)) + filter_mset (\<lambda>c. page_from_chunk c = p) held"
    and o: "\<And>p'. p' \<noteq> p \<Longrightarrow> filter_mset (\<lambda>c. page_from_chunk c = p') held' = filter_mset (\<lambda>c. page_from_chunk c = p') held"
    and l: "distinct (list_of_pages zone')"
      "set (list_of_pages zone') = set (list_of_pages zone) - {p} \<union> (if 0 < n then {p} else {})"
    and f: "free_chunks zone' + of_nat (pg_free pg) = free_chunks zone + of_nat n"
    and z: "same_shape zone' zone" "alloc_pages zone' = alloc_pages zone" "freed_pages zone' = freed_pages zone"
    and r: "pages ram' = (pages ram)(p \<mapsto> \<lparr>pg_queue = q, pg_free = n\<rparr>)"
  shows "alloc_wf zone' ram' own held'"
proof -
  note w = wf [unfolded alloc_wf_def]
  have page: "page_wf zone' ram' held' p'" if p': "p' \<in> own" for p'
  proof (cases "p' = p")
    case True
    have "page_wf zone ram held p" using w p by blast
    then show ?thesis
      using pg q m r z(1) chunks_of_cong [of zone' zone p] True by (simp add: page_wf_def same_shape_def)
  next
    case False
    then show ?thesis using w p' z(1) r o [OF False] page_wf_cong [of zone' zone ram' p' ram held' held]
      by (simp add: same_shape_def)
  qed
  have inown: "page_from_chunk c \<in> own" if "c \<in># held'" for c
  proof (cases "page_from_chunk c = p")
    case False
    then have "c \<in># filter_mset (\<lambda>d. page_from_chunk d = page_from_chunk c) held" using o [OF False] that
      by (metis (mono_tags, lifting) filter_mset_eq_conv mem_Collect_eq set_mset_filter)
    then show ?thesis using w by simp
  qed (simp add: p)
  have s: "set (list_of_pages zone') = {q \<in> own. \<exists>pg. pages ram' q = Some pg \<and> 0 < pg_free pg}"
    using w p pg unfolding l(2) r by auto
  have fs: "free_chunks zone' = of_nat (\<Sum>q \<in> own. pg_free (the (pages ram' q)))"
  proof -
    have "of_nat ((\<Sum>q \<in> own. pg_free (the (pages ram' q))) + pg_free pg) =
        (of_nat ((\<Sum>q \<in> own. pg_free (the (pages ram q))) + n) :: 32 word)"
      using w p pg free_sum_update [of own p ram pg "\<lparr>pg_queue = q, pg_free = n\<rparr>"] unfolding r by simp
    also have "\<dots> = free_chunks zone' + of_nat (pg_free pg)" using w f by simp
    finally show ?thesis by simp
  qed
  show ?thesis
    unfolding alloc_wf_def using w page inown l(1) s fs z same_shape_zone [OF z(1)] by simp
qed

lemma page_alloc_queue:
  "vq_wf q \<Longrightarrow> vq_wf (fold (\<lambda>i q. snd (vq_put_head (f i) q)) xs q) \<and>
     vq_items (fold (\<lambda>i q. snd (vq_put_head (f i) q)) xs q) = rev (map f xs) @ vq_items q"
  by (induction xs arbitrary: q) (simp_all add: vq.put_head_items vq.put_head_invar)

lemma page_alloc_spec:
  assumes os: "os_ok os" and wf: "alloc_wf zone ram own held"
    and run: "page_alloc os zone ram = Inr (zone', ram')"
  obtains p where "p \<notin> dom (pages ram)" "p \<noteq> 0" "list_of_pages zone' = p # list_of_pages zone"
    "alloc_wf zone' ram' (insert p own) held" "same_shape zone' zone"
    "\<And>q. q \<noteq> p \<Longrightarrow> pages ram' q = pages ram q"
    "\<exists>pg. pages ram' p = Some pg \<and> pg_free pg = chunks_per_page zone"
    "ticks ram' = Suc (ticks ram)"
proof -
  let ?n = "chunks_per_page zone"
  let ?q = "\<lambda>p. fold (\<lambda>i q. snd (vq_put_head (chunk_addr zone p i) q)) [0 ..< ?n] vq_empty"
  from run obtain p where a: "os (ticks ram) (dom (pages ram)) = Some p"
    and zone': "zone' = zone\<lparr>list_of_pages := p # list_of_pages zone,
        free_chunks := free_chunks zone + of_nat ?n, alloc_pages := alloc_pages zone + 1\<rparr>"
    and ram': "ram' = ram\<lparr>pages := (pages ram)(p \<mapsto> \<lparr>pg_queue = ?q p, pg_free = ?n\<rparr>), ticks := Suc (ticks ram)\<rparr>"
    by (auto simp: page_alloc_def Let_def split: option.splits)
  have p: "p \<notin> dom (pages ram)" "p \<noteq> 0" "page_aligned p" using os a by (auto simp: os_ok_def)
  note w = wf [unfolded alloc_wf_def]
  have new: "p \<notin> own" using p(1) alloc_wf_dom [OF wf] by blast
  have sh: "same_shape zone' zone" by (simp add: zone' same_shape_def)
  have none: "filter_mset (\<lambda>c. page_from_chunk c = p) held = {#}"
    using w new by (auto simp flip: set_mset_eq_empty_iff)
  have q: "vq_wf (?q p)" "vq_items (?q p) = rev (chunks_of zone p)"
    using page_alloc_queue [OF vq_wf_empty(1), of "chunk_addr zone p" "[0 ..< ?n]"]
    by (simp_all add: chunks_of_def vq_empty_def)
  have wp: "page_wf zone' ram' held p"
    using q p(3) none sh chunks_of_cong [of zone' zone p] chunks_of_props(3) [of zone p] w
    by (simp add: page_wf_def ram' same_shape_def)
  have others: "page_wf zone' ram' held p'" if "p' \<in> own" for p'
  proof -
    have "p' \<noteq> p" using that new by blast
    then show ?thesis using w that sh page_wf_cong [of zone' zone ram' p' ram held held]
      by (simp add: ram' same_shape_def)
  qed
  have sum: "(\<Sum>q \<in> own. pg_free (the (pages ram' q))) = (\<Sum>q \<in> own. pg_free (the (pages ram q)))"
    by (rule sum.cong) (use new in \<open>auto simp: ram'\<close>)
  have pos: "0 < ?n" using w by (simp add: zone_shape_def)
  have lp: "set (list_of_pages zone') = {q \<in> insert p own. \<exists>pg. pages ram' q = Some pg \<and> 0 < pg_free pg}"
    using w new pos by (auto simp: zone' ram')
  have "p \<notin> set (list_of_pages zone)" using w new by auto
  then have "alloc_wf zone' ram' (insert p own) held"
    unfolding alloc_wf_def using w wp others same_shape_zone [OF sh] lp sum new
    by (simp add: zone' ram' algebra_simps)
  then show ?thesis
    using p sh by (intro that [of p]) (auto simp: zone' ram')
qed


text \<open>A page's free chunks go to the cache.\<close>

definition unlist :: "addr \<Rightarrow> mem_page \<Rightarrow> mem_zone \<Rightarrow> mem_zone" where
  "unlist p pg zone = zone\<lparr>list_of_pages := remove1 p (list_of_pages zone),
     free_chunks := free_chunks zone - of_nat (pg_free pg)\<rparr>"

lemma alloc_wf_take_page:
  assumes wf: "alloc_wf zone ram own held" and p: "p \<in> own" and pg: "pages ram p = Some pg"
    and r: "pages ram' = (pages ram)(p \<mapsto> \<lparr>pg_queue = vq_empty, pg_free = 0\<rparr>)"
  shows "alloc_wf (unlist p pg zone) ram' own (mset (vq_items (pg_queue pg)) + held)"
proof (rule alloc_wf_update [OF wf p pg _ _ _ _ _ _ _ _ _ _ r])
  have q: "\<forall>c \<in># mset (vq_items (pg_queue pg)). page_from_chunk c = p"
  proof -
    obtain pg' where "pages ram p = Some pg'" "page_aligned p"
      and e: "mset (vq_items (pg_queue pg')) + filter_mset (\<lambda>c. page_from_chunk c = p) held = mset (chunks_of zone p)"
      by (rule alloc_wf_pageD [OF wf p])
    then show ?thesis
      using pg chunks_of_props(2) [OF alloc_wf_shape [OF wf], of p]
      by (metis UnCI option.inject set_mset_mset set_mset_union)
  qed
  show "mset (vq_items vq_empty) + filter_mset (\<lambda>c. page_from_chunk c = p) (mset (vq_items (pg_queue pg)) + held) =
      mset (vq_items (pg_queue pg)) + filter_mset (\<lambda>c. page_from_chunk c = p) held"
    using q by (simp add: filter_mset_eq_conv)
  show "filter_mset (\<lambda>c. page_from_chunk c = p') (mset (vq_items (pg_queue pg)) + held) =
      filter_mset (\<lambda>c. page_from_chunk c = p') held" if "p' \<noteq> p" for p'
  proof -
    have "filter_mset (\<lambda>c. page_from_chunk c = p') (mset (vq_items (pg_queue pg))) = {#}"
      using q that by (auto simp flip: set_mset_eq_empty_iff)
    then show ?thesis by simp
  qed
  have "distinct (list_of_pages zone)" using wf by (simp add: alloc_wf_def)
  then show "distinct (list_of_pages (unlist p pg zone))"
    and "set (list_of_pages (unlist p pg zone)) = set (list_of_pages zone) - {p} \<union> (if 0 < (0 :: nat) then {p} else {})"
    by (simp_all add: unlist_def)
qed (simp_all add: unlist_def same_shape_def)

text \<open>The loop of \<open>_cache_fill\<close>. Every page in the list has free chunks, so one turn is enough to
  make the cache non-empty; the free chunks of the zone and of the cache are only moved.\<close>


definition empty_page :: mem_page where
  "empty_page = \<lparr>pg_queue = vq_empty, pg_free = 0\<rparr>"

definition fill_post ::
  "mem_cache \<Rightarrow> mem_zone \<Rightarrow> ram \<Rightarrow> addr set \<Rightarrow> addr multiset \<Rightarrow> mem_cache \<Rightarrow> mem_zone \<Rightarrow> ram \<Rightarrow> bool" where
  "fill_post cache zone ram own out cache' zone' ram' \<longleftrightarrow>
     alloc_wf zone' ram' own (mset (vq_items cache') + out) \<and> vq_wf cache' \<and> same_shape zone' zone \<and>
     (\<forall>p. p \<notin> own \<longrightarrow> pages ram' p = pages ram p) \<and> ticks ram' = ticks ram \<and>
     (vq_items cache \<noteq> [] \<or> list_of_pages zone \<noteq> [] \<longrightarrow> vq_items cache' \<noteq> []) \<and>
     (\<forall>p \<in> own. pages ram' p = pages ram p \<or> pages ram' p = Some empty_page) \<and>
     (list_of_pages zone \<noteq> [] \<longrightarrow> pages ram' (hd (list_of_pages zone)) = Some empty_page)"

lemma cache_fill_loop_spec:
  assumes "alloc_wf zone ram own (mset (vq_items cache) + out)" and "vq_wf cache"
    and "xs = list_of_pages zone"
  shows "\<exists>cache' zone' ram'. cache_fill_loop xs n cache zone ram = Inr (cache', zone', ram') \<and>
     fill_post cache zone ram own out cache' zone' ram'"
  using assms
proof (induction xs arbitrary: n cache zone ram)
  case Nil
  then show ?case by (simp add: fill_post_def)
next
  case (Cons p rest n cache zone ram)
  note w = Cons.prems(1) [unfolded alloc_wf_def]
  have lp: "list_of_pages zone = p # rest" using Cons.prems(3) by simp
  have notin: "p \<notin> set rest" and p: "p \<in> own" and ex: "\<exists>pg. pages ram p = Some pg \<and> 0 < pg_free pg"
    using w unfolding lp by auto
  from ex obtain pg where pg: "pages ram p = Some pg" "0 < pg_free pg" by blast
  obtain pg' where "pages ram p = Some pg'" "vq_wf (pg_queue pg')" "length (vq_items (pg_queue pg')) = pg_free pg'"
    by (rule alloc_wf_pageD [OF Cons.prems(1) p])
  then have q: "vq_wf (pg_queue pg)" "vq_items (pg_queue pg) \<noteq> []" using pg by auto
  obtain c1 where sp: "vq_splice (pg_queue pg) cache = (vq_empty, c1)"
    and c1: "vq_wf c1" "vq_items c1 = vq_items cache @ vq_items (pg_queue pg)"
    using vq_splice_wf [OF q(1) Cons.prems(2)] by (metis prod.collapse)
  let ?z = "unlist p pg zone" and ?r = "ram\<lparr>pages := (pages ram)(p \<mapsto> empty_page)\<rparr>"
  have "alloc_wf ?z ?r own (mset (vq_items (pg_queue pg)) + (mset (vq_items cache) + out))"
    by (rule alloc_wf_take_page [OF Cons.prems(1) p pg(1)]) (simp add: empty_page_def)
  then have wf: "alloc_wf ?z ?r own (mset (vq_items c1) + out)" by (simp add: c1(2) ac_simps)
  have rest: "rest = list_of_pages ?z" by (simp add: unlist_def lp)
  have sh: "same_shape ?z zone" by (simp add: unlist_def same_shape_def)
  have step: "cache_fill_loop (p # rest) n cache zone ram =
      (if chunks_per_page ?z \<le> n + pg_free pg then Inr (c1, ?z, ?r) else cache_fill_loop rest (n + pg_free pg) c1 ?z ?r)"
    by (simp add: pg(1) sp unlist_def Let_def empty_page_def)
  have here: "fill_post cache zone ram own out c2 z2 r2" if "fill_post c1 ?z ?r own out c2 z2 r2" for c2 z2 r2
    using that q(2) c1(2) p sh same_shape_trans [of z2 ?z zone] unfolding fill_post_def lp
    by (auto split: if_splits)
  show ?case
  proof (cases "chunks_per_page ?z \<le> n + pg_free pg")
    case True
    then show ?thesis unfolding step using wf c1 q(2) sh p by (simp add: fill_post_def lp)
  next
    case False
    then show ?thesis unfolding step using Cons.IH [OF wf c1(1) rest, of "n + pg_free pg"] here by auto
  qed
qed

lemma cache_fill_spec:
  assumes os: "os_ok os" and wf: "alloc_wf zone ram own (mset (vq_items cache) + out)" and c: "vq_wf cache"
    and run: "cache_fill os cache zone ram = Inr (cache', zone', ram')" and nf: "no_full_page zone ram own"
  obtains own' where "own \<subseteq> own'" "alloc_wf zone' ram' own' (mset (vq_items cache') + out)" "vq_wf cache'"
    "vq_items cache' \<noteq> []" "no_full_page zone' ram' own'" "same_shape zone' zone"
    "\<And>p. p \<in> dom (pages ram) - own \<Longrightarrow> p \<notin> own' \<and> pages ram' p = pages ram p"
proof -
  have sh0: "2 \<le> chunks_per_page zone" using wf by (simp add: alloc_wf_def zone_shape_def)
  show ?thesis
  proof (cases "free_chunks zone < of_nat (chunks_per_page zone)")
    case True
    then obtain z1 r1 where a: "page_alloc os zone ram = Inr (z1, r1)"
      and l: "cache_fill_loop (list_of_pages z1) 0 cache z1 r1 = Inr (cache', zone', ram')"
      using run by (auto simp: cache_fill_def)
    obtain p where p: "p \<notin> dom (pages ram)" "p \<noteq> 0" "list_of_pages z1 = p # list_of_pages zone"
      "alloc_wf z1 r1 (insert p own) (mset (vq_items cache) + out)" "same_shape z1 zone"
      "\<And>q. q \<noteq> p \<Longrightarrow> pages r1 q = pages ram q"
      by (rule page_alloc_spec [OF os wf a]) blast
    have post: "fill_post cache z1 r1 (insert p own) out cache' zone' ram'"
      using cache_fill_loop_spec [OF p(4) c refl, of 0] l by auto
    then have sh: "same_shape zone' zone" using p(5) by (auto simp: fill_post_def intro: same_shape_trans)
    have "no_full_page zone' ram' (insert p own)"
      unfolding no_full_page_def
    proof (intro ballI allI impI)
      fix q pg assume q: "q \<in> insert p own" and pg: "pages ram' q = Some pg"
      show "pg_free pg < chunks_per_page zone'"
      proof (cases "pages ram' q = Some empty_page")
        case True
        then show ?thesis using pg sh0 sh by (simp add: empty_page_def same_shape_def)
      next
        case False
        then have "q \<noteq> p" using post p(3) by (auto simp: fill_post_def)
        then show ?thesis using False q pg post nf p(6) [of q] sh
          by (auto simp: fill_post_def no_full_page_def same_shape_def)
      qed
    qed
    moreover have "q \<notin> insert p own \<and> pages ram' q = pages ram q" if "q \<in> dom (pages ram) - own" for q
    proof -
      have q: "q \<notin> insert p own" using that p(1) by blast
      then have "pages ram' q = pages r1 q" using post by (simp add: fill_post_def)
      then show ?thesis using q p(6) [of q] by simp
    qed
    moreover have "vq_items cache' \<noteq> []" "vq_wf cache'" "alloc_wf zone' ram' (insert p own) (mset (vq_items cache') + out)"
      using post p(3) by (auto simp: fill_post_def)
    ultimately show ?thesis
      using sh by (intro that [of "insert p own"]) auto
  next
    case False
    then have l: "cache_fill_loop (list_of_pages zone) 0 cache zone ram = Inr (cache', zone', ram')"
      using run by (auto simp: cache_fill_def)
    then have post: "fill_post cache zone ram own out cache' zone' ram'"
      using cache_fill_loop_spec [OF wf c refl, of 0] by auto
    have n: "chunks_per_page zone < 2 ^ 32"
      using zone_shape_small [OF alloc_wf_shape [OF wf]] by (rule le_less_trans) simp
    have "list_of_pages zone \<noteq> []"
    proof
      assume nil: "list_of_pages zone = []"
      have "pg_free (the (pages ram q)) = 0" if "q \<in> own" for q
        using alloc_wf_dom [OF wf] that wf nil unfolding alloc_wf_def by fastforce
      then have "free_chunks zone = 0" using wf by (simp add: alloc_wf_def)
      moreover have "(of_nat (chunks_per_page zone) :: 32 word) \<noteq> 0"
      proof -
        have "unat (of_nat (chunks_per_page zone) :: 32 word) = chunks_per_page zone"
          using n by (simp add: unsigned_of_nat take_bit_nat_eq_self)
        then show ?thesis using sh0 by (metis not_numeral_le_zero unsigned_0)
      qed
      ultimately show False using False by (simp add: word_gt_0)
    qed
    moreover have "no_full_page zone' ram' own"
      unfolding no_full_page_def
    proof (intro ballI allI impI)
      fix q pg assume q: "q \<in> own" and pg: "pages ram' q = Some pg"
      have "pages ram' q = pages ram q \<or> pages ram' q = Some empty_page" using post q by (simp add: fill_post_def)
      then show "pg_free pg < chunks_per_page zone'"
        using nf post pg q sh0 by (auto simp: fill_post_def same_shape_def no_full_page_def empty_page_def)
    qed
    ultimately show ?thesis
      using post by (intro that [of own]) (auto simp: fill_post_def)
  qed
qed


text \<open>One turn of \<open>cache_drain\<close>: the chunk returns to its page, and a page that is complete again
  leaves the zone.\<close>

lemma page_free_spec:
  assumes wf: "alloc_wf zone ram own held" and p: "p \<in> own" and pg: "pages ram p = Some pg"
    and full: "pg_free pg = chunks_per_page zone"
  obtains zone' ram' where "page_free zone ram p = Inr (zone', ram')" "alloc_wf zone' ram' (own - {p}) held"
    "same_shape zone' zone" "pages ram' = (pages ram)(p := None)" "ticks ram' = ticks ram"
    "alloc_pages zone' = alloc_pages zone"
proof -
  note w = wf [unfolded alloc_wf_def]
  let ?z = "zone\<lparr>free_chunks := free_chunks zone - of_nat (pg_free pg),
      list_of_pages := remove1 p (list_of_pages zone), freed_pages := freed_pages zone + 1\<rparr>"
  let ?r = "ram\<lparr>pages := (pages ram)(p := None)\<rparr>"
  have run: "page_free zone ram p = Inr (?z, ?r)" by (simp add: page_free_def pg full)
  have sh: "same_shape ?z zone" by (simp add: same_shape_def)
  obtain pg' where "pages ram p = Some pg'" "page_aligned p" "length (vq_items (pg_queue pg')) = pg_free pg'"
    and e: "mset (vq_items (pg_queue pg')) + filter_mset (\<lambda>c. page_from_chunk c = p) held = mset (chunks_of zone p)"
    by (rule alloc_wf_pageD [OF wf p])
  then have l: "length (vq_items (pg_queue pg')) = length (chunks_of zone p)"
    using full pg by (simp add: chunks_of_def)
  have "size (mset (vq_items (pg_queue pg')) + filter_mset (\<lambda>c. page_from_chunk c = p) held) =
      size (mset (chunks_of zone p))" by (rule arg_cong [OF e])
  then have "size (filter_mset (\<lambda>c. page_from_chunk c = p) held) = 0"
    unfolding size_union size_mset using l by linarith
  then have "set_mset (filter_mset (\<lambda>c. page_from_chunk c = p) held) = {}" by simp
  then have none: "c \<in># held \<Longrightarrow> page_from_chunk c \<noteq> p" for c by auto
  have others: "page_wf ?z ?r held q" if "q \<in> own - {p}" for q
    using w that sh page_wf_cong [of ?z zone ?r q ram held held] by (simp add: same_shape_def)
  have sum: "(\<Sum>q \<in> own - {p}. pg_free (the (pages ?r q))) = (\<Sum>q \<in> own - {p}. pg_free (the (pages ram q)))"
    by (rule sum.cong) auto
  have "(\<Sum>q \<in> own. pg_free (the (pages ram q))) = pg_free pg + (\<Sum>q \<in> own - {p}. pg_free (the (pages ram q)))"
    using w p pg by (subst sum.remove [where x = p]) auto
  then have fs: "free_chunks ?z = of_nat (\<Sum>q \<in> own - {p}. pg_free (the (pages ?r q)))"
    using w unfolding sum by simp
  have cd: "card own = Suc (card (own - {p}))" using w p by (metis card.remove)
  have "alloc_pages ?z - freed_pages ?z = of_nat (card (own - {p}))"
    using w cd by (simp add: algebra_simps)
  then have "alloc_wf ?z ?r (own - {p}) held"
    unfolding alloc_wf_def using w others none same_shape_zone [OF sh] fs by auto
  then show ?thesis using run sh by (intro that [of ?z ?r]) auto
qed

definition drain_post ::
  "mem_zone \<Rightarrow> ram \<Rightarrow> addr set \<Rightarrow> addr multiset \<Rightarrow> mem_zone \<Rightarrow> ram \<Rightarrow> addr set \<Rightarrow> bool" where
  "drain_post zone ram own out zone' ram' own' \<longleftrightarrow>
     own' \<subseteq> own \<and> alloc_wf zone' ram' own' out \<and> no_full_page zone' ram' own' \<and> same_shape zone' zone \<and>
     (\<forall>p. p \<notin> own \<longrightarrow> pages ram' p = pages ram p) \<and> (\<forall>p \<in> own - own'. pages ram' p = None) \<and>
     ticks ram' = ticks ram"

lemma drain_post_trans:
  assumes "drain_post z r own out1 z1 r1 own1" and "drain_post z1 r1 own1 out2 z2 r2 own2"
  shows "drain_post z r own out2 z2 r2 own2"
proof -
  note a = assms [unfolded drain_post_def]
  have o: "own2 \<subseteq> own" using a by blast
  have "same_shape z2 z" using a same_shape_trans by blast
  moreover have "pages r2 p = pages r p" if "p \<notin> own" for p
  proof -
    have "p \<notin> own1" using a that by blast
    then have "pages r2 p = pages r1 p" using a by blast
    also have "\<dots> = pages r p" using a that by blast
    finally show ?thesis .
  qed
  moreover have "pages r2 p = None" if p: "p \<in> own - own2" for p
  proof (cases "p \<in> own1")
    case True
    then show ?thesis using a p by blast
  next
    case False
    then have "pages r2 p = pages r1 p" using a by blast
    also have "\<dots> = None" using a p False by blast
    finally show ?thesis .
  qed
  ultimately show ?thesis using a o unfolding drain_post_def by simp
qed

lemma drain_chunk_spec:
  assumes wf: "alloc_wf zone ram own (add_mset c held)" and nf: "no_full_page zone ram own"
  shows "\<exists>zone' ram' own'. drain_chunk c zone ram = Inr (zone', ram') \<and> drain_post zone ram own held zone' ram' own'"
proof -
  let ?p = "page_from_chunk c"
  note w = wf [unfolded alloc_wf_def]
  have p: "?p \<in> own" using w by simp
  obtain pg where pg: "pages ram ?p = Some pg" "vq_wf (pg_queue pg)"
    "length (vq_items (pg_queue pg)) = pg_free pg"
    by (rule alloc_wf_pageD [OF wf p])
  let ?pg = "\<lparr>pg_queue = snd (vq_put_head c (pg_queue pg)), pg_free = Suc (pg_free pg)\<rparr>"
  let ?z = "zone\<lparr>list_of_pages := (if pg_free pg = 0 then [?p] else []) @ list_of_pages zone,
      free_chunks := free_chunks zone + 1\<rparr>"
  let ?r = "ram\<lparr>pages := (pages ram)(?p \<mapsto> ?pg)\<rparr>"
  have run: "drain_chunk c zone ram =
      (if Suc (pg_free pg) = chunks_per_page ?z then page_free ?z ?r ?p else Inr (?z, ?r))"
    using pg by (simp add: drain_chunk_def Let_def)
  have lp: "?p \<in> set (list_of_pages zone) \<longleftrightarrow> 0 < pg_free pg" using w p pg by auto
  have sh: "same_shape ?z zone" by (simp add: same_shape_def)
  have wf1: "alloc_wf ?z ?r own held"
    by (rule alloc_wf_update [OF wf p pg(1)])
      (use pg w lp in \<open>auto simp: vq.put_head_items vq.put_head_invar same_shape_def\<close>)
  have nf1: "no_full_page z2 r2 (own - {?p})"
    if "same_shape z2 zone" "\<forall>q. q \<noteq> ?p \<longrightarrow> pages r2 q = pages ram q" for z2 r2
    using nf that by (auto simp: no_full_page_def same_shape_def)
  show ?thesis
  proof (cases "Suc (pg_free pg) = chunks_per_page ?z")
    case True
    obtain z2 r2 where f: "page_free ?z ?r ?p = Inr (z2, r2)" "alloc_wf z2 r2 (own - {?p}) held"
      "same_shape z2 ?z" "pages r2 = (pages ?r)(?p := None)" "ticks r2 = ticks ?r"
      by (rule page_free_spec [OF wf1 p, of ?pg]) (use True in auto)
    have sh2: "same_shape z2 zone" using f(3) sh by (rule same_shape_trans)
    have r2: "\<forall>q. q \<noteq> ?p \<longrightarrow> pages r2 q = pages ram q" "pages r2 ?p = None" using f(4) by simp_all
    have "drain_post zone ram own held z2 r2 (own - {?p})"
      unfolding drain_post_def
    proof (intro conjI ballI allI impI)
      show "pages r2 q = pages ram q" if "q \<notin> own" for q
      proof -
        have "q \<noteq> ?p" using that p by blast
        then show ?thesis using r2 by blast
      qed
      show "pages r2 q = None" if "q \<in> own - (own - {?p})" for q using that r2(2) by simp
    qed (use nf1 [OF sh2 r2(1)] f(2,5) sh2 in simp_all)
    then show ?thesis using run True f(1) by auto
  next
    case False
    have "pg_free pg < chunks_per_page zone" using nf p pg by (simp add: no_full_page_def)
    then have "no_full_page ?z ?r own" using nf False by (auto simp: no_full_page_def)
    then have "drain_post zone ram own held ?z ?r own" using wf1 sh p by (auto simp: drain_post_def)
    then show ?thesis using run False by auto
  qed
qed

lemma cache_drain_spec:
  assumes "alloc_wf zone ram own (mset (vq_items cache) + out)" and "vq_wf cache" and "no_full_page zone ram own"
  shows "\<exists>cache' zone' ram' own'. cache_drain cache zone ram = Inr (cache', zone', ram') \<and>
     vq_items cache' = [] \<and> vq_wf cache' \<and> drain_post zone ram own out zone' ram' own'"
  using assms
proof (induction "vq_items cache" arbitrary: cache zone ram own)
  case Nil
  then have "drain_post zone ram own out zone ram own" by (simp add: drain_post_def)
  then show ?case using Nil by (auto simp: cache_drain.simps [of cache] vq.get_Nil)
next
  case (Cons c cs)
  obtain rest where g: "vq_get cache = (Some c, rest)" "vq_items rest = cs"
    using vq.get_Cons [of cache c cs] Cons.hyps(2) by (metis prod.collapse)
  have r: "vq_wf rest" using vq.get_invar [OF Cons.prems(2)] g by simp
  have wf: "alloc_wf zone ram own (add_mset c (mset cs + out))"
    using Cons.prems(1) unfolding Cons.hyps(2) [symmetric] by simp
  obtain z1 r1 own1 where d: "drain_chunk c zone ram = Inr (z1, r1)" "drain_post zone ram own (mset cs + out) z1 r1 own1"
    using drain_chunk_spec [OF wf Cons.prems(3)] by blast
  then have "alloc_wf z1 r1 own1 (mset (vq_items rest) + out)" "no_full_page z1 r1 own1"
    using g by (simp_all add: drain_post_def)
  from Cons.hyps(1) [OF g(2) [symmetric] this(1) r this(2)] obtain c2 z2 r2 own2
    where ih: "cache_drain rest z1 r1 = Inr (c2, z2, r2)" "vq_items c2 = []" "vq_wf c2" "drain_post z1 r1 own1 out z2 r2 own2"
    by blast
  have "cache_drain cache zone ram = Inr (c2, z2, r2)"
    by (simp add: cache_drain.simps [of cache] g(1) d(1) ih(1))
  then show ?case using ih(2,3) drain_post_trans [OF d(2) ih(4)] by blast
qed


section \<open>Allocation and release\<close>

text \<open>The state of a cache together with its zone, as one value; \<open>pool_live\<close> says that exactly the
  chunks \<open>out\<close> are handed out.\<close>

type_synonym pool = "mem_cache \<times> mem_zone \<times> ram"

definition pool_live :: "pool \<Rightarrow> addr multiset \<Rightarrow> bool" where
  "pool_live = (\<lambda>(cache, zone, ram) out. \<exists>own. vq_wf cache \<and> no_full_page zone ram own \<and>
     alloc_wf zone ram own (mset (vq_items cache) + out))"

lemma cache_malloc_fillD:
  assumes "cache_malloc os cache zone ram = Inr (c, cache', zone', ram')" and "vq_get cache = (None, c0)"
  obtains c1 where "cache_fill os c0 zone ram = Inr (c1, zone', ram')" "vq_get c1 = (Some c, cache')"
proof -
  from assms obtain c1 z1 r1 where f: "cache_fill os c0 zone ram = Inr (c1, z1, r1)"
    and l: "(case vq_get c1 of (None, _) \<Rightarrow> Inl Bad_Deref | (Some head, ca) \<Rightarrow> Inr (head, ca, z1, r1)) =
        Inr (c, cache', zone', ram')"
    unfolding cache_malloc_def by auto
  have "vq_get c1 = (Some c, cache')" "z1 = zone'" "r1 = ram'"
    using l by (auto split: prod.splits option.splits)
  then show ?thesis using f that by blast
qed

lemma cache_malloc_ok:
  assumes os: "os_ok os" and wf: "alloc_wf zone ram own (mset (vq_items cache) + out)" "vq_wf cache"
    "no_full_page zone ram own"
    and run: "cache_malloc os cache zone ram = Inr (c, cache', zone', ram')"
  obtains own' where "own \<subseteq> own'" "alloc_wf zone' ram' own' (mset (vq_items cache') + add_mset c out)"
    "vq_wf cache'" "no_full_page zone' ram' own'" "same_shape zone' zone"
    "\<forall>p \<in> dom (pages ram) - own. p \<notin> own' \<and> pages ram' p = pages ram p"
proof (cases "vq_items cache")
  case (Cons x xs)
  then have g: "vq_get cache = (Some x, snd (vq_get cache))" "vq_items (snd (vq_get cache)) = xs"
    using vq.get_Cons [OF Cons] by (simp_all add: prod_eq_iff)
  have "c = x" "cache' = snd (vq_get cache)" "zone' = zone" "ram' = ram"
    using run g(1) unfolding cache_malloc_def by (auto split: prod.splits option.splits)
  then show ?thesis using wf Cons g(2) vq.get_invar [OF wf(2)] by (intro that [of own]) simp_all
next
  case Nil
  then have g: "vq_get cache = (None, cache)" by (rule vq.get_Nil)
  obtain c1 where f: "cache_fill os cache zone ram = Inr (c1, zone', ram')" and t: "vq_get c1 = (Some c, cache')"
    by (rule cache_malloc_fillD [OF run g])
  obtain own' where o: "own \<subseteq> own'" "alloc_wf zone' ram' own' (mset (vq_items c1) + out)" "vq_wf c1"
    "vq_items c1 \<noteq> []" "no_full_page zone' ram' own'" "same_shape zone' zone"
    "\<And>p. p \<in> dom (pages ram) - own \<Longrightarrow> p \<notin> own' \<and> pages ram' p = pages ram p"
    by (rule cache_fill_spec [OF os wf(1,2) f wf(3)]) blast
  obtain x xs where x: "vq_items c1 = x # xs" using o(4) by (cases "vq_items c1") auto
  then have "vq_items c1 = c # vq_items cache'" "vq_wf cache'"
    using vq.get_Cons [OF x] vq.get_invar [OF o(3)] t(1) by simp_all
  then show ?thesis using o t by (intro that [of own']) auto
qed

lemma cache_fill_loop_safe:
  assumes "alloc_wf zone ram own (mset (vq_items cache) + out)" and "vq_wf cache"
  shows "\<exists>r. cache_fill_loop (list_of_pages zone) n cache zone ram = Inr r"
  using cache_fill_loop_spec [OF assms refl, of n] by blast

lemma page_alloc_error: "page_alloc os zone ram = Inl e \<Longrightarrow> e = Fatal ''posix_memalign(%i, %i)''"
  by (auto simp: page_alloc_def Let_def split: option.splits)

lemma cache_malloc_error:
  assumes os: "os_ok os" and wf: "alloc_wf zone ram own (mset (vq_items cache) + out)" "vq_wf cache"
    "no_full_page zone ram own"
    and run: "cache_malloc os cache zone ram = Inl e"
  shows "e = Fatal ''posix_memalign(%i, %i)''"
proof (cases "vq_items cache")
  case (Cons x xs)
  then show ?thesis using run vq.get_Cons [OF Cons] by (auto simp: cache_malloc_def split: prod.splits)
next
  case Nil
  then have g: "vq_get cache = (None, cache)" by (rule vq.get_Nil)
  show ?thesis
  proof (cases "cache_fill os cache zone ram")
    case (Inr r)
    obtain c1 z1 r1 where f: "cache_fill os cache zone ram = Inr (c1, z1, r1)" using Inr by (cases r) auto
    obtain own' where "vq_items c1 \<noteq> []"
      by (rule cache_fill_spec [OF os wf(1,2) f wf(3)]) blast
    then obtain x xs where "vq_items c1 = x # xs" by (cases "vq_items c1") auto
    from vq.get_Cons [OF this] show ?thesis using run g f by (auto simp: cache_malloc_def split: prod.splits)
  next
    case (Inl e')
    then have e: "e' = e" using run g by (simp add: cache_malloc_def)
    show ?thesis
    proof (cases "free_chunks zone < of_nat (chunks_per_page zone)")
      case False
      then show ?thesis using Inl cache_fill_loop_safe [OF wf(1,2), of 0] by (auto simp: cache_fill_def)
    next
      case True
      show ?thesis
      proof (cases "page_alloc os zone ram")
        case (Inl e1)
        then show ?thesis using True e \<open>cache_fill os cache zone ram = Inl e'\<close> page_alloc_error [OF Inl]
          by (simp add: cache_fill_def)
      next
        case (Inr zr)
        obtain z1 r1 where a: "page_alloc os zone ram = Inr (z1, r1)" using Inr by (cases zr) auto
        obtain p where "alloc_wf z1 r1 (insert p own) (mset (vq_items cache) + out)"
          by (rule page_alloc_spec [OF os wf(1) a]) blast
        from cache_fill_loop_safe [OF this wf(2), of 0] show ?thesis
          using True a \<open>cache_fill os cache zone ram = Inl e'\<close> by (auto simp: cache_fill_def)
      qed
    qed
  qed
qed

lemma cache_free_items [simp]: "vq_items (cache_free c cache) = c # vq_items cache"
  by (simp add: cache_free_def vq.put_head_items)

lemma cache_free_wf [simp]: "vq_wf cache \<Longrightarrow> vq_wf (cache_free c cache)"
  by (simp add: cache_free_def vq.put_head_invar)

lemma init_pool_live:
  assumes "init_mem_zone sz = Inr zone"
  shows "pool_live (init_mem_cache, zone, ram) {#}"
proof -
  have "list_of_pages zone = []" "free_chunks zone = 0" "alloc_pages zone = 0" "freed_pages zone = 0"
    using assms by (auto simp: init_mem_zone_def Let_def split: if_splits)
  then have "alloc_wf zone ram {} {#}" using init_mem_zone_shape [OF assms] by (simp add: alloc_wf_def)
  then show ?thesis by (auto simp: pool_live_def init_mem_cache_def no_full_page_def)
qed

section \<open>The interface of an allocator\<close>

text \<open>
  What the messaging code relies on when it allocates messages and processes: whatever the
  sequence of allocations and releases, the chunks it holds are pairwise different.
\<close>

datatype pool_op = Malloc | Free addr

fun pool_run ::
  "('s \<Rightarrow> error + (addr \<times> 's)) \<Rightarrow> (addr \<Rightarrow> 's \<Rightarrow> 's) \<Rightarrow> pool_op list \<Rightarrow> 's \<Rightarrow> addr multiset \<Rightarrow>
     error + ('s \<times> addr multiset)" where
  "pool_run malloc free [] s out = Inr (s, out)"
| "pool_run malloc free (Malloc # ops) s out =
     rbind (malloc s) (\<lambda>(c, s). pool_run malloc free ops s (add_mset c out))"
| "pool_run malloc free (Free c # ops) s out =
     (if c \<in># out then pool_run malloc free ops (free c s) (out - {#c#}) else Inl Abort)"

locale allocator =
  fixes malloc :: "'s \<Rightarrow> error + (addr \<times> 's)"
    and free :: "addr \<Rightarrow> 's \<Rightarrow> 's"
    and live :: "'s \<Rightarrow> addr multiset \<Rightarrow> bool"
  assumes malloc_live: "live s out \<Longrightarrow> malloc s = Inr (c, s') \<Longrightarrow> live s' (add_mset c out)"
    and malloc_error: "live s out \<Longrightarrow> malloc s = Inl e \<Longrightarrow> \<exists>msg. e = Fatal msg"
    and free_live: "live s (add_mset c out) \<Longrightarrow> live (free c s) out"
    and live_distinct: "live s out \<Longrightarrow> count out c \<le> 1"
begin

lemma malloc_fresh:
  assumes "live s out" and "malloc s = Inr (c, s')"
  shows "c \<notin># out"
  using live_distinct [OF malloc_live [OF assms], of c] by (simp add: not_in_iff)

lemma run_live:
  assumes "live s out" and "pool_run malloc free ops s out = Inr (s', out')"
  shows "live s' out'"
  using assms
proof (induction ops arbitrary: s out)
  case (Cons op ops)
  show ?case
  proof (cases op)
    case Malloc
    then obtain c s1 where m: "malloc s = Inr (c, s1)" and r: "pool_run malloc free ops s1 (add_mset c out) = Inr (s', out')"
      using Cons.prems(2) by auto
    show ?thesis by (rule Cons.IH [OF malloc_live [OF Cons.prems(1) m] r])
  next
    case (Free c)
    then have c: "c \<in># out" and r: "pool_run malloc free ops (free c s) (out - {#c#}) = Inr (s', out')"
      using Cons.prems(2) by (auto split: if_splits)
    have "live s (add_mset c (out - {#c#}))" using Cons.prems(1) c by simp
    then show ?thesis using Cons.IH [OF free_live r] by simp
  qed
qed simp

end

lemma pool_live_distinct: "pool_live s out \<Longrightarrow> count out c \<le> 1"
proof -
  assume "pool_live s out"
  then obtain own where "alloc_wf (fst (snd s)) (snd (snd s)) own (mset (vq_items (fst s)) + out)"
    by (auto simp: pool_live_def split: prod.splits)
  then have "count (mset (vq_items (fst s)) + out) c \<le> 1" by (rule alloc_wf_held_distinct)
  then show ?thesis by simp
qed

definition pool_malloc :: "os \<Rightarrow> pool \<Rightarrow> error + (addr \<times> pool)" where
  "pool_malloc os = (\<lambda>(cache, zone, ram). cache_malloc os cache zone ram)"

definition pool_free :: "addr \<Rightarrow> pool \<Rightarrow> pool" where
  "pool_free c = (\<lambda>(cache, zone, ram). (cache_free c cache, zone, ram))"


text \<open>The law of \<open>posix_memalign\<close> is part of the invariant.\<close>

interpretation pool: allocator "pool_malloc os" pool_free "\<lambda>s out. os_ok os \<and> pool_live s out" for os
proof
  fix s out c s'
  assume l: "os_ok os \<and> pool_live s out" and m: "pool_malloc os s = Inr (c, s')"
  obtain cache zone ram cache' zone' ram' where s: "s = (cache, zone, ram)" "s' = (cache', zone', ram')"
    by (metis prod.collapse)
  obtain own where wf: "alloc_wf zone ram own (mset (vq_items cache) + out)" "vq_wf cache" "no_full_page zone ram own"
    using l unfolding s pool_live_def by auto
  have run: "cache_malloc os cache zone ram = Inr (c, cache', zone', ram')" using m by (simp add: pool_malloc_def s)
  obtain own' where "alloc_wf zone' ram' own' (mset (vq_items cache') + add_mset c out)"
    "vq_wf cache'" "no_full_page zone' ram' own'"
    by (rule cache_malloc_ok [OF conjunct1 [OF l] wf run]) blast
  then show "os_ok os \<and> pool_live s' (add_mset c out)" using l unfolding s pool_live_def by auto
next
  fix s out e
  assume l: "os_ok os \<and> pool_live s out" and m: "pool_malloc os s = Inl e"
  obtain cache zone ram where s: "s = (cache, zone, ram)" by (metis prod.collapse)
  obtain own where wf: "alloc_wf zone ram own (mset (vq_items cache) + out)" "vq_wf cache" "no_full_page zone ram own"
    using l unfolding s pool_live_def by auto
  have "cache_malloc os cache zone ram = Inl e" using m by (simp add: pool_malloc_def s)
  from cache_malloc_error [OF conjunct1 [OF l] wf this] show "\<exists>msg. e = Fatal msg" by blast
next
  fix s c out
  assume "os_ok os \<and> pool_live s (add_mset c out)"
  then show "os_ok os \<and> pool_live (pool_free c s) out"
    by (auto simp: pool_live_def pool_free_def split: prod.splits)
next
  fix s out c
  assume "os_ok os \<and> pool_live s out"
  then show "count out c \<le> 1" using pool_live_distinct by blast
qed

definition bump_os :: os where
  "bump_os n live = (if n < 2 ^ 40 \<and> of_nat (n * 4096 + 4096) \<notin> live then Some (of_nat (n * 4096 + 4096)) else None)"

lemma bump_os_ok: "os_ok bump_os"
proof -
  have "of_nat (n * 4096 + 4096) \<noteq> (0 :: ulong) \<and> page_aligned (of_nat (n * 4096 + 4096))" if n: "n < 2 ^ 40" for n
  proof -
    have u: "unat (of_nat (n * 4096 + 4096) :: ulong) = n * 4096 + 4096"
      by (rule unat_of_nat_ulong) (use n in simp)
    then have "of_nat (n * 4096 + 4096) \<noteq> (0 :: ulong)" by (metis add_is_0 unsigned_0 zero_neq_numeral)
    moreover have "page_aligned (of_nat (n * 4096 + 4096))" unfolding page_aligned_def u by (simp add: PAGE_SIZE_def)
    ultimately show ?thesis by blast
  qed
  then show ?thesis by (auto simp: os_ok_def bump_os_def split: if_splits)
qed


definition empty_ram :: ram where
  "empty_ram = \<lparr>pages = Map.empty, ticks = 0\<rparr>"

lemma pool_live_held:
  assumes "pool_live s out" and "c \<in># out"
  obtains p i where "page_aligned p" "i < chunks_per_page (fst (snd s))" "c = chunk_addr (fst (snd s)) p i"
    "zone_shape (fst (snd s))" "p \<in> dom (pages (snd (snd s)))"
proof -
  obtain own where wf: "alloc_wf (fst (snd s)) (snd (snd s)) own (mset (vq_items (fst s)) + out)"
    using assms(1) by (auto simp: pool_live_def split: prod.splits)
  let ?p = "page_from_chunk c"
  have p: "?p \<in> own" using wf assms(2) by (simp add: alloc_wf_def)
  obtain pg where pg: "pages (snd (snd s)) ?p = Some pg" "page_aligned ?p" "vq_wf (pg_queue pg)"
    "length (vq_items (pg_queue pg)) = pg_free pg"
    and e: "mset (vq_items (pg_queue pg)) + filter_mset (\<lambda>d. page_from_chunk d = ?p) (mset (vq_items (fst s)) + out) =
      mset (chunks_of (fst (snd s)) ?p)"
    by (rule alloc_wf_pageD [OF wf p])
  have "c \<in># filter_mset (\<lambda>d. page_from_chunk d = ?p) (mset (vq_items (fst s)) + out)" using assms(2) by simp
  then have "c \<in># mset (chunks_of (fst (snd s)) ?p)" unfolding e [symmetric] by (rule union_iff [THEN iffD2, OF disjI2])
  then obtain i where "i < chunks_per_page (fst (snd s))" "c = chunk_addr (fst (snd s)) ?p i"
    by (auto simp: chunks_of_def)
  then show ?thesis using pg alloc_wf_shape [OF wf] by (intro that [of ?p i]) auto
qed

lemma page_gap: "page_aligned p \<Longrightarrow> page_aligned q \<Longrightarrow> unat p < unat q \<Longrightarrow> unat p + PAGE_SIZE \<le> unat q"
proof -
  assume "page_aligned p" "page_aligned q" and l: "unat p < unat q"
  then obtain a b where a: "unat p = PAGE_SIZE * a" and b: "unat q = PAGE_SIZE * b"
    unfolding page_aligned_def by (auto simp: mod_eq_0_iff_dvd elim!: dvdE)
  have "a < b" using l unfolding a b by simp
  then have "PAGE_SIZE * (a + 1) \<le> PAGE_SIZE * b" by (intro mult_le_mono2) simp
  then show ?thesis unfolding a b by simp
qed

lemma chunk_bounds:
  assumes z: "zone_shape zone" and p: "page_aligned p" and i: "i < chunks_per_page zone"
  shows "unat p + sizeof_mem_page \<le> unat (chunk_addr zone p i)"
    and "unat (chunk_addr zone p i) + aligned_chunk_size zone \<le> unat p + PAGE_SIZE"
proof -
  show "unat p + sizeof_mem_page \<le> unat (chunk_addr zone p i)"
    unfolding chunk_addr_unat [OF assms] by (simp add: sizeof_mem_page_def cacheline_align_def CACHELINE_SIZE_def)
  have "(i + 1) * aligned_chunk_size zone \<le> chunks_per_page zone * aligned_chunk_size zone"
    using i by (intro mult_le_mono1) simp
  then show "unat (chunk_addr zone p i) + aligned_chunk_size zone \<le> unat p + PAGE_SIZE"
    using z unfolding chunk_addr_unat [OF assms] zone_shape_def by simp
qed

lemma chunks_apart:
  assumes z: "zone_shape zone" and p: "page_aligned p" "i < chunks_per_page zone"
    and q: "page_aligned q" "j < chunks_per_page zone"
    and l: "unat (chunk_addr zone p i) < unat (chunk_addr zone q j)"
  shows "unat (chunk_addr zone p i) + aligned_chunk_size zone \<le> unat (chunk_addr zone q j)"
proof (cases "p = q")
  case True
  let ?o = "cacheline_align sizeof_mem_page"
  have u: "unat (chunk_addr zone p i) = unat q + (?o + i * aligned_chunk_size zone)"
    "unat (chunk_addr zone q j) = unat q + (?o + j * aligned_chunk_size zone)"
    using chunk_addr_unat [OF z p] chunk_addr_unat [OF z q] True by simp_all
  have "i < j"
  proof (rule ccontr)
    assume "\<not> i < j"
    then have "j * aligned_chunk_size zone \<le> i * aligned_chunk_size zone" by (intro mult_le_mono1) simp
    then show False using l unfolding u by simp
  qed
  then have "(i + 1) * aligned_chunk_size zone \<le> j * aligned_chunk_size zone" by (intro mult_le_mono1) simp
  then show ?thesis unfolding u by simp
next
  case False
  note b = chunk_bounds [OF z p] chunk_bounds [OF z q]
  have "\<not> unat q < unat p"
  proof
    assume "unat q < unat p"
    then have "unat q + PAGE_SIZE \<le> unat p" by (rule page_gap [OF q(1) p(1)])
    then show False using b l z by (simp add: zone_shape_def)
  qed
  then have "unat p < unat q" using False word_unat_eq_iff [of p q] by (simp add: not_less_iff_gr_or_eq)
  then have "unat p + PAGE_SIZE \<le> unat q" by (rule page_gap [OF p(1) q(1)])
  then show ?thesis using b by linarith
qed

text \<open>
  C5: Whatever sequence of allocations and releases a client makes on a cache and its zone, a
  chunk that is handed out is not one of those it already holds: no chunk is handed out twice
  before it is released. If the sequence fails, it is in \<open>pfatal\<close> of a failed \<open>posix_memalign\<close>.
\<close>

theorem cache_malloc_fresh:
  assumes os: "os_ok os" and init: "init_mem_zone sz = Inr zone"
    and run: "pool_run (pool_malloc os) pool_free ops (init_mem_cache, zone, ram) {#} = Inr (s, out)"
  shows "(\<forall>c s'. pool_malloc os s = Inr (c, s') \<longrightarrow> c \<notin># out) \<and>
    (\<forall>e. pool_malloc os s = Inl e \<longrightarrow> (\<exists>msg. e = Fatal msg))"
proof -
  have "os_ok os \<and> pool_live (init_mem_cache, zone, ram) {#}" using os init_pool_live [OF init] by blast
  from pool.run_live [OF this run] have "os_ok os \<and> pool_live s out" .
  then show ?thesis using pool.malloc_fresh pool.malloc_error by blast
qed

text \<open>Three chunks of 1024 bytes fit in the page at 4096; two are taken and one is given back.\<close>

lemma example_pool:
  "\<exists>zone s s'. init_mem_zone 1024 = Inr zone \<and>
     pool_run (pool_malloc bump_os) pool_free [Malloc, Malloc, Free 5184] (init_mem_cache, zone, empty_ram) {#} =
       Inr (s, {#6208#}) \<and>
     pool_malloc bump_os s = Inr (5184, s')"
  by (simp add: init_mem_zone_def cacheline_align_def sizeof_mem_page_def sizeof_mem_chunk_def PAGE_SIZE_def
    CACHELINE_SIZE_def pool_malloc_def cache_malloc_def cache_fill_def page_alloc_def bump_os_def empty_ram_def
    init_mem_cache_def vq_empty_def vq_get_def vq_put_head_def chunk_addr_def vq_splice_def pool_free_def
    cache_free_def upt_conv_Cons Let_def)

theorem cache_malloc_fresh_witness:
  "\<exists>zone s. init_mem_zone 1024 = Inr zone \<and>
     pool_run (pool_malloc bump_os) pool_free [Malloc, Malloc, Free 5184] (init_mem_cache, zone, empty_ram) {#} =
       Inr (s, {#6208#}) \<and>
     (\<exists>c s'. pool_malloc bump_os s = Inr (c, s') \<and> c \<notin># {#6208#})"
proof -
  obtain zone s s' where e: "init_mem_zone 1024 = Inr zone"
    "pool_run (pool_malloc bump_os) pool_free [Malloc, Malloc, Free 5184] (init_mem_cache, zone, empty_ram) {#} =
       Inr (s, {#6208#})"
    "pool_malloc bump_os s = Inr (5184, s')"
    using example_pool by blast
  then show ?thesis using cache_malloc_fresh [OF bump_os_ok e(1,2)] by blast
qed

lemma cache_fill_loop_shape:
  "cache_fill_loop xs n cache zone ram = Inr (cache', zone', ram') \<Longrightarrow> same_shape zone' zone"
proof (induction xs arbitrary: n cache zone ram)
  case (Cons p rest)
  obtain pg where pg: "pages ram p = Some pg" using Cons.prems by (cases "pages ram p") simp_all
  obtain q c where q: "vq_splice (pg_queue pg) cache = (q, c)" by fastforce
  let ?z = "unlist p pg zone"
  have sh: "same_shape ?z zone" by (simp add: unlist_def same_shape_def)
  show ?case
  proof (cases "chunks_per_page zone \<le> n + pg_free pg")
    case True
    then show ?thesis using Cons.prems sh by (auto simp: pg q unlist_def)
  next
    case False
    then have "cache_fill_loop rest (n + pg_free pg) c ?z (ram\<lparr>pages := (pages ram)(p \<mapsto> \<lparr>pg_queue = q, pg_free = 0\<rparr>)\<rparr>) =
        Inr (cache', zone', ram')"
      using Cons.prems by (simp add: pg q unlist_def)
    then have "same_shape zone' ?z" by (rule Cons.IH)
    then show ?thesis using sh by (rule same_shape_trans)
  qed
qed simp

lemma page_alloc_shape: "page_alloc os zone ram = Inr (zone', ram') \<Longrightarrow> same_shape zone' zone"
  by (auto simp: page_alloc_def Let_def same_shape_def split: option.splits)

lemma cache_fill_shape:
  "cache_fill os cache zone ram = Inr (cache', zone', ram') \<Longrightarrow> same_shape zone' zone"
  by (auto simp: cache_fill_def split: if_splits
      dest!: cache_fill_loop_shape page_alloc_shape intro: same_shape_trans)

lemma pool_malloc_shape:
  assumes "pool_malloc os s = Inr (c, s')"
  shows "same_shape (fst (snd s')) (fst (snd s))"
proof -
  obtain cache zone ram cache' zone' ram' where s: "s = (cache, zone, ram)" "s' = (cache', zone', ram')"
    by (metis prod.collapse)
  have run: "cache_malloc os cache zone ram = Inr (c, cache', zone', ram')"
    using assms by (simp add: pool_malloc_def s)
  show ?thesis
  proof (cases "vq_get cache")
    case (Pair h c0)
    show ?thesis
    proof (cases h)
      case None
      then show ?thesis using cache_malloc_fillD [OF run] Pair cache_fill_shape s by (metis fst_conv snd_conv)
    next
      case (Some x)
      then show ?thesis using run Pair by (simp add: cache_malloc_def s)
    qed
  qed
qed

lemma pool_run_shape:
  "pool_run (pool_malloc os) pool_free ops s out = Inr (s', out') \<Longrightarrow>
     same_shape (fst (snd s')) (fst (snd s))"
proof (induction ops arbitrary: s out)
  case (Cons op ops)
  show ?case
  proof (cases op)
    case Malloc
    then obtain c s1 where m: "pool_malloc os s = Inr (c, s1)"
      and r: "pool_run (pool_malloc os) pool_free ops s1 (add_mset c out) = Inr (s', out')"
      using Cons.prems by auto
    from Cons.IH [OF r] pool_malloc_shape [OF m] show ?thesis by (rule same_shape_trans)
  next
    case (Free c)
    have "fst (snd (pool_free c s)) = fst (snd s)" by (simp add: pool_free_def split: prod.splits)
    then show ?thesis using Cons.IH [of "pool_free c s" "out - {#c#}"] Cons.prems Free
      by (simp split: if_splits)
  qed
qed simp

lemma pool_run_bounds:
  assumes live: "pool_live (cache', zone', ram') out" and c: "c \<in># out" and sz: "sz \<le> aligned_chunk_size zone'"
  shows "\<exists>p \<in> dom (pages ram'). unat p + sizeof_mem_page \<le> unat c \<and> unat c + sz \<le> unat p + PAGE_SIZE"
proof -
  obtain p i where p: "page_aligned p" "i < chunks_per_page zone'" "c = chunk_addr zone' p i" "zone_shape zone'"
    "p \<in> dom (pages ram')"
    by (rule pool_live_held [OF live c]) simp
  then show ?thesis using sz chunk_bounds [OF p(4,1,2)] by fastforce
qed

lemma pool_run_apart:
  assumes live: "pool_live (cache', zone', ram') out" and c: "c \<in># out" and d: "d \<in># out"
    and less: "unat c < unat d" and sz: "sz \<le> aligned_chunk_size zone'"
  shows "unat c + sz \<le> unat d"
proof -
  obtain p i where p: "page_aligned p" "i < chunks_per_page zone'" "c = chunk_addr zone' p i" "zone_shape zone'"
    by (rule pool_live_held [OF live c]) simp
  obtain q j where q: "page_aligned q" "j < chunks_per_page zone'" "d = chunk_addr zone' q j"
    by (rule pool_live_held [OF live d]) simp
  have "unat c + aligned_chunk_size zone' \<le> unat d"
    using chunks_apart [OF p(4,1,2) q(1,2)] less p(3) q(3) by simp
  then show ?thesis using sz by simp
qed

text \<open>
  C6: After any run of allocations and frees, every chunk that is handed out, whether it is the
  only one or not, lies with its \<open>sz\<close> bytes inside a page that is allocated, behind the page's
  header, and its \<open>sz\<close> bytes do not overlap those of any other chunk that is handed out: \<open>sz\<close>
  bytes can be written through each pointer without touching another chunk or the allocator's
  own data.
\<close>

theorem cache_malloc_separate:
  assumes os: "os_ok os" and init: "init_mem_zone sz = Inr zone"
    and run: "pool_run (pool_malloc os) pool_free ops (init_mem_cache, zone, ram) {#} = Inr ((cache', zone', ram'), out)"
    and c: "c \<in># out"
  shows "(\<exists>p \<in> dom (pages ram'). unat p + sizeof_mem_page \<le> unat c \<and> unat c + sz \<le> unat p + PAGE_SIZE) \<and>
    (\<forall>d \<in># out. d \<noteq> c \<longrightarrow> unat c + sz \<le> unat d \<or> unat d + sz \<le> unat c)"
proof -
  have "os_ok os \<and> pool_live (init_mem_cache, zone, ram) {#}" using os init_pool_live [OF init] by blast
  from pool.run_live [OF this run] have l: "pool_live (cache', zone', ram') out" by blast
  have sz: "sz \<le> aligned_chunk_size zone'"
    using pool_run_shape [OF run] init_mem_zone_shape(2) [OF init] by (simp add: same_shape_def)
  have "unat c + sz \<le> unat d \<or> unat d + sz \<le> unat c" if d: "d \<in># out" and ne: "d \<noteq> c" for d
  proof (cases "unat c < unat d")
    case True
    then show ?thesis using pool_run_apart [OF l c d True sz] by simp
  next
    case False
    then have "unat d < unat c" using ne by (metis linorder_neqE_nat word_unat_eq_iff)
    then show ?thesis using pool_run_apart [OF l d c _ sz] by simp
  qed
  then show ?thesis using pool_run_bounds [OF l c sz] by blast
qed

theorem cache_malloc_separate_witness:
  "\<exists>zone cache' zone' ram'. init_mem_zone 1024 = Inr zone \<and>
     pool_run (pool_malloc bump_os) pool_free [Malloc, Malloc] (init_mem_cache, zone, empty_ram) {#} =
       Inr ((cache', zone', ram'), {#6208, 5184#}) \<and>
     (\<exists>p \<in> dom (pages ram'). unat p + sizeof_mem_page \<le> 6208 \<and> 6208 + 1024 \<le> unat p + PAGE_SIZE)"
proof -
  have "\<exists>zone cache' zone' ram'. init_mem_zone 1024 = Inr zone \<and>
     pool_run (pool_malloc bump_os) pool_free [Malloc, Malloc] (init_mem_cache, zone, empty_ram) {#} =
       Inr ((cache', zone', ram'), {#6208, 5184#})"
    by (simp add: init_mem_zone_def cacheline_align_def sizeof_mem_page_def sizeof_mem_chunk_def PAGE_SIZE_def
      CACHELINE_SIZE_def pool_malloc_def cache_malloc_def cache_fill_def page_alloc_def bump_os_def empty_ram_def
      init_mem_cache_def vq_empty_def vq_get_def vq_put_head_def chunk_addr_def vq_splice_def upt_conv_Cons Let_def)
  then obtain zone cache' zone' ram' where e: "init_mem_zone 1024 = Inr zone"
    "pool_run (pool_malloc bump_os) pool_free [Malloc, Malloc] (init_mem_cache, zone, empty_ram) {#} =
       Inr ((cache', zone', ram'), {#6208, 5184#})"
    by blast
  have "(\<exists>p \<in> dom (pages ram').
      unat p + sizeof_mem_page \<le> unat (6208 :: addr) \<and> unat (6208 :: addr) + 1024 \<le> unat p + PAGE_SIZE) \<and>
    (\<forall>d \<in># {#6208, 5184#}. d \<noteq> 6208 \<longrightarrow>
      unat (6208 :: addr) + 1024 \<le> unat d \<or> unat d + 1024 \<le> unat (6208 :: addr))"
    using cache_malloc_separate [OF bump_os_ok e, of 6208] by simp
  then have "\<exists>p \<in> dom (pages ram'). unat p + sizeof_mem_page \<le> 6208 \<and> 6208 + 1024 \<le> unat p + PAGE_SIZE"
    by simp
  then show ?thesis using e by blast
qed

lemma drained_pages:
  assumes wf: "alloc_wf zone ram own out" and nf: "no_full_page zone ram own"
  shows "own = page_from_chunk ` set_mset out"
proof
  show "page_from_chunk ` set_mset out \<subseteq> own" using wf by (auto simp: alloc_wf_def)
  show "own \<subseteq> page_from_chunk ` set_mset out"
  proof
    fix p assume p: "p \<in> own"
    obtain pg where pg: "pages ram p = Some pg" "page_aligned p" "vq_wf (pg_queue pg)"
      "length (vq_items (pg_queue pg)) = pg_free pg"
      and e: "mset (vq_items (pg_queue pg)) + filter_mset (\<lambda>c. page_from_chunk c = p) out = mset (chunks_of zone p)"
      by (rule alloc_wf_pageD [OF wf p])
    have "pg_free pg < length (chunks_of zone p)"
      using nf p pg(1) by (simp add: no_full_page_def chunks_of_def)
    moreover have "size (mset (vq_items (pg_queue pg)) + filter_mset (\<lambda>c. page_from_chunk c = p) out) =
        size (mset (chunks_of zone p))" by (rule arg_cong [OF e])
    ultimately have "size (filter_mset (\<lambda>c. page_from_chunk c = p) out) \<noteq> 0"
      unfolding size_union size_mset using pg(4) by linarith
    then have "set_mset (filter_mset (\<lambda>c. page_from_chunk c = p) out) \<noteq> {}" by simp
    then show "p \<in> page_from_chunk ` set_mset out" by auto
  qed
qed

lemma zone_used_bytes_own:
  assumes "alloc_wf zone ram own held" and "card own < 2 ^ 32"
  shows "zone_used_bytes zone = of_nat (card own * PAGE_SIZE)"
proof -
  have "unat (of_nat (card own) :: 32 word) = card own"
    using assms(2) by (simp add: unsigned_of_nat take_bit_nat_eq_self)
  then have "(ucast (of_nat (card own) :: 32 word) :: ulong) = of_nat (card own)"
    using assms(2) by (simp add: word_unat_eq_iff unsigned_ucast_eq unat_of_nat_ulong take_bit_nat_eq_self)
  then show ?thesis using assms(1) by (simp add: zone_used_bytes_def alloc_wf_def)
qed

lemma zone_free_empty: "alloc_wf zone ram {} held \<Longrightarrow> zone_free zone = Inr ()"
  by (auto simp: alloc_wf_def zone_free_def)



end
