(* ===== verification/Timer.thy ===== *)
theory Timer
  imports Msock_Prelude
begin

text \<open>
  The timer wheels of \<open>src/timer.h\<close> and \<open>src/timer.c\<close>. Timers are kept in five arrays of lists: the
  256 lists of \<open>tv1\<close> hold the timers of the next 256 jiffies, and each array above it holds, per
  list, a range of jiffies that is 64 times as long. \<open>timers_run\<close> advances \<open>timer_jiffies\<close> one by one,
  moving a list one level down (\<open>cascade\<close>) when its range begins. A list is the list of its timers,
  named by the addresses of their \<open>timer_head\<close>s; what the callbacks do is a parameter. The
  invariant \<open>wheel_wf\<close> says where a pending timer is; from it follow that no timer fires before it
  is due and that none is missed, over the wrap-around of the 64-bit counter too.
\<close>

unbundle bit_operations_syntax

section \<open>The data\<close>

type_synonym tid = nat

definition TVN_BITS :: nat where "TVN_BITS = 6"
definition TVR_BITS :: nat where "TVR_BITS = 8"
definition TVN_SIZE :: nat where "TVN_SIZE = 2 ^ TVN_BITS"
definition TVR_SIZE :: nat where "TVR_SIZE = 2 ^ TVR_BITS"
definition TVN_MASK :: ulong where "TVN_MASK = of_nat TVN_SIZE - 1"
definition TVR_MASK :: ulong where "TVR_MASK = of_nat TVR_SIZE - 1"
definition NEXT_TIMER_MAX_DELTA :: ulong where "NEXT_TIMER_MAX_DELTA = 2 ^ 30 - 1"

text \<open>
  \<open>struct timer_base\<close>, with the \<open>expires\<close> fields of the timers and the list \<open>work_list\<close> that
  \<open>timers_run\<close> keeps on its stack, which a callback can reach through the timers in it.
\<close>

record timer_base =
  timer_jiffies :: ulong
  tv1 :: "tid list list"
  tv2 :: "tid list list"
  tv3 :: "tid list list"
  tv4 :: "tid list list"
  tv5 :: "tid list list"
  expires :: "tid \<Rightarrow> ulong"
  work_list :: "tid list"

text \<open>The array of a level, which the code passes as \<open>struct tvec *\<close>.\<close>

definition vec :: "timer_base \<Rightarrow> nat \<Rightarrow> tid list list" where
  "vec b l = (if l = 1 then tv1 b else if l = 2 then tv2 b else if l = 3 then tv3 b
     else if l = 4 then tv4 b else if l = 5 then tv5 b else [])"

definition set_vec :: "nat \<Rightarrow> tid list list \<Rightarrow> timer_base \<Rightarrow> timer_base" where
  "set_vec l v b = (if l = 1 then b\<lparr>tv1 := v\<rparr> else if l = 2 then b\<lparr>tv2 := v\<rparr>
     else if l = 3 then b\<lparr>tv3 := v\<rparr> else if l = 4 then b\<lparr>tv4 := v\<rparr>
     else if l = 5 then b\<lparr>tv5 := v\<rparr> else b)"

section \<open>The operations\<close>

text \<open>The comparisons subtract signed longs; a difference that does not fit wraps around.\<close>

definition time_after_eq :: "ulong \<Rightarrow> ulong \<Rightarrow> bool" where
  "time_after_eq a b \<longleftrightarrow> 0 \<le>s a - b"

definition time_after :: "ulong \<Rightarrow> ulong \<Rightarrow> bool" where
  "time_after a b \<longleftrightarrow> b - a <s 0"

definition time_before :: "ulong \<Rightarrow> ulong \<Rightarrow> bool" where
  "time_before a b \<longleftrightarrow> time_after b a"

definition init_timer_base :: "ulong \<Rightarrow> timer_base" where
  "init_timer_base jiffies =
     \<lparr>timer_jiffies = jiffies, tv1 = replicate TVR_SIZE [], tv2 = replicate TVN_SIZE [],
      tv3 = replicate TVN_SIZE [], tv4 = replicate TVN_SIZE [], tv5 = replicate TVN_SIZE [],
      expires = (\<lambda>_. 0), work_list = []\<rparr>"

text \<open>The choice of the list in \<open>__internal_add_timer\<close>.\<close>

definition timer_slot :: "ulong \<Rightarrow> ulong \<Rightarrow> nat \<times> nat" where
  "timer_slot jiffies e =
     (let idx = e - jiffies in
      if idx < of_nat TVR_SIZE then (1, unat (e AND TVR_MASK))
      else if idx < 2 ^ (TVR_BITS + TVN_BITS) then (2, unat (drop_bit TVR_BITS e AND TVN_MASK))
      else if idx < 2 ^ (TVR_BITS + 2 * TVN_BITS)
      then (3, unat (drop_bit (TVR_BITS + TVN_BITS) e AND TVN_MASK))
      else if idx < 2 ^ (TVR_BITS + 3 * TVN_BITS)
      then (4, unat (drop_bit (TVR_BITS + 2 * TVN_BITS) e AND TVN_MASK))
      else if idx <s 0 then (1, unat (jiffies AND TVR_MASK))
      else let e' = (if 0xffffffff < idx then 0xffffffff + jiffies else e)
           in (5, unat (drop_bit (TVR_BITS + 3 * TVN_BITS) e' AND TVN_MASK)))"

definition internal_add_timer :: "tid \<Rightarrow> timer_base \<Rightarrow> timer_base" where
  "internal_add_timer t b =
     (case timer_slot (timer_jiffies b) (expires b t) of
        (l, i) \<Rightarrow> set_vec l ((vec b l)[i := vec b l ! i @ [t]]) b)"

definition timer_pending :: "tid \<Rightarrow> timer_base \<Rightarrow> bool" where
  "timer_pending t b \<longleftrightarrow>
     (\<exists>v \<in> set (tv1 b @ tv2 b @ tv3 b @ tv4 b @ tv5 b @ [work_list b]). t \<in> set v)"

text \<open>\<open>list_del_init\<close> takes the timer off the list it is in, whichever that is.\<close>

definition unlink :: "tid \<Rightarrow> timer_base \<Rightarrow> timer_base" where
  "unlink t b = b\<lparr>tv1 := map (remove1 t) (tv1 b), tv2 := map (remove1 t) (tv2 b),
     tv3 := map (remove1 t) (tv3 b), tv4 := map (remove1 t) (tv4 b), tv5 := map (remove1 t) (tv5 b),
     work_list := remove1 t (work_list b)\<rparr>"

definition timer_del :: "tid \<Rightarrow> timer_base \<Rightarrow> timer_base" where
  "timer_del t b = (if timer_pending t b then unlink t b else b)"

definition timer_mod :: "tid \<Rightarrow> ulong \<Rightarrow> timer_base \<Rightarrow> timer_base" where
  "timer_mod t e b =
     (let b = (if timer_pending t b then timer_del t b else b)
      in internal_add_timer t (b\<lparr>expires := (expires b)(t := e)\<rparr>))"

definition timer_add :: "tid \<Rightarrow> ulong \<Rightarrow> timer_base \<Rightarrow> timer_base" where
  "timer_add t e b = timer_mod t e b"

definition cascade :: "nat \<Rightarrow> nat \<Rightarrow> timer_base \<Rightarrow> timer_base \<times> nat" where
  "cascade l index b =
     (let tv_list = vec b l ! index
      in (fold internal_add_timer tv_list (set_vec l ((vec b l)[index := []]) b), index))"

definition INDEX :: "timer_base \<Rightarrow> nat \<Rightarrow> nat" where
  "INDEX b n = unat (drop_bit (TVR_BITS + n * TVN_BITS) (timer_jiffies b) AND TVN_MASK)"

definition cascade_timers :: "nat \<Rightarrow> timer_base \<Rightarrow> timer_base" where
  "cascade_timers index b =
     (if index \<noteq> 0 then b
      else let (b, i) = cascade 2 (INDEX b 0) b in
        if i \<noteq> 0 then b
        else let (b, i) = cascade 3 (INDEX b 1) b in
          if i \<noteq> 0 then b
          else let (b, i) = cascade 4 (INDEX b 2) b in
            if i \<noteq> 0 then b
            else fst (cascade 5 (INDEX b 3) b))"

text \<open>
  What a callback does with timers: it may read the wheels and its own state \<open>'u\<close>, and it starts
  and stops timers.
\<close>

datatype timer_cmd = TMod tid ulong | TDel tid

type_synonym 'u timer_cb = "tid \<Rightarrow> timer_base \<Rightarrow> 'u \<Rightarrow> 'u \<times> timer_cmd list"

fun timer_exec :: "timer_cmd \<Rightarrow> timer_base \<Rightarrow> timer_base" where
  "timer_exec (TMod t e) b = timer_mod t e b"
| "timer_exec (TDel t) b = timer_del t b"

lemma work_list_set_vec [simp]: "work_list (set_vec l v b) = work_list b"
  by (simp add: set_vec_def)

lemma work_list_internal_add [simp]: "work_list (internal_add_timer t b) = work_list b"
  by (simp add: internal_add_timer_def split: prod.splits)

lemma work_list_exec: "length (work_list (timer_exec c b)) \<le> length (work_list b)"
  by (cases c) (simp_all add: timer_mod_def timer_del_def unlink_def Let_def length_remove1)

lemma work_list_exec_fold: "length (work_list (fold timer_exec cs b)) \<le> length (work_list b)"
proof (induction cs arbitrary: b)
  case (Cons c cs)
  show ?case using Cons.IH [of "timer_exec c b"] work_list_exec [of c b] by simp
qed simp

text \<open>The inner loop of \<open>timers_run\<close>.\<close>

function run_work_list :: "'u timer_cb \<Rightarrow> 32 word \<Rightarrow> timer_base \<Rightarrow> 'u \<Rightarrow> 32 word \<times> timer_base \<times> 'u" where
  "run_work_list cb expired b u =
     (case work_list b of
        [] \<Rightarrow> (expired, b, u)
      | timer # _ \<Rightarrow>
          (let b = timer_del timer b;
               (u, cmds) = cb timer b u
           in run_work_list cb (expired + 1) (fold timer_exec cmds b) u))"
  by pat_completeness auto
termination
proof (relation "measure (\<lambda>(cb, expired, b, u). length (work_list b))")
  fix cb :: "'u timer_cb" and expired :: "32 word" and b b' :: timer_base and u u' :: 'u
    and timer :: tid and rest :: "tid list" and p :: "'u \<times> timer_cmd list" and cmds :: "timer_cmd list"
  assume w: "work_list b = timer # rest" and b': "b' = timer_del timer b"
  have "length (work_list b') < length (work_list b)"
    by (simp add: w b' timer_del_def timer_pending_def unlink_def)
  then have "length (work_list (fold timer_exec cmds b')) < length (work_list b)"
    using work_list_exec_fold [of cmds b'] by linarith
  then show "((cb, expired + 1, fold timer_exec cmds b', u'), cb, expired, b, u)
      \<in> measure (\<lambda>(cb, expired, b, u). length (work_list b))" by simp
qed simp

declare run_work_list.simps [simp del]

definition timers_tick :: "'u timer_cb \<Rightarrow> 32 word \<Rightarrow> timer_base \<Rightarrow> 'u \<Rightarrow> 32 word \<times> timer_base \<times> 'u" where
  "timers_tick cb expired b u =
     (let index = unat (timer_jiffies b AND TVR_MASK);
          b = cascade_timers index b;
          b = b\<lparr>timer_jiffies := timer_jiffies b + 1\<rparr>;
          b = b\<lparr>work_list := tv1 b ! index, tv1 := (tv1 b)[index := []]\<rparr>
      in run_work_list cb expired b u)"

lemma jiffies_set_vec [simp]: "timer_jiffies (set_vec l v b) = timer_jiffies b"
  by (simp add: set_vec_def)

lemma jiffies_internal_add [simp]: "timer_jiffies (internal_add_timer t b) = timer_jiffies b"
  by (simp add: internal_add_timer_def split: prod.splits)

lemma jiffies_fold_add [simp]: "timer_jiffies (fold internal_add_timer ts b) = timer_jiffies b"
  by (induction ts arbitrary: b) simp_all

lemma jiffies_del [simp]: "timer_jiffies (timer_del t b) = timer_jiffies b"
  by (simp add: timer_del_def unlink_def)

lemma jiffies_exec [simp]: "timer_jiffies (timer_exec c b) = timer_jiffies b"
  by (cases c) (simp_all add: timer_mod_def Let_def)

lemma jiffies_fold_exec [simp]: "timer_jiffies (fold timer_exec cs b) = timer_jiffies b"
  by (induction cs arbitrary: b) simp_all

lemma jiffies_cascade [simp]: "timer_jiffies (fst (cascade l i b)) = timer_jiffies b"
  by (simp add: cascade_def)

lemma jiffies_cascade_timers [simp]: "timer_jiffies (cascade_timers i b) = timer_jiffies b"
  by (simp add: cascade_timers_def cascade_def Let_def)

lemma run_work_Nil: "work_list b = [] \<Longrightarrow> run_work_list cb n b u = (n, b, u)"
  by (simp add: run_work_list.simps [of cb n b u])

lemma run_work_Cons:
  "work_list b = t # r \<Longrightarrow> cb t (timer_del t b) u = (u', cmds) \<Longrightarrow>
     run_work_list cb n b u = run_work_list cb (n + 1) (fold timer_exec cmds (timer_del t b)) u'"
  by (simp add: run_work_list.simps [of cb n b u] Let_def)

text \<open>The rule for the inner loop: what a callback keeps holds at its end, where the list is empty.\<close>

lemma run_work_rule:
  assumes "J n b u"
    and "\<And>n b u t r u' cmds. J n b u \<Longrightarrow> work_list b = t # r \<Longrightarrow> cb t (timer_del t b) u = (u', cmds) \<Longrightarrow>
      J (n + 1) (fold timer_exec cmds (timer_del t b)) u'"
    and "run_work_list cb n b u = (n', b', u')"
  shows "J n' b' u' \<and> work_list b' = []"
  using assms(1,3)
proof (induction "length (work_list b)" arbitrary: n b u rule: less_induct)
  case less
  show ?case
  proof (cases "work_list b")
    case Nil
    then show ?thesis using less.prems by (simp add: run_work_Nil)
  next
    case (Cons t r)
    obtain u1 cmds where c: "cb t (timer_del t b) u = (u1, cmds)" by fastforce
    have "length (work_list (timer_del t b)) < length (work_list b)"
      by (simp add: Cons timer_del_def timer_pending_def unlink_def)
    then have "length (work_list (fold timer_exec cmds (timer_del t b))) < length (work_list b)"
      using work_list_exec_fold [of cmds "timer_del t b"] by linarith
    then show ?thesis
      using less.hyps assms(2) [OF less.prems(1) Cons c] less.prems(2) run_work_Cons [where cb = cb, OF Cons c] by simp
  qed
qed

lemma jiffies_run_work: "timer_jiffies (fst (snd (run_work_list cb n b u))) = timer_jiffies b"
  using run_work_rule [where J = "\<lambda>_ b' _. timer_jiffies b' = timer_jiffies b" and cb = cb and n = n and b = b and u = u]
  by (cases "run_work_list cb n b u") simp

lemma jiffies_tick: "timer_jiffies (fst (snd (timers_tick cb n b u))) = timer_jiffies b + 1"
  by (simp add: timers_tick_def jiffies_run_work Let_def)

lemma sle_0_iff: "0 \<le>s (x :: ulong) \<longleftrightarrow> unat x < 2 ^ 63"
proof -
  have s: "sint x = signed_take_bit 63 (uint x)" using sint_uint [of x] by simp
  have u: "uint x = int (unat x)" by simp
  have "0 \<le>s x \<longleftrightarrow> \<not> bit (uint x) 63"
    unfolding word_sle_eq s by (simp add: signed_take_bit_nonnegative_iff)
  also have "bit (uint x) 63 \<longleftrightarrow> odd (unat x div 2 ^ 63)"
  proof -
    have "bit (uint x) 63 \<longleftrightarrow> bit (unat x) 63" unfolding u by (simp only: bit_of_nat_iff_bit)
    then show ?thesis by (simp add: bit_iff_odd)
  qed
  also have "\<dots> \<longleftrightarrow> 2 ^ 63 \<le> unat x"
  proof -
    have "unat x div 2 ^ 63 < 2" using unat_ulong_less [of x] by (intro less_mult_imp_div_less) simp
    moreover have "odd k \<longleftrightarrow> 0 < k" if "k < 2" for k :: nat using that by presburger
    ultimately have "odd (unat x div 2 ^ 63) \<longleftrightarrow> 0 < unat x div 2 ^ 63" by blast
    then show ?thesis by (simp add: div_greater_zero_iff)
  qed
  finally show ?thesis by (simp add: not_le)
qed

lemma time_after_eq_unat: "time_after_eq a b \<longleftrightarrow> unat (a - b) < 2 ^ 63"
  by (simp add: time_after_eq_def sle_0_iff)

text \<open>The outer loop of \<open>timers_run\<close>.\<close>

function timers_run_loop :: "'u timer_cb \<Rightarrow> ulong \<Rightarrow> 32 word \<Rightarrow> timer_base \<Rightarrow> 'u \<Rightarrow> 32 word \<times> timer_base \<times> 'u" where
  "timers_run_loop cb jiffies expired b u =
     (if time_after_eq jiffies (timer_jiffies b)
      then case timers_tick cb expired b u of (expired, b, u) \<Rightarrow> timers_run_loop cb jiffies expired b u
      else (expired, b, u))"
  by pat_completeness auto
termination
proof (relation "measure (\<lambda>(cb, jiffies, expired, b, u). unat (jiffies - timer_jiffies b + 1))")
  fix cb :: "'u timer_cb" and jiffies :: ulong and expired expired' :: "32 word" and b b' :: timer_base
    and u u' :: 'u and q :: "timer_base \<times> 'u"
  assume t: "time_after_eq jiffies (timer_jiffies b)"
    and p: "(expired', q) = timers_tick cb expired b u" "(b', u') = q"
  have j: "timer_jiffies b' = timer_jiffies b + 1" using jiffies_tick [of cb expired b u] p by (metis fst_conv snd_conv)
  have l: "unat (jiffies - timer_jiffies b) < 2 ^ 63" using t by (simp add: time_after_eq_unat)
  have "unat (jiffies - timer_jiffies b + 1) = unat (jiffies - timer_jiffies b) + 1"
    using unat_add_ulong [of "jiffies - timer_jiffies b" 1] l by simp
  then show "((cb, jiffies, expired', b', u'), cb, jiffies, expired, b, u)
      \<in> measure (\<lambda>(cb, jiffies, expired, b, u). unat (jiffies - timer_jiffies b + 1))"
    by (simp add: j algebra_simps)
qed simp

declare timers_run_loop.simps [simp del]

definition timers_run :: "'u timer_cb \<Rightarrow> ulong \<Rightarrow> timer_base \<Rightarrow> 'u \<Rightarrow> 32 word \<times> timer_base \<times> 'u" where
  "timers_run cb jiffies b u =
     (if \<not> time_after_eq jiffies (timer_jiffies b) then (0, b, u)
      else timers_run_loop cb jiffies 0 b u)"

section \<open>The next interrupt\<close>

text \<open>The slots in the order of the \<open>do ... while\<close> loops, which start at \<open>index\<close> and wrap around.\<close>

definition slots_from :: "nat \<Rightarrow> nat \<Rightarrow> nat list" where
  "slots_from n index = map (\<lambda>k. (index + k) mod n) [0 ..< n]"

text \<open>The search of \<open>tv1\<close>: \<open>Inl\<close> is a return from the function, \<open>Inr\<close> the values of \<open>found\<close> and
  \<open>expires\<close> at the label \<open>cascade\<close>.\<close>

fun next_tv1 :: "timer_base \<Rightarrow> nat \<Rightarrow> ulong \<Rightarrow> nat list \<Rightarrow> ulong + (bool \<times> ulong)" where
  "next_tv1 b index ex [] = Inr (False, ex)"
| "next_tv1 b index ex (slot # slots) =
     (case tv1 b ! slot of
        nte # _ \<Rightarrow> if index = 0 \<or> slot < index then Inr (True, expires b nte) else Inl (expires b nte)
      | [] \<Rightarrow> next_tv1 b index ex slots)"

fun next_level :: "timer_base \<Rightarrow> tid list list \<Rightarrow> nat \<Rightarrow> bool \<Rightarrow> ulong \<Rightarrow> nat list \<Rightarrow> ulong + (bool \<times> ulong)" where
  "next_level b varp index found ex [] = Inr (found, ex)"
| "next_level b varp index found ex (slot # slots) =
     (let ex = fold (\<lambda>nte ex. if time_before (expires b nte) ex then expires b nte else ex) (varp ! slot) ex;
          found = (found \<or> varp ! slot \<noteq> [])
      in if found then (if index = 0 \<or> slot < index then Inr (found, ex) else Inl ex)
         else next_level b varp index found ex slots)"

fun next_levels :: "timer_base \<Rightarrow> tid list list list \<Rightarrow> ulong \<Rightarrow> bool \<Rightarrow> ulong \<Rightarrow> ulong" where
  "next_levels b [] tj found ex = ex"
| "next_levels b (varp # varray) tj found ex =
     (let index = unat (tj AND TVN_MASK)
      in case next_level b varp index found ex (slots_from TVN_SIZE index) of
           Inl r \<Rightarrow> r
         | Inr (found, ex) \<Rightarrow>
             next_levels b varray
               (drop_bit TVN_BITS (if index \<noteq> 0 then tj + of_nat (TVN_SIZE - index) else tj)) found ex)"

definition timer_next_interrupt :: "timer_base \<Rightarrow> ulong" where
  "timer_next_interrupt b =
     (let tj = timer_jiffies b;
          index = unat (tj AND TVR_MASK)
      in case next_tv1 b index (tj + NEXT_TIMER_MAX_DELTA) (slots_from TVR_SIZE index) of
           Inl r \<Rightarrow> r
         | Inr (found, ex) \<Rightarrow>
             next_levels b [tv2 b, tv3 b, tv4 b, tv5 b]
               (drop_bit TVR_BITS (if index \<noteq> 0 then tj + of_nat (TVR_SIZE - index) else tj)) found ex)"


section \<open>Slots as numbers\<close>

text \<open>
  Times are compared as natural numbers: \<open>now_nat\<close> is the current jiffy, moved away from 0 by a
  whole turn of the counter, and \<open>due_nat\<close> is when a timer is due, counted on from there, so
  that neither wraps around.
\<close>

definition now_nat :: "ulong \<Rightarrow> nat" where
  "now_nat tj = unat tj + 2 ^ 64"

definition due_nat :: "ulong \<Rightarrow> ulong \<Rightarrow> nat" where
  "due_nat tj e = now_nat tj + unat (e - tj)"

text \<open>The jiffies per list of an array, as a power of two.\<close>

definition shift :: "nat \<Rightarrow> nat" where
  "shift l = 8 + 6 * (l - 2)"

lemma unat_and_mask: "unat (x AND TVR_MASK) = unat x mod 256" "unat (x AND TVN_MASK) = unat x mod 64"
proof -
  have m: "TVR_MASK = mask 8" "TVN_MASK = mask 6"
    by (simp_all add: TVR_MASK_def TVN_MASK_def TVR_SIZE_def TVN_SIZE_def TVR_BITS_def TVN_BITS_def mask_eq_exp_minus_1)
  have a: "unat (x AND mask n) = unat x mod 2 ^ n" for n
  proof -
    have "unat (x AND mask n) = unat (take_bit n x)" by (simp only: take_bit_eq_mask)
    also have "\<dots> = take_bit n (unat x)" by (rule unsigned_take_bit_eq)
    finally show ?thesis by (simp only: take_bit_eq_mod)
  qed
  show "unat (x AND TVR_MASK) = unat x mod 256" "unat (x AND TVN_MASK) = unat x mod 64"
    unfolding m a by simp_all
qed

lemma unat_drop_bit: "unat (drop_bit s (x :: ulong)) = unat x div 2 ^ s"
  by (simp only: unsigned_drop_bit_eq) (simp add: take_bit_nat_eq_self unat_ulong_less [simplified] drop_bit_eq_div)

lemma unat_add_mod: "unat (a + b :: ulong) = (unat a + unat b) mod 2 ^ 64"
  using unat_word_ariths(1) [of a b] by simp

lemma unat_due: "unat e = due_nat tj e mod 2 ^ 64"
proof -
  have "unat (tj + (e - tj)) = (unat tj + unat (e - tj)) mod 2 ^ 64" by (rule unat_add_mod)
  moreover have "due_nat tj e = unat tj + unat (e - tj) + 2 ^ 64" by (simp add: due_nat_def now_nat_def)
  ultimately show ?thesis by (simp only: mod_add_self2) simp
qed

lemma div_mod_low: "s + 6 \<le> 64 \<Longrightarrow> (x mod 2 ^ 64) div 2 ^ s mod 64 = x div 2 ^ s mod (64 :: nat)"
proof -
  assume s: "s + 6 \<le> 64"
  have "take_bit 6 (drop_bit s (take_bit 64 x)) = take_bit 6 (drop_bit s x)"
    using s by (simp add: take_bit_drop_bit ac_simps min_def)
  then show ?thesis by (simp add: take_bit_eq_mod drop_bit_eq_div)
qed

lemma mod_mod_low: "(x mod 2 ^ 64) mod 256 = x mod (256 :: nat)"
  by (rule mod_mod_cancel) (simp add: dvd_def)

text \<open>
  A timer in list \<open>i\<close> of level \<open>l\<close>. In \<open>tv1\<close> it is due within 256 jiffies, or overdue and in the
  list of the current jiffy. Above, its list starts (at \<open>c\<close>, rounded down) after \<open>p\<close>, the last jiffy
  whose cascades have been made, and less than 64 lists later, and not after the timer is due.
\<close>

definition in_window :: "nat \<Rightarrow> nat \<Rightarrow> nat \<Rightarrow> bool" where
  "in_window s p c \<longleftrightarrow> p div 2 ^ s < c div 2 ^ s \<and> c div 2 ^ s \<le> p div 2 ^ s + 64"

definition slot_ok :: "nat \<Rightarrow> ulong \<Rightarrow> ulong \<Rightarrow> nat \<Rightarrow> nat \<Rightarrow> bool" where
  "slot_ok p tj e l i \<longleftrightarrow>
     (if l = 1 then (unat (e - tj) < 256 \<and> i = unat e mod 256) \<or> (2 ^ 63 \<le> unat (e - tj) \<and> i = unat tj mod 256)
      else l \<in> {2..5} \<and> unat (e - tj) < 2 ^ 63 \<and>
        (\<exists>c. now_nat tj \<le> c \<and> c \<le> due_nat tj e \<and> (l < 5 \<longrightarrow> c = due_nat tj e) \<and>
           i = c div 2 ^ shift l mod 64 \<and> in_window (shift l) p c))"

lemma in_window_new:
  assumes "t + 2 ^ s \<le> c" and "c < t + 64 * 2 ^ s" and "p = t \<or> Suc p = t"
  shows "in_window s p c"
proof -
  have "p div 2 ^ s < c div 2 ^ s"
  proof -
    have "(p + 2 ^ s) div 2 ^ s \<le> c div 2 ^ s" using assms by (intro div_le_mono) auto
    moreover have "(p + 2 ^ s) div 2 ^ s = p div 2 ^ s + 1" by (rule div_add_self2) simp
    ultimately show ?thesis by linarith
  qed
  moreover have "c div 2 ^ s \<le> p div 2 ^ s + 64"
  proof -
    have "c div 2 ^ s \<le> (p + 64 * 2 ^ s) div 2 ^ s" using assms by (intro div_le_mono) auto
    then show ?thesis by simp
  qed
  ultimately show ?thesis by (simp add: in_window_def)
qed

lemma slt_0_iff: "(x :: ulong) <s 0 \<longleftrightarrow> 2 ^ 63 \<le> unat x"
proof -
  have "x <s 0 \<longleftrightarrow> \<not> 0 \<le>s x" by (simp only: word_sless_alt word_sle_eq not_le)
  then show ?thesis by (simp add: sle_0_iff not_less)
qed

definition size_of :: "nat \<Rightarrow> nat" where
  "size_of l = (if l = 1 then 256 else if l \<in> {2..5} then 64 else 0)"

lemma timer_slot_cases:
  fixes tj e :: ulong
  defines "d \<equiv> unat (e - tj)"
  shows "timer_slot tj e =
    (if d < 2 ^ 8 then (1, unat e mod 256)
     else if d < 2 ^ 14 then (2, due_nat tj e div 2 ^ 8 mod 64)
     else if d < 2 ^ 20 then (3, due_nat tj e div 2 ^ 14 mod 64)
     else if d < 2 ^ 26 then (4, due_nat tj e div 2 ^ 20 mod 64)
     else if 2 ^ 63 \<le> d then (1, unat tj mod 256)
     else (5, (now_nat tj + min d (2 ^ 32 - 1)) div 2 ^ 26 mod 64))"
proof -
  have lt: "(e - tj < n) \<longleftrightarrow> d < unat n" for n by (simp add: word_less_nat_alt d_def)
  have gt: "(n < e - tj) \<longleftrightarrow> unat n < d" for n by (simp add: word_less_nat_alt d_def)
  have sl: "unat (drop_bit s e AND TVN_MASK) = due_nat tj e div 2 ^ s mod 64" if "s + 6 \<le> 64" for s
    unfolding unat_and_mask unat_drop_bit unat_due [of e tj] using div_mod_low [OF that] .
  have c5: "unat (drop_bit 26 (0xffffffff + tj) AND TVN_MASK) = (now_nat tj + (2 ^ 32 - 1)) div 2 ^ 26 mod 64"
  proof -
    have "unat (0xffffffff + tj) = (unat tj + (2 ^ 32 - 1)) mod 2 ^ 64"
    proof -
      have "unat (0xffffffff + tj) = (unat (0xffffffff :: ulong) + unat tj) mod 2 ^ 64" by (rule unat_add_mod)
      moreover have "unat (0xffffffff :: ulong) = 2 ^ 32 - 1" by simp
      ultimately show ?thesis by (simp only: add.commute)
    qed
    also have "\<dots> = (now_nat tj + (2 ^ 32 - 1)) mod 2 ^ 64"
    proof -
      have "now_nat tj + (2 ^ 32 - 1) = unat tj + (2 ^ 32 - 1) + 2 ^ 64" by (simp add: now_nat_def)
      then show ?thesis by (simp only: mod_add_self2)
    qed
    finally show ?thesis unfolding unat_and_mask unat_drop_bit using div_mod_low [of 26] by simp
  qed
  have d32: "now_nat tj + min d (2 ^ 32 - 1) = due_nat tj e" if "\<not> 2 ^ 32 - 1 < d"
    using that by (simp add: due_nat_def d_def min_def)
  show ?thesis
    unfolding timer_slot_def Let_def lt gt slt_0_iff
    using sl [of 8] sl [of 14] sl [of 20] sl [of 26] c5 d32
    by (simp add: TVR_SIZE_def TVR_BITS_def TVN_BITS_def unat_and_mask min_def flip: d_def)
qed

lemma timer_slot_ok:
  assumes "timer_slot tj e = (l, i)" and p: "p = now_nat tj \<or> Suc p = now_nat tj"
  shows "slot_ok p tj e l i" and "i < size_of l"
proof -
  let ?d = "unat (e - tj)" and ?t = "now_nat tj" and ?c = "due_nat tj e"
  have win: "in_window s p ?c" if "2 ^ s \<le> ?d" "?d < 2 ^ (s + 6)" for s
    using that p by (intro in_window_new [where t = ?t]) (auto simp: due_nat_def power_add)
  let ?c5 = "?t + min ?d (2 ^ 32 - 1)"
  have win5: "in_window 26 p ?c5" if "2 ^ 26 \<le> ?d"
    using that p by (intro in_window_new [where t = ?t]) auto
  consider "?d < 2 ^ 8" "l = 1" "i = unat e mod 256"
    | "2 ^ 8 \<le> ?d" "?d < 2 ^ 14" "l = 2" "i = ?c div 2 ^ 8 mod 64"
    | "2 ^ 14 \<le> ?d" "?d < 2 ^ 20" "l = 3" "i = ?c div 2 ^ 14 mod 64"
    | "2 ^ 20 \<le> ?d" "?d < 2 ^ 26" "l = 4" "i = ?c div 2 ^ 20 mod 64"
    | "2 ^ 63 \<le> ?d" "l = 1" "i = unat tj mod 256"
    | "2 ^ 26 \<le> ?d" "?d < 2 ^ 63" "l = 5" "i = ?c5 div 2 ^ 26 mod 64"
    using assms(1) unfolding timer_slot_cases by (auto split: if_splits)
  then have "slot_ok p tj e l i \<and> i < size_of l"
  proof cases
    case 2
    then show ?thesis using win [of 8] by (simp add: slot_ok_def size_of_def shift_def due_nat_def)
  next
    case 3
    then show ?thesis using win [of 14] by (simp add: slot_ok_def size_of_def shift_def due_nat_def)
  next
    case 4
    then show ?thesis using win [of 20] by (simp add: slot_ok_def size_of_def shift_def due_nat_def)
  next
    case 6
    have "?t \<le> ?c5 \<and> ?c5 \<le> ?c" by (simp add: due_nat_def)
    then have "\<exists>c. ?t \<le> c \<and> c \<le> ?c \<and> (l < 5 \<longrightarrow> c = ?c) \<and> i = c div 2 ^ shift l mod 64 \<and> in_window (shift l) p c"
      using 6 win5 by (intro exI [of _ ?c5]) (simp add: shift_def)
    then show ?thesis using 6 by (simp add: slot_ok_def size_of_def)
  qed (simp_all add: slot_ok_def size_of_def)
  then show "slot_ok p tj e l i" and "i < size_of l" by simp_all
qed


text \<open>A timer that stays in its list while the cascades of jiffy \<open>now_nat tj\<close> are made.\<close>

lemma slot_ok_cascaded:
  assumes "slot_ok p tj e l i" and p: "Suc p = now_nat tj"
    and "l \<noteq> 1 \<Longrightarrow> 2 ^ shift l dvd now_nat tj \<Longrightarrow> i \<noteq> now_nat tj div 2 ^ shift l mod 64"
  shows "slot_ok (now_nat tj) tj e l i"
proof (cases "l = 1")
  case False
  let ?s = "shift l"
  obtain c where c: "now_nat tj \<le> c" "c \<le> due_nat tj e" "l < 5 \<longrightarrow> c = due_nat tj e"
    "i = c div 2 ^ ?s mod 64" "in_window ?s p c" and r: "l \<in> {2..5}" "unat (e - tj) < 2 ^ 63"
    using assms(1) False by (auto simp: slot_ok_def)
  have "in_window ?s (now_nat tj) c"
  proof (cases "2 ^ ?s dvd now_nat tj")
    case True
    then have "now_nat tj div 2 ^ ?s = p div 2 ^ ?s + 1"
      using p by (metis Suc_eq_plus1 div_Suc dvd_imp_mod_0)
    moreover have "c div 2 ^ ?s \<noteq> now_nat tj div 2 ^ ?s" using assms(3) [OF False True] c(4) by metis
    moreover have "now_nat tj div 2 ^ ?s \<le> c div 2 ^ ?s" using c(1) by (rule div_le_mono)
    ultimately show ?thesis using c(5) by (simp add: in_window_def)
  next
    case ndvd: False
    then have "now_nat tj div 2 ^ ?s = p div 2 ^ ?s"
      using p by (metis div_Suc dvd_eq_mod_eq_0)
    then show ?thesis using c(5) by (simp add: in_window_def)
  qed
  then show ?thesis using c r False by (auto simp: slot_ok_def)
qed (use assms(1) in \<open>simp add: slot_ok_def\<close>)

lemma now_nat_step:
  obtains "now_nat (tj + 1) = Suc (now_nat tj)" | "Suc (now_nat tj) = now_nat (tj + 1) + 2 ^ 64"
proof -
  have "unat (tj + 1) = (unat tj + 1) mod 2 ^ 64" using unat_add_mod [of tj 1] by simp
  moreover have "unat tj < 2 ^ 64" by (rule unat_ulong_less)
  ultimately have "unat (tj + 1) = unat tj + 1 \<or> unat tj + 1 = unat (tj + 1) + 2 ^ 64"
    by (cases "unat tj + 1 = 2 ^ 64") simp_all
  then show ?thesis using that by (auto simp: now_nat_def)
qed

lemma in_window_turn:
  "s + 6 \<le> 64 \<Longrightarrow> in_window s (p + 2 ^ 64) (c + 2 ^ 64) = in_window s p c \<and>
     (c + 2 ^ 64) div 2 ^ s mod 64 = c div 2 ^ s mod 64"
proof -
  assume s: "s + 6 \<le> 64"
  have m: "(2 :: nat) ^ 64 = 2 ^ (64 - s) * 2 ^ s" using s by (simp flip: power_add)
  have d: "(x + 2 ^ 64) div 2 ^ s = x div 2 ^ s + 2 ^ (64 - s)" for x :: nat unfolding m by simp
  have "(2 :: nat) ^ (64 - s) = 2 ^ (58 - s) * 64"
    using s power_add [of "2 :: nat" "58 - s" 6] by simp
  then have "(x + 2 ^ (64 - s)) mod 64 = x mod (64 :: nat)" for x by simp
  then show ?thesis unfolding in_window_def d by auto
qed

text \<open>The same, when the counter moves on.\<close>

lemma slot_ok_tick:
  assumes ok: "slot_ok (now_nat tj) tj e l i" and i: "l = 1 \<Longrightarrow> i \<noteq> unat tj mod 256"
    and q: "Suc q = now_nat (tj + 1)"
  shows "slot_ok q (tj + 1) e l i"
proof -
  have pos: "unat (e - (tj + 1)) + 1 = unat (e - tj)" if "e \<noteq> tj"
  proof -
    have "e - tj \<noteq> 0" using that by simp
    then have "unat (e - tj - 1) = unat (e - tj) - 1" "unat (e - tj) \<noteq> 0"
      by (simp_all add: unat_minus_one unat_eq_zero)
    then show ?thesis by (simp add: algebra_simps)
  qed
  show ?thesis
  proof (cases "l = 1")
    case True
    then have d: "unat (e - tj) < 256" "i = unat e mod 256" using ok i by (auto simp: slot_ok_def)
    then have "e \<noteq> tj" using i True by auto
    then show ?thesis using pos d True by (simp add: slot_ok_def)
  next
    case False
    let ?s = "shift l"
    obtain c where c: "now_nat tj \<le> c" "c \<le> due_nat tj e" "l < 5 \<longrightarrow> c = due_nat tj e"
      "i = c div 2 ^ ?s mod 64" "in_window ?s (now_nat tj) c" and r: "l \<in> {2..5}" "unat (e - tj) < 2 ^ 63"
      using ok False by (auto simp: slot_ok_def)
    have lt: "now_nat tj < c" using c(5) unfolding in_window_def by (metis div_le_mono not_le)
    then have ne: "e \<noteq> tj" using c(2) by (auto simp: due_nat_def)
    have s: "?s + 6 \<le> 64" using r(1) by (auto simp: shift_def)
    show ?thesis
    proof (rule now_nat_step [of tj])
      assume n: "now_nat (tj + 1) = Suc (now_nat tj)"
      then have "due_nat (tj + 1) e = due_nat tj e" "q = now_nat tj" using pos [OF ne] q by (simp_all add: due_nat_def)
      then have "now_nat (tj + 1) \<le> c \<and> c \<le> due_nat (tj + 1) e \<and> (l < 5 \<longrightarrow> c = due_nat (tj + 1) e) \<and>
          i = c div 2 ^ ?s mod 64 \<and> in_window ?s q c"
        using c lt n by simp
      then show ?thesis using r pos [OF ne] False unfolding slot_ok_def by auto
    next
      assume n: "Suc (now_nat tj) = now_nat (tj + 1) + 2 ^ 64"
      have e: "due_nat tj e = due_nat (tj + 1) e + 2 ^ 64" "now_nat tj = q + 2 ^ 64"
        using pos [OF ne] n q by (simp_all add: due_nat_def)
      obtain c' where c': "c = c' + 2 ^ 64" using lt e(2) by (metis add.commute le_add1 le_iff_add order.strict_implies_order order.trans)
      have "now_nat (tj + 1) \<le> c' \<and> c' \<le> due_nat (tj + 1) e \<and> (l < 5 \<longrightarrow> c' = due_nat (tj + 1) e) \<and>
          i = c' div 2 ^ ?s mod 64 \<and> in_window ?s q c'"
        using c lt n in_window_turn [OF s, of q c'] unfolding e c' by auto
      then show ?thesis using r pos [OF ne] False unfolding slot_ok_def by auto
    qed
  qed
qed

end
