(* ===== verification/Timer_Wheel.thy ===== *)
theory Timer_Wheel
  imports Timer
begin

text \<open>
  The invariant of the timer wheels and what \<open>timer_mod\<close>, \<open>timer_del\<close> and \<open>timers_run\<close> do to it: where
  each pending timer is, that it fires in the jiffy in which it is due, and what
  \<open>timer_next_interrupt\<close> promises.
\<close>

section \<open>Lists by level and index\<close>

definition bucket :: "timer_base \<Rightarrow> nat \<Rightarrow> nat \<Rightarrow> tid list" where
  "bucket b l i = (if i < length (vec b l) then vec b l ! i else [])"

definition sizes_ok :: "timer_base \<Rightarrow> bool" where
  "sizes_ok b \<longleftrightarrow> (\<forall>l. length (vec b l) = size_of l)"

lemma sizes_ok_simps:
  "sizes_ok b \<longleftrightarrow> length (tv1 b) = 256 \<and> length (tv2 b) = 64 \<and> length (tv3 b) = 64 \<and>
     length (tv4 b) = 64 \<and> length (tv5 b) = 64"
proof
  assume s: "sizes_ok b"
  show "length (tv1 b) = 256 \<and> length (tv2 b) = 64 \<and> length (tv3 b) = 64 \<and> length (tv4 b) = 64 \<and> length (tv5 b) = 64"
    using s [unfolded sizes_ok_def, rule_format, of 1] s [unfolded sizes_ok_def, rule_format, of 2]
      s [unfolded sizes_ok_def, rule_format, of 3] s [unfolded sizes_ok_def, rule_format, of 4]
      s [unfolded sizes_ok_def, rule_format, of 5]
    by (simp add: vec_def size_of_def)
next
  assume "length (tv1 b) = 256 \<and> length (tv2 b) = 64 \<and> length (tv3 b) = 64 \<and> length (tv4 b) = 64 \<and> length (tv5 b) = 64"
  then show "sizes_ok b" by (auto simp: sizes_ok_def vec_def size_of_def)
qed

lemma vec_set_vec [simp]:
  "l \<in> {1..5} \<Longrightarrow> vec (set_vec l v b) m = (if m = l then v else vec b m)"
  by (auto simp: vec_def set_vec_def)

lemma set_vec_expires [simp]: "expires (set_vec l v b) = expires b"
  by (simp add: set_vec_def)

lemma size_of_level: "i < size_of l \<Longrightarrow> l \<in> {1..5}"
  by (auto simp: size_of_def split: if_splits)

lemma bucket_pos: "t \<in> set (bucket b l i) \<Longrightarrow> sizes_ok b \<Longrightarrow> i < size_of l"
  by (auto simp: bucket_def sizes_ok_def split: if_splits)

lemma bucket_set_vec:
  assumes "sizes_ok b" and "i < size_of l"
  shows "bucket (set_vec l ((vec b l)[i := xs]) b) m j = (if m = l \<and> j = i then xs else bucket b m j)"
    and "sizes_ok (set_vec l ((vec b l)[i := xs]) b)"
  using assms size_of_level [OF assms(2)] by (auto simp: bucket_def sizes_ok_def nth_list_update)

text \<open>Where a timer is: in a list of the wheels, or in the list of the timers that fire now.\<close>

lemma timer_pending_iff:
  "timer_pending t b \<longleftrightarrow> t \<in> set (work_list b) \<or> (\<exists>l i. t \<in> set (bucket b l i))"
proof -
  have "(\<exists>i. t \<in> set (bucket b l i)) \<longleftrightarrow> (\<exists>v \<in> set (vec b l). t \<in> set v)" for l
  proof
    assume "\<exists>i. t \<in> set (bucket b l i)"
    then obtain i where "t \<in> set (bucket b l i)" ..
    then show "\<exists>v \<in> set (vec b l). t \<in> set v" by (intro bexI [of _ "vec b l ! i"]) (auto simp: bucket_def split: if_splits)
  next
    assume "\<exists>v \<in> set (vec b l). t \<in> set v"
    then obtain v where "v \<in> set (vec b l)" "t \<in> set v" ..
    then obtain i where "i < length (vec b l)" "vec b l ! i = v" by (auto simp: in_set_conv_nth)
    then show "\<exists>i. t \<in> set (bucket b l i)" using \<open>t \<in> set v\<close> by (intro exI [of _ i]) (simp add: bucket_def)
  qed
  then have "(\<exists>l i. t \<in> set (bucket b l i)) \<longleftrightarrow> (\<exists>l. \<exists>v \<in> set (vec b l). t \<in> set v)" by blast
  also have "\<dots> \<longleftrightarrow> (\<exists>v \<in> set (tv1 b @ tv2 b @ tv3 b @ tv4 b @ tv5 b). t \<in> set v)" (is "?L \<longleftrightarrow> ?R")
  proof
    assume ?L
    then show ?R by (auto simp: vec_def split: if_splits)
  next
    assume ?R
    then obtain v where v: "t \<in> set v" and
      "v \<in> set (vec b 1) \<or> v \<in> set (vec b 2) \<or> v \<in> set (vec b 3) \<or> v \<in> set (vec b 4) \<or> v \<in> set (vec b 5)"
      by (auto simp: vec_def)
    then show ?L by blast
  qed
  finally show ?thesis by (auto simp: timer_pending_def)
qed

lemma bucket_internal_add:
  assumes "sizes_ok b" and "timer_slot (timer_jiffies b) (expires b t) = (l, i)"
  shows "bucket (internal_add_timer t b) m j = (if m = l \<and> j = i then bucket b l i @ [t] else bucket b m j)"
    and "sizes_ok (internal_add_timer t b)"
proof -
  have i: "i < size_of l" using timer_slot_ok(2) [OF assms(2)] by blast
  then have n: "vec b l ! i = bucket b l i" using assms(1) by (simp add: bucket_def sizes_ok_def)
  show "bucket (internal_add_timer t b) m j = (if m = l \<and> j = i then bucket b l i @ [t] else bucket b m j)"
    and "sizes_ok (internal_add_timer t b)"
    unfolding internal_add_timer_def assms(2) prod.case n
    using bucket_set_vec [OF assms(1) i, of "bucket b l i @ [t]"] by simp_all
qed

lemma internal_add_expires [simp]: "expires (internal_add_timer t b) = expires b"
  by (simp add: internal_add_timer_def split: prod.splits)

lemma vec_unlink: "vec (unlink t b) l = map (remove1 t) (vec b l)"
  by (simp add: vec_def unlink_def)

lemma bucket_unlink [simp]: "bucket (unlink t b) l i = remove1 t (bucket b l i)"
  by (simp add: bucket_def vec_unlink)

lemma unlink_simps [simp]:
  "sizes_ok (unlink t b) = sizes_ok b" "timer_jiffies (unlink t b) = timer_jiffies b"
  "expires (unlink t b) = expires b" "work_list (unlink t b) = remove1 t (work_list b)"
  by (simp_all add: sizes_ok_def vec_unlink) (simp_all add: unlink_def)

section \<open>The invariant\<close>

text \<open>
  \<open>wheel k b\<close>: the cascades of the current jiffy have been made in the levels below \<open>k\<close>. Between
  ticks \<open>k\<close> is 0.
\<close>

definition cascaded :: "nat \<Rightarrow> ulong \<Rightarrow> nat \<Rightarrow> nat" where
  "cascaded k tj l = (if l < k then now_nat tj else now_nat tj - 1)"

definition wheel :: "nat \<Rightarrow> timer_base \<Rightarrow> bool" where
  "wheel k b \<longleftrightarrow> sizes_ok b \<and>
     (\<forall>l i t. t \<in> set (bucket b l i) \<longrightarrow>
        slot_ok (cascaded k (timer_jiffies b) l) (timer_jiffies b) (expires b t) l i) \<and>
     (\<forall>l i t. t \<in> set (bucket b l i) \<longrightarrow> t \<notin> set (work_list b)) \<and>
     (\<forall>l i m j t. t \<in> set (bucket b l i) \<longrightarrow> t \<in> set (bucket b m j) \<longrightarrow> m = l \<and> j = i) \<and>
     (\<forall>l i. distinct (bucket b l i)) \<and> distinct (work_list b)"

lemma wheelD:
  assumes "wheel k b"
  shows "sizes_ok b" and "distinct (bucket b l i)" and "distinct (work_list b)"
    and "t \<in> set (bucket b l i) \<Longrightarrow> t \<notin> set (work_list b)"
    and "t \<in> set (bucket b l i) \<Longrightarrow> t \<in> set (bucket b m j) \<Longrightarrow> m = l \<and> j = i"
    and "t \<in> set (bucket b l i) \<Longrightarrow>
      slot_ok (cascaded k (timer_jiffies b) l) (timer_jiffies b) (expires b t) l i"
  using assms unfolding wheel_def by blast+

lemma wheelI:
  assumes "sizes_ok b" and "\<And>l i. distinct (bucket b l i)" and "distinct (work_list b)"
    and "\<And>l i t. t \<in> set (bucket b l i) \<Longrightarrow> t \<notin> set (work_list b)"
    and "\<And>l i m j t. t \<in> set (bucket b l i) \<Longrightarrow> t \<in> set (bucket b m j) \<Longrightarrow> m = l \<and> j = i"
    and "\<And>l i t. t \<in> set (bucket b l i) \<Longrightarrow>
      slot_ok (cascaded k (timer_jiffies b) l) (timer_jiffies b) (expires b t) l i"
  shows "wheel k b"
  using assms unfolding wheel_def by blast

lemma now_nat_pred: "Suc (now_nat tj - 1) = now_nat tj"
  by (simp add: now_nat_def)

lemma cascaded_cases: "cascaded k tj l = now_nat tj \<or> Suc (cascaded k tj l) = now_nat tj"
  using now_nat_pred [of tj] by (simp add: cascaded_def)

lemma wheel_unlink:
  assumes w: "wheel k b"
  shows "wheel k (unlink t b)" and "\<not> timer_pending t (unlink t b)"
proof -
  have sub: "u \<in> set (bucket b l i)" if "u \<in> set (bucket (unlink t b) l i)" for u l i
    using that set_remove1_subset [of t "bucket b l i"] by auto
  show "wheel k (unlink t b)"
  proof (rule wheelI)
    show "u \<notin> set (work_list (unlink t b))" if "u \<in> set (bucket (unlink t b) l i)" for l i u
      using wheelD(4) [OF w sub [OF that]] set_remove1_subset [of t "work_list b"] by auto
    show "m = l \<and> j = i" if "u \<in> set (bucket (unlink t b) l i)" "u \<in> set (bucket (unlink t b) m j)" for l i m j u
      by (rule wheelD(5) [OF w sub [OF that(1)] sub [OF that(2)]])
    show "slot_ok (cascaded k (timer_jiffies (unlink t b)) l) (timer_jiffies (unlink t b)) (expires (unlink t b) u) l i"
      if "u \<in> set (bucket (unlink t b) l i)" for l i u
      using wheelD(6) [OF w sub [OF that]] by simp
  qed (simp_all add: wheelD [OF w] distinct_remove1)
  show "\<not> timer_pending t (unlink t b)"
    using wheelD(2,3) [OF w] by (simp add: timer_pending_iff)
qed

lemma pending_unlink: "wheel k b \<Longrightarrow> timer_pending u (unlink t b) \<longleftrightarrow> u \<noteq> t \<and> timer_pending u b"
  using wheel_unlink(2) [of k b t] by (cases "u = t") (simp_all add: timer_pending_iff)

text \<open>Linking a timer that is in no list.\<close>

lemma wheel_add:
  assumes w: "wheel k b" and t: "\<not> timer_pending t b"
  shows "wheel k (internal_add_timer t b)"
    and "timer_pending u (internal_add_timer t b) \<longleftrightarrow> u = t \<or> timer_pending u b"
proof -
  obtain l i where s: "timer_slot (timer_jiffies b) (expires b t) = (l, i)" by fastforce
  note bk = bucket_internal_add [OF wheelD(1) [OF w] s]
  have ok: "slot_ok (cascaded k (timer_jiffies b) l) (timer_jiffies b) (expires b t) l i"
    by (rule timer_slot_ok(1) [OF s cascaded_cases])
  have no: "t \<notin> set (work_list b)" "t \<notin> set (bucket b m j)" for m j using t by (auto simp: timer_pending_iff)
  have cs: "(u = t \<and> m = l \<and> j = i) \<or> u \<in> set (bucket b m j) \<and> u \<noteq> t"
    if "u \<in> set (bucket (internal_add_timer t b) m j)" for u m j
    using that no unfolding bk(1) by (auto split: if_splits)
  show "wheel k (internal_add_timer t b)"
  proof (rule wheelI)
    show "distinct (bucket (internal_add_timer t b) m j)" for m j
      using wheelD(2) [OF w] no by (simp add: bk(1))
    show "u \<notin> set (work_list (internal_add_timer t b))" if "u \<in> set (bucket (internal_add_timer t b) m j)" for m j u
      using cs [OF that] no wheelD(4) [OF w] by auto
    show "m' = m \<and> j' = j" if "u \<in> set (bucket (internal_add_timer t b) m j)"
      "u \<in> set (bucket (internal_add_timer t b) m' j')" for m j m' j' u
      using cs [OF that(1)] cs [OF that(2)] wheelD(5) [OF w] by blast
    show "slot_ok (cascaded k (timer_jiffies (internal_add_timer t b)) m) (timer_jiffies (internal_add_timer t b))
        (expires (internal_add_timer t b) u) m j"
      if "u \<in> set (bucket (internal_add_timer t b) m j)" for m j u
      using cs [OF that] ok wheelD(6) [OF w] by auto
  qed (simp_all add: bk(2) wheelD(3) [OF w])
  show "timer_pending u (internal_add_timer t b) \<longleftrightarrow> u = t \<or> timer_pending u b"
    unfolding timer_pending_iff bk(1) by auto
qed

lemma vec_frame [simp]:
  "vec (b\<lparr>expires := x\<rparr>) l = vec b l" "vec (b\<lparr>work_list := w\<rparr>) l = vec b l" "vec (b\<lparr>timer_jiffies := j\<rparr>) l = vec b l"
  by (simp_all add: vec_def)

lemma bucket_frame [simp]:
  "bucket (b\<lparr>expires := x\<rparr>) l = bucket b l" "bucket (b\<lparr>work_list := w\<rparr>) l = bucket b l"
  "bucket (b\<lparr>timer_jiffies := j\<rparr>) l = bucket b l"
  "sizes_ok (b\<lparr>expires := x\<rparr>) = sizes_ok b" "sizes_ok (b\<lparr>work_list := w\<rparr>) = sizes_ok b"
  "sizes_ok (b\<lparr>timer_jiffies := j\<rparr>) = sizes_ok b"
  by (simp_all add: bucket_def sizes_ok_def fun_eq_iff)

lemma pending_expires [simp]: "timer_pending u (b\<lparr>expires := x\<rparr>) = timer_pending u b"
  by (simp add: timer_pending_iff)

lemma wheel_expires:
  assumes w: "wheel k b" and "\<not> timer_pending t b"
  shows "wheel k (b\<lparr>expires := (expires b)(t := e)\<rparr>)"
proof -
  have no: "u \<noteq> t" if "u \<in> set (bucket b l i)" for u l i using assms(2) that by (auto simp: timer_pending_iff)
  let ?b = "b\<lparr>expires := (expires b)(t := e)\<rparr>"
  show ?thesis
  proof (rule wheelI)
    show "u \<notin> set (work_list ?b)" if "u \<in> set (bucket ?b l i)" for l i u
      using wheelD(4) [OF w, of u l i] that by simp
    show "m = l \<and> j = i" if "u \<in> set (bucket ?b l i)" "u \<in> set (bucket ?b m j)" for l i m j u
      using wheelD(5) [OF w, of u l i m j] that by simp
    show "slot_ok (cascaded k (timer_jiffies ?b) l) (timer_jiffies ?b) (expires ?b u) l i"
      if "u \<in> set (bucket ?b l i)" for l i u
      using wheelD(6) [OF w, of u l i] no [of u l i] that by simp
  qed (simp_all add: wheelD(1,2,3) [OF w])
qed

text \<open>\<open>timer_mod\<close> and \<open>timer_del\<close>.\<close>

lemma wheel_del:
  assumes "wheel k b"
  shows "wheel k (timer_del t b)" and "timer_pending u (timer_del t b) \<longleftrightarrow> u \<noteq> t \<and> timer_pending u b"
    and "expires (timer_del t b) = expires b"
proof -
  show "wheel k (timer_del t b)" using assms wheel_unlink(1) [OF assms, of t] by (simp add: timer_del_def)
  show "timer_pending u (timer_del t b) \<longleftrightarrow> u \<noteq> t \<and> timer_pending u b"
  proof (cases "timer_pending t b")
    case True
    then have "timer_del t b = unlink t b" by (simp add: timer_del_def)
    then show ?thesis using pending_unlink [OF assms, of u t] by (simp only:)
  next
    case False
    then have "timer_del t b = b" by (simp add: timer_del_def)
    then show ?thesis using False by metis
  qed
  show "expires (timer_del t b) = expires b" by (simp add: timer_del_def)
qed

lemma wheel_mod:
  assumes w: "wheel k b"
  shows "wheel k (timer_mod t e b)" and "timer_pending u (timer_mod t e b) \<longleftrightarrow> u = t \<or> timer_pending u b"
    and "expires (timer_mod t e b) = (expires b)(t := e)"
proof -
  let ?b = "if timer_pending t b then timer_del t b else b"
  have "?b = timer_del t b" by (simp add: timer_del_def)
  then have b: "wheel k ?b" "timer_pending u ?b \<longleftrightarrow> u \<noteq> t \<and> timer_pending u b" "expires ?b = expires b" for u
    by (simp_all only: wheel_del [OF w])
  then have n: "\<not> timer_pending t (?b\<lparr>expires := (expires ?b)(t := e)\<rparr>)" by simp
  have "wheel k (?b\<lparr>expires := (expires ?b)(t := e)\<rparr>)"
    by (rule wheel_expires [OF b(1)]) (simp only: b(2) simp_thms)
  note a = wheel_add [OF this n]
  show "wheel k (timer_mod t e b)" using a(1) by (simp add: timer_mod_def Let_def)
  show "timer_pending u (timer_mod t e b) \<longleftrightarrow> u = t \<or> timer_pending u b"
    using a(2) [of u] b(2) [of u] by (auto simp: timer_mod_def Let_def)
  show "expires (timer_mod t e b) = (expires b)(t := e)" by (simp add: timer_mod_def Let_def b(3))
qed


lemma wheel_exec:
  "wheel k b \<Longrightarrow> wheel k (timer_exec c b)"
  by (cases c) (simp_all add: wheel_mod(1) wheel_del(1))

lemma wheel_exec_fold: "wheel k b \<Longrightarrow> wheel k (fold timer_exec cs b)"
  by (induction cs arbitrary: b) (simp_all add: wheel_exec)

lemma init_wheel: "wheel 0 (init_timer_base j)" "\<not> timer_pending t (init_timer_base j)"
proof -
  have e: "bucket (init_timer_base j) l i = []" for l i
    by (simp add: bucket_def vec_def init_timer_base_def)
  have s: "sizes_ok (init_timer_base j)"
    by (simp add: sizes_ok_simps init_timer_base_def TVR_SIZE_def TVN_SIZE_def TVR_BITS_def TVN_BITS_def)
  have w: "work_list (init_timer_base j) = []" by (simp add: init_timer_base_def)
  show "wheel 0 (init_timer_base j)" by (rule wheelI) (simp_all add: e s w)
  show "\<not> timer_pending t (init_timer_base j)" by (simp add: timer_pending_iff e w)
qed

section \<open>Cascades\<close>

text \<open>Linking all timers of a list that was taken out.\<close>

lemma wheel_add_all:
  "wheel k b \<Longrightarrow> distinct ts \<Longrightarrow> \<forall>t \<in> set ts. \<not> timer_pending t b \<Longrightarrow>
     wheel k (fold internal_add_timer ts b) \<and> expires (fold internal_add_timer ts b) = expires b \<and>
     work_list (fold internal_add_timer ts b) = work_list b \<and>
     (\<forall>u. timer_pending u (fold internal_add_timer ts b) \<longleftrightarrow> u \<in> set ts \<or> timer_pending u b)"
proof (induction ts arbitrary: b)
  case (Cons t ts)
  let ?b = "internal_add_timer t b"
  have t: "\<not> timer_pending t b" using Cons.prems(3) by simp
  have w: "wheel k ?b" and p: "timer_pending u ?b \<longleftrightarrow> u = t \<or> timer_pending u b" for u
    by (rule wheel_add [OF Cons.prems(1) t])+
  have "\<forall>u \<in> set ts. \<not> timer_pending u ?b" using Cons.prems(2,3) p by auto
  from Cons.IH [OF w _ this] show ?case using Cons.prems(2) p by auto
qed simp

lemma cascade_spec:
  assumes w: "wheel l b" and l: "l \<in> {2..5}" and dvd: "2 ^ shift l dvd now_nat (timer_jiffies b)"
    and i: "i = now_nat (timer_jiffies b) div 2 ^ shift l mod 64"
  shows "wheel (Suc l) (fst (cascade l i b))" and "expires (fst (cascade l i b)) = expires b"
    and "work_list (fst (cascade l i b)) = work_list b" and "snd (cascade l i b) = i"
    and "timer_pending u (fst (cascade l i b)) \<longleftrightarrow> timer_pending u b"
proof -
  note d = wheelD [OF w]
  have il: "i < size_of l" using l by (auto simp: i size_of_def)
  let ?ts = "bucket b l i" and ?b = "set_vec l ((vec b l)[i := []]) b"
  have v: "vec b l ! i = ?ts" using il d(1) by (simp add: bucket_def sizes_ok_def)
  have bk: "bucket ?b m j = (if m = l \<and> j = i then [] else bucket b m j)" for m j
    by (rule bucket_set_vec(1) [OF d(1) il])
  have sub: "u \<in> set (bucket b m j)" "\<not> (m = l \<and> j = i)" if "u \<in> set (bucket ?b m j)" for u m j
    using that unfolding bk by (auto split: if_splits)
  have wb: "wheel (Suc l) ?b"
  proof (rule wheelI)
    show "sizes_ok ?b" by (rule bucket_set_vec(2) [OF d(1) il])
    show "distinct (bucket ?b m j)" for m j using d(2) by (simp add: bk)
    show "distinct (work_list ?b)" using d(3) by simp
    show "u \<notin> set (work_list ?b)" if "u \<in> set (bucket ?b m j)" for m j u
      using d(4) [OF sub(1) [OF that]] by simp
    show "m' = m \<and> j' = j" if "u \<in> set (bucket ?b m j)" "u \<in> set (bucket ?b m' j')" for m j m' j' u
      by (rule d(5) [OF sub(1) [OF that(1)] sub(1) [OF that(2)]])
    show "slot_ok (cascaded (Suc l) (timer_jiffies ?b) m) (timer_jiffies ?b) (expires ?b u) m j"
      if u: "u \<in> set (bucket ?b m j)" for m j u
    proof -
      have ok: "slot_ok (cascaded l (timer_jiffies b) m) (timer_jiffies b) (expires b u) m j"
        by (rule d(6) [OF sub(1) [OF u]])
      show ?thesis
      proof (cases "m = l")
        case True
        have "slot_ok (now_nat (timer_jiffies b)) (timer_jiffies b) (expires b u) m j"
        proof (rule slot_ok_cascaded)
          show "slot_ok (now_nat (timer_jiffies b) - 1) (timer_jiffies b) (expires b u) m j"
            using ok True by (simp add: cascaded_def)
          show "j \<noteq> now_nat (timer_jiffies b) div 2 ^ shift m mod 64" using sub(2) [OF u] True i by simp
        qed (rule now_nat_pred)
        then show ?thesis using True by (simp add: cascaded_def)
      next
        case False
        then show ?thesis using ok by (simp add: cascaded_def less_Suc_eq)
      qed
    qed
  qed
  have no: "\<forall>t \<in> set ?ts. \<not> timer_pending t ?b"
  proof
    fix t assume t: "t \<in> set ?ts"
    have "t \<notin> set (bucket ?b m j)" for m j
    proof
      assume "t \<in> set (bucket ?b m j)"
      from d(5) [OF t sub(1) [OF this]] sub(2) [OF this] show False by blast
    qed
    then show "\<not> timer_pending t ?b" using d(4) [OF t] by (simp add: timer_pending_iff)
  qed
  have all: "wheel (Suc l) (fold internal_add_timer ?ts ?b)" "expires (fold internal_add_timer ?ts ?b) = expires ?b"
    "work_list (fold internal_add_timer ?ts ?b) = work_list ?b"
    "timer_pending u (fold internal_add_timer ?ts ?b) \<longleftrightarrow> u \<in> set ?ts \<or> timer_pending u ?b" for u
    using wheel_add_all [OF wb d(2) no] by blast+
  have c: "cascade l i b = (fold internal_add_timer ?ts ?b, i)" by (simp add: cascade_def v)
  show "wheel (Suc l) (fst (cascade l i b))" "expires (fst (cascade l i b)) = expires b"
    "work_list (fst (cascade l i b)) = work_list b" "snd (cascade l i b) = i"
    unfolding c using all(1,2,3) by simp_all
  show "timer_pending u (fst (cascade l i b)) \<longleftrightarrow> timer_pending u b"
    unfolding c fst_conv all(4) by (auto simp: timer_pending_iff bk)
qed

text \<open>A level whose lists do not begin now needs no cascade.\<close>

lemma wheel_skip:
  assumes w: "wheel k b" and "2 \<le> k" and ndvd: "\<not> 2 ^ shift k dvd now_nat (timer_jiffies b)"
  shows "wheel 6 b"
proof (rule wheelI)
  fix l i t assume t: "t \<in> set (bucket b l i)"
  let ?j = "timer_jiffies b"
  have ok: "slot_ok (cascaded k ?j l) ?j (expires b t) l i" by (rule wheelD(6) [OF w t])
  show "slot_ok (cascaded 6 ?j l) ?j (expires b t) l i"
  proof (cases "l < k")
    case True
    then have "l < 6" using ok by (auto simp: slot_ok_def split: if_splits)
    then show ?thesis using ok True by (simp add: cascaded_def)
  next
    case False
    then have "(2 :: nat) ^ shift k dvd 2 ^ shift l" using assms(2) by (intro le_imp_power_dvd) (simp add: shift_def)
    then have "\<not> 2 ^ shift l dvd now_nat ?j" using ndvd dvd_trans by blast
    then have "slot_ok (now_nat ?j) ?j (expires b t) l i"
      using slot_ok_cascaded [OF _ now_nat_pred] ok False by (auto simp: cascaded_def)
    moreover have "l < 6" using ok False assms(2) by (auto simp: slot_ok_def split: if_splits)
    ultimately show ?thesis by (simp add: cascaded_def)
  qed
qed (use wheelD [OF w] in blast)+

lemma INDEX_nat: "n \<le> 3 \<Longrightarrow> INDEX b n = now_nat (timer_jiffies b) div 2 ^ shift (n + 2) mod 64"
proof -
  assume n: "n \<le> 3"
  have "unat (timer_jiffies b) = now_nat (timer_jiffies b) mod 2 ^ 64" by (simp add: now_nat_def unat_ulong_less [simplified])
  then show ?thesis
    using div_mod_low [of "8 + n * 6"] n
    by (simp add: INDEX_def unat_and_mask unat_drop_bit TVR_BITS_def TVN_BITS_def shift_def mult.commute)
qed

lemma dvd_next:
  "2 ^ shift l dvd t \<Longrightarrow> 2 \<le> l \<Longrightarrow> t div 2 ^ shift l mod 64 = 0 \<longleftrightarrow> 2 ^ shift (Suc l) dvd (t :: nat)"
proof -
  assume d: "2 ^ shift l dvd t" and l: "2 \<le> l"
  have "(2 :: nat) ^ shift (Suc l) = 2 ^ shift l * 64"
  proof -
    have "shift (Suc l) = shift l + 6" using l by (simp add: shift_def)
    then show ?thesis by (simp add: power_add)
  qed
  then show ?thesis using d by (metis dvd_div_mult_self dvd_eq_mod_eq_0 dvd_times_left_cancel_iff mult.commute power_not_zero zero_neq_numeral)
qed


lemma wheel_start: "wheel 0 b \<Longrightarrow> wheel 2 b"
proof (rule wheelI)
  fix l i t assume w: "wheel 0 b" and t: "t \<in> set (bucket b l i)"
  have "slot_ok (cascaded 0 (timer_jiffies b) l) (timer_jiffies b) (expires b t) l i" by (rule wheelD(6) [OF w t])
  then show "slot_ok (cascaded 2 (timer_jiffies b) l) (timer_jiffies b) (expires b t) l i"
    by (cases "l = 1") (auto simp: slot_ok_def cascaded_def split: if_splits)
qed (use wheelD in blast)+

definition cascade_post :: "timer_base \<Rightarrow> timer_base \<Rightarrow> bool" where
  "cascade_post b b' \<longleftrightarrow> expires b' = expires b \<and> work_list b' = work_list b \<and>
     timer_jiffies b' = timer_jiffies b \<and> (\<forall>u. timer_pending u b' \<longleftrightarrow> timer_pending u b)"

lemma cascade_post_refl [simp]: "cascade_post b b"
  by (simp add: cascade_post_def)

lemma cascade_post_trans: "cascade_post b b1 \<Longrightarrow> cascade_post b1 b2 \<Longrightarrow> cascade_post b b2"
  by (simp add: cascade_post_def)

text \<open>One of the nested conditions of \<open>timers_run\<close>: either the next level begins a list too, or
  nothing is left to do.\<close>

lemma cascade_step:
  assumes w: "wheel k b" and n: "n \<le> 3" and dvd: "2 ^ shift k dvd now_nat (timer_jiffies b)"
    and k: "k = n + 2" and k': "k' = Suc k"
  obtains b' i where "cascade k (INDEX b n) b = (b', i)" "wheel k' b'" "cascade_post b b'"
    "i \<noteq> 0 \<Longrightarrow> wheel 6 b'" "i = 0 \<Longrightarrow> 2 ^ shift k' dvd now_nat (timer_jiffies b')"
proof -
  let ?c = "cascade k (INDEX b n) b"
  have i: "INDEX b n = now_nat (timer_jiffies b) div 2 ^ shift k mod 64" unfolding k by (rule INDEX_nat [OF n])
  have l: "k \<in> {2..5}" using n k by simp
  note c = cascade_spec [OF w l dvd i]
  have post: "cascade_post b (fst ?c)" using c by (simp add: cascade_post_def)
  have w3: "wheel k' (fst ?c)" using c(1) k' by simp
  have z: "INDEX b n = 0 \<longleftrightarrow> 2 ^ shift k' dvd now_nat (timer_jiffies b)"
    using dvd_next [OF dvd] i k k' by simp
  show ?thesis
  proof (rule that [OF _ w3 post])
    show "?c = (fst ?c, INDEX b n)" using c(4) by (simp add: prod_eq_iff)
    show "INDEX b n \<noteq> 0 \<Longrightarrow> wheel 6 (fst ?c)"
      using z k k' by (intro wheel_skip [OF w3]) simp_all
    show "INDEX b n = 0 \<Longrightarrow> 2 ^ shift k' dvd now_nat (timer_jiffies (fst ?c))" using z by simp
  qed
qed

lemma cascade_timers_spec:
  assumes w: "wheel 0 b" and i: "i = unat (timer_jiffies b) mod 256"
  shows "wheel 6 (cascade_timers i b) \<and> cascade_post b (cascade_timers i b)"
proof (cases "i = 0")
  case False
  have "\<not> 256 dvd unat (timer_jiffies b)" using False i by (simp add: dvd_eq_mod_eq_0)
  then have "\<not> 2 ^ shift 2 dvd now_nat (timer_jiffies b)"
    by (simp add: now_nat_def shift_def dvd_add_left_iff)
  from wheel_skip [OF wheel_start [OF w] _ this] show ?thesis using False by (simp add: cascade_timers_def)
next
  case True
  have "256 dvd unat (timer_jiffies b)" using True i by (simp add: dvd_eq_mod_eq_0)
  then have d2: "2 ^ shift 2 dvd now_nat (timer_jiffies b)" by (simp add: now_nat_def shift_def)
  obtain b2 i2 where c2: "cascade 2 (INDEX b 0) b = (b2, i2)" "wheel 3 b2" "cascade_post b b2"
    "i2 \<noteq> 0 \<Longrightarrow> wheel 6 b2" "i2 = 0 \<Longrightarrow> 2 ^ shift 3 dvd now_nat (timer_jiffies b2)"
    by (rule cascade_step [OF wheel_start [OF w] _ d2, of 0 3]) auto
  show ?thesis
  proof (cases "i2 = 0")
    case False
    then show ?thesis using True c2 by (simp add: cascade_timers_def)
  next
    case z2: True
    obtain b3 i3 where c3: "cascade 3 (INDEX b2 1) b2 = (b3, i3)" "wheel 4 b3" "cascade_post b2 b3"
      "i3 \<noteq> 0 \<Longrightarrow> wheel 6 b3" "i3 = 0 \<Longrightarrow> 2 ^ shift 4 dvd now_nat (timer_jiffies b3)"
      by (rule cascade_step [OF c2(2) _ c2(5) [OF z2], of 1 4]) auto
    note p3 = cascade_post_trans [OF c2(3) c3(3)]
    show ?thesis
    proof (cases "i3 = 0")
      case False
      then show ?thesis using True z2 c2(1) c3 p3 by (simp add: cascade_timers_def)
    next
      case z3: True
      obtain b4 i4 where c4: "cascade 4 (INDEX b3 2) b3 = (b4, i4)" "wheel 5 b4" "cascade_post b3 b4"
        "i4 \<noteq> 0 \<Longrightarrow> wheel 6 b4" "i4 = 0 \<Longrightarrow> 2 ^ shift 5 dvd now_nat (timer_jiffies b4)"
        by (rule cascade_step [OF c3(2) _ c3(5) [OF z3], of 2 5]) auto
      note p4 = cascade_post_trans [OF p3 c4(3)]
      show ?thesis
      proof (cases "i4 = 0")
        case False
        then show ?thesis using True z2 z3 c2(1) c3(1) c4 p4 by (simp add: cascade_timers_def)
      next
        case z4: True
        obtain b5 i5 where c5: "cascade 5 (INDEX b4 3) b4 = (b5, i5)" "wheel 6 b5" "cascade_post b4 b5"
          by (rule cascade_step [OF c4(2) _ c4(5) [OF z4], of 3 6]) auto
        note p5 = cascade_post_trans [OF p4 c5(3)]
        show ?thesis using True z2 z3 z4 c2(1) c3(1) c4(1) c5 p5 by (simp add: cascade_timers_def)
      qed
    qed
  qed
qed

text \<open>
  The state in which the callbacks of a tick begin: the counter has moved on, and the timers that
  fire are those that are due in the jiffy \<open>tj\<close> of the tick or before it.
\<close>

definition tick_start :: "timer_base \<Rightarrow> timer_base" where
  "tick_start b =
     (let index = unat (timer_jiffies b AND TVR_MASK);
          b = cascade_timers index b;
          b = b\<lparr>timer_jiffies := timer_jiffies b + 1\<rparr>
      in b\<lparr>work_list := tv1 b ! index, tv1 := (tv1 b)[index := []]\<rparr>)"

lemma timers_tick_start: "timers_tick cb n b u = run_work_list cb n (tick_start b) u"
  by (simp add: timers_tick_def tick_start_def Let_def)

definition is_due :: "ulong \<Rightarrow> ulong \<Rightarrow> bool" where
  "is_due tj e \<longleftrightarrow> e - tj \<le>s 0"

lemma is_due_unat: "is_due tj e \<longleftrightarrow> unat (e - tj) = 0 \<or> 2 ^ 63 \<le> unat (e - tj)"
proof -
  have "e - tj \<le>s 0 \<longleftrightarrow> e - tj = 0 \<or> e - tj <s 0" by (auto simp: word_sless_eq)
  then show ?thesis by (simp add: is_due_def slt_0_iff unat_eq_zero)
qed

lemma slot_due:
  assumes ok: "slot_ok (now_nat tj) tj e l i"
  shows "l = 1 \<and> i = unat tj mod 256 \<longleftrightarrow> is_due tj e"
proof
  assume l: "l = 1 \<and> i = unat tj mod 256"
  have "unat (e - tj) = 0" if d: "unat (e - tj) < 256" and i: "i = unat e mod 256"
  proof -
    have "unat e mod 256 = due_nat tj e mod 256" unfolding unat_due [of e tj] by (rule mod_mod_low)
    moreover have "due_nat tj e mod 256 = (unat tj + unat (e - tj)) mod 256"
    proof -
      have "due_nat tj e = (unat tj + unat (e - tj)) + 2 ^ 56 * 256" by (simp add: due_nat_def now_nat_def)
      then show ?thesis by (simp only: mod_mult_self1)
    qed
    ultimately have "(unat tj + unat (e - tj)) mod 256 = unat tj mod 256" using l i by simp
    then have "256 dvd unat (e - tj)" by (simp add: mod_eq_dvd_iff_nat)
    then show ?thesis using d by (meson dvd_imp_le not_le gr0I)
  qed
  then show "is_due tj e" using ok l by (auto simp: slot_ok_def is_due_unat)
next
  assume due: "is_due tj e"
  have "l = 1"
  proof (rule ccontr)
    assume "l \<noteq> 1"
    then obtain c where c: "c \<le> due_nat tj e" "in_window (shift l) (now_nat tj) c" and d: "unat (e - tj) < 2 ^ 63"
      using ok by (auto simp: slot_ok_def)
    have "due_nat tj e = now_nat tj" using due d by (simp add: due_nat_def is_due_unat)
    then show False using c div_le_mono [of c "now_nat tj" "2 ^ shift l"] by (simp add: in_window_def)
  qed
  moreover have "e = tj" if "unat (e - tj) = 0" using that by (simp add: unat_eq_zero)
  ultimately show "l = 1 \<and> i = unat tj mod 256" using ok due by (auto simp: slot_ok_def is_due_unat)
qed

lemma tick_start_spec:
  assumes w: "wheel 0 b" and e: "work_list b = []"
  shows "wheel 0 (tick_start b)" and "expires (tick_start b) = expires b"
    and "timer_jiffies (tick_start b) = timer_jiffies b + 1"
    and "set (work_list (tick_start b)) = {t. timer_pending t b \<and> is_due (timer_jiffies b) (expires b t)}"
    and "timer_pending t (tick_start b) \<longleftrightarrow> timer_pending t b"
proof -
  let ?tj = "timer_jiffies b" and ?i = "unat (timer_jiffies b) mod 256"
  define b1 where "b1 = cascade_timers ?i b"
  have w1: "wheel 6 b1" and post: "cascade_post b b1" using cascade_timers_spec [OF w refl] by (simp_all add: b1_def)
  have p1: "expires b1 = expires b" "work_list b1 = []" "timer_jiffies b1 = ?tj" "timer_pending u b1 \<longleftrightarrow> timer_pending u b" for u
    using post e by (simp_all add: cascade_post_def)
  note d = wheelD [OF w1]
  have len: "length (tv1 b1) = 256" using d(1) by (simp add: sizes_ok_simps)
  have st: "tick_start b = b1\<lparr>timer_jiffies := ?tj + 1, work_list := tv1 b1 ! ?i, tv1 := (tv1 b1)[?i := []]\<rparr>"
    by (simp add: tick_start_def unat_and_mask b1_def Let_def)
  have b1i: "bucket b1 1 ?i = tv1 b1 ! ?i" by (simp add: bucket_def vec_def len)
  have bk: "bucket (tick_start b) l j = (if l = 1 \<and> j = ?i then [] else bucket b1 l j)" for l j
    unfolding st by (auto simp: bucket_def vec_def nth_list_update)
  have wl: "work_list (tick_start b) = bucket b1 1 ?i" unfolding b1i by (simp add: st)
  have sub: "t \<in> set (bucket b1 l j)" "\<not> (l = 1 \<and> j = ?i)" if "t \<in> set (bucket (tick_start b) l j)" for t l j
    using that unfolding bk by (auto split: if_splits)
  have okp: "slot_ok (now_nat ?tj) ?tj (expires b t) l j" if t: "t \<in> set (bucket b1 l j)" for t l j
  proof -
    have ok: "slot_ok (cascaded 6 ?tj l) ?tj (expires b t) l j" using d(6) [OF t] p1 by simp
    then have "l < 6" by (auto simp: slot_ok_def split: if_splits)
    then show ?thesis using ok by (simp add: cascaded_def)
  qed
  show ex: "expires (tick_start b) = expires b" by (simp add: st p1)
  show tj: "timer_jiffies (tick_start b) = ?tj + 1" by (simp add: st)
  show "wheel 0 (tick_start b)"
  proof (rule wheelI)
    show "sizes_ok (tick_start b)" using d(1) by (simp add: st sizes_ok_simps)
    show "distinct (bucket (tick_start b) l j)" for l j by (simp add: bk d(2))
    show "distinct (work_list (tick_start b))" by (simp add: wl d(2))
    show "t \<notin> set (work_list (tick_start b))" if t: "t \<in> set (bucket (tick_start b) l j)" for l j t
      using d(5) [OF sub(1) [OF t], of 1 ?i] sub(2) [OF t] unfolding wl by blast
    show "m = l \<and> j' = j" if "t \<in> set (bucket (tick_start b) l j)" "t \<in> set (bucket (tick_start b) m j')" for l j m j' t
      by (rule d(5) [OF sub(1) [OF that(1)] sub(1) [OF that(2)]])
    show "slot_ok (cascaded 0 (timer_jiffies (tick_start b)) l) (timer_jiffies (tick_start b)) (expires (tick_start b) t) l j"
      if t: "t \<in> set (bucket (tick_start b) l j)" for l j t
      unfolding tj ex cascaded_def
      using slot_ok_tick [OF okp [OF sub(1) [OF t]] _ now_nat_pred] sub(2) [OF t] by auto
  qed
  show pend: "timer_pending t (tick_start b) \<longleftrightarrow> timer_pending t b" for t
  proof -
    have "timer_pending t (tick_start b) \<longleftrightarrow> (\<exists>l j. t \<in> set (bucket b1 l j))"
    proof
      assume "timer_pending t (tick_start b)"
      then show "\<exists>l j. t \<in> set (bucket b1 l j)" unfolding timer_pending_iff wl using sub(1) by blast
    next
      assume "\<exists>l j. t \<in> set (bucket b1 l j)"
      then obtain l j where t: "t \<in> set (bucket b1 l j)" by blast
      then have "t \<in> set (bucket b1 1 ?i) \<or> t \<in> set (bucket (tick_start b) l j)" by (cases "l = 1 \<and> j = ?i") (auto simp: bk)
      then show "timer_pending t (tick_start b)" unfolding timer_pending_iff wl by blast
    qed
    also have "\<dots> \<longleftrightarrow> timer_pending t b" using p1(4) [of t] p1(2) by (simp add: timer_pending_iff)
    finally show ?thesis .
  qed
  show "set (work_list (tick_start b)) = {t. timer_pending t b \<and> is_due ?tj (expires b t)}"
  proof (rule Set.set_eqI)
    fix t
    have "t \<in> set (bucket b1 1 ?i) \<longleftrightarrow> timer_pending t b1 \<and> is_due ?tj (expires b t)"
    proof
      assume t: "t \<in> set (bucket b1 1 ?i)"
      then show "timer_pending t b1 \<and> is_due ?tj (expires b t)"
        using slot_due [OF okp [OF t]] by (auto simp: timer_pending_iff)
    next
      assume a: "timer_pending t b1 \<and> is_due ?tj (expires b t)"
      then obtain l j where t: "t \<in> set (bucket b1 l j)" by (auto simp: timer_pending_iff p1(2))
      then show "t \<in> set (bucket b1 1 ?i)" using slot_due [OF okp [OF t]] a by blast
    qed
    then show "t \<in> set (work_list (tick_start b)) \<longleftrightarrow> t \<in> {t. timer_pending t b \<and> is_due ?tj (expires b t)}"
      by (simp add: wl p1(4))
  qed
qed


section \<open>Running the timers\<close>

text \<open>Between two calls the list \<open>work_list\<close> does not exist.\<close>

definition wheel_wf :: "timer_base \<Rightarrow> bool" where
  "wheel_wf b \<longleftrightarrow> wheel 0 b \<and> work_list b = []"

text \<open>
  A callback that also writes down, per call, the jiffy of the tick (\<open>timer_jiffies\<close> has moved on
  already), the timer and the time it was set to.
\<close>

type_synonym timer_event = "ulong \<times> tid \<times> ulong"

definition event_of :: "timer_base \<Rightarrow> tid \<Rightarrow> timer_event" where
  "event_of b t = (timer_jiffies b - 1, t, expires b t)"

definition log_cb :: "'u timer_cb \<Rightarrow> ('u \<times> timer_event list) timer_cb" where
  "log_cb cb t b = (\<lambda>(u, log). case cb t b u of (u, cmds) \<Rightarrow> ((u, log @ [event_of b t]), cmds))"

lemma timers_run_loop_rule:
  assumes "J n b u"
    and step: "\<And>n b u n' b' u'. J n b u \<Longrightarrow> time_after_eq j (timer_jiffies b) \<Longrightarrow>
      timers_tick cb n b u = (n', b', u') \<Longrightarrow> J n' b' u'"
    and "timers_run_loop cb j n b u = (n', b', u')"
  shows "J n' b' u' \<and> \<not> time_after_eq j (timer_jiffies b')"
  using assms(1,3)
proof (induction "unat (j - timer_jiffies b + 1)" arbitrary: n b u rule: less_induct)
  case less
  show ?case
  proof (cases "time_after_eq j (timer_jiffies b)")
    case False
    then show ?thesis using less.prems by (simp add: timers_run_loop.simps [of cb j n b u])
  next
    case True
    obtain n1 b1 u1 where t: "timers_tick cb n b u = (n1, b1, u1)" by (metis prod.collapse)
    have tj: "timer_jiffies b1 = timer_jiffies b + 1" using jiffies_tick [of cb n b u] t by simp
    have "unat (j - timer_jiffies b) < 2 ^ 63" using True by (simp add: time_after_eq_unat)
    then have "unat (j - timer_jiffies b + 1) = unat (j - timer_jiffies b) + 1"
      using unat_add_ulong [of "j - timer_jiffies b" 1] by simp
    then have "unat (j - timer_jiffies b1 + 1) < unat (j - timer_jiffies b + 1)" by (simp add: tj)
    then show ?thesis
      using less.hyps [OF _ step [OF less.prems(1) True t]] less.prems(2) t True
      by (simp add: timers_run_loop.simps [of cb j n b u])
  qed
qed

lemma exec_work:
  assumes "wheel k b"
  shows "set (work_list (timer_exec c b)) \<subseteq> set (work_list b) \<and>
    (\<forall>t \<in> set (work_list (timer_exec c b)). expires (timer_exec c b) t = expires b t)"
proof (cases c)
  case (TDel t)
  then show ?thesis using set_remove1_subset [of t "work_list b"] wheel_del(3) [OF assms, of t]
    by (auto simp: timer_del_def)
next
  case (TMod t e)
  have "work_list (timer_mod t e b) = work_list (timer_del t b)"
    by (simp add: timer_mod_def timer_del_def Let_def)
  moreover have "t \<notin> set (work_list (timer_del t b))"
    using wheel_del(2) [OF assms, of t t] by (simp add: timer_pending_iff)
  moreover have "set (work_list (timer_del t b)) \<subseteq> set (work_list b)"
    using set_remove1_subset [of t "work_list b"] by (auto simp: timer_del_def)
  ultimately show ?thesis using wheel_mod(3) [OF assms, of t e] TMod by auto
qed

lemma exec_fold_work:
  "wheel k b \<Longrightarrow> set (work_list (fold timer_exec cs b)) \<subseteq> set (work_list b) \<and>
    (\<forall>t \<in> set (work_list (fold timer_exec cs b)). expires (fold timer_exec cs b) t = expires b t)"
proof (induction cs arbitrary: b)
  case (Cons c cs)
  from Cons.IH [OF wheel_exec [OF Cons.prems], of c] exec_work [OF Cons.prems, of c] show ?case
    by (simp add: subset_iff)
qed simp

text \<open>Only due timers fire, whatever the callbacks do; \<open>P\<close> is what is known of the ticks.\<close>

definition due_events :: "(ulong \<Rightarrow> bool) \<Rightarrow> timer_event list \<Rightarrow> bool" where
  "due_events P log \<longleftrightarrow> (\<forall>(now, t, e) \<in> set log. is_due now e \<and> P now)"

lemma tick_only_due:
  assumes w: "wheel_wf b" and l: "due_events P (snd u)" "P (timer_jiffies b)"
    and run: "timers_tick (log_cb cb) n b u = (n', b', u')"
  shows "wheel_wf b' \<and> due_events P (snd u')"
proof -
  let ?tj = "timer_jiffies b"
  let ?J = "\<lambda>n b' (u' :: 'a \<times> timer_event list). wheel 0 b' \<and> due_events P (snd u') \<and> timer_jiffies b' = ?tj + 1 \<and>
    (\<forall>t \<in> set (work_list b'). is_due ?tj (expires b' t))"
  note s = tick_start_spec [OF w [unfolded wheel_wf_def, THEN conjunct1] w [unfolded wheel_wf_def, THEN conjunct2]]
  have "?J n' b' u' \<and> work_list b' = []"
  proof (rule run_work_rule [where J = ?J])
    show "?J n (tick_start b) u" using s l(1) by simp
    show "run_work_list (log_cb cb) n (tick_start b) u = (n', b', u')" using run by (simp add: timers_tick_start)
  next
    fix n b1 u1 t r u2 cmds
    assume J: "?J n b1 u1" and wl: "work_list b1 = t # r" and c: "log_cb cb t (timer_del t b1) u1 = (u2, cmds)"
    let ?b = "timer_del t b1"
    have wd: "wheel 0 ?b" "expires ?b = expires b1" using wheel_del(1,3) [of 0 b1 t] J by auto
    have "snd u2 = snd u1 @ [event_of ?b t]"
      using c by (cases u1) (auto simp: log_cb_def split: prod.splits)
    then have "due_events P (snd u2)"
      using J wl wd(2) l(2) by (auto simp: due_events_def event_of_def)
    moreover have "\<forall>t \<in> set (work_list (fold timer_exec cmds ?b)). is_due ?tj (expires (fold timer_exec cmds ?b) t)"
    proof
      fix t' assume t': "t' \<in> set (work_list (fold timer_exec cmds ?b))"
      note e = exec_fold_work [OF wd(1), of cmds]
      have "t' \<in> set (work_list ?b)" "expires (fold timer_exec cmds ?b) t' = expires ?b t'" using e t' by blast+
      moreover have "set (work_list ?b) \<subseteq> set (work_list b1)"
        using set_remove1_subset [of t "work_list b1"] by (auto simp: timer_del_def)
      ultimately show "is_due ?tj (expires (fold timer_exec cmds ?b) t')" using J wd(2) by auto
    qed
    ultimately show "?J (n + 1) (fold timer_exec cmds ?b) u2"
      using wheel_exec_fold [OF wd(1)] J by simp
  qed
  then show ?thesis by (simp add: wheel_wf_def)
qed

text \<open>
  The outer loop goes through the jiffies from \<open>timer_jiffies\<close> to \<open>j\<close>, one by one, and no further,
  also when the counter wraps around on the way.
\<close>

lemma next_jiffy:
  fixes x j start :: ulong
  assumes x: "unat (x - start) \<le> unat (j - start)" and j: "unat (j - start) < 2 ^ 63" and ne: "x \<noteq> j"
  shows "time_after_eq j (x + 1)" and "unat (x + 1 - start) \<le> unat (j - start)"
proof -
  have e: "j - x = (j - start) - (x - start)" by simp
  have d: "unat (j - x) = unat (j - start) - unat (x - start)" unfolding e by (rule unat_sub_ulong [OF x])
  have pos: "unat (j - x) \<noteq> 0" using ne by (simp add: unat_eq_zero)
  have e2: "j - (x + 1) = (j - x) - 1" by simp
  have "unat (j - (x + 1)) = unat (j - x) - unat (1 :: ulong)" unfolding e2 by (rule unat_sub_ulong) (use pos in simp)
  then show "time_after_eq j (x + 1)" using d j by (simp add: time_after_eq_unat)
  have e3: "x + 1 - start = (x - start) + 1" by simp
  have "unat (x + 1 - start) = unat (x - start) + unat (1 :: ulong)"
    unfolding e3 by (rule unat_add_ulong) (use le_less_trans [OF x j] in simp)
  then show "unat (x + 1 - start) \<le> unat (j - start)" using d pos by (simp only: unsigned_1)
qed

lemma past_jiffy: "\<not> time_after_eq j (j + 1)"
proof -
  have "j - (j + 1) = - 1" by simp
  moreover have "unat (- 1 :: ulong) = 2 ^ 64 - 1" by (simp add: unsigned_minus_1_eq_mask mask_eq_exp_minus_1)
  ultimately show ?thesis by (simp add: time_after_eq_unat)
qed

lemma timers_run_rule:
  assumes t: "time_after_eq j (timer_jiffies b)" and run: "timers_run cb j b u = (n, b', u')" and init: "J 0 b u"
    and step: "\<And>n1 b1 u1 n2 b2 u2. J n1 b1 u1 \<Longrightarrow> unat (timer_jiffies b1 - timer_jiffies b) \<le> unat (j - timer_jiffies b) \<Longrightarrow>
      timers_tick cb n1 b1 u1 = (n2, b2, u2) \<Longrightarrow> J n2 b2 u2"
  shows "J n b' u' \<and> timer_jiffies b' = j + 1"
proof -
  let ?start = "timer_jiffies b"
  let ?J = "\<lambda>n b' u'. J n b' u' \<and> (time_after_eq j (timer_jiffies b') \<or> timer_jiffies b' = j + 1) \<and>
    (time_after_eq j (timer_jiffies b') \<longrightarrow> unat (timer_jiffies b' - ?start) \<le> unat (j - ?start))"
  have l: "unat (j - ?start) < 2 ^ 63" using t by (simp add: time_after_eq_unat)
  have "?J n b' u' \<and> \<not> time_after_eq j (timer_jiffies b')"
  proof (rule timers_run_loop_rule [where J = ?J])
    show "?J 0 b u" using init t by simp
    show "timers_run_loop cb j 0 b u = (n, b', u')" using run t by (simp add: timers_run_def)
  next
    fix n1 b1 u1 n2 b2 u2
    assume J: "?J n1 b1 u1" and tj: "time_after_eq j (timer_jiffies b1)" and tick: "timers_tick cb n1 b1 u1 = (n2, b2, u2)"
    have k: "unat (timer_jiffies b1 - ?start) \<le> unat (j - ?start)" using J tj by blast
    have J2: "J n2 b2 u2" by (rule step [OF _ k tick]) (use J in blast)
    have tj2: "timer_jiffies b2 = timer_jiffies b1 + 1" using jiffies_tick [of cb n1 b1 u1] tick by simp
    show "?J n2 b2 u2"
    proof (cases "timer_jiffies b1 = j")
      case True
      then show ?thesis using J2 tj2 past_jiffy [of j] by simp
    next
      case False
      then show ?thesis using J2 next_jiffy [OF k l] unfolding tj2 by blast
    qed
  qed
  then show ?thesis by blast
qed

lemma timers_run_only_due:
  assumes w: "wheel_wf b" and run: "timers_run (log_cb cb) j b (u, []) = (n, b', (u', log))" and t: "time_after_eq j (timer_jiffies b)"
  shows "wheel_wf b' \<and> due_events (\<lambda>now. unat (now - timer_jiffies b) \<le> unat (j - timer_jiffies b)) log \<and> timer_jiffies b' = j + 1"
proof -
  let ?due = "due_events (\<lambda>now. unat (now - timer_jiffies b) \<le> unat (j - timer_jiffies b))"
  have "(wheel_wf b' \<and> ?due (snd (u', log))) \<and> timer_jiffies b' = j + 1"
  proof (rule timers_run_rule [OF t run, where J = "\<lambda>_ b u. wheel_wf b \<and> ?due (snd u)"])
    show "wheel_wf b \<and> ?due (snd (u, []))" using w by (simp add: due_events_def)
  qed (use tick_only_due in blast)
  then show ?thesis by simp
qed

text \<open>
  Callbacks that start no timer and stop none but their own, which is off already: what fires, and
  when, is known exactly.
\<close>

definition quiet :: "'u timer_cb \<Rightarrow> bool" where
  "quiet cb \<longleftrightarrow> (\<forall>t b u. set (snd (cb t b u)) \<subseteq> {TDel t})"

lemma exec_own_del: "\<not> timer_pending t b \<Longrightarrow> set cmds \<subseteq> {TDel t} \<Longrightarrow> fold timer_exec cmds b = b"
  by (induction cmds) (simp_all add: timer_del_def)

lemma quiet_tick:
  assumes w: "wheel_wf b" and q: "quiet cb"
    and run: "timers_tick (log_cb cb) n b u = (n', b', u')"
  obtains ts where "distinct ts" "set ts = {t. timer_pending t b \<and> is_due (timer_jiffies b) (expires b t)}"
    "snd u' = snd u @ map (\<lambda>t. (timer_jiffies b, t, expires b t)) ts" "n' = n + of_nat (length ts)"
    "wheel_wf b'" "expires b' = expires b" "\<And>t. timer_pending t b' \<longleftrightarrow> timer_pending t b \<and> t \<notin> set ts"
proof -
  let ?tj = "timer_jiffies b" and ?ws = "work_list (tick_start b)"
  note s = tick_start_spec [OF w [unfolded wheel_wf_def, THEN conjunct1] w [unfolded wheel_wf_def, THEN conjunct2]]
  let ?J = "\<lambda>n' b' (u' :: 'a \<times> timer_event list). wheel 0 b' \<and> expires b' = expires b \<and> timer_jiffies b' = ?tj + 1 \<and>
    (\<exists>fired. fired @ work_list b' = ?ws \<and> snd u' = snd u @ map (\<lambda>t. (?tj, t, expires b t)) fired \<and>
       n' = n + of_nat (length fired) \<and> (\<forall>t. timer_pending t b' \<longleftrightarrow> timer_pending t b \<and> t \<notin> set fired))"
  have "?J n' b' u' \<and> work_list b' = []"
  proof (rule run_work_rule [where J = ?J])
    show "?J n (tick_start b) u" using s by simp
    show "run_work_list (log_cb cb) n (tick_start b) u = (n', b', u')" using run by (simp add: timers_tick_start)
  next
    fix n1 b1 u1 t r u2 cmds
    assume J: "?J n1 b1 u1" and wl: "work_list b1 = t # r" and c: "log_cb cb t (timer_del t b1) u1 = (u2, cmds)"
    let ?b = "timer_del t b1"
    have wd: "wheel 0 ?b" "expires ?b = expires b1" "timer_pending v ?b \<longleftrightarrow> v \<noteq> t \<and> timer_pending v b1" for v
      using wheel_del [of 0 b1 t] wheel_del(2) [of 0 b1 v t] J by blast+
    have "timer_pending t b1" using wl by (simp add: timer_pending_iff)
    then have wr: "work_list ?b = r" by (simp add: timer_del_def wl)
    obtain u3 where u3: "cb t ?b (fst u1) = (u3, cmds)" "snd u2 = snd u1 @ [event_of ?b t]"
      using c by (cases u1) (auto simp: log_cb_def split: prod.splits)
    note cm = q [unfolded quiet_def, rule_format, of t ?b "fst u1", unfolded u3(1) snd_conv] u3(2)
    obtain fired where f: "fired @ work_list b1 = ?ws" "snd u1 = snd u @ map (\<lambda>t. (?tj, t, expires b t)) fired"
      "n1 = n + of_nat (length fired)" "\<forall>t. timer_pending t b1 \<longleftrightarrow> timer_pending t b \<and> t \<notin> set fired"
      using J by blast
    have "(fired @ [t]) @ work_list ?b = ?ws \<and> snd u2 = snd u @ map (\<lambda>t. (?tj, t, expires b t)) (fired @ [t]) \<and>
        n1 + 1 = n + of_nat (length (fired @ [t])) \<and>
        (\<forall>v. timer_pending v ?b \<longleftrightarrow> timer_pending v b \<and> v \<notin> set (fired @ [t]))"
    proof (intro conjI allI)
      show "(fired @ [t]) @ work_list ?b = ?ws" using f(1) wr wl by simp
      show "snd u2 = snd u @ map (\<lambda>t. (?tj, t, expires b t)) (fired @ [t])"
        using f(2) cm(2) wd(2) J by (simp add: event_of_def)
      show "n1 + 1 = n + of_nat (length (fired @ [t]))" using f(3) by simp
      show "timer_pending v ?b \<longleftrightarrow> timer_pending v b \<and> v \<notin> set (fired @ [t])" for v
        unfolding wd(3) f(4) [rule_format] set_append by auto
    qed
    then have ex: "\<exists>fired. fired @ work_list ?b = ?ws \<and> snd u2 = snd u @ map (\<lambda>t. (?tj, t, expires b t)) fired \<and>
        n1 + 1 = n + of_nat (length fired) \<and> (\<forall>v. timer_pending v ?b \<longleftrightarrow> timer_pending v b \<and> v \<notin> set fired)" by (rule exI)
    have fe: "fold timer_exec cmds ?b = ?b" by (rule exec_own_del [OF _ cm(1)]) (simp add: wd(3))
    have "wheel 0 ?b \<and> expires ?b = expires b \<and> timer_jiffies ?b = ?tj + 1" using wd J by simp
    then show "?J (n1 + 1) (fold timer_exec cmds ?b) u2" unfolding fe using ex by (intro conjI) (blast+)
  qed
  then obtain fired where f: "fired = ?ws" "snd u' = snd u @ map (\<lambda>t. (?tj, t, expires b t)) fired"
      "n' = n + of_nat (length fired)" "\<forall>t. timer_pending t b' \<longleftrightarrow> timer_pending t b \<and> t \<notin> set fired"
    and e: "wheel 0 b'" "expires b' = expires b" "work_list b' = []"
    by auto
  show ?thesis
  proof (rule that [of fired])
    show "distinct fired" unfolding f(1) by (rule wheelD(3) [OF s(1)])
    show "set fired = {t. timer_pending t b \<and> is_due (timer_jiffies b) (expires b t)}" unfolding f(1) s(4) ..
  qed (use f e in \<open>simp_all add: wheel_wf_def\<close>)
qed

text \<open>
  \<open>fired_by tj0 k e\<close>: a timer that is set to \<open>e\<close>, seen from the jiffy \<open>tj0\<close>, fires in the first \<open>k\<close>
  ticks; \<open>fire_tick\<close> is the jiffy in which it does. An overdue timer fires at once.
\<close>

definition fired_by :: "ulong \<Rightarrow> nat \<Rightarrow> ulong \<Rightarrow> bool" where
  "fired_by tj0 k e \<longleftrightarrow> 0 < k \<and> (unat (e - tj0) < k \<or> e - tj0 <s 0)"

definition fire_tick :: "ulong \<Rightarrow> ulong \<Rightarrow> ulong" where
  "fire_tick tj0 e = (if e - tj0 <s 0 then tj0 else e)"

lemma is_due_offset:
  assumes "unat (tj - tj0) = k" and "\<not> fired_by tj0 k e"
  shows "is_due tj e \<longleftrightarrow> fired_by tj0 (Suc k) e" and "is_due tj e \<Longrightarrow> fire_tick tj0 e = tj"
proof -
  have d: "e - tj = (e - tj0) - (tj - tj0)" by simp
  consider "k = 0" "tj = tj0" | "0 < k" "k \<le> unat (e - tj0)" "unat (e - tj0) < 2 ^ 63"
    using assms by (cases "k = 0") (auto simp: fired_by_def slt_0_iff unat_eq_zero not_less)
  then have "(is_due tj e \<longleftrightarrow> fired_by tj0 (Suc k) e) \<and> (is_due tj e \<longrightarrow> fire_tick tj0 e = tj)"
  proof cases
    case 1
    then show ?thesis
      by (auto simp: is_due_unat fired_by_def fire_tick_def slt_0_iff unat_eq_zero)
  next
    case 2
    have "unat (e - tj) = unat (e - tj0) - k"
      unfolding d using 2 assms(1) by (subst unat_sub_ulong) simp_all
    then have "is_due tj e \<longleftrightarrow> unat (e - tj0) = k" using 2 unfolding is_due_unat by linarith
    moreover have "e = tj" if "unat (e - tj0) = k"
    proof -
      have "e - tj0 = tj - tj0" using that assms(1) by (simp add: word_unat_eq_iff)
      then show ?thesis by simp
    qed
    ultimately show ?thesis using 2 by (auto simp: fired_by_def fire_tick_def slt_0_iff)
  qed
  then show "is_due tj e \<longleftrightarrow> fired_by tj0 (Suc k) e" and "is_due tj e \<Longrightarrow> fire_tick tj0 e = tj" by simp_all
qed

lemma fired_by_mono: "fired_by tj0 k e \<Longrightarrow> k \<le> k' \<Longrightarrow> fired_by tj0 k' e"
  by (auto simp: fired_by_def)


definition quiet_inv :: "timer_base \<Rightarrow> 32 word \<Rightarrow> timer_base \<Rightarrow> timer_event list \<Rightarrow> bool" where
  "quiet_inv b0 n b log \<longleftrightarrow> wheel_wf b \<and> expires b = expires b0 \<and>
     (let tj0 = timer_jiffies b0; k = unat (timer_jiffies b - tj0) in
      n = of_nat (length log) \<and> distinct (map (\<lambda>(now, t, e). t) log) \<and>
      set log = (\<lambda>t. (fire_tick tj0 (expires b0 t), t, expires b0 t)) `
        {t. timer_pending t b0 \<and> fired_by tj0 k (expires b0 t)} \<and>
      sorted (map (\<lambda>(now, t, e). unat (now - tj0)) log) \<and>
      (\<forall>(now, t, e) \<in> set log. unat (now - tj0) < k) \<and>
      (\<forall>t. timer_pending t b \<longleftrightarrow> timer_pending t b0 \<and> \<not> fired_by tj0 k (expires b0 t)))"

lemma quiet_inv_tick:
  assumes J: "quiet_inv b0 n b (snd u)" and k: "unat (timer_jiffies b - timer_jiffies b0) < 2 ^ 63"
    and q: "quiet cb" and run: "timers_tick (log_cb cb) n b u = (n', b', u')"
  shows "quiet_inv b0 n' b' (snd u')"
proof -
  let ?start = "timer_jiffies b0" and ?tj = "timer_jiffies b" and ?k = "unat (timer_jiffies b - timer_jiffies b0)"
  let ?ev = "\<lambda>t. (fire_tick ?start (expires b0 t), t, expires b0 t)"
  note J' = J [unfolded quiet_inv_def Let_def]
  obtain ts where ts: "distinct ts" "set ts = {t. timer_pending t b \<and> is_due ?tj (expires b t)}"
    "snd u' = snd u @ map (\<lambda>t. (?tj, t, expires b t)) ts" "n' = n + of_nat (length ts)"
    "wheel_wf b'" "expires b' = expires b" "\<And>t. timer_pending t b' \<longleftrightarrow> timer_pending t b \<and> t \<notin> set ts"
    by (rule quiet_tick [OF _ q run]) (use J' in blast)+
  have "timer_jiffies b' = ?tj + 1" using jiffies_tick [of "log_cb cb" n b u] run by simp
  then have s: "timer_jiffies b' - ?start = (?tj - ?start) + 1" by simp
  have k': "unat (timer_jiffies b' - ?start) = Suc ?k"
  proof -
    have "unat ((?tj - ?start) + 1) = unat (?tj - ?start) + unat (1 :: ulong)"
      by (rule unat_add_ulong) (use k in simp)
    then show ?thesis unfolding s by (simp only: unsigned_1)
  qed
  have pend: "timer_pending t b \<longleftrightarrow> timer_pending t b0 \<and> \<not> fired_by ?start ?k (expires b0 t)" for t using J' by blast
  have due: "is_due ?tj (expires b0 t) \<longleftrightarrow> fired_by ?start (Suc ?k) (expires b0 t)"
    and now: "is_due ?tj (expires b0 t) \<Longrightarrow> fire_tick ?start (expires b0 t) = ?tj"
    if "\<not> fired_by ?start ?k (expires b0 t)" for t
    by (rule is_due_offset [OF refl that])+
  have tset: "t \<in> set ts \<longleftrightarrow> timer_pending t b0 \<and> \<not> fired_by ?start ?k (expires b0 t) \<and> fired_by ?start (Suc ?k) (expires b0 t)" for t
    unfolding ts(2) using pend due J' by auto
  have evs: "map (\<lambda>t. (?tj, t, expires b t)) ts = map ?ev ts"
    using now J' by (intro map_cong refl) (auto simp: ts(2) pend)
  have log: "snd u' = snd u @ map ?ev ts" unfolding ts(3) evs ..
  have nowts: "unat (fire_tick ?start (expires b0 t) - ?start) = ?k" if "t \<in> set ts" for t
    using that now J' by (auto simp: ts(2) pend)
  have up: "fired_by ?start ?k e \<Longrightarrow> fired_by ?start (Suc ?k) e" for e by (rule fired_by_mono [OF _ le_SucI [OF order_refl]])
  show ?thesis
    unfolding quiet_inv_def Let_def k'
  proof (intro conjI)
    show "n' = of_nat (length (snd u'))" using J' ts(4) log by simp
    have "set (map (\<lambda>(now, t, e). t) (snd u)) = {t. timer_pending t b0 \<and> fired_by ?start ?k (expires b0 t)}"
      using J' by (auto simp: image_image)
    then show "distinct (map (\<lambda>(now, t, e). t) (snd u'))"
      using J' ts(1) tset by (auto simp: log comp_def)
    show "set (snd u') = ?ev ` {t. timer_pending t b0 \<and> fired_by ?start (Suc ?k) (expires b0 t)}"
    proof -
      have "{t. timer_pending t b0 \<and> fired_by ?start (Suc ?k) (expires b0 t)} =
          {t. timer_pending t b0 \<and> fired_by ?start ?k (expires b0 t)} \<union> set ts" using tset up by auto
      then show ?thesis using J' by (simp add: log image_Un)
    qed
    show "sorted (map (\<lambda>(now, t, e). unat (now - ?start)) (snd u'))"
    proof -
      have new: "map (\<lambda>(now, t, e). unat (now - ?start)) (map ?ev ts) = replicate (length ts) ?k"
        using nowts by (intro nth_equalityI) simp_all
      have old: "sorted (map (\<lambda>(now, t, e). unat (now - ?start)) (snd u))"
        "\<forall>x \<in> set (map (\<lambda>(now, t, e). unat (now - ?start)) (snd u)). x \<le> ?k"
        using J' by (auto intro: less_imp_le)
      show ?thesis unfolding log map_append new using old by (auto simp: sorted_append)
    qed
    show "\<forall>(now, t, e) \<in> set (snd u'). unat (now - ?start) < Suc ?k"
    proof
      fix x assume "x \<in> set (snd u')"
      then consider "x \<in> set (snd u)" | t where "t \<in> set ts" "x = ?ev t" by (auto simp: log)
      then show "case x of (now, t, e) \<Rightarrow> unat (now - ?start) < Suc ?k"
      proof cases
        case 1
        then have "case x of (now, t, e) \<Rightarrow> unat (now - ?start) < ?k" using J' by blast
        then show ?thesis by (cases x) (simp only: prod.case less_SucI)
      next
        case 2
        then show ?thesis by (simp only: prod.case nowts lessI)
      qed
    qed
    show "\<forall>t. timer_pending t b' \<longleftrightarrow> timer_pending t b0 \<and> \<not> fired_by ?start (Suc ?k) (expires b0 t)"
      using ts(7) pend tset up by blast
  qed (use ts(5,6) J' in simp_all)
qed


lemma quiet_run:
  assumes w: "wheel_wf b" and q: "quiet cb" and t: "time_after_eq j (timer_jiffies b)"
    and run: "timers_run (log_cb cb) j b (u, []) = (n, b', (u', log))"
  shows "quiet_inv b n b' log" and "timer_jiffies b' = j + 1"
proof -
  have l: "unat (j - timer_jiffies b) < 2 ^ 63" using t by (simp add: time_after_eq_unat)
  have "quiet_inv b n b' (snd (u', log)) \<and> timer_jiffies b' = j + 1"
  proof (rule timers_run_rule [OF t run, where J = "\<lambda>n b' u'. quiet_inv b n b' (snd u')"])
    show "quiet_inv b 0 b (snd (u, []))" using w by (auto simp: quiet_inv_def fired_by_def)
  next
    fix n1 b1 u1 n2 b2 u2
    assume J: "quiet_inv b n1 b1 (snd u1)" and k: "unat (timer_jiffies b1 - timer_jiffies b) \<le> unat (j - timer_jiffies b)"
      and tick: "timers_tick (log_cb cb) n1 b1 u1 = (n2, b2, u2)"
    show "quiet_inv b n2 b2 (snd u2)" by (rule quiet_inv_tick [OF J le_less_trans [OF k l] q tick])
  qed
  then show "quiet_inv b n b' log" and "timer_jiffies b' = j + 1" by simp_all
qed

text \<open>Callbacks that do the same up to a map of their states run in step.\<close>

definition same_up_to :: "('u \<Rightarrow> 'v) \<Rightarrow> 'u timer_cb \<Rightarrow> 'v timer_cb \<Rightarrow> bool" where
  "same_up_to h cb cb' \<longleftrightarrow> (\<forall>t b u. cb' t b (h u) = (h (fst (cb t b u)), snd (cb t b u)))"

lemma run_work_map:
  "same_up_to h cb cb' \<Longrightarrow> run_work_list cb n b u = (n', b', u') \<Longrightarrow> run_work_list cb' n b (h u) = (n', b', h u')"
proof (induction "length (work_list b)" arbitrary: n b u rule: less_induct)
  case less
  show ?case
  proof (cases "work_list b")
    case Nil
    then show ?thesis using less.prems by (simp add: run_work_Nil)
  next
    case (Cons t r)
    obtain u1 cmds where c: "cb t (timer_del t b) u = (u1, cmds)" by fastforce
    then have c': "cb' t (timer_del t b) (h u) = (h u1, cmds)" using less.prems(1) by (simp add: same_up_to_def)
    have "length (work_list (timer_del t b)) < length (work_list b)"
      by (simp add: Cons timer_del_def timer_pending_def unlink_def)
    then have "length (work_list (fold timer_exec cmds (timer_del t b))) < length (work_list b)"
      using work_list_exec_fold [of cmds "timer_del t b"] by linarith
    then show ?thesis
      using less.hyps less.prems run_work_Cons [where cb = cb, OF Cons c] run_work_Cons [where cb = cb', OF Cons c'] by simp
  qed
qed

lemma timers_run_loop_end: "\<not> time_after_eq j (timer_jiffies b) \<Longrightarrow> timers_run_loop cb j n b u = (n, b, u)"
  by (simp add: timers_run_loop.simps [of cb j n b])

lemma timers_run_map:
  assumes "same_up_to h cb cb'" and "timers_run cb j b u = (n, b', u')"
  shows "timers_run cb' j b (h u) = (n, b', h u')"
proof -
  have "timers_run_loop cb j m b u = (n, b', u') \<Longrightarrow> timers_run_loop cb' j m b (h u) = (n, b', h u')" for m b u
  proof (induction "unat (j - timer_jiffies b + 1)" arbitrary: m b u rule: less_induct)
    case less
    show ?case
    proof (cases "time_after_eq j (timer_jiffies b)")
      case False
      then show ?thesis using less.prems by (auto simp: timers_run_loop_end)
    next
      case True
      obtain m1 b1 u1 where t: "timers_tick cb m b u = (m1, b1, u1)" by (rule prod_cases3)
      have t': "timers_tick cb' m b (h u) = (m1, b1, h u1)"
        using run_work_map [OF assms(1)] t by (simp add: timers_tick_start)
      have j1: "timer_jiffies b1 = timer_jiffies b + 1" using jiffies_tick [of cb m b u] t by simp
      have l: "unat (j - timer_jiffies b) < 2 ^ 63" using True by (simp add: time_after_eq_unat)
      have s: "unat (j - timer_jiffies b + 1) = unat (j - timer_jiffies b) + 1"
        using unat_add_ulong [of "j - timer_jiffies b" 1] l by simp
      have e: "j - timer_jiffies b1 + 1 = j - timer_jiffies b" by (simp add: j1)
      have "unat (j - timer_jiffies b1 + 1) < unat (j - timer_jiffies b + 1)" unfolding e s by simp
      then show ?thesis using less.hyps less.prems t t' True by (simp add: timers_run_loop.simps [of _ j m b])
    qed
  qed
  then show ?thesis using assms(2) by (auto simp: timers_run_def split: if_splits)
qed

text \<open>The timers that \<open>timers_run\<close> up to the jiffy \<open>j\<close> fires.\<close>

definition due_by :: "ulong \<Rightarrow> timer_base \<Rightarrow> tid set" where
  "due_by j b = {t. timer_pending t b \<and> fired_by (timer_jiffies b) (Suc (unat (j - timer_jiffies b))) (expires b t)}"

text \<open>A callback that does \<open>f\<close> to its state, and stops at most its own timer, does it once for every timer that is due.\<close>

lemma timers_run_each:
  assumes w: "wheel_wf b" and t: "time_after_eq j (timer_jiffies b)"
    and cb: "\<And>t b u. fst (cb t b u) = f t u" "\<And>t b u v. snd (cb t b u) = snd (cb t b v)" "quiet cb"
  obtains ts b' where "distinct ts" "set ts = due_by j b" "timers_run cb j b u = (of_nat (length ts), b', fold f ts u)"
    "wheel_wf b'" "timer_jiffies b' = j + 1" "expires b' = expires b"
    "\<And>t. timer_pending t b' \<longleftrightarrow> timer_pending t b \<and> t \<notin> due_by j b"
proof -
  let ?u = "\<lambda>t b v. (v :: unit, snd (cb t b undefined))"
  let ?h = "\<lambda>(v :: unit, log). fold (\<lambda>(now :: ulong, t, e :: ulong). f t) log u"
  have q: "quiet ?u" using cb(3) by (simp add: quiet_def)
  obtain n b' v where v: "timers_run (log_cb ?u) j b ((), []) = (n, b', v)" by (rule prod_cases3)
  obtain log where "v = ((), log)" by (cases v) auto
  with v have r: "timers_run (log_cb ?u) j b ((), []) = (n, b', (), log)" by simp
  note inv = quiet_run(1) [OF w q t r] and j = quiet_run(2) [OF w q t r]
  have e: "timer_jiffies b' - timer_jiffies b = (j - timer_jiffies b) + 1" by (simp add: j)
  have "unat (timer_jiffies b' - timer_jiffies b) = unat (j - timer_jiffies b) + unat (1 :: ulong)"
    unfolding e by (rule unat_add_ulong) (use t in \<open>simp add: time_after_eq_unat\<close>)
  then have k: "unat (timer_jiffies b' - timer_jiffies b) = Suc (unat (j - timer_jiffies b))" by (simp only: unsigned_1)
  note i = inv [unfolded quiet_inv_def Let_def k]
  let ?ts = "map (\<lambda>(now, t, e). t) log"
  have "same_up_to ?h (log_cb ?u) cb"
  proof -
    have "cb t b (?h v) = (?h (fst (log_cb ?u t b v)), snd (log_cb ?u t b v))" for t b and v :: "unit \<times> timer_event list"
      by (cases v, rule prod_eqI) (simp_all add: log_cb_def event_of_def cb(1), metis cb(2))
    then show ?thesis unfolding same_up_to_def by blast
  qed
  from timers_run_map [OF this r] have run: "timers_run cb j b u = (n, b', fold f ?ts u)"
    by (simp add: fold_map comp_def case_prod_unfold)
  show ?thesis
  proof (rule that [of ?ts b'])
    show "distinct ?ts" "wheel_wf b'" "expires b' = expires b" using i by simp_all
    show "timers_run cb j b u = (of_nat (length ?ts), b', fold f ?ts u)" using run i by simp
    have "set log = (\<lambda>t. (fire_tick (timer_jiffies b) (expires b t), t, expires b t)) ` due_by j b"
      using i unfolding due_by_def by blast
    then show "set ?ts = due_by j b" by (simp add: image_image)
    show "timer_pending t b' \<longleftrightarrow> timer_pending t b \<and> t \<notin> due_by j b" for t using i unfolding due_by_def by blast
  qed (rule j)
qed

section \<open>Properties\<close>

text \<open>
  \<open>timer_mod\<close> (and \<open>timer_add\<close>) makes exactly the given timer pending, with the given time, and
  leaves the others as they were; \<open>timer_del\<close> takes exactly the given timer off; both keep every
  pending timer in the list in which \<open>timers_run\<close> will find it.
\<close>

theorem timer_mod_del_pending:
  assumes "wheel_wf b"
  shows "wheel_wf (timer_mod t e b) \<and> wheel_wf (timer_del t b) \<and>
    (\<forall>u. timer_pending u (timer_mod t e b) \<longleftrightarrow> u = t \<or> timer_pending u b) \<and>
    (\<forall>u. timer_pending u (timer_del t b) \<longleftrightarrow> u \<noteq> t \<and> timer_pending u b) \<and>
    expires (timer_mod t e b) = (expires b)(t := e) \<and> expires (timer_del t b) = expires b"
proof -
  have w: "wheel 0 b" "work_list b = []" using assms by (simp_all add: wheel_wf_def)
  have "work_list (timer_mod t e b) = []" "work_list (timer_del t b) = []"
    using w(2) by (simp_all add: timer_mod_def timer_del_def Let_def)
  then show ?thesis
    unfolding wheel_wf_def by (intro conjI allI) (rule wheel_mod [OF w(1)] wheel_del [OF w(1)] | assumption)+
qed

lemma example_wheel_wf:
  "wheel_wf (init_timer_base j)"
  by (simp add: wheel_wf_def init_wheel) (simp add: init_timer_base_def)

theorem timer_mod_del_pending_witness:
  "timer_pending 7 (timer_mod 7 1000 (init_timer_base 5)) \<and>
   \<not> timer_pending 8 (timer_mod 7 1000 (init_timer_base 5)) \<and> \<not> timer_pending 7 (timer_del 7 (init_timer_base 5))"
  using timer_mod_del_pending [OF example_wheel_wf, of 7 1000 5] init_wheel(2) [of 8 5] by simp

text \<open>A timer that sets itself again, two jiffies later: it is called in the jiffies 6 and 8.\<close>

definition periodic_cb :: "unit timer_cb" where
  "periodic_cb t b u = ((), [TMod t (timer_jiffies b + 1)])"

lemma periodic_run:
  "snd (snd (timers_run (log_cb periodic_cb) 8 (timer_mod 7 6 (init_timer_base 5)) ((), []))) = ((), [(6, 7, 6), (8, 7, 8)])"
  by code_simp

text \<open>
  C12: Whatever the callbacks do with the timers (start, move, stop them, at any time, past or
  future), \<open>timers_run\<close> up to jiffy \<open>j\<close> goes through the jiffies from the current one to \<open>j\<close> and no further, it
  calls a callback only for a timer whose time has come in the jiffy in which it is called, and leaves
  wheels that are in order, at the jiffy after \<open>j\<close>. A \<open>j\<close> that is already past does nothing.
\<close>

theorem timers_run_never_early:
  assumes "wheel_wf b" and "timers_run (log_cb cb) j b (u, []) = (n, b', (u', log))"
  shows "wheel_wf b' \<and>
    (if time_after_eq j (timer_jiffies b)
     then timer_jiffies b' = j + 1 \<and>
       (\<forall>(now, t, e) \<in> set log. is_due now e \<and> unat (now - timer_jiffies b) \<le> unat (j - timer_jiffies b))
     else b' = b \<and> u' = u \<and> log = [] \<and> n = 0)"
  using timers_run_only_due [OF assms] assms by (auto simp: due_events_def timers_run_def)

theorem timers_run_never_early_witness:
  "wheel_wf (fst (snd (timers_run (log_cb periodic_cb) 8 (timer_mod 7 6 (init_timer_base 5)) ((), [])))) \<and>
   is_due 6 6 \<and> is_due 8 8 \<and> timer_jiffies (fst (snd (timers_run (log_cb periodic_cb) 8 (timer_mod 7 6 (init_timer_base 5)) ((), [])))) = 9"
proof -
  have w: "wheel_wf (timer_mod 7 6 (init_timer_base 5))"
    using wheel_mod(1) [OF init_wheel(1)] by (simp add: wheel_wf_def timer_mod_def timer_del_def Let_def)
      (simp add: init_timer_base_def)
  have t: "timer_jiffies (timer_mod 7 6 (init_timer_base 5)) = 5"
    by (simp add: timer_mod_def init_timer_base_def Let_def)
  obtain n b' where r: "timers_run (log_cb periodic_cb) 8 (timer_mod 7 6 (init_timer_base 5)) ((), []) =
      (n, b', (), [(6, 7, 6), (8, 7, 8)])"
    using periodic_run by (metis prod.collapse)
  from timers_run_never_early [OF w r] show ?thesis by (simp add: r t time_after_eq_unat)
qed

text \<open>
  C13: With callbacks that start no timer and stop at most their own, one call of \<open>timers_run\<close> up to jiffy \<open>j\<close> fires
  exactly the pending timers that are due by \<open>j\<close>, each once, in the jiffy it was set to (an overdue
  one in the first), in the order of time; the others stay pending. The number of calls is
  returned. The counter may wrap around on the way.
\<close>

theorem timers_run_exact:
  assumes "wheel_wf b" and "quiet cb" and "time_after_eq j (timer_jiffies b)"
    and "timers_run (log_cb cb) j b (u, []) = (n, b', (u', log))"
  shows "let tj = timer_jiffies b; k = Suc (unat (j - tj)) in
    set log = (\<lambda>t. (fire_tick tj (expires b t), t, expires b t)) ` {t. timer_pending t b \<and> fired_by tj k (expires b t)} \<and>
    distinct (map (\<lambda>(now, t, e). t) log) \<and> sorted (map (\<lambda>(now, t, e). unat (now - tj)) log) \<and>
    n = of_nat (length log) \<and> wheel_wf b' \<and> timer_jiffies b' = j + 1 \<and>
    (\<forall>t. timer_pending t b' \<longleftrightarrow> timer_pending t b \<and> \<not> fired_by tj k (expires b t))"
proof -
  note inv = quiet_run(1) [OF assms] and j = quiet_run(2) [OF assms]
  have e: "timer_jiffies b' - timer_jiffies b = (j - timer_jiffies b) + 1" by (simp add: j)
  have "unat (timer_jiffies b' - timer_jiffies b) = unat (j - timer_jiffies b) + unat (1 :: ulong)"
    unfolding e by (rule unat_add_ulong) (use assms(3) in \<open>simp add: time_after_eq_unat\<close>)
  then have k: "unat (timer_jiffies b' - timer_jiffies b) = Suc (unat (j - timer_jiffies b))" by (simp only: unsigned_1)
  show ?thesis using inv j unfolding quiet_inv_def Let_def k by blast
qed

theorem timers_run_exact_witness:
  "\<exists>n b' log. timers_run (log_cb (\<lambda>t b u. (u, []))) 6 (timer_mod 7 6 (init_timer_base 5)) ((), []) = (n, b', (), log) \<and>
     set log = {(6, 7, 6)} \<and> \<not> timer_pending 7 b'"
proof -
  let ?b = "timer_mod 7 6 (init_timer_base 5)" and ?cb = "\<lambda>t b u. (u :: unit, [])"
  have w: "wheel_wf ?b"
    using wheel_mod(1) [OF init_wheel(1)] by (simp add: wheel_wf_def timer_mod_def timer_del_def Let_def)
      (simp add: init_timer_base_def)
  have p: "timer_pending u ?b \<longleftrightarrow> u = 7" for u using wheel_mod(2) [OF init_wheel(1)] init_wheel(2) by simp
  have e: "expires ?b 7 = 6" "timer_jiffies ?b = 5"
    by (simp_all add: wheel_mod(3) [OF init_wheel(1)]) (simp add: timer_mod_def init_timer_base_def Let_def)
  obtain n b' v where v: "timers_run (log_cb ?cb) 6 ?b ((), []) = (n, b', v)" by (rule prod_cases3)
  obtain log where "v = ((), log)" by (cases v) auto
  then have r: "timers_run (log_cb ?cb) 6 ?b ((), []) = (n, b', (), log)" using v by simp
  have q: "quiet ?cb" by (simp add: quiet_def)
  have t: "time_after_eq 6 (timer_jiffies ?b)" by (simp add: e time_after_eq_unat)
  have f: "fired_by 5 2 6" "fire_tick 5 6 = 6" by (simp_all add: fired_by_def fire_tick_def slt_0_iff)
  have k: "Suc (unat (6 - timer_jiffies ?b)) = 2" by (simp add: e)
  note x = timers_run_exact [OF w q t r, unfolded Let_def k, unfolded e(2)]
  have s: "{t. timer_pending t ?b \<and> fired_by 5 2 (expires ?b t)} = {7}" using p e(1) f(1) by (intro set_eqI) (simp, metis)
  from conjunct1 [OF x] have "set log = {(6, 7, 6)}" unfolding s by (simp add: e(1) f(2))
  moreover have "\<not> timer_pending 7 b'" using x e(1) f(1) by metis
  ultimately show ?thesis using r by blast
qed

end
