(* ===== verification/Timer_Next.thy ===== *)
theory Timer_Next
  imports Timer_Wheel
begin

unbundle bit_operations_syntax

text \<open>
  What \<open>timer_next_interrupt\<close> (\<open>src/timer.c\<close>) promises to the engines, which sleep until the time it
  returns: no pending timer is due earlier. The search visits the lists of a level in the order of
  time and stops where no list of a later level can hold an earlier timer.
\<close>

section \<open>When a timer is due\<close>

text \<open>An overdue timer is due now. Times are counted as in \<open>due_nat\<close>.\<close>

definition when_due :: "ulong \<Rightarrow> ulong \<Rightarrow> nat" where
  "when_due tj e = now_nat tj + (if unat (e - tj) < 2 ^ 63 then unat (e - tj) else 0)"

text \<open>At most about 49 days ahead, or overdue by less than half of the range of a signed long.\<close>

definition moderate :: "ulong \<Rightarrow> ulong \<Rightarrow> bool" where
  "moderate tj e \<longleftrightarrow> unat (e - tj) < 2 ^ 32 \<or> 2 ^ 63 + 2 ^ 62 \<le> unat (e - tj)"

definition near :: "timer_base \<Rightarrow> bool" where
  "near b \<longleftrightarrow> (\<forall>l i t. t \<in> set (bucket b l i) \<longrightarrow> moderate (timer_jiffies b) (expires b t) \<and>
     (l = 5 \<longrightarrow> i = unat (expires b t) div 2 ^ 26 mod 64))"

lemma nearD:
  assumes "near b" and "t \<in> set (bucket b l i)"
  shows "moderate (timer_jiffies b) (expires b t)" and "l = 5 \<Longrightarrow> i = unat (expires b t) div 2 ^ 26 mod 64"
  using assms unfolding near_def by blast+

lemma time_before_unat: "time_before a b \<longleftrightarrow> 2 ^ 63 \<le> unat (a - b)"
  by (simp add: time_before_def time_after_def slt_0_iff)

lemma when_due_order:
  assumes "moderate tj e" and "moderate tj x"
  shows "time_before e x \<Longrightarrow> when_due tj e \<le> when_due tj x"
    and "\<not> time_before e x \<Longrightarrow> when_due tj x \<le> when_due tj e"
proof -
  define a where "a = unat (e - tj)"
  define c where "c = unat (x - tj)"
  have d: "e - x = (e - tj) - (x - tj)" by simp
  have m: "a < 2 ^ 32 \<or> 2 ^ 63 + 2 ^ 62 \<le> a" "c < 2 ^ 32 \<or> 2 ^ 63 + 2 ^ 62 \<le> c" "a < 2 ^ 64" "c < 2 ^ 64"
    using assms unat_ulong_less [of "e - tj"] unat_ulong_less [of "x - tj"] by (simp_all add: moderate_def a_def c_def)
  have u: "unat (e - x) = (if c \<le> a then a - c else a + 2 ^ 64 - c)"
    unfolding d unat_sub_if_size a_def c_def by (simp add: word_size)
  show "time_before e x \<Longrightarrow> when_due tj e \<le> when_due tj x"
    and "\<not> time_before e x \<Longrightarrow> when_due tj x \<le> when_due tj e"
    using m unfolding time_before_unat u when_due_def a_def [symmetric] c_def [symmetric]
    by (auto split: if_splits)
qed

text \<open>The inner loop over one list keeps the earliest time.\<close>

definition earlier :: "timer_base \<Rightarrow> tid \<Rightarrow> ulong \<Rightarrow> ulong" where
  "earlier b nte ex = (if time_before (expires b nte) ex then expires b nte else ex)"

lemma earliest_in_list:
  assumes "moderate tj ex" and "\<forall>t \<in> set ts. moderate tj (expires b t)"
  shows "moderate tj (fold (earlier b) ts ex) \<and> when_due tj (fold (earlier b) ts ex) \<le> when_due tj ex \<and>
    (\<forall>t \<in> set ts. when_due tj (fold (earlier b) ts ex) \<le> when_due tj (expires b t)) \<and>
    fold (earlier b) ts ex \<in> insert ex (expires b ` set ts)"
  using assms
proof (induction ts arbitrary: ex)
  case (Cons t ts)
  have m: "moderate tj (expires b t)" using Cons.prems by simp
  have e: "moderate tj (earlier b t ex)" "when_due tj (earlier b t ex) \<le> when_due tj ex"
    "when_due tj (earlier b t ex) \<le> when_due tj (expires b t)" "earlier b t ex = ex \<or> earlier b t ex = expires b t"
    using Cons.prems when_due_order [OF m Cons.prems(1)] by (simp_all add: earlier_def)
  from Cons.IH [OF e(1)] Cons.prems(2) show ?case using e by (auto intro: order_trans)
qed simp

section \<open>The tiers of the wheel\<close>

text \<open>
  Level \<open>l\<close> sorts its timers by the time they are due, divided by \<open>2 ^ tier l\<close>; \<open>first_list l\<close> is the first of
  these numbers that has not been cascaded.
\<close>

definition tier :: "nat \<Rightarrow> nat" where
  "tier l = (if l = 1 then 0 else shift l)"

definition first_list :: "ulong \<Rightarrow> nat \<Rightarrow> nat" where
  "first_list tj l = Suc ((now_nat tj - 1) div 2 ^ tier l)"

lemma tier_simps [simp]:
  "tier (Suc 0) = 0" "tier 1 = 0" "tier 2 = 8" "tier 3 = 14" "tier 4 = 20" "tier 5 = 26" "tier 6 = 32"
  by (simp_all add: tier_def shift_def)

lemma level_cases:
  assumes "l \<in> {1..5}"
  obtains "l = 1" | "l = 2" | "l = 3" | "l = 4" | "l = (5 :: nat)"
  using assms by fastforce

lemma tier_up: "l \<in> {1..5} \<Longrightarrow> 2 ^ tier (Suc l) = 2 ^ tier l * size_of l"
  by (erule level_cases) (simp_all add: tier_def shift_def size_of_def)

lemma first_list_up:
  assumes "l \<in> {1..5}"
  shows "first_list tj (Suc l) = Suc ((first_list tj l - 1) div size_of l)"
  unfolding first_list_def tier_up [OF assms] by (simp add: div_mult2_eq)

lemma first_list_bounds:
  assumes "l \<in> {1..5}"
  shows "first_list tj l \<le> size_of l * first_list tj (Suc l)"
    and "first_list tj l mod size_of l \<noteq> 0 \<Longrightarrow> first_list tj l mod size_of l + k < size_of l \<Longrightarrow>
      first_list tj l + k < size_of l * first_list tj (Suc l)"
proof -
  define u where "u = first_list tj l"
  have n: "0 < size_of l" using assms by (auto simp: size_of_def)
  have s: "0 < u" by (simp add: u_def first_list_def)
  have "u - 1 < size_of l * Suc ((u - 1) div size_of l)" using n by (metis dividend_less_times_div mult_Suc_right)
  then show "first_list tj l \<le> size_of l * first_list tj (Suc l)"
    unfolding first_list_up [OF assms] u_def [symmetric] using s by linarith
  assume i: "first_list tj l mod size_of l \<noteq> 0" "first_list tj l mod size_of l + k < size_of l"
  have "(u - 1) div size_of l = u div size_of l"
    using i(1) s unfolding u_def [symmetric] by (metis Suc_diff_1 div_Suc)
  moreover have "u + k < size_of l * Suc (u div size_of l)"
    using i(2) mult_div_mod_eq [of "size_of l" u] unfolding u_def [symmetric] mult_Suc_right by linarith
  ultimately show "first_list tj l + k < size_of l * first_list tj (Suc l)"
    unfolding first_list_up [OF assms] u_def [symmetric] by simp
qed

lemma first_list_mono:
  assumes "l \<le> m" and "1 \<le> l" and "m \<le> 6"
  shows "first_list tj l * 2 ^ tier l \<le> first_list tj m * 2 ^ tier m"
  using assms
proof (induction m rule: dec_induct)
  case (step m)
  have r: "m \<in> {1..5}" using step by auto
  have "first_list tj m * 2 ^ tier m \<le> size_of m * first_list tj (Suc m) * 2 ^ tier m"
    using first_list_bounds(1) [OF r] by (rule mult_le_mono1)
  also have "\<dots> = first_list tj (Suc m) * 2 ^ tier (Suc m)" by (simp add: tier_up [OF r] ac_simps)
  finally show ?case using step by linarith
qed simp

lemma mod_window_eq:
  assumes "x mod n = y mod n" and "u \<le> x" "x < u + n" and "u \<le> y" "y < u + n"
  shows "x = (y :: nat)"
proof -
  have "a \<le> c" if "a mod n = c mod n" "u \<le> c" "a < u + n" for a c
  proof (rule ccontr)
    assume "\<not> a \<le> c"
    then have "n dvd a - c" using that(1) by (simp add: mod_eq_dvd_iff_nat)
    then show False using \<open>\<not> a \<le> c\<close> that(2,3) by (auto dest: dvd_imp_le)
  qed
  from this [of x y] this [of y x] show ?thesis using assms by simp
qed

text \<open>Where the invariant of the wheel puts a timer, in these terms.\<close>

lemma tier_of:
  assumes w: "wheel 0 b" and n: "near b" and t: "t \<in> set (bucket b l i)"
  defines "tj \<equiv> timer_jiffies b"
  defines "d \<equiv> when_due tj (expires b t)"
  shows "l \<in> {1..5}" and "i = d div 2 ^ tier l mod size_of l" and "now_nat tj \<le> d"
    and "first_list tj l \<le> d div 2 ^ tier l" and "d div 2 ^ tier l < first_list tj l + size_of l"
proof -
  let ?e = "expires b t" and ?p = "now_nat tj - 1"
  have pos: "Suc ?p = now_nat tj" by (rule now_nat_pred)
  have "cascaded 0 tj l = ?p" by (simp add: cascaded_def)
  then have ok: "slot_ok ?p tj ?e l i" using wheelD(6) [OF w t] by (simp add: tj_def)
  show l: "l \<in> {1..5}" using size_of_level [OF bucket_pos [OF t wheelD(1) [OF w]]] .
  show "now_nat tj \<le> d" by (simp add: d_def when_due_def)
  have "i = d div 2 ^ tier l mod size_of l \<and> first_list tj l \<le> d div 2 ^ tier l \<and>
      d div 2 ^ tier l < first_list tj l + size_of l"
  proof (cases "l = 1")
    case True
    have f: "first_list tj 1 = now_nat tj" using pos by (simp add: first_list_def)
    consider "unat (?e - tj) < 256" "i = unat ?e mod 256" | "2 ^ 63 \<le> unat (?e - tj)" "i = unat tj mod 256"
      using ok True by (auto simp: slot_ok_def)
    then show ?thesis
    proof cases
      case 1
      then have "d = due_nat tj ?e" by (simp add: d_def when_due_def due_nat_def)
      moreover have "i = due_nat tj ?e mod 256" by (simp only: 1(2) unat_due [of ?e tj] mod_mod_low)
      moreover have "due_nat tj ?e < now_nat tj + 256" using 1(1) by (simp add: due_nat_def)
      moreover have "now_nat tj \<le> due_nat tj ?e" by (simp add: due_nat_def)
      ultimately show ?thesis using True f by (simp add: size_of_def)
    next
      case 2
      have "now_nat tj mod 256 = unat tj mod 256"
        using mod_mod_low [of "now_nat tj"] mod_mod_low [of "unat tj"] by (simp add: now_nat_def)
      then show ?thesis using 2 True f by (simp add: d_def when_due_def size_of_def)
    qed
  next
    case False
    have tl: "tier l = shift l" "size_of l = 64" using l False by (auto simp: tier_def size_of_def)
    obtain c where c: "c \<le> due_nat tj ?e" "l < 5 \<Longrightarrow> c = due_nat tj ?e" "i = c div 2 ^ shift l mod 64"
      "in_window (shift l) ?p c" and r: "unat (?e - tj) < 2 ^ 63"
      using ok False by (auto simp: slot_ok_def)
    have d: "d = due_nat tj ?e" using r by (simp add: d_def when_due_def due_nat_def)
    have win: "in_window (shift l) ?p d \<and> i = d div 2 ^ shift l mod 64"
    proof (cases "l < 5")
      case True
      then show ?thesis using c d by simp
    next
      case False
      then have five: "l = 5" using l by simp
      have m: "moderate tj ?e" using nearD(1) [OF n t] by (simp add: tj_def)
      have i: "i = d div 2 ^ 26 mod 64"
        using nearD(2) [OF n t five] div_mod_low [of 26 "due_nat tj ?e"] unat_due [of ?e tj] by (simp add: d)
      have "d \<le> ?p + 64 * 2 ^ 26" using m r pos by (simp add: d due_nat_def moderate_def)
      then have "d div 2 ^ 26 \<le> (?p + 64 * 2 ^ 26) div 2 ^ 26" by (rule div_le_mono)
      also have "\<dots> = 64 + ?p div 2 ^ 26" by (rule div_mult_self1) simp
      finally have "d div 2 ^ 26 \<le> ?p div 2 ^ 26 + 64" by (simp only: add.commute)
      moreover have "?p div 2 ^ 26 < d div 2 ^ 26"
        using c(1,4) five div_le_mono [of c d "2 ^ 26"] by (simp add: in_window_def shift_def d)
      ultimately show ?thesis using i five by (simp add: in_window_def shift_def)
    qed
    then show ?thesis by (simp add: tl first_list_def in_window_def)
  qed
  then show "i = d div 2 ^ tier l mod size_of l" and "first_list tj l \<le> d div 2 ^ tier l"
    and "d div 2 ^ tier l < first_list tj l + size_of l" by blast+
qed

text \<open>The \<open>k\<close>th list that the search visits holds the timers due in the \<open>k\<close>th interval.\<close>

lemma nth_list:
  fixes l :: nat
  assumes w: "wheel 0 b" and n: "near b"
  defines "tj \<equiv> timer_jiffies b"
  defines "u \<equiv> first_list tj l"
  shows "t \<in> set (bucket b l i) \<Longrightarrow> \<exists>k < size_of l. i = (u mod size_of l + k) mod size_of l"
    and "t \<in> set (bucket b l ((u mod size_of l + k) mod size_of l)) \<Longrightarrow> k < size_of l \<Longrightarrow>
      when_due tj (expires b t) div 2 ^ tier l = u + k"
proof -
  assume t: "t \<in> set (bucket b l i)"
  let ?q = "when_due tj (expires b t) div 2 ^ tier l"
  note q = tier_of [OF w n t, folded tj_def]
  have "?q - u < size_of l" "u + (?q - u) = ?q" using q(4,5) by (simp_all add: u_def)
  moreover from this have "i = (u + (?q - u)) mod size_of l" using q(2) by simp
  ultimately show "\<exists>k < size_of l. i = (u mod size_of l + k) mod size_of l"
    unfolding mod_add_left_eq by blast
next
  assume t: "t \<in> set (bucket b l ((u mod size_of l + k) mod size_of l))" and k: "k < size_of l"
  note q = tier_of [OF w n t, folded tj_def]
  show "when_due tj (expires b t) div 2 ^ tier l = u + k"
    by (rule mod_window_eq [where n = "size_of l" and u = u]) (use q k in \<open>simp_all add: u_def mod_add_left_eq\<close>)
qed

section \<open>The search\<close>

definition default_interrupt :: "timer_base \<Rightarrow> ulong" where
  "default_interrupt b = timer_jiffies b + NEXT_TIMER_MAX_DELTA"

text \<open>What holds before level \<open>l\<close> is searched, and of the result.\<close>

definition below :: "timer_base \<Rightarrow> nat \<Rightarrow> bool \<Rightarrow> ulong \<Rightarrow> bool" where
  "below b l found ex \<longleftrightarrow>
     (let tj = timer_jiffies b in moderate tj ex \<and>
        (\<forall>m i t. m < l \<longrightarrow> t \<in> set (bucket b m i) \<longrightarrow> when_due tj ex \<le> when_due tj (expires b t)) \<and>
        (found \<longrightarrow> when_due tj ex < Suc (first_list tj l) * 2 ^ tier l) \<and>
        (\<not> found \<longrightarrow> ex = default_interrupt b) \<and>
        (ex = default_interrupt b \<or> ex \<in> expires b ` {t. timer_pending t b}))"

definition first_due :: "timer_base \<Rightarrow> ulong \<Rightarrow> bool" where
  "first_due b r \<longleftrightarrow>
     (let tj = timer_jiffies b in
        (\<forall>t. timer_pending t b \<longrightarrow> when_due tj r \<le> when_due tj (expires b t)) \<and>
        (r = default_interrupt b \<or> r \<in> expires b ` {t. timer_pending t b}))"

lemma below_end:
  assumes w: "wheel 0 b" and wl: "work_list b = []" and "below b 6 found ex"
  shows "first_due b ex"
proof -
  have "m < 6" if "t \<in> set (bucket b m i)" for t m i
    using size_of_level [OF bucket_pos [OF that wheelD(1) [OF w]]] by simp
  then have "\<exists>m i. m < 6 \<and> t \<in> set (bucket b m i)" if "timer_pending t b" for t
    using that wl by (auto simp: timer_pending_iff)
  then show ?thesis using assms(3) unfolding below_def first_due_def Let_def by blast
qed

lemma search_step:
  assumes w: "wheel 0 b" and wl: "work_list b = []" and n: "near b" and l: "l \<in> {1..5}"
    and inv: "below b l found ex"
  defines "tj \<equiv> timer_jiffies b"
  defines "index \<equiv> first_list tj l mod size_of l"
  defines "slot \<equiv> \<lambda>k. (index + k) mod size_of l"
  assumes k: "k < size_of l" and none: "\<forall>j < k. bucket b l (slot j) = []" and f: "found \<Longrightarrow> k = 0"
    and some: "found \<or> bucket b l (slot k) \<noteq> []"
    and x: "moderate tj x" "when_due tj x \<le> when_due tj ex"
      "\<forall>t \<in> set (bucket b l (slot k)). when_due tj x \<le> when_due tj (expires b t)"
      "x = ex \<or> x \<in> expires b ` set (bucket b l (slot k))"
  shows "below b (Suc l) True x"
    and "index \<noteq> 0 \<Longrightarrow> \<not> slot k < index \<Longrightarrow> first_due b x"
proof -
  let ?D = "\<lambda>t. when_due tj (expires b t)" and ?u = "first_list tj l"
  note nth = nth_list [OF w n, of _ l, folded tj_def, folded index_def]
  have i: "moderate tj ex" "\<And>m i t. m < l \<Longrightarrow> t \<in> set (bucket b m i) \<Longrightarrow> when_due tj ex \<le> ?D t"
    "found \<Longrightarrow> when_due tj ex < Suc ?u * 2 ^ tier l"
    "ex = default_interrupt b \<or> ex \<in> expires b ` {t. timer_pending t b}"
    using inv unfolding below_def Let_def tj_def [symmetric] by blast+
  have lt: "when_due tj x < Suc (?u + k) * 2 ^ tier l"
  proof (cases found)
    case True
    then show ?thesis using i(3) f x(2) by simp
  next
    case False
    then obtain t where t: "t \<in> set (bucket b l (slot k))" using some hd_in_set by blast
    then have "?D t div 2 ^ tier l < Suc (?u + k)" using nth(2) [OF t [unfolded slot_def] k] by simp
    then have "?D t < Suc (?u + k) * 2 ^ tier l" by (simp only: div_less_iff_less_mult zero_less_power zero_less_numeral)
    then show ?thesis using x(3) t by (meson le_less_trans)
  qed
  have here: "when_due tj x \<le> ?D t" if t: "t \<in> set (bucket b l i)" for t i
  proof -
    obtain j where j: "j < size_of l" "i = slot j" using nth(1) [OF t] unfolding slot_def by blast
    then have d: "?D t div 2 ^ tier l = ?u + j" using nth(2) t unfolding slot_def by blast
    consider "j < k" | "j = k" | "Suc k \<le> j" by linarith
    then show ?thesis
    proof cases
      case 3
      then have "Suc (?u + k) \<le> ?D t div 2 ^ tier l" by (simp add: d)
      then have "Suc (?u + k) * 2 ^ tier l \<le> ?D t" by (simp only: less_eq_div_iff_mult_less_eq zero_less_power zero_less_numeral)
      then show ?thesis using lt by linarith
    qed (use j t none x(3) in auto)
  qed
  have upto: "when_due tj x \<le> ?D t" if "m < Suc l" "t \<in> set (bucket b m i)" for m i t
    using that here i(2) x(2) by (metis less_antisym order_trans)
  have src: "x = default_interrupt b \<or> x \<in> expires b ` {t. timer_pending t b}"
    using x(4) i(4) by (auto simp: timer_pending_iff)
  have "Suc (?u + k) \<le> size_of l * Suc (first_list tj (Suc l))"
    using first_list_bounds(1) [OF l, of tj] k by simp
  then have "Suc (?u + k) * 2 ^ tier l \<le> Suc (first_list tj (Suc l)) * 2 ^ tier (Suc l)"
    unfolding tier_up [OF l] by (metis ab_semigroup_mult_class.mult_ac(1) mult.commute mult_le_mono1)
  then have "when_due tj x < Suc (first_list tj (Suc l)) * 2 ^ tier (Suc l)" using lt by linarith
  then show "below b (Suc l) True x"
    using x(1) upto src unfolding below_def Let_def tj_def by blast
  assume e: "index \<noteq> 0" "\<not> slot k < index"
  have "index + k < size_of l"
  proof (rule ccontr)
    assume g: "\<not> index + k < size_of l"
    have "index < size_of l" using k by (simp add: index_def)
    then have "slot k = index + k - size_of l" using g k unfolding slot_def by (simp add: le_mod_geq)
    then show False using e(2) k g by linarith
  qed
  then have "Suc (?u + k) \<le> size_of l * first_list tj (Suc l)"
    using first_list_bounds(2) [OF l, of tj k] e(1) unfolding index_def by simp
  then have nxt: "Suc (?u + k) * 2 ^ tier l \<le> first_list tj (Suc l) * 2 ^ tier (Suc l)"
    unfolding tier_up [OF l] by (metis ab_semigroup_mult_class.mult_ac(1) mult.commute mult_le_mono1)
  have "when_due tj x \<le> ?D t" if t: "t \<in> set (bucket b m i)" for m i t
  proof (cases "m < Suc l")
    case True
    then show ?thesis using upto t by blast
  next
    case False
    note q = tier_of [OF w n t, folded tj_def]
    have "first_list tj (Suc l) * 2 ^ tier (Suc l) \<le> first_list tj m * 2 ^ tier m"
      by (rule first_list_mono) (use False q(1) in auto)
    also have "\<dots> \<le> ?D t div 2 ^ tier m * 2 ^ tier m" using q(4) by (rule mult_le_mono1)
    also have "\<dots> \<le> ?D t" by (rule div_times_less_eq_dividend)
    finally show ?thesis using nxt lt by linarith
  qed
  then show "first_due b x"
    using src wl unfolding first_due_def Let_def tj_def [symmetric] timer_pending_iff by auto
qed

lemma search_none:
  assumes w: "wheel 0 b" and n: "near b" and inv: "below b l False ex"
    and none: "\<forall>k < size_of l. bucket b l ((first_list (timer_jiffies b) l mod size_of l + k) mod size_of l) = []"
  shows "below b (Suc l) False ex"
proof -
  have "bucket b l i = []" for i
  proof (rule ccontr)
    assume "bucket b l i \<noteq> []"
    then obtain t where t: "t \<in> set (bucket b l i)" using hd_in_set by blast
    from nth_list(1) [OF w n this] none show False using t by (metis empty_iff list.set(1))
  qed
  then show ?thesis using inv unfolding below_def Let_def by (auto simp: less_Suc_eq)
qed

text \<open>The loops of the code in terms of the first list that stops the search.\<close>

lemma next_tv1_find:
  "next_tv1 b index ex slots =
     (case List.find (\<lambda>slot. tv1 b ! slot \<noteq> []) slots of
        None \<Rightarrow> Inr (False, ex)
      | Some slot \<Rightarrow> let x = expires b (hd (tv1 b ! slot))
          in if index = 0 \<or> slot < index then Inr (True, x) else Inl x)"
  by (induction slots) (auto simp: Let_def split: list.splits)

lemma fold_earlier: "(\<lambda>nte ex. if time_before (expires b nte) ex then expires b nte else ex) = earlier b"
  by (simp add: earlier_def fun_eq_iff)

lemma next_level_find:
  "next_level b varp index found ex slots =
     (case List.find (\<lambda>slot. found \<or> varp ! slot \<noteq> []) slots of
        None \<Rightarrow> Inr (found, ex)
      | Some slot \<Rightarrow> let x = fold (earlier b) (varp ! slot) ex
          in if index = 0 \<or> slot < index then Inr (True, x) else Inl x)"
  by (induction slots) (auto simp: Let_def fold_earlier cong: option.case_cong)

lemma find_slots_Some:
  assumes "List.find P (slots_from n index) = Some slot"
  obtains k where "k < n" "slot = (index + k) mod n" "P slot" "\<forall>j < k. \<not> P ((index + j) mod n)"
proof -
  from assms obtain k where k: "k < length (slots_from n index)" "P (slots_from n index ! k)" "slot = slots_from n index ! k"
    "\<forall>j < k. \<not> P (slots_from n index ! j)"
    unfolding find_Some_iff by blast
  then have l: "k < n" by (simp add: slots_from_def)
  show ?thesis
    by (rule that [of k]) (use k l in \<open>simp_all add: slots_from_def\<close>)
qed

lemma find_slots_None: "List.find P (slots_from n index) = None \<Longrightarrow> k < n \<Longrightarrow> \<not> P ((index + k) mod n)"
  by (auto simp: find_None_iff slots_from_def)

lemma bucket_vec: "sizes_ok b \<Longrightarrow> 0 < size_of l \<Longrightarrow> bucket b l (i mod size_of l) = vec b l ! (i mod size_of l)"
  by (simp add: bucket_def sizes_ok_def)

lemma search_tv1:
  assumes w: "wheel 0 b" and wl: "work_list b = []" and n: "near b"
  defines "index \<equiv> first_list (timer_jiffies b) 1 mod 256"
  shows "next_tv1 b index (default_interrupt b) (slots_from 256 index) = Inl r \<Longrightarrow> first_due b r"
    and "next_tv1 b index (default_interrupt b) (slots_from 256 index) = Inr (found, ex) \<Longrightarrow> below b 2 found ex"
proof -
  let ?tj = "timer_jiffies b" and ?d = "default_interrupt b"
  have sz: "size_of 1 = 256" by (simp add: size_of_def)
  have bk: "bucket b 1 (j mod 256) = tv1 b ! (j mod 256)" for j
    using bucket_vec [OF wheelD(1) [OF w], of 1 j, unfolded sz vec_def] by simp
  have dd: "unat (?d - ?tj) = 2 ^ 30 - 1" by (simp add: default_interrupt_def NEXT_TIMER_MAX_DELTA_def)
  have md: "moderate ?tj ?d" and Dd: "when_due ?tj ?d = now_nat ?tj + (2 ^ 30 - 1)"
    unfolding moderate_def when_due_def dd by simp_all
  have inv: "below b 1 False ?d"
    unfolding below_def Let_def using md bucket_pos [OF _ wheelD(1) [OF w]] size_of_level by fastforce
  have inv2: "below b 2 False ?d" if "List.find (\<lambda>slot. tv1 b ! slot \<noteq> []) (slots_from 256 index) = None"
    using search_none [OF w n inv] find_slots_None [OF that] bk unfolding sz index_def [symmetric] by (simp add: numeral_2_eq_2)
  have step: "below b 2 True (expires b (hd (tv1 b ! slot)))"
    "index \<noteq> 0 \<Longrightarrow> \<not> slot < index \<Longrightarrow> first_due b (expires b (hd (tv1 b ! slot)))"
    if s: "List.find (\<lambda>slot. tv1 b ! slot \<noteq> []) (slots_from 256 index) = Some slot" for slot
  proof -
    from s obtain k where k: "k < 256" "slot = (index + k) mod 256" "tv1 b ! slot \<noteq> []"
      "\<forall>j < k. \<not> tv1 b ! ((index + j) mod 256) \<noteq> []" by (rule find_slots_Some)
    let ?t = "hd (tv1 b ! slot)"
    have b: "bucket b 1 slot = tv1 b ! slot" unfolding k(2) by (rule bk)
    have t: "?t \<in> set (bucket b 1 slot)" using k(3) b by simp
    have same: "when_due ?tj (expires b t) = first_list ?tj 1 + k" if "t \<in> set (bucket b 1 slot)" for t
      using nth_list(2) [OF w n, of t 1 k, unfolded sz, folded index_def] that k(1,2) by simp
    have f: "first_list ?tj 1 = now_nat ?tj" using now_nat_pred [of ?tj] by (simp add: first_list_def)
    have le: "when_due ?tj (expires b ?t) \<le> when_due ?tj ?d" unfolding same [OF t] f Dd using k(1) by simp
    note st = search_step [OF w wl n _ inv, where k = k and x = "expires b ?t", unfolded sz, folded index_def, folded k(2)]
    have none: "\<forall>j < k. bucket b 1 ((index + j) mod 256) = []" using k(4) bk by simp
    have st1: "below b (Suc 1) True (expires b ?t)"
      and st2: "index \<noteq> 0 \<Longrightarrow> \<not> slot < index \<Longrightarrow> first_due b (expires b ?t)"
      by (rule st; (use k(1,3) b t none le same nearD(1) [OF n t] in simp)?)+
    then show "below b 2 True (expires b (hd (tv1 b ! slot)))"
      "index \<noteq> 0 \<Longrightarrow> \<not> slot < index \<Longrightarrow> first_due b (expires b (hd (tv1 b ! slot)))"
      by (simp_all add: numeral_2_eq_2)
  qed
  show "next_tv1 b index ?d (slots_from 256 index) = Inl r \<Longrightarrow> first_due b r"
    and "next_tv1 b index ?d (slots_from 256 index) = Inr (found, ex) \<Longrightarrow> below b 2 found ex"
    unfolding next_tv1_find using inv2 step by (auto simp: Let_def split: option.splits if_splits)
qed

lemma search_level:
  assumes w: "wheel 0 b" and wl: "work_list b = []" and n: "near b" and l: "l \<in> {2..5}" and inv: "below b l found ex"
  defines "index \<equiv> first_list (timer_jiffies b) l mod 64"
  shows "next_level b (vec b l) index found ex (slots_from 64 index) = Inl r \<Longrightarrow> first_due b r"
    and "next_level b (vec b l) index found ex (slots_from 64 index) = Inr (found', x) \<Longrightarrow> below b (Suc l) found' x"
proof -
  let ?tj = "timer_jiffies b" and ?v = "vec b l"
  have sz: "size_of l = 64" and l15: "l \<in> {1..5}" using l by (auto simp: size_of_def)
  have bk: "bucket b l (j mod 64) = ?v ! (j mod 64)" for j
    using bucket_vec [OF wheelD(1) [OF w], where l = l and i = j, unfolded sz] by simp
  have mex: "moderate ?tj ex" using inv by (simp add: below_def Let_def)
  have inv2: "below b (Suc l) found ex"
    if "List.find (\<lambda>slot. found \<or> ?v ! slot \<noteq> []) (slots_from 64 index) = None"
  proof -
    have no: "\<not> found \<and> (\<forall>k < 64. ?v ! ((index + k) mod 64) = [])"
      using find_slots_None [OF that, of 0] find_slots_None [OF that] by simp
    then have "below b l False ex" using inv by simp
    from search_none [OF w n this] no bk show ?thesis unfolding sz index_def [symmetric] by simp
  qed
  have step: "below b (Suc l) True (fold (earlier b) (?v ! slot) ex)"
    "index \<noteq> 0 \<Longrightarrow> \<not> slot < index \<Longrightarrow> first_due b (fold (earlier b) (?v ! slot) ex)"
    if s: "List.find (\<lambda>slot. found \<or> ?v ! slot \<noteq> []) (slots_from 64 index) = Some slot" for slot
  proof -
    from s obtain k where k: "k < 64" "slot = (index + k) mod 64" "found \<or> ?v ! slot \<noteq> []"
      "\<forall>j < k. \<not> (found \<or> ?v ! ((index + j) mod 64) \<noteq> [])" by (rule find_slots_Some)
    have b: "bucket b l slot = ?v ! slot" unfolding k(2) by (rule bk)
    let ?x = "fold (earlier b) (?v ! slot) ex"
    have e: "moderate ?tj ?x" "when_due ?tj ?x \<le> when_due ?tj ex"
      "\<forall>t \<in> set (?v ! slot). when_due ?tj ?x \<le> when_due ?tj (expires b t)" "?x = ex \<or> ?x \<in> expires b ` set (?v ! slot)"
      using earliest_in_list [OF mex, of "?v ! slot" b] nearD(1) [OF n, of _ l slot] by (simp_all add: b)
    have none: "\<forall>j < k. bucket b l ((index + j) mod 64) = []" and z: "found \<Longrightarrow> k = 0" using k(4) bk by auto
    note st = search_step [OF w wl n l15 inv, where k = k and x = ?x, unfolded sz, folded index_def, folded k(2), unfolded b]
    show "below b (Suc l) True ?x" by (rule st(1) [OF k(1) none z k(3) e])
    show "first_due b ?x" if "index \<noteq> 0" "\<not> slot < index" by (rule st(2) [OF k(1) none z k(3) e that])
  qed
  show "next_level b ?v index found ex (slots_from 64 index) = Inl r \<Longrightarrow> first_due b r"
    and "next_level b ?v index found ex (slots_from 64 index) = Inr (found', x) \<Longrightarrow> below b (Suc l) found' x"
    unfolding next_level_find using inv2 step by (auto simp: Let_def split: option.splits if_splits)
qed

text \<open>The counter of the code at each level is \<open>first_list\<close>, as far as it matters.\<close>

lemma round_up:
  fixes w :: ulong
  assumes "unat w < 2 ^ 63" and i: "i = unat w mod 2 ^ s" and s: "s \<in> {6, 8}"
  shows "unat (drop_bit s (if i \<noteq> 0 then w + of_nat (2 ^ s - i) else w)) = (unat w + 2 ^ s - 1) div 2 ^ s"
proof (cases "i = 0")
  case True
  then have "(unat w + (2 ^ s - 1)) div 2 ^ s = unat w div 2 ^ s"
    using i by (metis div_plus_div_distrib_dvd_left mod_0_imp_dvd add.right_neutral div_less diff_less zero_less_numeral zero_less_one zero_less_power)
  then show ?thesis using True by (simp add: unat_drop_bit)
next
  case False
  have il: "i < 2 ^ s" by (simp add: i)
  have s8: "(2 :: nat) ^ s \<le> 2 ^ 8" using s by auto
  have "2 ^ s - i < 2 ^ LENGTH(64)" using s8 by simp
  then have "unat (of_nat (2 ^ s - i) :: ulong) = 2 ^ s - i" by (simp only: unsigned_of_nat take_bit_nat_eq_self of_nat_id)
  then have "unat (w + of_nat (2 ^ s - i)) = unat w + (2 ^ s - i)"
    using assms(1) s8 by (subst unat_add_ulong) simp_all
  moreover have "(unat w + (2 ^ s - i)) div 2 ^ s = (unat w + 2 ^ s - 1) div 2 ^ s"
  proof -
    define q where "q = unat w div 2 ^ s"
    have u: "unat w = 2 ^ s * q + i" by (simp add: q_def i)
    have "(unat w + (2 ^ s - i)) div 2 ^ s = Suc q" using il u by simp
    moreover have "unat w + 2 ^ s - 1 = (i - 1) + 2 ^ s * Suc q" using False u by simp
    moreover have "(i - 1 + 2 ^ s * Suc q) div 2 ^ s = Suc q"
      by (subst div_mult_self2) (use il in simp_all)
    ultimately show ?thesis by simp
  qed
  ultimately show ?thesis using False by (simp add: unat_drop_bit)
qed

lemma first_list_round:
  assumes "l \<in> {1..5}"
  shows "first_list tj (Suc l) = (first_list tj l + size_of l - 1) div size_of l"
proof -
  have n: "0 < size_of l" using assms by (auto simp: size_of_def)
  have "0 < first_list tj l" by (simp add: first_list_def)
  then have e: "first_list tj l + size_of l - 1 = (first_list tj l - 1) + size_of l" by linarith
  show ?thesis unfolding first_list_up [OF assms] e using n by (subst div_add_self2) simp_all
qed

lemma div_mod_wide: "s + k \<le> 64 \<Longrightarrow> (x mod 2 ^ 64) div 2 ^ s mod 2 ^ k = x div 2 ^ s mod (2 ^ k :: nat)"
proof -
  assume s: "s + k \<le> 64"
  have "take_bit k (drop_bit s (take_bit 64 x)) = take_bit k (drop_bit s x)"
    using s by (simp only: take_bit_drop_bit take_bit_take_bit min_absorb1 add.commute)
  then show ?thesis by (simp only: take_bit_eq_mod drop_bit_eq_div)
qed

lemma round_up_mod:
  assumes "x mod 2 ^ (m + 6) = y mod (2 ^ (m + 6) :: nat)"
  shows "(x + 63) div 64 mod 2 ^ m = (y + 63) div 64 mod 2 ^ m"
proof -
  have "(z + 63) div 64 mod 2 ^ m = (z + 63) mod 2 ^ (m + 6) div 64" for z :: nat
  proof -
    have "take_bit m (drop_bit 6 (z + 63)) = drop_bit 6 (take_bit (m + 6) (z + 63))"
      by (simp only: drop_bit_take_bit diff_add_inverse2)
    moreover have "(2 :: nat) ^ 6 = 64" by simp
    ultimately show ?thesis unfolding take_bit_eq_mod drop_bit_eq_div by (simp only:)
  qed
  moreover have "(x + 63) mod 2 ^ (m + 6) = (y + 63) mod 2 ^ (m + 6)" using assms by (rule mod_add_cong) simp
  ultimately show ?thesis by simp
qed

lemma next_levels_first:
  assumes w: "wheel 0 b" and wl: "work_list b = []" and n: "near b"
  shows "below b l found ex \<Longrightarrow> l + k = 6 \<Longrightarrow> 2 \<le> l \<Longrightarrow> unat c < 2 ^ 63 \<Longrightarrow>
    unat c mod 2 ^ (6 * k) = first_list (timer_jiffies b) l mod 2 ^ (6 * k) \<Longrightarrow>
    first_due b (next_levels b (map (vec b) [l ..< 6]) c found ex)"
proof (induction k arbitrary: l found ex c)
  case 0
  then show ?case using below_end [OF w wl] by simp
next
  case (Suc k)
  have l: "l \<in> {2..5}" "l \<in> {1..5}" "l < 6" using Suc.prems by auto
  have sz: "size_of l = 64" using l(1) by (auto simp: size_of_def)
  let ?i = "unat (c AND TVN_MASK)" and ?u = "first_list (timer_jiffies b)"
  let ?c = "drop_bit TVN_BITS (if ?i \<noteq> 0 then c + of_nat (TVN_SIZE - ?i) else c)"
  have ic: "?i = unat c mod 64" by (rule unat_and_mask)
  have i: "?i = ?u l mod 64"
  proof -
    have "x mod 64 = x mod 2 ^ (6 * Suc k) mod (64 :: nat)" for x by (rule mod_mod_cancel [symmetric]) (simp add: power_add)
    then show ?thesis using Suc.prems(5) unfolding ic by metis
  qed
  have bits: "TVN_BITS = 6" "TVN_SIZE = 2 ^ 6" by (simp_all add: TVN_BITS_def TVN_SIZE_def)
  have "unat ?c = (unat c + 2 ^ 6 - 1) div 2 ^ 6"
    unfolding bits by (rule round_up [OF Suc.prems(4)]) (simp_all add: ic)
  then have c: "unat ?c = (unat c + 63) div 64" by simp
  have u: "?u (Suc l) = (?u l + 63) div 64" using first_list_round [OF l(2)] by (simp add: sz)
  have cm: "unat ?c mod 2 ^ (6 * k) = ?u (Suc l) mod 2 ^ (6 * k)"
    unfolding c u by (rule round_up_mod) (use Suc.prems(5) in \<open>simp add: add.commute\<close>)
  have cl: "unat ?c < 2 ^ 63" unfolding c using Suc.prems(4) by simp
  have sl: "TVN_SIZE = 64" by (simp add: TVN_SIZE_def TVN_BITS_def)
  note lev = search_level [OF w wl n l(1) Suc.prems(1), folded i]
  have e: "[l ..< 6] = l # [Suc l ..< 6]" using l(3) by (rule upt_conv_Cons)
  show ?case
  proof (cases "next_level b (vec b l) ?i found ex (slots_from 64 ?i)")
    case (Inl r)
    then show ?thesis using lev(1) unfolding e by (simp add: sl Let_def)
  next
    case (Inr fx)
    obtain f x where fx: "fx = (f, x)" by fastforce
    have "first_due b (next_levels b (map (vec b) [Suc l ..< 6]) ?c f x)"
      by (rule Suc.IH [OF lev(2) [OF Inr [unfolded fx]] _ _ cl cm]) (use Suc.prems in auto)
    then show ?thesis unfolding e by (simp add: sl Let_def Inr [unfolded fx])
  qed
qed

text \<open>The function itself.\<close>

lemma timer_next_interrupt_first:
  assumes w: "wheel 0 b" and wl: "work_list b = []" and n: "near b"
  shows "first_due b (timer_next_interrupt b)"
proof -
  let ?tj = "timer_jiffies b" and ?i = "unat (timer_jiffies b AND TVR_MASK)"
  let ?w = "if ?i \<noteq> 0 then ?tj + of_nat (TVR_SIZE - ?i) else ?tj"
  let ?c = "drop_bit TVR_BITS ?w"
  have bits: "TVR_BITS = 8" "TVR_SIZE = 2 ^ 8" by (simp_all add: TVR_BITS_def TVR_SIZE_def)
  have ic: "?i = unat ?tj mod 256" by (rule unat_and_mask)
  have f1: "first_list ?tj 1 = now_nat ?tj" using now_nat_pred [of ?tj] by (simp add: first_list_def)
  have i: "?i = first_list ?tj 1 mod 256"
    unfolding ic f1 now_nat_def using mod_mod_low [of "unat ?tj + 2 ^ 64"] mod_mod_low [of "unat ?tj"] by simp
  have cl: "unat ?c < 2 ^ 63"
  proof -
    have "unat ?w div 2 ^ 8 < 2 ^ 63" using unat_ulong_less [of ?w] by (intro less_mult_imp_div_less) simp
    then show ?thesis unfolding bits unat_drop_bit .
  qed
  have cm: "unat ?c mod 2 ^ 24 = first_list ?tj 2 mod 2 ^ 24"
  proof -
    define r where "r = (if ?i = 0 then 0 else 256 - ?i)"
    have "r \<le> 256" by (simp add: r_def)
    then have "r < 2 ^ 64" by simp
    then have "unat (of_nat r :: ulong) = r" using \<open>r \<le> 256\<close> by (simp add: unat_of_nat)
    moreover have "?w = ?tj + of_nat r" by (simp add: r_def bits)
    ultimately have "unat ?w = (unat ?tj + r) mod 2 ^ 64" using unat_add_mod [of ?tj "of_nat r"] by simp
    also have "\<dots> = (now_nat ?tj + r) mod 2 ^ 64"
      by (simp only: now_nat_def add.assoc add.commute [of "2 ^ 64" r]) (simp only: mod_add_self2 flip: add.assoc)
    finally have "unat ?c mod 2 ^ 24 = (now_nat ?tj + r) mod 2 ^ 64 div 2 ^ 8 mod 2 ^ 24"
      unfolding bits unat_drop_bit by (simp only:)
    also have "\<dots> = (now_nat ?tj + r) div 2 ^ 8 mod 2 ^ 24" by (rule div_mod_wide) simp
    also have "(now_nat ?tj + r) div 2 ^ 8 = first_list ?tj 2"
    proof -
      have "now_nat ?tj mod 256 = ?i" using i f1 by simp
      then have q: "now_nat ?tj = 256 * (now_nat ?tj div 256) + ?i" using mult_div_mod_eq [of 256 "now_nat ?tj"] by simp
      have il: "?i < 256" unfolding ic by simp
      have "(256 * k + ?i + r) div 256 = (256 * k + ?i + 255) div 256" for k using il by (auto simp: r_def)
      then have "(now_nat ?tj + r) div 256 = (now_nat ?tj + 255) div 256" using q by metis
      moreover have "first_list ?tj 2 = (now_nat ?tj + 255) div 256"
        using first_list_round [of 1 ?tj, unfolded f1] by (simp add: size_of_def numeral_2_eq_2)
      moreover have "(2 :: nat) ^ 8 = 256" by simp
      ultimately show ?thesis by (simp only:)
    qed
    finally show ?thesis .
  qed
  have "6 * 4 = (24 :: nat)" by simp
  then have cm4: "unat ?c mod 2 ^ (6 * 4) = first_list ?tj 2 mod 2 ^ (6 * 4)" using cm by (simp only:)
  have sl: "TVR_SIZE = 256" by (simp add: bits)
  note s1 = search_tv1 [OF w wl n, folded i, folded sl]
  note def = timer_next_interrupt_def [of b, unfolded Let_def, folded default_interrupt_def]
  show ?thesis
  proof (cases "next_tv1 b ?i (default_interrupt b) (slots_from TVR_SIZE ?i)")
    case (Inl r)
    then show ?thesis unfolding def using s1(1) by (simp only: sum.case)
  next
    case (Inr fx)
    obtain f x where fx: "fx = (f, x)" by fastforce
    have "first_due b (next_levels b (map (vec b) [2 ..< 6]) ?c f x)"
      by (rule next_levels_first [OF w wl n s1(2) [OF Inr [unfolded fx]] _ _ cl cm4]) simp_all
    moreover have "map (vec b) [2 ..< 6] = [tv2 b, tv3 b, tv4 b, tv5 b]" by (simp add: vec_def upt_rec)
    ultimately show ?thesis unfolding def Inr fx sum.case prod.case by (simp only:)
  qed
qed

section \<open>What the engines rely on\<close>

text \<open>Every operation keeps \<open>near\<close>, if the times it is given are moderate.\<close>

lemma near_add:
  assumes z: "sizes_ok b" and n: "near b" and m: "moderate (timer_jiffies b) (expires b t)"
  shows "near (internal_add_timer t b)" and "sizes_ok (internal_add_timer t b)"
proof -
  let ?tj = "timer_jiffies b" and ?e = "expires b t"
  obtain l i where s: "timer_slot ?tj ?e = (l, i)" by fastforce
  note bk = bucket_internal_add(1) [OF z s]
  have five: "i = unat ?e div 2 ^ 26 mod 64" if "l = 5"
  proof -
    have d: "unat (?e - ?tj) < 2 ^ 32" "i = (now_nat ?tj + min (unat (?e - ?tj)) (2 ^ 32 - 1)) div 2 ^ 26 mod 64"
      using s that m by (auto simp: timer_slot_cases moderate_def split: if_splits)
    have "min (unat (?e - ?tj)) (2 ^ 32 - 1) = unat (?e - ?tj)" by (rule min_absorb1) (use d(1) in simp)
    then show ?thesis
      unfolding d(2) using div_mod_low [of 26 "due_nat ?tj ?e"] unat_due [of ?e ?tj] by (simp add: due_nat_def)
  qed
  show "near (internal_add_timer t b)"
    unfolding near_def jiffies_internal_add internal_add_expires bk
    using n m five by (auto simp: near_def)
  show "sizes_ok (internal_add_timer t b)" by (rule bucket_internal_add(2) [OF z s])
qed

lemma near_subset:
  assumes "near b" and "timer_jiffies b' = timer_jiffies b" and "expires b' = expires b"
    and "\<And>l i. set (bucket b' l i) \<subseteq> set (bucket b l i)"
  shows "near b'"
  unfolding near_def
proof (intro allI impI)
  fix l i t assume "t \<in> set (bucket b' l i)"
  then have "t \<in> set (bucket b l i)" using assms(4) by blast
  from nearD [OF assms(1) this] show "moderate (timer_jiffies b') (expires b' t) \<and> (l = 5 \<longrightarrow> i = unat (expires b' t) div 2 ^ 26 mod 64)"
    by (simp add: assms(2,3))
qed

lemma near_add_all:
  "sizes_ok b \<Longrightarrow> near b \<Longrightarrow> \<forall>t \<in> set ts. moderate (timer_jiffies b) (expires b t) \<Longrightarrow>
     near (fold internal_add_timer ts b) \<and> sizes_ok (fold internal_add_timer ts b)"
  by (induction ts arbitrary: b) (simp_all add: near_add)

lemma near_cascade:
  assumes "sizes_ok b \<and> near b" and i: "i < size_of l"
  shows "sizes_ok (fst (cascade l i b)) \<and> near (fst (cascade l i b))"
proof -
  let ?b = "set_vec l ((vec b l)[i := []]) b"
  have z: "sizes_ok b" and n: "near b" using assms(1) by simp_all
  note bk = bucket_set_vec [OF z i, of "[]"]
  have v: "vec b l ! i = bucket b l i" using z i by (simp add: bucket_def sizes_ok_def)
  have "near ?b" by (rule near_subset [OF n]) (simp_all add: bk(1))
  moreover have "\<forall>t \<in> set (bucket b l i). moderate (timer_jiffies ?b) (expires ?b t)" using nearD(1) [OF n] by simp
  ultimately show ?thesis using near_add_all [OF bk(2)] by (simp add: cascade_def v)
qed

lemma INDEX_less: "INDEX b k < 64"
  by (simp add: INDEX_def unat_and_mask)

lemma near_cascade_timers: "sizes_ok b \<Longrightarrow> near b \<Longrightarrow> near (cascade_timers i b)"
proof -
  have c: "sizes_ok b' \<and> near b'" if "sizes_ok b \<and> near b" "cascade l (INDEX b k) b = (b', j)" "l \<in> {2..5}" for b b' l k j
    using near_cascade [OF that(1), of "INDEX b k" l] that(2,3) INDEX_less [of b k] by (auto simp: size_of_def)
  assume b: "sizes_ok b" "near b"
  obtain b2 i2 where c2: "cascade 2 (INDEX b 0) b = (b2, i2)" by fastforce
  have n2: "sizes_ok b2 \<and> near b2" by (rule c [OF _ c2]) (simp_all add: b)
  obtain b3 i3 where c3: "cascade 3 (INDEX b2 1) b2 = (b3, i3)" by fastforce
  have n3: "sizes_ok b3 \<and> near b3" by (rule c [OF n2 c3]) simp
  obtain b4 i4 where c4: "cascade 4 (INDEX b3 2) b3 = (b4, i4)" by fastforce
  have n4: "sizes_ok b4 \<and> near b4" by (rule c [OF n3 c4]) simp
  obtain b5 i5 where c5: "cascade 5 (INDEX b4 3) b4 = (b5, i5)" by fastforce
  have n5: "sizes_ok b5 \<and> near b5" by (rule c [OF n4 c5]) simp
  show "near (cascade_timers i b)"
    using b n2 n3 n4 n5 c2 c3 c4 c5 by (simp add: cascade_timers_def)
qed

lemma near_tick_start:
  assumes w: "wheel 0 b" and wl: "work_list b = []" and n: "near b"
  shows "near (tick_start b)"
proof -
  let ?tj = "timer_jiffies b" and ?i = "unat (timer_jiffies b AND TVR_MASK)"
  define b1 where "b1 = cascade_timers ?i b"
  note s = tick_start_spec [OF w wl]
  have n1: "near b1" unfolding b1_def by (rule near_cascade_timers [OF wheelD(1) [OF w] n])
  have post: "expires b1 = expires b" "timer_jiffies b1 = ?tj"
    using cascade_timers_spec [OF w, of ?i] by (simp_all add: unat_and_mask cascade_post_def b1_def)
  have st: "tick_start b = b1\<lparr>timer_jiffies := ?tj + 1, work_list := tv1 b1 ! ?i, tv1 := (tv1 b1)[?i := []]\<rparr>"
    by (simp add: tick_start_def b1_def Let_def)
  have "bucket (tick_start b) l i = (if l = 1 \<and> i = ?i then [] else bucket b1 l i)" for l i
    unfolding st by (auto simp: bucket_def vec_def nth_list_update)
  then have sub: "t \<in> set (bucket b1 l i)" if "t \<in> set (bucket (tick_start b) l i)" for t l i
    using that by (simp split: if_splits)
  show ?thesis
    unfolding near_def
  proof (intro allI impI)
    fix l i t assume t: "t \<in> set (bucket (tick_start b) l i)"
    let ?e = "expires b t"
    have "t \<notin> set (work_list (tick_start b))" by (rule wheelD(4) [OF s(1) t])
    moreover have "timer_pending t b" using t s(5) [of t] by (auto simp: timer_pending_iff)
    ultimately have "\<not> is_due ?tj ?e" unfolding s(4) by simp
    then have d: "unat (?e - ?tj) \<noteq> 0" "unat (?e - ?tj) < 2 ^ 63" by (simp_all add: is_due_unat)
    have m: "moderate ?tj ?e" and f: "l = 5 \<Longrightarrow> i = unat ?e div 2 ^ 26 mod 64"
      using nearD [OF n1 sub [OF t]] by (simp_all add: post)
    have "?e - ?tj \<noteq> 0" using d(1) by (simp add: unat_eq_zero)
    then have "unat (?e - ?tj - 1) = unat (?e - ?tj) - 1" by (rule unat_minus_one)
    then have "unat (?e - (?tj + 1)) = unat (?e - ?tj) - 1" by (simp only: diff_diff_eq)
    then have "moderate (?tj + 1) ?e" using m d unfolding moderate_def by linarith
    then show "moderate (timer_jiffies (tick_start b)) (expires (tick_start b) t) \<and>
        (l = 5 \<longrightarrow> i = unat (expires (tick_start b) t) div 2 ^ 26 mod 64)"
      using f by (simp add: s(2,3))
  qed
qed

lemma near_del: "near b \<Longrightarrow> near (timer_del t b)"
  by (rule near_subset [of b]) (simp_all add: timer_del_def set_remove1_subset)

lemma near_mod:
  assumes w: "wheel k b" and n: "near b" and m: "moderate (timer_jiffies b) e"
  shows "near (timer_mod t e b)"
proof -
  let ?u = "timer_del t b"
  let ?b = "?u\<lparr>expires := (expires ?u)(t := e)\<rparr>"
  have md: "timer_mod t e b = internal_add_timer t ?b" by (simp add: timer_mod_def timer_del_def Let_def)
  have np: "t' \<noteq> t" if "t' \<in> set (bucket ?u l i)" for t' l i
    using wheel_del(2) [OF w, of t t] that by (auto simp: timer_pending_iff)
  have bk: "bucket ?b l i = bucket ?u l i" for l i by (simp add: bucket_def vec_def)
  have "near ?b" using near_del [OF n, of t] np unfolding near_def bk by simp
  moreover have "sizes_ok ?b" using wheelD(1) [OF wheel_del(1) [OF w, of t]] by (simp add: sizes_ok_simps)
  ultimately show ?thesis unfolding md using m by (intro near_add) simp_all
qed

lemma near_init: "near (init_timer_base j)"
  using init_wheel(2) [of _ j] by (auto simp: near_def timer_pending_iff)

text \<open>The states of a wheel whose owner, and its callbacks, only ask for moderate times.\<close>

definition modest :: "'u timer_cb \<Rightarrow> bool" where
  "modest cb \<longleftrightarrow> (\<forall>t b u t' e. TMod t' e \<in> set (snd (cb t b u)) \<longrightarrow> moderate (timer_jiffies b) e)"

inductive timers_used :: "'u timer_cb \<Rightarrow> timer_base \<Rightarrow> bool" for cb :: "'u timer_cb" where
  used_init: "timers_used cb (init_timer_base j)"
| used_mod: "timers_used cb b \<Longrightarrow> moderate (timer_jiffies b) e \<Longrightarrow> timers_used cb (timer_mod t e b)"
| used_del: "timers_used cb b \<Longrightarrow> timers_used cb (timer_del t b)"
| used_run: "timers_used cb b \<Longrightarrow> timers_run cb j b u = (n, b', u') \<Longrightarrow> timers_used cb b'"

lemma near_exec:
  assumes "wheel k b" and "near b" and "\<forall>t e. TMod t e \<in> set cs \<longrightarrow> moderate (timer_jiffies b) e"
  shows "near (fold timer_exec cs b)"
  using assms
proof (induction cs arbitrary: b)
  case (Cons c cs)
  have "near (timer_exec c b)"
    using Cons.prems near_mod [OF Cons.prems(1,2)] near_del [OF Cons.prems(2)] by (cases c) auto
  with Cons.IH [OF wheel_exec [OF Cons.prems(1)] this] Cons.prems(3) show ?case by simp
qed simp

lemma near_tick:
  assumes w: "wheel_wf b" and n: "near b" and q: "modest cb" and run: "timers_tick cb m b u = (m', b', u')"
  shows "wheel_wf b' \<and> near b'"
proof -
  have b: "wheel 0 b" "work_list b = []" using w by (simp_all add: wheel_wf_def)
  let ?J = "\<lambda>(_ :: 32 word) b' (_ :: 'a). wheel 0 b' \<and> near b'"
  have "?J m' b' u' \<and> work_list b' = []"
  proof (rule run_work_rule [where J = ?J])
    show "?J m (tick_start b) u" using tick_start_spec(1) [OF b] near_tick_start [OF b n] by simp
    show "run_work_list cb m (tick_start b) u = (m', b', u')" using run by (simp add: timers_tick_start)
  next
    fix n1 b1 u1 t r u2 cmds
    assume J: "?J n1 b1 u1" and c: "cb t (timer_del t b1) u1 = (u2, cmds)"
    have d: "wheel 0 (timer_del t b1)" "near (timer_del t b1)" using J wheel_del(1) near_del by blast+
    have "\<forall>t' e. TMod t' e \<in> set cmds \<longrightarrow> moderate (timer_jiffies (timer_del t b1)) e"
      using q [unfolded modest_def, rule_format, of _ _ t "timer_del t b1" u1] by (simp add: c)
    from near_exec [OF d this] wheel_exec_fold [OF d(1)] show "?J (n1 + 1) (fold timer_exec cmds (timer_del t b1)) u2" by blast
  qed
  then show ?thesis by (simp add: wheel_wf_def)
qed

lemma near_run:
  assumes w: "wheel_wf b" and n: "near b" and q: "modest cb" and run: "timers_run cb j b u = (m, b', u')"
  shows "wheel_wf b' \<and> near b'"
proof (cases "time_after_eq j (timer_jiffies b)")
  case True
  have "(wheel_wf b' \<and> near b') \<and> \<not> time_after_eq j (timer_jiffies b')"
  proof (rule timers_run_loop_rule [where J = "\<lambda>(_ :: 32 word) b (_ :: 'a). wheel_wf b \<and> near b"])
    show "timers_run_loop cb j 0 b u = (m, b', u')" using run True by (simp add: timers_run_def)
  qed (use w n near_tick [OF _ _ q] in blast)+
  then show ?thesis by simp
qed (use w n run in \<open>simp add: timers_run_def\<close>)

lemma wheel_wf_mod: "wheel_wf b \<Longrightarrow> wheel_wf (timer_mod t e b)"
  using wheel_mod(1) [of 0 b t e] by (simp add: wheel_wf_def timer_mod_def timer_del_def Let_def)

lemma wheel_wf_del: "wheel_wf b \<Longrightarrow> wheel_wf (timer_del t b)"
  using wheel_del(1) [of 0 b t] by (simp add: wheel_wf_def timer_del_def)

lemma timers_used_ok: "timers_used cb b \<Longrightarrow> modest cb \<Longrightarrow> wheel_wf b \<and> near b"
proof (induction rule: timers_used.induct)
  case (used_init j)
  show ?case by (simp add: example_wheel_wf near_init)
next
  case (used_mod b e t)
  then have b: "wheel_wf b" "near b" by blast+
  show ?case using wheel_wf_mod [OF b(1)] near_mod [OF _ b(2) used_mod.hyps(2), of 0] b(1) by (simp add: wheel_wf_def)
next
  case (used_del b t)
  then show ?case by (simp add: wheel_wf_del near_del)
next
  case (used_run b j u n b' u')
  then show ?case using near_run [OF _ _ used_run.prems used_run.hyps(2)] by simp
qed

text \<open>
  C14: \<open>timer_next_interrupt\<close> is exact under a condition on the times that were asked for. Take any
  sequence of \<open>timer_mod\<close>, \<open>timer_del\<close> and \<open>timers_run\<close> on a fresh wheel in which the program and the
  callbacks only set times that are less than \<open>2 ^ 32\<close> jiffies ahead of the wheel, or in the past by at
  most \<open>2 ^ 62\<close> jiffies (\<open>moderate\<close>). Then the result is the time of a pending timer that no other
  precedes, or, when none is due within the next \<open>NEXT_TIMER_MAX_DELTA\<close> jiffies, possibly that bound;
  so an engine that sleeps until then never oversleeps a timer. An overdue timer counts as due now.
  Nothing is claimed outside the condition: \<open>internal_add_timer\<close> links a timer that is further ahead
  into the list of an earlier time, where the search can find it before a timer that is due sooner.
\<close>

theorem timer_next_interrupt_exact:
  assumes "timers_used cb b" and "modest cb"
  shows "let tj = timer_jiffies b; r = timer_next_interrupt b in
    (\<forall>t. timer_pending t b \<longrightarrow> when_due tj r \<le> when_due tj (expires b t)) \<and>
    (r = tj + NEXT_TIMER_MAX_DELTA \<or> (\<exists>t. timer_pending t b \<and> r = expires b t))"
proof -
  have "wheel_wf b \<and> near b" by (rule timers_used_ok [OF assms])
  then have "first_due b (timer_next_interrupt b)" by (intro timer_next_interrupt_first) (simp_all add: wheel_wf_def)
  then show ?thesis unfolding first_due_def default_interrupt_def Let_def image_def mem_Collect_eq Bex_def .
qed

theorem timer_next_interrupt_exact_witness:
  "timer_next_interrupt (timer_mod 7 1000 (init_timer_base 5)) = 1000"
proof -
  let ?b = "timer_mod 7 1000 (init_timer_base 5)" and ?cb = "\<lambda>t b u. (u :: unit, [])"
  have "moderate (timer_jiffies (init_timer_base 5)) 1000" by (simp add: moderate_def init_timer_base_def)
  then have u: "timers_used ?cb ?b" by (intro used_mod used_init)
  have q: "modest ?cb" by (simp add: modest_def)
  have p: "timer_pending t ?b \<longleftrightarrow> t = 7" for t using wheel_mod(2) [OF init_wheel(1)] init_wheel(2) by simp
  have e: "expires ?b 7 = 1000" "timer_jiffies ?b = 5"
    by (simp_all add: wheel_mod(3) [OF init_wheel(1)]) (simp add: timer_mod_def init_timer_base_def Let_def)
  have n: "\<not> when_due 5 (5 + NEXT_TIMER_MAX_DELTA) \<le> when_due 5 1000" by (simp add: when_due_def NEXT_TIMER_MAX_DELTA_def)
  show ?thesis using timer_next_interrupt_exact [OF u q] p e n unfolding Let_def by metis
qed

end
