(* ===== verification/Pid.thy ===== *)
theory Pid
  imports Msock_Prelude "HOL-Library.Char_ord"
begin

text \<open>
  Process identifiers (\<open>src/msock_internal.h\<close>): the number of a domain in the top five bits, the
  offset of a process in its domain in the others; the message types of \<open>src/msock.h\<close>; and the
  printing of both.
\<close>

unbundle bit_operations_syntax

section \<open>Identifiers\<close>

type_synonym pid = ulong

definition GID_BITS :: nat where "GID_BITS = 5"
definition POFF_BITS :: nat where "POFF_BITS = 8 * 8 - GID_BITS"

definition pid_to_gid :: "pid \<Rightarrow> 32 word" where
  "pid_to_gid mpid = ucast (drop_bit POFF_BITS mpid)"

definition pid_to_poff :: "pid \<Rightarrow> ulong" where
  "pid_to_poff mpid = drop_bit GID_BITS (push_bit GID_BITS mpid)"

definition poff_gid_to_pid :: "ulong \<Rightarrow> ulong \<Rightarrow> pid" where
  "poff_gid_to_pid poff gid = poff OR push_bit POFF_BITS gid"

section \<open>Message types\<close>

type_synonym msg_type = "32 word"

definition MSG_FD_READ :: msg_type where "MSG_FD_READ = 0"
definition MSG_FD_WRITE :: msg_type where "MSG_FD_WRITE = 1"
definition MSG_FD_CLOSE :: msg_type where "MSG_FD_CLOSE = 2"
definition MSG_FD_TIMEOUTED :: msg_type where "MSG_FD_TIMEOUTED = 3"
definition MSG_FD_REGISTER_READ :: msg_type where "MSG_FD_REGISTER_READ = 4"
definition MSG_FD_REGISTER_WRITE :: msg_type where "MSG_FD_REGISTER_WRITE = 5"
definition MSG_FD_UNREGISTER :: msg_type where "MSG_FD_UNREGISTER = 6"
definition MSG_IO_FSYNC :: msg_type where "MSG_IO_FSYNC = 7"
definition MSG_IO_OPEN :: msg_type where "MSG_IO_OPEN = 8"
definition MSG_IO_PREAD :: msg_type where "MSG_IO_PREAD = 9"
definition MSG_SIGNAL_REGISTER :: msg_type where "MSG_SIGNAL_REGISTER = 10"
definition MSG_SIGNAL_UNREGISTER :: msg_type where "MSG_SIGNAL_UNREGISTER = 11"
definition MSG_SIGNAL :: msg_type where "MSG_SIGNAL = 12"
definition MSG_EXIT :: msg_type where "MSG_EXIT = 13"
definition MSG_GC :: msg_type where "MSG_GC = 14"
definition MSG_QUEUE_EMPTY :: msg_type where "MSG_QUEUE_EMPTY = 15"
definition MSG_USER :: msg_type where "MSG_USER = 16"

text \<open>The two results of a callback that are followed by a branch of their own count up from RECV_OK.\<close>

type_synonym recv = "32 word"

definition RECV_OK :: recv where "RECV_OK = 0xCAFEBABE"
definition RECV_BADMATCH :: recv where "RECV_BADMATCH = RECV_OK + 1"
definition RECV_EXIT :: recv where "RECV_EXIT = RECV_OK + 2"
definition RECV_OK_YIELD :: recv where "RECV_OK_YIELD = RECV_OK + 3"

definition PID_BROADCAST :: pid where "PID_BROADCAST = 0"
definition PID_SELECT :: pid where "PID_SELECT = 1"
definition PID_IO :: pid where "PID_IO = 3"
definition PID_SIGNAL :: pid where "PID_SIGNAL = 4"

lemmas msg_types = MSG_FD_READ_def MSG_FD_WRITE_def MSG_FD_CLOSE_def MSG_FD_TIMEOUTED_def
  MSG_FD_REGISTER_READ_def MSG_FD_REGISTER_WRITE_def MSG_FD_UNREGISTER_def MSG_IO_FSYNC_def
  MSG_IO_OPEN_def MSG_IO_PREAD_def MSG_SIGNAL_REGISTER_def MSG_SIGNAL_UNREGISTER_def
  MSG_SIGNAL_def MSG_EXIT_def MSG_GC_def MSG_QUEUE_EMPTY_def MSG_USER_def

lemmas recvs = RECV_OK_def RECV_BADMATCH_def RECV_EXIT_def RECV_OK_YIELD_def

definition msg_type_tostr :: "msg_type \<Rightarrow> string" where
  "msg_type_tostr t =
     (if t = MSG_FD_READ then ''MSG_FD_READ''
      else if t = MSG_FD_WRITE then ''MSG_FD_WRITE''
      else if t = MSG_FD_REGISTER_READ then ''MSG_FD_REGISTER_READ''
      else if t = MSG_FD_REGISTER_WRITE then ''MSG_FD_REGISTER_WRITE''
      else if t = MSG_FD_UNREGISTER then ''MSG_FD_UNREGISTER''
      else if t = MSG_QUEUE_EMPTY then ''MSG_QUEUE_EMPTY''
      else if t = MSG_IO_FSYNC then ''MSG_IO_FSYNC''
      else if t = MSG_IO_PREAD then ''MSG_IO_PREAD''
      else if t = MSG_IO_OPEN then ''MSG_IO_OPEN''
      else if t = MSG_EXIT then ''MSG_EXIT''
      else ''MSG_?'')"

section \<open>Printing\<close>

definition digit :: "nat \<Rightarrow> char" where
  "digit d = char_of (48 + d)"

text \<open>The conversions \<open>%lu\<close> and, with at least two digits, \<open>%02lu\<close> of \<open>snprintf\<close>.\<close>

fun decimal :: "nat \<Rightarrow> string" where
  "decimal n = (if n < 10 then [digit n] else decimal (n div 10) @ [digit (n mod 10)])"

declare decimal.simps [simp del]

definition decimal2 :: "nat \<Rightarrow> string" where
  "decimal2 n = (if n < 10 then ''0'' else '''') @ decimal n"

text \<open>The buffer has 32 bytes; the output that fits, before the terminating NUL, has at most 31.\<close>

definition pid_tostr :: "pid \<Rightarrow> string" where
  "pid_tostr pid =
     take 31 (''<'' @ decimal (unat (pid_to_gid pid)) @ '':'' @ decimal2 (unat (pid_to_poff pid)) @ ''>'')"

section \<open>The two parts of an identifier\<close>

lemma bits: "POFF_BITS = 59" "GID_BITS = 5"
  by (simp_all add: POFF_BITS_def GID_BITS_def)

lemma unat_pid_to_gid: "unat (pid_to_gid p) = unat p div 2 ^ 59"
proof -
  have u: "unat (drop_bit 59 p) = unat p div 2 ^ 59"
    by (simp only: unsigned_drop_bit_eq) (simp add: take_bit_nat_eq_self unat_ulong_less [simplified] drop_bit_eq_div)
  have "unat p div 2 ^ 59 < 32" using unat_ulong_less [of p] by (intro less_mult_imp_div_less) simp
  then show ?thesis by (simp add: pid_to_gid_def bits u unat_ucast_32)
qed

lemma pid_to_poff_mask: "pid_to_poff p = take_bit 59 p"
  by (rule bit_eqI) (auto simp: pid_to_poff_def bits bit_simps)

lemma unat_pid_to_poff: "unat (pid_to_poff p) = unat p mod 2 ^ 59"
proof -
  have "unat (take_bit 59 p) = take_bit 59 (unat p)" by (rule unsigned_take_bit_eq)
  then show ?thesis unfolding pid_to_poff_mask by (simp only: take_bit_eq_mod)
qed

lemma pid_split: "unat p = unat (pid_to_gid p) * 2 ^ 59 + unat (pid_to_poff p)"
  unfolding unat_pid_to_gid unat_pid_to_poff by (simp only: div_mult_mod_eq)

lemma pid_eqI: "pid_to_gid p = pid_to_gid q \<Longrightarrow> pid_to_poff p = pid_to_poff q \<Longrightarrow> p = q"
  using pid_split [of p] pid_split [of q] by (simp add: word_unat_eq_iff)

lemma unat_poff_gid_to_pid:
  assumes "unat poff < 2 ^ 59" and "unat gid < 32"
  shows "unat (poff_gid_to_pid poff gid) = unat gid * 2 ^ 59 + unat poff"
proof -
  have "poff AND push_bit 59 gid = 0"
  proof (rule bit_eqI)
    fix n assume "possible_bit TYPE(64 word) n"
    have "take_bit 59 poff = poff" using assms(1)
      by (simp add: word_unat_eq_iff unsigned_take_bit_eq take_bit_nat_eq_self)
    then have "\<not> bit poff n" if "59 \<le> n" using that by (metis bit_take_bit_iff leD)
    then show "bit (poff AND push_bit 59 gid) n = bit 0 n" by (auto simp: bit_simps)
  qed
  then have "poff_gid_to_pid poff gid = poff + push_bit 59 gid"
    using disjunctive_add_eq_or [of poff "push_bit 59 gid"] by (simp add: poff_gid_to_pid_def bits)
  moreover have "unat (push_bit 59 gid) = unat gid * 2 ^ 59"
  proof -
    have "unat (push_bit 59 gid) = take_bit 64 (push_bit 59 (unat gid))"
      using unsigned_push_bit_eq [of 59 gid] by simp
    also have "push_bit 59 (unat gid) = unat gid * 2 ^ 59" by (rule push_bit_eq_mult)
    also have "take_bit 64 (unat gid * 2 ^ 59) = unat gid * 2 ^ 59"
      by (rule take_bit_nat_eq_self) (use assms(2) in simp)
    finally show ?thesis .
  qed
  ultimately show ?thesis using assms by (simp add: unat_add_ulong)
qed

lemma pid_of_parts:
  assumes "unat poff < 2 ^ 59" and "unat gid < 32"
  shows "pid_to_poff (poff_gid_to_pid poff gid) = poff" and "pid_to_gid (poff_gid_to_pid poff gid) = ucast gid"
proof -
  show "pid_to_poff (poff_gid_to_pid poff gid) = poff"
    using assms(1) by (simp add: word_unat_eq_iff unat_pid_to_poff unat_poff_gid_to_pid [OF assms])
  have "unat (pid_to_gid (poff_gid_to_pid poff gid)) = unat gid"
    using assms(1) by (simp add: unat_pid_to_gid unat_poff_gid_to_pid [OF assms])
  then show "pid_to_gid (poff_gid_to_pid poff gid) = ucast gid"
    using assms(2) by (simp add: word_unat_eq_iff unat_ucast_32)
qed

text \<open>
  C15: An identifier consists of exactly a domain number and an offset: taking it apart and putting
  it together gives the same identifier, and parts of 5 and 59 bits are found again.
\<close>

theorem pid_parts_roundtrip:
  "poff_gid_to_pid (pid_to_poff p) (ucast (pid_to_gid p)) = p \<and>
   (unat poff < 2 ^ 59 \<longrightarrow> unat gid < 32 \<longrightarrow>
      pid_to_poff (poff_gid_to_pid poff gid) = poff \<and> pid_to_gid (poff_gid_to_pid poff gid) = ucast gid)"
proof -
  let ?g = "ucast (pid_to_gid p) :: ulong"
  have g: "unat ?g = unat (pid_to_gid p)"
  proof -
    have "unat (pid_to_gid p) < 2 ^ 32" by (rule unat_word32_less)
    then have "unat (pid_to_gid p) < 2 ^ 64" by (rule less_trans) simp
    then show ?thesis by (simp add: unsigned_ucast_eq take_bit_nat_eq_self)
  qed
  have "unat p div 2 ^ 59 < 32" using unat_ulong_less [of p] by (intro less_mult_imp_div_less) simp
  then have "unat ?g < 32" unfolding g unat_pid_to_gid .
  moreover have "unat (pid_to_poff p) < 2 ^ 59" by (simp add: unat_pid_to_poff)
  ultimately have "unat (poff_gid_to_pid (pid_to_poff p) ?g) = unat p"
    using unat_poff_gid_to_pid [of "pid_to_poff p" ?g] pid_split [of p] g by simp
  then show ?thesis using pid_of_parts by (simp add: word_unat_eq_iff)
qed

theorem pid_parts_roundtrip_witness:
  "pid_to_poff (poff_gid_to_pid 77 3) = 77 \<and> pid_to_gid (poff_gid_to_pid 77 3) = 3"
  using pid_parts_roundtrip [of 0 77 3] by simp


section \<open>Printed identifiers\<close>

definition digits_value :: "string \<Rightarrow> nat" where
  "digits_value s = foldl (\<lambda>a c. 10 * a + (of_char c - 48)) 0 s"

lemma of_char_digit: "d < 10 \<Longrightarrow> (of_char (digit d) :: nat) = 48 + d"
  by (simp add: digit_def of_char_of)

lemma value_snoc: "digits_value (s @ [c]) = 10 * digits_value s + (of_char c - 48)"
  by (simp add: digits_value_def)

lemma value_decimal: "digits_value (decimal n) = n"
proof (induction n rule: decimal.induct)
  case (1 n)
  show ?case
  proof (cases "n < 10")
    case True
    then show ?thesis by (simp add: decimal.simps [of n] digits_value_def of_char_digit)
  next
    case False
    then show ?thesis
      using 1 [OF False] by (simp add: decimal.simps [of n] value_snoc of_char_digit)
  qed
qed

lemma value_decimal2: "digits_value (decimal2 n) = n"
proof -
  have "digits_value (CHR ''0'' # s) = digits_value s" for s by (simp add: digits_value_def)
  then show ?thesis by (simp add: decimal2_def value_decimal)
qed

lemma decimal_digits: "c \<in> set (decimal n) \<Longrightarrow> \<exists>d < 10. c = digit d"
proof (induction n rule: decimal.induct)
  case (1 n)
  show ?case
  proof (cases "n < 10")
    case True
    then show ?thesis using "1.prems" by (simp add: decimal.simps [of n]) blast
  next
    case False
    then have "c \<in> set (decimal (n div 10)) \<or> c = digit (n mod 10)"
      using "1.prems" by (auto simp: decimal.simps [of n])
    moreover have "n mod 10 < 10" by simp
    ultimately show ?thesis using "1.IH" [OF False] by blast
  qed
qed

lemma colon_not_digit: "CHR '':'' \<notin> set (decimal n)" "CHR '':'' \<notin> set (decimal2 n)"
proof -
  have "CHR '':'' \<noteq> digit d" if "d < 10" for d
  proof
    assume "CHR '':'' = digit d"
    then have "(of_char (CHR '':'') :: nat) = 48 + d" using of_char_digit [OF that] by simp
    then show False using that by simp
  qed
  then show "CHR '':'' \<notin> set (decimal n)" "CHR '':'' \<notin> set (decimal2 n)"
    using decimal_digits by (auto simp: decimal2_def split: if_splits)
qed

lemma decimal_length: "n < 10 ^ k \<Longrightarrow> 0 < k \<Longrightarrow> length (decimal n) \<le> k"
proof (induction k arbitrary: n)
  case (Suc k)
  show ?case
  proof (cases "n < 10")
    case True
    then show ?thesis by (simp add: decimal.simps [of n])
  next
    case False
    then have "0 < k" using Suc.prems(1) by (cases k) simp_all
    moreover have "n div 10 < 10 ^ k" using Suc.prems(1) by (intro less_mult_imp_div_less) simp
    ultimately show ?thesis using Suc.IH [of "n div 10"] False by (simp add: decimal.simps [of n])
  qed
qed simp


lemma decimal_inj: "decimal m = decimal n \<Longrightarrow> m = n" and decimal2_inj: "decimal2 m = decimal2 n \<Longrightarrow> m = n"
  using value_decimal value_decimal2 by metis+

lemma colon_split: "CHR '':'' \<notin> set a \<Longrightarrow> CHR '':'' \<notin> set b \<Longrightarrow> a @ CHR '':'' # x = b @ CHR '':'' # y \<Longrightarrow> a = b \<and> x = y"
  by (induction a arbitrary: b) (case_tac [!] b, auto)

lemma pid_tostr_full:
  "pid_tostr p = ''<'' @ decimal (unat (pid_to_gid p)) @ '':'' @ decimal2 (unat (pid_to_poff p)) @ ''>''"
proof -
  have "unat p div 2 ^ 59 < 32" using unat_ulong_less [of p] by (intro less_mult_imp_div_less) simp
  then have g: "length (decimal (unat (pid_to_gid p))) \<le> 2"
    unfolding unat_pid_to_gid by (intro decimal_length) simp_all
  have "unat p mod 2 ^ 59 < 2 ^ 59" by (rule mod_less_divisor) simp
  also have "(2 :: nat) ^ 59 < 10 ^ 18" by simp
  finally have "unat (pid_to_poff p) < 10 ^ 18" unfolding unat_pid_to_poff .
  then have "length (decimal (unat (pid_to_poff p))) \<le> 18" by (rule decimal_length) simp
  then have "length (decimal2 (unat (pid_to_poff p))) \<le> 19" by (simp add: decimal2_def)
  then show ?thesis using g by (simp add: pid_tostr_def)
qed

text \<open>
  The printed form of an identifier always fits the buffer and determines the identifier: two
  identifiers that print alike are the same.
\<close>

theorem pid_tostr_injective:
  "length (pid_tostr p) \<le> 31 \<and> (pid_tostr p = pid_tostr q \<longrightarrow> p = q)"
proof -
  have "p = q" if "pid_tostr p = pid_tostr q"
  proof -
    have "decimal (unat (pid_to_gid p)) @ CHR '':'' # decimal2 (unat (pid_to_poff p)) @ ''>'' =
        decimal (unat (pid_to_gid q)) @ CHR '':'' # decimal2 (unat (pid_to_poff q)) @ ''>''"
      using that by (simp add: pid_tostr_full)
    from colon_split [OF colon_not_digit(1) colon_not_digit(1) this]
    have d: "decimal (unat (pid_to_gid p)) = decimal (unat (pid_to_gid q))"
      "decimal2 (unat (pid_to_poff p)) = decimal2 (unat (pid_to_poff q))" by simp_all
    show ?thesis
    proof (rule pid_eqI)
      show "pid_to_gid p = pid_to_gid q" using decimal_inj [OF d(1)] unfolding word_unat_eq_iff .
      show "pid_to_poff p = pid_to_poff q" using decimal2_inj [OF d(2)] unfolding word_unat_eq_iff .
    qed
  qed
  then show ?thesis by (simp add: pid_tostr_def)
qed

theorem pid_tostr_injective_witness:
  "pid_tostr (poff_gid_to_pid 7 3) = ''<3:07>'' \<and> pid_tostr 7 \<noteq> ''<3:07>''"
proof -
  have e: "pid_tostr (poff_gid_to_pid 7 3) = ''<3:07>''" by code_simp
  have "(7 :: pid) \<noteq> poff_gid_to_pid 7 3" by code_simp
  then have "pid_tostr 7 \<noteq> pid_tostr (poff_gid_to_pid 7 3)"
    using pid_tostr_injective [of 7 "poff_gid_to_pid 7 3"] by blast
  then show ?thesis unfolding e by blast
qed

end
