(* ===== verification/Msqueue.thy ===== *)
theory Msqueue
  imports Upqueue
begin

text \<open>
  The queue of domains of \<open>src/msqueue.h\<close>, after Michael and Scott, as it behaves in a run of one
  thread, where every compare-and-swap sees the values that were read just before. A dummy node,
  the divider, is always linked and is moved to the end when it comes to the front. The pointer
  program is shown to implement a plain list (first in, first out).
\<close>

section \<open>The queue in memory\<close>

datatype 'a mnode = Divider | Node 'a

datatype 'a mptr = MNull | MPoison | MRef "'a mnode"

record 'a msqueue =
  mnext :: "'a mnode \<Rightarrow> 'a mptr"
  mhead :: "'a mnode"
  mtail :: "'a mnode"

definition INIT_MSQUEUE_ROOT :: "'a msqueue \<Rightarrow> 'a msqueue" where
  "INIT_MSQUEUE_ROOT s = s\<lparr>mnext := (mnext s)(Divider := MNull), mhead := Divider, mtail := Divider\<rparr>"

definition INIT_MSQUEUE_HEAD :: "'a \<Rightarrow> 'a msqueue \<Rightarrow> 'a msqueue" where
  "INIT_MSQUEUE_HEAD x s = s\<lparr>mnext := (mnext s)(Node x := MPoison)\<rparr>"

definition msqueue_is_enqueued :: "'a \<Rightarrow> 'a msqueue \<Rightarrow> bool" where
  "msqueue_is_enqueued x s \<longleftrightarrow> mnext s (Node x) = MPoison"

text \<open>The loop of \<open>msqueue_put\<close>; the result is the node after which \<open>new\<close> was linked. \<open>None\<close>: the
  poison value is followed as a pointer.\<close>

partial_function (option) msqueue_put_loop :: "'a mnode \<Rightarrow> 'a msqueue \<Rightarrow> ('a mnode \<times> 'a msqueue) option" where
  "msqueue_put_loop new s =
     (let tail = mtail s in
      case mnext s tail of
        MNull \<Rightarrow> Some (tail, s\<lparr>mnext := (mnext s)(tail := MRef new)\<rparr>)
      | MRef n \<Rightarrow> msqueue_put_loop new (s\<lparr>mtail := n\<rparr>)
      | MPoison \<Rightarrow> None)"

definition msqueue_put_node :: "'a mnode \<Rightarrow> 'a msqueue \<Rightarrow> 'a msqueue option" where
  "msqueue_put_node new s =
     (case msqueue_put_loop new (s\<lparr>mnext := (mnext s)(new := MNull)\<rparr>) of
        None \<Rightarrow> None
      | Some (tail, s) \<Rightarrow> Some (if mtail s = tail then s\<lparr>mtail := new\<rparr> else s))"

definition msqueue_put :: "'a \<Rightarrow> 'a msqueue \<Rightarrow> 'a msqueue option" where
  "msqueue_put x s = msqueue_put_node (Node x) s"

partial_function (option) msqueue_get :: "'a msqueue \<Rightarrow> ('a option \<times> 'a msqueue) option" where
  "msqueue_get s =
     (let head = mhead s; tail = mtail s; next = mnext s head in
      if head = tail
      then (case next of
              MNull \<Rightarrow> Some (None, s)
            | MRef n \<Rightarrow> msqueue_get (s\<lparr>mtail := n\<rparr>)
            | MPoison \<Rightarrow> None)
      else (case next of
              MRef n \<Rightarrow>
                let s = s\<lparr>mhead := n\<rparr> in
                (case head of
                   Divider \<Rightarrow> (case msqueue_put_node Divider s of None \<Rightarrow> None | Some s \<Rightarrow> msqueue_get s)
                 | Node x \<Rightarrow> Some (Some x, s\<lparr>mnext := (mnext s)(head := MPoison)\<rparr>))
            | _ \<Rightarrow> None))"

section \<open>The queue as a list\<close>

text \<open>The nodes from the head to the tail.\<close>

definition ms_new :: "'a mnode list" where
  "ms_new = [Divider]"

definition ms_put :: "'a \<Rightarrow> 'a mnode list \<Rightarrow> 'a mnode list" where
  "ms_put x q = q @ [Node x]"

definition ms_get :: "'a mnode list \<Rightarrow> 'a option \<times> 'a mnode list" where
  "ms_get q =
     (case q of
        [] \<Rightarrow> (None, q)
      | [n] \<Rightarrow> (None, q)
      | Node x # r \<Rightarrow> (Some x, r)
      | Divider # Node x # r \<Rightarrow> (Some x, r @ [Divider])
      | Divider # Divider # r \<Rightarrow> (None, q))"

definition ms_items :: "'a mnode list \<Rightarrow> 'a list" where
  "ms_items q = concat (map (case_mnode [] (\<lambda>x. [x])) q)"

definition ms_wf :: "'a mnode list \<Rightarrow> bool" where
  "ms_wf q \<longleftrightarrow> distinct q \<and> Divider \<in> set q"

lemma ms_items_simps [simp]:
  "ms_items [] = []" "ms_items (Node x # q) = x # ms_items q" "ms_items (Divider # q) = ms_items q"
  "ms_items (p @ q) = ms_items p @ ms_items q"
  by (simp_all add: ms_items_def)

lemma set_ms_items: "x \<in> set (ms_items q) \<longleftrightarrow> Node x \<in> set q"
  by (induction q) (auto simp: ms_items_def split: mnode.splits)

lemma ms_items_Nil: "ms_items q = [] \<Longrightarrow> Node x \<notin> set q"
  using set_ms_items [of x q] by simp

lemma ms_wf_new: "ms_wf ms_new" "ms_items ms_new = []"
  by (simp_all add: ms_wf_def ms_new_def)

lemma ms_put_spec:
  assumes "ms_wf q" and "x \<notin> set (ms_items q)"
  shows "ms_wf (ms_put x q)" and "ms_items (ms_put x q) = ms_items q @ [x]"
  using assms by (auto simp: ms_wf_def ms_put_def set_ms_items)

lemma ms_wf_Node: "ms_wf (Node x # r) \<Longrightarrow> ms_wf r \<and> r \<noteq> []"
  by (auto simp: ms_wf_def)

lemma ms_get_spec:
  assumes "ms_wf q"
  shows "ms_wf (snd (ms_get q)) \<and>
    (case ms_items q of [] \<Rightarrow> ms_get q = (None, q) | x # r \<Rightarrow> fst (ms_get q) = Some x \<and> ms_items (snd (ms_get q)) = r)"
proof (cases q)
  case Nil
  then show ?thesis using assms by (simp add: ms_wf_def)
next
  case (Cons n r)
  show ?thesis
  proof (cases n)
    case (Node x)
    then have "r \<noteq> []" "ms_wf r" using ms_wf_Node [of x r] assms Cons by simp_all
    then show ?thesis using Cons Node by (cases r) (simp_all add: ms_get_def)
  next
    case Divider
    show ?thesis
    proof (cases r)
      case Nil
      then show ?thesis using Cons Divider assms by (simp add: ms_get_def)
    next
      case (Cons m r')
      then obtain x where "m = Node x" using \<open>q = n # r\<close> Divider assms by (cases m) (auto simp: ms_wf_def)
      then have q: "q = Divider # Node x # r'" using Cons \<open>q = n # r\<close> Divider by simp
      then have "distinct (r' @ [Divider])" "Divider \<in> set (r' @ [Divider])" using assms by (simp_all add: ms_wf_def)
      then show ?thesis unfolding q by (simp add: ms_get_def ms_wf_def)
    qed
  qed
qed

section \<open>The pointer program implements the list\<close>

fun mchain :: "('a mnode \<Rightarrow> 'a mptr) \<Rightarrow> 'a mnode list \<Rightarrow> bool" where
  "mchain h [] = False"
| "mchain h [x] = (h x = MNull)"
| "mchain h (x # y # r) = (h x = MRef y \<and> mchain h (y # r))"

definition ms_rep :: "'a msqueue \<Rightarrow> 'a mnode list \<Rightarrow> bool" where
  "ms_rep s q \<longleftrightarrow> mchain (mnext s) q \<and> distinct q \<and> mhead s = hd q \<and> mtail s = last q"

lemma mchain_cong: "\<forall>x \<in> set q. h' x = h x \<Longrightarrow> mchain h' q = mchain h q"
  by (induction h q rule: mchain.induct) auto

lemma mchain_last: "mchain h q \<Longrightarrow> q \<noteq> [] \<and> h (last q) = MNull"
  by (induction h q rule: mchain.induct) auto

lemma mchain_snoc:
  "mchain h q \<Longrightarrow> distinct q \<Longrightarrow> n \<notin> set q \<Longrightarrow> mchain (h(n := MNull, last q := MRef n)) (q @ [n])"
proof (induction h q rule: mchain.induct)
  case (3 h x y r)
  have "h x = MRef y" "x \<noteq> n" "x \<noteq> last (y # r)" using 3 by auto
  then show ?case using 3 by simp
qed auto

lemma put_node_rep:
  assumes rep: "ms_rep s q" and n: "n \<notin> set q"
  shows "\<exists>s'. msqueue_put_node n s = Some s' \<and> ms_rep s' (q @ [n]) \<and>
    (\<forall>x. x \<notin> insert n (set q) \<longrightarrow> mnext s' x = mnext s x) \<and> mhead s' = mhead s"
proof -
  have c: "mchain (mnext s) q" "distinct q" "mhead s = hd q" "mtail s = last q" using rep by (simp_all add: ms_rep_def)
  note l = mchain_last [OF c(1)]
  have ln: "last q \<noteq> n" using l n by auto
  let ?s = "s\<lparr>mnext := (mnext s)(n := MNull)\<rparr>"
  have "msqueue_put_loop n ?s = Some (last q, ?s\<lparr>mnext := (mnext ?s)(last q := MRef n)\<rparr>)"
    using l ln c(4) by (subst msqueue_put_loop.simps) (simp add: Let_def)
  then have p: "msqueue_put_node n s = Some (?s\<lparr>mnext := (mnext ?s)(last q := MRef n), mtail := n\<rparr>)"
    using c(4) by (simp add: msqueue_put_node_def)
  show ?thesis
    unfolding p option.inject using mchain_snoc [OF c(1,2) n] c(2,3) n l
    by (intro exI conjI) (rule refl, auto simp: ms_rep_def hd_append)
qed

lemma get_node_rep:
  assumes rep: "ms_rep s (Node x # r)" and r: "r \<noteq> []"
  shows "\<exists>s'. msqueue_get s = Some (Some x, s') \<and> ms_rep s' r \<and> msqueue_is_enqueued x s' \<and>
    (\<forall>y. y \<noteq> Node x \<longrightarrow> mnext s' y = mnext s y)"
proof -
  obtain y ys where y: "r = y # ys" using r by (cases r) auto
  have c: "mnext s (Node x) = MRef y" "mchain (mnext s) r" "distinct (Node x # r)" "mhead s = Node x"
    "mtail s = last r" using rep y by (simp_all add: ms_rep_def)
  have ne: "Node x \<noteq> last r" using c(3) r by auto
  have g: "msqueue_get s = Some (Some x, s\<lparr>mhead := y, mnext := (mnext s)(Node x := MPoison)\<rparr>)"
    by (subst msqueue_get.simps) (use c ne in \<open>simp add: Let_def\<close>)
  have "mchain ((mnext s)(Node x := MPoison)) r"
    using c(2,3) mchain_cong [of r "(mnext s)(Node x := MPoison)" "mnext s"] by auto
  then show ?thesis unfolding g using c(3,5) y by (auto simp: ms_rep_def msqueue_is_enqueued_def)
qed

text \<open>
  C16: In a run of one thread the lock-free queue is a first-in first-out queue: \<open>msqueue_put\<close> adds at
  the end; \<open>msqueue_get\<close> returns the oldest item, or NULL if there is none, ends, and marks the item
  as taken out. Nodes outside the queue are not touched.
\<close>

theorem msqueue_fifo:
  assumes rep: "ms_rep s q" and wf: "ms_wf q"
  shows "(\<forall>x. x \<notin> set (ms_items q) \<longrightarrow>
      (\<exists>s' q'. msqueue_put x s = Some s' \<and> ms_rep s' q' \<and> ms_wf q' \<and> ms_items q' = ms_items q @ [x])) \<and>
    (\<exists>r s' q'. msqueue_get s = Some (r, s') \<and> ms_rep s' q' \<and> ms_wf q' \<and>
      (case ms_items q of
         [] \<Rightarrow> r = None \<and> ms_items q' = []
       | x # xs \<Rightarrow> r = Some x \<and> ms_items q' = xs \<and> mnext s' (Node x) = MPoison))"
proof (intro conjI allI impI)
  fix x assume x: "x \<notin> set (ms_items q)"
  then have n: "Node x \<notin> set q" by (simp add: set_ms_items)
  obtain s' where "msqueue_put x s = Some s'" "ms_rep s' (ms_put x q)"
    using put_node_rep [OF rep n] by (auto simp: msqueue_put_def ms_put_def)
  then show "\<exists>s' q'. msqueue_put x s = Some s' \<and> ms_rep s' q' \<and> ms_wf q' \<and> ms_items q' = ms_items q @ [x]"
    using ms_put_spec [OF wf x] by blast
next
  let ?P = "\<exists>r s' q'. msqueue_get s = Some (r, s') \<and> ms_rep s' q' \<and> ms_wf q' \<and>
      (case ms_items q of
         [] \<Rightarrow> r = None \<and> ms_items q' = []
       | x # xs \<Rightarrow> r = Some x \<and> ms_items q' = xs \<and> mnext s' (Node x) = MPoison)"
  obtain n r where q: "q = n # r" using rep by (cases q) (auto simp: ms_rep_def)
  show ?P
  proof (cases n)
    case (Node x)
    have r: "ms_wf r" "r \<noteq> []" using ms_wf_Node [of x r] wf q Node by simp_all
    show ?thesis
      using get_node_rep [of s x r] rep r q Node by (fastforce simp: msqueue_is_enqueued_def)
  next
    case Divider
    show ?thesis
    proof (cases r)
      case Nil
      have "msqueue_get s = Some (None, s)"
        by (subst msqueue_get.simps) (use rep q Nil Divider in \<open>simp add: ms_rep_def\<close>)
      then show ?thesis using rep wf q Nil Divider by auto
    next
      case (Cons m r')
      then obtain x where m: "m = Node x" using q Divider wf by (cases m) (auto simp: ms_wf_def)
      let ?s = "s\<lparr>mhead := Node x\<rparr>"
      have c: "mnext s Divider = MRef (Node x)" "mhead s = Divider" "mtail s = last r" "mchain (mnext s) r" "distinct q"
        using rep q Cons Divider m by (simp_all add: ms_rep_def)
      have rep1: "ms_rep ?s r" using c q Cons m by (simp add: ms_rep_def)
      have nd: "Divider \<notin> set r" using c(5) q Divider by simp
      obtain s1 where p: "msqueue_put_node Divider ?s = Some s1" and rep2: "ms_rep s1 (Node x # r' @ [Divider])"
        using put_node_rep [OF rep1 nd] Cons m by auto
      have ne: "Divider \<noteq> last r" using nd Cons by (metis last_in_set list.discI)
      have g: "msqueue_get s = msqueue_get s1"
        by (subst msqueue_get.simps) (use c ne p in \<open>simp add: Let_def\<close>)
      have "ms_wf (r' @ [Divider])" using c(5) q Cons Divider by (auto simp: ms_wf_def)
      then show ?thesis unfolding g
        using get_node_rep [OF rep2] q Cons Divider m by (fastforce simp: msqueue_is_enqueued_def)
    qed
  qed
qed

definition example_msqueue :: "nat msqueue" where
  "example_msqueue = \<lparr>mnext = (\<lambda>n. case n of Divider \<Rightarrow> MRef (Node 4) | Node i \<Rightarrow> if i = 4 then MNull else MPoison),
     mhead = Divider, mtail = Node 4\<rparr>"

theorem msqueue_fifo_witness:
  "\<exists>s' q'. msqueue_get example_msqueue = Some (Some 4, s') \<and> ms_rep s' q' \<and> ms_items q' = []"
proof -
  have r: "ms_rep example_msqueue [Divider, Node 4]" "ms_wf [Divider, Node (4 :: nat)]"
    by (simp_all add: ms_rep_def ms_wf_def example_msqueue_def)
  from msqueue_fifo [OF r] show ?thesis by auto
qed

end
