(* ===== verification/Msqueue_Threads.thy ===== *)
theory Msqueue_Threads
  imports Msqueue
begin

text \<open>
  The queue of \<open>src/msqueue.h\<close> shared by several threads: \<open>msqueue_put\<close> and \<open>msqueue_get\<close> as the reads
  and the compare-and-swaps they make, one atomic step each, in the order of the code; a schedule says
  which thread takes the next step. (Reads and compare-and-swaps take effect in one order for all
  threads.) One thread alone does what the functions of \<open>Msqueue\<close> do; any number of threads
  that put at the same time lose nothing; and two threads that get at the same time can be given the
  same domain, after which the queue is broken.
\<close>

section \<open>The steps of a thread\<close>

record 'a mshared =
  s_next :: "'a mnode \<Rightarrow> 'a mptr"
  s_head :: "'a mptr"
  s_tail :: "'a mptr"

text \<open>
  Where a thread is, with its local variables; the flag says that \<open>msqueue_put\<close> was called by
  \<open>msqueue_get\<close>, for the divider. \<open>Crashed\<close> is a call of \<open>abort\<close>, or NULL or the poison value
  followed as a pointer.
\<close>

datatype 'a mpc =
    Put_Begin "'a mnode" bool
  | Put_Clear "'a mnode" bool "'a mptr"
  | Put_Tail "'a mnode" bool
  | Put_Next "'a mnode" bool "'a mptr"
  | Put_Check "'a mnode" bool "'a mptr" "'a mptr"
  | Put_Link "'a mnode" bool "'a mptr"
  | Put_Help "'a mnode" bool "'a mptr" "'a mptr"
  | Put_Swing "'a mnode" bool "'a mptr"
  | Put_Done
  | Get_Head
  | Get_Tail "'a mptr"
  | Get_Next "'a mptr" "'a mptr"
  | Get_Check "'a mptr" "'a mptr" "'a mptr"
  | Get_Help "'a mptr" "'a mptr"
  | Get_Take "'a mptr" "'a mptr"
  | Get_Poison "'a mnode" "'a mptr"
  | Get_Done "'a mnode option"
  | Crashed

fun mstep :: "'a mpc \<Rightarrow> 'a mshared \<Rightarrow> 'a mpc \<times> 'a mshared" where
  "mstep (Put_Begin new g) s = (Put_Clear new g (s_next s new), s)"
| "mstep (Put_Clear new g old) s =
     (if s_next s new = old then (Put_Tail new g, s\<lparr>s_next := (s_next s)(new := MNull)\<rparr>) else (Crashed, s))"
| "mstep (Put_Tail new g) s = (Put_Next new g (s_tail s), s)"
| "mstep (Put_Next new g tail) s =
     (case tail of MRef t \<Rightarrow> (Put_Check new g tail (s_next s t), s) | _ \<Rightarrow> (Crashed, s))"
| "mstep (Put_Check new g tail next) s =
     (if tail \<noteq> s_tail s then (Put_Tail new g, s)
      else if next = MNull then (Put_Link new g tail, s)
      else (Put_Help new g tail next, s))"
| "mstep (Put_Link new g tail) s =
     (case tail of
        MRef t \<Rightarrow> if s_next s t = MNull then (Put_Swing new g tail, s\<lparr>s_next := (s_next s)(t := MRef new)\<rparr>)
                  else (Put_Tail new g, s)
      | _ \<Rightarrow> (Crashed, s))"
| "mstep (Put_Help new g tail next) s =
     (Put_Tail new g, if s_tail s = tail then s\<lparr>s_tail := next\<rparr> else s)"
| "mstep (Put_Swing new g tail) s =
     (if g then Get_Head else Put_Done, if s_tail s = tail then s\<lparr>s_tail := MRef new\<rparr> else s)"
| "mstep Put_Done s = (Put_Done, s)"
| "mstep Get_Head s = (Get_Tail (s_head s), s)"
| "mstep (Get_Tail head) s = (Get_Next head (s_tail s), s)"
| "mstep (Get_Next head tail) s =
     (case head of MRef h \<Rightarrow> (Get_Check head tail (s_next s h), s) | _ \<Rightarrow> (Crashed, s))"
| "mstep (Get_Check head tail next) s =
     (if head \<noteq> s_head s then (Get_Head, s)
      else if head = tail
      then (if next = MNull then (Get_Done None, s) else (Get_Help tail next, s))
      else (Get_Take head next, s))"
| "mstep (Get_Help tail next) s = (Get_Head, if s_tail s = tail then s\<lparr>s_tail := next\<rparr> else s)"
| "mstep (Get_Take head next) s =
     (if s_head s = head
      then (case head of
              MRef Divider \<Rightarrow> Put_Begin Divider True
            | MRef (Node x) \<Rightarrow> Get_Poison (Node x) next
            | _ \<Rightarrow> Crashed, s\<lparr>s_head := next\<rparr>)
      else (Get_Head, s))"
| "mstep (Get_Poison h next) s =
     (if s_next s h = next then (Get_Done (Some h), s\<lparr>s_next := (s_next s)(h := MPoison)\<rparr>) else (Crashed, s))"
| "mstep (Get_Done r) s = (Get_Done r, s)"
| "mstep Crashed s = (Crashed, s)"

text \<open>A state of several threads, and its run by a schedule of the numbers of threads.\<close>

type_synonym 'a mthreads = "'a mpc list \<times> 'a mshared"

definition msched :: "nat \<Rightarrow> 'a mthreads \<Rightarrow> 'a mthreads" where
  "msched i = (\<lambda>(pcs, s). let (pc, s) = mstep (pcs ! i) s in (pcs[i := pc], s))"

fun mrun :: "nat list \<Rightarrow> 'a mthreads \<Rightarrow> 'a mthreads" where
  "mrun [] c = c"
| "mrun (i # is) c = mrun is (msched i c)"

definition shared_of :: "'a msqueue \<Rightarrow> 'a mshared" where
  "shared_of s = \<lparr>s_next = mnext s, s_head = MRef (mhead s), s_tail = MRef (mtail s)\<rparr>"

section \<open>One thread alone\<close>

inductive msteps :: "'a mpc \<times> 'a mshared \<Rightarrow> 'a mpc \<times> 'a mshared \<Rightarrow> bool" where
  here: "msteps c c"
| there: "msteps (mstep pc s) c \<Longrightarrow> msteps (pc, s) c"

lemma msteps_trans: "msteps a b \<Longrightarrow> msteps b c \<Longrightarrow> msteps a c"
  by (induction rule: msteps.induct) (auto intro: msteps.intros)

text \<open>A given number of steps.\<close>

lemma msteps_n: "((\<lambda>c. mstep (fst c) (snd c)) ^^ k) c = d \<Longrightarrow> msteps c d"
proof (induction k arbitrary: c)
  case (Suc k)
  then have "((\<lambda>c. mstep (fst c) (snd c)) ^^ k) (mstep (fst c) (snd c)) = d"
    by (metis comp_apply funpow_Suc_right)
  then show ?case using Suc.IH msteps.there [of "fst c" "snd c"] by simp
qed (simp add: msteps.here)

lemma shared_of_simps [simp]:
  "s_next (shared_of s) = mnext s" "s_head (shared_of s) = MRef (mhead s)" "s_tail (shared_of s) = MRef (mtail s)"
  "shared_of (s\<lparr>mnext := h\<rparr>) = (shared_of s)\<lparr>s_next := h\<rparr>" "shared_of (s\<lparr>mhead := x\<rparr>) = (shared_of s)\<lparr>s_head := MRef x\<rparr>"
  "shared_of (s\<lparr>mtail := x\<rparr>) = (shared_of s)\<lparr>s_tail := MRef x\<rparr>"
  by (simp_all add: shared_of_def)

lemma solo_put_loop:
  assumes "msqueue_put_loop new s = Some r"
  shows "msteps (Put_Tail new g, shared_of s) (Put_Swing new g (MRef (fst r)), shared_of (snd r))"
proof (rule msqueue_put_loop.raw_induct [where P = "\<lambda>new s r. msteps (Put_Tail new g, shared_of s)
      (Put_Swing new g (MRef (fst r)), shared_of (snd r))", OF _ assms], goal_cases)
  case (1 loop new s r)
  note IH = 1(1) and run = 1(2) [unfolded Let_def]
  show ?case
  proof (cases "mnext s (mtail s)")
    case MNull
    then show ?thesis using run by (intro msteps_n [of 4]) (auto simp: numeral_eq_Suc)
  next
    case MPoison
    then show ?thesis using run by simp
  next
    case (MRef n)
    have "((\<lambda>c. mstep (fst c) (snd c)) ^^ 4) (Put_Tail new g, shared_of s) = (Put_Tail new g, shared_of (s\<lparr>mtail := n\<rparr>))"
      using MRef by (simp add: numeral_eq_Suc)
    from msteps_trans [OF msteps_n [OF this] IH] show ?thesis using run MRef by simp
  qed
qed

lemma solo_put_node:
  assumes "msqueue_put_node new s = Some s'"
  shows "msteps (Put_Begin new g, shared_of s) (if g then Get_Head else Put_Done, shared_of s')"
proof -
  let ?s = "s\<lparr>mnext := (mnext s)(new := MNull)\<rparr>"
  obtain t s1 where l: "msqueue_put_loop new ?s = Some (t, s1)" and s': "s' = (if mtail s1 = t then s1\<lparr>mtail := new\<rparr> else s1)"
    using assms by (auto simp: msqueue_put_node_def split: option.splits)
  have b: "msteps (Put_Begin new g, shared_of s) (Put_Tail new g, shared_of ?s)"
    by (rule msteps_n [of 2]) (simp add: numeral_eq_Suc)
  have e: "msteps (Put_Swing new g (MRef t), shared_of s1) (if g then Get_Head else Put_Done, shared_of s')"
    by (rule msteps_n [of 1]) (simp add: s')
  show ?thesis using msteps_trans [OF b msteps_trans [OF solo_put_loop [OF l] _]] e by simp
qed

lemma solo_get:
  assumes "msqueue_get s = Some r"
  shows "msteps (Get_Head, shared_of s) (Get_Done (map_option Node (fst r)), shared_of (snd r))"
proof (rule msqueue_get.raw_induct [where P = "\<lambda>s r. msteps (Get_Head, shared_of s)
      (Get_Done (map_option Node (fst r)), shared_of (snd r))", OF _ assms], goal_cases)
  case (1 get s r)
  note IH = 1(1) and run = 1(2) [unfolded Let_def]
  show ?case
  proof (cases "mhead s = mtail s")
    case True
    show ?thesis
    proof (cases "mnext s (mhead s)")
      case (MRef n)
      have "((\<lambda>c. mstep (fst c) (snd c)) ^^ 5) (Get_Head, shared_of s) = (Get_Head, shared_of (s\<lparr>mtail := n\<rparr>))"
        using True MRef by (simp add: numeral_eq_Suc)
      from msteps_trans [OF msteps_n [OF this] IH] show ?thesis using run True MRef by simp
    next
      case MNull
      then show ?thesis using run True by (intro msteps_n [of 4]) (auto simp: numeral_eq_Suc)
    qed (use run True in simp)
  next
    case False
    then obtain n where n: "mnext s (mhead s) = MRef n" using run by (auto split: mptr.splits)
    show ?thesis
    proof (cases "mhead s")
      case (Node x)
      then show ?thesis using run False n by (intro msteps_n [of 6]) (auto simp: numeral_eq_Suc)
    next
      case Divider
      then obtain s1 where p: "msqueue_put_node Divider (s\<lparr>mhead := n\<rparr>) = Some s1" and g: "get s1 = Some r"
        using run False n by (auto split: option.splits)
      have "((\<lambda>c. mstep (fst c) (snd c)) ^^ 5) (Get_Head, shared_of s) = (Put_Begin Divider True, shared_of (s\<lparr>mhead := n\<rparr>))"
        using False n Divider by (simp add: numeral_eq_Suc)
      from msteps_trans [OF msteps_n [OF this] msteps_trans [OF solo_put_node [OF p, of True]]] IH [OF g]
      show ?thesis by simp
    qed
  qed
qed

text \<open>
  C18: A thread that nobody disturbs does, step by step, what \<open>msqueue_put\<close> and \<open>msqueue_get\<close> compute:
  from any shared state on which the function returns, its steps lead to the end of the call, with the
  same result and the same shared state.
\<close>

theorem solo_thread_agrees:
  "(msqueue_put x s = Some s' \<longrightarrow> msteps (Put_Begin (Node x) False, shared_of s) (Put_Done, shared_of s')) \<and>
   (msqueue_get s = Some (r, s') \<longrightarrow> msteps (Get_Head, shared_of s) (Get_Done (map_option Node r), shared_of s'))"
  using solo_put_node [of "Node x" s s' False] solo_get [of s "(r, s')"] by (simp add: msqueue_put_def)

theorem solo_thread_agrees_witness:
  "\<exists>s'. msqueue_put 5 example_msqueue = Some s' \<and> ms_rep s' [Divider, Node 4, Node 5] \<and>
     msteps (Put_Begin (Node 5) False, shared_of example_msqueue) (Put_Done, shared_of s')"
proof -
  have "ms_rep example_msqueue [Divider, Node 4]" by (simp add: ms_rep_def example_msqueue_def)
  from put_node_rep [OF this, of "Node 5"] obtain s' where
    s': "msqueue_put 5 example_msqueue = Some s'" "ms_rep s' [Divider, Node 4, Node 5]"
    by (auto simp: msqueue_put_def)
  then show ?thesis using solo_thread_agrees [of 5 example_msqueue s' None] by auto
qed

section \<open>Threads that put\<close>

definition on :: "'a mnode list \<Rightarrow> 'a mptr \<Rightarrow> bool" where
  "on q p \<longleftrightarrow> (\<exists>x \<in> set q. p = MRef x)"

text \<open>What a thread that puts \<open>n\<close> knows of the shared queue, whose nodes are \<open>q\<close>: before it has linked
  its node, that the node is not in the queue, and that the pointers it has read are nodes that still
  are in the queue.\<close>

definition put_ok :: "'a mshared \<Rightarrow> 'a mnode list \<Rightarrow> 'a mnode \<Rightarrow> 'a mpc \<Rightarrow> bool" where
  "put_ok s q n pc \<longleftrightarrow>
     (case pc of
        Put_Begin m g \<Rightarrow> m = n \<and> \<not> g \<and> n \<notin> set q
      | Put_Clear m g old \<Rightarrow> m = n \<and> \<not> g \<and> n \<notin> set q \<and> s_next s n = old
      | Put_Tail m g \<Rightarrow> m = n \<and> \<not> g \<and> n \<notin> set q \<and> s_next s n = MNull
      | Put_Next m g tail \<Rightarrow> m = n \<and> \<not> g \<and> n \<notin> set q \<and> s_next s n = MNull \<and> on q tail
      | Put_Check m g tail next \<Rightarrow> m = n \<and> \<not> g \<and> n \<notin> set q \<and> s_next s n = MNull \<and> on q tail \<and>
          (next = MNull \<or> on q next)
      | Put_Link m g tail \<Rightarrow> m = n \<and> \<not> g \<and> n \<notin> set q \<and> s_next s n = MNull \<and> on q tail
      | Put_Help m g tail next \<Rightarrow> m = n \<and> \<not> g \<and> n \<notin> set q \<and> s_next s n = MNull \<and> on q next
      | Put_Swing m g tail \<Rightarrow> m = n \<and> \<not> g \<and> n \<in> set q
      | Put_Done \<Rightarrow> n \<in> set q
      | _ \<Rightarrow> False)"

text \<open>The shared queue holds the nodes \<open>q\<close>; the tail may lag behind the last of them.\<close>

definition queue_ok :: "'a mshared \<Rightarrow> 'a mnode list \<Rightarrow> bool" where
  "queue_ok s q \<longleftrightarrow> mchain (s_next s) q \<and> distinct q \<and> s_head s = MRef (hd q) \<and> on q (s_tail s)"

lemma mchain_next: "mchain h q \<Longrightarrow> x \<in> set q \<Longrightarrow> h x = MNull \<and> x = last q \<or> on q (h x)"
proof (induction h q rule: mchain.induct)
  case (3 h x' y r)
  then show ?case by (auto simp: on_def split: if_splits)
qed (auto simp: on_def)

lemma on_snoc: "on q p \<Longrightarrow> on (q @ [n]) p"
  by (auto simp: on_def)

text \<open>A step of one thread, and what the other threads keep.\<close>

lemma mstep_put:
  assumes q: "queue_ok s q" and n: "put_ok s q n pc" and step: "mstep pc s = (pc', s')"
  shows "\<exists>q'. (q' = q \<or> q' = q @ [n] \<and> n \<notin> set q) \<and> queue_ok s' q' \<and> put_ok s' q' n pc' \<and>
    (\<forall>m. m \<noteq> n \<longrightarrow> m \<notin> set q \<longrightarrow> s_next s' m = s_next s m)"
proof -
  note Q = q [unfolded queue_ok_def]
  note nx = mchain_next [of "s_next s" q]
  show ?thesis
  proof (cases pc)
    case (Put_Clear m g old)
    have "mchain ((s_next s)(n := MNull)) q" if "n \<notin> set q"
      using Q mchain_cong [of q "(s_next s)(n := MNull)" "s_next s"] that by auto
    then show ?thesis using q n step Put_Clear
      by (intro exI [of _ q]) (auto simp: put_ok_def queue_ok_def)
  next
    case (Put_Next m g tail)
    then obtain t where t: "tail = MRef t" "t \<in> set q" using n by (auto simp: put_ok_def on_def)
    show ?thesis using q n step Put_Next t nx [of t]
      by (intro exI [of _ q]) (auto simp: put_ok_def queue_ok_def)
  next
    case (Put_Check m g tail nxt)
    then show ?thesis using q n step
      by (intro exI [of _ q]) (auto simp: put_ok_def split: if_splits)
  next
    case (Put_Link m g tail)
    then obtain t where t: "tail = MRef t" "t \<in> set q" using n by (auto simp: put_ok_def on_def)
    show ?thesis
    proof (cases "s_next s t = MNull")
      case False
      then show ?thesis using q n step Put_Link t by (intro exI [of _ q]) (auto simp: put_ok_def)
    next
      case True
      have N: "n \<notin> set q" "s_next s n = MNull" using n Put_Link by (simp_all add: put_ok_def)
      have tl: "t = last q" using nx [OF _ t(2)] True Q by (auto simp: on_def)
      have ne: "q \<noteq> []" using t(2) by auto
      have h: "(s_next s)(n := MNull) = s_next s" using N(2) by auto
      have "mchain ((s_next s)(last q := MRef n)) (q @ [n])"
        using mchain_snoc [of "s_next s" q n] Q N(1) unfolding h by simp
      then show ?thesis using q n step Put_Link t True N tl ne
        by (intro exI [of _ "q @ [n]"]) (auto simp: put_ok_def queue_ok_def on_snoc)
    qed
  next
    case (Put_Help m g tail nxt)
    then show ?thesis using q n step
      by (intro exI [of _ q]) (auto simp: put_ok_def queue_ok_def)
  next
    case (Put_Swing m g tail)
    then show ?thesis using q n step
      by (intro exI [of _ q]) (auto simp: put_ok_def queue_ok_def on_def)
  qed (use q n step in \<open>auto simp: put_ok_def queue_ok_def intro!: exI [of _ q]\<close>)
qed

lemma put_ok_other:
  assumes "put_ok s q m pc" and "set q' = set q \<or> set q' = insert n (set q)" and "m \<noteq> n"
    and "m \<notin> set q \<longrightarrow> s_next s' m = s_next s m"
  shows "put_ok s' q' m pc"
proof -
  have "on q p \<Longrightarrow> on q' p" for p using assms(2) by (auto simp: on_def)
  moreover have "m \<in> set q' \<longleftrightarrow> m \<in> set q" using assms(2,3) by auto
  ultimately show ?thesis using assms(1,4) unfolding put_ok_def by (cases pc) auto
qed

definition puts_inv :: "'a mnode list \<Rightarrow> 'a mnode list \<Rightarrow> 'a mnode list \<Rightarrow> 'a mthreads \<Rightarrow> bool" where
  "puts_inv ns q zs = (\<lambda>(pcs, s). length pcs = length ns \<and> set zs \<subseteq> set ns \<and> queue_ok s (q @ zs) \<and>
     (\<forall>i < length ns. put_ok s (q @ zs) (ns ! i) (pcs ! i)))"

lemma puts_inv_step:
  assumes inv: "puts_inv ns q zs c" and d: "distinct ns" and i: "i < length ns"
  shows "\<exists>zs'. puts_inv ns q (zs @ zs') (msched i c)"
proof -
  obtain pcs s where c: "c = (pcs, s)" by fastforce
  obtain pc s' where st: "mstep (pcs ! i) s = (pc, s')" by fastforce
  note I = inv [unfolded puts_inv_def c, simplified]
  obtain q' where q': "q' = q @ zs \<or> q' = (q @ zs) @ [ns ! i]" "queue_ok s' q'" "put_ok s' q' (ns ! i) pc"
    "\<forall>m. m \<noteq> ns ! i \<longrightarrow> m \<notin> set (q @ zs) \<longrightarrow> s_next s' m = s_next s m"
    using mstep_put [OF _ _ st, of "q @ zs" "ns ! i"] I i by blast
  obtain zs' where z: "q' = q @ (zs @ zs')" "set zs' \<subseteq> {ns ! i}" using q'(1) by (elim disjE) fastforce+
  have "put_ok s' q' (ns ! j) (pcs[i := pc] ! j)" if j: "j < length ns" for j
  proof (cases "j = i")
    case True
    then show ?thesis using q'(3) I i by simp
  next
    case False
    then have ne: "ns ! j \<noteq> ns ! i" using d i j by (simp add: nth_eq_iff_index_eq)
    have "set q' = set (q @ zs) \<or> set q' = insert (ns ! i) (set (q @ zs))" using q'(1) by auto
    from put_ok_other [OF _ this ne, of s "pcs ! j" s'] show ?thesis using I j q'(4) ne False by simp
  qed
  then have "puts_inv ns q (zs @ zs') (msched i c)"
    using I st z q'(2) i by (auto simp: puts_inv_def c msched_def)
  then show ?thesis ..
qed

lemma puts_inv_run:
  "puts_inv ns q zs c \<Longrightarrow> distinct ns \<Longrightarrow> set is \<subseteq> {..< length ns} \<Longrightarrow> \<exists>zs'. puts_inv ns q (zs @ zs') (mrun is c)"
proof (induction "is" arbitrary: zs c)
  case Nil
  then show ?case by (intro exI [of _ "[]"]) simp
next
  case (Cons i js)
  obtain z1 where "puts_inv ns q (zs @ z1) (msched i c)"
    using puts_inv_step [OF Cons.prems(1,2), of i] Cons.prems(3) by auto
  from Cons.IH [OF this Cons.prems(2)] Cons.prems(3) obtain z2 where
    "puts_inv ns q ((zs @ z1) @ z2) (mrun js (msched i c))" by auto
  then show ?case by (intro exI [of _ "z1 @ z2"]) simp
qed


text \<open>However far the others got, a thread that then runs alone ends its call.\<close>

definition lag :: "'a mnode \<Rightarrow> 'a mnode list \<Rightarrow> nat" where
  "lag t q = length (dropWhile (\<lambda>x. x \<noteq> t) q)"

lemma lag_next:
  "mchain h q \<Longrightarrow> distinct q \<Longrightarrow> t \<in> set q \<Longrightarrow> h t = MRef y \<Longrightarrow> lag y q < lag t q"
proof (induction h q rule: mchain.induct)
  case (3 h x z r)
  show ?case
  proof (cases "t = x")
    case True
    then have "y = z" "y \<noteq> x" using 3 by auto
    then show ?thesis using True by (simp add: lag_def)
  next
    case False
    then have m: "mchain h (z # r)" "t \<in> set (z # r)" using 3 by auto
    have "on (z # r) (MRef y)" using mchain_next [OF m] 3(5) by auto
    then have "y \<noteq> x" using 3(3) by (auto simp: on_def)
    then show ?thesis using 3(1) [OF m(1) _ m(2) 3(5)] 3(3) False by (simp add: lag_def)
  qed
qed (auto simp: lag_def)

lemma ends_tail:
  "queue_ok s q \<Longrightarrow> s_tail s = MRef t \<Longrightarrow> \<exists>s'. msteps (Put_Tail n False, s) (Put_Done, s')"
proof (induction "lag t q" arbitrary: t s rule: less_induct)
  case less
  note Q = less.prems(1) [unfolded queue_ok_def]
  have t: "t \<in> set q" using Q less.prems(2) by (auto simp: on_def)
  show ?case
  proof (cases "s_next s t = MNull")
    case True
    then show ?thesis using less.prems(2) by (intro exI msteps_n [of 5]) (simp add: numeral_eq_Suc)
  next
    case False
    then obtain y where y: "s_next s t = MRef y" "y \<in> set q" using mchain_next [OF _ t] Q by (fastforce simp: on_def)
    let ?s = "s\<lparr>s_tail := MRef y\<rparr>"
    have "queue_ok ?s q" using Q y(2) by (simp add: queue_ok_def on_def)
    then obtain s' where s': "msteps (Put_Tail n False, ?s) (Put_Done, s')"
      using less.hyps [of y ?s] lag_next [where h = "s_next s", OF _ _ t y(1)] Q by auto
    have "((\<lambda>c. mstep (fst c) (snd c)) ^^ 4) (Put_Tail n False, s) = (Put_Tail n False, ?s)"
      using less.prems(2) y(1) by (simp add: numeral_eq_Suc)
    from msteps_trans [OF msteps_n [OF this] s'] show ?thesis ..
  qed
qed

text \<open>Every other place in \<open>msqueue_put\<close> is at most three steps before that one, or before the end.\<close>

fun put_rank :: "'a mpc \<Rightarrow> nat" where
  "put_rank (Put_Begin n g) = 2" | "put_rank (Put_Clear n g p) = 1" | "put_rank (Put_Next n g p) = 3"
| "put_rank (Put_Check n g p r) = 2" | "put_rank (Put_Link n g p) = 1" | "put_rank (Put_Help n g p r) = 1"
| "put_rank _ = 0"

lemma ends_put:
  "queue_ok s q \<Longrightarrow> put_ok s q n pc \<Longrightarrow> \<exists>s'. msteps (pc, s) (Put_Done, s')"
proof (induction "put_rank pc" arbitrary: pc s q rule: less_induct)
  case less
  obtain pc' s1 where st: "mstep pc s = (pc', s1)" by fastforce
  obtain q' where q': "queue_ok s1 q'" "put_ok s1 q' n pc'" using mstep_put [OF less.prems st] by blast
  have one: "\<exists>s'. msteps (pc, s) (Put_Done, s')" if "\<exists>s'. msteps (pc', s1) (Put_Done, s')"
    using that msteps.there [of pc s] st by auto
  have "(\<exists>g. pc = Put_Tail n g \<and> \<not> g) \<or> pc = Put_Done \<or> (\<exists>p. pc = Put_Swing n False p) \<or>
      put_rank pc' < put_rank pc \<or> (\<exists>p. pc' = Put_Swing n False p)"
    using less.prems(2) st by (cases pc) (auto simp: put_ok_def split: mptr.splits if_splits)
  then show ?case
  proof (elim disjE exE conjE)
    fix g assume "pc = Put_Tail n g" "\<not> g"
    then show ?thesis using ends_tail [OF less.prems(1)] less.prems(1) by (auto simp: queue_ok_def on_def)
  next
    assume "pc = Put_Done"
    then show ?thesis by (auto intro: msteps.here)
  next
    fix p assume "pc = Put_Swing n False p"
    then show ?thesis by (intro exI msteps_n [of 1]) simp
  next
    assume "put_rank pc' < put_rank pc"
    from one [OF less.hyps [OF this q']] show ?thesis .
  next
    fix p assume "pc' = Put_Swing n False p"
    then have "\<exists>s'. msteps (pc', s1) (Put_Done, s')" by (intro exI msteps_n [of 1]) simp
    from one [OF this] show ?thesis .
  qed
qed


lemma mrun_replicate:
  "msteps (pcs ! i, s) (pc, s') \<Longrightarrow> i < length pcs \<Longrightarrow> \<exists>k. mrun (replicate k i) (pcs, s) = (pcs[i := pc], s')"
proof (induction "(pcs ! i, s)" "(pc, s')" arbitrary: pcs s rule: msteps.induct)
  case here
  then show ?case by (intro exI [of _ 0]) auto
next
  case (there s pcs)
  obtain pc1 s1 where st: "mstep (pcs ! i) s = (pc1, s1)" by fastforce
  obtain k where "mrun (replicate k i) (pcs[i := pc1], s1) = ((pcs[i := pc1])[i := pc], s')"
    using there(2) [of "pcs[i := pc1]" s1] there(3) st by auto
  then have "mrun (replicate (Suc k) i) (pcs, s) = (pcs[i := pc], s')" by (simp add: msched_def st)
  then show ?case ..
qed

text \<open>
  C17: Any number of threads can put at the same time. Whatever the schedule, the queue stays a chain of
  pairwise different nodes that starts with the old ones; only nodes that are being put are added; a
  thread whose call has returned has its node in the queue; no thread crashes; and when all calls have
  returned, every node is in the queue exactly once. From each state on the way, every thread that is
  left alone for long enough ends its call.
\<close>

theorem concurrent_puts:
  assumes q: "queue_ok s q" and n: "distinct ns" "set ns \<inter> set q = {}" and sched: "set is \<subseteq> {..< length ns}"
    and run: "mrun is (map (\<lambda>n. Put_Begin n False) ns, s) = (pcs, s')"
  shows "(\<exists>zs. queue_ok s' (q @ zs) \<and> set zs \<subseteq> set ns \<and>
      (\<forall>i < length ns. pcs ! i \<noteq> Crashed \<and> (pcs ! i = Put_Done \<longrightarrow> ns ! i \<in> set zs)) \<and>
      ((\<forall>i < length ns. pcs ! i = Put_Done) \<longrightarrow> mset zs = mset ns)) \<and>
    (\<forall>i < length ns. \<exists>k. fst (mrun (replicate k i) (pcs, s')) ! i = Put_Done)"
proof -
  have new: "ns ! i \<notin> set q" if "i < length ns" for i using n(2) nth_mem [OF that] by blast
  then have "puts_inv ns q [] (map (\<lambda>n. Put_Begin n False) ns, s)"
    using q by (simp add: puts_inv_def put_ok_def)
  from puts_inv_run [OF this n(1) sched] obtain zs where "puts_inv ns q zs (pcs, s')" using run by auto
  then have I: "length pcs = length ns" "set zs \<subseteq> set ns" "queue_ok s' (q @ zs)"
    "\<And>i. i < length ns \<Longrightarrow> put_ok s' (q @ zs) (ns ! i) (pcs ! i)"
    by (simp_all add: puts_inv_def)
  have in_zs: "ns ! i \<in> set zs" if "i < length ns" "pcs ! i = Put_Done" for i
    using I(4) [OF that(1)] that(2) new [OF that(1)] by (simp add: put_ok_def)
  have "pcs ! i \<noteq> Crashed" if "i < length ns" for i using I(4) [OF that] by (auto simp: put_ok_def)
  moreover have "mset zs = mset ns" if "\<forall>i < length ns. pcs ! i = Put_Done"
  proof -
    have "set zs = set ns" using I(2) in_zs that by (auto simp: in_set_conv_nth)
    moreover have "distinct zs" using I(3) by (simp add: queue_ok_def)
    ultimately show ?thesis using n(1) by (simp add: set_eq_iff_mset_eq_distinct)
  qed
  moreover have "\<exists>k. fst (mrun (replicate k i) (pcs, s')) ! i = Put_Done" if i: "i < length ns" for i
  proof -
    obtain s1 where "msteps (pcs ! i, s') (Put_Done, s1)" using ends_put [OF I(3) I(4) [OF i]] by blast
    then obtain k where "mrun (replicate k i) (pcs, s') = (pcs[i := Put_Done], s1)"
      using mrun_replicate [of pcs i s' Put_Done s1] i I(1) by auto
    then show ?thesis using i I(1) by (intro exI [of _ k]) simp
  qed
  ultimately show ?thesis using I(2,3) in_zs by blast
qed

text \<open>Two threads whose steps alternate: both read the divider as the tail, and one of them has to try again.\<close>

theorem concurrent_puts_witness:
  "\<exists>zs. queue_ok (snd (mrun (concat (replicate 14 [0, 1])) ([Put_Begin (Node 4) False, Put_Begin (Node 5) False],
       \<lparr>s_next = (\<lambda>_. MNull), s_head = MRef Divider, s_tail = MRef Divider\<rparr>))) (Divider # zs) \<and>
     mset zs = {#Node (4 :: nat), Node 5#}"
proof -
  let ?s = "\<lparr>s_next = (\<lambda>_. MNull), s_head = MRef Divider, s_tail = MRef Divider\<rparr> :: nat mshared"
    and ?ns = "[Node 4, Node 5] :: nat mnode list"
  obtain pcs s' where r: "mrun (concat (replicate 14 [0, 1])) (map (\<lambda>n. Put_Begin n False) ?ns, ?s) = (pcs, s')" by fastforce
  have "queue_ok ?s [Divider]" by (simp add: queue_ok_def on_def)
  from concurrent_puts [OF this _ _ _ r] obtain zs where
    zs: "queue_ok s' ([Divider] @ zs)" "(\<forall>i < length ?ns. pcs ! i = Put_Done) \<longrightarrow> mset zs = mset ?ns" by auto
  have "pcs = [Put_Done, Put_Done]" using r by (simp add: numeral_eq_Suc msched_def)
  then have "mset zs = {#Node 4, Node 5#}" using zs(2) by (auto simp: less_Suc_eq)
  then show ?thesis using r zs(1) by (intro exI [of _ zs]) simp
qed

section \<open>Two threads that get: the same domain twice\<close>

text \<open>The new queue is filled with \<open>a\<close> and \<open>b\<close> by the first two threads; the other four call \<open>msqueue_get\<close>.\<close>

definition aba_start :: "string mthreads" where
  "aba_start = ([Put_Begin (Node ''a'') False, Put_Begin (Node ''b'') False, Get_Head, Get_Head, Get_Head, Get_Head],
     shared_of (INIT_MSQUEUE_ROOT \<lparr>mnext = (\<lambda>_. MPoison), mhead = Divider, mtail = Divider\<rparr>))"

text \<open>
  The queue hands out a domain twice when two threads get. Thread 2 has read the divider at the
  head and \<open>a\<close> after it, and is stopped just before its compare-and-swap. The others take \<open>a\<close> and
  \<open>b\<close>; now the divider is at the head again. The compare-and-swap of thread 2 succeeds, and its call
  returns \<open>a\<close> as well. The head of the queue is the poison value, which the next call follows.
\<close>

theorem get_returns_twice:
  "case mrun (replicate 7 0 @ replicate 7 1 @ replicate 4 2 @ replicate 20 3 @ replicate 20 4 @ replicate 20 2) aba_start of
     (pcs, s) \<Rightarrow> pcs ! 2 = Get_Done (Some (Node ''a'')) \<and> pcs ! 3 = Get_Done (Some (Node ''a'')) \<and>
       pcs ! 4 = Get_Done (Some (Node ''b'')) \<and> s_head s = MPoison \<and>
       fst (mrun (replicate 3 5) (pcs, s)) ! 5 = Crashed"
  by code_simp

end
