(* ===== verification/Messaging.thy ===== *)
theory Messaging
  imports Pid Umap Memalloc Msqueue
begin

unbundle bit_operations_syntax

text \<open>
  The state of the library and the operations that move messages: \<open>struct base\<close>, \<open>domain\<close>,
  \<open>process\<close> and \<open>message\<close> (\<open>src/msock_base.h\<close>, \<open>src/msock_domain.h\<close>, \<open>src/msock_process.h\<close>), the
  name service (\<open>src/msock_reg.c\<close>), sending and dispatching (\<open>src/msock_base.c\<close>,
  \<open>src/msock_domain.c\<close>) and the life of a process (\<open>src/msock_process.c\<close>). The state is that of a run
  in which one thread at a time touches it; locks are therefore left out. Messages and processes
  are chunks of the allocator, named by their addresses. A message is put into a queue only when
  it is in none, so the queues of messages are kept by contents; the queue of busy processes, into
  which the code can put a process twice, is kept as its pointers.
\<close>

section \<open>Data\<close>

definition MAX_DOMAINS :: nat where "MAX_DOMAINS = 5"
definition MAX_REG_NAMES :: nat where "MAX_REG_NAMES = 32"
definition MAX_MSG_PAYLOAD_SZ :: nat where "MAX_MSG_PAYLOAD_SZ = 256 - 8 * 4"

record message =
  m_target :: pid
  m_type :: msg_type
  m_sz :: "32 word"
  m_payload :: "byte list"

text \<open>\<open>'c\<close> names the callbacks, \<open>'d\<close> is what \<open>void *\<close> data points to. A NULL pointer is \<open>None\<close>. A
  process's link in the queue of busy processes is in \<open>busy_next\<close> of the state.\<close>

record ('c, 'd) process =
  inbox :: "addr vqueue"
  badmatch :: "addr vqueue"
  receive_callback :: "'c option"
  receive_data :: "'d option"
  p_domain :: "nat option"
  p_pid :: pid

record 'd domain =
  poff_to_process :: "addr umap_root"
  queue_of_busy_processes :: "addr queue_root"
  cache_messages :: mem_cache
  cache_processes :: mem_cache
  remote_inbox :: "addr vqueue"
  local_inbox :: "addr vqueue"
  proto :: nat
  ingress_callback_data :: "'d option"
  list_of_processes :: "addr list"
  list_of_hungry_processes :: "addr list"
  outbox :: "addr vqueue list"

text \<open>A domain is known by its gid, its index in \<open>gid_to_domain\<close>; \<open>'u\<close> is the state outside the library.\<close>

record ('c, 'd, 'u) base =
  queue_of_domains :: "nat mnode list"
  zone_messages :: mem_zone
  zone_processes :: mem_zone
  gid_to_domain :: "'d domain option list"
  list_of_domains :: "nat list"
  name_table :: "pid list"
  memory :: ram
  msgs :: "addr \<Rightarrow> message"
  procs :: "addr \<Rightarrow> ('c, 'd) process"
  busy_next :: "addr qheap"
  current_process :: "addr option"
  world :: 'u

text \<open>What surrounds the library: the answers of \<open>posix_memalign\<close> and, per kind of engine, its
  \<open>ingress_callback\<close> and \<open>destructor\<close>.\<close>

record ('d, 'u) surroundings =
  s_os :: os
  ingress_callback :: "nat \<Rightarrow> 'd option \<Rightarrow> 'u \<Rightarrow> 'u"
  destructor :: "nat \<Rightarrow> 'd option \<Rightarrow> 'u \<Rightarrow> 'u"

definition get_domain :: "nat \<Rightarrow> ('c, 'd, 'u) base \<Rightarrow> error + 'd domain" where
  "get_domain g b = need (if g < length (gid_to_domain b) then gid_to_domain b ! g else None)"

definition set_domain :: "nat \<Rightarrow> 'd domain \<Rightarrow> ('c, 'd, 'u) base \<Rightarrow> ('c, 'd, 'u) base" where
  "set_domain g d b = b\<lparr>gid_to_domain := (gid_to_domain b)[g := Some d]\<rparr>"

definition set_process :: "addr \<Rightarrow> ('c, 'd) process \<Rightarrow> ('c, 'd, 'u) base \<Rightarrow> ('c, 'd, 'u) base" where
  "set_process p proc b = b\<lparr>procs := (procs b)(p := proc)\<rparr>"

section \<open>Memory of a domain\<close>

definition message_malloc :: "('d, 'u) surroundings \<Rightarrow> nat \<Rightarrow> ('c, 'd, 'u) base \<Rightarrow> error + (addr \<times> ('c, 'd, 'u) base)" where
  "message_malloc s g b =
     rbind (get_domain g b) (\<lambda>d.
     rbind (cache_malloc (s_os s) (cache_messages d) (zone_messages b) (memory b)) (\<lambda>(m, cache, zone, ram).
       Inr (m, set_domain g (d\<lparr>cache_messages := cache\<rparr>) (b\<lparr>zone_messages := zone, memory := ram\<rparr>))))"

definition message_free :: "nat \<Rightarrow> addr \<Rightarrow> ('c, 'd, 'u) base \<Rightarrow> error + ('c, 'd, 'u) base" where
  "message_free g m b =
     rbind (get_domain g b) (\<lambda>d. Inr (set_domain g (d\<lparr>cache_messages := cache_free m (cache_messages d)\<rparr>) b))"

definition process_malloc :: "('d, 'u) surroundings \<Rightarrow> nat \<Rightarrow> ('c, 'd, 'u) base \<Rightarrow> error + (addr \<times> ('c, 'd, 'u) base)" where
  "process_malloc s g b =
     rbind (get_domain g b) (\<lambda>d.
     rbind (cache_malloc (s_os s) (cache_processes d) (zone_processes b) (memory b)) (\<lambda>(p, cache, zone, ram).
       Inr (p, set_domain g (d\<lparr>cache_processes := cache\<rparr>) (b\<lparr>zone_processes := zone, memory := ram\<rparr>))))"

text \<open>The two calls of \<open>cache_drain\<close> for a domain.\<close>

definition drain_caches :: "nat \<Rightarrow> ('c, 'd, 'u) base \<Rightarrow> error + ('c, 'd, 'u) base" where
  "drain_caches g b =
     rbind (get_domain g b) (\<lambda>d.
     rbind (cache_drain (cache_messages d) (zone_messages b) (memory b)) (\<lambda>(cm, zm, ram).
     rbind (cache_drain (cache_processes d) (zone_processes b) ram) (\<lambda>(cp, zp, ram).
       Inr (set_domain g (d\<lparr>cache_messages := cm, cache_processes := cp\<rparr>)
              (b\<lparr>zone_messages := zm, zone_processes := zp, memory := ram\<rparr>)))))"

text \<open>\<open>drain_message_queue\<close>, on the cache of the domain and the queue.\<close>

function drain_message_queue :: "mem_cache \<Rightarrow> addr vqueue \<Rightarrow> mem_cache \<times> addr vqueue" where
  "drain_message_queue cache q =
     (case vq_get q of
        (None, q) \<Rightarrow> (cache, q)
      | (Some m, q) \<Rightarrow> drain_message_queue (cache_free m cache) q)"
  by pat_completeness auto
termination
  by (relation "measure (\<lambda>(cache, q). length (vq_items q))") (auto simp: vq_get_def split: list.splits)

declare drain_message_queue.simps [simp del]

section \<open>The name service\<close>

definition name_to_pid :: "pid \<Rightarrow> ('c, 'd, 'u) base \<Rightarrow> error + pid" where
  "name_to_pid name b =
     (let poff = unat (pid_to_poff name)
      in if poff < length (name_table b) then Inr (name_table b ! poff) else Inl Bad_Deref)"

definition msock_register :: "pid \<Rightarrow> pid \<Rightarrow> ('c, 'd, 'u) base \<Rightarrow> error + ('c, 'd, 'u) base" where
  "msock_register pid name b =
     (let poff = pid_to_poff name; gid = pid_to_gid name
      in if gid \<noteq> 0 then Inl (Fatal ''Can only register as a zero domain.'')
         else if of_nat MAX_REG_NAMES \<le> poff then Inl (Fatal ''Can't register so big name.'')
         else if name_table b ! unat poff \<noteq> 0 then Inl (Fatal ''Name already taken.'')
         else Inr (b\<lparr>name_table := (name_table b)[unat poff := pid]\<rparr>))"

section \<open>Dispatching in a domain\<close>

text \<open>\<open>dispatch_msg_single\<close>. Following a NULL or poison link is a bad dereference.\<close>

definition dispatch_msg_single :: "addr \<Rightarrow> addr \<Rightarrow> ('c, 'd, 'u) base \<Rightarrow> error + ('c, 'd, 'u) base" where
  "dispatch_msg_single p m b =
     (let proc = procs b p;
          (was_empty, ib) = vq_put m (inbox proc);
          b = set_process p (proc\<lparr>inbox := ib\<rparr>) b
      in if was_empty
         then rbind (need (p_domain proc)) (\<lambda>g.
              rbind (get_domain g b) (\<lambda>d.
              rbind (need (queue_put p (busy_next b) (queue_of_busy_processes d))) (\<lambda>(_, h, root).
                Inr (set_domain g (d\<lparr>queue_of_busy_processes := root\<rparr>) (b\<lparr>busy_next := h\<rparr>)))))
         else Inr b)"

definition message_clone :: "('d, 'u) surroundings \<Rightarrow> nat \<Rightarrow> addr \<Rightarrow> ('c, 'd, 'u) base \<Rightarrow> error + (addr \<times> ('c, 'd, 'u) base)" where
  "message_clone s g org b =
     rbind (message_malloc s g b) (\<lambda>(dst, b).
       let om = msgs b org; n = unat (m_sz om)
       in Inr (dst, b\<lparr>msgs := (msgs b)(dst := om\<lparr>m_payload := take n (m_payload om) @ drop n (m_payload (msgs b dst))\<rparr>)\<rparr>))"

fun broadcast_loop :: "('d, 'u) surroundings \<Rightarrow> nat \<Rightarrow> addr \<Rightarrow> addr list \<Rightarrow> ('c, 'd, 'u) base \<Rightarrow> error + ('c, 'd, 'u) base" where
  "broadcast_loop s g m [] b = Inr b"
| "broadcast_loop s g m (p # ps) b =
     rbind (message_clone s g m b) (\<lambda>(lmsg, b).
     rbind (dispatch_msg_single p lmsg b) (\<lambda>b. broadcast_loop s g m ps b))"

definition dispatch_msg_broadcast :: "('d, 'u) surroundings \<Rightarrow> nat \<Rightarrow> addr \<Rightarrow> ('c, 'd, 'u) base \<Rightarrow> error + ('c, 'd, 'u) base" where
  "dispatch_msg_broadcast s g m b =
     rbind (get_domain g b) (\<lambda>d.
     rbind (broadcast_loop s g m (list_of_processes d) b) (\<lambda>b. message_free g m b))"

definition dispatch_special :: "nat \<Rightarrow> addr \<Rightarrow> ('c, 'd, 'u) base \<Rightarrow> error + ('c, 'd, 'u) base" where
  "dispatch_special g m b =
     (if m_type (msgs b m) = MSG_GC
      then rbind (message_free g m b) (\<lambda>b. drain_caches g b)
      else Inl Abort)"

definition dispatch_msg_local :: "('d, 'u) surroundings \<Rightarrow> nat \<Rightarrow> addr \<Rightarrow> ('c, 'd, 'u) base \<Rightarrow> error + (nat \<times> ('c, 'd, 'u) base)" where
  "dispatch_msg_local s g m b =
     (let poff = pid_to_poff (m_target (msgs b m))
      in if poff \<noteq> 0
         then rbind (get_domain g b) (\<lambda>d.
              rbind (umap_get (poff_to_process d) poff) (\<lambda>process.
                case process of
                  Some p \<Rightarrow> rbind (dispatch_msg_single p m b) (\<lambda>b. Inr (1, b))
                | None \<Rightarrow> rbind (message_free g m b) (\<lambda>b. Inr (0, b))))
         else if m_type (msgs b m) \<noteq> MSG_GC
         then rbind (dispatch_msg_broadcast s g m b) (\<lambda>b. Inr (1, b))
         else rbind (dispatch_special g m b) (\<lambda>b. Inr (1, b)))"

section \<open>Sending\<close>

text \<open>The loop of \<open>send_flush_outbox\<close> over the outboxes; a domain whose link in \<open>queue_of_domains\<close> is
  poison is being run, or will not be run again, and is woken up.\<close>

definition splice_remote :: "('d, 'u) surroundings \<Rightarrow> nat \<Rightarrow> nat \<Rightarrow> ('c, 'd, 'u) base \<Rightarrow> error + ('c, 'd, 'u) base" where
  "splice_remote s g v b =
     rbind (get_domain g b) (\<lambda>d.
     rbind (get_domain v b) (\<lambda>victim.
       let (qr, ri) = vq_splice (outbox d ! v) (remote_inbox victim);
           b = set_domain v (victim\<lparr>remote_inbox := ri\<rparr>) b
       in rbind (get_domain g b) (\<lambda>d.
            let b = set_domain g (d\<lparr>outbox := (outbox d)[v := qr]\<rparr>) b
            in Inr (if v \<notin> set (ms_items (queue_of_domains b))
                    then b\<lparr>world := ingress_callback s (proto victim) (ingress_callback_data victim) (world b)\<rparr>
                    else b))))"

fun flush_loop :: "('d, 'u) surroundings \<Rightarrow> nat \<Rightarrow> nat list \<Rightarrow> nat \<Rightarrow> ('c, 'd, 'u) base \<Rightarrow> error + (nat \<times> ('c, 'd, 'u) base)" where
  "flush_loop s g [] cnt b = Inr (cnt, b)"
| "flush_loop s g (gid # gids) cnt b =
     rbind (get_domain g b) (\<lambda>d.
       let qr = outbox d ! gid in
       if vq_items qr = [] then flush_loop s g gids cnt b
       else if gid_to_domain b ! gid = None
       then (let (cache, qr) = drain_message_queue (cache_messages d) qr
             in flush_loop s g gids cnt
                  (set_domain g (d\<lparr>cache_messages := cache, outbox := (outbox d)[gid := qr]\<rparr>) b))
       else rbind (splice_remote s g gid b) (\<lambda>b. flush_loop s g gids (cnt + 1) b))"

definition send_flush_outbox :: "('d, 'u) surroundings \<Rightarrow> nat \<Rightarrow> ('c, 'd, 'u) base \<Rightarrow> error + (nat \<times> ('c, 'd, 'u) base)" where
  "send_flush_outbox s g b = flush_loop s g [0 ..< MAX_DOMAINS] 0 b"

text \<open>
  \<open>_send_indirect\<close>. The payload is a buffer of which \<open>sz\<close> bytes are read; the comparison of \<open>sz\<close> with the
  size of the field converts it to an unsigned long.
\<close>

definition send_indirect :: "('d, 'u) surroundings \<Rightarrow> nat \<Rightarrow> pid \<Rightarrow> msg_type \<Rightarrow> byte list \<Rightarrow> 32 word \<Rightarrow>
    ('c, 'd, 'u) base \<Rightarrow> error + ('c, 'd, 'u) base" where
  "send_indirect s g target ty payload sz b =
     rbind (if pid_to_gid target = 0
            then rbind (name_to_pid target b) (\<lambda>pid.
                   if pid = 0 then Inl (Fatal ''Name not registered.'') else Inr pid)
            else Inr target) (\<lambda>target.
     rbind (message_malloc s g b) (\<lambda>(m, b).
       if of_nat MAX_MSG_PAYLOAD_SZ < (scast sz :: ulong)
       then Inl (Fatal ''Can't handle that big payload.'')
       else if length payload < unat sz then Inl Bad_Deref
       else
         let n = unat sz;
             gid = unat (pid_to_gid target);
             msg = \<lparr>m_target = target, m_type = ty, m_sz = sz,
                    m_payload = take n payload @ drop n (m_payload (msgs b m))\<rparr>;
             b = b\<lparr>msgs := (msgs b)(m := msg)\<rparr>
         in if gid = g
            then rbind (dispatch_msg_local s g m b) (\<lambda>(_, b). Inr b)
            else rbind (get_domain g b) (\<lambda>d.
                   if length (outbox d) \<le> gid then Inl Bad_Deref
                   else Inr (set_domain g (d\<lparr>outbox := (outbox d)[gid := snd (vq_put m (outbox d ! gid))]\<rparr>) b))))"

text \<open>\<open>send_broadcast\<close>: one message to every domain.\<close>

fun send_broadcast_loop :: "('d, 'u) surroundings \<Rightarrow> nat \<Rightarrow> msg_type \<Rightarrow> nat list \<Rightarrow> ('c, 'd, 'u) base \<Rightarrow> error + ('c, 'd, 'u) base" where
  "send_broadcast_loop s g ty [] b = Inr b"
| "send_broadcast_loop s g ty (v # vs) b =
     rbind (send_indirect s g (poff_gid_to_pid PID_BROADCAST (of_nat v)) ty [] 0 b) (\<lambda>b.
       send_broadcast_loop s g ty vs b)"

definition send_broadcast :: "('d, 'u) surroundings \<Rightarrow> nat \<Rightarrow> msg_type \<Rightarrow> ('c, 'd, 'u) base \<Rightarrow> error + ('c, 'd, 'u) base" where
  "send_broadcast s g ty b = send_broadcast_loop s g ty (list_of_domains b) b"

section \<open>Processes\<close>

text \<open>\<open>process_new\<close>; \<open>hungry\<close> is the option PROCOPT_HUNGRY.\<close>

definition process_new :: "('d, 'u) surroundings \<Rightarrow> nat \<Rightarrow> 'c option \<Rightarrow> 'd option \<Rightarrow> bool \<Rightarrow>
    ('c, 'd, 'u) base \<Rightarrow> error + (addr \<times> ('c, 'd, 'u) base)" where
  "process_new s g callback data hungry b =
     rbind (process_malloc s g b) (\<lambda>(p, b).
     rbind (get_domain g b) (\<lambda>d.
     rbind (umap_add (poff_to_process d) (Some p)) (\<lambda>(poff, um).
       if poff = 0 then Inl (Fatal ''Not enough slots for new processes!'')
       else
         let proc = \<lparr>inbox = vq_empty, badmatch = vq_empty, receive_callback = callback,
                     receive_data = data, p_domain = Some g, p_pid = poff_gid_to_pid poff (of_nat g)\<rparr>;
             d = d\<lparr>poff_to_process := um, list_of_processes := p # list_of_processes d,
                    list_of_hungry_processes :=
                      (if hungry then p # list_of_hungry_processes d else list_of_hungry_processes d)\<rparr>
         in Inr (p, (set_process p proc (set_domain g d b))
                      \<lparr>busy_next := INIT_QUEUE_HEAD p (busy_next b)\<rparr>))))"

definition process_free :: "addr \<Rightarrow> ('c, 'd, 'u) base \<Rightarrow> error + ('c, 'd, 'u) base" where
  "process_free p b =
     (let proc = procs b p in
      rbind (need (p_domain proc)) (\<lambda>g.
      rbind (get_domain g b) (\<lambda>d.
      rbind (umap_del (poff_to_process d) (pid_to_poff (p_pid proc))) (\<lambda>um.
      rbind (if queue_is_enqueued p (busy_next b)
             then need (queue_slow_del p (busy_next b) (queue_of_busy_processes d))
             else Inr (busy_next b, queue_of_busy_processes d)) (\<lambda>(h, root).
        let (cache, ib) = drain_message_queue (cache_messages d) (inbox proc);
            (cache, bm) = drain_message_queue cache (badmatch proc);
            d = d\<lparr>poff_to_process := um, list_of_processes := remove1 p (list_of_processes d),
                   queue_of_busy_processes := root,
                   list_of_hungry_processes := remove1 p (list_of_hungry_processes d),
                   cache_messages := cache, cache_processes := cache_free p (cache_processes d)\<rparr>;
            proc = proc\<lparr>inbox := ib, badmatch := bm, p_domain := None, p_pid := 0,
                         receive_data := None, receive_callback := None\<rparr>
        in Inr ((set_process p proc (set_domain g d b))\<lparr>busy_next := h\<rparr>))))))"

text \<open>\<open>spawn\<close>.\<close>

definition spawn :: "('d, 'u) surroundings \<Rightarrow> nat \<Rightarrow> 'c option \<Rightarrow> 'd option \<Rightarrow> bool \<Rightarrow>
    ('c, 'd, 'u) base \<Rightarrow> error + (pid \<times> ('c, 'd, 'u) base)" where
  "spawn s g callback data hungry b =
     rbind (process_new s g callback data hungry b) (\<lambda>(p, b). Inr (p_pid (procs b p), b))"

section \<open>Domains\<close>

definition find_free_gid :: "('c, 'd, 'u) base \<Rightarrow> error + nat" where
  "find_free_gid b =
     (case find (\<lambda>gid. gid_to_domain b ! gid = None) [1 ..< MAX_DOMAINS] of
        Some gid \<Rightarrow> Inr gid
      | None \<Rightarrow> Inl (Fatal ''Too many domains.''))"

definition domain_new :: "nat \<Rightarrow> 'd option \<Rightarrow> ulong \<Rightarrow> ('c, 'd, 'u) base \<Rightarrow> error + (nat \<times> ('c, 'd, 'u) base)" where
  "domain_new prot data max_processes b =
     rbind (find_free_gid b) (\<lambda>gid.
       let d = \<lparr>poff_to_process = umap_new max_processes (2 ^ (8 * 8 - 5) - 1),
                queue_of_busy_processes = INIT_QUEUE_ROOT, cache_messages = init_mem_cache,
                cache_processes = init_mem_cache, remote_inbox = vq_empty, local_inbox = vq_empty,
                proto = prot, ingress_callback_data = data, list_of_processes = [],
                list_of_hungry_processes = [], outbox = replicate MAX_DOMAINS vq_empty\<rparr>
       in Inr (gid, set_domain gid d (b\<lparr>list_of_domains := list_of_domains b @ [gid],
                                        queue_of_domains := ms_put gid (queue_of_domains b)\<rparr>)))"

definition domain_free :: "('d, 'u) surroundings \<Rightarrow> nat \<Rightarrow> ('c, 'd, 'u) base \<Rightarrow> error + ('c, 'd, 'u) base" where
  "domain_free s g b =
     rbind (get_domain g b) (\<lambda>d.
       let b = b\<lparr>world := destructor s (proto d) (ingress_callback_data d) (world b)\<rparr>;
           (cache, ri) = drain_message_queue (cache_messages d) (remote_inbox d);
           (cache, li) = drain_message_queue cache (local_inbox d);
           d = d\<lparr>ingress_callback_data := None, cache_messages := cache, remote_inbox := ri, local_inbox := li\<rparr>
       in rbind (drain_caches g (set_domain g d b)) (\<lambda>b.
            Inr (b\<lparr>gid_to_domain := (gid_to_domain b)[g := None], list_of_domains := remove1 g (list_of_domains b)\<rparr>)))"

definition count_hungry_domains :: "('c, 'd, 'u) base \<Rightarrow> nat" where
  "count_hungry_domains b =
     length (filter (\<lambda>g. case gid_to_domain b ! g of
                           Some d \<Rightarrow> list_of_hungry_processes d \<noteq> []
                         | None \<Rightarrow> False) (list_of_domains b))"

section \<open>Starting and ending\<close>

definition sizeof_message :: nat where "sizeof_message = 248"
definition sizeof_process :: nat where "sizeof_process = 104"

text \<open>\<open>engines_start\<close>: the constructors of the engines whose bit is set in the mask, in order; \<open>None\<close> is an
  engine that is not linked in.\<close>

fun engines_start :: "(('c, 'd, 'u) base \<Rightarrow> error + ('c, 'd, 'u) base) option list \<Rightarrow> nat \<Rightarrow> ulong \<Rightarrow>
    ('c, 'd, 'u) base \<Rightarrow> error + ('c, 'd, 'u) base" where
  "engines_start [] et mk b = Inr b"
| "engines_start (c # cs) et mk b =
     (if bit mk et
      then (case c of
              None \<Rightarrow> Inl (Fatal ''Unsupported engine'')
            | Some constructor \<Rightarrow> rbind (constructor b) (\<lambda>b. engines_start cs (Suc et) mk b))
      else engines_start cs (Suc et) mk b)"

definition empty_base :: "mem_zone \<Rightarrow> mem_zone \<Rightarrow> ram \<Rightarrow> (addr \<Rightarrow> message) \<Rightarrow> (addr \<Rightarrow> ('c, 'd) process) \<Rightarrow>
    addr qheap \<Rightarrow> 'u \<Rightarrow> ('c, 'd, 'u) base" where
  "empty_base zm zp ram ms ps h u =
     \<lparr>queue_of_domains = ms_new, zone_messages = zm, zone_processes = zp,
      gid_to_domain = replicate MAX_DOMAINS None, list_of_domains = [],
      name_table = replicate MAX_REG_NAMES 0, memory = ram, msgs = ms, procs = ps, busy_next = h,
      current_process = None, world = u\<rparr>"

definition msock_base_new :: "(('c, 'd, 'u) base \<Rightarrow> error + ('c, 'd, 'u) base) option list \<Rightarrow> ulong \<Rightarrow>
    ram \<Rightarrow> (addr \<Rightarrow> message) \<Rightarrow> (addr \<Rightarrow> ('c, 'd) process) \<Rightarrow> addr qheap \<Rightarrow> 'u \<Rightarrow>
    error + ('c, 'd, 'u) base" where
  "msock_base_new engines mk ram ms ps h u =
     rbind (init_mem_zone sizeof_message) (\<lambda>zm.
     rbind (init_mem_zone sizeof_process) (\<lambda>zp.
       engines_start engines 0 (mk OR 2) (empty_base zm zp ram ms ps h u)))"

fun engines_stop_loop :: "('d, 'u) surroundings \<Rightarrow> nat list \<Rightarrow> ('c, 'd, 'u) base \<Rightarrow> error + ('c, 'd, 'u) base" where
  "engines_stop_loop s [] b = Inr b"
| "engines_stop_loop s (g # gs) b = rbind (domain_free s g b) (\<lambda>b. engines_stop_loop s gs b)"

definition engines_stop :: "('d, 'u) surroundings \<Rightarrow> ('c, 'd, 'u) base \<Rightarrow> error + ('c, 'd, 'u) base" where
  "engines_stop s b = engines_stop_loop s (list_of_domains b) b"

definition msock_base_free :: "('d, 'u) surroundings \<Rightarrow> ('c, 'd, 'u) base \<Rightarrow> error + 'u" where
  "msock_base_free s b =
     rbind (engines_stop s b) (\<lambda>b.
     rbind (zone_free (zone_messages b)) (\<lambda>_.
     rbind (zone_free (zone_processes b)) (\<lambda>_. Inr (world b))))"

text \<open>Calls from outside the loop, which use the domain 1.\<close>

definition msock_base_send :: "('d, 'u) surroundings \<Rightarrow> pid \<Rightarrow> msg_type \<Rightarrow> byte list \<Rightarrow> 32 word \<Rightarrow>
    ('c, 'd, 'u) base \<Rightarrow> error + ('c, 'd, 'u) base" where
  "msock_base_send s target ty payload sz b =
     rbind (send_indirect s 1 target ty payload sz b) (\<lambda>b.
     rbind (send_flush_outbox s 1 b) (\<lambda>(_, b). Inr b))"

definition msock_base_spawn :: "('d, 'u) surroundings \<Rightarrow> 'c option \<Rightarrow> 'd option \<Rightarrow>
    ('c, 'd, 'u) base \<Rightarrow> error + (pid \<times> ('c, 'd, 'u) base)" where
  "msock_base_spawn s callback data b = spawn s 1 callback data False b"

text \<open>\<open>engine_user_constructor\<close> (\<open>src/msock_engine_user.c\<close>), given the limit on open files.\<close>

definition engine_user_constructor :: "ulong \<Rightarrow> ulong \<Rightarrow> ('c, 'd, 'u) base \<Rightarrow> error + ('c, 'd, 'u) base" where
  "engine_user_constructor max_open_files user_max_processes b =
     (let user_max_processes = (if user_max_processes = 0 then max_open_files + 1 else user_max_processes)
      in rbind (domain_new 1 None user_max_processes b) (\<lambda>(_, b). Inr b))"

end
