(* ===== verification/Runtime.thy ===== *)
theory Runtime
  imports Messaging
begin

text \<open>
  The main loop: the callbacks of processes and what they can ask of the library
  (\<open>src/msock_base.c\<close>, \<open>msock_receive\<close> in \<open>src/msock_process.c\<close>), running a process, a domain
  (\<open>src/msock_domain.c\<close>) and a worker (\<open>src/msock_worker.c\<close>), for one worker. The loops may run
  forever, so they take fuel; \<open>No_Fuel\<close> is a run that was cut off.
\<close>

section \<open>Callbacks\<close>

text \<open>
  A callback is a tree of the calls it makes, in order: each node is a call with its continuation,
  which takes what the call returns. \<open>World\<close> is what the callback does outside the library, to its own
  data and to the system; \<open>Fail\<close> is a callback that does not return.
\<close>

datatype ('c, 'd, 'u) act =
    Return recv
  | Fail error
  | World "'u \<Rightarrow> 'u \<times> ('c, 'd, 'u) act"
  | Send pid msg_type "byte list" "32 word" "('c, 'd, 'u) act"
  | Receive "'c option" "'d option" "('c, 'd, 'u) act"
  | Spawn "'c option" "'d option" "pid \<Rightarrow> ('c, 'd, 'u) act"
  | Spawn2 'c "'d option" "pid \<Rightarrow> ('c, 'd, 'u) act"
  | Self "pid \<Rightarrow> ('c, 'd, 'u) act"
  | Loopexit "('c, 'd, 'u) act"
  | Memory_Collect "('c, 'd, 'u) act"
  | Memory_Stats "ulong \<Rightarrow> ('c, 'd, 'u) act"

text \<open>The code behind the names of callbacks and of constructors. A callback gets the type of the
  message, the bytes of the payload field, of which the first \<open>sz\<close> are the message's, and \<open>sz\<close>.\<close>

record ('c, 'd, 'u) program =
  on_message :: "'c \<Rightarrow> msg_type \<Rightarrow> byte list \<Rightarrow> 32 word \<Rightarrow> 'd option \<Rightarrow> ('c, 'd, 'u) act"
  on_construct :: "'c \<Rightarrow> 'd option \<Rightarrow> ('c, 'd, 'u) act"

section \<open>What a callback calls\<close>

definition get_current_process :: "('c, 'd, 'u) base \<Rightarrow> error + addr" where
  "get_current_process b =
     (case current_process b of
        None \<Rightarrow> Inl (Fatal ''Context dependent routine called without a context.'')
      | Some p \<Rightarrow> Inr p)"

definition current_domain :: "('c, 'd, 'u) base \<Rightarrow> error + nat" where
  "current_domain b = rbind (get_current_process b) (\<lambda>p. need (p_domain (procs b p)))"

definition msock_send :: "('d, 'u) surroundings \<Rightarrow> pid \<Rightarrow> msg_type \<Rightarrow> byte list \<Rightarrow> 32 word \<Rightarrow>
    ('c, 'd, 'u) base \<Rightarrow> error + ('c, 'd, 'u) base" where
  "msock_send s target ty payload sz b =
     rbind (current_domain b) (\<lambda>g. send_indirect s g target ty payload sz b)"

definition msock_self :: "('c, 'd, 'u) base \<Rightarrow> error + pid" where
  "msock_self b = rbind (get_current_process b) (\<lambda>p. Inr (p_pid (procs b p)))"

definition msock_spawn :: "('d, 'u) surroundings \<Rightarrow> 'c option \<Rightarrow> 'd option \<Rightarrow>
    ('c, 'd, 'u) base \<Rightarrow> error + (pid \<times> ('c, 'd, 'u) base)" where
  "msock_spawn s callback data b = rbind (current_domain b) (\<lambda>g. spawn s g callback data False b)"

definition msock_receive :: "'c option \<Rightarrow> 'd option \<Rightarrow> ('c, 'd, 'u) base \<Rightarrow> error + ('c, 'd, 'u) base" where
  "msock_receive callback data b =
     rbind (get_current_process b) (\<lambda>p.
       let proc = procs b p in
       rbind (need (vq_splice_prepend (badmatch proc) (inbox proc))) (\<lambda>(bm, ib).
         Inr (set_process p (proc\<lparr>receive_callback := callback, receive_data := data,
                                  badmatch := bm, inbox := ib\<rparr>) b)))"

definition msock_loopexit :: "('d, 'u) surroundings \<Rightarrow> ('c, 'd, 'u) base \<Rightarrow> error + ('c, 'd, 'u) base" where
  "msock_loopexit s b = rbind (current_domain b) (\<lambda>g. send_broadcast s g MSG_EXIT b)"

definition msock_memory_collect :: "('d, 'u) surroundings \<Rightarrow> ('c, 'd, 'u) base \<Rightarrow> error + ('c, 'd, 'u) base" where
  "msock_memory_collect s b =
     rbind (current_domain b) (\<lambda>g.
     rbind (send_broadcast s g MSG_GC b) (\<lambda>b.
     rbind (send_flush_outbox s g b) (\<lambda>(_, b). Inr b)))"

definition msock_memory_stats :: "('c, 'd, 'u) base \<Rightarrow> error + ulong" where
  "msock_memory_stats b =
     rbind (current_domain b) (\<lambda>_.
       Inr (zone_used_bytes (zone_messages b) + zone_used_bytes (zone_processes b)))"

text \<open>The effect of a callback, given how the constructor of \<open>msock_spawn2\<close> is run.\<close>

primrec run_act :: "('d, 'u) surroundings \<Rightarrow>
    (nat \<Rightarrow> pid \<Rightarrow> 'c \<Rightarrow> 'd option \<Rightarrow> ('c, 'd, 'u) base \<Rightarrow> error + ('c, 'd, 'u) base) \<Rightarrow>
    ('c, 'd, 'u) act \<Rightarrow> ('c, 'd, 'u) base \<Rightarrow> error + (recv \<times> ('c, 'd, 'u) base)" where
  "run_act s rc (Return r) = (\<lambda>b. Inr (r, b))"
| "run_act s rc (Fail e) = (\<lambda>b. Inl e)"
| "run_act s rc (World f) = (\<lambda>b.
     let k = (\<lambda>u. map_prod id (run_act s rc) (f u)) (world b) in snd k (b\<lparr>world := fst k\<rparr>))"
| "run_act s rc (Send target ty payload sz k) = (\<lambda>b.
     rbind (msock_send s target ty payload sz b) (run_act s rc k))"
| "run_act s rc (Receive cb data k) = (\<lambda>b. rbind (msock_receive cb data b) (run_act s rc k))"
| "run_act s rc (Spawn cb data k) = (\<lambda>b.
     rbind (msock_spawn s cb data b) (\<lambda>(pid, b). run_act s rc (k pid) b))"
| "run_act s rc (Spawn2 c data k) = (\<lambda>b.
     rbind (current_domain b) (\<lambda>g.
     rbind (spawn s g None None False b) (\<lambda>(pid, b).
     rbind (rc g pid c data b) (run_act s rc (k pid)))))"
| "run_act s rc (Self k) = (\<lambda>b. rbind (msock_self b) (\<lambda>pid. run_act s rc (k pid) b))"
| "run_act s rc (Loopexit k) = (\<lambda>b. rbind (msock_loopexit s b) (run_act s rc k))"
| "run_act s rc (Memory_Collect k) = (\<lambda>b. rbind (msock_memory_collect s b) (run_act s rc k))"
| "run_act s rc (Memory_Stats k) = (\<lambda>b. rbind (msock_memory_stats b) (\<lambda>n. run_act s rc (k n) b))"

text \<open>\<open>run_constructor\<close>; a constructor may itself spawn, to a depth that the fuel bounds.\<close>

fun run_constructor :: "('d, 'u) surroundings \<Rightarrow> ('c, 'd, 'u) program \<Rightarrow> nat \<Rightarrow> nat \<Rightarrow> pid \<Rightarrow> 'c \<Rightarrow>
    'd option \<Rightarrow> ('c, 'd, 'u) base \<Rightarrow> error + ('c, 'd, 'u) base" where
  "run_constructor s prog 0 g pid c data b = Inl No_Fuel"
| "run_constructor s prog (Suc n) g pid c data b =
     (let oldproc = current_process b in
      rbind (get_domain g b) (\<lambda>d.
      rbind (umap_get (poff_to_process d) (pid_to_poff pid)) (\<lambda>p.
      rbind (run_act s (run_constructor s prog n) (on_construct prog c data) (b\<lparr>current_process := p\<rparr>)) (\<lambda>(_, b).
        Inr (b\<lparr>current_process := oldproc\<rparr>)))))"

definition msock_base_spawn2 :: "('d, 'u) surroundings \<Rightarrow> ('c, 'd, 'u) program \<Rightarrow> nat \<Rightarrow> 'c \<Rightarrow> 'd option \<Rightarrow>
    ('c, 'd, 'u) base \<Rightarrow> error + (pid \<times> ('c, 'd, 'u) base)" where
  "msock_base_spawn2 s prog n c data b =
     rbind (spawn s 1 None None False b) (\<lambda>(pid, b).
     rbind (run_constructor s prog n 1 pid c data b) (\<lambda>b. Inr (pid, b)))"

section \<open>Running a process\<close>

fun process_run :: "('d, 'u) surroundings \<Rightarrow> ('c, 'd, 'u) program \<Rightarrow> nat \<Rightarrow> addr \<Rightarrow>
    ('c, 'd, 'u) base \<Rightarrow> error + ('c, 'd, 'u) base" where
  "process_run s prog 0 p b = Inl No_Fuel"
| "process_run s prog (Suc n) p b =
     (let proc = procs b p in
      case vq_get (inbox proc) of
        (None, q) \<Rightarrow> Inr (set_process p (proc\<lparr>inbox := q\<rparr>) b)
      | (Some m, q) \<Rightarrow>
          (let b = set_process p (proc\<lparr>inbox := q\<rparr>) b; msg = msgs b m in
           rbind (need (receive_callback proc)) (\<lambda>cb.
           rbind (run_act s (run_constructor s prog n)
                    (on_message prog cb (m_type msg) (m_payload msg) (m_sz msg) (receive_data proc)) b) (\<lambda>(recv, b).
             if recv = RECV_OK
             then rbind (need (p_domain (procs b p))) (\<lambda>g.
                  rbind (message_free g m b) (process_run s prog n p))
             else if recv = RECV_BADMATCH
             then process_run s prog n p
                    (set_process p ((procs b p)\<lparr>badmatch := snd (vq_put m (badmatch (procs b p)))\<rparr>) b)
             else if recv = RECV_EXIT
             then rbind (need (p_domain (procs b p))) (\<lambda>g.
                  rbind (message_free g m b) (process_free p))
             else Inl (Fatal ''wtf?'')))))"

section \<open>Running a domain\<close>

text \<open>Dispatching does not put messages into the local inbox, so emptying it ends.\<close>

definition local_items :: "nat \<Rightarrow> ('c, 'd, 'u) base \<Rightarrow> addr list" where
  "local_items g b =
     (case get_domain g b of Inl _ \<Rightarrow> [] | Inr d \<Rightarrow> vq_items (local_inbox d))"

lemma local_items_domain:
  "get_domain g b = Inr d \<Longrightarrow> local_items g b = vq_items (local_inbox d)"
  by (simp add: local_items_def)

lemma get_set_domain:
  "get_domain g b = Inr d \<Longrightarrow> get_domain h (set_domain g d' b) = (if h = g then Inr d' else get_domain h b)"
  by (auto simp: get_domain_def set_domain_def split: if_splits)

lemma get_domain_frame [simp]:
  "get_domain g (set_process p x b) = get_domain g b"
  "get_domain g (b\<lparr>memory := r\<rparr>) = get_domain g b"
  "get_domain g (b\<lparr>msgs := ms\<rparr>) = get_domain g b"
  "get_domain g (b\<lparr>busy_next := bn\<rparr>) = get_domain g b"
  "get_domain g (b\<lparr>zone_messages := zm\<rparr>) = get_domain g b"
  "get_domain g (b\<lparr>zone_processes := zp\<rparr>) = get_domain g b"
  "get_domain g (b\<lparr>current_process := c\<rparr>) = get_domain g b"
  "get_domain g (b\<lparr>world := u\<rparr>) = get_domain g b"
  "get_domain g (b\<lparr>queue_of_domains := qd\<rparr>) = get_domain g b"
  by (simp_all add: get_domain_def set_process_def)

lemma local_items_set:
  "get_domain g b = Inr d \<Longrightarrow>
     local_items h (set_domain g d' b) = (if h = g then vq_items (local_inbox d') else local_items h b)"
  by (simp add: local_items_def get_set_domain)

lemma local_items_frame [simp]:
  "local_items g (set_process p x b) = local_items g b"
  "local_items g (b\<lparr>memory := r\<rparr>) = local_items g b"
  "local_items g (b\<lparr>msgs := ms\<rparr>) = local_items g b"
  "local_items g (b\<lparr>busy_next := bn\<rparr>) = local_items g b"
  "local_items g (b\<lparr>zone_messages := zm\<rparr>) = local_items g b"
  "local_items g (b\<lparr>zone_processes := zp\<rparr>) = local_items g b"
  by (simp_all add: local_items_def)

lemma message_malloc_local: "message_malloc s g b = Inr (m, b') \<Longrightarrow> local_items h b' = local_items h b"
  by (auto simp: message_malloc_def local_items_set local_items_domain)

lemma message_free_local: "message_free g m b = Inr b' \<Longrightarrow> local_items h b' = local_items h b"
  by (auto simp: message_free_def local_items_set local_items_domain)

lemma drain_caches_local: "drain_caches g b = Inr b' \<Longrightarrow> local_items h b' = local_items h b"
  by (auto simp: drain_caches_def local_items_set local_items_domain)

lemma dispatch_msg_single_local: "dispatch_msg_single p m b = Inr b' \<Longrightarrow> local_items h b' = local_items h b"
  by (auto simp: dispatch_msg_single_def Let_def local_items_set local_items_domain split: prod.splits if_splits)

lemma broadcast_loop_local: "broadcast_loop s g m ps b = Inr b' \<Longrightarrow> local_items h b' = local_items h b"
proof (induction ps arbitrary: b)
  case (Cons p ps)
  then show ?case
    by (auto simp: message_clone_def Let_def
        dest!: message_malloc_local [where h = h] dispatch_msg_single_local [where h = h])
qed simp

lemma dispatch_msg_local_local:
  assumes "dispatch_msg_local s g m b = Inr (n, b')"
  shows "local_items h b' = local_items h b"
  using assms
  by (auto simp: dispatch_msg_local_def dispatch_msg_broadcast_def dispatch_special_def Let_def
      split: if_splits option.splits
      dest!: message_free_local [where h = h] dispatch_msg_single_local [where h = h]
        broadcast_loop_local [where h = h] drain_caches_local [where h = h])

lemma dispatch_decreases:
  assumes "get_domain g b = Inr d" and "vq_get (local_inbox d) = (Some m, q)"
    and "dispatch_msg_local s g m (set_domain g (d\<lparr>local_inbox := q\<rparr>) b) = Inr (k, b')"
  shows "length (local_items g b') < length (local_items g b)"
  using dispatch_msg_local_local [OF assms(3), of g] assms(1,2)
  by (auto simp: vq_get_def local_items_set local_items_domain split: list.splits)

function dispatch_local_inbox :: "('d, 'u) surroundings \<Rightarrow> nat \<Rightarrow> ('c, 'd, 'u) base \<Rightarrow>
    error + (nat \<times> ('c, 'd, 'u) base)" where
  "dispatch_local_inbox s g b =
     rbind (get_domain g b) (\<lambda>d.
       case vq_get (local_inbox d) of
         (None, q) \<Rightarrow> Inr (0, b)
       | (Some m, q) \<Rightarrow>
           rbind (dispatch_msg_local s g m (set_domain g (d\<lparr>local_inbox := q\<rparr>) b)) (\<lambda>(delivered, b).
           rbind (dispatch_local_inbox s g b) (\<lambda>(cnt, b). Inr (delivered + cnt, b))))"
  by pat_completeness auto
termination
  by (relation "measure (\<lambda>(s, g, b). length (local_items g b))") (auto dest: dispatch_decreases [OF _ sym])

declare dispatch_local_inbox.simps [simp del]

fun process_queue_run :: "('d, 'u) surroundings \<Rightarrow> ('c, 'd, 'u) program \<Rightarrow> nat \<Rightarrow> nat \<Rightarrow>
    ('c, 'd, 'u) base \<Rightarrow> error + ('c, 'd, 'u) base" where
  "process_queue_run s prog 0 g b = Inl No_Fuel"
| "process_queue_run s prog (Suc n) g b =
     rbind (get_domain g b) (\<lambda>d.
     rbind (need (queue_get (busy_next b) (queue_of_busy_processes d))) (\<lambda>(head, h, root).
       let b = set_domain g (d\<lparr>queue_of_busy_processes := root\<rparr>) (b\<lparr>busy_next := h\<rparr>) in
       case head of
         None \<Rightarrow> Inr b
       | Some p \<Rightarrow> rbind (process_run s prog n p (b\<lparr>current_process := Some p\<rparr>)) (\<lambda>b.
           process_queue_run s prog n g (b\<lparr>current_process := None\<rparr>))))"

text \<open>The loop of \<open>domain_run\<close>.\<close>

fun domain_loop :: "('d, 'u) surroundings \<Rightarrow> ('c, 'd, 'u) program \<Rightarrow> nat \<Rightarrow> nat \<Rightarrow>
    ('c, 'd, 'u) base \<Rightarrow> error + ('c, 'd, 'u) base" where
  "domain_loop s prog 0 g b = Inl No_Fuel"
| "domain_loop s prog (Suc n) g b =
     rbind (process_queue_run s prog n g b) (\<lambda>b.
     rbind (dispatch_local_inbox s g b) (\<lambda>(delivered, b).
       if delivered = 0 then Inr b else domain_loop s prog n g b))"

text \<open>The start of \<open>domain_run\<close>: what came from other domains is dispatched.\<close>

definition domain_receive :: "('d, 'u) surroundings \<Rightarrow> nat \<Rightarrow> ('c, 'd, 'u) base \<Rightarrow> error + (nat \<times> ('c, 'd, 'u) base)" where
  "domain_receive s g b =
     rbind (get_domain g b) (\<lambda>d.
       let (ri, li) = vq_splice (remote_inbox d) (local_inbox d) in
       dispatch_local_inbox s g (set_domain g (d\<lparr>remote_inbox := ri, local_inbox := li\<rparr>) b))"

definition domain_run :: "('d, 'u) surroundings \<Rightarrow> ('c, 'd, 'u) program \<Rightarrow> nat \<Rightarrow> nat \<Rightarrow>
    ('c, 'd, 'u) base \<Rightarrow> error + (nat \<times> ('c, 'd, 'u) base)" where
  "domain_run s prog n g b =
     rbind (domain_receive s g b) (\<lambda>(_, b).
     rbind (domain_loop s prog n g b) (\<lambda>b. send_flush_outbox s g b))"

section \<open>Running a worker\<close>

text \<open>
  The step of \<open>list_for_each\<close> over the hungry processes, from the entry of the process \<open>p\<close>, which may
  have left the list: then its link is poison, unless its chunk is that of a new process, whose link
  is to itself.
\<close>

definition next_hungry :: "nat \<Rightarrow> addr \<Rightarrow> ('c, 'd, 'u) base \<Rightarrow> error + addr option" where
  "next_hungry g p b =
     rbind (get_domain g b) (\<lambda>d.
       case dropWhile (\<lambda>q. q \<noteq> p) (list_of_hungry_processes d) of
         _ # [] \<Rightarrow> Inr None
       | _ # q # _ \<Rightarrow> Inr (Some q)
       | [] \<Rightarrow> if p_domain (procs b p) = None then Inl Bad_Deref else Inr (Some p))"

fun hungry_loop :: "('d, 'u) surroundings \<Rightarrow> ('c, 'd, 'u) program \<Rightarrow> nat \<Rightarrow> nat \<Rightarrow> addr option \<Rightarrow>
    ('c, 'd, 'u) base \<Rightarrow> error + ('c, 'd, 'u) base" where
  "hungry_loop s prog n g None b = Inr b"
| "hungry_loop s prog 0 g (Some p) b = Inl No_Fuel"
| "hungry_loop s prog (Suc n) g (Some p) b =
     rbind (send_indirect s g (p_pid (procs b p)) MSG_QUEUE_EMPTY [] 0 b) (\<lambda>b.
     rbind (domain_run s prog n g b) (\<lambda>(_, b).
     rbind (next_hungry g p b) (\<lambda>q. hungry_loop s prog n g q b)))"

definition worker_domain_run :: "('d, 'u) surroundings \<Rightarrow> ('c, 'd, 'u) program \<Rightarrow> nat \<Rightarrow> nat \<Rightarrow>
    ('c, 'd, 'u) base \<Rightarrow> error + ('c, 'd, 'u) base" where
  "worker_domain_run s prog n g b =
     rbind (domain_run s prog n g b) (\<lambda>(egress_msgs, b).
     rbind (get_domain g b) (\<lambda>d.
       case list_of_hungry_processes d of
         [] \<Rightarrow> Inr b
       | p # _ \<Rightarrow> if egress_msgs = 0 then hungry_loop s prog n g (Some p) b else Inr b))"

fun worker_loop :: "('d, 'u) surroundings \<Rightarrow> ('c, 'd, 'u) program \<Rightarrow> nat \<Rightarrow>
    ('c, 'd, 'u) base \<Rightarrow> error + ('c, 'd, 'u) base" where
  "worker_loop s prog 0 b = Inl No_Fuel"
| "worker_loop s prog (Suc n) b =
     (case ms_get (queue_of_domains b) of
        (None, q) \<Rightarrow> Inr (b\<lparr>queue_of_domains := q\<rparr>)
      | (Some g, q) \<Rightarrow>
          rbind (worker_domain_run s prog n g (b\<lparr>queue_of_domains := q\<rparr>)) (\<lambda>b.
          rbind (get_domain g b) (\<lambda>d.
            worker_loop s prog n
              (if list_of_processes d = [] then b
               else b\<lparr>queue_of_domains := ms_put g (queue_of_domains b)\<rparr>))))"

text \<open>\<open>msock_base_loop\<close> with no other workers, as when \<open>pthread_create\<close> fails or at most one domain is
  hungry.\<close>

definition workers_no :: "('c, 'd, 'u) base \<Rightarrow> nat" where
  "workers_no b = count_hungry_domains b - 1"

definition msock_base_loop :: "('d, 'u) surroundings \<Rightarrow> ('c, 'd, 'u) program \<Rightarrow> nat \<Rightarrow>
    ('c, 'd, 'u) base \<Rightarrow> error + ('c, 'd, 'u) base" where
  "msock_base_loop s prog n b = worker_loop s prog n b"

end
