(* ===== verification/Delivery.thy ===== *)
theory Delivery
  imports Runtime
begin

text \<open>
  What the operations of \<open>Messaging\<close> and \<open>Runtime\<close> guarantee: a message reaches the process it is for,
  after the messages sent there before, and nothing else changes; what cannot be delivered is
  rejected or freed; an outbox is handed over in order.
\<close>

section \<open>Sending to a process of the domain\<close>

lemma message_mallocD:
  assumes "message_malloc s g b = Inr (m, b')"
  obtains d cache zone ram where "get_domain g b = Inr d"
    "b' = set_domain g (d\<lparr>cache_messages := cache\<rparr>) (b\<lparr>zone_messages := zone, memory := ram\<rparr>)"
  using assms by (auto simp: message_malloc_def)

lemma set_domain_sel [simp]:
  "msgs (set_domain g d b) = msgs b" "procs (set_domain g d b) = procs b"
  "busy_next (set_domain g d b) = busy_next b" "name_table (set_domain g d b) = name_table b"
  "world (set_domain g d b) = world b" "queue_of_domains (set_domain g d b) = queue_of_domains b"
  "current_process (set_domain g d b) = current_process b" "list_of_domains (set_domain g d b) = list_of_domains b"
  "length (gid_to_domain (set_domain g d b)) = length (gid_to_domain b)"
  "zone_messages (set_domain g d b) = zone_messages b" "zone_processes (set_domain g d b) = zone_processes b"
  "memory (set_domain g d b) = memory b"
  by (simp_all add: set_domain_def)

lemma set_process_sel [simp]:
  "procs (set_process p x b) = (procs b)(p := x)" "msgs (set_process p x b) = msgs b"
  "busy_next (set_process p x b) = busy_next b" "gid_to_domain (set_process p x b) = gid_to_domain b"
  "name_table (set_process p x b) = name_table b" "world (set_process p x b) = world b"
  "queue_of_domains (set_process p x b) = queue_of_domains b"
  "current_process (set_process p x b) = current_process b"
  by (simp_all add: set_process_def)

text \<open>\<open>dispatch_msg_single\<close> appends to the inbox, and puts a process into the busy queue when its inbox
  was empty.\<close>

lemma dispatch_msg_single_spec:
  assumes d: "get_domain g b = Inr d" and p: "p_domain (procs b p) = Some g" "vq_wf (inbox (procs b p))"
    and q: "queue_rep (busy_next b) (queue_of_busy_processes d) q" "vq_wf q"
    and f: "vq_items (inbox (procs b p)) = [] \<Longrightarrow> p \<notin> set (vq_items q)"
  shows "\<exists>h root. dispatch_msg_single p m b =
       Inr (set_domain g (d\<lparr>queue_of_busy_processes := root\<rparr>)
         ((set_process p ((procs b p)\<lparr>inbox := snd (vq_put m (inbox (procs b p)))\<rparr>) b)\<lparr>busy_next := h\<rparr>)) \<and>
     queue_rep h root (if vq_items (inbox (procs b p)) = [] then snd (vq_put p q) else q)"
proof (cases "vq_items (inbox (procs b p)) = []")
  case True
  obtain h root where put: "queue_put p (busy_next b) (queue_of_busy_processes d) = Some (fst (vq_put p q), h, root)"
      "queue_rep h root (snd (vq_put p q))"
    using queue_put_refines [OF q(1) f [OF True]] by blast
  have e: "fst (vq_put m (inbox (procs b p)))" using True p(2) by (simp add: vq_put_def vq_wf_def)
  show ?thesis
    by (rule exI [of _ h], rule exI [of _ root])
      (use True p d put e in \<open>simp add: dispatch_msg_single_def split_def Let_def\<close>)
next
  case False
  have "set_domain g (d\<lparr>queue_of_busy_processes := queue_of_busy_processes d\<rparr>) ((set_process p x b)\<lparr>busy_next := busy_next b\<rparr>) =
      set_process p x b" for x
    using d by (auto simp: get_domain_def set_domain_def set_process_def list_update_same_conv split: if_splits)
  then show ?thesis
    using False p q(1)
    by (intro exI [of _ "busy_next b"] exI [of _ "queue_of_busy_processes d"])
      (simp add: dispatch_msg_single_def vq_put_def vq_wf_def Let_def)
qed

lemma pid_to_gid_0: "unat (pid_to_gid t) = g \<Longrightarrow> g \<noteq> 0 \<Longrightarrow> pid_to_gid t \<noteq> 0"
  by auto

lemma small_payload:
  assumes "unat (sz :: 32 word) \<le> MAX_MSG_PAYLOAD_SZ"
  shows "\<not> of_nat MAX_MSG_PAYLOAD_SZ < (scast sz :: ulong)"
proof -
  have "unat sz < 2 ^ 31" using assms by (simp add: MAX_MSG_PAYLOAD_SZ_def)
  then have "unat (scast sz :: ulong) = unat sz" by (rule unat_scast_small)
  then show ?thesis using assms by (simp add: word_less_nat_alt MAX_MSG_PAYLOAD_SZ_def)
qed

text \<open>The message that \<open>_send_indirect\<close> builds in a chunk.\<close>

definition message_for :: "pid \<Rightarrow> msg_type \<Rightarrow> byte list \<Rightarrow> 32 word \<Rightarrow> message \<Rightarrow> bool" where
  "message_for t ty payload sz msg \<longleftrightarrow>
     m_target msg = t \<and> m_type msg = ty \<and> m_sz msg = sz \<and> take (unat sz) (m_payload msg) = take (unat sz) payload"

text \<open>
  C19: A message sent to a live process of the sender's own domain is appended to the inbox of that
  process, in a fresh chunk that holds the target, the type, the size and the payload; the process
  is put at the end of the busy queue when its inbox was empty; no other process, no other message
  and no outbox changes.
\<close>

theorem send_local_delivers:
  assumes m: "message_malloc s g b = Inr (m, b1)" and d: "get_domain g b = Inr d"
    and t: "unat (pid_to_gid t) = g" "g \<noteq> 0"
    and um: "umap_wf (poff_to_process d)" "umap_abs (poff_to_process d) (pid_to_poff t) = Some p"
    and p: "p_domain (procs b p) = Some g" "vq_wf (inbox (procs b p))"
    and q: "queue_rep (busy_next b) (queue_of_busy_processes d) q" "vq_wf q"
    and f: "vq_items (inbox (procs b p)) = [] \<Longrightarrow> p \<notin> set (vq_items q)"
    and sz: "unat sz \<le> MAX_MSG_PAYLOAD_SZ" "unat sz \<le> length payload"
  shows "\<exists>b' d' q'. send_indirect s g t ty payload sz b = Inr b' \<and> get_domain g b' = Inr d' \<and>
    procs b' = (procs b)(p := (procs b p)\<lparr>inbox := snd (vq_put m (inbox (procs b p)))\<rparr>) \<and>
    vq_items (inbox (procs b' p)) = vq_items (inbox (procs b p)) @ [m] \<and>
    message_for t ty payload sz (msgs b' m) \<and> (\<forall>x. x \<noteq> m \<longrightarrow> msgs b' x = msgs b x) \<and>
    queue_rep (busy_next b') (queue_of_busy_processes d') q' \<and> vq_wf q' \<and>
    vq_items q' = vq_items q @ (if vq_items (inbox (procs b p)) = [] then [p] else []) \<and>
    outbox d' = outbox d"
proof -
  obtain cache zone ram where b1: "b1 = set_domain g (d\<lparr>cache_messages := cache\<rparr>) (b\<lparr>zone_messages := zone, memory := ram\<rparr>)"
    using message_mallocD [OF m] d by (metis sum.inject(2))
  let ?n = "unat sz"
  let ?msg = "\<lparr>m_target = t, m_type = ty, m_sz = sz, m_payload = take ?n payload @ drop ?n (m_payload (msgs b1 m))\<rparr>"
  let ?b2 = "b1\<lparr>msgs := (msgs b1)(m := ?msg)\<rparr>" and ?d2 = "d\<lparr>cache_messages := cache\<rparr>"
  have d2: "get_domain g ?b2 = Inr ?d2" using d by (simp add: b1 get_set_domain)
  have poff: "pid_to_poff t \<noteq> 0" using um(2) by (auto simp: umap_abs_def Let_def split: if_splits)
  obtain h root where r: "dispatch_msg_single p m ?b2 =
       Inr (set_domain g (?d2\<lparr>queue_of_busy_processes := root\<rparr>)
         ((set_process p ((procs ?b2 p)\<lparr>inbox := snd (vq_put m (inbox (procs ?b2 p)))\<rparr>) ?b2)\<lparr>busy_next := h\<rparr>))"
    and rep: "queue_rep h root (if vq_items (inbox (procs ?b2 p)) = [] then snd (vq_put p q) else q)"
    using dispatch_msg_single_spec [OF d2, of p q m] p q f by (auto simp: b1)
  have get: "umap_get (poff_to_process ?d2) (pid_to_poff t) = Inr (Some p)" using umap_get_abs [OF um(1)] um(2) by simp
  have run: "send_indirect s g t ty payload sz b =
      Inr (set_domain g (?d2\<lparr>queue_of_busy_processes := root\<rparr>)
         ((set_process p ((procs ?b2 p)\<lparr>inbox := snd (vq_put m (inbox (procs ?b2 p)))\<rparr>) ?b2)\<lparr>busy_next := h\<rparr>))"
    using r get d2 poff pid_to_gid_0 [OF t] t sz small_payload [OF sz(1)]
    by (simp add: send_indirect_def m dispatch_msg_local_def Let_def)
  have it: "vq_items (snd (vq_put m (inbox (procs b p)))) = vq_items (inbox (procs b p)) @ [m]"
    using vq.put_items [OF p(2)] .
  have q': "vq_wf (snd (vq_put p q))" "vq_items (snd (vq_put p q)) = vq_items q @ [p]"
    using vq.put_invar [OF q(2)] vq.put_items [OF q(2)] by blast+
  have dom: "get_domain g (set_domain g (?d2\<lparr>queue_of_busy_processes := root\<rparr>)
       ((set_process p ((procs ?b2 p)\<lparr>inbox := snd (vq_put m (inbox (procs ?b2 p)))\<rparr>) ?b2)\<lparr>busy_next := h\<rparr>)) =
      Inr (?d2\<lparr>queue_of_busy_processes := root\<rparr>)"
    using d2 by (simp add: get_set_domain)
  show ?thesis
    by (rule exI, rule exI [of _ "?d2\<lparr>queue_of_busy_processes := root\<rparr>"],
        rule exI [of _ "if vq_items (inbox (procs b p)) = [] then snd (vq_put p q) else q"], intro conjI, rule run, rule dom)
      (use rep it q' q(2) sz in \<open>simp_all add: b1 message_for_def min_def\<close>)
qed


section \<open>Sending to another domain\<close>


lemma big_payload: "of_nat MAX_MSG_PAYLOAD_SZ < (scast (sz :: 32 word) :: ulong) \<longleftrightarrow> sint sz < 0 \<or> 224 < sint sz"
proof -
  have u: "uint (scast sz :: ulong) = sint sz mod 2 ^ 64" unfolding scast_eq uint_word_of_int by simp
  have r: "- (2 ^ 31) \<le> sint sz" "sint sz < 2 ^ 31" using sint_range_size [of sz] by (simp_all add: word_size)
  have l: "of_nat MAX_MSG_PAYLOAD_SZ < (scast sz :: ulong) \<longleftrightarrow> 224 < sint sz mod 2 ^ 64"
    unfolding word_less_def u by (simp add: MAX_MSG_PAYLOAD_SZ_def)
  show ?thesis
  proof (cases "sint sz < 0")
    case True
    have "sint sz mod 2 ^ 64 = (sint sz + 2 ^ 64) mod 2 ^ 64" by simp
    also have "\<dots> = sint sz + 2 ^ 64" using True r by (intro mod_pos_pos_trivial) simp_all
    finally show ?thesis unfolding l using True r by simp
  next
    case False
    then have "sint sz mod 2 ^ 64 = sint sz" using r by (intro mod_pos_pos_trivial) simp_all
    then show ?thesis unfolding l using False by simp
  qed
qed

text \<open>The errors of the steps below the checks: a bad pointer, a failed check of the allocator, no memory.\<close>

definition internal :: "error + 'a \<Rightarrow> bool" where
  "internal r \<longleftrightarrow> (\<forall>e. r = Inl e \<longrightarrow> e \<in> {Bad_Deref, Div_By_Zero, Abort, Fatal ''posix_memalign(%i, %i)''})"

lemma internal_Inr [simp]: "internal (Inr x)"
  by (simp add: internal_def)

lemma internal_Inl [simp]: "internal (Inl e) \<longleftrightarrow> e \<in> {Bad_Deref, Div_By_Zero, Abort, Fatal ''posix_memalign(%i, %i)''}"
  by (simp add: internal_def)

lemma internal_rbind: "internal m \<Longrightarrow> (\<And>x. m = Inr x \<Longrightarrow> internal (f x)) \<Longrightarrow> internal (rbind m f)"
  by (cases m) (simp_all add: internal_def)

lemma internal_need [simp]: "internal (need x)"
  by (cases x) simp_all

lemma internal_get_domain [simp]: "internal (get_domain g b)"
  by (simp add: get_domain_def)

lemma internal_umap_get [simp]: "internal (umap_get um no)"
  by (simp add: umap_get_def Let_def)

lemma internal_page_alloc [simp]: "internal (page_alloc os zone ram)"
  by (simp add: page_alloc_def Let_def split: option.split)

lemma internal_page_free [simp]: "internal (page_free zone ram p)"
  by (auto simp: page_free_def intro: internal_rbind)

lemma internal_cache_fill_loop [simp]: "internal (cache_fill_loop ps n cache zone ram)"
  by (induction ps arbitrary: n cache zone ram) (auto simp: Let_def split: prod.split intro!: internal_rbind)

lemma internal_cache_malloc [simp]: "internal (cache_malloc os cache zone ram)"
  by (auto simp: cache_malloc_def cache_fill_def split: prod.split option.split intro!: internal_rbind)

lemma internal_cache_drain [simp]: "internal (cache_drain cache zone ram)"
proof (induction cache zone ram rule: cache_drain.induct)
  case (1 cache zone ram)
  have d: "internal (drain_chunk c zone ram)" for c
    by (auto simp: drain_chunk_def Let_def intro!: internal_rbind)
  show ?case
    by (subst cache_drain.simps) (auto split: prod.split option.split intro!: internal_rbind d 1)
qed

lemma internal_message_malloc [simp]: "internal (message_malloc s g b)"
  by (auto simp: message_malloc_def split: prod.split intro!: internal_rbind)

lemma internal_message_free [simp]: "internal (message_free g m b)"
  by (auto simp: message_free_def intro!: internal_rbind)

lemma internal_dispatch_msg_single [simp]: "internal (dispatch_msg_single p m b)"
  by (auto simp: dispatch_msg_single_def Let_def split: prod.split intro!: internal_rbind)

lemma internal_broadcast_loop [simp]: "internal (broadcast_loop s g m ps b)"
  by (induction ps arbitrary: b) (auto simp: message_clone_def Let_def split: prod.split intro!: internal_rbind)

lemma internal_dispatch_msg_local: "internal (dispatch_msg_local s g m b)"
  by (auto simp: dispatch_msg_local_def dispatch_msg_broadcast_def dispatch_special_def drain_caches_def Let_def
      split: prod.split option.split intro!: internal_rbind)

lemma internal_not_rejected:
  "internal r \<Longrightarrow> r \<noteq> Inl (Fatal ''Name not registered.'') \<and> r \<noteq> Inl (Fatal ''Can't handle that big payload.'')"
  by (auto simp: internal_def)

text \<open>What follows the name lookup.\<close>

lemma send_to_pid:
  assumes "pid_to_gid t = 0 \<Longrightarrow> name_to_pid t b = Inr pid \<and> pid \<noteq> 0" and "pid_to_gid t \<noteq> 0 \<Longrightarrow> pid = t"
  shows "internal (send_indirect s g t ty payload sz b) \<or>
    (send_indirect s g t ty payload sz b = Inl (Fatal ''Can't handle that big payload.'') \<and>
     (\<exists>r. message_malloc s g b = Inr r) \<and> (sint sz < 0 \<or> 224 < sint sz))" (is "internal ?r \<or> ?big")
proof (cases "message_malloc s g b")
  case (Inl e)
  then have "?r = Inl e" using assms by (cases "pid_to_gid t = 0") (simp_all add: send_indirect_def)
  then show ?thesis using internal_message_malloc [of s g b] Inl by simp
next
  case (Inr r)
  obtain m b1 where r: "r = (m, b1)" by (cases r)
  show ?thesis
  proof (cases "sint sz < 0 \<or> 224 < sint sz")
    case True
    then show ?thesis using assms Inr r by (cases "pid_to_gid t = 0") (simp_all add: send_indirect_def big_payload)
  next
    case False
    have "internal ?r"
      using assms Inr r False
      by (cases "pid_to_gid t = 0")
        (auto simp: send_indirect_def big_payload Let_def intro!: internal_rbind internal_dispatch_msg_local)
    then show ?thesis ..
  qed
qed

text \<open>
  C27: Sending ends the program in two cases of its own, and only in these, whatever state the library
  is in. It says that the name is not registered exactly when the target is a name and nobody has
  registered it; and it says that the payload is too big exactly when the target is a pid or a
  registered name, there is memory for the message, and the size, as a signed int, is negative or above the
  224 bytes of the payload field. In both cases nothing was queued, as the result has no state.
\<close>

theorem send_rejects:
  shows "(send_indirect s g t ty payload sz b = Inl (Fatal ''Name not registered.'') \<longleftrightarrow>
      pid_to_gid t = 0 \<and> name_to_pid t b = Inr 0) \<and>
    (send_indirect s g t ty payload sz b = Inl (Fatal ''Can't handle that big payload.'') \<longleftrightarrow>
      (if pid_to_gid t = 0 then \<exists>pid. name_to_pid t b = Inr pid \<and> pid \<noteq> 0 else True) \<and>
      (\<exists>r. message_malloc s g b = Inr r) \<and> (sint sz < 0 \<or> 224 < sint sz))"
proof (cases "pid_to_gid t = 0 \<and> (\<exists>e. name_to_pid t b = Inl e) \<or> pid_to_gid t = 0 \<and> name_to_pid t b = Inr 0")
  case True
  then show ?thesis by (auto simp: send_indirect_def name_to_pid_def Let_def split: if_splits)
next
  case False
  define pid where "pid = (if pid_to_gid t = 0 then (case name_to_pid t b of Inr pid \<Rightarrow> pid) else t)"
  have p: "pid_to_gid t = 0 \<Longrightarrow> name_to_pid t b = Inr pid \<and> pid \<noteq> 0" "pid_to_gid t \<noteq> 0 \<Longrightarrow> pid = t"
    using False by (auto simp: pid_def split: sum.split)
  have big: "send_indirect s g t ty payload sz b = Inl (Fatal ''Can't handle that big payload.'')"
    if "message_malloc s g b = Inr (m, b1)" "sint sz < 0 \<or> 224 < sint sz" for m b1
    using that p by (cases "pid_to_gid t = 0") (auto simp: send_indirect_def big_payload)
  from send_to_pid [OF p, where s = s and g = g and ty = ty and payload = payload and sz = sz]
  show ?thesis using internal_not_rejected big p by fastforce
qed

text \<open>
  A message for a process of the sender's domain that does not exist (any more) is freed at
  once: the chunk is back on top of the cache, and no process, no queue of busy processes and no
  outbox changes.
\<close>

theorem send_stale_frees:
  assumes m: "message_malloc s g b = Inr (m, b1)" and d1: "get_domain g b1 = Inr d1"
    and t: "unat (pid_to_gid t) = g" "g \<noteq> 0" "pid_to_poff t \<noteq> 0"
    and um: "umap_wf (poff_to_process d1)" "umap_abs (poff_to_process d1) (pid_to_poff t) = None"
    and sz: "unat sz \<le> MAX_MSG_PAYLOAD_SZ" "unat sz \<le> length payload"
  shows "\<exists>b' d'. send_indirect s g t ty payload sz b = Inr b' \<and> get_domain g b' = Inr d' \<and>
    vq_items (cache_messages d') = m # vq_items (cache_messages d1) \<and> procs b' = procs b \<and>
    busy_next b' = busy_next b \<and> queue_of_busy_processes d' = queue_of_busy_processes d1 \<and> outbox d' = outbox d1 \<and>
    (\<forall>x. x \<noteq> m \<longrightarrow> msgs b' x = msgs b x)"
proof -
  have frame: "procs b1 = procs b" "busy_next b1 = busy_next b" "msgs b1 = msgs b"
    using message_mallocD [OF m] by (metis set_domain_sel(1-3) base.select_convs base.surjective base.update_convs(2,7))+
  let ?n = "unat sz"
  let ?msg = "\<lparr>m_target = t, m_type = ty, m_sz = sz, m_payload = take ?n payload @ drop ?n (m_payload (msgs b1 m))\<rparr>"
  let ?b2 = "b1\<lparr>msgs := (msgs b1)(m := ?msg)\<rparr>"
  let ?d2 = "d1\<lparr>cache_messages := cache_free m (cache_messages d1)\<rparr>"
  have d2: "get_domain g ?b2 = Inr d1" using d1 by simp
  have get: "umap_get (poff_to_process d1) (pid_to_poff t) = Inr None" using umap_get_abs [OF um(1)] um(2) by simp
  have "send_indirect s g t ty payload sz b = Inr (set_domain g ?d2 ?b2)"
    using get d2 pid_to_gid_0 [OF t(1,2)] t sz small_payload [OF sz(1)]
    by (simp add: send_indirect_def m dispatch_msg_local_def message_free_def Let_def)
  moreover have "get_domain g (set_domain g ?d2 ?b2) = Inr ?d2" using d2 by (simp add: get_set_domain)
  moreover have "vq_items (cache_messages ?d2) = m # vq_items (cache_messages d1)"
    using vq.put_head_items by (simp add: cache_free_def)
  ultimately show ?thesis using frame by fastforce
qed

section \<open>An example\<close>

text \<open>
  Two domains, 1 and 2, each with two processes, whose numbers in the domain are 3 and 4; the
  processes of domain 1 are at 64 and 65, those of domain 2 at 128 and 129. Domain 1 has three free chunks for messages.
\<close>

definition example_umap :: "addr \<Rightarrow> addr \<Rightarrow> addr umap_root" where
  "example_umap p q = \<lparr>counter = 4, max_counter = 2 ^ 59 - 1, free_items = vq_empty, map_sz = 2,
     slots = [\<lparr>d_no = 4, d_ptr = Some q\<rparr>, \<lparr>d_no = 3, d_ptr = Some p\<rparr>]\<rparr>"

lemma example_umap_wf: "umap_wf (example_umap p q)"
  by (auto simp: umap_wf_def example_umap_def Let_def less_2_cases_iff)

lemma example_umap_abs:
  "umap_abs (example_umap p q) 3 = Some p" "umap_abs (example_umap p q) 4 = Some q"
  by (simp_all add: umap_abs_def example_umap_def Let_def unat_mod)

definition example_domain :: "nat \<Rightarrow> addr \<Rightarrow> addr \<Rightarrow> addr list \<Rightarrow> nat domain" where
  "example_domain kind p q chunks =
     \<lparr>poff_to_process = example_umap p q, queue_of_busy_processes = INIT_QUEUE_ROOT,
      cache_messages = \<lparr>vq_items = chunks, vq_tail = chunks \<noteq> []\<rparr>, cache_processes = vq_empty,
      remote_inbox = vq_empty, local_inbox = vq_empty, proto = kind, ingress_callback_data = Some kind,
      list_of_processes = [p, q], list_of_hungry_processes = [], outbox = replicate MAX_DOMAINS vq_empty\<rparr>"

definition example_process :: "nat \<Rightarrow> pid \<Rightarrow> (nat, nat) process" where
  "example_process g pid =
     \<lparr>inbox = vq_empty, badmatch = vq_empty, receive_callback = Some 0, receive_data = Some 7,
      p_domain = Some g, p_pid = pid\<rparr>"

definition blank_message :: message where
  "blank_message = \<lparr>m_target = 0, m_type = 0, m_sz = 0, m_payload = replicate MAX_MSG_PAYLOAD_SZ 0\<rparr>"

definition example_zone :: mem_zone where
  "example_zone = \<lparr>chunk_size = 248, aligned_chunk_size = 256, chunks_per_page = 15, alloc_pages = 1,
     freed_pages = 0, free_chunks = 12, list_of_pages = [4096]\<rparr>"

definition example_base :: "(nat, nat, nat list) base" where
  "example_base =
     \<lparr>queue_of_domains = [Divider], zone_messages = example_zone, zone_processes = example_zone,
      gid_to_domain = [None, Some (example_domain 10 64 65 [1000, 1001, 1002]), Some (example_domain 20 128 129 []), None, None],
      list_of_domains = [1, 2], name_table = replicate MAX_REG_NAMES 0, memory = empty_ram,
      msgs = (\<lambda>_. blank_message),
      procs = (\<lambda>p. example_process (if p < 100 then 1 else 2)
                    (poff_gid_to_pid (3 + (p AND 1)) (if p < 100 then 1 else 2))),
      busy_next = (\<lambda>_. Poison), current_process = None, world = []\<rparr>"

text \<open>Waking a domain up is recorded by the number of its engine.\<close>

definition example_surroundings :: "(nat, nat list) surroundings" where
  "example_surroundings = \<lparr>s_os = bump_os, ingress_callback = (\<lambda>kind data u. u @ [kind]), destructor = (\<lambda>kind data u. u)\<rparr>"

lemma example_domains:
  "get_domain 1 example_base = Inr (example_domain 10 64 65 [1000, 1001, 1002])"
  "get_domain (Suc 0) example_base = Inr (example_domain 10 64 65 [1000, 1001, 1002])"
  "get_domain 2 example_base = Inr (example_domain 20 128 129 [])"
  by (simp_all add: get_domain_def example_base_def)

lemma example_parts:
  "pid_to_gid (poff_gid_to_pid 3 1) = 1" "pid_to_poff (poff_gid_to_pid 3 1) = 3"
  "pid_to_gid (poff_gid_to_pid 4 1) = 1" "pid_to_poff (poff_gid_to_pid 4 1) = 4"
  "pid_to_gid (poff_gid_to_pid 3 2) = 2" "pid_to_poff (poff_gid_to_pid 3 2) = 3"
  using pid_of_parts [of 3 1] pid_of_parts [of 3 2] pid_of_parts [of 4 1] by simp_all

lemma example_malloc:
  "\<exists>b. message_malloc s 1 example_base = Inr (1000, b)"
  by (simp add: message_malloc_def example_domains example_domain_def cache_malloc_def vq_get_def)

theorem send_local_delivers_witness:
  "\<exists>b'. send_indirect example_surroundings 1 (poff_gid_to_pid 3 1) 16 [1, 2, 3] 3 example_base = Inr b' \<and>
     vq_items (inbox (procs b' 64)) = [1000] \<and> message_for (poff_gid_to_pid 3 1) 16 [1, 2, 3] 3 (msgs b' 1000)"
proof -
  obtain b1 where m: "message_malloc example_surroundings 1 example_base = Inr (1000, b1)" using example_malloc by blast
  have um: "umap_wf (poff_to_process (example_domain 10 64 65 [1000, 1001, 1002]))"
    "umap_abs (poff_to_process (example_domain 10 64 65 [1000, 1001, 1002])) (pid_to_poff (poff_gid_to_pid 3 1)) = Some 64"
    by (simp_all add: example_domain_def example_umap_wf example_parts example_umap_abs)
  have p: "p_domain (procs example_base 64) = Some 1" "vq_wf (inbox (procs example_base 64))"
    "vq_items (inbox (procs example_base 64)) = []"
    by (simp_all add: example_base_def example_process_def)
  have q: "queue_rep (busy_next example_base) (queue_of_busy_processes (example_domain 10 64 65 [1000, 1001, 1002])) vq_empty"
    by (simp add: example_domain_def)
  show ?thesis
    using send_local_delivers [OF m example_domains(1) _ _ um p(1,2) q, of 3 "[1, 2, 3]" 16] p(3)
    by (auto simp: example_parts MAX_MSG_PAYLOAD_SZ_def)
qed


theorem send_rejects_witness:
  "send_indirect example_surroundings 1 PID_IO 16 [1, 2, 3] 3 example_base = Inl (Fatal ''Name not registered.'') \<and>
   send_indirect example_surroundings 1 (poff_gid_to_pid 3 2) 16 [1, 2, 3] (- 1) example_base =
     Inl (Fatal ''Can't handle that big payload.'') \<and>
   send_indirect example_surroundings 1 PID_IO 16 [1, 2, 3] 225
     (example_base\<lparr>name_table := (name_table example_base)[3 := poff_gid_to_pid 3 2]\<rparr>) =
     Inl (Fatal ''Can't handle that big payload.'')"
proof -
  let ?b = "example_base\<lparr>name_table := (name_table example_base)[3 := poff_gid_to_pid 3 2]\<rparr>"
  have n: "pid_to_gid PID_IO = 0" "pid_to_poff PID_IO = 3" using pid_of_parts [of 3 0] by (simp_all add: PID_IO_def poff_gid_to_pid_def)
  then have 1: "name_to_pid PID_IO example_base = Inr 0"
    by (simp add: name_to_pid_def example_base_def MAX_REG_NAMES_def)
  have "poff_gid_to_pid 3 2 \<noteq> 0" using example_parts(5) by (auto simp: pid_to_gid_def)
  then have 2: "\<exists>pid. name_to_pid PID_IO ?b = Inr pid \<and> pid \<noteq> 0"
    using n by (simp add: name_to_pid_def example_base_def MAX_REG_NAMES_def)
  obtain b1 where m: "message_malloc example_surroundings 1 example_base = Inr (1000, b1)" using example_malloc by blast
  have 3: "\<exists>r. message_malloc example_surroundings 1 ?b = Inr r"
    using m by (auto simp: message_malloc_def get_domain_def split: if_splits)
  show ?thesis
    using send_rejects [of example_surroundings 1 PID_IO 16 "[1, 2, 3]" 3 example_base]
      send_rejects [of example_surroundings 1 "poff_gid_to_pid 3 2" 16 "[1, 2, 3]" "- 1" example_base]
      send_rejects [of example_surroundings 1 PID_IO 16 "[1, 2, 3]" 225 ?b] n 1 2 3 m
    by (auto simp: example_parts)
qed

theorem send_stale_frees_witness:
  "\<exists>b' d'. send_indirect example_surroundings 1 (poff_gid_to_pid 5 1) 16 [] 0 example_base = Inr b' \<and>
     get_domain 1 b' = Inr d' \<and> vq_items (cache_messages d') = [1000, 1001, 1002]"
proof -
  let ?d = "example_domain 10 64 65 [1001, 1002]"
  obtain b1 where m: "message_malloc example_surroundings 1 example_base = Inr (1000, b1)" and d: "get_domain 1 b1 = Inr ?d"
    using get_set_domain [OF example_domains(1), of 1]
    by (simp add: message_malloc_def example_domains cache_malloc_def vq_get_def example_domain_def)
  have p: "pid_to_gid (poff_gid_to_pid 5 1) = 1" "pid_to_poff (poff_gid_to_pid 5 1) = 5"
    using pid_of_parts [of 5 1] by simp_all
  have um: "umap_wf (poff_to_process ?d)" "umap_abs (poff_to_process ?d) (pid_to_poff (poff_gid_to_pid 5 1)) = None"
    by (simp_all add: example_domain_def example_umap_wf p) (simp add: umap_abs_def example_umap_def Let_def unat_mod)
  show ?thesis
    using send_stale_frees [OF m d _ _ _ um, of 0 "[]" 16] p
    by (auto simp: MAX_MSG_PAYLOAD_SZ_def) (simp add: example_domain_def)
qed

end
