(* ===== verification/Flush.thy ===== *)
theory Flush
  imports Delivery
begin

text \<open>
  Handing messages over: \<open>send_flush_outbox\<close> moves every outbox to the end of the remote inbox of
  its domain, and \<open>dispatch_local_inbox\<close> moves every message of the local inbox to the end of the
  inbox of its process.
\<close>

section \<open>Draining\<close>

lemma drain_message_queue_spec:
  "drain_message_queue cache q = (cache', q') \<Longrightarrow>
     vq_items cache' = rev (vq_items q) @ vq_items cache \<and> vq_items q' = [] \<and> (vq_wf q \<longrightarrow> vq_wf q') \<and>
     (vq_wf cache \<longrightarrow> vq_wf cache')"
proof (induction cache q rule: drain_message_queue.induct)
  case (1 cache q)
  show ?case
  proof (cases "vq_items q")
    case Nil
    then show ?thesis using "1.prems" vq.get_Nil [OF Nil] by (simp add: drain_message_queue.simps [of cache q])
  next
    case (Cons m ms)
    obtain q1 where g: "vq_get q = (Some m, q1)" "vq_items q1 = ms"
      using vq.get_Cons [OF Cons] by (cases "vq_get q") simp
    have w: "vq_wf q \<longrightarrow> vq_wf q1" using vq.get_invar [of q] g(1) by simp
    have r: "drain_message_queue (cache_free m cache) q1 = (cache', q')"
      using "1.prems" g by (simp add: drain_message_queue.simps [of cache q])
    have c: "vq_items (cache_free m cache) = m # vq_items cache" "vq_wf cache \<longrightarrow> vq_wf (cache_free m cache)"
      using vq.put_head_items [of m cache] vq.put_head_invar [of cache m] by (simp_all add: cache_free_def)
    show ?thesis using "1.IH" [OF g(1) [symmetric] _ r] g(2) w c Cons by simp
  qed
qed

section \<open>Flushing\<close>

text \<open>The queues of a state by the gid of their domain; a domain that does not exist has none. The
  skeleton of a domain is what flushing leaves alone.\<close>

definition remote_items :: "nat \<Rightarrow> ('c, 'd, 'u) base \<Rightarrow> addr list" where
  "remote_items h b = (case get_domain h b of Inl _ \<Rightarrow> [] | Inr d \<Rightarrow> vq_items (remote_inbox d))"

definition outbox_items :: "nat \<Rightarrow> nat \<Rightarrow> ('c, 'd, 'u) base \<Rightarrow> addr list" where
  "outbox_items g v b = (case get_domain g b of Inl _ \<Rightarrow> [] | Inr d \<Rightarrow> vq_items (outbox d ! v))"

definition cached_messages :: "nat \<Rightarrow> ('c, 'd, 'u) base \<Rightarrow> addr multiset" where
  "cached_messages h b = (case get_domain h b of Inl _ \<Rightarrow> {#} | Inr d \<Rightarrow> mset (vq_items (cache_messages d)))"

definition skeleton :: "nat \<Rightarrow> ('c, 'd, 'u) base \<Rightarrow> 'd domain option" where
  "skeleton h b = (case get_domain h b of Inl _ \<Rightarrow> None
     | Inr d \<Rightarrow> Some (d\<lparr>remote_inbox := vq_empty, outbox := [], cache_messages := vq_empty\<rparr>))"

definition is_live :: "nat \<Rightarrow> ('c, 'd, 'u) base \<Rightarrow> bool" where
  "is_live h b \<longleftrightarrow> skeleton h b \<noteq> None"

lemmas queue_views = remote_items_def outbox_items_def cached_messages_def skeleton_def

text \<open>What flushing relies on: sound queues, an outbox for every gid, and none for the domain itself.\<close>

definition flush_ready :: "nat \<Rightarrow> ('c, 'd, 'u) base \<Rightarrow> bool" where
  "flush_ready g b \<longleftrightarrow> length (gid_to_domain b) = MAX_DOMAINS \<and> outbox_items g g b = [] \<and>
     (\<exists>d. get_domain g b = Inr d \<and> length (outbox d) = MAX_DOMAINS \<and> (\<forall>v < MAX_DOMAINS. vq_wf (outbox d ! v))) \<and>
     (\<forall>h dh. get_domain h b = Inr dh \<longrightarrow> vq_wf (remote_inbox dh))"

definition handed_over :: "nat \<Rightarrow> nat list \<Rightarrow> ('c, 'd, 'u) base \<Rightarrow> nat list" where
  "handed_over g gids b = filter (\<lambda>v. outbox_items g v b \<noteq> [] \<and> is_live v b) gids"

definition dropped :: "nat \<Rightarrow> nat list \<Rightarrow> ('c, 'd, 'u) base \<Rightarrow> addr list" where
  "dropped g gids b = concat (map (\<lambda>v. if is_live v b then [] else outbox_items g v b) gids)"

definition wake :: "('d, 'u) surroundings \<Rightarrow> ('c, 'd, 'u) base \<Rightarrow> nat \<Rightarrow> 'u \<Rightarrow> 'u" where
  "wake s b v u = (case skeleton v b of None \<Rightarrow> u
     | Some dv \<Rightarrow> if v \<in> set (ms_items (queue_of_domains b)) then u
                  else ingress_callback s (proto dv) (ingress_callback_data dv) u)"

text \<open>The result of flushing the outboxes of \<open>gids\<close>.\<close>

definition flushed :: "('d, 'u) surroundings \<Rightarrow> nat \<Rightarrow> nat list \<Rightarrow> ('c, 'd, 'u) base \<Rightarrow> ('c, 'd, 'u) base \<Rightarrow> bool" where
  "flushed s g gids b b' \<longleftrightarrow>
     flush_ready g b' \<and>
     (\<forall>h. skeleton h b' = skeleton h b) \<and>
     (\<forall>h. remote_items h b' = remote_items h b @ (if h \<in> set gids \<and> is_live h b then outbox_items g h b else [])) \<and>
     (\<forall>v < MAX_DOMAINS. outbox_items g v b' = (if v \<in> set gids then [] else outbox_items g v b)) \<and>
     cached_messages g b' = cached_messages g b + mset (dropped g gids b) \<and>
     (\<forall>h. h \<noteq> g \<longrightarrow> cached_messages h b' = cached_messages h b) \<and>
     procs b' = procs b \<and> msgs b' = msgs b \<and> busy_next b' = busy_next b \<and> queue_of_domains b' = queue_of_domains b \<and>
     world b' = fold (wake s b) (handed_over g gids b) (world b)"

lemma flushed_Nil: "flush_ready g b \<Longrightarrow> flushed s g [] b b"
  by (simp add: flushed_def dropped_def handed_over_def)

lemma flushed_other:
  "flushed s g xs b b1 \<Longrightarrow> v < MAX_DOMAINS \<Longrightarrow> v \<notin> set xs \<Longrightarrow> outbox_items g v b1 = outbox_items g v b"
  "flushed s g xs b b1 \<Longrightarrow> is_live v b1 = is_live v b"
  by (simp_all add: flushed_def is_live_def)

lemma flushed_trans:
  assumes a: "flushed s g xs b b1" and c: "flushed s g ys b1 b2" and disj: "set xs \<inter> set ys = {}"
    and small: "set xs \<subseteq> {..< MAX_DOMAINS}" "set ys \<subseteq> {..< MAX_DOMAINS}"
  shows "flushed s g (xs @ ys) b b2"
proof -
  have live: "is_live h b1 = is_live h b" for h using a by (simp add: is_live_def flushed_def)
  have "skeleton h b1 = skeleton h b" "queue_of_domains b1 = queue_of_domains b" for h using a by (simp_all add: flushed_def)
  then have wk: "wake s b1 = wake s b" by (intro ext) (simp add: wake_def split: option.split)
  have o: "outbox_items g v b1 = outbox_items g v b" if "v \<in> set ys" for v
    using flushed_other(1) [OF a, of v] that disj small(2) by blast
  have "handed_over g ys b1 = handed_over g ys b"
    unfolding handed_over_def using o live by (intro filter_cong) simp_all
  moreover have "dropped g ys b1 = dropped g ys b"
    unfolding dropped_def using o live by (intro arg_cong [where f = concat] map_cong) simp_all
  moreover have "handed_over g (xs @ ys) b = handed_over g xs b @ handed_over g ys b"
    "dropped g (xs @ ys) b = dropped g xs b @ dropped g ys b"
    by (simp_all add: handed_over_def dropped_def)
  moreover have "remote_items h b2 = remote_items h b @ (if h \<in> set (xs @ ys) \<and> is_live h b then outbox_items g h b else [])" for h
    using a c o [of h] live [of h] disj by (auto simp: flushed_def)
  moreover have "outbox_items g v b2 = (if v \<in> set (xs @ ys) then [] else outbox_items g v b)" if "v < MAX_DOMAINS" for v
    using a c that by (auto simp: flushed_def)
  ultimately show ?thesis using a c wk unfolding flushed_def by (simp add: ac_simps)
qed

lemma flushed_empty:
  assumes "flush_ready g b" and "outbox_items g v b = []"
  shows "flushed s g [v] b b"
  using assms by (auto simp: flushed_def dropped_def handed_over_def)

lemma flush_readyD:
  assumes "flush_ready g b"
  obtains d where "get_domain g b = Inr d" "length (outbox d) = MAX_DOMAINS"
    "\<And>v. v < MAX_DOMAINS \<Longrightarrow> vq_wf (outbox d ! v)" "vq_items (outbox d ! g) = []" "length (gid_to_domain b) = MAX_DOMAINS"
    "\<And>h dh. get_domain h b = Inr dh \<Longrightarrow> vq_wf (remote_inbox dh)" "g < MAX_DOMAINS"
proof -
  obtain d where d: "get_domain g b = Inr d" "length (outbox d) = MAX_DOMAINS" "\<forall>v < MAX_DOMAINS. vq_wf (outbox d ! v)"
    using assms by (auto simp: flush_ready_def)
  moreover have "g < MAX_DOMAINS" using d(1) assms by (auto simp: get_domain_def flush_ready_def split: if_splits)
  ultimately show ?thesis using that assms by (auto simp: flush_ready_def outbox_items_def)
qed

lemma live_domain:
  "is_live v b \<longleftrightarrow> (\<exists>dv. get_domain v b = Inr dv)"
  by (auto simp: is_live_def skeleton_def split: sum.splits)

lemma flushed_dead:
  assumes r: "flush_ready g b" and d: "get_domain g b = Inr d" and v: "v < MAX_DOMAINS" and dead: "\<not> is_live v b"
    and dr: "drain_message_queue (cache_messages d) (outbox d ! v) = (cache, qr)"
  shows "flushed s g [v] b (set_domain g (d\<lparr>cache_messages := cache, outbox := (outbox d)[v := qr]\<rparr>) b)"
proof -
  from r obtain e where e: "length (outbox d) = MAX_DOMAINS" "\<And>v. v < MAX_DOMAINS \<Longrightarrow> vq_wf (outbox d ! v)" "vq_items (outbox d ! g) = []"
    "length (gid_to_domain b) = MAX_DOMAINS" "\<And>h dh. get_domain h b = Inr dh \<Longrightarrow> vq_wf (remote_inbox dh)" "g < MAX_DOMAINS"
    by (rule flush_readyD) (use d in auto)
  note q = drain_message_queue_spec [OF dr]
  let ?d = "d\<lparr>cache_messages := cache, outbox := (outbox d)[v := qr]\<rparr>"
  let ?b = "set_domain g ?d b"
  have dom: "get_domain h ?b = (if h = g then Inr ?d else get_domain h b)" for h using d by (simp add: get_set_domain)
  have views: "remote_items h ?b = remote_items h b" "skeleton h ?b = skeleton h b"
    "outbox_items g w ?b = vq_items ((outbox d)[v := qr] ! w)" "outbox_items g w b = vq_items (outbox d ! w)"
    "cached_messages h ?b = (if h = g then mset (vq_items cache) else cached_messages h b)"
    "cached_messages g b = mset (vq_items (cache_messages d))" for h w
    by (simp_all add: queue_views dom d)
  have ready: "flush_ready g ?b"
    unfolding flush_ready_def views dom using e q v d by (auto simp: nth_list_update dest: e(5))
  show ?thesis
    unfolding flushed_def views using ready q dead e v
    by (auto simp: dropped_def handed_over_def views nth_list_update)
qed

text \<open>Handing over one outbox.\<close>

lemma flushed_live:
  assumes r: "flush_ready g b" and d: "get_domain g b = Inr d" and v: "v < MAX_DOMAINS" and victim: "get_domain v b = Inr vd"
    and ne: "vq_items (outbox d ! v) \<noteq> []"
  shows "\<exists>b'. splice_remote s g v b = Inr b' \<and> flushed s g [v] b b'"
proof -
  from r obtain e where e: "length (outbox d) = MAX_DOMAINS" "\<And>v. v < MAX_DOMAINS \<Longrightarrow> vq_wf (outbox d ! v)" "vq_items (outbox d ! g) = []"
    "length (gid_to_domain b) = MAX_DOMAINS" "\<And>h dh. get_domain h b = Inr dh \<Longrightarrow> vq_wf (remote_inbox dh)" "g < MAX_DOMAINS"
    by (rule flush_readyD) (use d in auto)
  have vg: "v \<noteq> g" using e(3) ne by auto
  obtain ri where sp: "vq_splice (outbox d ! v) (remote_inbox vd) = (vq_empty, ri)" "vq_wf ri"
      "vq_items ri = vq_items (remote_inbox vd) @ vq_items (outbox d ! v)"
    using vq_splice_wf [OF e(2) [OF v] e(5) [OF victim]] by (cases "vq_splice (outbox d ! v) (remote_inbox vd)") simp
  let ?d = "d\<lparr>outbox := (outbox d)[v := vq_empty]\<rparr>" and ?vd = "vd\<lparr>remote_inbox := ri\<rparr>"
  let ?b1 = "set_domain g ?d (set_domain v ?vd b)"
  let ?b = "if v \<notin> set (ms_items (queue_of_domains b))
    then ?b1\<lparr>world := ingress_callback s (proto vd) (ingress_callback_data vd) (world b)\<rparr> else ?b1"
  have d1: "get_domain g (set_domain v ?vd b) = Inr d" using vg d by (simp add: get_set_domain [OF victim])
  have run: "splice_remote s g v b = Inr ?b" using d victim d1 sp by (simp add: splice_remote_def)
  have dom: "get_domain h ?b = (if h = g then Inr ?d else if h = v then Inr ?vd else get_domain h b)" for h
    using d1 vg by (simp add: get_set_domain [OF d1] get_set_domain [OF victim])
  have views: "remote_items h ?b = (if h = v then vq_items ri else remote_items h b)" "skeleton h ?b = skeleton h b"
    "outbox_items g w ?b = vq_items ((outbox d)[v := vq_empty] ! w)" "outbox_items g w b = vq_items (outbox d ! w)"
    "cached_messages h ?b = cached_messages h b" "remote_items v b = vq_items (remote_inbox vd)"
    "skeleton v b = Some (vd\<lparr>remote_inbox := vq_empty, outbox := [], cache_messages := vq_empty\<rparr>)" for h w
    using vg by (auto simp: queue_views dom d victim)
  have live: "is_live v b" using victim by (auto simp: live_domain)
  have "flush_ready g ?b"
    unfolding flush_ready_def views dom using e sp vg v d by (auto simp: nth_list_update dest: e(5))
  moreover have "handed_over g [v] b = [v]" "dropped g [v] b = []" using ne live by (simp_all add: handed_over_def dropped_def views)
  moreover have "world ?b = wake s b v (world b)" by (simp add: wake_def views)
  ultimately have "flushed s g [v] b ?b"
    unfolding flushed_def views using sp e v live by (auto simp: views nth_list_update)
  with run show ?thesis by blast
qed

lemma flush_loop_spec:
  assumes "flush_ready g b" and "distinct gids" and "set gids \<subseteq> {..< MAX_DOMAINS}"
  shows "\<exists>b'. flush_loop s g gids cnt b = Inr (cnt + length (handed_over g gids b), b') \<and> flushed s g gids b b'"
  using assms
proof (induction gids arbitrary: cnt b)
  case Nil
  then show ?case using flushed_Nil by (auto simp: handed_over_def)
next
  case (Cons v gids)
  obtain d where d: "get_domain g b = Inr d" "length (gid_to_domain b) = MAX_DOMAINS"
    using Cons.prems(1) by (rule flush_readyD)
  have v: "v < MAX_DOMAINS" using Cons.prems(3) by simp
  have dead: "gid_to_domain b ! v = None \<longleftrightarrow> \<not> is_live v b"
    using v d(2) by (auto simp: live_domain get_domain_def)
  have o: "outbox_items g v b = vq_items (outbox d ! v)" by (simp add: outbox_items_def d)
  have step: "\<exists>b1. flushed s g [v] b b1 \<and>
      flush_loop s g (v # gids) cnt b = flush_loop s g gids (cnt + length (handed_over g [v] b)) b1"
  proof (cases "vq_items (outbox d ! v) = []")
    case True
    then show ?thesis using flushed_empty [OF Cons.prems(1)] o d
      by (intro exI [of _ b]) (simp add: handed_over_def)
  next
    case ne: False
    show ?thesis
    proof (cases "is_live v b")
      case True
      then obtain vd where "get_domain v b = Inr vd" by (auto simp: live_domain)
      from flushed_live [OF Cons.prems(1) d(1) v this ne] obtain b1 where
        "splice_remote s g v b = Inr b1" "flushed s g [v] b b1" by blast
      then show ?thesis using True ne o d dead by (intro exI [of _ b1]) (auto simp: handed_over_def Let_def)
    next
      case False
      obtain cache qr where dr: "drain_message_queue (cache_messages d) (outbox d ! v) = (cache, qr)" by fastforce
      show ?thesis using flushed_dead [OF Cons.prems(1) d(1) v False dr] False ne o d dead dr
        by (intro exI) (auto simp: handed_over_def Let_def)
    qed
  qed
  then obtain b1 where b1: "flushed s g [v] b b1"
    "flush_loop s g (v # gids) cnt b = flush_loop s g gids (cnt + length (handed_over g [v] b)) b1" by blast
  have ready: "flush_ready g b1" using b1(1) by (simp add: flushed_def)
  obtain b2 where b2: "flush_loop s g gids (cnt + length (handed_over g [v] b)) b1 =
      Inr (cnt + length (handed_over g [v] b) + length (handed_over g gids b1), b2)" "flushed s g gids b1 b2"
    using Cons.IH [OF ready] Cons.prems(2,3) by fastforce
  have "handed_over g gids b1 = handed_over g gids b"
    unfolding handed_over_def
  proof (rule filter_cong)
    fix x assume "x \<in> set gids"
    then have "x < MAX_DOMAINS" "x \<notin> set [v]" using Cons.prems(2,3) by auto
    then show "(outbox_items g x b1 \<noteq> [] \<and> is_live x b1) = (outbox_items g x b \<noteq> [] \<and> is_live x b)"
      using flushed_other [OF b1(1)] by metis
  qed simp
  then have "handed_over g (v # gids) b = handed_over g [v] b @ handed_over g gids b1"
    by (simp add: handed_over_def)
  moreover have "flushed s g ([v] @ gids) b b2"
    using b1(1) b2(2) by (rule flushed_trans) (use Cons.prems in auto)
  ultimately show ?case unfolding b1(2) b2(1) by (intro exI [of _ b2]) simp
qed

lemma send_flush_outbox_hands_over_aux:
  assumes "flush_ready g b"
  shows "\<exists>b'. send_flush_outbox s g b = Inr (length (handed_over g [0 ..< MAX_DOMAINS] b), b') \<and>
    flushed s g [0 ..< MAX_DOMAINS] b b'"
  unfolding send_flush_outbox_def using flush_loop_spec [OF assms, of "[0 ..< MAX_DOMAINS]" s 0]
  by (simp add: atLeast0LessThan)

text \<open>
  C21: Flushing hands every outbox over, in order and behind what the receiving domain already has,
  to the remote inbox of its domain; the outboxes for domains that no longer exist are freed into
  the sender's cache; every outbox is empty afterwards; exactly the receiving domains that are not
  waiting in the queue of domains are woken; and the number of hand-overs is returned. Nothing
  else changes.
\<close>

theorem send_flush_outbox_hands_over:
  assumes "flush_ready g b"
  shows "\<exists>b'. send_flush_outbox s g b = Inr (length (handed_over g [0 ..< MAX_DOMAINS] b), b') \<and>
    flushed s g [0 ..< MAX_DOMAINS] b b'"
  by (rule send_flush_outbox_hands_over_aux [OF assms])

text \<open>The example domain 1 with messages for the domains 2, which waits to be run or not, and 3, which
  does not exist.\<close>

definition example_flush :: "nat mnode list \<Rightarrow> (nat, nat, nat list) base" where
  "example_flush doms =
     (set_domain 1 ((example_domain 10 64 65 [1002])\<lparr>outbox :=
        [vq_empty, vq_empty, \<lparr>vq_items = [1000], vq_tail = True\<rparr>, \<lparr>vq_items = [1001], vq_tail = True\<rparr>, vq_empty]\<rparr>)
        example_base)\<lparr>queue_of_domains := doms\<rparr>"

lemma example_flush_domains:
  "get_domain h (example_flush doms) = (if h = 1 then Inr ((example_domain 10 64 65 [1002])\<lparr>outbox :=
     [vq_empty, vq_empty, \<lparr>vq_items = [1000], vq_tail = True\<rparr>, \<lparr>vq_items = [1001], vq_tail = True\<rparr>, vq_empty]\<rparr>)
   else get_domain h example_base)"
  by (simp add: example_flush_def get_set_domain [OF example_domains(2)])

lemma example_other_domain: "get_domain h example_base = Inr d \<Longrightarrow> h = 1 \<or> h = 2"
  by (auto simp: get_domain_def example_base_def nth_Cons split: if_splits nat.splits)

lemma example_flush_ready: "flush_ready 1 (example_flush doms)"
proof -
  have "vq_wf (remote_inbox d)" if "get_domain h (example_flush doms) = Inr d" for h d
    using that example_other_domain [of h d] example_domains(3)
    by (auto simp: example_flush_domains example_domain_def split: if_splits)
  then show ?thesis
    by (auto simp: flush_ready_def outbox_items_def example_flush_domains MAX_DOMAINS_def nth_Cons vq_wf_def
        vq_empty_def split: nat.splits) (simp add: example_flush_def example_base_def)
qed

theorem send_flush_outbox_hands_over_witness:
  "\<exists>b'. send_flush_outbox example_surroundings 1 (example_flush [Divider]) = Inr (1, b') \<and>
     remote_items 2 b' = [1000] \<and> cached_messages 1 b' = {#1001, 1002#} \<and> world b' = [20]"
proof -
  let ?b = "example_flush [Divider]"
  have o: "outbox_items 1 v ?b = (if v = 2 then [1000] else if v = 3 then [1001] else [])" if "v < MAX_DOMAINS" for v
    using that by (auto simp: outbox_items_def example_flush_domains MAX_DOMAINS_def nth_Cons vq_empty_def split: nat.splits)
  have l: "is_live 2 ?b" "\<not> is_live 3 ?b" "\<not> is_live 0 ?b" "\<not> is_live 4 ?b" "is_live (Suc 0) ?b"
    by (simp_all add: live_domain example_flush_domains example_domains) (simp_all add: get_domain_def example_base_def)
  have u: "[0 ..< MAX_DOMAINS] = [0, 1, 2, 3, 4]" by (simp add: MAX_DOMAINS_def upt_rec)
  have h: "handed_over 1 [0 ..< MAX_DOMAINS] ?b = [2]" "dropped 1 [0 ..< MAX_DOMAINS] ?b = [1001]"
    unfolding u handed_over_def dropped_def using o l by (simp_all add: MAX_DOMAINS_def)
  have w: "wake example_surroundings ?b 2 [] = [20]" "world ?b = []" "remote_items 2 ?b = []" "cached_messages 1 ?b = {#1002#}"
    by (simp_all add: wake_def queue_views example_flush_domains example_domains example_domain_def example_surroundings_def)
      (simp_all add: example_flush_def example_base_def)
  show ?thesis
    using send_flush_outbox_hands_over [OF example_flush_ready, of example_surroundings "[Divider]"] h w l o
    by (auto simp: flushed_def MAX_DOMAINS_def)
qed

section \<open>Dispatching the local inbox\<close>

text \<open>The process that a message of a domain is for, and what dispatching relies on: the processes of the
  domain know it, their inboxes are sound, and a process with an empty inbox is not in the queue of
  busy processes.\<close>

definition route :: "'d domain \<Rightarrow> ('c, 'd, 'u) base \<Rightarrow> addr \<Rightarrow> addr option" where
  "route d b m = umap_abs (poff_to_process d) (pid_to_poff (m_target (msgs b m)))"

definition routable :: "nat \<Rightarrow> ('c, 'd, 'u) base \<Rightarrow> 'd domain \<Rightarrow> addr vqueue \<Rightarrow> bool" where
  "routable g b d q \<longleftrightarrow>
     get_domain g b = Inr d \<and> umap_wf (poff_to_process d) \<and>
     (\<forall>p \<in> ran (umap_abs (poff_to_process d)). p_domain (procs b p) = Some g \<and> vq_wf (inbox (procs b p)) \<and>
        (vq_items (inbox (procs b p)) = [] \<longrightarrow> p \<notin> set (vq_items q))) \<and>
     queue_rep (busy_next b) (queue_of_busy_processes d) q \<and> vq_wf q"

definition routed :: "addr list \<Rightarrow> 'd domain \<Rightarrow> ('c, 'd, 'u) base \<Rightarrow> 'd domain \<Rightarrow> ('c, 'd, 'u) base \<Rightarrow> bool" where
  "routed ms d b d' b' \<longleftrightarrow>
     msgs b' = msgs b \<and> poff_to_process d' = poff_to_process d \<and> outbox d' = outbox d \<and>
     (\<forall>p. (procs b' p)\<lparr>inbox := vq_empty\<rparr> = (procs b p)\<lparr>inbox := vq_empty\<rparr>) \<and>
     (\<forall>p. vq_items (inbox (procs b' p)) = vq_items (inbox (procs b p)) @ filter (\<lambda>m. route d b m = Some p) ms) \<and>
     vq_items (cache_messages d') = rev (filter (\<lambda>m. route d b m = None) ms) @ vq_items (cache_messages d)"

lemma routed_trans:
  assumes a: "routed xs d b d1 b1" and c: "routed ys d1 b1 d2 b2"
  shows "routed (xs @ ys) d b d2 b2"
proof -
  have r: "route d1 b1 = route d b" using a by (intro ext) (simp add: route_def routed_def)
  show ?thesis using a c r unfolding routed_def by simp
qed

text \<open>One message.\<close>

lemma dispatch_one:
  assumes r: "routable g b d q" and g: "vq_get (local_inbox d) = (Some m, lq)" and m: "pid_to_poff (m_target (msgs b m)) \<noteq> 0"
  shows "\<exists>b1 d1 q1. dispatch_msg_local s g m (set_domain g (d\<lparr>local_inbox := lq\<rparr>) b) =
      Inr (if route d b m = None then 0 else 1, b1) \<and>
      routable g b1 d1 q1 \<and> routed [m] d b d1 b1 \<and> local_inbox d1 = lq"
proof -
  let ?d = "d\<lparr>local_inbox := lq\<rparr>" and ?b = "set_domain g (d\<lparr>local_inbox := lq\<rparr>) b"
  have d: "get_domain g b = Inr d" "umap_wf (poff_to_process d)" using r by (simp_all add: routable_def)
  have d': "get_domain g ?b = Inr ?d" using d by (simp add: get_set_domain)
  have get: "umap_get (poff_to_process d) (pid_to_poff (m_target (msgs b m))) = Inr (route d b m)"
    using umap_get_abs [OF d(2)] by (simp add: route_def)
  show ?thesis
  proof (cases "route d b m")
    case None
    let ?d1 = "?d\<lparr>cache_messages := cache_free m (cache_messages d)\<rparr>"
    have "dispatch_msg_local s g m ?b = Inr (0, set_domain g ?d1 ?b)"
      using None get m d' by (simp add: dispatch_msg_local_def message_free_def Let_def)
    moreover have "vq_items (cache_free m (cache_messages d)) = m # vq_items (cache_messages d)"
      using vq.put_head_items by (simp add: cache_free_def)
    moreover have "routable g (set_domain g ?d1 ?b) ?d1 q"
      using r d' by (simp add: routable_def get_set_domain)
    ultimately show ?thesis using None
      by (intro exI [of _ "set_domain g ?d1 ?b"] exI [of _ ?d1] exI [of _ q]) (simp add: routed_def)
  next
    case (Some p)
    then have p: "p \<in> ran (umap_abs (poff_to_process d))" by (auto simp: route_def ran_def)
    have pp: "p_domain (procs ?b p) = Some g" "vq_wf (inbox (procs ?b p))"
      "queue_rep (busy_next ?b) (queue_of_busy_processes ?d) q" "vq_wf q"
      "vq_items (inbox (procs ?b p)) = [] \<Longrightarrow> p \<notin> set (vq_items q)"
      using r p by (auto simp: routable_def)
    let ?proc = "(procs b p)\<lparr>inbox := snd (vq_put m (inbox (procs b p)))\<rparr>"
    let ?q = "if vq_items (inbox (procs b p)) = [] then snd (vq_put p q) else q"
    obtain h root where x: "dispatch_msg_single p m ?b =
        Inr (set_domain g (?d\<lparr>queue_of_busy_processes := root\<rparr>) ((set_process p ?proc ?b)\<lparr>busy_next := h\<rparr>))"
      "queue_rep h root ?q"
      using dispatch_msg_single_spec [OF d' pp(1-4), of m] pp(5) by auto
    let ?d1 = "?d\<lparr>queue_of_busy_processes := root\<rparr>"
    let ?b1 = "set_domain g ?d1 ((set_process p ?proc ?b)\<lparr>busy_next := h\<rparr>)"
    have run: "dispatch_msg_local s g m ?b = Inr (1, ?b1)"
      using Some get m d' x(1) by (simp add: dispatch_msg_local_def Let_def)
    note put = vq.put_items [of "inbox (procs b p)" m] vq.put_invar [of "inbox (procs b p)" m]
      vq.put_items [of q p] vq.put_invar [of q p]
    have "get_domain g ?b1 = Inr ?d1" using d' by (simp add: get_set_domain)
    then have "routable g ?b1 ?d1 ?q" unfolding routable_def using r x(2) put pp(2,4) by (auto simp: routable_def)
    moreover have "routed [m] d b ?d1 ?b1" using Some put(1) pp(2) by (auto simp: routed_def)
    ultimately show ?thesis using run Some
      by (intro exI [of _ ?b1] exI [of _ ?d1] exI [of _ ?q]) simp
  qed
qed

lemma dispatch_local_inbox_routes_aux:
  assumes "routable g b d q" and "\<forall>m \<in> set (vq_items (local_inbox d)). pid_to_poff (m_target (msgs b m)) \<noteq> 0"
  shows "\<exists>b' d' q'. dispatch_local_inbox s g b = Inr (length (filter (\<lambda>m. route d b m \<noteq> None) (vq_items (local_inbox d))), b') \<and>
    routable g b' d' q' \<and> vq_items (local_inbox d') = [] \<and> routed (vq_items (local_inbox d)) d b d' b'"
  using assms
proof (induction "length (vq_items (local_inbox d))" arbitrary: b d q)
  case 0
  then have e: "vq_items (local_inbox d) = []" by simp
  have "get_domain g b = Inr d" using 0 by (simp add: routable_def)
  then have "dispatch_local_inbox s g b = Inr (0, b)"
    using vq.get_Nil [OF e] by (simp add: dispatch_local_inbox.simps [of s g b])
  then show ?case using e 0 by (intro exI [of _ b] exI [of _ d] exI [of _ q]) (simp add: routed_def)
next
  case (Suc n)
  obtain m ms where it: "vq_items (local_inbox d) = m # ms" using Suc.hyps(2) by (cases "vq_items (local_inbox d)") auto
  obtain lq where g: "vq_get (local_inbox d) = (Some m, lq)" "vq_items lq = ms"
    using vq.get_Cons [OF it] by (cases "vq_get (local_inbox d)") simp
  have dom: "get_domain g b = Inr d" using Suc.prems by (simp add: routable_def)
  obtain b1 d1 q1 where one: "dispatch_msg_local s g m (set_domain g (d\<lparr>local_inbox := lq\<rparr>) b) =
      Inr (if route d b m = None then 0 else 1, b1)" "routable g b1 d1 q1" "routed [m] d b d1 b1" "local_inbox d1 = lq"
    using dispatch_one [OF Suc.prems(1) g(1), of s] Suc.prems(2) it by auto
  have r: "route d1 b1 = route d b" using one(3) by (intro ext) (simp add: route_def routed_def)
  have t: "\<forall>m \<in> set (vq_items (local_inbox d1)). pid_to_poff (m_target (msgs b1 m)) \<noteq> 0"
    using Suc.prems(2) one(3,4) g(2) it by (simp add: routed_def)
  have n: "n = length (vq_items (local_inbox d1))" using Suc.hyps(2) it one(4) g(2) by simp
  obtain b2 d2 q2 where two: "dispatch_local_inbox s g b1 =
      Inr (length (filter (\<lambda>m. route d b m \<noteq> None) ms), b2)" "routable g b2 d2 q2" "vq_items (local_inbox d2) = []"
      "routed ms d1 b1 d2 b2"
    using Suc.hyps(1) [OF n one(2) t] one(4) g(2) r by auto
  have "dispatch_local_inbox s g b = Inr (length (filter (\<lambda>m. route d b m \<noteq> None) (m # ms)), b2)"
    using dom g(1) one(1) two(1) by (simp add: dispatch_local_inbox.simps [of s g b])
  moreover have "routed ([m] @ ms) d b d2 b2" using one(3) two(4) by (rule routed_trans)
  ultimately show ?case using two(2,3) it by auto
qed

text \<open>
  \<open>dispatch_local_inbox\<close> empties the local inbox: every message for a process of the domain goes
  to the end of the inbox of that process, in the order of the local inbox, the messages for
  processes that do not exist are freed, and the number of delivered messages is returned.
\<close>

theorem dispatch_local_inbox_routes:
  assumes "routable g b d q" and "\<forall>m \<in> set (vq_items (local_inbox d)). pid_to_poff (m_target (msgs b m)) \<noteq> 0"
  shows "\<exists>b' d' q'. dispatch_local_inbox s g b = Inr (length (filter (\<lambda>m. route d b m \<noteq> None) (vq_items (local_inbox d))), b') \<and>
    routable g b' d' q' \<and> vq_items (local_inbox d') = [] \<and> routed (vq_items (local_inbox d)) d b d' b'"
  by (rule dispatch_local_inbox_routes_aux [OF assms])

lemma example_route:
  "umap_abs (poff_to_process (example_domain k p q c)) 3 = Some p"
  "umap_abs (poff_to_process (example_domain k p q c)) 4 = Some q"
  "umap_abs (poff_to_process (example_domain k p q c)) 7 = None"
  by (simp_all add: example_domain_def umap_abs_def example_umap_def Let_def unat_mod)

lemma example_ran: "r \<in> ran (umap_abs (example_umap p q)) \<Longrightarrow> r = p \<or> r = q"
proof -
  assume "r \<in> ran (umap_abs (example_umap p q))"
  then obtain no where n: "umap_abs (example_umap p q) no = Some r" by (auto simp: ran_def)
  have "unat (no mod 2) = 0 \<or> unat (no mod 2) = 1" by (simp add: unat_mod) linarith
  then show ?thesis using n by (auto simp: umap_abs_def example_umap_def Let_def split: if_splits)
qed

lemma example_routable:
  assumes d: "get_domain g b = Inr d" and u: "poff_to_process d = example_umap p q" "queue_of_busy_processes d = INIT_QUEUE_ROOT"
    and p: "\<And>r. r = p \<or> r = q \<Longrightarrow> p_domain (procs b r) = Some g" "\<And>r. inbox (procs b r) = vq_empty"
  shows "routable g b d vq_empty"
proof -
  have "\<forall>r \<in> ran (umap_abs (poff_to_process d)). p_domain (procs b r) = Some g \<and> vq_wf (inbox (procs b r)) \<and>
      (vq_items (inbox (procs b r)) = [] \<longrightarrow> r \<notin> set (vq_items vq_empty))"
    unfolding u using example_ran p by (metis empty_iff list.set(1) vq_wf_empty(1,2))
  then show ?thesis
    unfolding routable_def using d u example_umap_wf by (metis queue_rep_empty vq_wf_empty(1))
qed

text \<open>The messages 1000 and 1002 for the process 64 and 1001 for a process that is gone.\<close>

definition example_inbox :: "(nat, nat, nat list) base" where
  "example_inbox = (set_domain 1 ((example_domain 10 64 65 [])\<lparr>local_inbox := \<lparr>vq_items = [1000, 1001, 1002], vq_tail = True\<rparr>\<rparr>)
     example_base)\<lparr>msgs := (\<lambda>m. blank_message\<lparr>m_target := poff_gid_to_pid (if m = 1001 then 7 else 3) 1\<rparr>)\<rparr>"

theorem dispatch_local_inbox_routes_witness:
  "\<exists>b'. dispatch_local_inbox example_surroundings 1 example_inbox = Inr (2, b') \<and>
     vq_items (inbox (procs b' 64)) = [1000, 1002] \<and> vq_items (inbox (procs b' 65)) = []"
proof -
  let ?d = "(example_domain 10 64 65 [])\<lparr>local_inbox := \<lparr>vq_items = [1000, 1001, 1002], vq_tail = True\<rparr>\<rparr>"
  have d: "get_domain 1 example_inbox = Inr ?d"
    by (simp add: example_inbox_def get_set_domain [OF example_domains(2)])
  have p: "p_domain (procs example_inbox r) = Some 1" "inbox (procs example_inbox r) = vq_empty" if "r = 64 \<or> r = 65" for r
    using that by (auto simp: example_inbox_def example_base_def example_process_def)
  have r: "routable 1 example_inbox ?d vq_empty"
    by (rule example_routable [OF d]) (use p in \<open>auto simp: example_domain_def example_inbox_def example_base_def example_process_def\<close>)
  have t: "pid_to_poff (poff_gid_to_pid 7 1) = 7" "pid_to_poff (poff_gid_to_pid 3 1) = 3" using pid_of_parts [of 7 1] pid_of_parts [of 3 1] by simp_all
  have e: "pid_to_poff (m_target (msgs example_inbox m)) = (if m = 1001 then 7 else 3)" for m
    by (simp add: example_inbox_def t)
  have rt: "route ?d example_inbox m = (if m = 1001 then None else Some 64)" for m
    using example_route by (simp add: route_def e)
  show ?thesis
    using dispatch_local_inbox_routes [OF r, of example_surroundings] e p(2)
    by (auto simp: routed_def rt)
qed

text \<open>
  C20: From an outbox to the inboxes, in order. When a domain \<open>g\<close> flushes its outboxes and then the
  domain \<open>v\<close> is run, the inbox of every process of \<open>v\<close> gets, behind what it has, first its messages
  of the local inbox and the remote inbox of \<open>v\<close>, and then the messages that \<open>g\<close> sent it, in the
  order in which \<open>g\<close> sent them.
\<close>

theorem outbox_to_inbox_in_order:
  assumes f: "flush_ready g b" and v: "v \<noteq> g" "v < MAX_DOMAINS" and r: "routable v b d q" and l: "vq_wf (local_inbox d)"
    and t: "\<forall>m \<in> set (vq_items (local_inbox d) @ remote_items v b @ outbox_items g v b). pid_to_poff (m_target (msgs b m)) \<noteq> 0"
  shows "\<exists>k b1 n b2. send_flush_outbox s g b = Inr (k, b1) \<and> domain_receive s v b1 = Inr (n, b2) \<and>
    (\<forall>p. vq_items (inbox (procs b2 p)) = vq_items (inbox (procs b p)) @
       filter (\<lambda>m. route d b m = Some p) (vq_items (local_inbox d) @ remote_items v b @ outbox_items g v b))"
proof -
  obtain k b1 where b1: "send_flush_outbox s g b = Inr (k, b1)" "flushed s g [0 ..< MAX_DOMAINS] b b1"
    using send_flush_outbox_hands_over_aux [OF f] by blast
  have dv: "get_domain v b = Inr d" using r by (simp add: routable_def)
  then have live: "is_live v b" by (auto simp: live_domain)
  obtain d1 where d1: "get_domain v b1 = Inr d1" using flushed_other(2) [OF b1(2), of v] live by (auto simp: live_domain)
  have sk: "skeleton v b1 = skeleton v b" using b1(2) by (simp add: flushed_def)
  have same: "poff_to_process d1 = poff_to_process d" "queue_of_busy_processes d1 = queue_of_busy_processes d"
    "local_inbox d1 = local_inbox d"
    using sk d1 dv by (cases d; cases d1; simp add: skeleton_def)+
  have fr: "procs b1 = procs b" "msgs b1 = msgs b" "busy_next b1 = busy_next b" using b1(2) by (simp_all add: flushed_def)
  have rem: "vq_items (remote_inbox d1) = remote_items v b @ outbox_items g v b"
  proof -
    have "remote_items v b1 = remote_items v b @ outbox_items g v b" using b1(2) v live by (simp add: flushed_def)
    then show ?thesis using d1 by (simp add: remote_items_def [of v b1])
  qed
  have w: "vq_wf (remote_inbox d1)" using b1(2) d1 by (auto simp: flushed_def flush_ready_def)
  obtain ri li where sp: "vq_splice (remote_inbox d1) (local_inbox d1) = (ri, li)"
    "vq_items li = vq_items (local_inbox d) @ vq_items (remote_inbox d1)"
    using vq_splice_wf [OF w, of "local_inbox d1"] l same by (cases "vq_splice (remote_inbox d1) (local_inbox d1)") simp
  let ?d2 = "d1\<lparr>remote_inbox := ri, local_inbox := li\<rparr>"
  let ?b2 = "set_domain v ?d2 b1"
  have d2: "get_domain v ?b2 = Inr ?d2" using d1 by (simp add: get_set_domain)
  have r2: "routable v ?b2 ?d2 q" using r d2 same fr by (simp add: routable_def)
  have rt: "route ?d2 ?b2 = route d b" using same fr by (intro ext) (simp add: route_def)
  have "\<forall>m \<in> set (vq_items (local_inbox ?d2)). pid_to_poff (m_target (msgs ?b2 m)) \<noteq> 0"
    using t sp rem fr by auto
  from dispatch_local_inbox_routes_aux [OF r2 this, of s] obtain n b3 d3 q3 where
    b3: "dispatch_local_inbox s v ?b2 = Inr (n, b3)" "routed (vq_items (local_inbox ?d2)) ?d2 ?b2 d3 b3" by blast
  have "domain_receive s v b1 = Inr (n, b3)" using d1 sp(1) b3(1) by (simp add: domain_receive_def)
  moreover have "vq_items (inbox (procs b3 p)) = vq_items (inbox (procs b p)) @
      filter (\<lambda>m. route d b m = Some p) (vq_items (local_inbox d) @ remote_items v b @ outbox_items g v b)" for p
    using b3(2) sp(2) rem fr unfolding routed_def rt by simp
  ultimately show ?thesis using b1(1) by blast
qed

text \<open>The message 1000 is in the outbox of domain 1 for a process of domain 2.\<close>

definition example_letter :: "(nat, nat, nat list) base" where
  "example_letter = (example_flush [Divider])\<lparr>msgs := (\<lambda>m. blank_message\<lparr>m_target := poff_gid_to_pid 3 2\<rparr>)\<rparr>"

theorem outbox_to_inbox_in_order_witness:
  "\<exists>k b1 n b2. send_flush_outbox example_surroundings 1 example_letter = Inr (k, b1) \<and>
     domain_receive example_surroundings 2 b1 = Inr (n, b2) \<and> vq_items (inbox (procs b2 128)) = [1000]"
proof -
  let ?d = "example_domain 20 128 129 []"
  have f: "flush_ready 1 example_letter"
    using example_flush_ready [of "[Divider]"] by (simp add: flush_ready_def example_letter_def outbox_items_def)
  have d: "get_domain 2 example_letter = Inr ?d" by (simp add: example_letter_def example_flush_domains example_domains)
  have r: "routable 2 example_letter ?d vq_empty"
    by (rule example_routable [OF d, of 128 129])
      (auto simp: example_domain_def example_letter_def example_flush_def example_base_def example_process_def)
  have t: "pid_to_poff (m_target (msgs example_letter m)) = 3" for m
    by (simp add: example_letter_def example_parts)
  have rt: "route ?d example_letter m = Some 128" for m using example_route(1) by (simp add: route_def t)
  have e: "remote_items 2 example_letter = []" "outbox_items 1 2 example_letter = [1000]" "vq_items (local_inbox ?d) = []"
    "vq_wf (local_inbox ?d)" "vq_items (inbox (procs example_letter 128)) = []"
    by (simp_all add: queue_views d) (simp_all add: example_letter_def example_flush_domains example_domain_def,
      simp_all add: example_flush_def example_base_def example_process_def)
  show ?thesis
    using outbox_to_inbox_in_order [OF f _ _ r e(4), of example_surroundings] t e rt
    by (auto simp: MAX_DOMAINS_def)
qed

end
