(* ===== verification/Running.thy ===== *)
theory Running
  imports Flush
begin

text \<open>
  What running processes, domains and workers guarantees: the outcome does not depend on the fuel;
  a process gets its messages once each and in order; and two ways in which the code loses track
  of a process or of its messages.
\<close>

section \<open>Fuel\<close>

text \<open>\<open>fuel_le r r'\<close>: unless \<open>r\<close> was cut off, \<open>r'\<close> is the same.\<close>

definition fuel_le :: "error + 'a \<Rightarrow> error + 'a \<Rightarrow> bool" where
  "fuel_le r r' \<longleftrightarrow> r = Inl No_Fuel \<or> r' = r"

named_theorems fuel_intros

lemma fuel_le_refl [fuel_intros, simp]: "fuel_le r r"
  by (simp add: fuel_le_def)

lemma fuel_le_No_Fuel [simp]: "fuel_le (Inl No_Fuel) r"
  by (simp add: fuel_le_def)

lemma fuel_le_rbind [fuel_intros]:
  "fuel_le m m' \<Longrightarrow> (\<And>x. fuel_le (f x) (f' x)) \<Longrightarrow> fuel_le (rbind m f) (rbind m' f')"
  by (cases m) (auto simp: fuel_le_def)

lemma fuel_le_run_act:
  assumes "\<And>g pid c data b. fuel_le (rc g pid c data b) (rc' g pid c data b)"
  shows "fuel_le (run_act s rc a b) (run_act s rc' a b)"
proof (induction a arbitrary: b)
  case (World f)
  show ?case using World [of "f (world b)" "snd (f (world b))"] rangeI [of f "world b"]
    by (cases "f (world b)") (simp add: Let_def snds.simps)
qed (auto intro!: fuel_intros assms split: prod.splits)

lemma fuel_le_run_constructor:
  "n \<le> k \<Longrightarrow> fuel_le (run_constructor s prog n g pid c data b) (run_constructor s prog k g pid c data b)"
proof (induction n arbitrary: k g pid c data b)
  case (Suc n)
  then obtain j where k: "k = Suc j" "n \<le> j" by (cases k) auto
  have "fuel_le (run_act s (run_constructor s prog n) a b) (run_act s (run_constructor s prog j) a b)" for a b
    by (rule fuel_le_run_act) (use Suc.IH [OF k(2)] in simp)
  then show ?case unfolding k(1) run_constructor.simps Let_def by (intro fuel_intros) (auto split: prod.splits)
qed simp

lemma fuel_le_act [fuel_intros]:
  "n \<le> k \<Longrightarrow> fuel_le (run_act s (run_constructor s prog n) a b) (run_act s (run_constructor s prog k) a b)"
  by (rule fuel_le_run_act) (rule fuel_le_run_constructor)

lemma fuel_le_process_run:
  "n \<le> k \<Longrightarrow> fuel_le (process_run s prog n p b) (process_run s prog k p b)"
proof (induction n arbitrary: k b)
  case (Suc n)
  then obtain j where k: "k = Suc j" "n \<le> j" by (cases k) auto
  show ?case unfolding k(1) process_run.simps Let_def
    by (auto intro!: fuel_intros k(2) Suc.IH [OF k(2)] split: prod.splits option.splits)
qed simp

lemma fuel_le_process_queue_run:
  "n \<le> k \<Longrightarrow> fuel_le (process_queue_run s prog n g b) (process_queue_run s prog k g b)"
proof (induction n arbitrary: k b)
  case (Suc n)
  then obtain j where k: "k = Suc j" "n \<le> j" by (cases k) auto
  show ?case unfolding k(1) process_queue_run.simps Let_def
    by (auto intro!: fuel_intros fuel_le_process_run [OF k(2)] Suc.IH [OF k(2)] split: prod.splits option.splits)
qed simp

lemma fuel_le_domain_loop:
  "n \<le> k \<Longrightarrow> fuel_le (domain_loop s prog n g b) (domain_loop s prog k g b)"
proof (induction n arbitrary: k b)
  case (Suc n)
  then obtain j where k: "k = Suc j" "n \<le> j" by (cases k) auto
  show ?case unfolding k(1) domain_loop.simps
    by (auto intro!: fuel_intros fuel_le_process_queue_run [OF k(2)] Suc.IH [OF k(2)] split: prod.splits)
qed simp

lemma fuel_le_domain_run [fuel_intros]:
  "n \<le> k \<Longrightarrow> fuel_le (domain_run s prog n g b) (domain_run s prog k g b)"
  unfolding domain_run_def by (auto intro!: fuel_intros fuel_le_domain_loop split: prod.splits)

lemma fuel_le_hungry_loop:
  "n \<le> k \<Longrightarrow> fuel_le (hungry_loop s prog n g p b) (hungry_loop s prog k g p b)"
proof (induction n arbitrary: k p b)
  case 0
  then show ?case by (cases p) (cases k; simp)+
next
  case (Suc n)
  then obtain j where k: "k = Suc j" "n \<le> j" by (cases k) auto
  show ?case unfolding k(1)
    by (cases p) (auto intro!: fuel_intros k(2) Suc.IH [OF k(2)] split: prod.splits)
qed

lemma fuel_le_worker_domain_run:
  "n \<le> k \<Longrightarrow> fuel_le (worker_domain_run s prog n g b) (worker_domain_run s prog k g b)"
  unfolding worker_domain_run_def
  by (auto intro!: fuel_intros fuel_le_hungry_loop split: prod.splits list.splits)

lemma fuel_le_worker_loop:
  "n \<le> k \<Longrightarrow> fuel_le (worker_loop s prog n b) (worker_loop s prog k b)"
proof (induction n arbitrary: k b)
  case (Suc n)
  then obtain j where k: "k = Suc j" "n \<le> j" by (cases k) auto
  show ?case unfolding k(1) worker_loop.simps
    by (auto intro!: fuel_intros fuel_le_worker_domain_run [OF k(2)] Suc.IH [OF k(2)] split: prod.splits option.splits)
qed simp

text \<open>
  The outcome of the main loop, be it the final state or the error that ends the program, does
  not depend on the fuel: once a run ends within some fuel, it ends the same way with any more.
\<close>

theorem msock_base_loop_fuel:
  assumes "msock_base_loop s prog n b = r" and "r \<noteq> Inl No_Fuel" and "n \<le> k"
  shows "msock_base_loop s prog k b = r"
  using fuel_le_worker_loop [OF assms(3), of s prog b] assms(1,2) by (auto simp: fuel_le_def msock_base_loop_def)

theorem msock_base_loop_fuel_witness:
  "msock_base_loop example_surroundings \<lparr>on_message = (\<lambda>c ty pl sz data. Return RECV_OK), on_construct = (\<lambda>c data. Return RECV_OK)\<rparr>
     7 example_base = Inr example_base"
  by (rule msock_base_loop_fuel [where n = 1]) (simp_all add: msock_base_loop_def example_base_def ms_get_def)

section \<open>A process and its inbox\<close>

text \<open>A callback that only reads its message and changes its own data: \<open>h\<close> gives the new state of the
  world and whether the message is accepted, or put aside with \<open>RECV_BADMATCH\<close>.\<close>

definition steady :: "('c, 'd, 'u) program \<Rightarrow> 'c \<Rightarrow> 'd option \<Rightarrow> (msg_type \<Rightarrow> byte list \<Rightarrow> 32 word \<Rightarrow> 'u \<Rightarrow> 'u \<times> bool) \<Rightarrow> bool" where
  "steady prog cb data h \<longleftrightarrow> (\<forall>ty payload sz. on_message prog cb ty payload sz data =
     World (\<lambda>u. map_prod id (\<lambda>ok. Return (if ok then RECV_OK else RECV_BADMATCH)) (h ty payload sz u)))"

text \<open>The world and the verdicts after the messages \<open>ms\<close>, in order.\<close>

fun verdicts :: "(msg_type \<Rightarrow> byte list \<Rightarrow> 32 word \<Rightarrow> 'u \<Rightarrow> 'u \<times> bool) \<Rightarrow> (addr \<Rightarrow> message) \<Rightarrow> addr list \<Rightarrow> 'u \<Rightarrow> 'u \<times> bool list" where
  "verdicts h msg [] u = (u, [])"
| "verdicts h msg (m # ms) u =
     (let (u1, ok) = h (m_type (msg m)) (m_payload (msg m)) (m_sz (msg m)) u;
          (u2, oks) = verdicts h msg ms u1
      in (u2, ok # oks))"

definition accepted :: "addr list \<Rightarrow> bool list \<Rightarrow> addr list" where
  "accepted ms oks = map fst (filter snd (zip ms oks))"

definition set_aside :: "addr list \<Rightarrow> bool list \<Rightarrow> addr list" where
  "set_aside ms oks = map fst (filter (\<lambda>x. \<not> snd x) (zip ms oks))"

lemma process_run_steady:
  assumes "steady prog cb data h" and "get_domain g b = Inr d" and "p_domain (procs b p) = Some g"
    and "receive_callback (procs b p) = Some cb" and "receive_data (procs b p) = data" and "vq_wf (badmatch (procs b p))"
    and "length (vq_items (inbox (procs b p))) < n"
    and "verdicts h (msgs b) (vq_items (inbox (procs b p))) (world b) = (u, oks)"
  shows "\<exists>b' d'. process_run s prog n p b = Inr b' \<and> world b' = u \<and> get_domain g b' = Inr d' \<and>
    vq_items (inbox (procs b' p)) = [] \<and> msgs b' = msgs b \<and>
    vq_items (badmatch (procs b' p)) = vq_items (badmatch (procs b p)) @ set_aside (vq_items (inbox (procs b p))) oks \<and>
    vq_items (cache_messages d') = rev (accepted (vq_items (inbox (procs b p))) oks) @ vq_items (cache_messages d)"
  using assms
proof (induction n arbitrary: b d u oks)
  case (Suc n)
  show ?case
  proof (cases "vq_items (inbox (procs b p))")
    case Nil
    then show ?thesis using Suc.prems vq.get_Nil [OF Nil]
      by (simp add: accepted_def set_aside_def)
  next
    case (Cons m ms)
    obtain q where q: "vq_get (inbox (procs b p)) = (Some m, q)" "vq_items q = ms"
      using vq.get_Cons [OF Cons] by (cases "vq_get (inbox (procs b p))") simp
    let ?msg = "msgs b m"
    obtain u1 ok where h: "h (m_type ?msg) (m_payload ?msg) (m_sz ?msg) (world b) = (u1, ok)" by fastforce
    obtain oks1 where v: "verdicts h (msgs b) ms u1 = (u, oks1)" "oks = ok # oks1"
      using Suc.prems(8) h by (auto simp: Cons split: prod.splits)
    let ?b1 = "(set_process p ((procs b p)\<lparr>inbox := q\<rparr>) b)\<lparr>world := u1\<rparr>"
    have act: "run_act s rc (on_message prog cb (m_type ?msg) (m_payload ?msg) (m_sz ?msg) data)
        (set_process p ((procs b p)\<lparr>inbox := q\<rparr>) b) = Inr (if ok then RECV_OK else RECV_BADMATCH, ?b1)" for rc
      using Suc.prems(1) h by (simp add: steady_def set_process_def)
    have len: "length ms < n" using Suc.prems(7) Cons by simp
    have ne: "RECV_OK \<noteq> RECV_BADMATCH" "RECV_BADMATCH \<noteq> RECV_OK" by (simp_all add: recvs)
    show ?thesis
    proof (cases ok)
      case True
      let ?d2 = "d\<lparr>cache_messages := cache_free m (cache_messages d)\<rparr>"
      let ?b2 = "set_domain g ?d2 ?b1"
      have d1: "get_domain g ?b1 = Inr d" using Suc.prems(2) by simp
      have run: "process_run s prog (Suc n) p b = process_run s prog n p ?b2"
        using Suc.prems q(1) act True d1 by (simp add: message_free_def)
      have "get_domain g ?b2 = Inr ?d2" using d1 by (simp add: get_set_domain)
      moreover have "verdicts h (msgs ?b2) (vq_items (inbox (procs ?b2 p))) (world ?b2) = (u, oks1)"
        using v(1) q(2) by simp
      ultimately obtain b' d' where "process_run s prog n p ?b2 = Inr b'" "world b' = u" "get_domain g b' = Inr d'"
        "vq_items (inbox (procs b' p)) = []" "msgs b' = msgs b"
        "vq_items (badmatch (procs b' p)) = vq_items (badmatch (procs b p)) @ set_aside ms oks1"
        "vq_items (cache_messages d') = rev (accepted ms oks1) @ vq_items (cache_messages ?d2)"
        using Suc.IH [OF Suc.prems(1), of ?b2 ?d2 u oks1] Suc.prems len q(2) by auto
      moreover have "vq_items (cache_messages ?d2) = m # vq_items (cache_messages d)"
        using vq.put_head_items by (simp add: cache_free_def)
      ultimately show ?thesis unfolding run Cons v(2) using True
        by (intro exI [of _ b'] exI [of _ d']) (simp add: accepted_def set_aside_def)
    next
      case False
      let ?b2 = "set_process p ((procs ?b1 p)\<lparr>badmatch := snd (vq_put m (badmatch (procs ?b1 p)))\<rparr>) ?b1"
      note put = vq.put_items [OF Suc.prems(6), of m] vq.put_invar [OF Suc.prems(6), of m]
      have run: "process_run s prog (Suc n) p b = process_run s prog n p ?b2"
        using Suc.prems q(1) act False ne by (simp add: Let_def)
      have "get_domain g ?b2 = Inr d" using Suc.prems(2) by simp
      moreover have "verdicts h (msgs ?b2) (vq_items (inbox (procs ?b2 p))) (world ?b2) = (u, oks1)"
        using v(1) q(2) by simp
      ultimately obtain b' d' where "process_run s prog n p ?b2 = Inr b'" "world b' = u" "get_domain g b' = Inr d'"
        "vq_items (inbox (procs b' p)) = []" "msgs b' = msgs b"
        "vq_items (badmatch (procs b' p)) = vq_items (badmatch (procs ?b2 p)) @ set_aside ms oks1"
        "vq_items (cache_messages d') = rev (accepted ms oks1) @ vq_items (cache_messages d)"
        using Suc.IH [OF Suc.prems(1), of ?b2 d u oks1] Suc.prems len q(2) put by auto
      then show ?thesis unfolding run Cons v(2) using False put(1)
        by (intro exI [of _ b'] exI [of _ d']) (simp add: accepted_def set_aside_def)
    qed
  qed
qed simp


text \<open>The process 64 with three messages, of which it takes those of type 16.\<close>

definition picky :: "msg_type \<Rightarrow> byte list \<Rightarrow> 32 word \<Rightarrow> nat list \<Rightarrow> nat list \<times> bool" where
  "picky ty payload sz u = (u @ [unat ty], ty = 16)"

definition picky_program :: "(nat, nat, nat list) program" where
  "picky_program = \<lparr>on_message = (\<lambda>c ty payload sz data. World (\<lambda>u.
       map_prod id (\<lambda>ok. Return (if ok then RECV_OK else RECV_BADMATCH)) (picky ty payload sz u))),
     on_construct = (\<lambda>c data. Return RECV_OK)\<rparr>"

definition picky_base :: "(nat, nat, nat list) base" where
  "picky_base = (set_process 64 ((procs example_base 64)\<lparr>inbox := \<lparr>vq_items = [2000, 2001, 2002], vq_tail = True\<rparr>\<rparr>) example_base)
     \<lparr>msgs := (\<lambda>m. blank_message\<lparr>m_type := if m = 2001 then 17 else 16\<rparr>)\<rparr>"


section \<open>Two ways to lose track\<close>

text \<open>Process 64 is sent a message, and answers the first two messages it gets by one to itself.\<close>

definition answer_self :: "nat \<Rightarrow> msg_type \<Rightarrow> byte list \<Rightarrow> 32 word \<Rightarrow> nat option \<Rightarrow> (nat, nat, nat list) act" where
  "answer_self c ty payload sz data =
     World (\<lambda>u. (u @ [0],
       if length u < 2 then Self (\<lambda>pid. Send pid 16 [] 0 (Return RECV_OK)) else Return RECV_OK))"

definition answer_program :: "(nat, nat, nat list) program" where
  "answer_program = \<lparr>on_message = answer_self, on_construct = (\<lambda>c data. Return RECV_OK)\<rparr>"

definition answer_start :: "error + (nat, nat, nat list) base" where
  "answer_start = send_indirect example_surroundings 1 (poff_gid_to_pid 3 1) 16 [] 0 example_base"

text \<open>
  A process that sends itself a message while it handles one, twice in a row, breaks the queue
  of busy processes: the run ends in the dereference of a poison link. (The process is not in the
  queue while it runs, so each time its inbox was empty it is put into the queue, the second time
  behind itself.)
\<close>

theorem self_sends_break_busy_queue:
  "case rbind answer_start (process_queue_run example_surroundings answer_program 10 1) of
     Inl e \<Rightarrow> e = Bad_Deref | Inr b \<Rightarrow> False"
  by code_simp

text \<open>
  C28: When a process calls \<open>msock_receive\<close> with messages set aside and an empty inbox, those messages
  become its inbox, but the next message that is sent to it replaces them: they are in no queue any
  more, neither handled nor freed.
\<close>

theorem receive_then_send_loses:
  assumes c: "current_process b = Some p" and bm: "vq_wf (badmatch (procs b p))" "vq_items (badmatch (procs b p)) \<noteq> []"
    and ib: "vq_wf (inbox (procs b p))" "vq_items (inbox (procs b p)) = []"
  shows "\<exists>b1. msock_receive cb data b = Inr b1 \<and>
    vq_items (inbox (procs b1 p)) = vq_items (badmatch (procs b p)) \<and> vq_items (badmatch (procs b1 p)) = [] \<and>
    (\<forall>m b2. dispatch_msg_single p m b1 = Inr b2 \<longrightarrow>
       vq_items (inbox (procs b2 p)) = [m] \<and> vq_items (badmatch (procs b2 p)) = [])"
proof -
  have sp: "vq_splice_prepend (badmatch (procs b p)) (inbox (procs b p)) =
      Some (vq_empty, (inbox (procs b p))\<lparr>vq_items := vq_items (badmatch (procs b p))\<rparr>)"
    using bm ib by (simp add: vq_splice_prepend_def vq_wf_def)
  have t: "\<not> vq_tail (inbox (procs b p))" using ib by (simp add: vq_wf_def)
  show ?thesis
    using c sp t
    by (auto simp: msock_receive_def get_current_process_def dispatch_msg_single_def vq_put_def Let_def)
qed

theorem receive_then_send_loses_witness:
  "\<exists>b1. msock_receive (Some 1) None ((set_process 64 ((procs example_base 64)\<lparr>badmatch := \<lparr>vq_items = [2000, 2001], vq_tail = True\<rparr>\<rparr>)
     example_base)\<lparr>current_process := Some 64\<rparr>) = Inr b1 \<and> vq_items (inbox (procs b1 64)) = [2000, 2001] \<and>
     (\<exists>b2. dispatch_msg_single 64 1000 b1 = Inr b2 \<and> vq_items (inbox (procs b2 64)) = [1000])"
proof -
  let ?b = "(set_process 64 ((procs example_base 64)\<lparr>badmatch := \<lparr>vq_items = [2000, 2001], vq_tail = True\<rparr>\<rparr>)
     example_base)\<lparr>current_process := Some 64\<rparr>"
  have p: "vq_wf (badmatch (procs ?b 64))" "vq_items (badmatch (procs ?b 64)) = [2000, 2001]"
    "vq_wf (inbox (procs ?b 64))" "vq_items (inbox (procs ?b 64)) = []"
    by (simp_all add: vq_wf_def) (simp_all add: example_base_def example_process_def vq_empty_def)
  obtain b1 where b1: "msock_receive (Some 1) None ?b = Inr b1" "vq_items (inbox (procs b1 64)) = [2000, 2001]"
    "\<forall>m b2. dispatch_msg_single 64 m b1 = Inr b2 \<longrightarrow> vq_items (inbox (procs b2 64)) = [m]"
    using receive_then_send_loses [of ?b 64 "Some 1" None] p by auto
  have d: "get_domain (Suc 0) ?b = Inr (example_domain 10 64 65 [1000, 1001, 1002])" "p_domain (procs ?b 64) = Some 1"
    using example_domains(2) by (simp, simp add: example_base_def example_process_def)
  obtain x where x: "b1 = set_process 64 x ?b" "p_domain x = Some 1" "\<not> vq_tail (inbox x)"
    using b1(1) p d(2) by (auto simp: msock_receive_def get_current_process_def vq_splice_prepend_def vq_wf_def Let_def)
  have "get_domain (Suc 0) b1 = Inr (example_domain 10 64 65 [1000, 1001, 1002])" using d(1) unfolding x(1) get_domain_frame(1) .
  then have "\<exists>b2. dispatch_msg_single 64 1000 b1 = Inr b2"
    using x(2,3) by (simp add: dispatch_msg_single_def vq_put_def Let_def x(1))
      (auto simp: example_domain_def queue_put_def INIT_QUEUE_ROOT_def)
  then show ?thesis using b1 by blast
qed

end
