(* ===== verification/Lifecycle.thy ===== *)
theory Lifecycle
  imports Running
begin

text \<open>
  Names, identifiers and lives: what a new process, a freed process, a new domain and a registered
  name are known by, and the broadcast of a message to every process of a domain.
\<close>

section \<open>Processes\<close>

lemma process_mallocD:
  assumes "process_malloc s g b = Inr (p, b')"
  obtains d cache zone ram where "get_domain g b = Inr d"
    "b' = set_domain g (d\<lparr>cache_processes := cache\<rparr>) (b\<lparr>zone_processes := zone, memory := ram\<rparr>)"
  using assms by (auto simp: process_malloc_def)

lemma small_gid: "g < 32 \<Longrightarrow> unat (of_nat g :: ulong) = g \<and> unat (ucast (of_nat g :: ulong) :: 32 word) = g"
proof -
  assume g: "g < 32"
  then have a: "unat (of_nat g :: ulong) = g" by (intro unat_of_nat_ulong) simp
  then show ?thesis using g by (simp add: unat_ucast_32)
qed

lemma set_domain_gid: "get_domain g b = Inr d \<Longrightarrow> length (gid_to_domain b) \<le> k \<Longrightarrow> g < k"
  by (auto simp: get_domain_def split: if_splits)

text \<open>
  C23: With a free slot in the table of the domain, \<open>process_new\<close> makes a process with empty queues
  and the given callback, whose pid names the domain and an offset that no process of the domain
  had; from then on the table finds exactly the new process under it, and the others as before.
\<close>

theorem process_new_registers:
  assumes m: "process_malloc s g b = Inr (p, b1)" and d: "get_domain g b = Inr d" and g: "g < 32"
    and um: "umap_wf (poff_to_process d)" "vq_items (free_items (poff_to_process d)) = i # rest"
      "unat (max_counter (poff_to_process d)) \<le> 2 ^ 59"
  shows "\<exists>b' d'. process_new s g cb data hungry b = Inr (p, b') \<and> get_domain g b' = Inr d' \<and>
    (let pid = p_pid (procs b' p) in
       unat (pid_to_gid pid) = g \<and> pid_to_poff pid \<noteq> 0 \<and> umap_abs (poff_to_process d) (pid_to_poff pid) = None \<and>
       umap_wf (poff_to_process d') \<and> umap_abs (poff_to_process d') = (umap_abs (poff_to_process d))(pid_to_poff pid \<mapsto> p)) \<and>
    inbox (procs b' p) = vq_empty \<and> badmatch (procs b' p) = vq_empty \<and>
    receive_callback (procs b' p) = cb \<and> receive_data (procs b' p) = data \<and> p_domain (procs b' p) = Some g \<and>
    list_of_processes d' = p # list_of_processes d \<and> (\<forall>r. r \<noteq> p \<longrightarrow> procs b' r = procs b r) \<and>
    \<not> queue_is_enqueued p (busy_next b')"
proof -
  obtain cache zone ram where b1: "b1 = set_domain g (d\<lparr>cache_processes := cache\<rparr>) (b\<lparr>zone_processes := zone, memory := ram\<rparr>)"
    using process_mallocD [OF m] d by (metis sum.inject(2))
  let ?um = "poff_to_process d"
  obtain no um' where add: "umap_add ?um (Some p) = Inr (no, um')" "no \<noteq> 0" "no \<notin> live_nos ?um"
      "umap_wf um'" "umap_abs um' = (umap_abs ?um)(no \<mapsto> p)"
    using umap_add_spec [OF um(1,2), of p] by blast
  have "unat no < unat (max_counter ?um)" using umap_add_run [OF um(1,2), of "Some p"] add(1) by auto
  then have small: "unat no < 2 ^ 59" using um(3) by simp
  let ?pid = "poff_gid_to_pid no (of_nat g)"
  have pid: "pid_to_poff ?pid = no" "unat (pid_to_gid ?pid) = g"
    using pid_of_parts [OF small, of "of_nat g"] small_gid [OF g] g by simp_all
  have fresh: "umap_abs ?um no = None" using umap_abs_live [of ?um no] add(3) by (cases "umap_abs ?um no") auto
  let ?d2 = "d\<lparr>cache_processes := cache, poff_to_process := um', list_of_processes := p # list_of_processes d,
      list_of_hungry_processes := if hungry then p # list_of_hungry_processes d else list_of_hungry_processes d\<rparr>"
  let ?proc = "\<lparr>inbox = vq_empty, badmatch = vq_empty, receive_callback = cb, receive_data = data, p_domain = Some g, p_pid = ?pid\<rparr>"
  let ?b2 = "(set_process p ?proc (set_domain g ?d2 b1))\<lparr>busy_next := INIT_QUEUE_HEAD p (busy_next b1)\<rparr>"
  have d1: "get_domain g b1 = Inr (d\<lparr>cache_processes := cache\<rparr>)" using d by (simp add: b1 get_set_domain)
  have run: "process_new s g cb data hungry b = Inr (p, ?b2)"
    using d1 add(1,2) by (simp add: process_new_def m Let_def)
  have "get_domain g ?b2 = Inr ?d2" using d1 by (simp add: get_set_domain)
  then show ?thesis unfolding run Let_def
    using pid add(2,4,5) fresh by (auto simp: b1 INIT_QUEUE_HEAD_def queue_is_enqueued_def)
qed

text \<open>
  C24: \<open>process_free\<close> makes the pid of a process unknown to the table of its domain, takes the process
  out of the list of processes, the list of hungry processes and the queue of busy processes, frees the
  messages it had not handled, and gives its chunk back; the other processes, and the names, stay as
  they are. A name that was registered for the process is not freed: it goes on to stand for the pid.
  (The tail of the queue of busy processes is wrong afterwards exactly when the process was the last
  of several in it.)
\<close>

theorem process_free_forgets:
  assumes d: "get_domain g b = Inr d" and p: "p_domain (procs b p) = Some g" "pid_to_poff (p_pid (procs b p)) \<noteq> 0"
    and um: "umap_wf (poff_to_process d)"
    and q: "queue_rep (busy_next b) (queue_of_busy_processes d) q" "queue_is_enqueued p (busy_next b) \<longleftrightarrow> p \<in> set (vq_items q)"
  shows "\<exists>b' d' q'. process_free p b = Inr b' \<and> get_domain g b' = Inr d' \<and>
    umap_wf (poff_to_process d') \<and> umap_abs (poff_to_process d') = (umap_abs (poff_to_process d))(pid_to_poff (p_pid (procs b p)) := None) \<and>
    list_of_processes d' = remove1 p (list_of_processes d) \<and>
    list_of_hungry_processes d' = remove1 p (list_of_hungry_processes d) \<and> name_table b' = name_table b \<and>
    queue_rep (busy_next b') (queue_of_busy_processes d') q' \<and> vq_items q' = remove1 p (vq_items q) \<and>
    (vq_tail q' \<longleftrightarrow> vq_tail q \<and> last (vq_items q) \<noteq> p \<or> vq_tail q \<and> p \<notin> set (vq_items q)) \<and>
    mset (vq_items (cache_messages d')) = mset (vq_items (cache_messages d)) +
      mset (vq_items (inbox (procs b p))) + mset (vq_items (badmatch (procs b p))) \<and>
    vq_items (cache_processes d') = p # vq_items (cache_processes d) \<and>
    p_domain (procs b' p) = None \<and> receive_callback (procs b' p) = None \<and> vq_items (inbox (procs b' p)) = [] \<and>
    (\<forall>r. r \<noteq> p \<longrightarrow> procs b' r = procs b r)"
proof -
  let ?proc = "procs b p" and ?um = "poff_to_process d"
  obtain um' where um': "umap_del ?um (pid_to_poff (p_pid ?proc)) = Inr um'" "umap_wf um'"
      "umap_abs um' = (umap_abs ?um)(pid_to_poff (p_pid ?proc) := None)"
    using umap_del_spec [OF um p(2)] by blast
  have "\<exists>h root q'. (if queue_is_enqueued p (busy_next b)
        then need (queue_slow_del p (busy_next b) (queue_of_busy_processes d))
        else Inr (busy_next b, queue_of_busy_processes d)) = Inr (h, root) \<and> queue_rep h root q' \<and>
      vq_items q' = remove1 p (vq_items q) \<and>
      (vq_tail q' \<longleftrightarrow> vq_tail q \<and> last (vq_items q) \<noteq> p \<or> vq_tail q \<and> p \<notin> set (vq_items q))"
  proof (cases "p \<in> set (vq_items q)")
    case True
    then show ?thesis using queue_slow_del_spec [OF q(1) True] q(2) by fastforce
  next
    case False
    then show ?thesis using q by (intro exI [of _ "busy_next b"] exI [of _ "queue_of_busy_processes d"] exI [of _ q])
      (auto simp: remove1_idem)
  qed
  then obtain h root q' where busy: "(if queue_is_enqueued p (busy_next b)
        then need (queue_slow_del p (busy_next b) (queue_of_busy_processes d))
        else Inr (busy_next b, queue_of_busy_processes d)) = Inr (h, root)" "queue_rep h root q'"
      "vq_items q' = remove1 p (vq_items q)"
      "vq_tail q' \<longleftrightarrow> vq_tail q \<and> last (vq_items q) \<noteq> p \<or> vq_tail q \<and> p \<notin> set (vq_items q)" by blast
  obtain c1 ib where dr1: "drain_message_queue (cache_messages d) (inbox ?proc) = (c1, ib)" by fastforce
  obtain c2 bm where dr2: "drain_message_queue c1 (badmatch ?proc) = (c2, bm)" by fastforce
  note dr = drain_message_queue_spec [OF dr1] drain_message_queue_spec [OF dr2]
  let ?d2 = "d\<lparr>poff_to_process := um', list_of_processes := remove1 p (list_of_processes d),
      queue_of_busy_processes := root, list_of_hungry_processes := remove1 p (list_of_hungry_processes d),
      cache_messages := c2, cache_processes := cache_free p (cache_processes d)\<rparr>"
  let ?proc2 = "?proc\<lparr>inbox := ib, badmatch := bm, p_domain := None, p_pid := 0, receive_data := None, receive_callback := None\<rparr>"
  let ?b2 = "(set_process p ?proc2 (set_domain g ?d2 b))\<lparr>busy_next := h\<rparr>"
  have "process_free p b = Inr ?b2"
    using p(1) d um'(1) busy(1) dr1 dr2 by (simp add: process_free_def Let_def)
  moreover have "get_domain g ?b2 = Inr ?d2" using d by (simp add: get_set_domain)
  moreover have "vq_items (cache_free p (cache_processes d)) = p # vq_items (cache_processes d)"
    using vq.put_head_items by (simp add: cache_free_def)
  moreover have "mset (vq_items c2) = mset (vq_items (cache_messages d)) + mset (vq_items (inbox ?proc)) + mset (vq_items (badmatch ?proc))"
    using dr by (simp add: ac_simps)
  ultimately show ?thesis using um' busy dr
    by (intro exI [of _ ?b2] exI [of _ ?d2] exI [of _ q']) simp
qed

section \<open>Broadcast\<close>

text \<open>The clones \<open>cs\<close> go to the processes \<open>ps\<close>, one each.\<close>

definition cloned :: "addr list \<Rightarrow> addr list \<Rightarrow> addr \<Rightarrow> ('c, 'd, 'u) base \<Rightarrow> ('c, 'd, 'u) base \<Rightarrow> bool" where
  "cloned ps cs m b b' \<longleftrightarrow>
     (\<forall>p c. (p, c) \<in> set (zip ps cs) \<longrightarrow>
        vq_items (inbox (procs b' p)) = vq_items (inbox (procs b p)) @ [c] \<and>
        message_for (m_target (msgs b m)) (m_type (msgs b m)) (m_payload (msgs b m)) (m_sz (msgs b m)) (msgs b' c)) \<and>
     (\<forall>p. p \<notin> set ps \<longrightarrow> procs b' p = procs b p) \<and> (\<forall>x. x \<notin> set cs \<longrightarrow> msgs b' x = msgs b x)"

lemma message_malloc_cached:
  assumes "get_domain g b = Inr d" and "vq_items (cache_messages d) = c # cs"
  shows "\<exists>cache b1. message_malloc s g b = Inr (c, b1) \<and> vq_items cache = cs \<and>
    get_domain g b1 = Inr (d\<lparr>cache_messages := cache\<rparr>) \<and> procs b1 = procs b \<and> msgs b1 = msgs b \<and> busy_next b1 = busy_next b"
proof -
  obtain cache where g: "vq_get (cache_messages d) = (Some c, cache)" "vq_items cache = cs"
    using vq.get_Cons [OF assms(2)] by (cases "vq_get (cache_messages d)") simp
  then show ?thesis using assms(1)
    by (intro exI [of _ cache]) (simp add: message_malloc_def cache_malloc_def get_set_domain)
qed

lemma cloned_Cons:
  assumes 1: "cloned [p] [c] m b b1" and 2: "cloned ps cs m b1 b2" and p: "p \<notin> set ps" and c: "c \<notin> set cs" "c \<noteq> m"
  shows "cloned (p # ps) (c # cs) m b b2"
proof -
  have m: "msgs b1 m = msgs b m" using 1 c(2) unfolding cloned_def by simp
  have r: "procs b2 p = procs b1 p" "msgs b2 c = msgs b1 c" using 2 p c(1) unfolding cloned_def by simp_all
  have f: "procs b1 r = procs b r" if "(r, x) \<in> set (zip ps cs)" for r x
    using 1 p set_zip_leftD [OF that] unfolding cloned_def by auto
  show ?thesis
    unfolding cloned_def
  proof (intro conjI allI impI)
    fix r x assume z: "(r, x) \<in> set (zip (p # ps) (c # cs))"
    show "vq_items (inbox (procs b2 r)) = vq_items (inbox (procs b r)) @ [x]"
      using z 1 2 r f unfolding cloned_def by auto
    show "message_for (m_target (msgs b m)) (m_type (msgs b m)) (m_payload (msgs b m)) (m_sz (msgs b m)) (msgs b2 x)"
      using z 1 2 r m unfolding cloned_def by auto
  qed (use 1 2 in \<open>simp_all add: cloned_def\<close>)
qed

text \<open>One turn of the loop, once there is a chunk.\<close>

lemma clone_step:
  assumes r: "routable g b d q" and p: "p \<in> ran (umap_abs (poff_to_process d))"
    and m: "message_malloc s g b = Inr (c, b1)" "get_domain g b1 = Inr (d\<lparr>cache_messages := cache\<rparr>)"
      "procs b1 = procs b" "msgs b1 = msgs b" "busy_next b1 = busy_next b"
    and sz: "unat (m_sz (msgs b m)) \<le> length (m_payload (msgs b m))"
  obtains b2 b3 d3 q3 where "message_clone s g m b = Inr (c, b2)" "dispatch_msg_single p c b2 = Inr b3"
    "routable g b3 d3 q3" "cloned [p] [c] m b b3" "cache_messages d3 = cache" "list_of_processes d3 = list_of_processes d"
    "poff_to_process d3 = poff_to_process d"
proof -
  let ?om = "msgs b m" let ?n = "unat (m_sz ?om)"
  let ?copy = "?om\<lparr>m_payload := take ?n (m_payload ?om) @ drop ?n (m_payload (msgs b c))\<rparr>"
  let ?b2 = "b1\<lparr>msgs := (msgs b)(c := ?copy)\<rparr>" and ?d1 = "d\<lparr>cache_messages := cache\<rparr>"
  have clone: "message_clone s g m b = Inr (c, ?b2)" using m by (simp add: message_clone_def Let_def)
  have d2: "get_domain g ?b2 = Inr ?d1" using m by simp
  have pp: "p_domain (procs ?b2 p) = Some g" "vq_wf (inbox (procs ?b2 p))"
    "queue_rep (busy_next ?b2) (queue_of_busy_processes ?d1) q" "vq_wf q"
    "vq_items (inbox (procs ?b2 p)) = [] \<Longrightarrow> p \<notin> set (vq_items q)"
    using r p m by (auto simp: routable_def)
  let ?proc = "(procs b p)\<lparr>inbox := snd (vq_put c (inbox (procs b p)))\<rparr>"
  let ?q = "if vq_items (inbox (procs b p)) = [] then snd (vq_put p q) else q"
  obtain h root where x: "dispatch_msg_single p c ?b2 =
      Inr (set_domain g (?d1\<lparr>queue_of_busy_processes := root\<rparr>) ((set_process p ?proc ?b2)\<lparr>busy_next := h\<rparr>))"
    "queue_rep h root ?q"
    using dispatch_msg_single_spec [OF d2 pp(1-4), of c] pp(5) m(3) by auto
  let ?d3 = "?d1\<lparr>queue_of_busy_processes := root\<rparr>"
  let ?b3 = "set_domain g ?d3 ((set_process p ?proc ?b2)\<lparr>busy_next := h\<rparr>)"
  note put = vq.put_items [of "inbox (procs b p)" c] vq.put_invar [of "inbox (procs b p)" c]
    vq.put_items [of q p] vq.put_invar [of q p]
  have w: "vq_wf (inbox (procs b p))" using pp(2) m(3) by simp
  have "get_domain g ?b3 = Inr ?d3" using d2 by (simp add: get_set_domain)
  then have r3: "routable g ?b3 ?d3 ?q" unfolding routable_def using r x(2) put w pp(4) m(3) by (auto simp: routable_def)
  have "message_for (m_target ?om) (m_type ?om) (m_payload ?om) (m_sz ?om) ?copy" using sz by (simp add: message_for_def)
  then have "cloned [p] [c] m b ?b3" using m(3) put(1) [OF w] by (simp add: cloned_def)
  with that [OF clone x(1) r3] show ?thesis by simp
qed

lemma broadcast_loop_spec:
  assumes "routable g b d q" and "set ps \<subseteq> ran (umap_abs (poff_to_process d))" and "distinct ps"
    and "vq_items (cache_messages d) = cs @ rest" and "length cs = length ps" and "distinct cs" and "m \<notin> set cs"
    and "unat (m_sz (msgs b m)) \<le> length (m_payload (msgs b m))"
  shows "\<exists>b' d' q'. broadcast_loop s g m ps b = Inr b' \<and> routable g b' d' q' \<and> cloned ps cs m b b' \<and>
    vq_items (cache_messages d') = rest \<and> list_of_processes d' = list_of_processes d"
  using assms
proof (induction ps arbitrary: b d q cs)
  case Nil
  then show ?case by (intro exI [of _ b] exI [of _ d] exI [of _ q]) (simp add: cloned_def)
next
  case (Cons p ps)
  obtain c cs1 where cs: "cs = c # cs1" "length cs1 = length ps" using Cons.prems(5) by (cases cs) auto
  have d: "get_domain g b = Inr d" using Cons.prems(1) by (simp add: routable_def)
  obtain cache b1 where b1: "message_malloc s g b = Inr (c, b1)" "vq_items cache = cs1 @ rest"
      "get_domain g b1 = Inr (d\<lparr>cache_messages := cache\<rparr>)" "procs b1 = procs b" "msgs b1 = msgs b" "busy_next b1 = busy_next b"
    using message_malloc_cached [OF d, of c "cs1 @ rest" s] Cons.prems(4) cs(1) by auto
  have p: "p \<in> ran (umap_abs (poff_to_process d))" "p \<notin> set ps" using Cons.prems(2,3) by simp_all
  obtain b2 b3 d3 q3 where x: "message_clone s g m b = Inr (c, b2)" "dispatch_msg_single p c b2 = Inr b3"
    "routable g b3 d3 q3" "cloned [p] [c] m b b3" "cache_messages d3 = cache" "list_of_processes d3 = list_of_processes d"
    "poff_to_process d3 = poff_to_process d"
    by (rule clone_step [OF Cons.prems(1) p(1) b1(1,3-6) Cons.prems(8)])
  have cm: "c \<noteq> m" "m \<notin> set cs1" "c \<notin> set cs1" using Cons.prems(6,7) cs(1) by auto
  have "msgs b3 m = msgs b m" using x(4) cm(1) unfolding cloned_def by simp
  then obtain b4 d4 q4 where IH: "broadcast_loop s g m ps b3 = Inr b4" "routable g b4 d4 q4" "cloned ps cs1 m b3 b4"
      "vq_items (cache_messages d4) = rest" "list_of_processes d4 = list_of_processes d3"
    using Cons.IH [OF x(3), of cs1] Cons.prems(2,3,6,8) cs cm b1(2) x(5,7) by auto
  have "cloned (p # ps) cs m b b4" unfolding cs(1) by (rule cloned_Cons [OF x(4) IH(3) p(2) cm(3,1)])
  then show ?case using x(1,2,6) IH by auto
qed

text \<open>
  With a chunk in the cache for every process, a broadcast in a domain gives every process of the
  domain exactly one copy of the message, with its target, type, size and payload, in a chunk of its own, at the
  end of its inbox; the original is freed. The general case is in the theory \<open>Broadcast\<close>.
\<close>

theorem broadcast_from_cache:
  assumes "routable g b d q" and "set (list_of_processes d) \<subseteq> ran (umap_abs (poff_to_process d))"
    and "distinct (list_of_processes d)" and "vq_items (cache_messages d) = cs @ rest"
    and "length cs = length (list_of_processes d)" and "distinct cs" and "m \<notin> set cs"
    and "unat (m_sz (msgs b m)) \<le> length (m_payload (msgs b m))"
  shows "\<exists>b' d' q'. dispatch_msg_broadcast s g m b = Inr b' \<and> routable g b' d' q' \<and>
    cloned (list_of_processes d) cs m b b' \<and> vq_items (cache_messages d') = m # rest"
proof -
  obtain b1 d1 q1 where b1: "broadcast_loop s g m (list_of_processes d) b = Inr b1" "routable g b1 d1 q1"
    "cloned (list_of_processes d) cs m b b1" "vq_items (cache_messages d1) = rest"
    using broadcast_loop_spec [OF assms] by blast
  have d: "get_domain g b = Inr d" "get_domain g b1 = Inr d1" using assms(1) b1(2) by (simp_all add: routable_def)
  let ?d2 = "d1\<lparr>cache_messages := cache_free m (cache_messages d1)\<rparr>"
  have "dispatch_msg_broadcast s g m b = Inr (set_domain g ?d2 b1)"
    using d b1(1) by (simp add: dispatch_msg_broadcast_def message_free_def)
  moreover have "routable g (set_domain g ?d2 b1) ?d2 q1" using b1(2) d(2) by (simp add: routable_def get_set_domain)
  moreover have "cloned (list_of_processes d) cs m b (set_domain g ?d2 b1)" using b1(3) by (simp add: cloned_def)
  moreover have "vq_items (cache_messages ?d2) = m # rest" using vq.put_head_items [of m "cache_messages d1"] b1(4) by (simp add: cache_free_def)
  ultimately show ?thesis by blast
qed

section \<open>Names and domains\<close>

text \<open>
  A name (an offset below 32, with no domain) can be registered once: from then on it stands for
  the pid it was registered for, the other names stand for what they did, and a second registration
  of it ends the program.
\<close>

theorem msock_register_once:
  assumes "length (name_table b) = MAX_REG_NAMES" and "pid_to_gid name = 0" and "unat (pid_to_poff name) < MAX_REG_NAMES"
    and "name_table b ! unat (pid_to_poff name) = 0" and "pid \<noteq> 0"
  shows "\<exists>b'. msock_register pid name b = Inr b' \<and> name_to_pid name b' = Inr pid \<and>
    (\<forall>other. pid_to_poff other \<noteq> pid_to_poff name \<longrightarrow> name_to_pid other b' = name_to_pid other b) \<and>
    (\<forall>pid'. msock_register pid' name b' = Inl (Fatal ''Name already taken.''))"
proof -
  have "\<not> of_nat MAX_REG_NAMES \<le> pid_to_poff name"
    using assms(3) by (simp add: word_le_nat_alt MAX_REG_NAMES_def)
  moreover have "unat (pid_to_poff name) = unat (pid_to_poff other) \<longleftrightarrow> pid_to_poff other = pid_to_poff name" for other
    by (auto simp: word_unat_eq_iff)
  ultimately show ?thesis using assms by (auto simp: msock_register_def name_to_pid_def Let_def nth_list_update)
qed

text \<open>
  A new domain gets the smallest gid that is free, starting at 1, and with empty queues; the
  other domains stay as they are. When the gids 1 to 4 are taken the program ends.
\<close>

theorem domain_new_smallest_gid:
  assumes "length (gid_to_domain b) = MAX_DOMAINS"
  shows "if \<forall>g \<in> {1 ..< MAX_DOMAINS}. gid_to_domain b ! g \<noteq> None
    then domain_new prot data n b = Inl (Fatal ''Too many domains.'')
    else \<exists>g b' d. domain_new prot data n b = Inr (g, b') \<and> 0 < g \<and> g < MAX_DOMAINS \<and>
       gid_to_domain b ! g = None \<and> (\<forall>h \<in> {1 ..< g}. gid_to_domain b ! h \<noteq> None) \<and>
       get_domain g b' = Inr d \<and> proto d = prot \<and> ingress_callback_data d = data \<and> list_of_processes d = [] \<and>
       outbox d = replicate MAX_DOMAINS vq_empty \<and>
       remote_inbox d = vq_empty \<and> list_of_domains b' = list_of_domains b @ [g] \<and>
       (\<forall>h. h \<noteq> g \<longrightarrow> get_domain h b' = get_domain h b)"
proof (cases "find (\<lambda>gid. gid_to_domain b ! gid = None) [1 ..< MAX_DOMAINS]")
  case None
  then have "\<forall>g \<in> {1 ..< MAX_DOMAINS}. gid_to_domain b ! g \<noteq> None" by (simp add: find_None_iff)
  then show ?thesis using None by (simp add: domain_new_def find_free_gid_def)
next
  case (Some g)
  then obtain i where i: "i < length [1 ..< MAX_DOMAINS]" "g = [1 ..< MAX_DOMAINS] ! i" "gid_to_domain b ! g = None"
    "\<forall>j < i. gid_to_domain b ! ([1 ..< MAX_DOMAINS] ! j) \<noteq> None" by (auto simp: find_Some_iff)
  have g: "g = Suc i" "g < MAX_DOMAINS" using i(1,2) by auto
  have least: "gid_to_domain b ! h \<noteq> None" if "h \<in> {1 ..< g}" for h
    using i(4) [rule_format, of "h - 1"] i(1) g that by auto
  have "\<not> (\<forall>g \<in> {1 ..< MAX_DOMAINS}. gid_to_domain b ! g \<noteq> None)" using i(3) g by auto
  then show ?thesis using Some i(3) g least assms
    by (auto simp: domain_new_def find_free_gid_def get_domain_def set_domain_def Let_def nth_list_update)
qed

section \<open>Examples\<close>

text \<open>The domain 1 with an empty table for two processes and a free chunk for a process at 200.\<close>

definition example_fresh :: "nat domain" where
  "example_fresh = (example_domain 10 64 65 [])\<lparr>poff_to_process := umap_new 2 (2 ^ 59 - 1),
     cache_processes := \<lparr>vq_items = [200], vq_tail = True\<rparr>, list_of_processes := []\<rparr>"

theorem process_new_registers_witness:
  "\<exists>b' d'. process_new example_surroundings 1 (Some 5) None False (set_domain 1 example_fresh example_base) = Inr (200, b') \<and>
     get_domain 1 b' = Inr d' \<and> list_of_processes d' = [200] \<and> unat (pid_to_gid (p_pid (procs b' 200))) = 1"
proof -
  let ?b = "set_domain 1 example_fresh example_base"
  have d: "get_domain 1 ?b = Inr example_fresh" by (simp add: get_set_domain [OF example_domains(2)])
  then have m: "\<exists>b1. process_malloc example_surroundings 1 ?b = Inr (200, b1)"
    by (simp add: process_malloc_def cache_malloc_def vq_get_def example_fresh_def)
  have u: "poff_to_process example_fresh = umap_new 2 (2 ^ 59 - 1)" by (simp add: example_fresh_def)
  have um: "umap_wf (poff_to_process example_fresh)" "vq_items (free_items (poff_to_process example_fresh)) = 0 # [1]"
    "unat (max_counter (poff_to_process example_fresh)) \<le> 2 ^ 59"
  proof -
    show "umap_wf (poff_to_process example_fresh)" unfolding u by (rule umap_new_wf; simp)
  qed (simp_all add: u umap_new_items upt_rec, simp add: umap_new_def)
  have l: "list_of_processes example_fresh = []" by (simp add: example_fresh_def)
  from m obtain b1 where "process_malloc example_surroundings 1 ?b = Inr (200, b1)" by blast
  from process_new_registers [OF this d _ um, of "Some 5" None False] show ?thesis by (auto simp: l Let_def)
qed

theorem process_free_forgets_witness:
  "\<exists>b' d'. process_free 64 (set_domain 1 ((example_domain 10 64 65 [1000, 1001, 1002])\<lparr>list_of_hungry_processes := [65, 64]\<rparr>) example_base) = Inr b' \<and>
     get_domain 1 b' = Inr d' \<and> list_of_processes d' = [65] \<and> list_of_hungry_processes d' = [65] \<and>
     umap_abs (poff_to_process d') 3 = None \<and> vq_items (cache_processes d') = [64]"
proof -
  let ?d = "(example_domain 10 64 65 [1000, 1001, 1002])\<lparr>list_of_hungry_processes := [65, 64]\<rparr>"
  let ?b = "set_domain 1 ?d example_base"
  have d: "get_domain 1 ?b = Inr ?d" by (simp add: get_set_domain [OF example_domains(2)])
  have p: "p_domain (procs ?b 64) = Some 1" "p_pid (procs ?b 64) = poff_gid_to_pid 3 1"
    by (simp_all add: example_base_def example_process_def)
  have q: "queue_rep (busy_next ?b) (queue_of_busy_processes ?d) vq_empty"
    "queue_is_enqueued 64 (busy_next ?b) \<longleftrightarrow> 64 \<in> set (vq_items vq_empty)"
    by (simp_all add: example_domain_def) (simp add: example_base_def queue_is_enqueued_def)
  have um: "umap_wf (poff_to_process ?d)" by (simp add: example_domain_def example_umap_wf)
  have e: "list_of_processes ?d = [64, 65]" "vq_items (cache_processes ?d) = []" "list_of_hungry_processes ?d = [65, 64]"
    by (simp_all add: example_domain_def)
  have "pid_to_poff (p_pid (procs ?b 64)) = 3" unfolding p(2) by (rule example_parts)
  then obtain b' d' where "process_free 64 ?b = Inr b'" "get_domain 1 b' = Inr d'" "list_of_processes d' = remove1 64 [64, 65]"
    "list_of_hungry_processes d' = remove1 64 [65, 64]" "umap_abs (poff_to_process d') = (umap_abs (poff_to_process ?d))(3 := None)"
    "vq_items (cache_processes d') = [64]"
    using process_free_forgets [OF d p(1) _ um q] unfolding e by auto
  then show ?thesis by auto
qed

text \<open>Domain 1 sends the message 1002 to its two processes.\<close>

theorem broadcast_from_cache_witness:
  "\<exists>b' d'. dispatch_msg_broadcast example_surroundings 1 1002 (set_domain 1 (example_domain 10 64 65 [1000, 1001]) example_base) = Inr b' \<and>
     get_domain 1 b' = Inr d' \<and> vq_items (inbox (procs b' 64)) = [1000] \<and> vq_items (inbox (procs b' 65)) = [1001]"
proof -
  let ?d = "example_domain 10 64 65 [1000, 1001]"
  let ?b = "set_domain 1 ?d example_base"
  have d: "get_domain 1 ?b = Inr ?d" by (simp add: get_set_domain [OF example_domains(2)])
  have r: "routable 1 ?b ?d vq_empty"
    by (rule example_routable [OF d, of 64 65])
      (auto simp: example_domain_def example_base_def example_process_def)
  have ran: "set (list_of_processes ?d) \<subseteq> ran (umap_abs (poff_to_process ?d))"
    using example_route(1,2) [of 10 64 65 "[1000, 1001]"] by (auto simp: example_domain_def ran_def)
  have l: "list_of_processes ?d = [64, 65]" "vq_items (cache_messages ?d) = [1000, 1001] @ []"
    "unat (m_sz (msgs ?b 1002)) \<le> length (m_payload (msgs ?b 1002))" "inbox (procs ?b x) = vq_empty" for x
    by (simp_all add: example_domain_def) (simp_all add: example_base_def blank_message_def example_process_def)
  have di: "distinct (list_of_processes ?d)" "length [1000 :: addr, 1001] = length (list_of_processes ?d)" by (simp_all add: l)
  obtain b' d' q' where b': "dispatch_msg_broadcast example_surroundings 1 1002 ?b = Inr b'" "routable 1 b' d' q'"
    "cloned (list_of_processes ?d) [1000, 1001] 1002 ?b b'"
    using broadcast_from_cache [OF r ran di(1) l(2) di(2) _ _ l(3), of example_surroundings] by auto
  have "vq_items (inbox (procs b' 64)) = [1000]" "vq_items (inbox (procs b' 65)) = [1001]"
    using b'(3) l(4) unfolding cloned_def l(1) by simp_all
  then show ?thesis using b'(1,2) by (auto simp: routable_def)
qed

theorem msock_register_once_witness:
  "\<exists>b'. msock_register 99 PID_SELECT example_base = Inr b' \<and> name_to_pid PID_SELECT b' = Inr 99 \<and>
     msock_register 98 PID_SELECT b' = Inl (Fatal ''Name already taken.'')"
proof -
  have n: "pid_to_gid PID_SELECT = 0" "pid_to_poff PID_SELECT = 1"
    using pid_of_parts [of 1 0] by (simp_all add: PID_SELECT_def poff_gid_to_pid_def)
  have t: "length (name_table example_base) = MAX_REG_NAMES" "name_table example_base ! 1 = 0"
    by (simp_all add: example_base_def MAX_REG_NAMES_def)
  show ?thesis using msock_register_once [OF t(1) n(1), of 99] n t by (auto simp: MAX_REG_NAMES_def)
qed

theorem domain_new_smallest_gid_witness:
  "\<exists>b'. domain_new 30 None 4 example_base = Inr (3, b')"
proof -
  have t: "length (gid_to_domain example_base) = MAX_DOMAINS" by (simp add: example_base_def MAX_DOMAINS_def)
  have v: "gid_to_domain example_base ! 1 \<noteq> None" "gid_to_domain example_base ! 2 \<noteq> None" "gid_to_domain example_base ! 3 = None"
    by (simp_all add: example_base_def)
  then have taken: "\<not> (\<forall>g \<in> {1 ..< MAX_DOMAINS}. gid_to_domain example_base ! g \<noteq> None)" by (auto simp: MAX_DOMAINS_def)
  obtain g b' where g: "domain_new 30 None 4 example_base = Inr (g, b')" "0 < g" "gid_to_domain example_base ! g = None"
    "\<forall>h \<in> {1 ..< g}. gid_to_domain example_base ! h \<noteq> None"
    using domain_new_smallest_gid [OF t, of 30 None 4] unfolding if_not_P [OF taken] by blast
  have "g \<noteq> 1" "g \<noteq> 2" using g(3) v by auto
  moreover have "\<not> 3 < g" using bspec [OF g(4), of 3] v(3) by (cases "3 < g") auto
  ultimately have "g = 3" using g(2) by linarith
  then show ?thesis using g(1) by blast
qed

end
