(* ===== verification/Ownership.thy ===== *)
theory Ownership
  imports Lifecycle
begin

text \<open>
  Who owns a chunk: an invariant of the whole state of the library. Every message is in at most one
  place (a cache, an inbox, an outbox, a queue of a process, or in the hands of the code that runs),
  every process is live in at most one domain or in one cache, all these chunks are chunks of live
  pages of their zone, the two zones share no page, and the table of each domain leads exactly to
  its live processes. Every operation that callbacks, processes, domains and workers run keeps it.
\<close>

section \<open>The places\<close>

definition over_domains :: "('d domain \<Rightarrow> addr multiset) \<Rightarrow> ('c, 'd, 'u) base \<Rightarrow> addr multiset" where
  "over_domains f b = (\<Sum>x \<leftarrow> gid_to_domain b. case x of None \<Rightarrow> {#} | Some d \<Rightarrow> f d)"

definition domain_msgs :: "'d domain \<Rightarrow> addr multiset" where
  "domain_msgs d = mset (vq_items (cache_messages d)) + mset (vq_items (remote_inbox d)) +
     mset (vq_items (local_inbox d)) + (\<Sum>q \<leftarrow> outbox d. mset (vq_items q))"

definition process_msgs :: "('c, 'd) process \<Rightarrow> addr multiset" where
  "process_msgs x = mset (vq_items (inbox x)) + mset (vq_items (badmatch x))"

definition live_processes :: "('c, 'd, 'u) base \<Rightarrow> addr multiset" where
  "live_processes b = over_domains (\<lambda>d. mset (list_of_processes d)) b"

definition message_places :: "('c, 'd, 'u) base \<Rightarrow> addr multiset" where
  "message_places b = over_domains domain_msgs b + (\<Sum>p \<in># live_processes b. process_msgs (procs b p))"

definition process_places :: "('c, 'd, 'u) base \<Rightarrow> addr multiset" where
  "process_places b = over_domains (\<lambda>d. mset (vq_items (cache_processes d))) b + live_processes b"

section \<open>The invariant\<close>

text \<open>The table of the domain \<open>g\<close> leads exactly to its live processes.\<close>

definition table_ok :: "nat \<Rightarrow> 'd domain \<Rightarrow> (addr \<Rightarrow> ('c, 'd) process) \<Rightarrow> bool" where
  "table_ok g d ps \<longleftrightarrow> umap_wf (poff_to_process d) \<and> unat (max_counter (poff_to_process d)) < 2 ^ 59 \<and>
     (\<forall>p \<in> set (list_of_processes d). p_domain (ps p) = Some g) \<and>
     (\<forall>no p. umap_abs (poff_to_process d) no = Some p \<longleftrightarrow>
        p \<in> set (list_of_processes d) \<and> no = pid_to_poff (p_pid (ps p)))"

definition domain_ok :: "nat \<Rightarrow> 'd domain \<Rightarrow> (addr \<Rightarrow> ('c, 'd) process) \<Rightarrow> bool" where
  "domain_ok g d ps \<longleftrightarrow> g < MAX_DOMAINS \<and> length (outbox d) = MAX_DOMAINS \<and> vq_wf (cache_messages d) \<and> vq_wf (cache_processes d) \<and> table_ok g d ps"

text \<open>The two zones account for their chunks, and the given ones are among those outside the pages.\<close>

definition zones_ok :: "mem_zone \<Rightarrow> mem_zone \<Rightarrow> ram \<Rightarrow> addr multiset \<Rightarrow> addr multiset \<Rightarrow> bool" where
  "zones_ok zm zp ram ms ps \<longleftrightarrow> (\<exists>om op hm hp.
     alloc_wf zm ram om hm \<and> no_full_page zm ram om \<and> alloc_wf zp ram op hp \<and> no_full_page zp ram op \<and>
     om \<inter> op = {} \<and> ms \<subseteq># hm \<and> ps \<subseteq># hp)"

text \<open>\<open>ms\<close> are messages in the hands of the code that runs; \<open>ps\<close> are processes known to be live.\<close>

definition owned :: "addr multiset \<Rightarrow> addr set \<Rightarrow> ('c, 'd, 'u) base \<Rightarrow> bool" where
  "owned ms ps b \<longleftrightarrow>
     zones_ok (zone_messages b) (zone_processes b) (memory b) (message_places b + ms) (process_places b) \<and>
     (\<forall>g d. get_domain g b = Inr d \<longrightarrow> domain_ok g d (procs b)) \<and>
     (\<forall>p. p \<notin># live_processes b \<longrightarrow> process_msgs (procs b p) = {#}) \<and>
     ps \<subseteq> set_mset (live_processes b)"

section \<open>Moving one domain or one process\<close>

lemma over_domains_set:
  assumes "get_domain g b = Inr d"
  shows "over_domains f (set_domain g d' b) + f d = over_domains f b + f d'"
proof -
  let ?h = "\<lambda>x. case x of None \<Rightarrow> {#} | Some d \<Rightarrow> f d"
  have "(\<Sum>x \<leftarrow> xs[i := y]. ?h x) + ?h (xs ! i) = (\<Sum>x \<leftarrow> xs. ?h x) + ?h y" if "i < length xs" for xs i y
    using that
  proof (induction xs arbitrary: i)
    case (Cons z zs)
    then show ?case by (cases i) (simp_all add: ac_simps)
  qed simp
  from this [of g "gid_to_domain b" "Some d'"] assms show ?thesis
    by (simp add: over_domains_def set_domain_def get_domain_def split: if_splits)
qed

lemma over_domains_in:
  assumes "get_domain g b = Inr d"
  shows "f d \<subseteq># over_domains f b"
proof -
  have "Some d \<in> set (gid_to_domain b)"
    using assms by (auto simp: get_domain_def split: if_splits) (metis nth_mem)
  then obtain xs ys where "gid_to_domain b = xs @ Some d # ys" by (auto simp: in_set_conv_decomp)
  then show ?thesis by (simp add: over_domains_def)
qed

lemma over_domains_cong:
  assumes "\<And>g d. get_domain g b = Inr d \<Longrightarrow> f d = f' d"
  shows "over_domains f b = over_domains f' b"
  unfolding over_domains_def
proof (rule arg_cong [where f = sum_list], rule map_cong [OF refl])
  fix x assume "x \<in> set (gid_to_domain b)"
  then obtain g where "g < length (gid_to_domain b)" "gid_to_domain b ! g = x" by (auto simp: in_set_conv_nth)
  then show "(case x of None \<Rightarrow> {#} | Some d \<Rightarrow> f d) = (case x of None \<Rightarrow> {#} | Some d \<Rightarrow> f' d)"
    using assms [of g] by (cases x) (simp_all add: get_domain_def)
qed

lemma over_domains_frame [simp]:
  "over_domains f (set_process p x b) = over_domains f b"
  "over_domains f (b\<lparr>memory := r\<rparr>) = over_domains f b"
  "over_domains f (b\<lparr>msgs := mm\<rparr>) = over_domains f b"
  "over_domains f (b\<lparr>busy_next := bn\<rparr>) = over_domains f b"
  "over_domains f (b\<lparr>zone_messages := zm\<rparr>) = over_domains f b"
  "over_domains f (b\<lparr>zone_processes := zp\<rparr>) = over_domains f b"
  "over_domains f (b\<lparr>current_process := c\<rparr>) = over_domains f b"
  "over_domains f (b\<lparr>world := u\<rparr>) = over_domains f b"
  "over_domains f (b\<lparr>queue_of_domains := qd\<rparr>) = over_domains f b"
  "over_domains f (b\<lparr>list_of_domains := ld\<rparr>) = over_domains f b"
  "over_domains f (b\<lparr>name_table := nt\<rparr>) = over_domains f b"
  by (simp_all add: over_domains_def set_process_def)

lemma zones_process [simp]:
  "zone_messages (set_process p x b) = zone_messages b" "zone_processes (set_process p x b) = zone_processes b"
  "memory (set_process p x b) = memory b"
  by (simp_all add: set_process_def)

lemma places_frame [simp]:
  "live_processes (set_process p x b) = live_processes b"
  "live_processes (b\<lparr>memory := r\<rparr>) = live_processes b" "message_places (b\<lparr>memory := r\<rparr>) = message_places b"
  "process_places (b\<lparr>memory := r\<rparr>) = process_places b" "process_places (set_process p x b) = process_places b"
  "live_processes (b\<lparr>zone_messages := zm\<rparr>) = live_processes b" "message_places (b\<lparr>zone_messages := zm\<rparr>) = message_places b"
  "process_places (b\<lparr>zone_messages := zm\<rparr>) = process_places b" "live_processes (b\<lparr>zone_processes := zp\<rparr>) = live_processes b"
  "message_places (b\<lparr>zone_processes := zp\<rparr>) = message_places b" "process_places (b\<lparr>zone_processes := zp\<rparr>) = process_places b"
  by (simp_all add: live_processes_def message_places_def process_places_def)

text \<open>What the invariant does not look at.\<close>

lemma owned_frame [simp]:
  "owned ms ps (b\<lparr>msgs := mm\<rparr>) = owned ms ps b"
  "owned ms ps (b\<lparr>busy_next := bn\<rparr>) = owned ms ps b"
  "owned ms ps (b\<lparr>current_process := c\<rparr>) = owned ms ps b"
  "owned ms ps (b\<lparr>world := u\<rparr>) = owned ms ps b"
  "owned ms ps (b\<lparr>queue_of_domains := qd\<rparr>) = owned ms ps b"
  "owned ms ps (b\<lparr>list_of_domains := ld\<rparr>) = owned ms ps b"
  "owned ms ps (b\<lparr>name_table := nt\<rparr>) = owned ms ps b"
  by (simp_all add: owned_def live_processes_def message_places_def process_places_def get_domain_def)

lemma zones_ok_mono:
  "zones_ok zm zp ram ms ps \<Longrightarrow> ms' \<subseteq># ms \<Longrightarrow> ps' \<subseteq># ps \<Longrightarrow> zones_ok zm zp ram ms' ps'"
  unfolding zones_ok_def by (metis subset_mset.order_trans)

text \<open>No chunk is in two places.\<close>

lemma zones_ok_distinct:
  assumes "zones_ok zm zp ram ms ps"
  shows "count ms c \<le> 1" and "count ps c \<le> 1"
  using assms unfolding zones_ok_def
  by (meson alloc_wf_held_distinct le_trans mset_subset_eq_count)+

lemma owned_live_once: "owned ms ps b \<Longrightarrow> count (live_processes b) p \<le> 1"
  using zones_ok_distinct(2) [of "zone_messages b" "zone_processes b" "memory b" "message_places b + ms" "process_places b" p]
  by (simp add: owned_def process_places_def)

lemma live_somewhere:
  assumes "p \<in># live_processes b"
  obtains g d where "get_domain g b = Inr d" "p \<in> set (list_of_processes d)"
proof -
  have "\<exists>x \<in> set xs. p \<in># h x" if "p \<in># (\<Sum>x \<leftarrow> xs. h x)" for h :: "'d domain option \<Rightarrow> addr multiset" and xs
    using that by (induction xs) auto
  from this [OF assms [unfolded live_processes_def over_domains_def]] obtain d
    where "Some d \<in> set (gid_to_domain b)" "p \<in> set (list_of_processes d)"
    by (auto split: option.splits)
  then obtain g where "g < length (gid_to_domain b)" "gid_to_domain b ! g = Some d" "p \<in> set (list_of_processes d)"
    by (auto simp: in_set_conv_nth)
  then show ?thesis by (intro that [of g d]) (simp_all add: get_domain_def)
qed

lemma live_in_domain: "get_domain g b = Inr d \<Longrightarrow> p \<in> set (list_of_processes d) \<Longrightarrow> p \<in># live_processes b"
  unfolding live_processes_def by (metis mset_subset_eqD over_domains_in set_mset_mset)


lemma live_set_domain:
  assumes "get_domain g b = Inr d"
  shows "live_processes (set_domain g d' b) + mset (list_of_processes d) = live_processes b + mset (list_of_processes d')"
  unfolding live_processes_def by (rule over_domains_set [OF assms])

text \<open>Two steps of the code: the queues of a domain change, or those of a process. What they hold and
  what is in hand afterwards was there before.\<close>

lemma keeps_domain:
  assumes o: "owned ms ps b" and d: "get_domain g b = Inr d"
    and m: "domain_msgs d' + ms' \<subseteq># domain_msgs d + ms"
    and s: "cache_processes d' = cache_processes d" "list_of_processes d' = list_of_processes d" "length (outbox d') = length (outbox d)"
      "poff_to_process d' = poff_to_process d" "vq_wf (cache_messages d')"
  shows "owned ms' ps (set_domain g d' b)"
proof -
  let ?b = "set_domain g d' b"
  have l: "live_processes ?b = live_processes b" using live_set_domain [OF d, of d'] s(2) by simp
  have "process_places ?b = process_places b"
    using over_domains_set [OF d, of "\<lambda>d. mset (vq_items (cache_processes d))" d'] s(1) by (simp add: process_places_def l)
  moreover have "message_places ?b + domain_msgs d = message_places b + domain_msgs d'"
    using over_domains_set [OF d, of domain_msgs d'] by (simp add: message_places_def l ac_simps)
  then have "message_places ?b + ms' + domain_msgs d = message_places b + (domain_msgs d' + ms')" by (simp add: ac_simps)
  then have "message_places ?b + ms' + domain_msgs d \<subseteq># message_places b + ms + domain_msgs d"
    using m by (simp add: ac_simps)
  then have "message_places ?b + ms' \<subseteq># message_places b + ms" by simp
  moreover have "domain_ok h e (procs b)" if "get_domain h ?b = Inr e" for h e
    using that o d s unfolding owned_def get_set_domain [OF d]
    by (cases "h = g") (auto simp: domain_ok_def table_ok_def)
  ultimately show ?thesis
    using o unfolding owned_def l by (auto elim: zones_ok_mono)
qed

lemma sum_fun_upd:
  "p \<notin># L \<Longrightarrow> (\<Sum>q \<in># L. f ((h(p := x)) q)) = (\<Sum>q \<in># L. f (h q))"
  by (rule arg_cong [where f = sum_mset], rule image_mset_cong) auto

lemma message_places_process:
  assumes "owned ms ps b" and "p \<in># live_processes b"
  shows "message_places (set_process p x b) + process_msgs (procs b p) = message_places b + process_msgs x"
proof -
  obtain L where L: "live_processes b = add_mset p L" using assms(2) by (metis mset_add)
  have "p \<notin># L" using owned_live_once [OF assms(1), of p] unfolding L by (simp add: not_in_iff)
  from sum_fun_upd [OF this] show ?thesis by (simp add: message_places_def L ac_simps)
qed

lemma table_ok_process:
  assumes "table_ok g d ps" and "p_pid x = p_pid (ps p)" and "p_domain x = p_domain (ps p)"
  shows "table_ok g d (ps(p := x))"
  using assms unfolding table_ok_def by (simp add: fun_upd_def)

lemma keeps_process:
  assumes o: "owned ms ps b" and m: "process_msgs x + ms' \<subseteq># process_msgs (procs b p) + ms"
    and p: "p \<in># live_processes b \<or> process_msgs x = {#}"
    and s: "p_pid x = p_pid (procs b p)" "p_domain x = p_domain (procs b p)"
  shows "owned ms' ps (set_process p x b)"
proof -
  let ?b = "set_process p x b"
  have "message_places ?b + ms' \<subseteq># message_places b + ms"
  proof (cases "p \<in># live_processes b")
    case True
    have "message_places ?b + ms' + process_msgs (procs b p) = message_places b + (process_msgs x + ms')"
      using message_places_process [OF o True, of x] by (simp add: ac_simps)
    then have "message_places ?b + ms' + process_msgs (procs b p) \<subseteq># message_places b + ms + process_msgs (procs b p)"
      using m by (simp add: ac_simps)
    then show ?thesis by simp
  next
    case False
    then have "process_msgs (procs b p) = {#}" using o by (simp add: owned_def)
    then have "ms' \<subseteq># ms" using m p False by simp
    moreover have "message_places ?b = message_places b"
      by (simp only: message_places_def over_domains_frame(1) places_frame(1) set_process_sel(1) sum_fun_upd [OF False])
    ultimately show ?thesis by simp
  qed
  moreover have "domain_ok h e (procs ?b)" if "get_domain h ?b = Inr e" for h e
    using that o table_ok_process [where ps = "procs b" and g = h and d = e, OF _ s] unfolding owned_def by (simp add: domain_ok_def)
  ultimately show ?thesis
    using o p unfolding owned_def by (auto elim: zones_ok_mono)
qed


section \<open>Memory\<close>

lemma alloc_wf_frame:
  assumes "alloc_wf zone ram own held" and "\<forall>p \<in> own. pages ram' p = pages ram p"
  shows "alloc_wf zone ram' own held"
proof -
  have "(\<Sum>p \<in> own. pg_free (the (pages ram' p))) = (\<Sum>p \<in> own. pg_free (the (pages ram p)))"
    by (rule sum.cong) (simp_all add: assms(2))
  moreover have "{p \<in> own. \<exists>pg. pages ram' p = Some pg \<and> 0 < pg_free pg} = {p \<in> own. \<exists>pg. pages ram p = Some pg \<and> 0 < pg_free pg}"
    using assms(2) by auto
  moreover have "\<forall>p \<in> own. page_wf zone ram' held p"
    using assms page_wf_cong [of zone zone ram' _ ram held held] by (simp add: alloc_wf_def)
  ultimately show ?thesis using assms(1) by (simp add: alloc_wf_def)
qed

lemma no_full_page_frame:
  "no_full_page zone ram own \<Longrightarrow> \<forall>p \<in> own. pages ram' p = pages ram p \<Longrightarrow> no_full_page zone ram' own"
  by (simp add: no_full_page_def)

text \<open>What is asked of the first zone is asked of the second.\<close>

lemma zones_ok_swap: "zones_ok zm zp ram ms ps \<longleftrightarrow> zones_ok zp zm ram ps ms"
  unfolding zones_ok_def by (rule iffI; elim exE; metis inf_commute)

lemma zones_ok_malloc:
  assumes os: "os_ok os" and z: "zones_ok zm zp ram ms ps" and c: "mset (vq_items cache) \<subseteq># ms" "vq_wf cache"
    and run: "cache_malloc os cache zm ram = Inr (m, cache', zm', ram')"
  shows "zones_ok zm' zp ram' (ms - mset (vq_items cache) + add_mset m (mset (vq_items cache'))) ps \<and> vq_wf cache'"
proof -
  from z obtain om op hm hp where w: "alloc_wf zm ram om hm" "no_full_page zm ram om" "alloc_wf zp ram op hp"
    "no_full_page zp ram op" "om \<inter> op = {}" "ms \<subseteq># hm" "ps \<subseteq># hp"
    unfolding zones_ok_def by blast
  define out where "out = hm - mset (vq_items cache)"
  have "mset (vq_items cache) \<subseteq># hm" using c(1) w(6) by (rule subset_mset.order_trans)
  then have hm: "hm = mset (vq_items cache) + out" by (simp add: out_def)
  obtain om' where n: "om \<subseteq> om'" "alloc_wf zm' ram' om' (mset (vq_items cache') + add_mset m out)" "vq_wf cache'"
    "no_full_page zm' ram' om'" "\<forall>p \<in> dom (pages ram) - om. p \<notin> om' \<and> pages ram' p = pages ram p"
    by (rule cache_malloc_ok [OF os w(1) [unfolded hm] c(2) w(2) run]) blast
  have op: "\<forall>p \<in> op. p \<notin> om' \<and> pages ram' p = pages ram p" using n(5) w(5) alloc_wf_dom [OF w(3)] by blast
  have "ms - mset (vq_items cache) \<subseteq># out" unfolding out_def using w(6) by (simp add: subseteq_mset_def diff_le_mono)
  then have "ms - mset (vq_items cache) + add_mset m (mset (vq_items cache')) \<subseteq># mset (vq_items cache') + add_mset m out"
    by (simp add: ac_simps)
  moreover have "alloc_wf zp ram' op hp" "no_full_page zp ram' op"
    using alloc_wf_frame [OF w(3)] no_full_page_frame [OF w(4)] op by auto
  moreover have "om' \<inter> op = {}" using op by blast
  ultimately show ?thesis unfolding zones_ok_def using n(2,3,4) w(7) by blast
qed

lemma zones_ok_drain:
  assumes z: "zones_ok zm zp ram ms ps" and c: "mset (vq_items cache) \<subseteq># ms" "vq_wf cache"
    and run: "cache_drain cache zm ram = Inr (cache', zm', ram')"
  shows "zones_ok zm' zp ram' (ms - mset (vq_items cache)) ps \<and> vq_wf cache' \<and> vq_items cache' = []"
proof -
  from z obtain om op hm hp where w: "alloc_wf zm ram om hm" "no_full_page zm ram om" "alloc_wf zp ram op hp"
    "no_full_page zp ram op" "om \<inter> op = {}" "ms \<subseteq># hm" "ps \<subseteq># hp"
    unfolding zones_ok_def by blast
  define out where "out = hm - mset (vq_items cache)"
  have "mset (vq_items cache) \<subseteq># hm" using c(1) w(6) by (rule subset_mset.order_trans)
  then have hm: "hm = mset (vq_items cache) + out" by (simp add: out_def)
  obtain om' where n: "vq_items cache' = []" "vq_wf cache'" "drain_post zm ram om out zm' ram' om'"
    using cache_drain_spec [OF w(1) [unfolded hm] c(2) w(2)] run by auto
  note post = n(3) [unfolded drain_post_def]
  have op: "\<forall>p \<in> op. pages ram' p = pages ram p" "om' \<inter> op = {}" using post w(5) by blast+
  have "ms - mset (vq_items cache) \<subseteq># out" unfolding out_def using w(6) by (simp add: subseteq_mset_def diff_le_mono)
  moreover have "alloc_wf zp ram' op hp" "no_full_page zp ram' op"
    using alloc_wf_frame [OF w(3)] no_full_page_frame [OF w(4)] op(1) by auto
  ultimately show ?thesis unfolding zones_ok_def using n(1,2) post op(2) w(7) by blast
qed


lemma message_places_domain:
  assumes "get_domain g b = Inr d" and "list_of_processes d' = list_of_processes d"
  shows "message_places (set_domain g d' b) + domain_msgs d = message_places b + domain_msgs d'"
    and "live_processes (set_domain g d' b) = live_processes b"
  using over_domains_set [OF assms(1), of domain_msgs d'] live_set_domain [OF assms(1), of d'] assms(2)
  by (simp_all add: message_places_def ac_simps)

lemma process_places_domain:
  assumes "get_domain g b = Inr d"
  shows "process_places (set_domain g d' b) + mset (vq_items (cache_processes d)) + mset (list_of_processes d) =
    process_places b + mset (vq_items (cache_processes d')) + mset (list_of_processes d')"
  using over_domains_set [OF assms, of "\<lambda>d. mset (vq_items (cache_processes d))" d'] live_set_domain [OF assms, of d']
  unfolding process_places_def by (metis (no_types, lifting) add.assoc add.commute add.left_commute)

lemma domain_ok_same:
  assumes "domain_ok g d ps" and "list_of_processes d' = list_of_processes d"
    and "poff_to_process d' = poff_to_process d" and "length (outbox d') = length (outbox d)" and "vq_wf (cache_messages d')" and "vq_wf (cache_processes d')"
  shows "domain_ok g d' ps"
  using assms by (simp add: domain_ok_def table_ok_def)

lemma owned_domain: "owned ms ps b \<Longrightarrow> get_domain g b = Inr d \<Longrightarrow> domain_ok g d (procs b)"
  by (simp add: owned_def)

lemma cache_in_places:
  assumes "get_domain g b = Inr d"
  shows "mset (vq_items (cache_messages d)) \<subseteq># message_places b"
    and "mset (vq_items (cache_processes d)) \<subseteq># process_places b"
proof -
  have "mset (vq_items (cache_messages d)) \<subseteq># domain_msgs d" by (simp add: domain_msgs_def add.assoc)
  also have "\<dots> \<subseteq># message_places b"
    unfolding message_places_def using over_domains_in [OF assms, of domain_msgs] by (simp add: subset_mset.add_increasing2)
  finally show "mset (vq_items (cache_messages d)) \<subseteq># message_places b" .
  show "mset (vq_items (cache_processes d)) \<subseteq># process_places b"
    unfolding process_places_def using over_domains_in [OF assms, of "\<lambda>d. mset (vq_items (cache_processes d))"]
    by (simp add: subset_mset.add_increasing2)
qed

text \<open>What remains of the invariant when zones, memory and one domain are replaced.\<close>

lemma owned_set_domain:
  assumes o: "owned ms ps b" and d: "get_domain g b = Inr d"
    and s: "domain_ok g d' (procs b)" "list_of_processes d' = list_of_processes d"
    and z: "zones_ok zm zp ram (message_places (set_domain g d' b) + ms') (process_places (set_domain g d' b))"
  shows "owned ms' ps (set_domain g d' (b\<lparr>zone_messages := zm, zone_processes := zp, memory := ram\<rparr>))"
proof -
  let ?b = "b\<lparr>zone_messages := zm, zone_processes := zp, memory := ram\<rparr>"
  have e: "set_domain g d' ?b = (set_domain g d' b)\<lparr>zone_messages := zm, zone_processes := zp, memory := ram\<rparr>"
    by (simp add: set_domain_def)
  have l: "live_processes (set_domain g d' b) = live_processes b" by (rule message_places_domain(2) [OF d s(2)])
  have "domain_ok h x (procs b)" if "get_domain h (set_domain g d' b) = Inr x" for h x
    using that o d s(1) unfolding owned_def get_set_domain [OF d] by (cases "h = g") auto
  then show ?thesis using o z unfolding e owned_def by (simp add: l)
qed

lemma message_malloc_owned:
  assumes os: "os_ok (s_os s)" and o: "owned ms ps b" and run: "message_malloc s g b = Inr (m, b')"
  shows "owned (add_mset m ms) ps b'"
proof -
  obtain d cache zone ram where d: "get_domain g b = Inr d"
    and c: "cache_malloc (s_os s) (cache_messages d) (zone_messages b) (memory b) = Inr (m, cache, zone, ram)"
    and b': "b' = set_domain g (d\<lparr>cache_messages := cache\<rparr>) (b\<lparr>zone_messages := zone, zone_processes := zone_processes b, memory := ram\<rparr>)"
    using run by (auto simp: message_malloc_def)
  let ?C = "mset (vq_items (cache_messages d))" and ?d = "d\<lparr>cache_messages := cache\<rparr>"
  have dok: "domain_ok g d (procs b)" by (rule owned_domain [OF o d])
  obtain K where K: "message_places b = ?C + K" using cache_in_places(1) [OF d] by (metis subset_mset.le_iff_add)
  have z: "zones_ok zone (zone_processes b) ram (message_places b + ms - ?C + add_mset m (mset (vq_items cache))) (process_places b)
      \<and> vq_wf cache"
    by (rule zones_ok_malloc [OF os _ _ _ c]) (use o dok K in \<open>simp_all add: owned_def domain_ok_def\<close>)
  have "message_places (set_domain g ?d b) + domain_msgs d = message_places b + domain_msgs ?d"
    by (rule message_places_domain(1) [OF d]) simp
  then have "message_places (set_domain g ?d b) = K + mset (vq_items cache)"
    unfolding K by (simp add: domain_msgs_def ac_simps)
  moreover have "process_places (set_domain g ?d b) = process_places b"
    using process_places_domain [OF d, of ?d] by simp
  ultimately show ?thesis
    unfolding b' using z dok K
    by (intro owned_set_domain [OF o d domain_ok_same [OF dok]]) (simp_all add: ac_simps domain_ok_def)
qed

lemma message_free_owned:
  assumes o: "owned (add_mset m ms) ps b" and run: "message_free g m b = Inr b'"
  shows "owned ms ps b'"
proof -
  obtain d where d: "get_domain g b = Inr d" and b': "b' = set_domain g (d\<lparr>cache_messages := cache_free m (cache_messages d)\<rparr>) b"
    using run by (auto simp: message_free_def)
  show ?thesis unfolding b'
    by (rule keeps_domain [OF o d]) (use owned_domain [OF o d] in \<open>simp_all add: domain_msgs_def domain_ok_def\<close>)
qed

lemma drain_caches_owned:
  assumes o: "owned ms ps b" and run: "drain_caches g b = Inr b'"
  shows "owned ms ps b'"
proof -
  obtain d cm zm r1 cp zp r2 where d: "get_domain g b = Inr d"
    and c: "cache_drain (cache_messages d) (zone_messages b) (memory b) = Inr (cm, zm, r1)"
      "cache_drain (cache_processes d) (zone_processes b) r1 = Inr (cp, zp, r2)"
    and b': "b' = set_domain g (d\<lparr>cache_messages := cm, cache_processes := cp\<rparr>)
        (b\<lparr>zone_messages := zm, zone_processes := zp, memory := r2\<rparr>)"
    using run by (auto simp: drain_caches_def)
  let ?M = "mset (vq_items (cache_messages d))" and ?P = "mset (vq_items (cache_processes d))"
    and ?d = "d\<lparr>cache_messages := cm, cache_processes := cp\<rparr>"
  have dok: "domain_ok g d (procs b)" by (rule owned_domain [OF o d])
  obtain K where K: "message_places b = ?M + K" using cache_in_places(1) [OF d] by (metis subset_mset.le_iff_add)
  obtain L where L: "process_places b = ?P + L" using cache_in_places(2) [OF d] by (metis subset_mset.le_iff_add)
  have 1: "zones_ok zm (zone_processes b) r1 (message_places b + ms - ?M) (process_places b) \<and> vq_wf cm \<and> vq_items cm = []"
    by (rule zones_ok_drain [OF _ _ _ c(1)]) (use o dok K in \<open>simp_all add: owned_def domain_ok_def\<close>)
  have 2: "zones_ok zp zm r2 (process_places b - ?P) (message_places b + ms - ?M) \<and> vq_wf cp \<and> vq_items cp = []"
    by (rule zones_ok_drain [OF _ _ _ c(2)]) (use 1 zones_ok_swap dok L in \<open>auto simp: domain_ok_def\<close>)
  have "message_places (set_domain g ?d b) + domain_msgs d = message_places b + domain_msgs ?d"
    by (rule message_places_domain(1) [OF d]) simp
  then have "message_places (set_domain g ?d b) = K"
    unfolding K using 1 by (simp add: domain_msgs_def ac_simps)
  moreover have "process_places (set_domain g ?d b) = L"
    using process_places_domain [OF d, of ?d] 2 unfolding L by (simp add: ac_simps)
  ultimately show ?thesis
    unfolding b' using 1 2 zones_ok_swap K L
    by (intro owned_set_domain [OF o d domain_ok_same [OF dok]]) auto
qed


section \<open>Dispatching and sending\<close>

lemma vq_put_places: "mset (vq_items (snd (vq_put m q))) \<subseteq># add_mset m (mset (vq_items q))"
  by (simp add: vq_put_def)

lemma vq_splice_places:
  "vq_splice q r = (q', r') \<Longrightarrow> mset (vq_items q') + mset (vq_items r') \<subseteq># mset (vq_items q) + mset (vq_items r)"
  by (auto simp: vq_splice_def vq_empty_def split: if_splits)

lemma vq_get_places:
  shows "vq_get q = (None, q') \<Longrightarrow> q' = q" and "vq_get q = (Some m, q') \<Longrightarrow> mset (vq_items q) = add_mset m (mset (vq_items q'))"
  by (auto dest: vq.get_NoneD vq.get_SomeD)

lemma owned_live: "owned ms ps b \<Longrightarrow> p \<in> ps \<Longrightarrow> p \<in># live_processes b"
  by (auto simp: owned_def)

lemma owned_know: "owned ms ps b \<Longrightarrow> qs \<subseteq> set_mset (live_processes b) \<Longrightarrow> owned ms (qs \<union> ps) b"
  by (simp add: owned_def)

lemma owned_forget: "owned ms ps b \<Longrightarrow> qs \<subseteq> ps \<Longrightarrow> owned ms qs b"
  by (auto simp: owned_def)

lemma dispatch_msg_single_owned:
  assumes o: "owned (add_mset m ms) ps b" and p: "p \<in># live_processes b" and run: "dispatch_msg_single p m b = Inr b'"
  shows "owned ms ps b'"
proof -
  obtain w ib where ib: "vq_put m (inbox (procs b p)) = (w, ib)" by fastforce
  let ?b = "set_process p ((procs b p)\<lparr>inbox := ib\<rparr>) b"
  have "mset (vq_items ib) \<subseteq># add_mset m (mset (vq_items (inbox (procs b p))))"
    using vq_put_places [of m "inbox (procs b p)"] ib by simp
  then have 1: "owned ms ps ?b"
    by (intro keeps_process [OF o]) (use p in \<open>simp_all add: process_msgs_def ac_simps\<close>)
  show ?thesis
  proof (cases w)
    case False
    then show ?thesis using run ib 1 by (simp add: dispatch_msg_single_def Let_def)
  next
    case True
    then obtain g d t h root where d: "get_domain g b = Inr d"
      and b': "b' = set_domain g (d\<lparr>queue_of_busy_processes := root\<rparr>) (?b\<lparr>busy_next := h\<rparr>)"
      using run ib by (auto simp: dispatch_msg_single_def Let_def)
    show ?thesis unfolding b'
      by (rule keeps_domain [where ms = ms and d = d])
        (use 1 d owned_domain [OF o d] in \<open>simp_all add: domain_msgs_def domain_ok_def\<close>)
  qed
qed

lemma message_clone_owned:
  assumes "os_ok (s_os s)" and "owned ms ps b" and "message_clone s g m b = Inr (c, b')"
  shows "owned (add_mset c ms) ps b'"
  using assms(3) message_malloc_owned [OF assms(1,2)] by (auto simp: message_clone_def Let_def)

lemma broadcast_loop_owned:
  assumes os: "os_ok (s_os s)"
  shows "owned ms ps b \<Longrightarrow> set xs \<subseteq> ps \<Longrightarrow> broadcast_loop s g m xs b = Inr b' \<Longrightarrow> owned ms ps b'"
proof (induction xs arbitrary: b)
  case (Cons p xs)
  obtain c b1 b2 where 1: "message_clone s g m b = Inr (c, b1)" and 2: "dispatch_msg_single p c b1 = Inr b2"
    and 3: "broadcast_loop s g m xs b2 = Inr b'"
    using Cons.prems(3) by auto
  note o1 = message_clone_owned [OF os Cons.prems(1) 1]
  have "owned ms ps b2" by (rule dispatch_msg_single_owned [OF o1 owned_live [OF o1] 2]) (use Cons.prems(2) in simp)
  then show ?case using Cons.IH [OF _ _ 3] Cons.prems(2) by simp
qed simp

lemma dispatch_msg_broadcast_owned:
  assumes os: "os_ok (s_os s)" and o: "owned (add_mset m ms) ps b" and run: "dispatch_msg_broadcast s g m b = Inr b'"
  shows "owned ms ps b'"
proof -
  obtain d b1 where d: "get_domain g b = Inr d" and 1: "broadcast_loop s g m (list_of_processes d) b = Inr b1"
    and 2: "message_free g m b1 = Inr b'"
    using run by (auto simp: dispatch_msg_broadcast_def)
  have "owned (add_mset m ms) (set (list_of_processes d) \<union> ps) b"
    by (rule owned_know [OF o]) (use live_in_domain [OF d] in blast)
  from broadcast_loop_owned [OF os this _ 1] have "owned (add_mset m ms) (set (list_of_processes d) \<union> ps) b1" by simp
  from message_free_owned [OF owned_forget [OF this] 2] show ?thesis by simp
qed

lemma table_live:
  assumes o: "owned ms ps b" and d: "get_domain g b = Inr d" and u: "umap_get (poff_to_process d) no = Inr (Some p)"
  shows "p \<in> set (list_of_processes d)" and "p \<in># live_processes b"
proof -
  have "table_ok g d (procs b)" using owned_domain [OF o d] by (simp add: domain_ok_def)
  then show "p \<in> set (list_of_processes d)" using u by (auto simp: table_ok_def umap_get_abs)
  then show "p \<in># live_processes b" by (rule live_in_domain [OF d])
qed

lemma dispatch_msg_local_owned:
  assumes os: "os_ok (s_os s)" and o: "owned (add_mset m ms) ps b" and run: "dispatch_msg_local s g m b = Inr (n, b')"
  shows "owned ms ps b'"
proof (cases "pid_to_poff (m_target (msgs b m)) = 0")
  case True
  then show ?thesis
    using run
    by (auto simp: dispatch_msg_local_def dispatch_special_def Let_def split: if_splits
        intro: drain_caches_owned message_free_owned [OF o] dispatch_msg_broadcast_owned [OF os o])
next
  case False
  then obtain d x where d: "get_domain g b = Inr d" and u: "umap_get (poff_to_process d) (pid_to_poff (m_target (msgs b m))) = Inr x"
    and r: "(case x of Some p \<Rightarrow> rbind (dispatch_msg_single p m b) (\<lambda>b. Inr (Suc 0, b))
           | None \<Rightarrow> rbind (message_free g m b) (\<lambda>b. Inr (0, b))) = Inr (n, b')"
    using run unfolding One_nat_def by (auto simp: dispatch_msg_local_def Let_def)
  show ?thesis
    using r message_free_owned [OF o] dispatch_msg_single_owned [OF o table_live(2) [OF o d]] u
    by (cases x) auto
qed

lemma outbox_update_msgs:
  assumes "i < length xs"
  shows "(\<Sum>q \<leftarrow> xs[i := y]. mset (vq_items q)) + mset (vq_items (xs ! i)) = (\<Sum>q \<leftarrow> xs. mset (vq_items q)) + mset (vq_items y)"
  using assms
proof (induction xs arbitrary: i)
  case (Cons z zs)
  then show ?case by (cases i) (simp_all add: ac_simps)
qed simp

text \<open>A queue of the outbox changes; beyond its end nothing does.\<close>

lemma outbox_msgs:
  assumes "mset (vq_items y) + A \<subseteq># mset (vq_items (outbox d ! i)) + B" and "i < length (outbox d)"
  shows "domain_msgs (d\<lparr>outbox := (outbox d)[i := y]\<rparr>) + A \<subseteq># domain_msgs d + B"
proof -
  have "(domain_msgs (d\<lparr>outbox := (outbox d)[i := y]\<rparr>) + A) + mset (vq_items (outbox d ! i)) =
      domain_msgs d + (mset (vq_items y) + A)"
    using outbox_update_msgs [OF assms(2), of y] by (simp add: domain_msgs_def ac_simps)
  also have "\<dots> \<subseteq># domain_msgs d + (mset (vq_items (outbox d ! i)) + B)" using assms(1) by simp
  also have "\<dots> = (domain_msgs d + B) + mset (vq_items (outbox d ! i))" by (simp add: ac_simps)
  finally show ?thesis by simp
qed


lemma vq_splice_moves:
  assumes "vq_splice q r = (q', r')"
  shows "vq_items q' = []" and "mset (vq_items r') \<subseteq># mset (vq_items q) + mset (vq_items r)"
  using assms by (auto simp: vq_splice_def vq_empty_def split: if_splits)

lemma splice_remote_owned:
  assumes o: "owned ms ps b" and v: "v < MAX_DOMAINS" and run: "splice_remote s g v b = Inr b'"
  shows "owned ms ps b'"
proof -
  obtain d vd where d: "get_domain g b = Inr d" and vd: "get_domain v b = Inr vd"
    using run by (auto simp: splice_remote_def)
  obtain qr ri where sp: "vq_splice (outbox d ! v) (remote_inbox vd) = (qr, ri)" by fastforce
  let ?H = "mset (vq_items (outbox d ! v))" and ?d = "d\<lparr>outbox := (outbox d)[v := qr]\<rparr>"
    and ?b2 = "if g = v then set_domain g (d\<lparr>remote_inbox := ri, outbox := (outbox d)[v := qr]\<rparr>) b
      else set_domain g (d\<lparr>outbox := (outbox d)[v := qr]\<rparr>) (set_domain v (vd\<lparr>remote_inbox := ri\<rparr>) b)"
  have l: "v < length (outbox d)" and wf: "vq_wf (cache_messages d)" "vq_wf (cache_messages vd)"
    using owned_domain [OF o d] owned_domain [OF o vd] v by (simp_all add: domain_ok_def)
  have 1: "owned (ms + ?H) ps (set_domain g ?d b)"
    by (rule keeps_domain [OF o d outbox_msgs [OF _ l]]) (simp_all add: vq_splice_moves(1) [OF sp] wf)
  have "owned ms ps ?b2"
  proof (cases "g = v")
    case True
    then have e: "set_domain v ((?d)\<lparr>remote_inbox := ri\<rparr>) (set_domain g ?d b) = ?b2" by (cases d) (simp add: set_domain_def)
    have g: "get_domain v (set_domain g ?d b) = Inr ?d" unfolding get_set_domain [OF d] using True by simp
    have "d = vd" using True d vd by simp
    then have "domain_msgs (?d\<lparr>remote_inbox := ri\<rparr>) + ms \<subseteq># domain_msgs ?d + (ms + ?H)"
      using vq_splice_moves(2) [OF sp] by (simp add: domain_msgs_def ac_simps)
    from keeps_domain [OF 1 g this] show ?thesis using wf unfolding e by simp
  next
    case False
    have e: "set_domain v (vd\<lparr>remote_inbox := ri\<rparr>) (set_domain g ?d b) = ?b2"
      using False by (simp add: set_domain_def list_update_swap)
    have g: "get_domain v (set_domain g ?d b) = Inr vd" using False vd by (simp add: get_set_domain [OF d])
    have "domain_msgs (vd\<lparr>remote_inbox := ri\<rparr>) + ms \<subseteq># domain_msgs vd + (ms + ?H)"
      using vq_splice_moves(2) [OF sp] by (simp add: domain_msgs_def ac_simps)
    from keeps_domain [OF 1 g this] show ?thesis using wf unfolding e by simp
  qed
  moreover have "b' = ?b2 \<or> (\<exists>u. b' = ?b2\<lparr>world := u\<rparr>)"
    using run d vd sp by (auto simp: splice_remote_def Let_def get_set_domain split: if_splits) (auto simp: set_domain_def)
  ultimately show ?thesis by auto
qed

lemma flush_loop_owned:
  "owned ms ps b \<Longrightarrow> set gids \<subseteq> {..< MAX_DOMAINS} \<Longrightarrow> flush_loop s g gids cnt b = Inr (n, b') \<Longrightarrow> owned ms ps b'"
proof (induction gids arbitrary: cnt b)
  case (Cons gid gids)
  obtain d where d: "get_domain g b = Inr d" using Cons.prems(3) by auto
  have dok: "domain_ok g d (procs b)" by (rule owned_domain [OF Cons.prems(1) d])
  have gid: "gid < MAX_DOMAINS" "set gids \<subseteq> {..< MAX_DOMAINS}" using Cons.prems(2) by simp_all
  show ?case
  proof (cases "vq_items (outbox d ! gid) = []")
    case True
    then show ?thesis using Cons.IH [OF Cons.prems(1) gid(2)] Cons.prems(3) d by auto
  next
    case ne: False
    show ?thesis
    proof (cases "gid_to_domain b ! gid = None")
      case False
      then show ?thesis
        using Cons.IH [OF splice_remote_owned [OF Cons.prems(1) gid(1)] gid(2)] Cons.prems(3) d ne by auto
    next
      case True
      obtain c q where dr: "drain_message_queue (cache_messages d) (outbox d ! gid) = (c, q)" by fastforce
      note D = drain_message_queue_spec [OF dr]
      let ?d = "d\<lparr>cache_messages := c, outbox := (outbox d)[gid := q]\<rparr>"
      have l: "gid < length (outbox d)" using dok gid(1) by (simp add: domain_ok_def)
      have m: "domain_msgs ?d + ms \<subseteq># domain_msgs d + ms"
        using outbox_msgs [of q "mset (vq_items (outbox d ! gid))" d gid "{#}"] D l
        by (simp add: domain_msgs_def ac_simps)
      have "owned ms ps (set_domain g ?d b)"
        by (rule keeps_domain [OF Cons.prems(1) d m]) (use D dok in \<open>simp_all add: domain_ok_def\<close>)
      from Cons.IH [OF this gid(2)] show ?thesis using Cons.prems(3) d ne True dr by simp
    qed
  qed
qed simp

lemma send_flush_outbox_owned:
  assumes "owned ms ps b" and "send_flush_outbox s g b = Inr (n, b')"
  shows "owned ms ps b'"
  by (rule flush_loop_owned [OF assms(1) _ assms(2) [unfolded send_flush_outbox_def]]) auto

lemma send_indirect_owned:
  assumes os: "os_ok (s_os s)" and o: "owned ms ps b" and run: "send_indirect s g target ty payload sz b = Inr b'"
  shows "owned ms ps b'"
proof -
  obtain tg m b1 msg where m: "message_malloc s g b = Inr (m, b1)"
    and c: "(\<exists>n. dispatch_msg_local s g m (b1\<lparr>msgs := (msgs b1)(m := msg)\<rparr>) = Inr (n, b')) \<or>
      (\<exists>d. get_domain g b1 = Inr d \<and> tg < length (outbox d) \<and>
        b' = set_domain g (d\<lparr>outbox := (outbox d)[tg := snd (vq_put m (outbox d ! tg))]\<rparr>) (b1\<lparr>msgs := (msgs b1)(m := msg)\<rparr>))"
    using run by (auto simp: send_indirect_def Let_def not_le split: if_splits) blast+
  note o1 = message_malloc_owned [OF os o m]
  then have o2: "owned (add_mset m ms) ps (b1\<lparr>msgs := (msgs b1)(m := msg)\<rparr>)" by simp
  from c show ?thesis
  proof (elim disjE exE conjE)
    fix n assume "dispatch_msg_local s g m (b1\<lparr>msgs := (msgs b1)(m := msg)\<rparr>) = Inr (n, b')"
    from dispatch_msg_local_owned [OF os o2 this] show ?thesis .
  next
    fix d assume d: "get_domain g b1 = Inr d" and l: "tg < length (outbox d)"
      and b': "b' = set_domain g (d\<lparr>outbox := (outbox d)[tg := snd (vq_put m (outbox d ! tg))]\<rparr>) (b1\<lparr>msgs := (msgs b1)(m := msg)\<rparr>)"
    have m: "domain_msgs (d\<lparr>outbox := (outbox d)[tg := snd (vq_put m (outbox d ! tg))]\<rparr>) + ms \<subseteq># domain_msgs d + add_mset m ms"
      by (rule outbox_msgs [OF _ l]) (use vq_put_places [of m "outbox d ! tg"] in \<open>simp add: ac_simps\<close>)
    have d': "get_domain g (b1\<lparr>msgs := (msgs b1)(m := msg)\<rparr>) = Inr d" using d by simp
    show ?thesis unfolding b'
      by (rule keeps_domain [OF o2 d' m]) (use owned_domain [OF o1 d] in \<open>simp_all add: domain_ok_def\<close>)
  qed
qed

lemma send_broadcast_loop_owned:
  "os_ok (s_os s) \<Longrightarrow> owned ms ps b \<Longrightarrow> send_broadcast_loop s g ty vs b = Inr b' \<Longrightarrow> owned ms ps b'"
  by (induction vs arbitrary: b) (auto dest: send_indirect_owned)

lemma send_broadcast_owned:
  "os_ok (s_os s) \<Longrightarrow> owned ms ps b \<Longrightarrow> send_broadcast s g ty b = Inr b' \<Longrightarrow> owned ms ps b'"
  unfolding send_broadcast_def by (rule send_broadcast_loop_owned)


section \<open>Processes come and go\<close>

lemma table_ok_fresh:
  assumes "table_ok g d ps" and "p \<notin> set (list_of_processes d)"
  shows "table_ok g d (ps(p := x))"
  using assms unfolding table_ok_def by (auto simp: fun_upd_def)

lemma umap_add_table:
  assumes t: "table_ok g d ps" and g: "g < MAX_DOMAINS" and run: "umap_add (poff_to_process d) (Some p) = Inr (no, um)" "no \<noteq> 0"
    and d': "poff_to_process d' = um" "list_of_processes d' = p # list_of_processes d" and p: "p \<notin> set (list_of_processes d)"
    and x: "p_domain x = Some g" "p_pid x = poff_gid_to_pid no (of_nat g)"
  shows "table_ok g d' (ps(p := x))"
proof -
  note T = t [unfolded table_ok_def]
  obtain i rest where f: "vq_items (free_items (poff_to_process d)) = i # rest"
    using run umap_add_full [of "poff_to_process d" "Some p"] by (cases "vq_items (free_items (poff_to_process d))") auto
  have wf: "umap_wf (poff_to_process d)" using T by blast
  from umap_add_spec [OF wf f, of p] run(1) have um: "umap_wf um" "umap_abs um = (umap_abs (poff_to_process d))(no \<mapsto> p)"
    "no \<notin> live_nos (poff_to_process d)" by auto
  from umap_add_run [OF wf f, of "Some p"] run(1) have mc: "max_counter um = max_counter (poff_to_process d)"
    "unat no < unat (max_counter (poff_to_process d))" by auto
  have new: "umap_abs (poff_to_process d) no = None"
    using um(3) run(2) by (auto simp: umap_abs_def live_nos_def Let_def)
  have other: "pid_to_poff (p_pid (ps q)) \<noteq> no" if "q \<in> set (list_of_processes d)" for q
  proof
    assume "pid_to_poff (p_pid (ps q)) = no"
    then have "umap_abs (poff_to_process d) no = Some q" using T that by blast
    then show False using new by simp
  qed
  have "pid_to_poff (p_pid x) = no"
    unfolding x(2) using mc(2) T small_gid [of g] g by (intro pid_of_parts(1)) (auto simp: MAX_DOMAINS_def)
  then have "((umap_abs (poff_to_process d))(no \<mapsto> p)) n = Some q \<longleftrightarrow>
      q \<in> set (p # list_of_processes d) \<and> n = pid_to_poff (p_pid ((ps(p := x)) q))" for n q
    using T p other [of q] new by (cases "q = p"; cases "n = no") auto
  then show ?thesis
    unfolding table_ok_def d' um(2) mc(1) using T um(1) p x(1) by (auto simp: fun_upd_def)
qed

text \<open>A chunk of the second zone that was just handed out is a new process of the domain.\<close>

lemma owned_new_process:
  assumes o: "owned ms ps b" and d: "get_domain g b = Inr d"
    and z: "zones_ok (zone_messages b) zp ram (message_places b + ms)
      (process_places b - mset (vq_items (cache_processes d)) + add_mset p (mset (vq_items cache)))"
    and d': "domain_msgs d' = domain_msgs d" "cache_processes d' = cache" "list_of_processes d' = p # list_of_processes d"
    and x: "process_msgs x = {#}"
    and t: "p \<notin> set (list_of_processes d) \<Longrightarrow> domain_ok g d' ((procs b)(p := x))"
  shows "owned ms (insert p ps) (set_process p x (set_domain g d' (b\<lparr>zone_processes := zp, memory := ram\<rparr>)))"
proof -
  let ?C = "mset (vq_items (cache_processes d))" and ?d = "set_domain g d' b"
  obtain K where K: "over_domains (\<lambda>d. mset (vq_items (cache_processes d))) b = ?C + K"
    using over_domains_in [OF d, of "\<lambda>d. mset (vq_items (cache_processes d))"] by (metis subset_mset.le_iff_add)
  have "count (process_places b - ?C + add_mset p (mset (vq_items cache))) p \<le> 1" by (rule zones_ok_distinct(2) [OF z])
  then have new: "p \<notin># live_processes b" by (simp add: process_places_def K not_in_iff)
  have l: "live_processes ?d = add_mset p (live_processes b)" using live_set_domain [OF d, of d'] d'(3) by simp
  have "process_places ?d = process_places b - ?C + add_mset p (mset (vq_items cache))"
    using process_places_domain [OF d, of d'] d'(2,3) by (simp add: process_places_def K ac_simps)
  moreover have "over_domains domain_msgs ?d = over_domains domain_msgs b"
    using over_domains_set [OF d, of domain_msgs d'] d'(1) by simp
  then have "message_places (set_process p x ?d) = message_places b"
    using sum_fun_upd [where f = process_msgs and x = x and h = "procs b", OF new] x by (simp add: message_places_def l)
  moreover have "domain_ok h e ((procs b)(p := x))" if "get_domain h ?d = Inr e" for h e
  proof (cases "h = g")
    case True
    then show ?thesis using that t new live_in_domain [OF d] unfolding get_set_domain [OF d] by auto
  next
    case False
    then have e: "get_domain h b = Inr e" using that unfolding get_set_domain [OF d] by simp
    have "p \<notin> set (list_of_processes e)" using new live_in_domain [OF e] by blast
    then show ?thesis using owned_domain [OF o e] by (simp add: domain_ok_def table_ok_fresh del: fun_upd_apply)
  qed
  moreover have "set_process p x (set_domain g d' (b\<lparr>zone_processes := zp, memory := ram\<rparr>)) =
      (set_process p x ?d)\<lparr>zone_processes := zp, memory := ram\<rparr>"
    by (simp add: set_domain_def set_process_def)
  ultimately show ?thesis using o z x l unfolding owned_def by (auto simp del: fun_upd_apply simp: fun_upd_other)
qed

lemma process_new_owned:
  assumes os: "os_ok (s_os s)" and o: "owned ms ps b" and run: "process_new s g callback data hungry b = Inr (p, b')"
  shows "owned ms (insert p ps) b'"
proof -
  obtain d cache zone ram where d: "get_domain g b = Inr d"
    and c: "cache_malloc (s_os s) (cache_processes d) (zone_processes b) (memory b) = Inr (p, cache, zone, ram)"
    and m: "process_malloc s g b = Inr (p, set_domain g (d\<lparr>cache_processes := cache\<rparr>) (b\<lparr>zone_processes := zone, memory := ram\<rparr>))"
    using run by (auto simp: process_new_def process_malloc_def Let_def split: if_splits)
  let ?b = "b\<lparr>zone_processes := zone, memory := ram\<rparr>"
  have d1: "get_domain g ?b = Inr d" using d by simp
  have s: "set_domain g e (set_domain g e' ?b) = set_domain g e ?b" for e e' by (simp add: set_domain_def)
  let ?x = "\<lambda>no. \<lparr>inbox = vq_empty, badmatch = vq_empty, receive_callback = callback,
      receive_data = data, p_domain = Some g, p_pid = poff_gid_to_pid no (of_nat g)\<rparr>"
  let ?d = "\<lambda>um. d\<lparr>cache_processes := cache, poff_to_process := um, list_of_processes := p # list_of_processes d,
      list_of_hungry_processes := (if hungry then p # list_of_hungry_processes d else list_of_hungry_processes d)\<rparr>"
  obtain no um where u: "umap_add (poff_to_process d) (Some p) = Inr (no, um)" "no \<noteq> 0"
    and b': "b' = (set_process p (?x no) (set_domain g (?d um) ?b))\<lparr>busy_next := INIT_QUEUE_HEAD p (busy_next b)\<rparr>"
    using run by (auto simp: process_new_def m get_set_domain [OF d1] s Let_def split: if_splits)
  have dok: "domain_ok g d (procs b)" by (rule owned_domain [OF o d])
  have "zones_ok zone (zone_messages b) ram (process_places b - mset (vq_items (cache_processes d)) +
      add_mset p (mset (vq_items cache))) (message_places b + ms) \<and> vq_wf cache"
    by (rule zones_ok_malloc [OF os _ cache_in_places(2) [OF d] _ c])
      (use o dok zones_ok_swap in \<open>auto simp: owned_def domain_ok_def\<close>)
  then have z: "zones_ok (zone_messages b) zone ram (message_places b + ms)
      (process_places b - mset (vq_items (cache_processes d)) + add_mset p (mset (vq_items cache)))" "vq_wf cache"
    using zones_ok_swap by blast+
  have "table_ok g (?d um) ((procs b)(p := ?x no))" if "p \<notin> set (list_of_processes d)"
    by (rule umap_add_table [OF _ _ u]) (use that dok in \<open>simp_all add: domain_ok_def\<close>)
  then have "domain_ok g (?d um) ((procs b)(p := ?x no))" if "p \<notin> set (list_of_processes d)"
    using that dok z(2) by (simp add: domain_ok_def del: fun_upd_apply)
  then show ?thesis unfolding b' owned_frame
    by (intro owned_new_process [OF o d z(1)]) (simp_all add: domain_msgs_def process_msgs_def del: fun_upd_apply)
qed


lemma live_owner:
  assumes "owned ms ps b" and "p \<in># live_processes b"
  obtains g d where "get_domain g b = Inr d" "p \<in> set (list_of_processes d)" "p_domain (procs b p) = Some g"
proof -
  obtain g d where "get_domain g b = Inr d" "p \<in> set (list_of_processes d)" by (rule live_somewhere [OF assms(2)])
  then show ?thesis using owned_domain [OF assms(1)] by (intro that [of g d]) (auto simp: domain_ok_def table_ok_def)
qed

lemma umap_del_table:
  assumes t: "table_ok g d ps" and p: "p \<in> set (list_of_processes d)" "distinct (list_of_processes d)"
    and run: "umap_del (poff_to_process d) (pid_to_poff (p_pid (ps p))) = Inr um"
    and d': "poff_to_process d' = um" "list_of_processes d' = remove1 p (list_of_processes d)"
  shows "table_ok g d' (ps(p := x))"
proof -
  note T = t [unfolded table_ok_def]
  let ?no = "pid_to_poff (p_pid (ps p))"
  have a: "umap_abs (poff_to_process d) ?no = Some p" using T p(1) by blast
  then have "?no \<noteq> 0" by (auto simp: umap_abs_def Let_def split: if_splits)
  from umap_del_spec [OF _ this, of "poff_to_process d"] T run have
    um: "umap_wf um" "umap_abs um = (umap_abs (poff_to_process d))(?no := None)" by auto
  have mc: "max_counter um = max_counter (poff_to_process d)"
    using run by (auto simp: umap_del_def Let_def split: if_splits)
  have other: "pid_to_poff (p_pid (ps q)) \<noteq> ?no" if "q \<in> set (list_of_processes d)" "q \<noteq> p" for q
  proof
    assume "pid_to_poff (p_pid (ps q)) = ?no"
    then have "umap_abs (poff_to_process d) ?no = Some q" using T that(1) by metis
    then show False using a that(2) by simp
  qed
  have "((umap_abs (poff_to_process d))(?no := None)) n = Some q \<longleftrightarrow>
      q \<in> set (list_of_processes d) - {p} \<and> n = pid_to_poff (p_pid ((ps(p := x)) q))" for n q
    using T a other [of q] by (cases "q = p"; cases "n = ?no") auto
  moreover have "set (remove1 p (list_of_processes d)) = set (list_of_processes d) - {p}" using p(2) by simp
  ultimately show ?thesis unfolding table_ok_def d' um(2) mc using T um(1) by auto
qed

lemma distinct_count_le: "(\<And>x. count (mset xs) x \<le> 1) \<Longrightarrow> distinct xs"
proof (induction xs)
  case (Cons y ys)
  have "count (mset ys) x \<le> 1" for x by (rule le_trans [OF _ Cons.prems [of x]]) simp
  moreover have "count (mset ys) y = 0" using Cons.prems [of y] by simp
  ultimately show ?case using Cons.IH by (simp add: count_mset_0_iff)
qed simp

lemma list_distinct:
  assumes "owned ms ps b" and "get_domain g b = Inr d"
  shows "distinct (list_of_processes d)"
proof (rule distinct_count_le)
  fix x
  have "count (mset (list_of_processes d)) x \<le> count (live_processes b) x"
    unfolding live_processes_def by (rule mset_subset_eq_count, rule over_domains_in [OF assms(2)])
  then show "count (mset (list_of_processes d)) x \<le> 1" using owned_live_once [OF assms(1), of x] by linarith
qed

text \<open>The converse: a process leaves, and what it still held stays in its domain.\<close>

lemma owned_free_process:
  assumes o: "owned ms ps b" and d: "get_domain g b = Inr d" and p: "p \<in> set (list_of_processes d)"
    and d': "domain_msgs d' = domain_msgs d + process_msgs (procs b p)" "cache_processes d' = cache_free p (cache_processes d)"
      "list_of_processes d' = remove1 p (list_of_processes d)"
    and x: "process_msgs x = {#}" and t: "domain_ok g d' ((procs b)(p := x))"
  shows "owned ms (ps - {p}) (set_process p x (set_domain g d' b))"
proof -
  let ?b = "set_domain g d' b"
  have live: "p \<in># live_processes b" by (rule live_in_domain [OF d p])
  have ml: "mset (list_of_processes d) = add_mset p (mset (remove1 p (list_of_processes d)))" using p by simp
  have l: "live_processes b = add_mset p (live_processes ?b)"
    using live_set_domain [OF d, of d'] unfolding d'(3) ml by simp
  have new: "p \<notin># live_processes ?b" using owned_live_once [OF o, of p] unfolding l by (simp add: not_in_iff)
  have "process_places ?b = process_places b"
    using process_places_domain [OF d, of d'] unfolding d'(2,3) ml by simp
  moreover have "over_domains domain_msgs ?b = over_domains domain_msgs b + process_msgs (procs b p)"
    using over_domains_set [OF d, of domain_msgs d'] d'(1) by simp
  then have "message_places (set_process p x ?b) = message_places b"
    using sum_fun_upd [where f = process_msgs and x = x and h = "procs b", OF new] by (simp add: message_places_def l ac_simps)
  moreover have "domain_ok h e ((procs b)(p := x))" if "get_domain h ?b = Inr e" for h e
  proof (cases "h = g")
    case True
    then show ?thesis using that t unfolding get_set_domain [OF d] by auto
  next
    case False
    then have e: "get_domain h b = Inr e" using that unfolding get_set_domain [OF d] by simp
    have "p \<notin> set (list_of_processes e)"
      using owned_domain [OF o e] owned_domain [OF o d] p False by (auto simp: domain_ok_def table_ok_def)
    then show ?thesis using owned_domain [OF o e] by (simp add: domain_ok_def table_ok_fresh del: fun_upd_apply)
  qed
  moreover have "process_msgs (((procs b)(p := x)) q) = {#}" if "q \<notin># live_processes ?b" for q
    using o x that unfolding owned_def l by simp
  ultimately show ?thesis using o unfolding owned_def l by (auto simp del: fun_upd_apply)
qed

lemma process_free_owned:
  assumes o: "owned ms ps b" and p: "p \<in># live_processes b" and run: "process_free p b = Inr b'"
  shows "owned ms (ps - {p}) b'"
proof -
  obtain g d where d: "get_domain g b = Inr d" "p \<in> set (list_of_processes d)" "p_domain (procs b p) = Some g"
    by (rule live_owner [OF o p])
  obtain c1 ib c2 bm where dr: "drain_message_queue (cache_messages d) (inbox (procs b p)) = (c1, ib)"
    "drain_message_queue c1 (badmatch (procs b p)) = (c2, bm)" by fastforce
  note D = drain_message_queue_spec [OF dr(1)] drain_message_queue_spec [OF dr(2)]
  let ?x = "(procs b p)\<lparr>inbox := ib, badmatch := bm, p_domain := None, p_pid := 0, receive_data := None, receive_callback := None\<rparr>"
  obtain um h root where um: "umap_del (poff_to_process d) (pid_to_poff (p_pid (procs b p))) = Inr um"
    and b': "b' = (set_process p ?x (set_domain g (d\<lparr>poff_to_process := um, list_of_processes := remove1 p (list_of_processes d),
        queue_of_busy_processes := root, list_of_hungry_processes := remove1 p (list_of_hungry_processes d),
        cache_messages := c2, cache_processes := cache_free p (cache_processes d)\<rparr>) b))\<lparr>busy_next := h\<rparr>"
      (is "_ = (set_process p ?x (set_domain g ?d b))\<lparr>busy_next := h\<rparr>")
    using run d dr by (auto simp: process_free_def Let_def)
  have dok: "domain_ok g d (procs b)" by (rule owned_domain [OF o d(1)])
  have "table_ok g ?d ((procs b)(p := ?x))"
    by (rule umap_del_table [where ps = "procs b" and d = d, OF _ d(2) list_distinct [OF o d(1)] um]) (use dok in \<open>simp_all add: domain_ok_def\<close>)
  then have "domain_ok g ?d ((procs b)(p := ?x))"
    using dok D by (simp add: domain_ok_def del: fun_upd_apply)
  then show ?thesis unfolding b' owned_frame
    by (intro owned_free_process [OF o d(1,2)]) (use D in \<open>simp_all add: domain_msgs_def process_msgs_def ac_simps del: fun_upd_apply\<close>)
qed


section \<open>What a callback calls\<close>

lemma vq_splice_prepend_places:
  "vq_splice_prepend q r = Some (q', r') \<Longrightarrow>
     mset (vq_items q') + mset (vq_items r') \<subseteq># mset (vq_items q) + mset (vq_items r)"
  by (auto simp: vq_splice_prepend_def vq_empty_def split: if_splits)

lemma msock_receive_owned:
  assumes o: "owned ms ps b" and run: "msock_receive callback data b = Inr b'"
  shows "owned ms ps b'"
proof -
  obtain p bm ib where sp: "vq_splice_prepend (badmatch (procs b p)) (inbox (procs b p)) = Some (bm, ib)"
    and b': "b' = set_process p ((procs b p)\<lparr>receive_callback := callback, receive_data := data, badmatch := bm, inbox := ib\<rparr>) b"
      (is "_ = set_process p ?x b")
    using run by (auto simp: msock_receive_def Let_def)
  have m: "process_msgs ?x + ms \<subseteq># process_msgs (procs b p) + ms"
    using vq_splice_prepend_places [OF sp] by (simp add: process_msgs_def ac_simps)
  have "p \<in># live_processes b \<or> process_msgs ?x = {#}"
    using m o by (auto simp: owned_def)
  then show ?thesis unfolding b' by (intro keeps_process [OF o m]) simp_all
qed

lemma spawn_owned:
  assumes "os_ok (s_os s)" and "owned ms ps b" and "spawn s g callback data hungry b = Inr (pid, b')"
  shows "owned ms ps b'"
  using assms(3) process_new_owned [OF assms(1,2)] owned_forget by (fastforce simp: spawn_def)

text \<open>What a callback does, if the constructors it has run keep the invariant.\<close>

lemma run_act_owned:
  assumes os: "os_ok (s_os s)"
    and rc: "\<And>g pid c data b b'. owned ms ps b \<Longrightarrow> rc g pid c data b = Inr b' \<Longrightarrow> owned ms ps b'"
  shows "owned ms ps b \<Longrightarrow> run_act s rc a b = Inr (r, b') \<Longrightarrow> owned ms ps b'"
proof (induction a arbitrary: b)
  case (World f)
  obtain u a where f: "f (world b) = (u, a)" by fastforce
  have "owned ms ps (b\<lparr>world := u\<rparr>)" "a \<in> Basic_BNFs.snds (f (world b))" using World.prems(1) f by (simp_all add: snds.simps)
  from World.IH [OF rangeI this(2,1)] show ?case using World.prems(2) f by (simp add: Let_def)
next
  case (Send target ty payload sz k)
  then show ?case by (auto simp: msock_send_def intro: Send.IH send_indirect_owned [OF os])
next
  case (Receive cb data k)
  then show ?case by (auto intro: Receive.IH msock_receive_owned)
next
  case (Spawn cb data k)
  then show ?case by (auto simp: msock_spawn_def intro: Spawn.IH spawn_owned [OF os])
next
  case (Spawn2 c data k)
  then show ?case by (auto intro: Spawn2.IH rc [OF spawn_owned [OF os]])
next
  case (Self k)
  then show ?case by auto
next
  case (Loopexit k)
  then show ?case by (auto simp: msock_loopexit_def intro: Loopexit.IH send_broadcast_owned [OF os])
next
  case (Memory_Collect k)
  then show ?case by (auto simp: msock_memory_collect_def intro: Memory_Collect.IH send_flush_outbox_owned [OF send_broadcast_owned [OF os]])
next
  case (Memory_Stats k)
  then show ?case by auto
qed auto

lemma run_constructor_owned:
  assumes os: "os_ok (s_os s)"
  shows "owned ms ps b \<Longrightarrow> run_constructor s prog n g pid c data b = Inr b' \<Longrightarrow> owned ms ps b'"
proof (induction n arbitrary: g pid c data b b')
  case (Suc n)
  obtain p r b1 where a: "run_act s (run_constructor s prog n) (on_construct prog c data) (b\<lparr>current_process := p\<rparr>) = Inr (r, b1)"
    and b': "b' = b1\<lparr>current_process := current_process b\<rparr>"
    using Suc.prems(2) by (auto simp: Let_def)
  have "owned ms ps (b\<lparr>current_process := p\<rparr>)" using Suc.prems(1) by simp
  from run_act_owned [OF os Suc.IH this a] show ?case unfolding b' by simp
qed simp

section \<open>Running\<close>

lemma process_run_owned:
  assumes os: "os_ok (s_os s)"
  shows "owned ms {} b \<Longrightarrow> process_run s prog n p b = Inr b' \<Longrightarrow> owned ms {} b'"
proof (induction n arbitrary: b)
  case (Suc n)
  obtain x q where g: "vq_get (inbox (procs b p)) = (x, q)" by fastforce
  let ?b = "set_process p ((procs b p)\<lparr>inbox := q\<rparr>) b"
  show ?case
  proof (cases x)
    case None
    then have "q = inbox (procs b p)" using vq_get_places(1) g by simp
    then have "?b = b" by (simp add: set_process_def)
    then show ?thesis using Suc.prems g None by simp
  next
    case (Some m)
    have q: "mset (vq_items (inbox (procs b p))) = add_mset m (mset (vq_items q))" using vq_get_places(2) g Some by simp
    have live: "p \<in># live_processes b" using Suc.prems(1) q by (auto simp: owned_def process_msgs_def)
    have o: "owned (add_mset m ms) {} ?b"
      by (rule keeps_process [OF Suc.prems(1)]) (use q live in \<open>simp_all add: process_msgs_def\<close>)
    have o1: "owned (add_mset m ms) {p} ?b" using owned_know [OF o, of "{p}"] live by simp
    obtain cb r b1 where a: "run_act s (run_constructor s prog n) (on_message prog cb (m_type (msgs b m)) (m_payload (msgs b m))
          (m_sz (msgs b m)) (receive_data (procs b p))) ?b = Inr (r, b1)"
      and k: "(if r = RECV_OK then rbind (need (p_domain (procs b1 p))) (\<lambda>g. rbind (message_free g m b1) (process_run s prog n p))
        else if r = RECV_BADMATCH then process_run s prog n p
          (set_process p ((procs b1 p)\<lparr>badmatch := snd (vq_put m (badmatch (procs b1 p)))\<rparr>) b1)
        else if r = RECV_EXIT then rbind (need (p_domain (procs b1 p))) (\<lambda>g. rbind (message_free g m b1) (process_free p))
        else Inl (Fatal ''wtf?'')) = Inr b'"
      using Suc.prems(2) g Some by (auto simp: Let_def split del: if_split)
    have o2: "owned (add_mset m ms) {p} b1" by (rule run_act_owned [OF os run_constructor_owned [OF os] o1 a])
    have bad: "owned ms {} (set_process p ((procs b1 p)\<lparr>badmatch := snd (vq_put m (badmatch (procs b1 p)))\<rparr>) b1)"
      by (rule keeps_process [OF owned_forget [OF o2]])
        (use vq_put_places [of m "badmatch (procs b1 p)"] owned_live [OF o2, of p] in \<open>simp_all add: process_msgs_def ac_simps\<close>)
    have ok: "owned ms {} b'" if "message_free g m b1 = Inr b2" "process_run s prog n p b2 = Inr b'" for g b2
      by (rule Suc.IH [OF owned_forget [OF message_free_owned [OF o2 that(1)]] that(2)]) simp
    have ex: "owned ms {} b'" if "message_free g m b1 = Inr b2" "process_free p b2 = Inr b'" for g b2
    proof -
      have o3: "owned ms {p} b2" by (rule message_free_owned [OF o2 that(1)])
      show ?thesis using process_free_owned [OF o3 owned_live [OF o3] that(2)] by simp
    qed
    show ?thesis using k ok ex Suc.IH [OF bad] by (auto split: if_splits)
  qed
qed simp


lemma dispatch_local_inbox_owned:
  assumes os: "os_ok (s_os s)"
  shows "owned ms ps b \<Longrightarrow> dispatch_local_inbox s g b = Inr (n, b') \<Longrightarrow> owned ms ps b'"
proof (induction "length (local_items g b)" arbitrary: b n rule: less_induct)
  case less
  obtain d where d: "get_domain g b = Inr d"
    using less.prems(2) by (cases "get_domain g b") (simp_all add: dispatch_local_inbox.simps [of s g b])
  obtain x q where g: "vq_get (local_inbox d) = (x, q)" by fastforce
  show ?case
  proof (cases x)
    case None
    then show ?thesis using less.prems d g by (simp add: dispatch_local_inbox.simps [of s g b])
  next
    case (Some m)
    let ?b = "set_domain g (d\<lparr>local_inbox := q\<rparr>) b"
    obtain k b1 j where 1: "dispatch_msg_local s g m ?b = Inr (k, b1)" and 2: "dispatch_local_inbox s g b1 = Inr (j, b')"
      using less.prems(2) d g Some by (auto simp: dispatch_local_inbox.simps [of s g b])
    have q: "mset (vq_items (local_inbox d)) = add_mset m (mset (vq_items q))" using vq_get_places(2) g Some by simp
    have "owned (add_mset m ms) ps ?b"
      by (rule keeps_domain [OF less.prems(1) d])
        (use q owned_domain [OF less.prems(1) d] in \<open>simp_all add: domain_msgs_def domain_ok_def\<close>)
    from less.hyps [OF _ dispatch_msg_local_owned [OF os this 1] 2] show ?thesis
      using dispatch_decreases [OF d _ 1] g Some by simp
  qed
qed

lemma process_queue_run_owned:
  assumes os: "os_ok (s_os s)"
  shows "owned ms {} b \<Longrightarrow> process_queue_run s prog n g b = Inr b' \<Longrightarrow> owned ms {} b'"
proof (induction n arbitrary: b)
  case (Suc n)
  obtain d head h root where d: "get_domain g b = Inr d"
    and k: "(case head of None \<Rightarrow> Inr (set_domain g (d\<lparr>queue_of_busy_processes := root\<rparr>) (b\<lparr>busy_next := h\<rparr>))
       | Some p \<Rightarrow> rbind (process_run s prog n p
           ((set_domain g (d\<lparr>queue_of_busy_processes := root\<rparr>) (b\<lparr>busy_next := h\<rparr>))\<lparr>current_process := Some p\<rparr>)) (\<lambda>b.
           process_queue_run s prog n g (b\<lparr>current_process := None\<rparr>))) = Inr b'"
    using Suc.prems(2) by (auto simp: Let_def)
  have o: "owned ms {} (set_domain g (d\<lparr>queue_of_busy_processes := root\<rparr>) (b\<lparr>busy_next := h\<rparr>))" (is "owned ms {} ?b")
    by (rule keeps_domain [where ms = ms and d = d])
      (use Suc.prems(1) d owned_domain [OF Suc.prems(1) d] in \<open>simp_all add: domain_msgs_def domain_ok_def\<close>)
  show ?case
  proof (cases head)
    case None
    then show ?thesis using k o by simp
  next
    case (Some p)
    then obtain b1 where 1: "process_run s prog n p (?b\<lparr>current_process := Some p\<rparr>) = Inr b1"
      and 2: "process_queue_run s prog n g (b1\<lparr>current_process := None\<rparr>) = Inr b'"
      using k by auto
    have "owned ms {} (?b\<lparr>current_process := Some p\<rparr>)" using o by simp
    from process_run_owned [OF os this 1] show ?thesis using Suc.IH [OF _ 2] by simp
  qed
qed simp

lemma domain_loop_owned:
  assumes os: "os_ok (s_os s)"
  shows "owned ms {} b \<Longrightarrow> domain_loop s prog n g b = Inr b' \<Longrightarrow> owned ms {} b'"
proof (induction n arbitrary: b)
  case (Suc n)
  then show ?case
    by (auto split: if_splits intro: Suc.IH dispatch_local_inbox_owned [OF os process_queue_run_owned [OF os]])
qed simp

lemma domain_receive_owned:
  assumes os: "os_ok (s_os s)" and o: "owned ms ps b" and run: "domain_receive s g b = Inr (n, b')"
  shows "owned ms ps b'"
proof -
  obtain d where d: "get_domain g b = Inr d" using run by (auto simp: domain_receive_def)
  obtain ri li where sp: "vq_splice (remote_inbox d) (local_inbox d) = (ri, li)" by fastforce
  have "owned ms ps (set_domain g (d\<lparr>remote_inbox := ri, local_inbox := li\<rparr>) b)"
    by (rule keeps_domain [OF o d])
      (use vq_splice_places [OF sp] owned_domain [OF o d] in \<open>simp_all add: domain_msgs_def domain_ok_def ac_simps\<close>)
  then show ?thesis
    using dispatch_local_inbox_owned [OF os] run d sp by (auto simp: domain_receive_def)
qed

lemma domain_run_owned:
  assumes os: "os_ok (s_os s)" and "owned ms {} b" and "domain_run s prog n g b = Inr (k, b')"
  shows "owned ms {} b'"
  using assms(3)
  by (auto simp: domain_run_def intro: send_flush_outbox_owned [OF domain_loop_owned [OF os domain_receive_owned [OF os assms(2)]]])

lemma hungry_loop_owned:
  assumes os: "os_ok (s_os s)"
  shows "owned ms {} b \<Longrightarrow> hungry_loop s prog n g p b = Inr b' \<Longrightarrow> owned ms {} b'"
proof (induction n arbitrary: p b)
  case 0
  then show ?case by (cases p) auto
next
  case (Suc n)
  then show ?case
    by (cases p) (auto intro: Suc.IH domain_run_owned [OF os send_indirect_owned [OF os]])
qed

lemma worker_domain_run_owned:
  assumes os: "os_ok (s_os s)" and "owned ms {} b" and "worker_domain_run s prog n g b = Inr b'"
  shows "owned ms {} b'"
proof -
  obtain e b1 d where 1: "domain_run s prog n g b = Inr (e, b1)"
    and "get_domain g b1 = Inr d"
    and k: "(case list_of_hungry_processes d of [] \<Rightarrow> Inr b1
       | p # _ \<Rightarrow> if e = 0 then hungry_loop s prog n g (Some p) b1 else Inr b1) = Inr b'"
    using assms(3) by (auto simp: worker_domain_run_def split del: if_split)
  have o: "owned ms {} b1" by (rule domain_run_owned [OF os assms(2) 1])
  show ?thesis
    using k o hungry_loop_owned [OF os o] by (cases "list_of_hungry_processes d") (auto split: if_splits)
qed

lemma worker_loop_owned:
  assumes os: "os_ok (s_os s)"
  shows "owned ms {} b \<Longrightarrow> worker_loop s prog n b = Inr b' \<Longrightarrow> owned ms {} b'"
proof (induction n arbitrary: b)
  case (Suc n)
  obtain x q where g: "ms_get (queue_of_domains b) = (x, q)" by fastforce
  show ?case
  proof (cases x)
    case None
    then show ?thesis using Suc.prems g by auto
  next
    case (Some g')
    obtain b1 d where 1: "worker_domain_run s prog n g' (b\<lparr>queue_of_domains := q\<rparr>) = Inr b1"
      and "get_domain g' b1 = Inr d"
      and 2: "worker_loop s prog n (if list_of_processes d = [] then b1
        else b1\<lparr>queue_of_domains := ms_put g' (queue_of_domains b1)\<rparr>) = Inr b'"
      using Suc.prems(2) g Some by (auto split del: if_split)
    have "owned ms {} b1" by (rule worker_domain_run_owned [OF os _ 1]) (use Suc.prems(1) in simp)
    then show ?thesis by (intro Suc.IH [OF _ 2]) simp
  qed
qed simp


section \<open>Every state the library can be in\<close>

lemma empty_base_owned:
  assumes "init_mem_zone sizeof_message = Inr zm" and "init_mem_zone sizeof_process = Inr zp"
    and "\<forall>p. process_msgs (ps p) = {#}"
  shows "owned {#} {} (empty_base zm zp ram ms ps h u)"
proof -
  have z: "alloc_wf zone ram {} {#}" if "init_mem_zone sz = Inr zone" for sz zone
    using that init_mem_zone_shape [OF that] by (auto simp: alloc_wf_def init_mem_zone_def Let_def split: if_splits)
  have "zones_ok zm zp ram {#} {#}"
    unfolding zones_ok_def
    by (intro exI [of _ "{}"] exI [of _ "{#}"] conjI z [OF assms(1)] z [OF assms(2)]) (simp_all add: no_full_page_def)
  moreover have "over_domains f (empty_base zm zp ram ms ps h u) = {#}" for f
    by (simp add: over_domains_def empty_base_def MAX_DOMAINS_def numeral_eq_Suc)
  ultimately show ?thesis
    using assms(3) by (auto simp: owned_def message_places_def process_places_def live_processes_def)
      (auto simp: empty_base_def get_domain_def MAX_DOMAINS_def split: if_splits)
qed

text \<open>A new domain is empty; the number of its slots is what \<open>umap_new\<close> can manage.\<close>

lemma over_domains_new:
  assumes "g < length (gid_to_domain b)" and "gid_to_domain b ! g = None"
  shows "over_domains f (set_domain g d b) = over_domains f b + f d"
proof -
  let ?h = "\<lambda>x. case x of None \<Rightarrow> {#} | Some d \<Rightarrow> f d"
  have "(\<Sum>x \<leftarrow> xs[i := Some d]. ?h x) = (\<Sum>x \<leftarrow> xs. ?h x) + f d" if "i < length xs" "xs ! i = None" for xs i
    using that
  proof (induction xs arbitrary: i)
    case (Cons z zs)
    then show ?case by (cases i) (simp_all add: ac_simps)
  qed simp
  from this [OF assms] show ?thesis by (simp add: over_domains_def set_domain_def)
qed

lemma domain_new_owned:
  assumes o: "owned ms ps b" and n: "0 < unat n" "unat n < 2 ^ 31" and run: "domain_new prot data n b = Inr (g, b')"
  shows "owned ms ps b'"
proof -
  have f: "gid_to_domain b ! g = None" "g < MAX_DOMAINS"
    using run by (auto simp: domain_new_def find_free_gid_def Let_def find_Some_iff split: option.splits)
  obtain d ld qd where b': "b' = set_domain g d (b\<lparr>list_of_domains := ld, queue_of_domains := qd\<rparr>)"
    and d: "poff_to_process d = umap_new n (2 ^ (8 * 8 - 5) - 1)" "cache_messages d = init_mem_cache" "cache_processes d = init_mem_cache"
      "list_of_processes d = []" "outbox d = replicate MAX_DOMAINS vq_empty" "remote_inbox d = vq_empty" "local_inbox d = vq_empty"
    using run by (auto simp: domain_new_def Let_def)
  have e: "b' = (set_domain g d b)\<lparr>list_of_domains := ld, queue_of_domains := qd\<rparr>" unfolding b' by (simp add: set_domain_def)
  have mc: "unat (2 ^ (8 * 8 - 5) - 1 :: ulong) = 2 ^ 59 - 1" by simp
  have "umap_wf (umap_new n (2 ^ (8 * 8 - 5) - 1) :: addr umap_root)" "umap_abs (umap_new n (2 ^ (8 * 8 - 5) - 1) :: addr umap_root) = Map.empty"
    by (rule umap_new_wf; use n in \<open>simp add: mc\<close>)+
  then have dok: "domain_ok g d (procs b)"
    using f(2) mc by (simp add: domain_ok_def table_ok_def d init_mem_cache_def) (simp add: umap_new_def)
  have m: "domain_msgs d = {#}" by (simp add: domain_msgs_def d init_mem_cache_def MAX_DOMAINS_def numeral_eq_Suc)
  have "owned ms ps (set_domain g d b)"
  proof (cases "g < length (gid_to_domain b)")
    case False
    then have "set_domain g d b = b" by (cases b) (simp add: set_domain_def list_update_beyond)
    then show ?thesis using o by simp
  next
    case True
    note new = over_domains_new [OF True f(1), of _ d]
    have "message_places (set_domain g d b) = message_places b" "process_places (set_domain g d b) = process_places b"
      "live_processes (set_domain g d b) = live_processes b"
      by (simp_all add: message_places_def process_places_def live_processes_def new m d init_mem_cache_def)
    moreover have "get_domain h (set_domain g d b) = (if h = g then Inr d else get_domain h b)" for h
      using True by (simp add: get_domain_def set_domain_def)
    then have "domain_ok h x (procs b)" if "get_domain h (set_domain g d b) = Inr x" for h x
      using that o dok unfolding owned_def by (cases "h = g") auto
    ultimately show ?thesis using o unfolding owned_def by auto
  qed
  then show ?thesis unfolding e by simp
qed


text \<open>
  The states a program can bring the library into: the zones are set up, the engines make domains and
  processes, names are registered, messages are sent and processes started from outside, the main
  loop runs until it returns, and what is outside the library changes. (No process exists at the
  start; what the map of processes says of the addresses is set to empty queues.)
\<close>

inductive library_state :: "('d, 'u) surroundings \<Rightarrow> ('c, 'd, 'u) program \<Rightarrow> ('c, 'd, 'u) base \<Rightarrow> bool"
  for s prog where
    start: "init_mem_zone sizeof_message = Inr zm \<Longrightarrow> init_mem_zone sizeof_process = Inr zp \<Longrightarrow>
      \<forall>p. process_msgs (ps p) = {#} \<Longrightarrow> library_state s prog (empty_base zm zp ram ms ps h u)"
  | domain: "library_state s prog b \<Longrightarrow> 0 < unat n \<Longrightarrow> unat n < 2 ^ 31 \<Longrightarrow> domain_new prot data n b = Inr (g, b') \<Longrightarrow>
      library_state s prog b'"
  | process: "library_state s prog b \<Longrightarrow> process_new s g callback data hungry b = Inr (p, b') \<Longrightarrow> library_state s prog b'"
  | register: "library_state s prog b \<Longrightarrow> msock_register pid name b = Inr b' \<Longrightarrow> library_state s prog b'"
  | send: "library_state s prog b \<Longrightarrow> msock_base_send s target ty payload sz b = Inr b' \<Longrightarrow> library_state s prog b'"
  | spawn: "library_state s prog b \<Longrightarrow> msock_base_spawn s callback data b = Inr (pid, b') \<Longrightarrow> library_state s prog b'"
  | spawn2: "library_state s prog b \<Longrightarrow> msock_base_spawn2 s prog k c data b = Inr (pid, b') \<Longrightarrow> library_state s prog b'"
  | loop: "library_state s prog b \<Longrightarrow> msock_base_loop s prog k b = Inr b' \<Longrightarrow> library_state s prog b'"
  | outside: "library_state s prog b \<Longrightarrow> library_state s prog (b\<lparr>world := u\<rparr>)"

lemma library_state_owned:
  assumes "library_state s prog b" and os: "os_ok (s_os s)"
  shows "owned {#} {} b"
  using assms(1)
proof induction
  case (start zm zp ps ram ms h u)
  then show ?case by (intro empty_base_owned) auto
next
  case (domain b n prot data g b')
  then show ?case by (intro domain_new_owned [of "{#}" "{}" b n prot data g b'])
next
  case (process b g callback data hungry p b')
  then show ?case using process_new_owned [OF os] owned_forget by blast
next
  case (register b pid name b')
  then obtain nt where "b' = b\<lparr>name_table := nt\<rparr>"
    by (auto simp: msock_register_def Let_def split: if_splits)
  then show ?case using register by simp
next
  case (send b target ty payload sz b')
  then obtain b1 n where "send_indirect s 1 target ty payload sz b = Inr b1" "send_flush_outbox s 1 b1 = Inr (n, b')"
    by (auto simp: msock_base_send_def)
  then show ?case using send_flush_outbox_owned [OF send_indirect_owned [OF os]] send by blast
next
  case (spawn b callback data pid b')
  then show ?case by (auto simp: msock_base_spawn_def intro: spawn_owned [OF os])
next
  case (spawn2 b k c data pid b')
  then obtain b1 where 1: "spawn s 1 None None False b = Inr (pid, b1)" and 2: "run_constructor s prog k 1 pid c data b1 = Inr b'"
    by (auto simp: msock_base_spawn2_def)
  show ?case by (rule run_constructor_owned [OF os spawn_owned [OF os spawn2.IH 1] 2])
next
  case (loop b k b')
  show ?case by (rule worker_loop_owned [OF os loop.IH loop.hyps(2) [unfolded msock_base_loop_def]])
next
  case (outside b u)
  then show ?case by simp
qed

lemma zones_ok_apart:
  assumes z: "zones_ok zm zp ram ms ps" and c: "c \<in># ms"
  shows "c \<notin># ps" and "page_from_chunk c \<in> dom (pages ram)"
proof -
  from z obtain om op hm hp where w: "alloc_wf zm ram om hm" "alloc_wf zp ram op hp" "om \<inter> op = {}" "ms \<subseteq># hm" "ps \<subseteq># hp"
    unfolding zones_ok_def by blast
  have m: "page_from_chunk c \<in> om" using w(1) mset_subset_eqD [OF w(4) c] by (simp add: alloc_wf_def)
  moreover have "page_from_chunk c \<in> op" if "c \<in># ps" using w(2) mset_subset_eqD [OF w(5) that] by (simp add: alloc_wf_def)
  ultimately show "c \<notin># ps" using w(3) by blast
  show "page_from_chunk c \<in> dom (pages ram)" using m alloc_wf_dom [OF w(1)] by blast
qed

text \<open>
  C8: Whatever a program does with the library, no chunk of memory is ever in two places. In every
  state it can bring the library into, a message is at most once in all the caches, inboxes, outboxes
  and queues of processes together; a process is at most once in the lists of live processes and the
  caches of all domains together; no chunk is a message and a process; every chunk that is in a place
  lies in a page that is allocated; and the table of a domain finds exactly the live processes of the
  domain, each under its own pid. (A message can be in no place at all: the library loses messages
  when a process sends to itself, see \<open>Running.receive_then_send_loses\<close>.)
\<close>

theorem chunks_never_shared:
  assumes "library_state s prog b" and "os_ok (s_os s)"
  shows "count (message_places b) c \<le> 1 \<and> count (process_places b) c \<le> 1 \<and>
    (c \<in># message_places b \<longrightarrow> c \<notin># process_places b) \<and>
    (c \<in># message_places b + process_places b \<longrightarrow> page_from_chunk c \<in> dom (pages (memory b))) \<and>
    (\<forall>g d no. get_domain g b = Inr d \<longrightarrow>
      (umap_get (poff_to_process d) no = Inr (Some c) \<longleftrightarrow>
        c \<in> set (list_of_processes d) \<and> no = pid_to_poff (p_pid (procs b c))))"
proof -
  have o: "owned {#} {} b" by (rule library_state_owned [OF assms])
  then have z: "zones_ok (zone_messages b) (zone_processes b) (memory b) (message_places b) (process_places b)"
    by (simp add: owned_def)
  have "umap_get (poff_to_process d) no = Inr (Some c) \<longleftrightarrow>
      c \<in> set (list_of_processes d) \<and> no = pid_to_poff (p_pid (procs b c))" if "get_domain g b = Inr d" for g d no
    using owned_domain [OF o that] by (simp add: domain_ok_def table_ok_def umap_get_abs)
  then show ?thesis
    using zones_ok_distinct [OF z, of c] zones_ok_apart [OF z, of c] zones_ok_apart [OF zones_ok_swap [THEN iffD1, OF z], of c]
    by auto
qed


lemma zones_ok_drains:
  assumes z: "zones_ok zm zp ram ms ps" and c: "mset (vq_items cache) \<subseteq># ms" "vq_wf cache"
  shows "\<exists>r. cache_drain cache zm ram = Inr r"
proof -
  from z obtain om hm where w: "alloc_wf zm ram om hm" "no_full_page zm ram om" "ms \<subseteq># hm"
    unfolding zones_ok_def by blast
  have "mset (vq_items cache) \<subseteq># hm" using c(1) w(3) by (rule subset_mset.order_trans)
  then have "hm = mset (vq_items cache) + (hm - mset (vq_items cache))" by simp
  then show ?thesis using cache_drain_spec [OF _ c(2) w(2), of "hm - mset (vq_items cache)"] w(1) by auto
qed

lemma zones_ok_malloc_error:
  assumes os: "os_ok os" and z: "zones_ok zm zp ram ms ps" and c: "mset (vq_items cache) \<subseteq># ms" "vq_wf cache"
    and run: "cache_malloc os cache zm ram = Inl e"
  shows "\<exists>t. e = Fatal t"
proof -
  from z obtain om hm where w: "alloc_wf zm ram om hm" "no_full_page zm ram om" "ms \<subseteq># hm"
    unfolding zones_ok_def by blast
  have "mset (vq_items cache) \<subseteq># hm" using c(1) w(3) by (rule subset_mset.order_trans)
  then have "alloc_wf zm ram om (mset (vq_items cache) + (hm - mset (vq_items cache)))" using w(1) by simp
  from cache_malloc_error [OF os this c(2) w(2) run] show ?thesis by blast
qed

lemma drain_caches_succeeds:
  assumes o: "owned ms ps b" and d: "get_domain g b = Inr d"
  shows "\<exists>b' d'. drain_caches g b = Inr b' \<and> get_domain g b' = Inr d' \<and> vq_items (cache_messages d') = [] \<and>
    vq_items (cache_processes d') = [] \<and> message_places b = message_places b' + mset (vq_items (cache_messages d)) \<and>
    process_places b = process_places b' + mset (vq_items (cache_processes d))"
proof -
  have dok: "domain_ok g d (procs b)" by (rule owned_domain [OF o d])
  have z: "zones_ok (zone_messages b) (zone_processes b) (memory b) (message_places b + ms) (process_places b)"
    using o by (simp add: owned_def)
  have m: "mset (vq_items (cache_messages d)) \<subseteq># message_places b + ms" "vq_wf (cache_messages d)"
    using cache_in_places(1) [OF d] dok by (simp_all add: subset_mset.add_increasing2 domain_ok_def)
  obtain cm zm r1 where 1: "cache_drain (cache_messages d) (zone_messages b) (memory b) = Inr (cm, zm, r1)"
    using zones_ok_drains [OF z m] by auto
  note z1 = zones_ok_drain [OF z m 1]
  have p: "mset (vq_items (cache_processes d)) \<subseteq># process_places b" "vq_wf (cache_processes d)"
    using cache_in_places(2) [OF d] dok by (simp_all add: domain_ok_def)
  have z2: "zones_ok (zone_processes b) zm r1 (process_places b) (message_places b + ms - mset (vq_items (cache_messages d)))"
    using z1 zones_ok_swap by blast
  obtain cp zp r2 where 2: "cache_drain (cache_processes d) (zone_processes b) r1 = Inr (cp, zp, r2)"
    using zones_ok_drains [OF z2 p] by auto
  let ?d = "d\<lparr>cache_messages := cm, cache_processes := cp\<rparr>"
  let ?b = "set_domain g ?d (b\<lparr>zone_messages := zm, zone_processes := zp, memory := r2\<rparr>)"
  have e: "?b = (set_domain g ?d b)\<lparr>zone_messages := zm, zone_processes := zp, memory := r2\<rparr>" by (simp add: set_domain_def)
  have "message_places (set_domain g ?d b) + domain_msgs d = message_places b + domain_msgs ?d"
    by (rule message_places_domain(1) [OF d]) simp
  then have "message_places b = message_places ?b + mset (vq_items (cache_messages d))"
    unfolding e using z1 by (simp add: domain_msgs_def ac_simps)
  moreover have "process_places b = process_places ?b + mset (vq_items (cache_processes d))"
    unfolding e using process_places_domain [OF d, of ?d] zones_ok_drain [OF z2 p 2] by simp
  moreover have "drain_caches g b = Inr ?b" by (simp add: drain_caches_def d 1 2)
  moreover have "get_domain g ?b = Inr ?d" unfolding e using d by (simp add: get_set_domain)
  ultimately show ?thesis using z1 zones_ok_drain [OF z2 p 2] by auto
qed


text \<open>The zones are set up, a domain is made, and a process in it.\<close>

lemma demo_malloc:
  "\<exists>zm zp cache zone ram. init_mem_zone sizeof_message = Inr zm \<and> init_mem_zone sizeof_process = Inr zp \<and>
     cache_malloc bump_os init_mem_cache zp empty_ram = Inr (8000, cache, zone, ram)"
  by (simp add: init_mem_zone_def cacheline_align_def sizeof_mem_page_def sizeof_mem_chunk_def PAGE_SIZE_def
    CACHELINE_SIZE_def cache_malloc_def cache_fill_def page_alloc_def bump_os_def empty_ram_def
    init_mem_cache_def vq_empty_def vq_get_def vq_put_head_def chunk_addr_def vq_splice_def
    upt_conv_Cons Let_def sizeof_message_def sizeof_process_def)

definition demo_program :: "(nat, nat, nat list) program" where
  "demo_program = \<lparr>on_message = (\<lambda>c ty payload sz data. Return RECV_OK), on_construct = (\<lambda>c data. Return RECV_OK)\<rparr>"

definition demo_start :: "mem_zone \<Rightarrow> mem_zone \<Rightarrow> (nat, nat, nat list) base" where
  "demo_start zm zp = empty_base zm zp empty_ram (\<lambda>_. blank_message) (\<lambda>_. example_process 0 0) (\<lambda>_. Poison) []"

lemma demo_domain:
  "\<exists>b d. domain_new 1 None 16 (demo_start zm zp) = Inr (1, b) \<and> get_domain 1 b = Inr d \<and>
     poff_to_process d = umap_new 16 (2 ^ (8 * 8 - 5) - 1) \<and> cache_processes d = init_mem_cache \<and> list_of_processes d = [] \<and>
     zone_processes b = zp \<and> memory b = empty_ram \<and> cache_messages d = init_mem_cache \<and> zone_messages b = zm \<and>
     queue_of_busy_processes d = INIT_QUEUE_ROOT \<and> msgs b = (\<lambda>_. blank_message)"
  by (simp add: domain_new_def find_free_gid_def demo_start_def empty_base_def MAX_DOMAINS_def numeral_eq_Suc
      Let_def set_domain_def get_domain_def upt_rec del: upt_Suc)

lemma demo_state_of:
  assumes z: "init_mem_zone sizeof_message = Inr zm" "init_mem_zone sizeof_process = Inr zp"
    and c: "cache_malloc bump_os init_mem_cache zp empty_ram = Inr (8000, cache, zone, ram)"
  shows "\<exists>b d. library_state example_surroundings demo_program b \<and> get_domain 1 b = Inr d \<and> list_of_processes d = [8000] \<and>
    cache_messages d = init_mem_cache \<and> zone_messages b = zm \<and> memory b = ram \<and> msgs b = (\<lambda>_. blank_message) \<and>
    inbox (procs b 8000) = vq_empty \<and> queue_rep (busy_next b) (queue_of_busy_processes d) vq_empty"
proof -
  obtain b d where n: "domain_new 1 None 16 (demo_start zm zp) = Inr (1, b)" and d: "get_domain 1 b = Inr d"
    "poff_to_process d = umap_new 16 (2 ^ (8 * 8 - 5) - 1)" "cache_processes d = init_mem_cache" "list_of_processes d = []"
    "zone_processes b = zp" "memory b = empty_ram"
    and e: "cache_messages d = init_mem_cache" "zone_messages b = zm" "queue_of_busy_processes d = INIT_QUEUE_ROOT"
      "msgs b = (\<lambda>_. blank_message)"
    using demo_domain by blast
  have no_msgs: "\<forall>p. process_msgs (example_process 0 0) = {#}" by (simp add: process_msgs_def example_process_def)
  have l: "library_state example_surroundings demo_program b"
    by (rule domain [OF start [OF z no_msgs] _ _ n [unfolded demo_start_def]]) simp_all
  have wf: "umap_wf (poff_to_process d)" unfolding d(2) by (rule umap_new_wf) simp_all
  have f: "vq_items (free_items (poff_to_process d)) = 0 # [1 ..< 16]" unfolding d(2) umap_new_items by (simp add: upt_rec)
  obtain no um where u: "umap_add (poff_to_process d) (Some 8000) = Inr (no, um)" "no \<noteq> 0"
    using umap_add_spec [OF wf f, of 8000] by blast
  let ?d = "d\<lparr>cache_processes := cache\<rparr>" and ?b = "b\<lparr>zone_processes := zone, memory := ram\<rparr>"
  have m: "process_malloc example_surroundings 1 b = Inr (8000, set_domain 1 ?d ?b)"
    using c d by (simp add: process_malloc_def example_surroundings_def)
  have d1: "get_domain 1 (set_domain 1 ?d ?b) = Inr ?d" using d(1) by (simp add: get_set_domain [where d = d])
  let ?d2 = "?d\<lparr>poff_to_process := um, list_of_processes := [8000]\<rparr>"
    and ?x = "\<lparr>inbox = vq_empty, badmatch = vq_empty, receive_callback = Some 0, receive_data = None,
      p_domain = Some 1, p_pid = poff_gid_to_pid no (of_nat 1)\<rparr>"
  let ?b2 = "(set_process 8000 ?x (set_domain 1 ?d2 (set_domain 1 ?d ?b)))\<lparr>busy_next := INIT_QUEUE_HEAD 8000 (busy_next b)\<rparr>"
  have "process_new example_surroundings 1 (Some 0) None False b = Inr (8000, ?b2)"
    using u d(4) by (simp add: process_new_def m d1 Let_def del: One_nat_def)
  then have "library_state example_surroundings demo_program ?b2" by (rule process [OF l])
  moreover have "get_domain 1 ?b2 = Inr ?d2" using get_set_domain [OF d1, of 1 ?d2] by simp
  ultimately show ?thesis using e by (intro exI [of _ ?b2] exI [of _ ?d2]) simp
qed

lemma demo_state:
  "\<exists>b d. library_state example_surroundings demo_program b \<and> get_domain 1 b = Inr d \<and> list_of_processes d = [8000]"
  using demo_malloc demo_state_of by metis

theorem chunks_never_shared_witness:
  "\<exists>b d. get_domain 1 b = Inr d \<and> list_of_processes d = [8000] \<and> count (process_places b) (8000 :: addr) \<le> 1 \<and>
     page_from_chunk 8000 \<in> dom (pages (memory (b :: (nat, nat, nat list) base)))"
proof -
  obtain b d where b: "library_state example_surroundings demo_program b" "get_domain 1 b = Inr d" "list_of_processes d = [8000]"
    using demo_state by blast
  have os: "os_ok (s_os example_surroundings)" by (simp add: example_surroundings_def bump_os_ok)
  have "8000 \<in># process_places b" using live_in_domain [OF b(2)] b(3) by (simp add: process_places_def)
  then show ?thesis using chunks_never_shared [OF b(1) os, of 8000] b(2,3) by auto
qed


end
