(* ===== verification/Broadcast.thy ===== *)
theory Broadcast
  imports Ownership
begin

text \<open>
  The broadcast of a message to the processes of a domain, in any state in which every chunk is
  accounted for (\<open>Ownership.owned\<close>): the clones come from the cache of the domain as long as it lasts,
  and then from the zone and the operating system.
\<close>

section \<open>A chunk that was just handed out\<close>

lemma handed_out_fresh:
  assumes "owned (add_mset c ms) ps b"
  shows "c \<notin># ms" and "c \<notin> set (vq_items (inbox (procs b r)))"
proof -
  have "zones_ok (zone_messages b) (zone_processes b) (memory b) (message_places b + add_mset c ms) (process_places b)"
    using assms by (simp add: owned_def)
  then have "count (message_places b + add_mset c ms) c \<le> 1" by (rule zones_ok_distinct)
  then have c: "c \<notin># message_places b" and ms: "c \<notin># ms" by (simp_all add: not_in_iff)
  show "c \<notin># ms" by (rule ms)
  show "c \<notin> set (vq_items (inbox (procs b r)))"
  proof (cases "r \<in># live_processes b")
    case True
    then obtain L where "live_processes b = add_mset r L" by (metis mset_add)
    then have "c \<notin># process_msgs (procs b r)" using c by (simp add: message_places_def)
    then show ?thesis by (simp add: process_msgs_def)
  next
    case False
    then have "process_msgs (procs b r) = {#}" using assms by (simp add: owned_def)
    then show ?thesis by (simp add: process_msgs_def)
  qed
qed

lemma handed_out_in_cache:
  assumes "owned (add_mset c ms) ps b" and "get_domain g b = Inr d"
  shows "c \<notin> set (vq_items (cache_messages d))"
proof -
  have "zones_ok (zone_messages b) (zone_processes b) (memory b) (message_places b + add_mset c ms) (process_places b)"
    using assms(1) by (simp add: owned_def)
  then have "count (message_places b + add_mset c ms) c \<le> 1" by (rule zones_ok_distinct)
  then have "c \<notin># message_places b" by (simp add: not_in_iff)
  then show ?thesis using mset_subset_eqD [OF cache_in_places(1) [OF assms(2)]] by auto
qed

lemma message_malloc_fails:
  assumes os: "os_ok (s_os s)" and o: "owned ms ps b" and d: "get_domain g b = Inr d"
    and run: "message_malloc s g b = Inl e"
  shows "e = Fatal ''posix_memalign(%i, %i)''"
proof -
  have z: "zones_ok (zone_messages b) (zone_processes b) (memory b) (message_places b + ms) (process_places b)"
    using o by (simp add: owned_def)
  have c: "mset (vq_items (cache_messages d)) \<subseteq># message_places b + ms" "vq_wf (cache_messages d)"
    using cache_in_places(1) [OF d] owned_domain [OF o d] by (simp_all add: subset_mset.add_increasing2 domain_ok_def)
  have "cache_malloc (s_os s) (cache_messages d) (zone_messages b) (memory b) = Inl e"
    using run d by (auto simp: message_malloc_def rbind_eq_Inl)
  from zones_ok_malloc_error [OF os z c this] obtain t where "e = Fatal t" by blast
  then show ?thesis using internal_message_malloc [of s g b] run by simp
qed

lemma owned_routes:
  assumes "owned ms ps b" and "get_domain g b = Inr d"
  shows "ran (umap_abs (poff_to_process d)) = set (list_of_processes d)" and "distinct (list_of_processes d)"
proof -
  have t: "table_ok g d (procs b)" using owned_domain [OF assms] by (simp add: domain_ok_def)
  then show "ran (umap_abs (poff_to_process d)) = set (list_of_processes d)" by (auto simp: table_ok_def ran_def)
  have "count (mset (list_of_processes d)) p \<le> 1" for p
    using owned_live_once [OF assms(1), of p] over_domains_in [OF assms(2), of "\<lambda>d. mset (list_of_processes d)"]
    unfolding live_processes_def by (meson le_trans mset_subset_eq_count)
  then show "distinct (list_of_processes d)"
    by (simp add: distinct_count_atmost_1 count_mset le_Suc_eq) (metis count_list_0_iff)
qed

section \<open>The loop\<close>

lemma broadcast_loop_any:
  assumes os: "os_ok (s_os s)"
  shows "owned (add_mset m ms) {} b \<Longrightarrow> routable g b d q \<Longrightarrow> set ps \<subseteq> set (list_of_processes d) \<Longrightarrow> distinct ps \<Longrightarrow>
    unat (m_sz (msgs b m)) \<le> length (m_payload (msgs b m)) \<Longrightarrow>
    broadcast_loop s g m ps b = Inl (Fatal ''posix_memalign(%i, %i)'') \<or>
    (\<exists>b' d' q' cs. broadcast_loop s g m ps b = Inr b' \<and> owned (add_mset m ms) {} b' \<and> routable g b' d' q' \<and>
       length cs = length ps \<and> distinct cs \<and> m \<notin> set cs \<and> (\<forall>c \<in> set cs. \<forall>r. c \<notin> set (vq_items (inbox (procs b r)))) \<and>
       cloned ps cs m b b')"
proof (induction ps arbitrary: b d q)
  case Nil
  then show ?case by (intro disjI2 exI [of _ b] exI [of _ d] exI [of _ q] exI [of _ "[]"]) (simp add: cloned_def)
next
  case (Cons p ps)
  note o = Cons.prems(1) and r = Cons.prems(2)
  have d: "get_domain g b = Inr d" using r by (simp add: routable_def)
  have p: "p \<in> ran (umap_abs (poff_to_process d))" "p \<in># live_processes b" "p \<notin> set ps"
    using Cons.prems(3,4) owned_routes(1) [OF o d] live_in_domain [OF d] by auto
  show ?case
  proof (cases "message_malloc s g b")
    case (Inl e)
    then show ?thesis using message_malloc_fails [OF os o d Inl] by (simp add: message_clone_def)
  next
    case (Inr x)
    obtain c b1 where m: "message_malloc s g b = Inr (c, b1)" using Inr by (cases x) auto
    obtain cache zone ram where b1: "b1 = set_domain g (d\<lparr>cache_messages := cache\<rparr>) (b\<lparr>zone_messages := zone, memory := ram\<rparr>)"
      using message_mallocD [OF m] d by (metis sum.inject(2))
    have e: "get_domain g b1 = Inr (d\<lparr>cache_messages := cache\<rparr>)" "procs b1 = procs b" "msgs b1 = msgs b" "busy_next b1 = busy_next b"
      using d by (simp_all add: b1 get_set_domain)
    obtain b2 b3 d3 q3 where x: "message_clone s g m b = Inr (c, b2)" "dispatch_msg_single p c b2 = Inr b3"
      "routable g b3 d3 q3" "cloned [p] [c] m b b3" "list_of_processes d3 = list_of_processes d"
      using clone_step [OF r p(1) m e Cons.prems(5)] by metis
    have f: "c \<notin># add_mset m ms" "c \<notin> set (vq_items (inbox (procs b i)))" for i
      using handed_out_fresh [OF message_malloc_owned [OF os o m]] e(2) by simp_all
    then have cm: "c \<noteq> m" by simp
    have o2: "owned (add_mset c (add_mset m ms)) ({p} \<union> {}) b2"
      by (rule message_clone_owned [OF os owned_know [OF o] x(1)]) (use p(2) in simp)
    then have "p \<in># live_processes b2" by (simp add: owned_def)
    from dispatch_msg_single_owned [OF owned_forget [OF o2] this x(2)] have o3: "owned (add_mset m ms) {} b3" by simp
    have "msgs b3 m = msgs b m" using x(4) cm unfolding cloned_def by simp
    with Cons.IH [OF o3 x(3)] Cons.prems(3-5) x(5) consider
      (fail) "broadcast_loop s g m ps b3 = Inl (Fatal ''posix_memalign(%i, %i)'')"
    | (ok) b4 d4 q4 cs where "broadcast_loop s g m ps b3 = Inr b4" "owned (add_mset m ms) {} b4" "routable g b4 d4 q4"
        "length cs = length ps" "distinct cs" "m \<notin> set cs" "\<forall>c \<in> set cs. \<forall>r. c \<notin> set (vq_items (inbox (procs b3 r)))"
        "cloned ps cs m b3 b4"
      by auto
    then show ?thesis
    proof cases
      case fail
      then show ?thesis using x(1,2) by simp
    next
      case ok
      have g: "vq_items (inbox (procs b3 p)) = vq_items (inbox (procs b p)) @ [c]" "\<And>i. i \<noteq> p \<Longrightarrow> procs b3 i = procs b i"
        using x(4) unfolding cloned_def by simp_all
      have "c \<in> set (vq_items (inbox (procs b3 p)))" using g(1) by simp
      then have ccs: "c \<notin> set cs" using ok(7) by blast
      have "cloned (p # ps) (c # cs) m b b4" by (rule cloned_Cons [OF x(4) ok(8) p(3) ccs cm])
      moreover have "a \<notin> set (vq_items (inbox (procs b i)))" if "a \<in> set (c # cs)" for a i
      proof (cases "a = c")
        case False
        then have "a \<notin> set (vq_items (inbox (procs b3 i)))" using that ok(7) by simp
        then show ?thesis using g by (cases "i = p") auto
      qed (simp add: f(2))
      moreover have "broadcast_loop s g m (p # ps) b = Inr b4" using x(1,2) ok(1) by simp
      ultimately show ?thesis using ok(2-6) ccs cm by (intro disjI2 exI [of _ b4] exI [of _ d4] exI [of _ q4] exI [of _ "c # cs"]) auto
    qed
  qed
qed


text \<open>The process of \<open>Ownership.demo_state_of\<close> gets a message that is sent to all processes.\<close>

lemma demo_mallocs:
  "\<exists>zm zp cache zone ram m mcache mzone mram c cs. init_mem_zone sizeof_message = Inr zm \<and> init_mem_zone sizeof_process = Inr zp \<and>
     cache_malloc bump_os init_mem_cache zp empty_ram = Inr (8000, cache, zone, ram) \<and>
     cache_malloc bump_os init_mem_cache zm ram = Inr (m, mcache, mzone, mram) \<and> vq_items mcache = c # cs"
  by (simp add: init_mem_zone_def cacheline_align_def sizeof_mem_page_def sizeof_mem_chunk_def PAGE_SIZE_def
    CACHELINE_SIZE_def cache_malloc_def cache_fill_def page_alloc_def bump_os_def empty_ram_def
    init_mem_cache_def vq_empty_def vq_get_def vq_put_head_def chunk_addr_def vq_splice_def
    upt_conv_Cons Let_def sizeof_message_def sizeof_process_def)


end
