(* ===== verification/Outside.thy ===== *)
theory Outside
  imports Runtime
begin

text \<open>
  The library and what is outside it: memory of the program, descriptors, the system. The library
  touches it only by calling callbacks, constructors and the hooks of the engines, so whatever they
  all keep is kept by everything the library does. This is the rule by which a program that uses
  the library is verified, one callback at a time (\<open>Echosrv\<close>).
\<close>

section \<open>What a callback keeps\<close>

primrec act_keeps :: "('u \<Rightarrow> bool) \<Rightarrow> ('c, 'd, 'u) act \<Rightarrow> bool" where
  "act_keeps I (Return r) \<longleftrightarrow> True"
| "act_keeps I (Fail e) \<longleftrightarrow> True"
| "act_keeps I (World f) \<longleftrightarrow> (\<forall>u. I u \<longrightarrow> (let k = map_prod id (act_keeps I) (f u) in I (fst k) \<and> snd k))"
| "act_keeps I (Send target ty payload sz k) \<longleftrightarrow> act_keeps I k"
| "act_keeps I (Receive cb data k) \<longleftrightarrow> act_keeps I k"
| "act_keeps I (Spawn cb data k) \<longleftrightarrow> (\<forall>pid. act_keeps I (k pid))"
| "act_keeps I (Spawn2 c data k) \<longleftrightarrow> (\<forall>pid. act_keeps I (k pid))"
| "act_keeps I (Self k) \<longleftrightarrow> (\<forall>pid. act_keeps I (k pid))"
| "act_keeps I (Loopexit k) \<longleftrightarrow> act_keeps I k"
| "act_keeps I (Memory_Collect k) \<longleftrightarrow> act_keeps I k"
| "act_keeps I (Memory_Stats k) \<longleftrightarrow> (\<forall>n. act_keeps I (k n))"

definition program_keeps :: "('u \<Rightarrow> bool) \<Rightarrow> ('c, 'd, 'u) program \<Rightarrow> bool" where
  "program_keeps I prog \<longleftrightarrow>
     (\<forall>c ty payload sz data. act_keeps I (on_message prog c ty payload sz data)) \<and>
     (\<forall>c data. act_keeps I (on_construct prog c data))"

definition hooks_keep :: "('u \<Rightarrow> bool) \<Rightarrow> ('d, 'u) surroundings \<Rightarrow> bool" where
  "hooks_keep I s \<longleftrightarrow> (\<forall>kind data u. I u \<longrightarrow> I (ingress_callback s kind data u) \<and> I (destructor s kind data u))"

section \<open>What does not touch the outside\<close>

named_theorems same_world

lemma world_frame [simp]:
  "world (set_domain g d b) = world b"
  "world (set_process p x b) = world b"
  by (simp_all add: set_domain_def set_process_def)

lemma message_malloc_world [same_world]: "message_malloc s g b = Inr (m, b') \<Longrightarrow> world b' = world b"
  by (auto simp: message_malloc_def)

lemma process_malloc_world [same_world]: "process_malloc s g b = Inr (m, b') \<Longrightarrow> world b' = world b"
  by (auto simp: process_malloc_def)

lemma message_free_world [same_world]: "message_free g m b = Inr b' \<Longrightarrow> world b' = world b"
  by (auto simp: message_free_def)

lemma drain_caches_world [same_world]: "drain_caches g b = Inr b' \<Longrightarrow> world b' = world b"
  by (auto simp: drain_caches_def)

lemma dispatch_msg_single_world [same_world]: "dispatch_msg_single p m b = Inr b' \<Longrightarrow> world b' = world b"
  by (auto simp: dispatch_msg_single_def Let_def split: prod.splits if_splits)

lemma broadcast_loop_world [same_world]: "broadcast_loop s g m ps b = Inr b' \<Longrightarrow> world b' = world b"
proof (induction ps arbitrary: b)
  case (Cons p ps)
  then show ?case by (auto simp: message_clone_def Let_def dest!: same_world)
qed simp

lemma dispatch_msg_local_world [same_world]: "dispatch_msg_local s g m b = Inr (n, b') \<Longrightarrow> world b' = world b"
  by (auto simp: dispatch_msg_local_def dispatch_msg_broadcast_def dispatch_special_def Let_def
      split: if_splits option.splits dest!: same_world)

lemma send_indirect_world [same_world]: "send_indirect s g target ty payload sz b = Inr b' \<Longrightarrow> world b' = world b"
  by (auto simp: send_indirect_def Let_def split: if_splits dest!: same_world)

lemma send_broadcast_loop_world: "send_broadcast_loop s g ty vs b = Inr b' \<Longrightarrow> world b' = world b"
proof (induction vs arbitrary: b)
  case (Cons v vs)
  then show ?case by (auto dest!: same_world)
qed simp

lemma send_broadcast_world [same_world]: "send_broadcast s g ty b = Inr b' \<Longrightarrow> world b' = world b"
  by (simp add: send_broadcast_def send_broadcast_loop_world)

lemma process_new_world [same_world]: "process_new s g cb data hungry b = Inr (p, b') \<Longrightarrow> world b' = world b"
  by (auto simp: process_new_def Let_def split: if_splits dest!: same_world)

lemma process_free_world [same_world]: "process_free p b = Inr b' \<Longrightarrow> world b' = world b"
  by (auto simp: process_free_def Let_def case_prod_unfold)

lemma spawn_world [same_world]: "spawn s g cb data hungry b = Inr (pid, b') \<Longrightarrow> world b' = world b"
  by (auto simp: spawn_def dest!: same_world)

lemma msock_receive_world [same_world]: "msock_receive cb data b = Inr b' \<Longrightarrow> world b' = world b"
  by (auto simp: msock_receive_def Let_def)

lemma dispatch_local_inbox_world [same_world]: "dispatch_local_inbox s g b = Inr (n, b') \<Longrightarrow> world b' = world b"
proof (induction s g b arbitrary: n rule: dispatch_local_inbox.induct)
  case (1 s g b)
  obtain d where d: "get_domain g b = Inr d"
    using 1(2) by (subst (asm) dispatch_local_inbox.simps) auto
  obtain m q where mq: "vq_get (local_inbox d) = (m, q)" by (cases "vq_get (local_inbox d)")
  show ?case
  proof (cases m)
    case None
    then show ?thesis using 1(2) d mq by (subst (asm) dispatch_local_inbox.simps) auto
  next
    case (Some x)
    let ?b = "set_domain g (d\<lparr>local_inbox := q\<rparr>) b"
    obtain k b1 n1 where step: "dispatch_msg_local s g x ?b = Inr (k, b1)" "dispatch_local_inbox s g b1 = Inr (n1, b')"
      using 1(2) d mq Some by (subst (asm) dispatch_local_inbox.simps) auto
    have "world b' = world b1"
      by (rule 1(1) [OF d mq [symmetric] Some _ _ step(2)]) (use step(1) in auto)
    then show ?thesis using dispatch_msg_local_world [OF step(1)] by simp
  qed
qed

section \<open>What touches it only through hooks and callbacks\<close>

lemma splice_remote_keeps:
  "hooks_keep I s \<Longrightarrow> splice_remote s g v b = Inr b' \<Longrightarrow> I (world b) \<Longrightarrow> I (world b')"
  by (auto simp: splice_remote_def Let_def hooks_keep_def case_prod_unfold)

lemma flush_loop_keeps:
  assumes "hooks_keep I s" and "flush_loop s g gids cnt b = Inr (n, b')" and "I (world b)"
  shows "I (world b')"
  using assms(2,3)
proof (induction gids arbitrary: cnt b)
  case (Cons v gids)
  then show ?case
    by (auto simp: Let_def case_prod_unfold split: if_splits dest: splice_remote_keeps [OF assms(1)])
qed simp

lemma send_flush_outbox_keeps:
  "hooks_keep I s \<Longrightarrow> send_flush_outbox s g b = Inr (n, b') \<Longrightarrow> I (world b) \<Longrightarrow> I (world b')"
  by (simp add: send_flush_outbox_def flush_loop_keeps)

lemma run_act_keeps:
  assumes "hooks_keep I s" and "act_keeps I a" and "run_act s rc a b = Inr (r, b')" and "I (world b)"
    and rc: "\<And>g pid c data b b'. rc g pid c data b = Inr b' \<Longrightarrow> I (world b) \<Longrightarrow> I (world b')"
  shows "I (world b')"
  using assms(2-4)
proof (induction a arbitrary: b)
  case (World f)
  obtain u a where f: "f (world b) = (u, a)" by (cases "f (world b)")
  have "I u \<and> act_keeps I a" using World.prems(1,3) f by (auto simp: Let_def dest!: spec [of _ "world b"])
  then show ?case using World.IH [of "(u, a)" a "b\<lparr>world := u\<rparr>"] World.prems(2) f
    by (auto simp: Let_def) (metis prod_set_simps rangeI singletonI)
next
  case (Memory_Collect a)
  then show ?case
    by (auto simp: msock_memory_collect_def dest!: send_broadcast_world dest: send_flush_outbox_keeps [OF assms(1)])
next
  case (Spawn cb data k)
  from Spawn.prems(2) obtain pid b1 where r: "msock_spawn s cb data b = Inr (pid, b1)" "run_act s rc (k pid) b1 = Inr (r, b')"
    by auto
  have "world b1 = world b" using r(1) by (auto simp: msock_spawn_def dest!: same_world)
  then show ?case using Spawn.IH [OF _ _ r(2)] Spawn.prems(1,3) by simp
next
  case (Spawn2 c data k)
  from Spawn2.prems(2) obtain g pid b1 b2 where r: "spawn s g None None False b = Inr (pid, b1)" "rc g pid c data b1 = Inr b2"
    "run_act s rc (k pid) b2 = Inr (r, b')" by auto
  have "I (world b1)" using spawn_world [OF r(1)] Spawn2.prems(3) by simp
  then have "I (world b2)" by (rule rc [OF r(2)])
  then show ?case using Spawn2.IH [OF _ _ r(3)] Spawn2.prems(1) by simp
qed (auto simp: msock_send_def msock_spawn_def msock_loopexit_def dest!: same_world)

text \<open>The loops: what all callbacks and hooks keep, they keep.\<close>

lemma run_constructor_keeps:
  assumes h: "hooks_keep I s" and p: "program_keeps I prog"
    and "run_constructor s prog n g pid c data b = Inr b'" and "I (world b)"
  shows "I (world b')"
  using assms(3,4)
proof (induction n arbitrary: g pid c data b b')
  case (Suc n)
  obtain q r b1 where r: "run_act s (run_constructor s prog n) (on_construct prog c data) (b\<lparr>current_process := q\<rparr>) = Inr (r, b1)"
    "b' = b1\<lparr>current_process := current_process b\<rparr>"
    using Suc.prems(1) by (auto simp: Let_def)
  have a: "act_keeps I (on_construct prog c data)" using p by (simp add: program_keeps_def)
  have "I (world b1)" by (rule run_act_keeps [OF h a r(1) _ Suc.IH]) (use Suc.prems(2) in simp_all)
  then show ?case by (simp add: r(2))
qed simp

lemma process_run_keeps:
  assumes h: "hooks_keep I s" and p: "program_keeps I prog"
    and "process_run s prog n q b = Inr b'" and "I (world b)"
  shows "I (world b')"
  using assms(3,4)
proof (induction n arbitrary: b)
  case (Suc n)
  obtain m v where mv: "vq_get (inbox (procs b q)) = (m, v)" by (cases "vq_get (inbox (procs b q))")
  let ?b = "set_process q ((procs b q)\<lparr>inbox := v\<rparr>) b"
  show ?case
  proof (cases m)
    case None
    then show ?thesis using Suc.prems mv by (auto simp: Let_def)
  next
    case (Some x)
    let ?msg = "msgs ?b x"
    obtain cb r b1 where r: "run_act s (run_constructor s prog n)
          (on_message prog cb (m_type ?msg) (m_payload ?msg) (m_sz ?msg) (receive_data (procs b q))) ?b = Inr (r, b1)"
      and rest: "(if r = RECV_OK
             then rbind (need (p_domain (procs b1 q))) (\<lambda>g.
                  rbind (message_free g x b1) (process_run s prog n q))
             else if r = RECV_BADMATCH
             then process_run s prog n q
                    (set_process q ((procs b1 q)\<lparr>badmatch := snd (vq_put x (badmatch (procs b1 q)))\<rparr>) b1)
             else if r = RECV_EXIT
             then rbind (need (p_domain (procs b1 q))) (\<lambda>g.
                  rbind (message_free g x b1) (process_free q))
             else Inl (Fatal ''wtf?'')) = Inr b'"
      using Suc.prems(1) mv Some by (auto simp: Let_def)
    have a: "act_keeps I (on_message prog cb (m_type ?msg) (m_payload ?msg) (m_sz ?msg) (receive_data (procs b q)))"
      using p by (simp add: program_keeps_def)
    have w: "I (world b1)"
      by (rule run_act_keeps [OF h a r _ run_constructor_keeps [OF h p]]) (use Suc.prems(2) in simp_all)
    show ?thesis
      using rest w by (auto split: if_splits intro: Suc.IH dest!: same_world dest: Suc.IH)
  qed
qed simp

lemma process_queue_run_keeps:
  assumes h: "hooks_keep I s" and p: "program_keeps I prog"
    and "process_queue_run s prog n g b = Inr b'" and "I (world b)"
  shows "I (world b')"
  using assms(3,4)
proof (induction n arbitrary: b)
  case (Suc n)
  obtain d head q root where r: "get_domain g b = Inr d"
    "queue_get (busy_next b) (queue_of_busy_processes d) = Some (head, q, root)"
    using Suc.prems(1) by auto
  let ?b = "set_domain g (d\<lparr>queue_of_busy_processes := root\<rparr>) (b\<lparr>busy_next := q\<rparr>)"
  show ?case
  proof (cases head)
    case None
    then show ?thesis using Suc.prems r by (auto simp: Let_def)
  next
    case (Some x)
    then obtain b1 where b1: "process_run s prog n x (?b\<lparr>current_process := Some x\<rparr>) = Inr b1"
      "process_queue_run s prog n g (b1\<lparr>current_process := None\<rparr>) = Inr b'"
      using Suc.prems(1) r by (auto simp: Let_def)
    have "I (world b1)" by (rule process_run_keeps [OF h p b1(1)]) (use Suc.prems(2) in simp)
    then show ?thesis using Suc.IH [OF b1(2)] by simp
  qed
qed simp

lemma domain_loop_keeps:
  assumes h: "hooks_keep I s" and p: "program_keeps I prog"
    and "domain_loop s prog n g b = Inr b'" and "I (world b)"
  shows "I (world b')"
  using assms(3,4)
proof (induction n arbitrary: b)
  case (Suc n)
  then obtain b1 k b2 where r: "process_queue_run s prog n g b = Inr b1" "dispatch_local_inbox s g b1 = Inr (k, b2)"
    "(if k = 0 then Inr b2 else domain_loop s prog n g b2) = Inr b'" by auto
  have "I (world b2)"
    using process_queue_run_keeps [OF h p r(1) Suc.prems(2)] dispatch_local_inbox_world [OF r(2)] by simp
  then show ?case using r(3) Suc.IH by (auto split: if_splits)
qed simp

lemma domain_run_keeps:
  assumes h: "hooks_keep I s" and p: "program_keeps I prog"
    and run: "domain_run s prog n g b = Inr (k, b')" and i: "I (world b)"
  shows "I (world b')"
proof -
  from run obtain m b1 b2 where r: "domain_receive s g b = Inr (m, b1)" "domain_loop s prog n g b1 = Inr b2"
    "send_flush_outbox s g b2 = Inr (k, b')" by (auto simp: domain_run_def)
  have "world b1 = world b" using r(1) by (auto simp: domain_receive_def case_prod_unfold Let_def dest!: same_world)
  then show ?thesis using send_flush_outbox_keeps [OF h r(3)] domain_loop_keeps [OF h p r(2)] i by simp
qed

lemma hungry_loop_keeps:
  assumes h: "hooks_keep I s" and p: "program_keeps I prog"
    and "hungry_loop s prog n g q b = Inr b'" and "I (world b)"
  shows "I (world b')"
  using assms(3,4)
proof (induction n arbitrary: q b)
  case 0
  then show ?case by (cases q) simp_all
next
  case (Suc n)
  show ?case
  proof (cases q)
    case None
    then show ?thesis using Suc.prems by simp
  next
    case (Some x)
    then obtain b1 k b2 q2 where r: "send_indirect s g (p_pid (procs b x)) MSG_QUEUE_EMPTY [] 0 b = Inr b1"
      "domain_run s prog n g b1 = Inr (k, b2)" "hungry_loop s prog n g q2 b2 = Inr b'"
      using Suc.prems(1) by auto
    have "I (world b1)" using send_indirect_world [OF r(1)] Suc.prems(2) by simp
    then show ?thesis using Suc.IH [OF r(3)] domain_run_keeps [OF h p r(2)] by blast
  qed
qed

lemma worker_domain_run_keeps:
  assumes h: "hooks_keep I s" and p: "program_keeps I prog"
    and run: "worker_domain_run s prog n g b = Inr b'" and i: "I (world b)"
  shows "I (world b')"
proof -
  from run obtain k b1 d where r: "domain_run s prog n g b = Inr (k, b1)" "get_domain g b1 = Inr d"
    "(case list_of_hungry_processes d of [] \<Rightarrow> Inr b1
      | q # _ \<Rightarrow> if k = 0 then hungry_loop s prog n g (Some q) b1 else Inr b1) = Inr b'"
    by (auto simp: worker_domain_run_def)
  have "I (world b1)" by (rule domain_run_keeps [OF h p r(1) i])
  then show ?thesis using r(3) hungry_loop_keeps [OF h p] by (auto split: list.splits if_splits)
qed

lemma worker_loop_keeps:
  assumes h: "hooks_keep I s" and p: "program_keeps I prog"
    and "worker_loop s prog n b = Inr b'" and "I (world b)"
  shows "I (world b')"
  using assms(3,4)
proof (induction n arbitrary: b)
  case (Suc n)
  obtain x q where q: "ms_get (queue_of_domains b) = (x, q)" by (cases "ms_get (queue_of_domains b)")
  show ?case
  proof (cases x)
    case None
    then show ?thesis using Suc.prems q by auto
  next
    case (Some g)
    then obtain b1 d where r: "worker_domain_run s prog n g (b\<lparr>queue_of_domains := q\<rparr>) = Inr b1" "get_domain g b1 = Inr d"
      "worker_loop s prog n (if list_of_processes d = [] then b1
         else b1\<lparr>queue_of_domains := ms_put g (queue_of_domains b1)\<rparr>) = Inr b'"
      using Suc.prems(1) q by auto
    have "I (world b1)" by (rule worker_domain_run_keeps [OF h p r(1)]) (use Suc.prems(2) in simp)
    then show ?thesis using Suc.IH [OF r(3)] by simp
  qed
qed simp

lemma engines_stop_loop_keeps:
  assumes h: "hooks_keep I s" and "engines_stop_loop s gs b = Inr b'" and "I (world b)"
  shows "I (world b')"
  using assms(2,3)
proof (induction gs arbitrary: b)
  case (Cons g gs)
  then obtain b1 where r: "domain_free s g b = Inr b1" "engines_stop_loop s gs b1 = Inr b'" by auto
  have "I (world b1)"
    using r(1) Cons.prems(2) h
    by (auto simp: domain_free_def Let_def case_prod_unfold hooks_keep_def dest!: drain_caches_world)
  then show ?case by (rule Cons.IH [OF r(2)])
qed simp

lemma library_keeps_outside:
  assumes h: "hooks_keep I s" and p: "program_keeps I prog" and i: "I (world b)"
  shows "msock_base_spawn2 s prog n c data b = Inr (pid, b1) \<Longrightarrow> I (world b1)"
    and "msock_base_spawn s cb data b = Inr (pid, b1) \<Longrightarrow> I (world b1)"
    and "msock_base_send s target ty payload sz b = Inr b1 \<Longrightarrow> I (world b1)"
    and "msock_base_loop s prog n b = Inr b1 \<Longrightarrow> I (world b1)"
    and "msock_base_free s b = Inr u \<Longrightarrow> I u"
proof -
  show "I (world b1)" if "msock_base_spawn2 s prog n c data b = Inr (pid, b1)"
  proof -
    from that obtain b2 where r: "spawn s 1 None None False b = Inr (pid, b2)" "run_constructor s prog n 1 pid c data b2 = Inr b1"
      by (auto simp: msock_base_spawn2_def)
    show ?thesis by (rule run_constructor_keeps [OF h p r(2)]) (use spawn_world [OF r(1)] i in simp)
  qed
  show "I (world b1)" if "msock_base_send s target ty payload sz b = Inr b1"
    using that i by (auto simp: msock_base_send_def dest!: send_indirect_world dest: send_flush_outbox_keeps [OF h])
  show "I u" if "msock_base_free s b = Inr u"
    using that i by (auto simp: msock_base_free_def engines_stop_def dest: engines_stop_loop_keeps [OF h])
  show "I (world b1)" if "msock_base_spawn s cb data b = Inr (pid, b1)"
    using that i by (auto simp: msock_base_spawn_def dest!: spawn_world)
  show "I (world b1)" if "msock_base_loop s prog n b = Inr b1"
    using that i worker_loop_keeps [OF h p] by (auto simp: msock_base_loop_def)
qed
end
