(* ===== verification/Solo.thy ===== *)
theory Solo
  imports Ownership
begin

text \<open>
  Total correctness of programs whose processes all live in one domain, without engines: what each call
  of the library does to the processes, their mail and the queue of busy processes, and that it returns.
  \<open>solo hand S b\<close> says that the state \<open>b\<close> is, in every detail, one of the library that shows the
  scene \<open>S\<close>; every chunk is accounted for, so at the end the allocator can be seen to get everything back.
\<close>

section \<open>Outcomes\<close>

text \<open>A run ends well, or memory runs out and the library ends the program.\<close>

definition out_of_memory :: error where
  "out_of_memory = Fatal ''posix_memalign(%i, %i)''"

definition ends :: "('a \<Rightarrow> bool) \<Rightarrow> error + 'a \<Rightarrow> bool" where
  "ends P r \<longleftrightarrow> r = Inl out_of_memory \<or> (\<exists>x. r = Inr x \<and> P x)"

lemma ends_Inr [simp]: "ends P (Inr x) \<longleftrightarrow> P x"
  by (simp add: ends_def)

lemma ends_rbind: "ends Q r \<Longrightarrow> (\<And>x. r = Inr x \<Longrightarrow> Q x \<Longrightarrow> ends P (f x)) \<Longrightarrow> ends P (rbind r f)"
  by (auto simp: ends_def)

lemma ends_mono: "ends Q r \<Longrightarrow> (\<And>x. r = Inr x \<Longrightarrow> Q x \<Longrightarrow> P x) \<Longrightarrow> ends P r"
  by (auto simp: ends_def)

section \<open>Memory\<close>

text \<open>Like \<open>zones_ok\<close>, but nothing is lost: the chunks outside the pages are exactly those given.\<close>

definition balanced :: "mem_zone \<Rightarrow> mem_zone \<Rightarrow> ram \<Rightarrow> addr multiset \<Rightarrow> addr multiset \<Rightarrow> bool" where
  "balanced zm zp ram ms ps \<longleftrightarrow> (\<exists>om op. alloc_wf zm ram om ms \<and> no_full_page zm ram om \<and>
     alloc_wf zp ram op ps \<and> no_full_page zp ram op \<and> om \<inter> op = {})"

lemma balanced_ok: "balanced zm zp ram ms ps \<Longrightarrow> zones_ok zm zp ram ms ps"
  unfolding balanced_def zones_ok_def by blast

lemma balanced_swap: "balanced zm zp ram ms ps \<longleftrightarrow> balanced zp zm ram ps ms"
  unfolding balanced_def by (metis inf_commute)

lemma balanced_malloc:
  assumes os: "os_ok os" and z: "balanced zm zp ram (mset (vq_items cache) + out) ps" and c: "vq_wf cache"
  shows "ends (\<lambda>(m, cache', zm', ram'). balanced zm' zp ram' (mset (vq_items cache') + add_mset m out) ps \<and> vq_wf cache')
    (cache_malloc os cache zm ram)"
proof -
  from z obtain om op where w: "alloc_wf zm ram om (mset (vq_items cache) + out)" "no_full_page zm ram om"
    "alloc_wf zp ram op ps" "no_full_page zp ram op" "om \<inter> op = {}"
    unfolding balanced_def by blast
  show ?thesis
  proof (cases "cache_malloc os cache zm ram")
    case (Inl e)
    with cache_malloc_error [OF os w(1) c w(2) Inl] show ?thesis by (simp add: ends_def out_of_memory_def)
  next
    case (Inr r)
    obtain m cache' zm' ram' where r: "r = (m, cache', zm', ram')" by (cases r)
    obtain om' where n: "alloc_wf zm' ram' om' (mset (vq_items cache') + add_mset m out)" "vq_wf cache'"
      "no_full_page zm' ram' om'" "\<forall>p \<in> dom (pages ram) - om. p \<notin> om' \<and> pages ram' p = pages ram p"
      by (rule cache_malloc_ok [OF os w(1) c w(2) Inr [unfolded r]]) blast
    have op: "\<forall>p \<in> op. p \<notin> om' \<and> pages ram' p = pages ram p" using n(4) w(5) alloc_wf_dom [OF w(3)] by blast
    then have "alloc_wf zp ram' op ps" "no_full_page zp ram' op" "om' \<inter> op = {}"
      using alloc_wf_frame [OF w(3)] no_full_page_frame [OF w(4)] by blast+
    then show ?thesis unfolding Inr r balanced_def using n by auto
  qed
qed

section \<open>The scene\<close>

text \<open>The type, the size and the bytes of a message.\<close>

type_synonym letter = "msg_type \<times> 32 word \<times> byte list"

definition letter :: "message \<Rightarrow> letter" where
  "letter m = (m_type m, m_sz m, take (unat (m_sz m)) (m_payload m))"

text \<open>
  The processes, newest first; pid, callback and data of each; its mail; the queue of busy processes;
  whether that queue can be put into; how many processes the table has room for.
\<close>

record ('c, 'd) scene =
  live :: "addr list"
  who :: "addr \<Rightarrow> pid \<times> 'c option \<times> 'd option"
  mail :: "addr \<Rightarrow> letter list"
  busy :: "addr list"
  tail_ok :: bool
  room :: nat

definition solo_process :: "pid \<times> 'c option \<times> 'd option \<Rightarrow> letter list \<Rightarrow> (addr \<Rightarrow> message) \<Rightarrow> ('c, 'd) process \<Rightarrow> bool" where
  "solo_process w ls ms x \<longleftrightarrow> (p_pid x, receive_callback x, receive_data x) = w \<and> pid_to_gid (p_pid x) = 1 \<and>
     badmatch x = vq_empty \<and> vq_wf (inbox x) \<and> map (\<lambda>m. letter (ms m)) (vq_items (inbox x)) = ls"

definition solo_domain :: "('c, 'd) scene \<Rightarrow> 'd domain \<Rightarrow> (addr \<Rightarrow> ('c, 'd) process) \<Rightarrow> bool" where
  "solo_domain S d ps \<longleftrightarrow> list_of_processes d = live S \<and> list_of_hungry_processes d = [] \<and>
     remote_inbox d = vq_empty \<and> local_inbox d = vq_empty \<and> outbox d = replicate MAX_DOMAINS vq_empty \<and>
     proto d = 1 \<and> ingress_callback_data d = None \<and>
     table_ok 1 d ps \<and> vq_wf (cache_messages d) \<and> vq_wf (cache_processes d) \<and>
     length (vq_items (free_items (poff_to_process d))) + length (live S) = room S"

definition solo_busy :: "('c, 'd) scene \<Rightarrow> addr qheap \<Rightarrow> addr queue_root \<Rightarrow> bool" where
  "solo_busy S h root \<longleftrightarrow> (\<exists>q. queue_rep h root q \<and> vq_items q = busy S \<and> (tail_ok S \<longrightarrow> vq_wf q)) \<and>
     set (busy S) \<subseteq> set (live S) \<and> (\<forall>p \<in> set (live S). queue_is_enqueued p h \<longleftrightarrow> p \<in> set (busy S))"

definition letters_held :: "addr list \<Rightarrow> (addr \<Rightarrow> ('c, 'd) process) \<Rightarrow> addr multiset" where
  "letters_held xs ps = (\<Sum>p \<leftarrow> xs. mset (vq_items (inbox (ps p))))"

definition solo_at :: "addr multiset \<Rightarrow> ('c, 'd) scene \<Rightarrow> 'd domain \<Rightarrow> ('c, 'd, 'u) base \<Rightarrow> bool" where
  "solo_at hand S d b \<longleftrightarrow> list_of_domains b = [1] \<and> gid_to_domain b = [None, Some d, None, None, None] \<and>
     solo_domain S d (procs b) \<and> solo_busy S (busy_next b) (queue_of_busy_processes d) \<and>
     (\<forall>p \<in> set (live S). solo_process (who S p) (mail S p) (msgs b) (procs b p)) \<and>
     balanced (zone_messages b) (zone_processes b) (memory b)
       (mset (vq_items (cache_messages d)) + (letters_held (live S) (procs b) + hand))
       (mset (vq_items (cache_processes d)) + mset (live S))"

definition solo :: "addr multiset \<Rightarrow> ('c, 'd) scene \<Rightarrow> ('c, 'd, 'u) base \<Rightarrow> bool" where
  "solo hand S b \<longleftrightarrow> (\<exists>d. solo_at hand S d b)"

text \<open>What the calls leave alone.\<close>

definition rest :: "('c, 'd, 'u) base \<Rightarrow> nat mnode list \<times> pid list \<times> addr option \<times> 'u" where
  "rest b = (queue_of_domains b, name_table b, current_process b, world b)"

lemma solo_frame [simp]:
  "solo hand S (b\<lparr>queue_of_domains := qd\<rparr>) = solo hand S b"
  "solo hand S (b\<lparr>current_process := c\<rparr>) = solo hand S b"
  "solo hand S (b\<lparr>world := u\<rparr>) = solo hand S b"
  by (simp_all add: solo_def solo_at_def)

lemma rest_frame [simp]:
  "rest (set_domain g d b) = rest b" "rest (set_process p x b) = rest b"
  "rest (b\<lparr>zone_messages := zm\<rparr>) = rest b" "rest (b\<lparr>zone_processes := zp\<rparr>) = rest b"
  "rest (b\<lparr>memory := r\<rparr>) = rest b" "rest (b\<lparr>msgs := ms\<rparr>) = rest b" "rest (b\<lparr>busy_next := h\<rparr>) = rest b"
  by (simp_all add: rest_def set_domain_def set_process_def)

lemma solo_atD:
  assumes "solo_at hand S d b"
  shows "get_domain (Suc 0) b = Inr d" and "gid_to_domain b = [None, Some d, None, None, None]" and "list_of_domains b = [1]"
    and "solo_domain S d (procs b)" and "solo_busy S (busy_next b) (queue_of_busy_processes d)"
    and "\<And>p. p \<in> set (live S) \<Longrightarrow> solo_process (who S p) (mail S p) (msgs b) (procs b p)"
    and "balanced (zone_messages b) (zone_processes b) (memory b)
       (mset (vq_items (cache_messages d)) + (letters_held (live S) (procs b) + hand))
       (mset (vq_items (cache_processes d)) + mset (live S))"
    and "vq_wf (cache_messages d)" and "vq_wf (cache_processes d)"
  using assms by (auto simp: solo_at_def solo_domain_def get_domain_def)

lemma set_domain_list [simp]:
  "gid_to_domain b = [None, Some d, None, None, None] \<Longrightarrow>
     gid_to_domain (set_domain (Suc 0) d' b) = [None, Some d', None, None, None]"
  by (simp add: set_domain_def)

lemma list_of_domains_set [simp]:
  "list_of_domains (set_process p x b) = list_of_domains b"
  by (simp add: set_process_def)

lemma solo_domain_same:
  "solo_domain S d ps \<Longrightarrow> list_of_processes d' = list_of_processes d \<Longrightarrow> list_of_hungry_processes d' = list_of_hungry_processes d \<Longrightarrow>
   remote_inbox d' = remote_inbox d \<Longrightarrow> local_inbox d' = local_inbox d \<Longrightarrow> outbox d' = outbox d \<Longrightarrow> proto d' = proto d \<Longrightarrow>
   ingress_callback_data d' = ingress_callback_data d \<Longrightarrow> poff_to_process d' = poff_to_process d \<Longrightarrow>
   vq_wf (cache_messages d') \<Longrightarrow> vq_wf (cache_processes d') \<Longrightarrow> solo_domain S d' ps"
  by (simp add: solo_domain_def table_ok_def)

section \<open>Messages\<close>

lemma message_malloc_solo:
  assumes os: "os_ok (s_os s)" and b: "solo hand S b"
  shows "ends (\<lambda>(m, b'). solo (add_mset m hand) S b' \<and> rest b' = rest b \<and> msgs b' = msgs b) (message_malloc s 1 b)"
proof -
  obtain d where s: "solo_at (hand) S d b" using b by (auto simp: solo_def)
  note d = solo_atD [OF s]
  have "ends (\<lambda>(m, b'). solo (add_mset m hand) S b' \<and> rest b' = rest b \<and> msgs b' = msgs b)
      (case x of (m, cache, zone, ram) \<Rightarrow>
        Inr (m, set_domain (Suc 0) (d\<lparr>cache_messages := cache\<rparr>) (b\<lparr>zone_messages := zone, memory := ram\<rparr>)))"
    if x: "case x of (m, cache', zm', ram') \<Rightarrow> balanced zm' (zone_processes b) ram'
       (mset (vq_items cache') + add_mset m (letters_held (live S) (procs b) + hand))
       (mset (vq_items (cache_processes d)) + mset (live S)) \<and> vq_wf cache'" for x
  proof -
    obtain m cache zone ram where e: "x = (m, cache, zone, ram)" by (cases x)
    have "solo (add_mset m hand) S (set_domain (Suc 0) (d\<lparr>cache_messages := cache\<rparr>) (b\<lparr>zone_messages := zone, memory := ram\<rparr>))"
      unfolding solo_def solo_at_def by (rule exI [where x = "d\<lparr>cache_messages := cache\<rparr>"])
        (use d x e in \<open>simp_all add: solo_domain_same [OF d(4)]\<close>)
    then show ?thesis by (simp add: e)
  qed
  then show ?thesis
    unfolding message_malloc_def One_nat_def d(1) rbind_simps by (rule ends_rbind [OF balanced_malloc [OF os d(7,8)]])
qed

lemma balanced_distinct: "balanced zm zp ram ms ps \<Longrightarrow> count ms c \<le> 1" "balanced zm zp ram ms ps \<Longrightarrow> count ps c \<le> 1"
  using zones_ok_distinct [OF balanced_ok] by blast+

lemma letters_held_in: "p \<in> set xs \<Longrightarrow> m \<in> set (vq_items (inbox (ps p))) \<Longrightarrow> m \<in># letters_held xs ps"
  by (induction xs) (auto simp: letters_held_def)

lemma solo_distinct: "solo hand S b \<Longrightarrow> distinct (live S)"
proof -
  assume b: "solo hand S b"
  obtain d where "solo_at hand S d b" using b by (auto simp: solo_def)
  note bal = solo_atD(7) [OF this]
  show ?thesis
  proof (rule distinct_count_le)
    fix x show "count (mset (live S)) x \<le> 1" using balanced_distinct(2) [OF bal, of x] by simp
  qed
qed

text \<open>A message in hand is in no inbox.\<close>

lemma hand_apart:
  assumes b: "solo (add_mset m hand) S b" and p: "p \<in> set (live S)"
  shows "m \<notin> set (vq_items (inbox (procs b p)))"
proof
  assume i: "m \<in> set (vq_items (inbox (procs b p)))"
  obtain d where "solo_at (add_mset m hand) S d b" using b by (auto simp: solo_def)
  note bal = solo_atD(7) [OF this]
  from balanced_distinct(1) [OF bal, of m] have "count (letters_held (live S) (procs b)) m = 0" by simp
  then show False using letters_held_in [where ps = "procs b", OF p i] by (simp add: count_eq_zero_iff)
qed

lemma solo_write:
  assumes b: "solo (add_mset m hand) S b"
  shows "solo (add_mset m hand) S (b\<lparr>msgs := (msgs b)(m := x)\<rparr>)"
proof -
  obtain d where s: "solo_at (add_mset m hand) S d b" using b by (auto simp: solo_def)
  note d = solo_atD [OF s]
  have "solo_process (who S p) (mail S p) ((msgs b)(m := x)) (procs b p)" if p: "p \<in> set (live S)" for p
  proof -
    have "map (\<lambda>n. letter (((msgs b)(m := x)) n)) (vq_items (inbox (procs b p))) = map (\<lambda>n. letter (msgs b n)) (vq_items (inbox (procs b p)))"
      using hand_apart [OF b p] by (auto intro: map_cong)
    then show ?thesis using d(6) [OF p] unfolding solo_process_def by simp
  qed
  then show ?thesis using d unfolding solo_def solo_at_def by (intro exI [where x = d]) simp_all
qed

lemma message_free_solo:
  assumes b: "solo (add_mset m hand) S b"
  shows "ends (\<lambda>b'. solo hand S b' \<and> rest b' = rest b \<and> msgs b' = msgs b) (message_free 1 m b)"
proof -
  obtain d where s: "solo_at (add_mset m hand) S d b" using b by (auto simp: solo_def)
  note d = solo_atD [OF s]
  let ?d = "d\<lparr>cache_messages := cache_free m (cache_messages d)\<rparr>"
  have "solo hand S (set_domain (Suc 0) ?d b)"
    unfolding solo_def solo_at_def by (rule exI [where x = ?d]) (use d in \<open>simp_all add: solo_domain_same [OF d(4)]\<close>)
  then show ?thesis by (simp add: message_free_def d(1))
qed

section \<open>Delivery\<close>

definition posted :: "addr \<Rightarrow> letter \<Rightarrow> ('c, 'd) scene \<Rightarrow> ('c, 'd) scene" where
  "posted p l S = S\<lparr>mail := (mail S)(p := mail S p @ [l]), busy := (if mail S p = [] then busy S @ [p] else busy S)\<rparr>"

lemma posted_sel [simp]:
  "live (posted p l S) = live S" "who (posted p l S) = who S" "tail_ok (posted p l S) = tail_ok S" "room (posted p l S) = room S"
  by (simp_all add: posted_def)

lemma letters_held_update:
  "p \<notin> set xs \<Longrightarrow> letters_held xs (ps(p := x)) = letters_held xs ps"
  by (induction xs) (auto simp: letters_held_def)

lemma letters_held_put:
  assumes "distinct xs" and "p \<in> set xs"
  shows "letters_held xs (ps(p := x)) + mset (vq_items (inbox (ps p))) = letters_held xs ps + mset (vq_items (inbox x))"
  using assms
proof (induction xs)
  case (Cons y ys)
  then show ?case
    using letters_held_update [where ps = ps, of p ys x]
    by (cases "y = p") (auto simp: letters_held_def ac_simps)
qed simp

lemma path_enqueued: "path h p xs Null \<Longrightarrow> x \<in> set xs \<Longrightarrow> h x \<noteq> Poison"
proof (induction xs arbitrary: p)
  case (Cons y ys)
  then show ?case by (cases ys) auto
qed simp

lemma queue_rep_enqueued: "queue_rep h root q \<Longrightarrow> x \<in> set (vq_items q) \<Longrightarrow> queue_is_enqueued x h"
  using path_enqueued by (fastforce simp: queue_rep_def queue_is_enqueued_def)

lemma solo_queue_put:
  assumes "solo_busy S h root" and "tail_ok S" and "p \<in> set (live S)" and "p \<notin> set (busy S)"
  shows "\<exists>w h' root'. queue_put p h root = Some (w, h', root') \<and> solo_busy (S\<lparr>busy := busy S @ [p]\<rparr>) h' root'"
proof -
  obtain q where q: "queue_rep h root q" "vq_items q = busy S" "vq_wf q" using assms(1,2) by (auto simp: solo_busy_def)
  obtain h' root' where r: "queue_put p h root = Some (fst (vq_put p q), h', root')" "queue_rep h' root' (snd (vq_put p q))"
    "same_off (insert p (set (vq_items q))) h h'"
    using queue_put_refines [OF q(1), of p] assms(4) q(2) by auto
  have i: "vq_items (snd (vq_put p q)) = busy S @ [p]" using vq.put_items [OF q(3)] q(2) by simp
  have e: "queue_is_enqueued r h' \<longleftrightarrow> r \<in> set (busy S @ [p])" if "r \<in> set (live S)" for r
  proof (cases "r \<in> set (busy S @ [p])")
    case True
    then show ?thesis using queue_rep_enqueued [OF r(2), of r] i by simp
  next
    case False
    then have "h' r = h r" using r(3) q(2) by (simp add: same_off_def)
    then show ?thesis using assms(1) that False by (simp add: solo_busy_def queue_is_enqueued_def)
  qed
  have "solo_busy (S\<lparr>busy := busy S @ [p]\<rparr>) h' root'"
    unfolding solo_busy_def using r(2) i e vq.put_invar [OF q(3)] assms(1,3) by (auto simp: solo_busy_def)
  then show ?thesis using r(1) by blast
qed

lemma solo_domain_process:
  "solo_domain S d ps \<Longrightarrow> p_domain x = p_domain (ps p) \<Longrightarrow> p_pid x = p_pid (ps p) \<Longrightarrow> solo_domain S d (ps(p := x))"
  using table_ok_process [of 1 d ps x p] by (simp add: solo_domain_def)

text \<open>The part of \<open>dispatch_msg_single\<close> that concerns the inbox.\<close>

lemma solo_inbox_put:
  assumes s: "solo_at (add_mset m hand) S d b" and p: "p \<in> set (live S)"
  defines "x \<equiv> (procs b p)\<lparr>inbox := snd (vq_put m (inbox (procs b p)))\<rparr>"
  shows "solo_domain S d ((procs b)(p := x))"
    and "\<And>r. r \<in> set (live S) \<Longrightarrow>
      solo_process (who S r) (mail (posted p (letter (msgs b m)) S) r) (msgs b) (((procs b)(p := x)) r)"
    and "letters_held (live S) ((procs b)(p := x)) = add_mset m (letters_held (live S) (procs b))"
    and "fst (vq_put m (inbox (procs b p))) \<longleftrightarrow> mail S p = []"
proof -
  note d = solo_atD [OF s]
  have sp: "solo_process (who S p) (mail S p) (msgs b) (procs b p)" by (rule d(6) [OF p])
  then have w: "vq_wf (inbox (procs b p))" by (simp add: solo_process_def)
  note i = vq.put_items [OF w, of m] vq.put_invar [OF w, of m]
  show "solo_domain S d ((procs b)(p := x))" by (rule solo_domain_process [OF d(4)]) (simp_all add: x_def)
  show "solo_process (who S r) (mail (posted p (letter (msgs b m)) S) r) (msgs b) (((procs b)(p := x)) r)" if "r \<in> set (live S)" for r
    using d(6) [OF that] i by (auto simp: solo_process_def posted_def x_def)
  have "distinct (live S)" using s by (intro solo_distinct) (auto simp: solo_def)
  from letters_held_put [OF this p, of "procs b" x]
  show "letters_held (live S) ((procs b)(p := x)) = add_mset m (letters_held (live S) (procs b))"
    using i by (simp add: x_def)
  show "fst (vq_put m (inbox (procs b p))) \<longleftrightarrow> mail S p = []"
    using vq.put_was_empty [OF w, of m] sp by (auto simp: solo_process_def)
qed

lemma dispatch_msg_single_solo:
  assumes b: "solo (add_mset m hand) S b" and p: "p \<in> set (live S)" and q: "mail S p = [] \<Longrightarrow> tail_ok S \<and> p \<notin> set (busy S)"
  shows "ends (\<lambda>b'. solo hand (posted p (letter (msgs b m)) S) b' \<and> rest b' = rest b \<and> msgs b' = msgs b) (dispatch_msg_single p m b)"
proof -
  obtain d where s: "solo_at (add_mset m hand) S d b" using b by (auto simp: solo_def)
  note d = solo_atD [OF s] and i = solo_inbox_put [OF s p]
  let ?x = "(procs b p)\<lparr>inbox := snd (vq_put m (inbox (procs b p)))\<rparr>" and ?S = "posted p (letter (msgs b m)) S"
  let ?b = "set_process p ?x b"
  have dom: "p_domain (procs b p) = Some (Suc 0)" using d(4) p by (simp add: solo_domain_def table_ok_def)
  show ?thesis
  proof (cases "mail S p = []")
    case False
    have "solo_domain ?S d ((procs b)(p := ?x))" "solo_busy ?S (busy_next b) (queue_of_busy_processes d)"
      using i(1) d(5) False by (simp_all add: solo_domain_def solo_busy_def posted_def)
    then have "solo_at hand ?S d ?b" unfolding solo_at_def using d i(2,3) by (simp add: del: fun_upd_apply)
    then show ?thesis using i(4) False
      by (auto simp: dispatch_msg_single_def Let_def solo_def split: prod.splits)
  next
    case True
    obtain w h root where r: "queue_put p (busy_next b) (queue_of_busy_processes d) = Some (w, h, root)"
      "solo_busy (S\<lparr>busy := busy S @ [p]\<rparr>) h root"
      using solo_queue_put [OF d(5) _ p] q [OF True] by blast
    let ?d = "d\<lparr>queue_of_busy_processes := root\<rparr>"
    have "solo_domain ?S ?d ((procs b)(p := ?x))" "solo_busy ?S h root"
      using i(1) r(2) True by (simp_all add: solo_domain_def solo_busy_def posted_def table_ok_def)
    then have "solo_at hand ?S ?d (set_domain (Suc 0) ?d (?b\<lparr>busy_next := h\<rparr>))"
      unfolding solo_at_def using d i(2,3) by (simp add: del: fun_upd_apply)
    then show ?thesis using i(4) True r(1) d(1) dom
      by (auto simp: dispatch_msg_single_def Let_def solo_def split: prod.splits)
  qed
qed

lemma solo_lookup:
  assumes "solo_at hand S d b" and "p \<in> set (live S)"
  shows "umap_get (poff_to_process d) (pid_to_poff (fst (who S p))) = Inr (Some p)"
    and "pid_to_poff (fst (who S p)) \<noteq> 0" and "pid_to_gid (fst (who S p)) = 1"
    and "p_domain (procs b p) = Some (Suc 0)" and "umap_wf (poff_to_process d)"
proof -
  note d = solo_atD(4,6) [OF assms(1)]
  have sp: "fst (who S p) = p_pid (procs b p)" "pid_to_gid (p_pid (procs b p)) = 1"
    using d(2) [OF assms(2)] by (simp_all add: solo_process_def split: prod.splits) (metis fst_conv)
  have t: "table_ok 1 d (procs b)" "p \<in> set (list_of_processes d)" using d(1) assms(2) by (simp_all add: solo_domain_def)
  then have a: "umap_abs (poff_to_process d) (pid_to_poff (fst (who S p))) = Some p" by (simp add: table_ok_def sp)
  show w: "umap_wf (poff_to_process d)" using t(1) by (simp add: table_ok_def)
  show "umap_get (poff_to_process d) (pid_to_poff (fst (who S p))) = Inr (Some p)" using umap_get_abs [OF w] a by simp
  show "pid_to_poff (fst (who S p)) \<noteq> 0" using a by (auto simp: umap_abs_def Let_def split: if_splits)
  show "pid_to_gid (fst (who S p)) = 1" using sp by simp
  show "p_domain (procs b p) = Some (Suc 0)" using t by (simp add: table_ok_def)
qed

lemma dispatch_msg_local_solo:
  assumes b: "solo (add_mset m hand) S b" and p: "p \<in> set (live S)" and q: "mail S p = [] \<Longrightarrow> tail_ok S \<and> p \<notin> set (busy S)"
    and t: "m_target (msgs b m) = fst (who S p)"
  shows "ends (\<lambda>(n, b'). solo hand (posted p (letter (msgs b m)) S) b' \<and> rest b' = rest b) (dispatch_msg_local s (Suc 0) m b)"
proof -
  obtain d where s: "solo_at (add_mset m hand) S d b" using b by (auto simp: solo_def)
  note l = solo_lookup [OF s p]
  show ?thesis
    unfolding dispatch_msg_local_def t Let_def using l(2)
    by (simp add: solo_atD(1) [OF s] l(1))
      (rule ends_rbind [OF dispatch_msg_single_solo [OF b p q]], assumption, simp)
qed

lemma message_clone_solo:
  assumes os: "os_ok (s_os s)" and b: "solo (add_mset m hand) S b" and z: "m_sz (msgs b m) = 0"
  shows "ends (\<lambda>(c, b'). solo (add_mset c (add_mset m hand)) S b' \<and> rest b' = rest b \<and>
      letter (msgs b' c) = letter (msgs b m) \<and> msgs b' m = msgs b m) (message_clone s (Suc 0) m b)"
proof -
  have "solo (add_mset c (add_mset m hand)) S (b1\<lparr>msgs := (msgs b)(c := x)\<rparr>) \<and> c \<noteq> m"
    if c: "solo (add_mset c (add_mset m hand)) S b1" and r: "rest b1 = rest b" "msgs b1 = msgs b" for c b1 x
  proof -
    obtain d where "solo_at (add_mset c (add_mset m hand)) S d b1" using c by (auto simp: solo_def)
    from balanced_distinct(1) [OF solo_atD(7) [OF this], of m] show ?thesis using solo_write [OF c, of x] r by auto
  qed
  then show ?thesis
    unfolding message_clone_def
    by (intro ends_rbind [OF message_malloc_solo [OF os b, unfolded One_nat_def]]) (auto simp: Let_def z letter_def)
qed

lemma broadcast_loop_solo:
  assumes os: "os_ok (s_os s)"
  shows "solo (add_mset m hand) S b \<Longrightarrow> m_sz (msgs b m) = 0 \<Longrightarrow> set xs \<subseteq> set (live S) \<Longrightarrow> distinct xs \<Longrightarrow>
    (\<And>p. p \<in> set xs \<Longrightarrow> mail S p = [] \<Longrightarrow> tail_ok S \<and> p \<notin> set (busy S)) \<Longrightarrow>
    ends (\<lambda>b'. solo (add_mset m hand) (fold (\<lambda>p. posted p (letter (msgs b m))) xs S) b' \<and> rest b' = rest b)
      (broadcast_loop s (Suc 0) m xs b)"
proof (induction xs arbitrary: S b)
  case (Cons p xs)
  let ?S = "posted p (letter (msgs b m)) S"
  have 1: "ends (\<lambda>b2. solo (add_mset m hand) ?S b2 \<and> rest b2 = rest b \<and> msgs b2 m = msgs b m) (dispatch_msg_single p c b1)"
    if "solo (add_mset c (add_mset m hand)) S b1" "rest b1 = rest b" "letter (msgs b1 c) = letter (msgs b m)" "msgs b1 m = msgs b m" for c b1
    by (rule ends_mono [OF dispatch_msg_single_solo [OF that(1), of p]]) (use that Cons.prems in auto)
  have 2: "ends (\<lambda>b'. solo (add_mset m hand) (fold (\<lambda>p. posted p (letter (msgs b m))) xs ?S) b' \<and> rest b' = rest b)
      (broadcast_loop s (Suc 0) m xs b2)"
    if "solo (add_mset m hand) ?S b2" "rest b2 = rest b" "msgs b2 m = msgs b m" for b2
  proof -
    have "tail_ok ?S \<and> q \<notin> set (busy ?S)" if q: "q \<in> set xs" "mail ?S q = []" for q
    proof -
      have n: "q \<noteq> p" using q(1) Cons.prems(4) by auto
      then have "mail S q = []" using q(2) by (simp add: posted_def)
      then show ?thesis using Cons.prems(5) [of q] q(1) n by (simp add: posted_def)
    qed
    note IH = Cons.IH [OF that(1) _ _ _ this, unfolded that(2,3)]
    show ?thesis by (rule IH) (use Cons.prems(2,3,4) in simp_all)
  qed
  have "ends (\<lambda>b'. solo (add_mset m hand) (fold (\<lambda>p. posted p (letter (msgs b m))) xs ?S) b' \<and> rest b' = rest b)
      (rbind (dispatch_msg_single p c b1) (broadcast_loop s (Suc 0) m xs))"
    if "solo (add_mset c (add_mset m hand)) S b1 \<and> rest b1 = rest b \<and> letter (msgs b1 c) = letter (msgs b m) \<and> msgs b1 m = msgs b m"
    for c b1
    using that by (intro ends_rbind [OF 1]) (simp_all add: 2)
  then show ?case
    unfolding broadcast_loop.simps fold_Cons comp_def
    by (intro ends_rbind [OF message_clone_solo [OF os Cons.prems(1,2)]]) (simp split: prod.splits)
qed simp

definition all_posted :: "letter \<Rightarrow> ('c, 'd) scene \<Rightarrow> ('c, 'd) scene" where
  "all_posted l S = fold (\<lambda>p. posted p l) (live S) S"

lemma fold_posted:
  assumes "distinct xs"
  shows "fold (\<lambda>p. posted p l) xs S = S\<lparr>mail := (\<lambda>p. mail S p @ (if p \<in> set xs then [l] else [])),
    busy := busy S @ filter (\<lambda>p. mail S p = []) xs\<rparr>"
  using assms
proof (induction xs arbitrary: S)
  case (Cons p xs)
  have "filter (\<lambda>q. mail (posted p l S) q = []) xs = filter (\<lambda>q. mail S q = []) xs"
    using Cons.prems by (intro filter_cong) (auto simp: posted_def)
  moreover have "mail (posted p l S) q @ (if q \<in> set xs then [l] else []) = mail S q @ (if q \<in> set (p # xs) then [l] else [])" for q
    using Cons.prems by (simp add: posted_def)
  ultimately show ?case using Cons by (simp add: posted_def fun_eq_iff)
qed simp

text \<open>Anyone may be put into the queue of busy processes who has no mail.\<close>

definition fair :: "('c, 'd) scene \<Rightarrow> addr set \<Rightarrow> bool" where
  "fair S ps \<longleftrightarrow> (\<forall>p \<in> ps. mail S p = [] \<longrightarrow> tail_ok S \<and> p \<notin> set (busy S))"

lemma dispatch_broadcast_solo:
  assumes os: "os_ok (s_os s)" and b: "solo (add_mset m hand) S b" and f: "fair S (set (live S))"
    and m: "m_sz (msgs b m) = 0" "pid_to_poff (m_target (msgs b m)) = 0" "m_type (msgs b m) \<noteq> MSG_GC"
  shows "ends (\<lambda>(n, b'). solo hand (all_posted (letter (msgs b m)) S) b' \<and> rest b' = rest b) (dispatch_msg_local s (Suc 0) m b)"
proof -
  obtain d where s: "solo_at (add_mset m hand) S d b" using b by (auto simp: solo_def)
  have l: "list_of_processes d = live S" using solo_atD(4) [OF s] by (simp add: solo_domain_def)
  have "ends (\<lambda>b'. solo (add_mset m hand) (all_posted (letter (msgs b m)) S) b' \<and> rest b' = rest b)
      (broadcast_loop s (Suc 0) m (live S) b)"
    unfolding all_posted_def
    by (rule broadcast_loop_solo [OF os b m(1) subset_refl solo_distinct [OF b]]) (use f in \<open>simp add: fair_def\<close>)
  then have "ends (\<lambda>b'. solo hand (all_posted (letter (msgs b m)) S) b' \<and> rest b' = rest b) (dispatch_msg_broadcast s (Suc 0) m b)"
    unfolding dispatch_msg_broadcast_def solo_atD(1) [OF s] rbind_simps l
    by (rule ends_rbind) (elim conjE, rule ends_mono [OF message_free_solo [unfolded One_nat_def]], assumption, simp)
  then show ?thesis
    unfolding dispatch_msg_local_def Let_def using m(2,3) by simp (rule ends_rbind, assumption, simp)
qed

section \<open>Sending\<close>

text \<open>A new message, before it is dispatched.\<close>

definition new_message :: "pid \<Rightarrow> msg_type \<Rightarrow> 32 word \<Rightarrow> byte list \<Rightarrow> message \<Rightarrow> bool" where
  "new_message target ty sz payload msg \<longleftrightarrow> m_target msg = target \<and> m_type msg = ty \<and> m_sz msg = sz \<and>
     letter msg = (ty, sz, take (unat sz) payload)"

lemma send_indirect_solo:
  assumes os: "os_ok (s_os s)" and b: "solo hand S b"
    and t: "pid_to_gid target = 1" and sz: "unat sz \<le> MAX_MSG_PAYLOAD_SZ" "unat sz \<le> length payload"
    and run: "\<And>m b1. solo (add_mset m hand) S b1 \<Longrightarrow> rest b1 = rest b \<Longrightarrow> new_message target ty sz payload (msgs b1 m) \<Longrightarrow>
      ends (\<lambda>(n, b'). P b') (dispatch_msg_local s (Suc 0) m b1)"
  shows "ends P (send_indirect s (Suc 0) target ty payload sz b)"
proof -
  have "ends P (rbind (dispatch_msg_local s (Suc 0) m (b1\<lparr>msgs := (msgs b1)(m :=
        \<lparr>m_target = target, m_type = ty, m_sz = sz, m_payload = take (unat sz) payload @ drop (unat sz) x\<rparr>)\<rparr>)) (\<lambda>(_, b). Inr b))"
    if m: "solo (add_mset m hand) S b1" "rest b1 = rest b" for m b1 x
    by (rule ends_rbind [OF run [OF solo_write [OF m(1)]]])
      (use m(2) sz(2) in \<open>auto simp: new_message_def letter_def\<close>)
  moreover have "\<not> length payload < unat sz" using sz(2) by simp
  ultimately have "ends P (case x of (m, b1) \<Rightarrow>
      if of_nat MAX_MSG_PAYLOAD_SZ < (scast sz :: ulong) then Inl (Fatal ''Can't handle that big payload.'')
      else if length payload < unat sz then Inl Bad_Deref
      else let n = unat sz; gid = unat (pid_to_gid target);
             msg = \<lparr>m_target = target, m_type = ty, m_sz = sz, m_payload = take n payload @ drop n (m_payload (msgs b1 m))\<rparr>;
             b1 = b1\<lparr>msgs := (msgs b1)(m := msg)\<rparr>
           in if gid = Suc 0 then rbind (dispatch_msg_local s (Suc 0) m b1) (\<lambda>(_, b). Inr b)
              else rbind (get_domain (Suc 0) b1) (\<lambda>d. if length (outbox d) \<le> gid then Inl Bad_Deref
                else Inr (set_domain (Suc 0) (d\<lparr>outbox := (outbox d)[gid := snd (vq_put m (outbox d ! gid))]\<rparr>) b1)))"
    if "case x of (m, b1) \<Rightarrow> solo (add_mset m hand) S b1 \<and> rest b1 = rest b" for x
    using that small_payload [OF sz(1)] t by (cases x) (simp add: Let_def)
  moreover have "ends (\<lambda>(m, b1). solo (add_mset m hand) S b1 \<and> rest b1 = rest b) (message_malloc s (Suc 0) b)"
    by (rule ends_mono [OF message_malloc_solo [OF os b, unfolded One_nat_def]]) auto
  ultimately show ?thesis
    unfolding send_indirect_def using t by (simp add: ends_rbind)
qed

lemma send_to_solo:
  assumes os: "os_ok (s_os s)" and b: "solo hand S b" and p: "p \<in> set (live S)" and f: "fair S {p}"
    and sz: "unat sz \<le> MAX_MSG_PAYLOAD_SZ" "unat sz \<le> length payload"
  shows "ends (\<lambda>b'. solo hand (posted p (ty, sz, take (unat sz) payload) S) b' \<and> rest b' = rest b)
    (send_indirect s (Suc 0) (fst (who S p)) ty payload sz b)"
proof (rule send_indirect_solo [OF os b _ sz])
  obtain d where s: "solo_at hand S d b" using b by (auto simp: solo_def)
  show "pid_to_gid (fst (who S p)) = 1" by (rule solo_lookup(3) [OF s p])
  fix m b1
  assume m: "solo (add_mset m hand) S b1" "rest b1 = rest b" "new_message (fst (who S p)) ty sz payload (msgs b1 m)"
  show "ends (\<lambda>(n, b'). solo hand (posted p (ty, sz, take (unat sz) payload) S) b' \<and> rest b' = rest b) (dispatch_msg_local s (Suc 0) m b1)"
    by (rule ends_mono [OF dispatch_msg_local_solo [OF m(1) p]]) (use f m in \<open>auto simp: fair_def new_message_def\<close>)
qed

lemma send_broadcast_solo:
  assumes os: "os_ok (s_os s)" and b: "solo hand S b" and f: "fair S (set (live S))" and ty: "ty \<noteq> MSG_GC"
  shows "ends (\<lambda>b'. solo hand (all_posted (ty, 0, []) S) b' \<and> rest b' = rest b) (send_broadcast s (Suc 0) ty b)"
proof -
  let ?t = "poff_gid_to_pid PID_BROADCAST (1 :: ulong)"
  have t: "pid_to_gid ?t = 1" "pid_to_poff ?t = 0"
    using pid_of_parts [of PID_BROADCAST 1] by (simp_all add: PID_BROADCAST_def)
  obtain d where s: "solo_at hand S d b" using b by (auto simp: solo_def)
  have "ends (\<lambda>b'. solo hand (all_posted (ty, 0, []) S) b' \<and> rest b' = rest b) (send_indirect s (Suc 0) ?t ty [] 0 b)"
  proof (rule send_indirect_solo [OF os b t(1)])
    fix m b1
    assume m: "solo (add_mset m hand) S b1" "rest b1 = rest b" "new_message ?t ty 0 [] (msgs b1 m)"
    show "ends (\<lambda>(n, b'). solo hand (all_posted (ty, 0, []) S) b' \<and> rest b' = rest b) (dispatch_msg_local s (Suc 0) m b1)"
      by (rule ends_mono [OF dispatch_broadcast_solo [OF os m(1) f]]) (use m t ty in \<open>auto simp: new_message_def\<close>)
  qed simp_all
  then show ?thesis
    unfolding send_broadcast_def using solo_atD(3) [OF s] by simp (rule ends_rbind, assumption, simp)
qed

section \<open>Processes come and go\<close>

definition gone :: "addr \<Rightarrow> ('c, 'd) scene \<Rightarrow> ('c, 'd) scene" where
  "gone p S = S\<lparr>live := remove1 p (live S), busy := remove1 p (busy S), tail_ok := (tail_ok S \<and> p \<notin> set (busy S))\<rparr>"

lemma letters_held_remove:
  "p \<in> set xs \<Longrightarrow> letters_held xs ps = mset (vq_items (inbox (ps p))) + letters_held (remove1 p xs) ps"
  by (induction xs) (auto simp: letters_held_def ac_simps)

lemma solo_busy_gone:
  assumes s: "solo_busy S h root" and p: "p \<in> set (live S)" and l: "distinct (live S)"
  shows "\<exists>h' root'. (if queue_is_enqueued p h then need (queue_slow_del p h root) else Inr (h, root)) = Inr (h', root') \<and>
    solo_busy (gone p S) h' root'"
proof -
  from s obtain q where q: "queue_rep h root q" "vq_items q = busy S" "tail_ok S \<longrightarrow> vq_wf q" by (auto simp: solo_busy_def)
  have e: "queue_is_enqueued r h \<longleftrightarrow> r \<in> set (busy S)" if "r \<in> set (live S)" for r using s that by (simp add: solo_busy_def)
  have dq: "distinct (busy S)" using q(1,2) by (auto simp: queue_rep_def)
  have sub: "set (busy S) \<subseteq> set (live S)" using s by (simp add: solo_busy_def)
  show ?thesis
  proof (cases "p \<in> set (busy S)")
    case False
    then have "solo_busy (gone p S) h root"
      using q e sub l by (auto simp: solo_busy_def gone_def remove1_idem)
    then show ?thesis using e [OF p] False by simp
  next
    case True
    obtain h' root' where r: "queue_slow_del p h root = Some (h', root')"
      "queue_rep h' root' \<lparr>vq_items = remove1 p (vq_items q), vq_tail = (vq_tail q \<and> last (vq_items q) \<noteq> p)\<rparr>"
      "same_off (set (vq_items q)) h h'"
      using queue_slow_del_spec [OF q(1), of p] True q(2) by auto
    have "queue_is_enqueued x h' \<longleftrightarrow> x \<in> set (remove1 p (busy S))" if x: "x \<in> set (remove1 p (live S))" for x
    proof (cases "x \<in> set (remove1 p (busy S))")
      case True
      then show ?thesis using queue_rep_enqueued [OF r(2), of x] q(2) by simp
    next
      case False
      have "x \<noteq> p" "x \<in> set (live S)" using x l by auto
      then have "x \<notin> set (busy S)" using False dq by simp
      then have "h' x = h x" using r(3) q(2) by (simp add: same_off_def)
      then show ?thesis using e [OF \<open>x \<in> set (live S)\<close>] False \<open>x \<notin> set (busy S)\<close> by (simp add: queue_is_enqueued_def)
    qed
    then have "solo_busy (gone p S) h' root'"
      using r(2) q(2) True sub l dq by (fastforce simp: solo_busy_def gone_def)
    then show ?thesis using e [OF p] True r(1) by simp
  qed
qed

lemma process_free_solo:
  assumes b: "solo hand S b" and p: "p \<in> set (live S)"
  shows "ends (\<lambda>b'. solo hand (gone p S) b' \<and> rest b' = rest b) (process_free p b)"
proof -
  obtain d where s: "solo_at hand S d b" using b by (auto simp: solo_def)
  note d = solo_atD [OF s] and lk = solo_lookup [OF s p] and dist = solo_distinct [OF b]
  have sp: "fst (who S p) = p_pid (procs b p)" "badmatch (procs b p) = vq_empty"
    using d(6) [OF p] by (simp_all add: solo_process_def split: prod.splits) (metis fst_conv)
  obtain c1 ib c2 bm where dr: "drain_message_queue (cache_messages d) (inbox (procs b p)) = (c1, ib)"
    "drain_message_queue c1 (badmatch (procs b p)) = (c2, bm)" by fastforce
  note D = drain_message_queue_spec [OF dr(1)] drain_message_queue_spec [OF dr(2)]
  let ?x = "(procs b p)\<lparr>inbox := ib, badmatch := bm, p_domain := None, p_pid := 0, receive_data := None, receive_callback := None\<rparr>"
  obtain um where um: "umap_del (poff_to_process d) (pid_to_poff (p_pid (procs b p))) = Inr um"
    "length (vq_items (free_items um)) = Suc (length (vq_items (free_items (poff_to_process d))))"
  proof -
    have "umap_abs (poff_to_process d) (pid_to_poff (fst (who S p))) = Some p"
      using lk(1) umap_get_abs [OF lk(5)] by simp
    then have "pid_to_poff (fst (who S p)) \<in> live_nos (poff_to_process d)" by (rule umap_abs_live)
    then show ?thesis using umap_del_spec [OF lk(5,2)] that unfolding sp(1) by auto
  qed
  obtain h root where q: "(if queue_is_enqueued p (busy_next b) then need (queue_slow_del p (busy_next b) (queue_of_busy_processes d))
      else Inr (busy_next b, queue_of_busy_processes d)) = Inr (h, root)" "solo_busy (gone p S) h root"
    using solo_busy_gone [OF d(5) p dist] by blast
  let ?d = "d\<lparr>poff_to_process := um, list_of_processes := remove1 p (list_of_processes d), queue_of_busy_processes := root,
        list_of_hungry_processes := remove1 p (list_of_hungry_processes d),
        cache_messages := c2, cache_processes := cache_free p (cache_processes d)\<rparr>"
  have l: "list_of_processes d = live S" using d(4) by (simp add: solo_domain_def)
  have "table_ok 1 ?d ((procs b)(p := ?x))"
    by (rule umap_del_table [where ps = "procs b" and d = d, OF _ _ _ um(1)]) (use d(4) p dist l in \<open>simp_all add: solo_domain_def\<close>)
  moreover have "length (live S) = Suc (length (remove1 p (live S)))" using length_pos_if_in_set [OF p] p by (simp add: length_remove1)
  ultimately have dom: "solo_domain (gone p S) ?d ((procs b)(p := ?x))"
    using d(4,8,9) D um(2) by (simp add: solo_domain_def gone_def del: fun_upd_apply)
  have new: "p \<notin> set (remove1 p (live S))" using dist by simp
  have "mset (vq_items c2) + letters_held (remove1 p (live S)) ((procs b)(p := ?x)) =
      mset (vq_items (cache_messages d)) + letters_held (live S) (procs b)"
    unfolding letters_held_update [OF new] letters_held_remove [OF p, of "procs b"] using D sp(2) by (simp add: ac_simps)
  then have e1: "mset (vq_items c2) + (letters_held (remove1 p (live S)) ((procs b)(p := ?x)) + hand) =
      mset (vq_items (cache_messages d)) + (letters_held (live S) (procs b) + hand)"
    unfolding add.assoc [symmetric] by (rule arg_cong)
  have e2: "mset (vq_items (cache_free p (cache_processes d))) + mset (remove1 p (live S)) =
      mset (vq_items (cache_processes d)) + mset (live S)"
    using p by simp
  have bal: "balanced (zone_messages b) (zone_processes b) (memory b)
      (mset (vq_items c2) + (letters_held (remove1 p (live S)) ((procs b)(p := ?x)) + hand))
      (mset (vq_items (cache_free p (cache_processes d))) + mset (remove1 p (live S)))"
    unfolding e1 e2 by (rule d(7))
  have "solo_process (who S r) (mail S r) (msgs b) (((procs b)(p := ?x)) r)" if "r \<in> set (remove1 p (live S))" for r
  proof -
    have "r \<noteq> p" "r \<in> set (live S)" using that dist by simp_all
    then show ?thesis using d(6) by simp
  qed
  then have "solo_at hand (gone p S) ?d ((set_process p ?x (set_domain (Suc 0) ?d b))\<lparr>busy_next := h\<rparr>)"
    unfolding solo_at_def using d(2,3) dom q(2) bal by (simp add: gone_def set_process_def del: fun_upd_apply mset_remove1)
  then show ?thesis
    using d(1) lk(4) um(1) q(1) dr by (auto simp: process_free_def Let_def solo_def)
qed

definition arrived :: "addr \<Rightarrow> pid \<times> 'c option \<times> 'd option \<Rightarrow> ('c, 'd) scene \<Rightarrow> ('c, 'd) scene" where
  "arrived p w S = S\<lparr>live := p # live S, who := (who S)(p := w), mail := (mail S)(p := [])\<rparr>"

lemma solo_busy_arrived:
  assumes s: "solo_busy S h root" and p: "p \<notin> set (live S)"
  shows "solo_busy (arrived p w S) (INIT_QUEUE_HEAD p h) root"
proof -
  obtain q where q: "queue_rep h root q" "vq_items q = busy S" "tail_ok S \<longrightarrow> vq_wf q"
    and sub: "set (busy S) \<subseteq> set (live S)" and e: "\<forall>r \<in> set (live S). queue_is_enqueued r h \<longleftrightarrow> r \<in> set (busy S)"
    using s by (auto simp: solo_busy_def)
  have n: "p \<notin> set (busy S)" using sub p by blast
  have "queue_rep (INIT_QUEUE_HEAD p h) root q"
    by (rule queue_rep_frame [OF q(1), of "{p}"]) (use n q(2) in \<open>simp_all add: INIT_QUEUE_HEAD_def same_off_def\<close>)
  then show ?thesis
    using q sub e p n by (auto simp: solo_busy_def arrived_def INIT_QUEUE_HEAD_def queue_is_enqueued_def)
qed

lemma process_new_solo:
  assumes os: "os_ok (s_os s)" and b: "solo hand S b" and r: "length (live S) < room S"
  shows "ends (\<lambda>(p, b'). \<exists>pid. p \<notin> set (live S) \<and> p_pid (procs b' p) = pid \<and> solo hand (arrived p (pid, cb, data) S) b' \<and> rest b' = rest b)
    (process_new s (Suc 0) cb data False b)"
proof -
  obtain d where s: "solo_at hand S d b" using b by (auto simp: solo_def)
  note d = solo_atD [OF s]
  have dd: "list_of_processes d = live S" "table_ok 1 d (procs b)" "umap_wf (poff_to_process d)"
    using d(4) by (simp_all add: solo_domain_def table_ok_def)
  obtain i free where f: "vq_items (free_items (poff_to_process d)) = i # free"
    using r d(4) by (cases "vq_items (free_items (poff_to_process d))") (auto simp: solo_domain_def)
  have "balanced (zone_processes b) (zone_messages b) (memory b)
      (mset (vq_items (cache_processes d)) + mset (live S))
      (mset (vq_items (cache_messages d)) + (letters_held (live S) (procs b) + hand))"
    using d(7) balanced_swap by blast
  note M = balanced_malloc [OF os this d(9)]
  let ?go = "\<lambda>p b. rbind (get_domain (Suc 0) b) (\<lambda>d. rbind (umap_add (poff_to_process d) (Some p)) (\<lambda>(poff, um).
       if poff = 0 then Inl (Fatal ''Not enough slots for new processes!'')
       else let proc = \<lparr>inbox = vq_empty, badmatch = vq_empty, receive_callback = cb, receive_data = data,
                     p_domain = Some (Suc 0), p_pid = poff_gid_to_pid poff (of_nat (Suc 0))\<rparr>;
             d = d\<lparr>poff_to_process := um, list_of_processes := p # list_of_processes d,
                    list_of_hungry_processes := list_of_hungry_processes d\<rparr>
         in Inr (p, (set_process p proc (set_domain (Suc 0) d b))\<lparr>busy_next := INIT_QUEUE_HEAD p (busy_next b)\<rparr>)))"
  have "ends (\<lambda>(p, b'). \<exists>pid. p \<notin> set (live S) \<and> p_pid (procs b' p) = pid \<and> solo hand (arrived p (pid, cb, data) S) b' \<and> rest b' = rest b)
      (?go p (set_domain (Suc 0) (d\<lparr>cache_processes := cache\<rparr>) (b\<lparr>zone_processes := zone, memory := ram\<rparr>)))"
    if z: "balanced zone (zone_messages b) ram (mset (vq_items cache) + add_mset p (mset (live S)))
      (mset (vq_items (cache_messages d)) + (letters_held (live S) (procs b) + hand))" "vq_wf cache" for p cache zone ram
  proof -
    let ?b = "b\<lparr>zone_processes := zone, memory := ram\<rparr>"
    have new: "p \<notin> set (live S)" using balanced_distinct(1) [OF z(1), of p] by (simp add: count_mset_0_iff)
    obtain no um where u: "umap_add (poff_to_process d) (Some p) = Inr (no, um)" "no \<noteq> 0" "vq_items (free_items um) = free"
      using umap_add_spec [OF dd(3) f, of p] by auto
    let ?x = "\<lparr>inbox = vq_empty, badmatch = vq_empty, receive_callback = cb, receive_data = data,
        p_domain = Some (Suc 0), p_pid = poff_gid_to_pid no (of_nat (Suc 0))\<rparr>"
    let ?d = "d\<lparr>cache_processes := cache, poff_to_process := um, list_of_processes := p # list_of_processes d\<rparr>"
    have "table_ok 1 ?d ((procs b)(p := ?x))"
      by (rule umap_add_table [OF dd(2) _ u(1,2)]) (use new dd in \<open>simp_all add: MAX_DOMAINS_def\<close>)
    then have dom: "solo_domain (arrived p (p_pid ?x, cb, data) S) ?d ((procs b)(p := ?x))"
      using d(4,8) z(2) u(3) f by (simp add: solo_domain_def arrived_def del: fun_upd_apply)
    obtain no' where "umap_add (poff_to_process d) (Some p) = Inr (no',
        (poff_to_process d)\<lparr>free_items := snd (vq_get (free_items (poff_to_process d))), counter := no',
             slots := (slots (poff_to_process d))[i := \<lparr>d_no = no', d_ptr = Some p\<rparr>]\<rparr>)" "unat no' < unat (max_counter (poff_to_process d))"
      using umap_add_run [OF dd(3) f, of "Some p"] by blast
    then have "unat no < 2 ^ 59" using u(1) dd(2) by (simp add: table_ok_def)
    then have g: "pid_to_gid (p_pid ?x) = 1" using pid_of_parts(2) [of no 1] by simp
    have "solo_process (who (arrived p (p_pid ?x, cb, data) S) r) (mail (arrived p (p_pid ?x, cb, data) S) r) (msgs b) (((procs b)(p := ?x)) r)"
      if "r \<in> set (p # live S)" for r
      using that d(6) [of r] g by (auto simp: arrived_def solo_process_def)
    moreover have "letters_held (p # live S) ((procs b)(p := ?x)) = letters_held (live S) (procs b)"
      using letters_held_update [OF new, of "procs b" ?x] by (simp add: letters_held_def)
    moreover have "balanced (zone_messages b) zone ram
        (mset (vq_items (cache_messages d)) + (letters_held (live S) (procs b) + hand)) (mset (vq_items cache) + add_mset p (mset (live S)))"
      using z(1) balanced_swap by blast
    ultimately have "solo_at hand (arrived p (p_pid ?x, cb, data) S) ?d
        ((set_process p ?x (set_domain (Suc 0) ?d ?b))\<lparr>busy_next := INIT_QUEUE_HEAD p (busy_next b)\<rparr>)"
      unfolding solo_at_def using d(2,3) dom solo_busy_arrived [OF d(5) new, of "(p_pid ?x, cb, data)"]
      by (simp add: set_process_def arrived_def del: fun_upd_apply)
    moreover have "get_domain (Suc 0) (set_domain (Suc 0) (d\<lparr>cache_processes := cache\<rparr>) ?b) = Inr (d\<lparr>cache_processes := cache\<rparr>)"
      using get_set_domain [of "Suc 0" ?b d] d(1) by simp
    moreover have "set_domain (Suc 0) e (set_domain (Suc 0) e' ?b) = set_domain (Suc 0) e ?b" for e e' by (simp add: set_domain_def)
    ultimately show ?thesis using u(1,2) new by (auto simp: Let_def solo_def)
  qed
  then have "ends (\<lambda>(p, b'). \<exists>pid. p \<notin> set (live S) \<and> p_pid (procs b' p) = pid \<and> solo hand (arrived p (pid, cb, data) S) b' \<and> rest b' = rest b)
      (rbind (case x of (p, cache, zone, ram) \<Rightarrow>
        Inr (p, set_domain (Suc 0) (d\<lparr>cache_processes := cache\<rparr>) (b\<lparr>zone_processes := zone, memory := ram\<rparr>))) (\<lambda>(p, b). ?go p b))"
    if "case x of (p, cache, zone, ram) \<Rightarrow> balanced zone (zone_messages b) ram (mset (vq_items cache) + add_mset p (mset (live S)))
      (mset (vq_items (cache_messages d)) + (letters_held (live S) (procs b) + hand)) \<and> vq_wf cache" for x
    using that by (cases x) (simp only: prod.case rbind_simps)
  from ends_rbind [OF M this] show ?thesis
    unfolding process_new_def process_malloc_def d(1) rbind_simps rbind_assoc if_False .
qed

section \<open>Running a process\<close>

lemma process_run_idle:
  assumes b: "solo hand S b" and p: "p \<in> set (live S)" and m: "mail S p = []"
  shows "process_run s prog (Suc n) p b = Inr b"
proof -
  obtain d where s: "solo_at hand S d b" using b by (auto simp: solo_def)
  have "vq_items (inbox (procs b p)) = []" using solo_atD(6) [OF s p] m by (simp add: solo_process_def)
  from vq.get_Nil [OF this] show ?thesis by (simp add: Let_def set_process_def)
qed

text \<open>The process takes its first message: it is in the hands of the callback then.\<close>

definition taken :: "addr \<Rightarrow> ('c, 'd) scene \<Rightarrow> ('c, 'd) scene" where
  "taken p S = S\<lparr>mail := (mail S)(p := tl (mail S p))\<rparr>"

lemma taken_sel [simp]:
  "live (taken p S) = live S" "who (taken p S) = who S" "busy (taken p S) = busy S" "tail_ok (taken p S) = tail_ok S"
  "room (taken p S) = room S" "mail (taken p S) = (mail S)(p := tl (mail S p))"
  by (simp_all add: taken_def)

lemma solo_take:
  assumes b: "solo hand S b" and p: "p \<in> set (live S)" and m: "mail S p = l # ls"
  obtains m q where "vq_get (inbox (procs b p)) = (Some m, q)" "letter (msgs b m) = l"
    "solo (add_mset m hand) (taken p S) (set_process p ((procs b p)\<lparr>inbox := q\<rparr>) b)"
proof -
  obtain d where s: "solo_at hand S d b" using b by (auto simp: solo_def)
  note d = solo_atD [OF s]
  have sp: "solo_process (who S p) (mail S p) (msgs b) (procs b p)" by (rule d(6) [OF p])
  then obtain m0 ms where i: "vq_items (inbox (procs b p)) = m0 # ms" "letter (msgs b m0) = l" "map (\<lambda>m. letter (msgs b m)) ms = ls"
    using m by (auto simp: solo_process_def)
  obtain q where g: "vq_get (inbox (procs b p)) = (Some m0, q)" "vq_items q = ms"
    using vq.get_Cons [OF i(1)] by (metis prod.collapse)
  have w: "vq_wf q" using vq.get_invar [of "inbox (procs b p)"] sp g(1) by (simp add: solo_process_def)
  let ?x = "(procs b p)\<lparr>inbox := q\<rparr>"
  have "solo_process (who S r) (mail (taken p S) r) (msgs b) (((procs b)(p := ?x)) r)" if "r \<in> set (live S)" for r
    using d(6) [OF that] w g(2) i(3) m by (auto simp: solo_process_def)
  moreover have "solo_domain (taken p S) d ((procs b)(p := ?x))"
    using solo_domain_process [OF d(4), of ?x p] by (simp add: solo_domain_def del: fun_upd_apply)
  moreover have "letters_held (live S) (procs b) = add_mset m0 (letters_held (live S) ((procs b)(p := ?x)))"
    using letters_held_put [OF solo_distinct [OF b] p, of "procs b" ?x] i(1) g(2) by simp
  moreover have "solo_busy (taken p S) (busy_next b) (queue_of_busy_processes d)" using d(5) by (simp add: solo_busy_def)
  ultimately have "solo_at (add_mset m0 hand) (taken p S) d (set_process p ?x b)"
    unfolding solo_at_def using d by (simp add: set_process_def del: fun_upd_apply)
  then show ?thesis using that g i by (auto simp: solo_def)
qed

text \<open>The callback answers \<open>RECV_OK\<close>: the message is freed, and the process goes on.\<close>

lemma process_run_ok:
  assumes b: "solo hand S b" and p: "p \<in> set (live S)" "p \<in> set (live S')"
    and l: "mail S p = (ty, sz, pl) # ls" "who S p = (pid, Some cb, dt)"
    and run: "\<And>m b1 payload. solo (add_mset m hand) (taken p S) b1 \<Longrightarrow> rest b1 = rest b \<Longrightarrow> take (unat sz) payload = pl \<Longrightarrow>
      ends (\<lambda>(r, b2). r = RECV_OK \<and> solo (add_mset m hand) S' b2 \<and> R (rest b2))
        (run_act s (run_constructor s prog n) (on_message prog cb ty payload sz dt) b1)"
    and more: "\<And>b3. solo hand S' b3 \<Longrightarrow> R (rest b3) \<Longrightarrow> ends P (process_run s prog n p b3)"
  shows "ends P (process_run s prog (Suc n) p b)"
proof -
  obtain d where "solo_at hand S d b" using b by (auto simp: solo_def)
  from solo_atD(6) [OF this p(1)] have w: "receive_callback (procs b p) = Some cb" "receive_data (procs b p) = dt"
    using l(2) by (simp_all add: solo_process_def)
  obtain m q where g: "vq_get (inbox (procs b p)) = (Some m, q)" "letter (msgs b m) = (ty, sz, pl)"
    and b1: "solo (add_mset m hand) (taken p S) (set_process p ((procs b p)\<lparr>inbox := q\<rparr>) b)"
    by (rule solo_take [OF b p(1) l(1)])
  have e: "m_type (msgs b m) = ty" "m_sz (msgs b m) = sz" "take (unat sz) (m_payload (msgs b m)) = pl"
    using g(2) by (auto simp: letter_def)
  note R = run [OF b1 _ e(3), simplified]
  have "ends P (rbind (need (p_domain (procs b2 p))) (\<lambda>g. rbind (message_free g m b2) (process_run s prog n p)))"
    if b2: "solo (add_mset m hand) S' b2" "R (rest b2)" for b2
  proof -
    obtain d2 where "solo_at (add_mset m hand) S' d2 b2" using b2(1) by (auto simp: solo_def)
    from solo_lookup(4) [OF this p(2)] show ?thesis
      using that(2) by (auto intro!: ends_rbind [OF message_free_solo [OF that(1), unfolded One_nat_def]] more)
  qed
  then show ?thesis
    by (simp add: Let_def g(1) w e) (rule ends_rbind [OF R], clarsimp)
qed

text \<open>The callback answers \<open>RECV_EXIT\<close>: the process is freed.\<close>

lemma process_run_exit:
  assumes b: "solo hand S b" and p: "p \<in> set (live S)" "p \<in> set (live S')"
    and l: "mail S p = (ty, sz, pl) # ls" "who S p = (pid, Some cb, dt)"
    and run: "\<And>m b1 payload. solo (add_mset m hand) (taken p S) b1 \<Longrightarrow> rest b1 = rest b \<Longrightarrow> take (unat sz) payload = pl \<Longrightarrow>
      ends (\<lambda>(r, b2). r = RECV_EXIT \<and> solo (add_mset m hand) S' b2 \<and> R (rest b2))
        (run_act s (run_constructor s prog n) (on_message prog cb ty payload sz dt) b1)"
  shows "ends (\<lambda>b'. solo hand (gone p S') b' \<and> R (rest b')) (process_run s prog (Suc n) p b)"
proof -
  obtain d where "solo_at hand S d b" using b by (auto simp: solo_def)
  from solo_atD(6) [OF this p(1)] have w: "receive_callback (procs b p) = Some cb" "receive_data (procs b p) = dt"
    using l(2) by (simp_all add: solo_process_def)
  obtain m q where g: "vq_get (inbox (procs b p)) = (Some m, q)" "letter (msgs b m) = (ty, sz, pl)"
    and b1: "solo (add_mset m hand) (taken p S) (set_process p ((procs b p)\<lparr>inbox := q\<rparr>) b)"
    by (rule solo_take [OF b p(1) l(1)])
  have e: "m_type (msgs b m) = ty" "m_sz (msgs b m) = sz" "take (unat sz) (m_payload (msgs b m)) = pl"
    using g(2) by (auto simp: letter_def)
  note R = run [OF b1 _ e(3), simplified]
  have "ends (\<lambda>b'. solo hand (gone p S') b' \<and> R (rest b'))
      (rbind (need (p_domain (procs b2 p))) (\<lambda>g. rbind (message_free g m b2) (process_free p)))"
    if b2: "solo (add_mset m hand) S' b2" "R (rest b2)" for b2
  proof -
    obtain d2 where "solo_at (add_mset m hand) S' d2 b2" using b2(1) by (auto simp: solo_def)
    from solo_lookup(4) [OF this p(2)] show ?thesis
      using that(2) by (auto intro!: ends_rbind [OF message_free_solo [OF that(1), unfolded One_nat_def]]
          intro: ends_mono [OF process_free_solo [OF _ p(2)]])
  qed
  moreover have "RECV_EXIT \<noteq> RECV_OK" "RECV_EXIT \<noteq> RECV_BADMATCH" by (simp_all add: recvs)
  ultimately show ?thesis
    by (simp add: Let_def g(1) w e) (rule ends_rbind [OF R], clarsimp)
qed

section \<open>Calls of a callback\<close>

text \<open>A process of the scene is being run.\<close>

lemma current_domain_solo:
  assumes "solo hand S b" and "current_process b = Some p" and "p \<in> set (live S)"
  shows "current_domain b = Inr (Suc 0)"
proof -
  obtain d where "solo_at hand S d b" using assms(1) by (auto simp: solo_def)
  from solo_lookup(4) [OF this assms(3)] show ?thesis using assms(2) by (simp add: current_domain_def get_current_process_def)
qed

lemma msock_send_solo:
  assumes os: "os_ok (s_os s)" and b: "solo hand S b" and c: "current_process b = Some p" "p \<in> set (live S)"
    and q: "q \<in> set (live S)" "fair S {q}" and sz: "unat sz \<le> MAX_MSG_PAYLOAD_SZ" "unat sz \<le> length payload"
  shows "ends (\<lambda>b'. solo hand (posted q (ty, sz, take (unat sz) payload) S) b' \<and> rest b' = rest b)
    (msock_send s (fst (who S q)) ty payload sz b)"
  unfolding msock_send_def current_domain_solo [OF b c] rbind_simps by (rule send_to_solo [OF os b q sz])

lemma msock_loopexit_solo:
  assumes os: "os_ok (s_os s)" and b: "solo hand S b" and c: "current_process b = Some p" "p \<in> set (live S)"
    and f: "fair S (set (live S))"
  shows "ends (\<lambda>b'. solo hand (all_posted (MSG_EXIT, 0, []) S) b' \<and> rest b' = rest b) (msock_loopexit s b)"
proof -
  have "MSG_EXIT \<noteq> MSG_GC" by (simp add: msg_types)
  from send_broadcast_solo [OF os b f this] show ?thesis
    unfolding msock_loopexit_def current_domain_solo [OF b c] rbind_simps .
qed

section \<open>Running the domain\<close>

definition served :: "('c, 'd) scene \<Rightarrow> ('c, 'd) scene" where
  "served S = S\<lparr>busy := tl (busy S)\<rparr>"

lemma served_sel [simp]:
  "live (served S) = live S" "who (served S) = who S" "mail (served S) = mail S" "tail_ok (served S) = tail_ok S"
  "room (served S) = room S" "busy (served S) = tl (busy S)"
  by (simp_all add: served_def)

lemma set_domain_same: "get_domain g b = Inr d \<Longrightarrow> set_domain g d b = b"
  by (auto simp: set_domain_def get_domain_def split: if_splits) (metis base.surjective base.update_convs(4) list_update_id)

lemma solo_queue_get:
  assumes "solo_busy S h root" and "busy S = p # bs"
  shows "\<exists>h' root'. queue_get h root = Some (Some p, h', root') \<and> solo_busy (served S) h' root'"
proof -
  obtain q where q: "queue_rep h root q" "vq_items q = busy S" "tail_ok S \<longrightarrow> vq_wf q" using assms(1) by (auto simp: solo_busy_def)
  have g: "fst (vq_get q) = Some p" "vq_items (snd (vq_get q)) = bs" using vq.get_Cons [of q p bs] q(2) assms(2) by simp_all
  obtain h' root' where r: "queue_get h root = Some (Some p, h', root')" "queue_rep h' root' (snd (vq_get q))"
    "same_off {p} h h'" "\<not> queue_is_enqueued p h'"
    using queue_get_refines [OF q(1)] g by auto
  have d: "distinct (busy S)" using q by (auto simp: queue_rep_def)
  have e: "queue_is_enqueued x h \<longleftrightarrow> x \<in> set (busy S)" if "x \<in> set (live S)" for x using assms(1) that by (simp add: solo_busy_def)
  have "queue_is_enqueued x h' \<longleftrightarrow> x \<in> set bs" if "x \<in> set (live S)" for x
  proof (cases "x = p")
    case True
    then show ?thesis using r(4) d assms(2) by simp
  next
    case False
    then have "h' x = h x" using r(3) by (simp add: same_off_def)
    then show ?thesis using e [OF that] False assms(2) by (simp add: queue_is_enqueued_def)
  qed
  moreover have "tail_ok S \<longrightarrow> vq_wf (snd (vq_get q))" using q(3) vq.get_invar by blast
  moreover have "set bs \<subseteq> set (live S)" using assms by (auto simp: solo_busy_def)
  ultimately have "solo_busy (served S) h' root'"
    unfolding solo_busy_def using r(2) g(2) assms(2) by auto
  then show ?thesis using r(1) by blast
qed

lemma process_queue_run_step:
  assumes b: "solo {#} S b" and q: "busy S = p # bs"
    and run: "\<And>b1. solo {#} (served S) b1 \<Longrightarrow> queue_of_domains b1 = queue_of_domains b \<Longrightarrow> name_table b1 = name_table b \<Longrightarrow>
      current_process b1 = Some p \<Longrightarrow> world b1 = world b \<Longrightarrow> ends Q (process_run s prog n p b1)"
    and more: "\<And>b2. Q b2 \<Longrightarrow> ends P (process_queue_run s prog n (Suc 0) (b2\<lparr>current_process := None\<rparr>))"
  shows "ends P (process_queue_run s prog (Suc n) (Suc 0) b)"
proof -
  obtain d where s: "solo_at {#} S d b" using b by (auto simp: solo_def)
  note d = solo_atD [OF s]
  obtain h root where g: "queue_get (busy_next b) (queue_of_busy_processes d) = Some (Some p, h, root)" "solo_busy (served S) h root"
    using solo_queue_get [OF d(5) q] by blast
  let ?d = "d\<lparr>queue_of_busy_processes := root\<rparr>"
  let ?b = "set_domain (Suc 0) ?d (b\<lparr>busy_next := h\<rparr>)"
  have "solo_domain (served S) ?d (procs b)" using d(4) by (simp add: solo_domain_def table_ok_def)
  then have "solo_at {#} (served S) ?d ?b" unfolding solo_at_def using d g(2) by simp
  then have "solo {#} (served S) (?b\<lparr>current_process := Some p\<rparr>)" by (auto simp: solo_def solo_at_def)
  from ends_rbind [OF run [OF this] more] show ?thesis using d(1) g(1) by (simp add: Let_def)
qed

lemma process_queue_run_done:
  assumes b: "solo hand S b" and q: "busy S = []"
  shows "process_queue_run s prog (Suc n) (Suc 0) b = Inr b"
proof -
  obtain d where s: "solo_at hand S d b" using b by (auto simp: solo_def)
  note d = solo_atD [OF s]
  have f: "q_first (queue_of_busy_processes d) = Null" using d(5) q queue_rep_first by (auto simp: solo_busy_def)
  have "b\<lparr>busy_next := busy_next b\<rparr> = b" "d\<lparr>queue_of_busy_processes := queue_of_busy_processes d\<rparr> = d" by simp_all
  then show ?thesis using d(1) f by (simp add: queue_get_def Let_def set_domain_same)
qed

lemma dispatch_local_inbox_solo:
  assumes b: "solo hand S b"
  shows "dispatch_local_inbox s (Suc 0) b = Inr (0, b)"
proof -
  obtain d where s: "solo_at hand S d b" using b by (auto simp: solo_def)
  then have "local_inbox d = vq_empty" using solo_atD(4) by (auto simp: solo_domain_def)
  then show ?thesis using solo_atD(1) [OF s] by (simp add: dispatch_local_inbox.simps [of s] vq_get_def vq_empty_def)
qed

lemma domain_receive_solo:
  assumes b: "solo hand S b"
  shows "domain_receive s (Suc 0) b = Inr (0, b)"
proof -
  obtain d where s: "solo_at hand S d b" using b by (auto simp: solo_def)
  have i: "local_inbox d = vq_empty" "remote_inbox d = vq_empty" using solo_atD(4) [OF s] by (auto simp: solo_domain_def)
  have "d\<lparr>remote_inbox := vq_empty, local_inbox := vq_empty\<rparr> = d" using i by (metis domain.surjective domain.update_convs(5,6))
  moreover have "vq_splice vq_empty vq_empty = (vq_empty, vq_empty :: addr vqueue)" by (simp add: vq_splice_def vq_empty_def)
  ultimately show ?thesis
    using solo_atD(1) [OF s] dispatch_local_inbox_solo [OF b] by (simp add: domain_receive_def i set_domain_same)
qed

lemma send_flush_outbox_solo:
  assumes b: "solo hand S b"
  shows "send_flush_outbox s (Suc 0) b = Inr (0, b)"
proof -
  obtain d where s: "solo_at hand S d b" using b by (auto simp: solo_def)
  have o: "outbox d = replicate MAX_DOMAINS vq_empty" using solo_atD(4) [OF s] by (simp add: solo_domain_def)
  have f: "set gids \<subseteq> {..< MAX_DOMAINS} \<Longrightarrow> flush_loop s (Suc 0) gids cnt b = Inr (cnt, b)" for gids cnt
    by (induction gids) (auto simp: solo_atD(1) [OF s] o Let_def)
  show ?thesis unfolding send_flush_outbox_def by (rule f) auto
qed

lemma domain_run_solo:
  assumes b: "solo {#} S b" and run: "ends (\<lambda>b'. P b' \<and> (\<exists>S'. solo {#} S' b' \<and> Q S')) (process_queue_run s prog n (Suc 0) b)"
  shows "ends (\<lambda>(k, b'). k = 0 \<and> P b' \<and> (\<exists>S'. solo {#} S' b' \<and> Q S')) (domain_run s prog (Suc n) (Suc 0) b)"
proof -
  have "ends (\<lambda>b'. P b' \<and> (\<exists>S'. solo {#} S' b' \<and> Q S')) (domain_loop s prog (Suc n) (Suc 0) b)"
    unfolding domain_loop.simps by (rule ends_rbind [OF run]) (auto simp: dispatch_local_inbox_solo)
  then show ?thesis
    unfolding domain_run_def domain_receive_solo [OF b] rbind_simps prod.case
    by (rule ends_rbind) (auto simp: send_flush_outbox_solo)
qed

lemma worker_domain_run_solo:
  assumes b: "solo {#} S b" and run: "ends (\<lambda>b'. P b' \<and> (\<exists>S'. solo {#} S' b' \<and> Q S')) (process_queue_run s prog n (Suc 0) b)"
  shows "ends (\<lambda>b'. P b' \<and> (\<exists>S'. solo {#} S' b' \<and> Q S')) (worker_domain_run s prog (Suc n) (Suc 0) b)"
  unfolding worker_domain_run_def
proof (rule ends_rbind [OF domain_run_solo [OF b run]])
  fix x assume x: "case x of (k, b') \<Rightarrow> k = 0 \<and> P b' \<and> (\<exists>S'. solo {#} S' b' \<and> Q S')"
  obtain b1 S1 where e: "x = (0, b1)" "P b1" "solo {#} S1 b1" "Q S1" using x by (cases x) auto
  obtain d where s: "solo_at {#} S1 d b1" using e(3) by (auto simp: solo_def)
  have "list_of_hungry_processes d = []" using solo_atD(4) [OF s] by (simp add: solo_domain_def)
  then show "ends (\<lambda>b'. P b' \<and> (\<exists>S'. solo {#} S' b' \<and> Q S')) (case x of (egress_msgs, b) \<Rightarrow>
      rbind (get_domain (Suc 0) b) (\<lambda>d. case list_of_hungry_processes d of [] \<Rightarrow> Inr b
        | p # _ \<Rightarrow> if egress_msgs = 0 then hungry_loop s prog (Suc n) (Suc 0) (Some p) b else Inr b))"
    using e solo_atD(1) [OF s] by auto
qed

text \<open>A domain whose processes all come to an end.\<close>

lemma msock_base_loop_solo:
  fixes b :: "('c, 'd, 'u) base"
  assumes b: "solo {#} S b" and d: "queue_of_domains b = ms_put 1 ms_new"
    and run: "\<And>b1. solo {#} S b1 \<Longrightarrow> queue_of_domains b1 \<noteq> queue_of_domains b \<Longrightarrow> current_process b1 = current_process b \<Longrightarrow>
      world b1 = world b \<Longrightarrow>
      ends (\<lambda>b'. (W (world b') \<and> queue_of_domains b' = queue_of_domains b1) \<and> (\<exists>S'. solo {#} S' b' \<and> live S' = []))
        (process_queue_run s prog n (Suc 0) b1)"
  shows "ends (\<lambda>b'. \<exists>S'. solo {#} S' b' \<and> live S' = [] \<and> W (world b')) (msock_base_loop s prog (Suc (Suc n)) b)"
proof -
  obtain q q' where q: "ms_get (queue_of_domains b) = (Some (Suc 0), q)" "ms_get q = (None, q')" "q \<noteq> queue_of_domains b"
    unfolding d by (simp add: ms_put_def ms_new_def ms_get_def)
  let ?b = "b\<lparr>queue_of_domains := q\<rparr>"
  have "ends (\<lambda>b'. (W (world b') \<and> queue_of_domains b' = q) \<and> (\<exists>S'. solo {#} S' b' \<and> live S' = []))
      (worker_domain_run s prog (Suc n) (Suc 0) ?b)"
    by (rule worker_domain_run_solo) (use b run [of ?b] q(3) in auto)
  then have "ends (\<lambda>b'. \<exists>S'. solo {#} S' b' \<and> live S' = [] \<and> W (world b'))
      (rbind (worker_domain_run s prog (Suc n) (Suc 0) ?b) (\<lambda>b. rbind (get_domain (Suc 0) b) (\<lambda>d.
         worker_loop s prog (Suc n) (if list_of_processes d = [] then b
           else b\<lparr>queue_of_domains := ms_put (Suc 0) (queue_of_domains b)\<rparr>))))"
  proof (rule ends_rbind)
    fix b1 :: "('c, 'd, 'u) base"
    assume "(W (world b1) \<and> queue_of_domains b1 = q) \<and> (\<exists>S'. solo {#} S' b1 \<and> live S' = [])"
    then obtain S1 where e: "W (world b1)" "queue_of_domains b1 = q" "solo {#} S1 b1" "live S1 = []" by blast
    obtain d where s: "solo_at {#} S1 d b1" using e(3) by (auto simp: solo_def)
    have "list_of_processes d = []" using solo_atD(4) [OF s] e(4) by (simp add: solo_domain_def)
    then show "ends (\<lambda>b'. \<exists>S'. solo {#} S' b' \<and> live S' = [] \<and> W (world b')) (rbind (get_domain (Suc 0) b1) (\<lambda>d.
         worker_loop s prog (Suc n) (if list_of_processes d = [] then b1
           else b1\<lparr>queue_of_domains := ms_put (Suc 0) (queue_of_domains b1)\<rparr>)))"
      using e solo_atD(1) [OF s] q(2) by auto
  qed
  then show ?thesis unfolding msock_base_loop_def worker_loop.simps(2) [of s prog "Suc n"] q(1) by simp
qed

section \<open>From the start to the end\<close>

text \<open>The engine of the program's own processes is always there; here it is the only one.\<close>

definition user_engine :: "ulong \<Rightarrow> ulong \<Rightarrow> (('c, 'd, 'u) base \<Rightarrow> error + ('c, 'd, 'u) base) option list" where
  "user_engine max_open_files max_processes =
     [None, Some (engine_user_constructor max_open_files max_processes), None, None, None]"

definition engine_user_destructor :: "'d option \<Rightarrow> 'u \<Rightarrow> 'u" where
  "engine_user_destructor data u = u"

definition engine_user_ingress_callback :: "'d option \<Rightarrow> 'u \<Rightarrow> 'u" where
  "engine_user_ingress_callback data u = u"

definition user_surroundings :: "os \<Rightarrow> ('d, 'u) surroundings" where
  "user_surroundings os = \<lparr>s_os = os, ingress_callback = (\<lambda>kind. engine_user_ingress_callback), destructor = (\<lambda>kind. engine_user_destructor)\<rparr>"

lemma user_surroundings_sel [simp]: "s_os (user_surroundings os) = os" "destructor (user_surroundings os) kind data u = u"
  by (simp_all add: user_surroundings_def engine_user_destructor_def)

text \<open>A string with a newline at its end.\<close>

definition line :: "string \<Rightarrow> string" where
  "line text = text @ [CHR 0x0A]"

definition empty_scene :: "nat \<Rightarrow> ('c, 'd) scene" where
  "empty_scene n = \<lparr>live = [], who = (\<lambda>_. (0, None, None)), mail = (\<lambda>_. []), busy = [], tail_ok = True, room = n\<rparr>"

lemma zone_start:
  assumes "init_mem_zone sz = Inr zone"
  shows "alloc_wf zone ram {} {#}"
  using assms init_mem_zone_shape [OF assms] by (auto simp: alloc_wf_def init_mem_zone_def Let_def split: if_splits)

lemma msock_base_new_solo:
  assumes n: "0 < unat n" "unat n < 2 ^ 31"
  shows "\<exists>b. msock_base_new (user_engine mof n) 0 ram ms ps h u = Inr b \<and> solo {#} (empty_scene (unat n)) b \<and>
    queue_of_domains b = ms_put 1 ms_new \<and> current_process b = None \<and> world b = u"
proof -
  obtain zm where zm: "init_mem_zone sizeof_message = Inr zm"
    by (simp add: init_mem_zone_def sizeof_message_def cacheline_align_def CACHELINE_SIZE_def PAGE_SIZE_def sizeof_mem_page_def
        sizeof_mem_chunk_def Let_def)
  obtain zp where zp: "init_mem_zone sizeof_process = Inr zp"
    by (simp add: init_mem_zone_def sizeof_process_def cacheline_align_def CACHELINE_SIZE_def PAGE_SIZE_def sizeof_mem_page_def
        sizeof_mem_chunk_def Let_def)
  let ?b = "empty_base zm zp ram ms ps h u" and ?um = "umap_new n (2 ^ (8 * 8 - 5) - 1) :: addr umap_root"
  let ?d = "\<lparr>poff_to_process = ?um, queue_of_busy_processes = INIT_QUEUE_ROOT, cache_messages = init_mem_cache,
      cache_processes = init_mem_cache, remote_inbox = vq_empty, local_inbox = vq_empty,
      proto = 1, ingress_callback_data = None, list_of_processes = [], list_of_hungry_processes = [],
      outbox = replicate MAX_DOMAINS vq_empty\<rparr>"
  let ?b1 = "set_domain (Suc 0) ?d (?b\<lparr>list_of_domains := [Suc 0], queue_of_domains := ms_put (Suc 0) ms_new\<rparr>)"
  have mc: "unat (2 ^ (8 * 8 - 5) - 1 :: ulong) = 2 ^ 59 - 1" by simp
  have um: "umap_wf ?um" "umap_abs ?um = Map.empty"
    by (rule umap_new_wf; use n in \<open>simp add: mc\<close>)+
  have "find_free_gid ?b = Inr (Suc 0)"
    by (simp add: find_free_gid_def empty_base_def MAX_DOMAINS_def upt_conv_Cons)
  then have e: "engine_user_constructor mof n ?b = Inr ?b1"
    using n by (cases "n = 0") (simp_all add: engine_user_constructor_def domain_new_def Let_def empty_base_def)
  have "table_ok 1 ?d (procs ?b1)"
    using um mc by (simp add: table_ok_def) (simp add: umap_new_def)
  then have "solo_domain (empty_scene (unat n)) ?d (procs ?b1)"
    by (simp add: solo_domain_def empty_scene_def umap_new_items init_mem_cache_def)
  moreover have "solo_busy (empty_scene (unat n)) (busy_next ?b1) INIT_QUEUE_ROOT"
    by (auto simp: solo_busy_def empty_scene_def intro: exI [of _ vq_empty])
  moreover have "balanced zm zp ram {#} {#}"
    unfolding balanced_def using zone_start [OF zm] zone_start [OF zp]
    by (intro exI [of _ "{}"]) (simp add: no_full_page_def)
  ultimately have "solo_at {#} (empty_scene (unat n)) ?d ?b1"
    by (simp add: solo_at_def set_domain_def empty_base_def MAX_DOMAINS_def numeral_eq_Suc letters_held_def empty_scene_def init_mem_cache_def)
  then have "solo {#} (empty_scene (unat n)) ?b1" by (auto simp: solo_def)
  moreover have "\<not> bit (2 :: ulong) 0" "bit (2 :: ulong) (Suc 0)" "\<not> bit (2 :: ulong) (Suc (Suc 0))"
    "\<not> bit (2 :: ulong) (Suc (Suc (Suc 0)))" "\<not> bit (2 :: ulong) (Suc (Suc (Suc (Suc 0))))"
    by (simp_all add: bit_simps bit_Suc)
  ultimately show ?thesis
    by (simp add: msock_base_new_def zm zp user_engine_def e) (simp add: empty_base_def)
qed

lemma msock_base_spawn_solo:
  assumes os: "os_ok (s_os s)" and b: "solo {#} S b" and r: "length (live S) < room S"
  shows "ends (\<lambda>(pid, b'). \<exists>p. p \<notin> set (live S) \<and> solo {#} (arrived p (pid, cb, data) S) b' \<and> rest b' = rest b)
    (msock_base_spawn s cb data b)"
  unfolding msock_base_spawn_def spawn_def One_nat_def
  by (rule ends_rbind [OF process_new_solo [OF os b r]]) auto

lemma msock_base_send_solo:
  assumes os: "os_ok (s_os s)" and b: "solo {#} S b" and p: "p \<in> set (live S)" "fair S {p}"
    and sz: "unat sz \<le> MAX_MSG_PAYLOAD_SZ" "unat sz \<le> length payload"
  shows "ends (\<lambda>b'. solo {#} (posted p (ty, sz, take (unat sz) payload) S) b' \<and> rest b' = rest b)
    (msock_base_send s (fst (who S p)) ty payload sz b)"
  unfolding msock_base_send_def One_nat_def
  by (rule ends_rbind [OF send_to_solo [OF os b p sz]]) (auto simp: send_flush_outbox_solo)

text \<open>When no process is left, every page goes back and the zones are accepted.\<close>

lemma msock_base_free_solo:
  assumes b: "solo {#} S b" and l: "live S = []"
  shows "msock_base_free s b = Inr (destructor s 1 None (world b))"
proof -
  obtain d where s: "solo_at {#} S d b" using b by (auto simp: solo_def)
  note d = solo_atD [OF s]
  from d(7) l obtain om op where w: "alloc_wf (zone_messages b) (memory b) om (mset (vq_items (cache_messages d)) + {#})"
    "no_full_page (zone_messages b) (memory b) om" "alloc_wf (zone_processes b) (memory b) op (mset (vq_items (cache_processes d)) + {#})"
    "no_full_page (zone_processes b) (memory b) op" "om \<inter> op = {}"
    by (auto simp: balanced_def letters_held_def)
  obtain cm zm r1 om' where 1: "cache_drain (cache_messages d) (zone_messages b) (memory b) = Inr (cm, zm, r1)"
    "drain_post (zone_messages b) (memory b) om {#} zm r1 om'"
    using cache_drain_spec [OF w(1) d(8) w(2)] by auto
  have same: "\<forall>p \<in> op. pages r1 p = pages (memory b) p" using 1(2) w(5) by (auto simp: drain_post_def)
  obtain cp zp r2 op' where 2: "cache_drain (cache_processes d) (zone_processes b) r1 = Inr (cp, zp, r2)"
    "drain_post (zone_processes b) r1 op {#} zp r2 op'"
    using cache_drain_spec [OF alloc_wf_frame [OF w(3) same] d(9) no_full_page_frame [OF w(4) same]] by auto
  have free: "zone_free zone' = Inr ()" if "drain_post zone ram own {#} zone' ram' own'" for zone ram own zone' ram' own'
  proof -
    have p: "alloc_wf zone' ram' own' {#}" "no_full_page zone' ram' own'" using that by (simp_all add: drain_post_def)
    have "no_full_page zone' ram' own' \<Longrightarrow> own' = {}" using drained_pages [OF p(1)] by simp
    then show ?thesis using zone_free_empty p by blast
  qed
  have i: "local_inbox d = vq_empty" "remote_inbox d = vq_empty" "proto d = 1" "ingress_callback_data d = None"
    using d(4) by (simp_all add: solo_domain_def)
  have q: "drain_message_queue cache vq_empty = (cache, vq_empty)" for cache
    by (simp add: drain_message_queue.simps [of cache] vq_get_def vq_empty_def)
  let ?u = "destructor s 1 None (world b)"
  let ?d = "d\<lparr>ingress_callback_data := None, remote_inbox := vq_empty, local_inbox := vq_empty\<rparr>"
  let ?b = "set_domain (Suc 0) ?d (b\<lparr>world := ?u\<rparr>)"
  have g: "get_domain (Suc 0) ?b = Inr ?d" using get_set_domain [of "Suc 0" "b\<lparr>world := ?u\<rparr>" d] d(1) by simp
  have "\<exists>b1. domain_free s (Suc 0) b = Inr b1 \<and> zone_messages b1 = zm \<and> zone_processes b1 = zp \<and> world b1 = ?u"
    by (simp add: domain_free_def d(1) Let_def i q drain_caches_def) (simp add: g [simplified] 1(1) 2(1))
  then show ?thesis
    using d(3) free [OF 1(2)] free [OF 2(2)] by (auto simp: msock_base_free_def engines_stop_def)
qed

end
