(* ===== verification/Hello.thy ===== *)
theory Hello
  imports Solo
begin

text \<open>
  The smallest program of the repository, \<open>src/example01.c\<close>: one process that prints the type of the first
  message it gets and ends. It is run from \<open>msock_base_new\<close> to \<open>msock_base_free\<close>.
\<close>

section \<open>The program\<close>

text \<open>What is outside the library: what was printed, the format with its argument.\<close>

type_synonym hello_world = "(string \<times> msg_type) list"

definition hello_callback :: "msg_type \<Rightarrow> (unit, unit, hello_world) act" where
  "hello_callback ty = World (\<lambda>w. (w @ [(line ''Msg type %#x'', ty)], Return RECV_EXIT))"

definition hello_program :: "(unit, unit, hello_world) program" where
  "hello_program = \<lparr>on_message = (\<lambda>c ty payload sz data. hello_callback ty), on_construct = (\<lambda>c data. Fail Bad_Deref)\<rparr>"

text \<open>\<open>main\<close>; the arguments after the limit of open files are the fuel of the loop and what memory holds at first.\<close>

definition hello_main :: "(unit, hello_world) surroundings \<Rightarrow> ulong \<Rightarrow> nat \<Rightarrow>
    ram \<Rightarrow> (addr \<Rightarrow> message) \<Rightarrow> (addr \<Rightarrow> (unit, unit) process) \<Rightarrow> addr qheap \<Rightarrow> hello_world \<Rightarrow> error + (int \<times> hello_world)" where
  "hello_main s max_open_files n ram ms ps h u =
     rbind (msock_base_new (user_engine max_open_files 32) 0 ram ms ps h u) (\<lambda>b.
     rbind (msock_base_spawn s (Some ()) None b) (\<lambda>(pid, b).
     rbind (msock_base_send s pid 0x333 [] 0 b) (\<lambda>b.
     rbind (msock_base_loop s hello_program n b) (\<lambda>b.
     rbind (msock_base_free s b) (\<lambda>u. Inr (0, u))))))"

section \<open>Its run\<close>

text \<open>The scene of the program when its loop starts: one process with one message.\<close>

definition greeted :: "addr \<Rightarrow> pid \<Rightarrow> (unit, unit) scene" where
  "greeted p pid = posted p (0x333, 0, []) (arrived p (pid, Some (), None) (empty_scene 32))"

lemma greeted_sel [simp]:
  "live (greeted p pid) = [p]" "who (greeted p pid) p = (pid, Some (), None)" "busy (greeted p pid) = [p]"
  "mail (greeted p pid) p = [(0x333, 0, [])]" "tail_ok (greeted p pid)"
  by (simp_all add: greeted_def posted_def arrived_def empty_scene_def)

lemma hello_prints:
  assumes b: "solo {#} (served (greeted p pid)) b"
  shows "ends (\<lambda>b'. solo {#} (gone p (taken p (served (greeted p pid)))) b' \<and> queue_of_domains b' = queue_of_domains b \<and>
    world b' = world b @ [(line ''Msg type %#x'', 0x333)]) (process_run s hello_program (Suc n) p b)"
proof -
  let ?R = "\<lambda>(q, _, _, u). (q, u) = (queue_of_domains b, world b @ [(line ''Msg type %#x'', 0x333)])"
  have "ends (\<lambda>b'. solo {#} (gone p (taken p (served (greeted p pid)))) b' \<and> ?R (rest b')) (process_run s hello_program (Suc n) p b)"
  proof (rule process_run_exit [OF b])
    fix m b1 and payload :: "byte list"
    assume 1: "solo (add_mset m {#}) (taken p (served (greeted p pid))) b1" "rest b1 = rest b"
    then have "queue_of_domains b1 = queue_of_domains b" "world b1 = world b" by (simp_all add: rest_def)
    then show "ends (\<lambda>(r, b2). r = RECV_EXIT \<and> solo (add_mset m {#}) (taken p (served (greeted p pid))) b2 \<and> ?R (rest b2))
        (run_act s (run_constructor s hello_program n) (on_message hello_program () 0x333 payload 0 None) b1)"
      using 1(1) by (simp add: hello_program_def hello_callback_def rest_def)
  qed simp_all
  then show ?thesis by (rule ends_mono) (auto simp: rest_def)
qed

lemma hello_loop:
  assumes g: "solo {#} (greeted p pid) b" and d: "queue_of_domains b = ms_put 1 ms_new"
  shows "ends (\<lambda>b'. \<exists>S'. solo {#} S' b' \<and> live S' = [] \<and> world b' = world b @ [(line ''Msg type %#x'', 0x333)])
    (msock_base_loop s hello_program (Suc (Suc (Suc (Suc k)))) b)"
proof (rule msock_base_loop_solo [OF g d])
  let ?W = "\<lambda>w. w = world b @ [(line ''Msg type %#x'', 0x333 :: msg_type)]"
  let ?S = "gone p (taken p (served (greeted p pid)))"
  let ?P = "\<lambda>c b'. (?W (world b') \<and> queue_of_domains b' = queue_of_domains c) \<and> (\<exists>S'. solo {#} S' b' \<and> live S' = [])"
  fix b3 :: "(unit, unit, hello_world) base"
  assume 3: "solo {#} (greeted p pid) b3" "world b3 = world b"
  show "ends (?P b3) (process_queue_run s hello_program (Suc (Suc k)) (Suc 0) b3)"
  proof (rule process_queue_run_step [OF 3(1) greeted_sel(3)])
    fix b4 :: "(unit, unit, hello_world) base"
    assume 4: "solo {#} (served (greeted p pid)) b4" "queue_of_domains b4 = queue_of_domains b3" "world b4 = world b3"
    show "ends (\<lambda>b'. solo {#} ?S b' \<and> queue_of_domains b' = queue_of_domains b3 \<and> ?W (world b'))
        (process_run s hello_program (Suc k) p b4)"
      by (rule ends_mono [OF hello_prints [OF 4(1)]]) (use 3(2) 4 in auto)
  next
    fix b5 :: "(unit, unit, hello_world) base"
    assume 5: "solo {#} ?S b5 \<and> queue_of_domains b5 = queue_of_domains b3 \<and> ?W (world b5)"
    let ?b = "b5\<lparr>current_process := None\<rparr>"
    have S: "solo {#} ?S ?b" "live ?S = []" "busy ?S = []" using 5 by (simp_all add: gone_def)
    have "?P b3 ?b" using 5 S(1,2) by auto
    then show "ends (?P b3) (process_queue_run s hello_program (Suc k) (Suc 0) ?b)"
      unfolding process_queue_run_done [OF S(1,3)] ends_Inr .
  qed
qed

text \<open>The program prints the type of its message once and returns 0, and everything was given back.\<close>

theorem hello_ends:
  assumes os: "os_ok os" and n: "5 \<le> n"
  shows "ends (\<lambda>(r, w). r = 0 \<and> w = u @ [(line ''Msg type %#x'', 0x333)])
    (hello_main (user_surroundings os) max_open_files n ram ms ps h u)"
proof -
  obtain k where k: "n = Suc (Suc (Suc (Suc k)))" using n by (intro that [of "n - 4"]) auto
  let ?s = "user_surroundings os :: (unit, hello_world) surroundings" and ?W = "\<lambda>w. w = u @ [(line ''Msg type %#x'', 0x333 :: msg_type)]"
  have os': "os_ok (s_os ?s)" using os by simp
  obtain b where b: "msock_base_new (user_engine max_open_files 32) 0 ram ms ps h u = Inr b" "solo {#} (empty_scene 32) b"
    "queue_of_domains b = ms_put 1 ms_new" "world b = u"
    using msock_base_new_solo [of 32 max_open_files ram ms ps h u] by auto
  have "ends (\<lambda>(r, w). r = 0 \<and> ?W w) (rbind (msock_base_send ?s pid 0x333 [] 0 b1) (\<lambda>b.
      rbind (msock_base_loop ?s hello_program n b) (\<lambda>b. rbind (msock_base_free ?s b) (\<lambda>u. Inr (0, u)))))"
    if g: "solo {#} (arrived p (pid, Some (), None) (empty_scene 32)) b1" "rest b1 = rest b" for p pid b1
  proof -
    let ?S = "arrived p (pid, Some (), None) (empty_scene 32) :: (unit, unit) scene"
    have "p \<in> set (live ?S)" "fair ?S {p}" "fst (who ?S p) = pid" by (simp_all add: arrived_def fair_def empty_scene_def)
    then have "ends (\<lambda>b2. solo {#} (greeted p pid) b2 \<and> rest b2 = rest b) (msock_base_send ?s pid 0x333 [] 0 b1)"
      using msock_base_send_solo [OF os' g(1), of p 0 "[]" "0x333"] g(2) by (simp add: greeted_def)
    then show ?thesis
    proof (rule ends_rbind)
      fix b2 assume "solo {#} (greeted p pid) b2 \<and> rest b2 = rest b"
      then have "ends (\<lambda>b'. \<exists>S'. solo {#} S' b' \<and> live S' = [] \<and> ?W (world b')) (msock_base_loop ?s hello_program n b2)"
        using hello_loop [of p pid b2 ?s "n - 4"] b n by (simp add: rest_def k)
      then show "ends (\<lambda>(r, w). r = 0 \<and> ?W w)
          (rbind (msock_base_loop ?s hello_program n b2) (\<lambda>b. rbind (msock_base_free ?s b) (\<lambda>u. Inr (0, u))))"
        by (rule ends_rbind) (auto simp: msock_base_free_solo)
    qed
  qed
  then show ?thesis
    unfolding hello_main_def b(1) rbind_simps
    by (intro ends_rbind [OF msock_base_spawn_solo [OF os' b(2), of "Some ()" None]]) (auto simp: empty_scene_def)
qed

end
