(* ===== verification/Engine_Fd.thy ===== *)
theory Engine_Fd
  imports Runtime "HOL-Library.Signed_Division"
begin

text \<open>
  What the engines share: the time (\<open>src/msock_utils.c\<close>), the messages to and from the engine of
  file descriptors as bytes (\<open>struct msock_msg_fd\<close> in \<open>src/msock.h\<close>, \<open>src/msock_engine_fd.c\<close>), and
  the start of an engine's domain with its one hungry process. Numbers are laid out as on x86-64:
  little endian, pointers and unsigned longs of eight bytes.
\<close>

section \<open>Time\<close>

record timespec =
  tv_sec :: int
  tv_nsec :: int

definition NANO :: int where "NANO = 1000000000"
definition MICRO :: int where "MICRO = 1000000"
definition MILLI :: int where "MILLI = 1000"

text \<open>The macros of \<open>src/msock_utils.h\<close>, on values for which nothing overflows.\<close>

definition TIMESPEC_NSEC_SUBTRACT :: "timespec \<Rightarrow> timespec \<Rightarrow> int" where
  "TIMESPEC_NSEC_SUBTRACT a b = (tv_sec a - tv_sec b) * NANO + tv_nsec a - tv_nsec b"

definition TIMESPEC_MSEC_SUBTRACT :: "timespec \<Rightarrow> timespec \<Rightarrow> int" where
  "TIMESPEC_MSEC_SUBTRACT a b = (tv_sec a - tv_sec b) * MILLI + (tv_nsec a - tv_nsec b) sdiv MICRO"

definition TIMESPEC_SEC_SUBTRACT :: "timespec \<Rightarrow> timespec \<Rightarrow> int" where
  "TIMESPEC_SEC_SUBTRACT a b = tv_sec a - tv_sec b + (if tv_nsec a < tv_nsec b then - 1 else 0)"

definition TIMESPEC_BEFORE :: "timespec \<Rightarrow> timespec \<Rightarrow> bool" where
  "TIMESPEC_BEFORE a b \<longleftrightarrow> tv_sec a < tv_sec b \<or> tv_sec a = tv_sec b \<and> tv_nsec a < tv_nsec b"

definition TIMESPEC_ADD :: "timespec \<Rightarrow> int \<Rightarrow> timespec" where
  "TIMESPEC_ADD b nsecs =
     (let s = tv_sec b + nsecs sdiv NANO; n = tv_nsec b + nsecs smod NANO
      in \<lparr>tv_sec = s + n sdiv NANO, tv_nsec = n smod NANO\<rparr>)"

text \<open>\<open>now_msecs\<close>, from the answer of \<open>clock_gettime\<close>, if it has one.\<close>

definition now_msecs :: "timespec option \<Rightarrow> error + ulong" where
  "now_msecs clock =
     (case clock of None \<Rightarrow> Inl (Fatal ''clock_gettime(CLOCK_MONOTONIC)'')
      | Some ts \<Rightarrow> Inr (word_of_int (tv_sec ts) * 1000 + word_of_int (tv_nsec ts) div 1000000))"

text \<open>\<open>get_max_open_files\<close>, from the answer of \<open>getrlimit\<close>: the limit as an int.\<close>

definition get_max_open_files :: "ulong option \<Rightarrow> error + 32 word" where
  "get_max_open_files rlim_max =
     (case rlim_max of None \<Rightarrow> Inl (Fatal ''getrlimit()'') | Some n \<Rightarrow> Inr (ucast n))"

section \<open>Numbers as bytes\<close>

fun le_bytes :: "nat \<Rightarrow> nat \<Rightarrow> byte list" where
  "le_bytes 0 n = []"
| "le_bytes (Suc k) n = of_nat n # le_bytes k (n div 256)"

fun le_nat :: "byte list \<Rightarrow> nat" where
  "le_nat [] = 0"
| "le_nat (b # bs) = unat b + 256 * le_nat bs"

lemma length_le_bytes [simp]: "length (le_bytes k n) = k"
  by (induction k arbitrary: n) simp_all

lemma le_nat_le_bytes: "le_nat (le_bytes k n) = n mod 256 ^ k"
proof (induction k arbitrary: n)
  case (Suc k)
  have "unat (of_nat n :: byte) = n mod 256" by (simp add: unsigned_of_nat take_bit_eq_mod)
  then show ?case using Suc by (simp add: mod_mult2_eq)
qed simp

text \<open>A field at an offset.\<close>

definition field :: "nat \<Rightarrow> nat \<Rightarrow> byte list \<Rightarrow> nat" where
  "field off k bytes = le_nat (take k (drop off bytes))"

section \<open>The messages of the engine of file descriptors\<close>

record msg_fd =
  mf_fd :: "32 word"
  mf_victim :: pid
  mf_expires :: ulong

definition sizeof_msg_fd :: nat where "sizeof_msg_fd = 24"

text \<open>\<open>pad\<close> are the four bytes between \<open>fd\<close> and \<open>victim\<close>, which nothing sets.\<close>

definition encode_msg_fd :: "byte list \<Rightarrow> msg_fd \<Rightarrow> byte list" where
  "encode_msg_fd pad m = le_bytes 4 (unat (mf_fd m)) @ pad @ le_bytes 8 (unat (mf_victim m)) @ le_bytes 8 (unat (mf_expires m))"

definition decode_msg_fd :: "byte list \<Rightarrow> msg_fd" where
  "decode_msg_fd bytes =
     \<lparr>mf_fd = of_nat (field 0 4 bytes), mf_victim = of_nat (field 8 8 bytes), mf_expires = of_nat (field 16 8 bytes)\<rparr>"

lemma decode_encode_msg_fd:
  assumes "length pad = 4"
  shows "decode_msg_fd (encode_msg_fd pad m @ rest) = m" and "length (encode_msg_fd pad m) = sizeof_msg_fd"
proof -
  have m: "n mod 256 ^ 4 = n" if "n < 2 ^ 32" for n :: nat using that by simp
  have m8: "n mod 256 ^ 8 = n" if "n < 2 ^ 64" for n :: nat using that by simp
  have f: "field 0 4 (encode_msg_fd pad m @ rest) = unat (mf_fd m)"
    using m [OF unat_word32_less [of "mf_fd m"]] by (simp add: field_def encode_msg_fd_def le_nat_le_bytes)
  have v: "field 8 8 (encode_msg_fd pad m @ rest) = unat (mf_victim m)"
    using m8 [OF unat_ulong_less [of "mf_victim m"]] assms by (simp add: field_def encode_msg_fd_def le_nat_le_bytes)
  have e: "field 16 8 (encode_msg_fd pad m @ rest) = unat (mf_expires m)"
    using m8 [OF unat_ulong_less [of "mf_expires m"]] assms by (simp add: field_def encode_msg_fd_def le_nat_le_bytes)
  show "decode_msg_fd (encode_msg_fd pad m @ rest) = m" unfolding decode_msg_fd_def f v e by simp
  show "length (encode_msg_fd pad m) = sizeof_msg_fd" using assms by (simp add: encode_msg_fd_def sizeof_msg_fd_def)
qed

text \<open>The request that the functions of \<open>src/msock_engine_fd.c\<close> build, at the time \<open>now\<close>.\<close>

definition fd_request :: "ulong \<Rightarrow> pid \<Rightarrow> 32 word \<Rightarrow> ulong \<Rightarrow> msg_fd" where
  "fd_request now victim fd timeout_msecs =
     \<lparr>mf_fd = fd, mf_victim = victim, mf_expires = (if timeout_msecs \<noteq> 0 then now + timeout_msecs else 0)\<rparr>"

text \<open>\<open>now\<close> reads the variable \<open>msock_now_msecs\<close> in the world.\<close>

definition msock_victim_send_msg_fd :: "('d, 'u) surroundings \<Rightarrow> ('u \<Rightarrow> ulong) \<Rightarrow> byte list \<Rightarrow> pid \<Rightarrow> msg_type \<Rightarrow> 32 word \<Rightarrow>
    ulong \<Rightarrow> ('c, 'd, 'u) base \<Rightarrow> error + ('c, 'd, 'u) base" where
  "msock_victim_send_msg_fd s now pad victim ty fd timeout_msecs b =
     msock_send s PID_SELECT ty (encode_msg_fd pad (fd_request (now (world b)) victim fd timeout_msecs)) (of_nat sizeof_msg_fd) b"

definition msock_send_msg_fd :: "('d, 'u) surroundings \<Rightarrow> ('u \<Rightarrow> ulong) \<Rightarrow> byte list \<Rightarrow> msg_type \<Rightarrow> 32 word \<Rightarrow>
    ulong \<Rightarrow> ('c, 'd, 'u) base \<Rightarrow> error + ('c, 'd, 'u) base" where
  "msock_send_msg_fd s now pad ty fd timeout_msecs b =
     rbind (msock_self b) (\<lambda>pid. msock_victim_send_msg_fd s now pad pid ty fd timeout_msecs b)"

definition msock_base_send_msg_fd :: "('d, 'u) surroundings \<Rightarrow> ('u \<Rightarrow> ulong) \<Rightarrow> byte list \<Rightarrow> pid \<Rightarrow> msg_type \<Rightarrow> 32 word \<Rightarrow>
    ulong \<Rightarrow> ('c, 'd, 'u) base \<Rightarrow> error + ('c, 'd, 'u) base" where
  "msock_base_send_msg_fd s now pad victim ty fd timeout_msecs b =
     msock_base_send s PID_SELECT ty (encode_msg_fd pad (fd_request (now (world b)) victim fd timeout_msecs)) (of_nat sizeof_msg_fd) b"

section \<open>Starting an engine\<close>

text \<open>
  The end of the constructors of the engines: a domain for one process, the hungry process with the
  engine's callback and data, and the name under which the engine is known.
\<close>

definition start_engine :: "('d, 'u) surroundings \<Rightarrow> nat \<Rightarrow> 'd option \<Rightarrow> 'c \<Rightarrow> 'd option \<Rightarrow> pid \<Rightarrow>
    ('c, 'd, 'u) base \<Rightarrow> error + (pid \<times> ('c, 'd, 'u) base)" where
  "start_engine s prot ingress_data cb data name b =
     rbind (domain_new prot ingress_data 1 b) (\<lambda>(g, b).
     rbind (spawn s g (Some cb) data True b) (\<lambda>(pid, b).
     rbind (msock_register pid name b) (\<lambda>b. Inr (pid, b))))"

text \<open>What an engine sends while it handles a message, in order: the target, the type and the bytes.\<close>

type_synonym sent = "pid \<times> msg_type \<times> msg_fd"

text \<open>\<open>send_msg_helper\<close> of both engines: \<open>expires\<close> is left as it is on the stack.\<close>

definition send_msg_helper :: "ulong \<Rightarrow> pid \<Rightarrow> msg_type \<Rightarrow> 32 word \<Rightarrow> sent" where
  "send_msg_helper stack victim ty fd = (victim, ty, \<lparr>mf_fd = fd, mf_victim = 0, mf_expires = stack\<rparr>)"

section \<open>Properties\<close>

text \<open>
  What \<open>msock_send_msg_fd\<close> puts into a message is what the engine reads out of the payload field:
  the descriptor, the process to answer to and the time of expiry, whatever the padding and the rest
  of the field hold.
\<close>

theorem msg_fd_roundtrip:
  assumes "length pad = 4"
  shows "decode_msg_fd (encode_msg_fd pad m @ rest) = m \<and> length (encode_msg_fd pad m) = sizeof_msg_fd \<and>
    sizeof_msg_fd \<le> MAX_MSG_PAYLOAD_SZ"
  using decode_encode_msg_fd [OF assms] by (simp add: sizeof_msg_fd_def MAX_MSG_PAYLOAD_SZ_def)

theorem msg_fd_roundtrip_witness:
  "decode_msg_fd (encode_msg_fd [9, 9, 9, 9] (fd_request 1000 77 5 20) @ replicate 200 1) =
     \<lparr>mf_fd = 5, mf_victim = 77, mf_expires = 1020\<rparr>"
  using msg_fd_roundtrip [of "[9, 9, 9, 9]" "fd_request 1000 77 5 20" "replicate 200 1"] by (simp add: fd_request_def)

lemma sdiv_smod_nonneg: "0 \<le> k \<Longrightarrow> 0 < l \<Longrightarrow> k sdiv l = k div l \<and> k smod l = k mod (l :: int)"
  by (cases "k = 0") (simp_all add: signed_divide_int_def signed_modulo_int_def)

lemma NANO_pos: "0 < NANO" by (simp add: NANO_def)

lemma timespec_before_iff:
  assumes "0 \<le> tv_nsec a" "tv_nsec a < NANO" "0 \<le> tv_nsec b" "tv_nsec b < NANO"
  shows "TIMESPEC_BEFORE a b \<longleftrightarrow> 0 < TIMESPEC_NSEC_SUBTRACT b a"
proof -
  let ?k = "tv_sec b - tv_sec a"
  consider "?k < 0" | "?k = 0" | "0 < ?k" by linarith
  then show ?thesis
  proof cases
    case 1
    then have "?k * NANO \<le> - 1 * NANO" using NANO_pos by (intro mult_right_mono) simp_all
    then have "TIMESPEC_NSEC_SUBTRACT b a < 0" using assms by (simp add: TIMESPEC_NSEC_SUBTRACT_def)
    then show ?thesis using 1 by (simp add: TIMESPEC_BEFORE_def)
  next
    case 2
    then show ?thesis by (simp add: TIMESPEC_BEFORE_def TIMESPEC_NSEC_SUBTRACT_def)
  next
    case 3
    then have "1 * NANO \<le> ?k * NANO" using NANO_pos by (intro mult_right_mono) simp_all
    then have "0 < TIMESPEC_NSEC_SUBTRACT b a" unfolding TIMESPEC_NSEC_SUBTRACT_def using assms by linarith
    then show ?thesis using 3 by (simp add: TIMESPEC_BEFORE_def)
  qed
qed

text \<open>
  Adding nanoseconds to a time with \<open>TIMESPEC_ADD\<close> gives a normal time that is later by exactly
  that many nanoseconds, and \<open>TIMESPEC_BEFORE\<close> orders normal times by their distance.
\<close>

theorem timespec_arithmetic:
  assumes "0 \<le> n" and "0 \<le> tv_nsec b" and "tv_nsec b < NANO"
  shows "TIMESPEC_NSEC_SUBTRACT (TIMESPEC_ADD b n) b = n \<and>
    0 \<le> tv_nsec (TIMESPEC_ADD b n) \<and> tv_nsec (TIMESPEC_ADD b n) < NANO \<and>
    (TIMESPEC_BEFORE b (TIMESPEC_ADD b n) \<longleftrightarrow> 0 < n)"
proof -
  let ?m = "tv_nsec b + n mod NANO"
  have m: "0 \<le> ?m" using assms NANO_pos by simp
  have e: "TIMESPEC_ADD b n = \<lparr>tv_sec = tv_sec b + n div NANO + ?m div NANO, tv_nsec = ?m mod NANO\<rparr>"
    using sdiv_smod_nonneg [OF assms(1) NANO_pos] sdiv_smod_nonneg [OF m NANO_pos] by (simp add: TIMESPEC_ADD_def Let_def)
  have r: "0 \<le> tv_nsec (TIMESPEC_ADD b n)" "tv_nsec (TIMESPEC_ADD b n) < NANO" using NANO_pos by (simp_all add: e)
  have "(n div NANO + ?m div NANO) * NANO + ?m mod NANO = n div NANO * NANO + ?m" by (simp add: distrib_right)
  then have s: "TIMESPEC_NSEC_SUBTRACT (TIMESPEC_ADD b n) b = n"
    by (simp add: TIMESPEC_NSEC_SUBTRACT_def e)
  show ?thesis using s r timespec_before_iff [OF assms(2,3) r] by simp
qed

theorem timespec_arithmetic_witness:
  "TIMESPEC_ADD \<lparr>tv_sec = 5, tv_nsec = 999999999\<rparr> 2 = \<lparr>tv_sec = 6, tv_nsec = 1\<rparr> \<and>
   TIMESPEC_NSEC_SUBTRACT (TIMESPEC_ADD \<lparr>tv_sec = 5, tv_nsec = 999999999\<rparr> 2) \<lparr>tv_sec = 5, tv_nsec = 999999999\<rparr> = 2"
  using timespec_arithmetic [of 2 "\<lparr>tv_sec = 5, tv_nsec = 999999999\<rparr>"]
  by (simp add: NANO_def) (simp add: TIMESPEC_ADD_def NANO_def signed_divide_int_def signed_modulo_int_def)

end
