(* ===== verification/Ring.thy ===== *)
theory Ring
  imports Solo Engine_Fd
begin

text \<open>
  The benchmark \<open>src/example05.c\<close>: a ring of processes around which one message goes, with a counter
  that each process counts down, until it is zero. It is a program that uses the whole of the
  library but for the engines, and what is shown is that it comes to its end: the message makes all its
  turns, every process gets the news of the end, and all memory goes back.
\<close>

section \<open>The program\<close>

definition USR_START :: msg_type where "USR_START = MSG_USER + 0"
definition USR_PING :: msg_type where "USR_PING = MSG_USER + 1"

text \<open>
  What is outside the library: each allocated \<open>struct ud\<close> with its field \<open>prev\<close>, the number of calls of
  \<open>calloc\<close> so far, and what was printed. \<open>calloc\<close> itself is an argument: the answer to its call number \<open>i\<close>.
  The field \<open>turns\<close> is no state of the program: it records, at every \<open>USR_PING\<close>, what the \<open>printf\<close> that
  is commented out there would show, which process has its turn (by its \<open>struct ud\<close>) and the counter.
\<close>

record ring_world =
  uds :: "nat \<Rightarrow> pid option"
  callocs :: nat
  printed :: "string list"
  turns :: "(nat option \<times> ulong) list"

type_synonym calloc = "nat \<Rightarrow> nat option"

datatype ring_name = Callback

definition with_ud :: "nat option \<Rightarrow> (nat \<Rightarrow> pid \<Rightarrow> ring_world \<Rightarrow> ring_world \<times> (ring_name, nat, ring_world) act) \<Rightarrow>
    (ring_name, nat, ring_world) act" where
  "with_ud ud f = (case ud of None \<Rightarrow> Fail Bad_Deref
     | Some p \<Rightarrow> World (\<lambda>w. case uds w p of None \<Rightarrow> (w, Fail Bad_Deref) | Some prev \<Rightarrow> f p prev w))"

text \<open>A long, or a pid, at the start of the payload.\<close>

definition long_at :: "byte list \<Rightarrow> ulong" where
  "long_at payload = of_nat (le_nat (take 8 payload))"

definition long_bytes :: "ulong \<Rightarrow> byte list" where
  "long_bytes x = le_bytes 8 (unat x)"

definition ring_callback :: "msg_type \<Rightarrow> byte list \<Rightarrow> nat option \<Rightarrow> (ring_name, nat, ring_world) act" where
  "ring_callback ty payload ud =
     (if ty = USR_START
      then with_ud ud (\<lambda>p prev w. (w\<lparr>uds := (uds w)(p \<mapsto> long_at payload)\<rparr>, Return RECV_OK))
      else if ty = USR_PING
      then (let counter = long_at payload
            in World (\<lambda>w. (w\<lparr>turns := turns w @ [(ud, counter)]\<rparr>,
                 if counter = 0 then Loopexit (Return RECV_OK)
                 else with_ud ud (\<lambda>p prev w. (w, Send prev USR_PING (long_bytes (counter - 1)) 8 (Return RECV_OK))))))
      else if ty = MSG_EXIT
      then (case ud of None \<Rightarrow> Return RECV_EXIT
            | Some p \<Rightarrow> with_ud ud (\<lambda>p prev w. (w\<lparr>uds := (uds w)(p := None)\<rparr>, Return RECV_EXIT)))
      else Fail Abort)"

definition ring_program :: "(ring_name, nat, ring_world) program" where
  "ring_program = \<lparr>on_message = (\<lambda>c ty payload sz ud. ring_callback ty payload ud), on_construct = (\<lambda>c ud. Fail Bad_Deref)\<rparr>"

definition ring_calloc :: "calloc \<Rightarrow> ring_world \<Rightarrow> nat option \<times> ring_world" where
  "ring_calloc c w =
     (let w' = w\<lparr>callocs := Suc (callocs w)\<rparr>
      in case c (callocs w) of None \<Rightarrow> (None, w') | Some p \<Rightarrow> (Some p, w'\<lparr>uds := (uds w)(p \<mapsto> 0)\<rparr>))"

text \<open>The loop that spawns the processes; \<open>ud->prev\<close> is set before the process is there.\<close>

primrec ring_spawns :: "(nat, ring_world) surroundings \<Rightarrow> calloc \<Rightarrow> nat \<Rightarrow> pid \<Rightarrow> (ring_name, nat, ring_world) base \<Rightarrow>
    error + (pid \<times> (ring_name, nat, ring_world) base)" where
  "ring_spawns s c 0 prev b = Inr (prev, b)"
| "ring_spawns s c (Suc i) prev b =
     (case ring_calloc c (world b) of
        (None, w) \<Rightarrow> Inl Bad_Deref
      | (Some ud, w) \<Rightarrow>
          rbind (msock_base_spawn s (Some Callback) (Some ud) (b\<lparr>world := w\<lparr>uds := (uds w)(ud \<mapsto> prev)\<rparr>\<rparr>)) (\<lambda>(cur, b).
            ring_spawns s c i cur b))"

definition ring_setup :: "(nat, ring_world) surroundings \<Rightarrow> calloc \<Rightarrow> nat \<Rightarrow> ulong \<Rightarrow> (ring_name, nat, ring_world) base \<Rightarrow>
    error + (ring_name, nat, ring_world) base" where
  "ring_setup s c pid_total msg_total b =
     (case ring_calloc c (world b) of (ud, w) \<Rightarrow>
        rbind (msock_base_spawn s (Some Callback) ud (b\<lparr>world := w\<rparr>)) (\<lambda>(first, b).
        rbind (ring_spawns s c pid_total first b) (\<lambda>(prev, b).
        rbind (msock_base_send s first USR_START (long_bytes prev) 8 b) (\<lambda>b.
          msock_base_send s first USR_PING (long_bytes msg_total) 8 b))))"

text \<open>
  \<open>main\<close>, for any sizes (the source has 1000 processes and ten million messages). The arguments after
  them are the fuel of the loop and what memory holds at first. The times it prints are left out.
\<close>

definition ring_main :: "(nat, ring_world) surroundings \<Rightarrow> ulong \<Rightarrow> calloc \<Rightarrow> nat \<Rightarrow> ulong \<Rightarrow> nat \<Rightarrow>
    ram \<Rightarrow> (addr \<Rightarrow> message) \<Rightarrow> (addr \<Rightarrow> (ring_name, nat) process) \<Rightarrow> addr qheap \<Rightarrow> ring_world \<Rightarrow> error + (int \<times> ring_world)" where
  "ring_main s max_open_files c pid_total msg_total n ram ms ps h u =
     rbind (msock_base_new (user_engine max_open_files (of_nat (pid_total * 2))) 0 ram ms ps h u) (\<lambda>b.
     rbind (ring_setup s c pid_total msg_total b) (\<lambda>b.
     rbind (msock_base_loop s ring_program n b) (\<lambda>b.
     rbind (msock_base_free s b) (\<lambda>u. Inr (0, u\<lparr>printed := printed u @ [line ''done!'']\<rparr>)))))"

section \<open>The ring\<close>

lemma long_at_bytes: "take 8 payload = long_bytes x \<Longrightarrow> long_at payload = x"
proof -
  assume "take 8 payload = long_bytes x"
  then have "long_at payload = of_nat (unat x mod 256 ^ 8)" by (simp only: long_at_def long_bytes_def le_nat_le_bytes)
  moreover have "unat x mod 256 ^ 8 = unat x" using unat_ulong_less [of x] by simp
  ultimately show ?thesis by simp
qed

lemma usr_types [simp]:
  "USR_START \<noteq> USR_PING" "USR_PING \<noteq> USR_START" "MSG_EXIT \<noteq> USR_START" "MSG_EXIT \<noteq> USR_PING"
  by (simp_all add: USR_START_def USR_PING_def msg_types)

lemma long_size [simp]: "8 \<le> MAX_MSG_PAYLOAD_SZ" "length (long_bytes x) = 8"
  by (simp_all add: MAX_MSG_PAYLOAD_SZ_def long_bytes_def)

definition ud_of :: "(addr \<Rightarrow> pid \<times> ring_name option \<times> nat option) \<Rightarrow> addr \<Rightarrow> nat" where
  "ud_of wh p = the (snd (snd (wh p)))"

text \<open>Every process has the callback, and a \<open>struct ud\<close> of its own; no other is allocated.\<close>

definition crew :: "addr list \<Rightarrow> (addr \<Rightarrow> pid \<times> ring_name option \<times> nat option) \<Rightarrow> ring_world \<Rightarrow> bool" where
  "crew xs wh w \<longleftrightarrow> (\<forall>p \<in> set xs. wh p = (fst (wh p), Some Callback, Some (ud_of wh p))) \<and>
     inj_on (ud_of wh) (set xs) \<and> dom (uds w) = ud_of wh ` set xs"

text \<open>Whom the process at \<open>j\<close> sends to.\<close>

definition next_of :: "addr list \<Rightarrow> nat \<Rightarrow> addr" where
  "next_of xs j = xs ! (Suc j mod length xs)"

definition ring :: "addr list \<Rightarrow> (addr \<Rightarrow> pid \<times> ring_name option \<times> nat option) \<Rightarrow> ring_world \<Rightarrow> bool" where
  "ring xs wh w \<longleftrightarrow> 2 \<le> length xs \<and> distinct xs \<and> crew xs wh w \<and>
     (\<forall>j < length xs. uds w (ud_of wh (xs ! j)) = Some (fst (wh (next_of xs j))))"

lemma ring_turns [simp]:
  "crew xs wh (w\<lparr>turns := ts\<rparr>) = crew xs wh w" "ring xs wh (w\<lparr>turns := ts\<rparr>) = ring xs wh w"
  by (simp_all add: crew_def ring_def)

lemma next_of_other: "2 \<le> length xs \<Longrightarrow> distinct xs \<Longrightarrow> j < length xs \<Longrightarrow> next_of xs j \<in> set xs \<and> next_of xs j \<noteq> xs ! j"
proof -
  assume a: "2 \<le> length xs" "distinct xs" "j < length xs"
  have "Suc j mod length xs < length xs" by (rule mod_less_divisor) (use a(3) in linarith)
  moreover have "Suc j mod length xs \<noteq> j" using a by (cases "Suc j = length xs") auto
  ultimately show ?thesis using a by (simp add: next_of_def nth_eq_iff_index_eq)
qed

lemma run_act_World: "run_act s rc (World f) b = run_act s rc (snd (f (world b))) (b\<lparr>world := fst (f (world b))\<rparr>)"
  by (simp add: Let_def)

lemma on_message_ring [simp]: "on_message ring_program c ty payload sz ud = ring_callback ty payload ud"
  by (simp add: ring_program_def)

section \<open>The end\<close>

text \<open>Every process frees its \<open>struct ud\<close> when it is told of the end.\<close>

lemma run_exit:
  assumes b: "solo {#} S b" and p: "p \<in> set (live S)" and c: "crew (live S) (who S) (world b)"
    and m: "mail S p = [(MSG_EXIT, 0, [])]"
  shows "ends (\<lambda>b'. solo {#} (gone p (taken p S)) b' \<and> queue_of_domains b' = queue_of_domains b \<and>
    crew (remove1 p (live S)) (who S) (world b') \<and> turns (world b') = turns (world b)) (process_run s ring_program (Suc n) p b)"
proof -
  let ?ud = "ud_of (who S) p"
  have w: "who S p = (fst (who S p), Some Callback, Some ?ud)" "uds (world b) ?ud \<noteq> None"
    using c p by (auto simp: crew_def)
  have d: "distinct (live S)" by (rule solo_distinct [OF b])
  let ?w = "(world b)\<lparr>uds := (uds (world b))(?ud := None)\<rparr>"
  have "ud_of (who S) ` set (live S) - {?ud} = ud_of (who S) ` (set (live S) - {p})"
    using c p unfolding crew_def by (auto dest: inj_onD)
  moreover have "inj_on (ud_of (who S)) (set (live S) - {p})" using c by (simp add: crew_def inj_on_diff)
  ultimately have cr: "crew (remove1 p (live S)) (who S) ?w" using c d by (auto simp: crew_def)
  have "ends (\<lambda>b'. solo {#} (gone p (taken p S)) b' \<and> (queue_of_domains b', world b') = (queue_of_domains b, ?w))
      (process_run s ring_program (Suc n) p b)"
  proof (rule ends_mono [OF process_run_exit [where S' = "taken p S" and R = "\<lambda>(q, _, _, u). (q, u) = (queue_of_domains b, ?w)", OF b p _ m w(1)]])
    show "p \<in> set (live (taken p S))" using p by simp
    fix m b1 and payload :: "byte list"
    assume 1: "solo (add_mset m {#}) (taken p S) b1" "rest b1 = rest b"
    then have r: "queue_of_domains b1 = queue_of_domains b" "world b1 = world b" by (simp_all add: rest_def)
    obtain prev where u: "uds (world b) ?ud = Some prev" using w(2) by auto
    show "ends (\<lambda>(r, b2). r = RECV_EXIT \<and> solo (add_mset m {#}) (taken p S) b2 \<and>
        (case rest b2 of (q, _, _, u) \<Rightarrow> (q, u) = (queue_of_domains b, ?w)))
      (run_act s (run_constructor s ring_program n) (on_message ring_program Callback MSG_EXIT payload 0 (Some ?ud)) b1)"
      using 1(1) r u by (simp add: ring_callback_def with_ud_def run_act_World rest_def del: run_act.simps(3))
  qed (auto simp: rest_def)
  then show ?thesis by (rule ends_mono) (use cr in auto)
qed

text \<open>Every process is gone, and the turns were these.\<close>

definition all_over :: "(nat option \<times> ulong) list \<Rightarrow> (ring_name, nat, ring_world) base \<Rightarrow> (ring_name, nat, ring_world) base \<Rightarrow> bool" where
  "all_over ts b b' \<longleftrightarrow> (dom (uds (world b')) = {} \<and> turns (world b') = ts \<and> queue_of_domains b' = queue_of_domains b) \<and>
     (\<exists>S'. solo {#} S' b' \<and> live S' = [])"

lemma exit_phase:
  assumes "solo {#} S b" and "crew (live S) (who S) (world b)" and "set (live S) \<subseteq> set (busy S)"
    and "\<And>p. p \<in> set (live S) \<Longrightarrow> mail S p = [(MSG_EXIT, 0, [])]" and "length (busy S) < n"
  shows "ends (all_over (turns (world b)) b) (process_queue_run s ring_program n (Suc 0) b)"
  using assms
proof (induction "busy S" arbitrary: S b n)
  case Nil
  obtain k where n: "n = Suc k" using Nil.prems(5) by (cases n) auto
  have "busy S = []" using Nil.hyps by simp
  moreover from this have "live S = []" using Nil.prems(3) by simp
  ultimately show ?case
    using Nil.prems(1,2) unfolding n by (auto simp: crew_def all_over_def process_queue_run_done [OF Nil.prems(1)] simp del: process_queue_run.simps)
next
  case (Cons p bs)
  have q: "busy S = p # bs" using Cons.hyps(2) by simp
  obtain k where n: "n = Suc (Suc k)" "length bs < Suc k" using Cons.prems(5) q by (cases n; cases "n - 1") auto
  obtain d where s: "solo_at {#} S d b" using Cons.prems(1) by (auto simp: solo_def)
  have pl: "p \<in> set (live S)" "distinct (p # bs)"
    using solo_atD(5) [OF s] q by (auto simp: solo_busy_def queue_rep_def)
  let ?S = "gone p (taken p (served S))"
  have l: "live ?S = remove1 p (live S)" "busy ?S = bs" "who ?S = who S" "mail ?S = (mail S)(p := tl (mail S p))"
    using q pl(2) by (simp_all add: gone_def remove1_idem)
  have dist: "distinct (live S)" by (rule solo_distinct [OF Cons.prems(1)])
  show ?case unfolding n(1)
  proof (rule process_queue_run_step [OF Cons.prems(1) q])
    fix b1 :: "(ring_name, nat, ring_world) base"
    assume 1: "solo {#} (served S) b1" "queue_of_domains b1 = queue_of_domains b" "world b1 = world b"
    from run_exit [OF 1(1), of p s k] show "ends (\<lambda>b2. solo {#} ?S b2 \<and> queue_of_domains b2 = queue_of_domains b \<and>
        crew (remove1 p (live S)) (who S) (world b2) \<and> turns (world b2) = turns (world b)) (process_run s ring_program (Suc k) p b1)"
      using pl(1) Cons.prems(2) Cons.prems(4) [OF pl(1)] 1 by simp
  next
    fix b2 :: "(ring_name, nat, ring_world) base"
    assume 2: "solo {#} ?S b2 \<and> queue_of_domains b2 = queue_of_domains b \<and> crew (remove1 p (live S)) (who S) (world b2) \<and>
      turns (world b2) = turns (world b)"
    let ?b = "b2\<lparr>current_process := None\<rparr>"
    have "ends (all_over (turns (world ?b)) ?b) (process_queue_run s ring_program (Suc k) (Suc 0) ?b)"
    proof (rule Cons.hyps(1))
      show "bs = busy ?S" using l by simp
      show "solo {#} ?S ?b" using 2 by simp
      show "crew (live ?S) (who ?S) (world ?b)" using 2 l by simp
      show "set (live ?S) \<subseteq> set (busy ?S)" using Cons.prems(3) q dist l by auto
      show "mail ?S r = [(MSG_EXIT, 0, [])]" if "r \<in> set (live ?S)" for r
        using that Cons.prems(4) [of r] dist l by auto
      show "length (busy ?S) < Suc k" using l n(2) by simp
    qed
    then show "ends (all_over (turns (world b)) b) (process_queue_run s ring_program (Suc k) (Suc 0) ?b)"
      using 2 by (simp add: all_over_def [abs_def])
  qed
qed

section \<open>The turns\<close>

text \<open>Only \<open>p\<close> has mail, a message with the counter \<open>c\<close>.\<close>

definition with_ping :: "addr \<Rightarrow> ulong \<Rightarrow> (ring_name, nat) scene \<Rightarrow> bool" where
  "with_ping p c S \<longleftrightarrow> p \<in> set (live S) \<and> tail_ok S \<and>
     (\<forall>r \<in> set (live S). mail S r = (if r = p then [(USR_PING, 8, long_bytes c)] else []))"

definition turned :: "addr \<Rightarrow> ulong \<Rightarrow> (ring_name, nat) scene \<Rightarrow> ring_world \<Rightarrow> ring_world" where
  "turned p c S w = w\<lparr>turns := turns w @ [(Some (ud_of (who S) p), c)]\<rparr>"

lemma turned_simps [simp]:
  "crew xs wh (turned p c S w) = crew xs wh w" "ring xs wh (turned p c S w) = ring xs wh w" "uds (turned p c S w) = uds w"
  "turns (turned p c S w) = turns w @ [(Some (ud_of (who S) p), c)]" "turned p c (served S) w = turned p c S w"
  by (simp_all add: turned_def)

lemma run_ping:
  assumes os: "os_ok (s_os s)" and b: "solo {#} S b" and cp: "current_process b = Some p"
    and w: "with_ping p c S" "busy S = []" "c \<noteq> 0" and p: "p = live S ! j" "j < length (live S)"
    and r: "ring (live S) (who S) (world b)"
  defines "q \<equiv> next_of (live S) j"
  shows "ends (\<lambda>b'. solo {#} (posted q (USR_PING, 8, long_bytes (c - 1)) (taken p S)) b' \<and>
      queue_of_domains b' = queue_of_domains b \<and> world b' = turned p c S (world b))
    (process_run s ring_program (Suc (Suc n)) p b)"
proof -
  have pl: "p \<in> set (live S)" and tok: "tail_ok S" and m: "mail S p = [(USR_PING, 8, long_bytes c)]"
    using w(1) by (auto simp: with_ping_def)
  have q: "q \<in> set (live S)" "q \<noteq> p" using next_of_other [of "live S" j] r p by (auto simp: ring_def q_def)
  have wp: "who S p = (fst (who S p), Some Callback, Some (ud_of (who S) p))" using r pl by (auto simp: ring_def crew_def)
  have u: "uds (world b) (ud_of (who S) p) = Some (fst (who S q))" using r p by (simp add: ring_def q_def)
  let ?S = "posted q (USR_PING, 8, long_bytes (c - 1)) (taken p S)" and ?w = "turned p c S (world b)"
  show ?thesis
  proof (rule process_run_ok [where S' = ?S and R = "\<lambda>(q, nt, cp, u). q = queue_of_domains b \<and> u = ?w", OF b pl _ m wp])
    show "p \<in> set (live ?S)" using pl by simp
    fix m b1 and payload :: "byte list"
    assume 1: "solo (add_mset m {#}) (taken p S) b1" "rest b1 = rest b" "take (unat (8 :: 32 word)) payload = long_bytes c"
    have e: "current_process b1 = Some p" "uds (world b1) (ud_of (who S) p) = Some (fst (who (taken p S) q))" "long_at payload = c"
      using 1(2,3) cp u by (simp_all add: rest_def long_at_bytes)
    have f: "fair (taken p S) {q}" using tok w(2) by (simp add: fair_def)
    let ?b = "b1\<lparr>world := ?w\<rparr>"
    have 2: "solo (add_mset m {#}) (taken p S) ?b" "current_process ?b = Some p" using 1(1) e(1) by simp_all
    have "ends (\<lambda>b'. solo {#m#} ?S b' \<and> rest b' = rest ?b) (msock_send s (fst (who (taken p S) q)) USR_PING (long_bytes (c - 1)) 8 ?b)"
      using msock_send_solo [OF os 2 _ _ f, where sz = 8 and payload = "long_bytes (c - 1)"] pl q by simp
    then have "ends (\<lambda>(r, b2). r = RECV_OK \<and> solo {#m#} ?S b2 \<and> (case rest b2 of (q, nt, cp, u) \<Rightarrow> q = queue_of_domains b \<and> u = ?w))
        (rbind (msock_send s (fst (who (taken p S) q)) USR_PING (long_bytes (c - 1)) 8 ?b) (\<lambda>b. Inr (RECV_OK, b)))"
      by (rule ends_rbind) (use 1(2) in \<open>simp add: rest_def\<close>)
    moreover have "world b1 = world b" using 1(2) by (simp add: rest_def)
    ultimately show "ends (\<lambda>(r, b2). r = RECV_OK \<and> solo (add_mset m {#}) ?S b2 \<and> (case rest b2 of (q, nt, cp, u) \<Rightarrow> q = queue_of_domains b \<and> u = ?w))
        (run_act s (run_constructor s ring_program (Suc n)) (on_message ring_program Callback USR_PING payload 8 (Some (ud_of (who S) p))) b1)"
      using e w(3) by (simp add: ring_callback_def with_ud_def run_act_World Let_def turned_def del: run_act.simps(3))
  next
    fix b3 :: "(ring_name, nat, ring_world) base"
    assume 3: "solo {#} ?S b3" "case rest b3 of (q, nt, cp, u) \<Rightarrow> q = queue_of_domains b \<and> u = ?w"
    have "mail ?S p = []" using q(2) m by (simp add: posted_def)
    then show "ends (\<lambda>b'. solo {#} ?S b' \<and> queue_of_domains b' = queue_of_domains b \<and> world b' = ?w) (process_run s ring_program (Suc n) p b3)"
      using process_run_idle [OF 3(1), of p] pl 3 by (simp add: rest_def del: process_run.simps)
  qed
qed

lemma run_last_ping:
  assumes os: "os_ok (s_os s)" and b: "solo {#} S b" and cp: "current_process b = Some p"
    and w: "with_ping p 0 S" "busy S = []" and c: "crew (live S) (who S) (world b)"
  shows "ends (\<lambda>b'. solo {#} (gone p (taken p (all_posted (MSG_EXIT, 0, []) (taken p S)))) b' \<and>
      queue_of_domains b' = queue_of_domains b \<and> crew (remove1 p (live S)) (who S) (world b') \<and>
      turns (world b') = turns (world b) @ [(Some (ud_of (who S) p), 0)])
    (process_run s ring_program (Suc (Suc n)) p b)"
proof -
  have pl: "p \<in> set (live S)" and tok: "tail_ok S" and m: "mail S p = [(USR_PING, 8, long_bytes 0)]"
    using w(1) by (auto simp: with_ping_def)
  have wp: "who S p = (fst (who S p), Some Callback, Some (ud_of (who S) p))" using c pl by (auto simp: crew_def)
  let ?S = "all_posted (MSG_EXIT, 0, []) (taken p S)"
  have d: "distinct (live S)" by (rule solo_distinct [OF b])
  have S: "live ?S = live S" "who ?S = who S" "mail ?S p = [(MSG_EXIT, 0, [])]"
    unfolding all_posted_def using fold_posted [OF d, of "(MSG_EXIT, 0, [])" "taken p S"] pl m by simp_all
  let ?w = "turned p 0 S (world b)"
  show ?thesis
  proof (rule process_run_ok [where S' = ?S and R = "\<lambda>(q, nt, cp, u). q = queue_of_domains b \<and> u = ?w", OF b pl _ m wp])
    show "p \<in> set (live ?S)" using pl S by simp
    fix m b1 and payload :: "byte list"
    assume 1: "solo (add_mset m {#}) (taken p S) b1" "rest b1 = rest b" "take (unat (8 :: 32 word)) payload = long_bytes 0"
    have e: "current_process b1 = Some p" "long_at payload = 0" "world b1 = world b"
      using 1(2,3) cp by (simp_all add: rest_def long_at_bytes)
    have f: "fair (taken p S) (set (live (taken p S)))" using tok w(2) by (simp add: fair_def)
    let ?b = "b1\<lparr>world := ?w\<rparr>"
    have 2: "solo (add_mset m {#}) (taken p S) ?b" "current_process ?b = Some p" using 1(1) e(1) by simp_all
    have "ends (\<lambda>b'. solo {#m#} ?S b' \<and> rest b' = rest ?b) (msock_loopexit s ?b)"
      using msock_loopexit_solo [OF os 2 _ f] pl by simp
    then have "ends (\<lambda>(r, b2). r = RECV_OK \<and> solo {#m#} ?S b2 \<and> (case rest b2 of (q, nt, cp, u) \<Rightarrow> q = queue_of_domains b \<and> u = ?w))
        (rbind (msock_loopexit s ?b) (\<lambda>b. Inr (RECV_OK, b)))"
      by (rule ends_rbind) (use 1(2) in \<open>simp add: rest_def\<close>)
    then show "ends (\<lambda>(r, b2). r = RECV_OK \<and> solo (add_mset m {#}) ?S b2 \<and> (case rest b2 of (q, nt, cp, u) \<Rightarrow> q = queue_of_domains b \<and> u = ?w))
        (run_act s (run_constructor s ring_program (Suc n)) (on_message ring_program Callback USR_PING payload 8 (Some (ud_of (who S) p))) b1)"
      using e by (simp add: ring_callback_def run_act_World Let_def turned_def del: run_act.simps(3))
  next
    fix b3 :: "(ring_name, nat, ring_world) base"
    assume 3: "solo {#} ?S b3" "case rest b3 of (q, nt, cp, u) \<Rightarrow> q = queue_of_domains b \<and> u = ?w"
    then have "queue_of_domains b3 = queue_of_domains b" "world b3 = ?w" by (simp_all add: rest_def)
    then show "ends (\<lambda>b'. solo {#} (gone p (taken p ?S)) b' \<and> queue_of_domains b' = queue_of_domains b \<and>
        crew (remove1 p (live S)) (who S) (world b') \<and> turns (world b') = turns (world b) @ [(Some (ud_of (who S) p), 0)])
      (process_run s ring_program (Suc n) p b3)"
      using run_exit [OF 3(1) _ _ S(3), of s n] S pl c by (simp del: process_run.simps)
  qed
qed

text \<open>From here on the message makes its turns, and the ring comes to its end.\<close>

lemma after_last_ping:
  assumes d: "distinct (live S)" and "with_ping p 0 S" and "busy S = []" and n: "length (live S) < n"
    and b2: "solo {#} (gone p (taken p (all_posted (MSG_EXIT, 0, []) (taken p S)))) b2"
    and c: "crew (remove1 p (live S)) (who S) (world b2)"
  shows "ends (all_over (turns (world b2)) b2) (process_queue_run s ring_program n (Suc 0) b2)"
proof -
  let ?S = "gone p (taken p (all_posted (MSG_EXIT, 0, []) (taken p S)))"
  have S: "live ?S = remove1 p (live S)" "who ?S = who S"
    "busy ?S = remove1 p (filter (\<lambda>r. mail (taken p S) r = []) (live S))"
    "\<And>r. r \<in> set (live S) \<Longrightarrow> r \<noteq> p \<Longrightarrow> mail ?S r = [(MSG_EXIT, 0, [])]"
    using fold_posted [of "live S" "(MSG_EXIT, 0, [])" "taken p S"] d assms(2,3)
    by (auto simp: all_posted_def gone_def with_ping_def)
  have f: "filter (\<lambda>r. mail (taken p S) r = []) (live S) = live S"
    using assms(2) by (auto simp: filter_id_conv with_ping_def)
  have m: "mail ?S r = [(MSG_EXIT, 0, [])]" if "r \<in> set (live ?S)" for r
    using that S(1) S(4) [of r] d by simp
  have "length (busy ?S) < n" unfolding S(3) f using n by (auto simp: length_remove1)
  from exit_phase [OF b2 _ _ m this] show ?thesis
    using c S(1,2,3) f by simp
qed

text \<open>The turns of a message with the counter \<open>c\<close>, from the process at \<open>j\<close> on.\<close>

definition lap :: "addr list \<Rightarrow> (addr \<Rightarrow> pid \<times> ring_name option \<times> nat option) \<Rightarrow> nat \<Rightarrow> ulong \<Rightarrow> (nat option \<times> ulong) list" where
  "lap xs wh j c = map (\<lambda>k. (Some (ud_of wh (xs ! ((j + k) mod length xs))), c - of_nat k)) [0 ..< Suc (unat c)]"

lemma lap_0: "j < length xs \<Longrightarrow> lap xs wh j 0 = [(Some (ud_of wh (xs ! j)), 0)]"
  by (simp add: lap_def)

lemma lap_step:
  assumes "j < length xs" and "c \<noteq> 0"
  shows "lap xs wh j c = (Some (ud_of wh (xs ! j)), c) # lap xs wh (Suc j mod length xs) (c - 1)"
proof -
  have u: "unat c = Suc (unat (c - 1))" using unat_minus_one [OF assms(2)] assms(2) by (simp add: unat_gt_0)
  have "[0 ..< Suc (unat c)] = 0 # map Suc [0 ..< Suc (unat (c - 1))]"
    unfolding map_Suc_upt u by (rule upt_conv_Cons) simp
  then show ?thesis using assms(1) by (simp add: lap_def mod_add_left_eq mod_Suc_eq del: upt_Suc)
qed

text \<open>One turn, given what happens after it.\<close>

lemma ring_turn:
  assumes os: "os_ok (s_os s)" and b: "solo {#} S b" and cp: "current_process b = Some p"
    and w: "with_ping p c S" "busy S = []" and p: "p = live S ! j" "j < length (live S)"
    and r: "ring (live S) (who S) (world b)" and n: "length (live S) < n"
    and more: "\<And>S' b2. c \<noteq> 0 \<Longrightarrow> solo {#} S' b2 \<Longrightarrow> with_ping (next_of (live S) j) (c - 1) S' \<Longrightarrow> busy S' = [next_of (live S) j] \<Longrightarrow>
      live S' = live S \<Longrightarrow> who S' = who S \<Longrightarrow> world b2 = turned p c S (world b) \<Longrightarrow> queue_of_domains b2 = queue_of_domains b \<Longrightarrow>
      ends (all_over (turns (world b2) @ lap (live S) (who S) (Suc j mod length (live S)) (c - 1)) b2)
        (process_queue_run s ring_program n (Suc 0) b2)"
  shows "ends (\<lambda>b2. ends (all_over (turns (world b) @ lap (live S) (who S) j c) b)
      (process_queue_run s ring_program n (Suc 0) (b2\<lparr>current_process := None\<rparr>)))
    (process_run s ring_program (Suc (Suc k)) p b)"
proof (cases "c = 0")
  case True
  let ?S = "gone p (taken p (all_posted (MSG_EXIT, 0, []) (taken p S)))"
  have "ends (\<lambda>b'. solo {#} ?S b' \<and> queue_of_domains b' = queue_of_domains b \<and> crew (remove1 p (live S)) (who S) (world b') \<and>
      turns (world b') = turns (world b) @ [(Some (ud_of (who S) p), 0)]) (process_run s ring_program (Suc (Suc k)) p b)"
    by (rule run_last_ping [OF os b cp]) (use w r True in \<open>simp_all add: ring_def\<close>)
  then show ?thesis
  proof (rule ends_mono)
    fix b2 :: "(ring_name, nat, ring_world) base"
    assume 2: "solo {#} ?S b2 \<and> queue_of_domains b2 = queue_of_domains b \<and> crew (remove1 p (live S)) (who S) (world b2) \<and>
      turns (world b2) = turns (world b) @ [(Some (ud_of (who S) p), 0)]"
    have "ends (all_over (turns (world (b2\<lparr>current_process := None\<rparr>))) (b2\<lparr>current_process := None\<rparr>))
        (process_queue_run s ring_program n (Suc 0) (b2\<lparr>current_process := None\<rparr>))"
      by (rule after_last_ping [OF solo_distinct [OF b] _ w(2) n]) (use 2 w(1) True in auto)
    then show "ends (all_over (turns (world b) @ lap (live S) (who S) j c) b)
        (process_queue_run s ring_program n (Suc 0) (b2\<lparr>current_process := None\<rparr>))"
      using 2 lap_0 [OF p(2)] p(1) True unfolding all_over_def [abs_def] by simp
  qed
next
  case False
  let ?q = "next_of (live S) j"
  let ?S = "posted ?q (USR_PING, 8, long_bytes (c - 1)) (taken p S)"
  have q: "?q \<in> set (live S)" "?q \<noteq> p" using next_of_other [of "live S" j] p r by (auto simp: ring_def)
  show ?thesis
  proof (rule ends_mono [OF run_ping [OF os b cp w False p r]])
    fix b2 :: "(ring_name, nat, ring_world) base"
    assume 2: "solo {#} ?S b2 \<and> queue_of_domains b2 = queue_of_domains b \<and> world b2 = turned p c S (world b)"
    let ?b = "b2\<lparr>current_process := None\<rparr>"
    have "ends (all_over (turns (world ?b) @ lap (live S) (who S) (Suc j mod length (live S)) (c - 1)) ?b)
        (process_queue_run s ring_program n (Suc 0) ?b)"
    proof (rule more [OF False])
      show "solo {#} ?S ?b" using 2 by simp
      show "with_ping ?q (c - 1) ?S" using w q by (auto simp: with_ping_def posted_def)
      show "busy ?S = [?q]" using w q by (simp add: with_ping_def posted_def)
    qed (use 2 in simp_all)
    then show "ends (all_over (turns (world b) @ lap (live S) (who S) j c) b) (process_queue_run s ring_program n (Suc 0) ?b)"
      using 2 lap_step [OF p(2) False] p(1) unfolding all_over_def [abs_def] by simp
  qed
qed

lemma next_in_range: "j < length xs \<Longrightarrow> Suc j mod length xs < length xs"
  by (metis gr_implies_not0 mod_less_divisor neq0_conv)

lemma ring_phase:
  assumes os: "os_ok (s_os s)"
  shows "solo {#} S b \<Longrightarrow> with_ping (live S ! j) c S \<Longrightarrow> busy S = [live S ! j] \<Longrightarrow> j < length (live S) \<Longrightarrow>
    ring (live S) (who S) (world b) \<Longrightarrow> unat c + length (live S) + 4 \<le> n \<Longrightarrow>
    ends (all_over (turns (world b) @ lap (live S) (who S) j c) b) (process_queue_run s ring_program n (Suc 0) b)"
proof (induction "unat c" arbitrary: S b c j n rule: less_induct)
  case less
  obtain k where n: "n = Suc (Suc (Suc k))" using less.prems(6) by (intro that [of "n - 3"]) auto
  let ?p = "live S ! j"
  have S: "with_ping ?p c (served S)" "busy (served S) = []" using less.prems(2,3) by (simp_all add: with_ping_def)
  show ?case unfolding n
  proof (rule process_queue_run_step [OF less.prems(1,3)])
    fix b1 :: "(ring_name, nat, ring_world) base"
    assume 1: "solo {#} (served S) b1" "queue_of_domains b1 = queue_of_domains b" "current_process b1 = Some ?p" "world b1 = world b"
    have "ends (\<lambda>b2. ends (all_over (turns (world b1) @ lap (live (served S)) (who (served S)) j c) b1)
        (process_queue_run s ring_program (Suc (Suc k)) (Suc 0) (b2\<lparr>current_process := None\<rparr>)))
      (process_run s ring_program (Suc (Suc k)) ?p b1)"
    proof (rule ring_turn [OF os 1(1,3) S, where j = j])
      fix S' b2
      assume 2: "c \<noteq> 0" "solo {#} S' b2" "with_ping (next_of (live (served S)) j) (c - 1) S'" "busy S' = [next_of (live (served S)) j]"
        "live S' = live (served S)" "who S' = who (served S)" "world b2 = turned ?p c (served S) (world b1)"
      have c: "unat c = Suc (unat (c - 1))" using unat_minus_one [OF 2(1)] 2(1) by (simp add: unat_gt_0)
      have "ends (all_over (turns (world b2) @ lap (live S') (who S') (Suc j mod length (live S)) (c - 1)) b2)
          (process_queue_run s ring_program (Suc (Suc k)) (Suc 0) b2)"
        by (rule less.hyps [of "c - 1" S' b2 "Suc j mod length (live S)"])
          (use c 1 2 less.prems n next_in_range in \<open>simp_all add: next_of_def\<close>)
      then show "ends (all_over (turns (world b2) @ lap (live (served S)) (who (served S)) (Suc j mod length (live (served S))) (c - 1)) b2)
          (process_queue_run s ring_program (Suc (Suc k)) (Suc 0) b2)"
        using 2(5,6) by simp
    qed (use less.prems 1 n in simp_all)
    then show "ends (\<lambda>b2. ends (all_over (turns (world b) @ lap (live S) (who S) j c) b)
        (process_queue_run s ring_program (Suc (Suc k)) (Suc 0) (b2\<lparr>current_process := None\<rparr>)))
      (process_run s ring_program (Suc (Suc k)) ?p b1)"
      using 1(2,4) unfolding all_over_def [abs_def] by simp
  qed
qed

section \<open>The start\<close>

text \<open>Before the ring is closed: each process but the oldest sends to the one before it.\<close>

definition chain :: "addr list \<Rightarrow> (addr \<Rightarrow> pid \<times> ring_name option \<times> nat option) \<Rightarrow> ring_world \<Rightarrow> bool" where
  "chain xs wh w \<longleftrightarrow> distinct xs \<and> crew xs wh w \<and>
     (\<forall>j. Suc j < length xs \<longrightarrow> uds w (ud_of wh (xs ! j)) = Some (fst (wh (xs ! Suc j))))"

lemma chain_closed:
  assumes c: "chain xs wh w" and l: "2 \<le> length xs" and p: "p = last xs"
  shows "ring xs wh (w\<lparr>uds := (uds w)(ud_of wh p \<mapsto> fst (wh (hd xs)))\<rparr>)"
proof -
  have n: "xs \<noteq> []" using l by auto
  then have x: "xs \<noteq> []" "p = xs ! (length xs - 1)" "p \<in> set xs" using p by (simp_all add: last_conv_nth)
  let ?w = "w\<lparr>uds := (uds w)(ud_of wh p \<mapsto> fst (wh (hd xs)))\<rparr>"
  have "crew xs wh ?w" using c x(3) by (auto simp: chain_def crew_def)
  moreover have "uds ?w (ud_of wh (xs ! j)) = Some (fst (wh (next_of xs j)))" if j: "j < length xs" for j
  proof (cases "Suc j = length xs")
    case True
    then have "j = length xs - 1" by simp
    then have "xs ! j = p" "next_of xs j = hd xs" using x True by (simp_all add: next_of_def hd_conv_nth)
    then show ?thesis by simp
  next
    case False
    then have "j \<noteq> length xs - 1" "Suc j < length xs" using j by simp_all
    moreover have "xs ! j \<noteq> p" using calculation c j unfolding x(2) by (simp add: chain_def nth_eq_iff_index_eq)
    then have "ud_of wh (xs ! j) \<noteq> ud_of wh p" using c j x(3) unfolding chain_def crew_def by (meson inj_onD nth_mem)
    ultimately show ?thesis using c by (simp add: chain_def next_of_def)
  qed
  ultimately show ?thesis using c l by (simp add: ring_def chain_def)
qed

lemma chain_arrived:
  assumes c: "chain xs wh w" and p: "p \<notin> set xs" and u: "ud \<notin> dom (uds w)" and v: "xs \<noteq> [] \<Longrightarrow> v = fst (wh (hd xs))"
  shows "chain (p # xs) (wh(p := (pid, Some Callback, Some ud))) (w\<lparr>callocs := k, uds := (uds w)(ud \<mapsto> v)\<rparr>)"
proof -
  let ?wh = "wh(p := (pid, Some Callback, Some ud))"
  let ?w = "w\<lparr>callocs := k, uds := (uds w)(ud \<mapsto> v)\<rparr>"
  have e: "ud_of ?wh p = ud" "\<And>r. r \<in> set xs \<Longrightarrow> ud_of ?wh r = ud_of wh r" "\<And>r. r \<in> set xs \<Longrightarrow> ?wh r = wh r"
    using p by (auto simp: ud_of_def)
  have cr: "crew xs wh w" and d: "distinct xs" using c by (simp_all add: chain_def)
  have u': "ud \<notin> ud_of wh ` set xs" using cr u by (simp add: crew_def)
  have i: "ud_of ?wh ` set xs = ud_of wh ` set xs" using e(2) by (auto intro: image_cong)
  have "inj_on (ud_of ?wh) (set xs)" using cr inj_on_cong [of "set xs" "ud_of ?wh" "ud_of wh"] e(2) by (simp add: crew_def)
  then have in': "inj_on (ud_of ?wh) (set (p # xs))" using u' e(1) i p by simp
  have "\<forall>r \<in> set (p # xs). ?wh r = (fst (?wh r), Some Callback, Some (ud_of ?wh r))"
    using cr e p by (auto simp: crew_def)
  moreover have "dom (uds ?w) = ud_of ?wh ` set (p # xs)"
    using cr e(1) i by (simp add: crew_def)
  ultimately have "crew (p # xs) ?wh ?w" using in' unfolding crew_def by blast
  moreover have "uds ?w (ud_of ?wh ((p # xs) ! j)) = Some (fst (?wh ((p # xs) ! Suc j)))" if j: "Suc j < length (p # xs)" for j
  proof (cases j)
    case 0
    then show ?thesis using j v e by (cases xs) auto
  next
    case (Suc i)
    then have m: "xs ! i \<in> set xs" "xs ! Suc i \<in> set xs" using j by simp_all
    then have "ud_of wh (xs ! i) \<noteq> ud" using u' by auto
    then show ?thesis using c j e m Suc by (simp add: chain_def)
  qed
  ultimately show ?thesis using d p by (simp add: chain_def)
qed

text \<open>\<open>calloc\<close> gives a new address for each of the first calls; nothing is freed among them.\<close>

definition calloc_ok :: "nat \<Rightarrow> calloc \<Rightarrow> bool" where
  "calloc_ok n c \<longleftrightarrow> inj_on c {..< n} \<and> (\<forall>i < n. c i \<noteq> None)"

text \<open>The process that was spawned as number \<open>i\<close> has the \<open>struct ud\<close> of call number \<open>i\<close>; the newest comes first.\<close>

definition in_order :: "calloc \<Rightarrow> (addr \<Rightarrow> pid \<times> ring_name option \<times> nat option) \<Rightarrow> addr list \<Rightarrow> bool" where
  "in_order c wh xs \<longleftrightarrow> map c [0 ..< length xs] = map (\<lambda>p. Some (ud_of wh p)) (rev xs)"

lemma in_order_arrived:
  assumes "in_order c wh xs" and "p \<notin> set xs" and "c (length xs) = Some ud"
  shows "in_order c (wh(p := (pid, Some Callback, Some ud))) (p # xs)"
  using assms by (auto simp: in_order_def ud_of_def)

lemma lap_order:
  assumes o: "in_order c wh xs" and n: "N = length xs" "xs \<noteq> []"
  shows "lap xs wh (N - 1) msg = map (\<lambda>k. (c ((N - k mod N) mod N), msg - of_nat k)) [0 ..< Suc (unat msg)]"
proof -
  have "Some (ud_of wh (xs ! ((N - 1 + k) mod N))) = c ((N - k mod N) mod N)" for k
  proof -
    define i where "i = (N - 1 + k) mod N"
    have N: "0 < N" using n by simp
    then have i: "i < N" by (simp add: i_def)
    have "map c [0 ..< N] ! (N - 1 - i) = map (\<lambda>p. Some (ud_of wh p)) (rev xs) ! (N - 1 - i)" using o n(1) by (simp add: in_order_def)
    then have "c (N - 1 - i) = Some (ud_of wh (xs ! i))" using i n(1) by (simp add: rev_nth)
    moreover have "N - 1 - i = (N - k mod N) mod N"
    proof (cases "k mod N")
      case 0
      then have "N - 1 + k = N - 1 + N * (k div N)" using mult_div_mod_eq [of N k] by simp
      then have "i = (N - 1) mod N" by (simp only: i_def mod_mult_self2)
      then have "i = N - 1" using N by simp
      then show ?thesis using 0 by simp
    next
      case (Suc r)
      have "N - 1 + k = r + N * Suc (k div N)" using Suc N mult_div_mod_eq [of N k] by simp
      then have "i = r mod N" by (simp only: i_def mod_mult_self2)
      moreover have "Suc r < N" using Suc mod_less_divisor [OF N, of k] by simp
      ultimately show ?thesis using Suc by simp
    qed
    ultimately show ?thesis by (simp add: i_def)
  qed
  then show ?thesis unfolding lap_def n(1) [symmetric] by simp
qed

text \<open>The processes are there, and nothing was sent yet.\<close>

definition quiet :: "calloc \<Rightarrow> (nat option \<times> ulong) list \<Rightarrow> nat \<Rightarrow> (ring_name, nat) scene \<Rightarrow> (ring_name, nat, ring_world) base \<Rightarrow> bool" where
  "quiet c ts R S b \<longleftrightarrow> solo {#} S b \<and> chain (live S) (who S) (world b) \<and> callocs (world b) = length (live S) \<and>
     Some ` dom (uds (world b)) = c ` {..< length (live S)} \<and> in_order c (who S) (live S) \<and> turns (world b) = ts \<and> (\<forall>p \<in> set (live S). mail S p = []) \<and> busy S = [] \<and> tail_ok S \<and>
     room S = R \<and> queue_of_domains b = ms_put 1 ms_new \<and> current_process b = None"

lemma quiet_spawn:
  assumes os: "os_ok (s_os s)" and q: "quiet c ts R S b" and r: "length (live S) < R"
    and c: "calloc_ok n c" "length (live S) < n" "c (callocs (world b)) = Some ud"
    and v: "live S \<noteq> [] \<Longrightarrow> v = fst (who S (hd (live S)))"
  shows "ends (\<lambda>(pid, b'). \<exists>p. p \<notin> set (live S) \<and> quiet c ts R (arrived p (pid, Some Callback, Some ud) S) b')
    (msock_base_spawn s (Some Callback) (Some ud) (b\<lparr>world := (world b)\<lparr>callocs := Suc (callocs (world b)), uds := (uds (world b))(ud \<mapsto> v)\<rparr>\<rparr>))"
proof -
  let ?w = "(world b)\<lparr>callocs := Suc (callocs (world b)), uds := (uds (world b))(ud \<mapsto> v)\<rparr>"
  have b: "solo {#} S (b\<lparr>world := ?w\<rparr>)" using q by (simp add: quiet_def)
  have l: "callocs (world b) = length (live S)" "Some ` dom (uds (world b)) = c ` {..< length (live S)}" using q by (simp_all add: quiet_def)
  have "Some ud \<notin> c ` {..< length (live S)}"
  proof
    assume "Some ud \<in> c ` {..< length (live S)}"
    then obtain i where "i < length (live S)" "c i = c (length (live S))" using c(3) l(1) by auto
    then show False using inj_onD [of c "{..< n}" i "length (live S)"] c(1,2) by (auto simp: calloc_ok_def)
  qed
  then have ud: "ud \<notin> dom (uds (world b))" using l(2) by blast
  have w: "Some ` dom (uds ?w) = c ` {..< Suc (length (live S))}" using l c(3) by (simp add: lessThan_Suc)
  show ?thesis
  proof (rule ends_mono [OF msock_base_spawn_solo [OF os b, of "Some Callback" "Some ud"]])
    show "length (live S) < room S" using q r by (simp add: quiet_def)
    fix x
    assume "case x of (pid, b') \<Rightarrow> \<exists>p. p \<notin> set (live S) \<and> solo {#} (arrived p (pid, Some Callback, Some ud) S) b' \<and> rest b' = rest (b\<lparr>world := ?w\<rparr>)"
    then obtain pid b' p where x: "x = (pid, b')" "p \<notin> set (live S)" "solo {#} (arrived p (pid, Some Callback, Some ud) S) b'"
      "rest b' = rest (b\<lparr>world := ?w\<rparr>)" by (cases x) auto
    have e: "queue_of_domains b' = queue_of_domains b" "current_process b' = current_process b" "world b' = ?w"
      using x(4) by (simp_all add: rest_def)
    have "chain (p # live S) ((who S)(p := (pid, Some Callback, Some ud))) ?w"
      by (rule chain_arrived [where xs = "live S"]) (use q x(2) ud v in \<open>simp_all add: quiet_def\<close>)
    moreover have "in_order c ((who S)(p := (pid, Some Callback, Some ud))) (p # live S)"
      by (rule in_order_arrived) (use q x(2) c(3) l(1) in \<open>simp_all add: quiet_def\<close>)
    ultimately have "quiet c ts R (arrived p (pid, Some Callback, Some ud) S) b'"
      using q x(2,3) e w l(1) unfolding quiet_def by (simp add: arrived_def)
    then show "case x of (pid, b') \<Rightarrow> \<exists>p. p \<notin> set (live S) \<and> quiet c ts R (arrived p (pid, Some Callback, Some ud) S) b'"
      using x(1,2) by auto
  qed
qed

lemma ring_calloc_Some: "c (callocs w) = Some ud \<Longrightarrow>
    ring_calloc c w = (Some ud, w\<lparr>callocs := Suc (callocs w), uds := (uds w)(ud \<mapsto> 0)\<rparr>)"
  by (simp add: ring_calloc_def Let_def)

lemma ring_spawns_quiet:
  assumes os: "os_ok (s_os s)" and c: "calloc_ok n c"
  shows "quiet c ts R S b \<Longrightarrow> live S \<noteq> [] \<Longrightarrow> prev = fst (who S (hd (live S))) \<Longrightarrow> length (live S) + i \<le> R \<Longrightarrow>
    length (live S) + i \<le> n \<Longrightarrow> first = fst (who S (last (live S))) \<Longrightarrow>
    ends (\<lambda>(prev', b'). \<exists>S'. quiet c ts R S' b' \<and> length (live S') = length (live S) + i \<and> prev' = fst (who S' (hd (live S'))) \<and>
      first = fst (who S' (last (live S')))) (ring_spawns s c i prev b)"
proof (induction i arbitrary: S b prev)
  case 0
  then show ?case by auto
next
  case (Suc i)
  have l: "callocs (world b) = length (live S)" using Suc.prems(1) by (simp add: quiet_def)
  have "length (live S) < n" using Suc.prems(5) by simp
  then have "c (length (live S)) \<noteq> None" using c unfolding calloc_ok_def by blast
  then obtain ud where ud: "c (callocs (world b)) = Some ud" using l by auto
  let ?w = "(world b)\<lparr>callocs := Suc (callocs (world b)), uds := (uds (world b))(ud \<mapsto> prev)\<rparr>"
  have "ends (\<lambda>(prev', b'). \<exists>S'. quiet c ts R S' b' \<and> length (live S') = length (live S) + Suc i \<and> prev' = fst (who S' (hd (live S'))) \<and>
      first = fst (who S' (last (live S'))))
    (rbind (msock_base_spawn s (Some Callback) (Some ud) (b\<lparr>world := ?w\<rparr>)) (\<lambda>(cur, b). ring_spawns s c i cur b))"
  proof (rule ends_rbind [OF quiet_spawn [OF os Suc.prems(1) _ c _ ud Suc.prems(3)]])
    fix x
    assume "case x of (pid, b') \<Rightarrow> \<exists>p. p \<notin> set (live S) \<and> quiet c ts R (arrived p (pid, Some Callback, Some ud) S) b'"
    then obtain pid b1 p where x: "x = (pid, b1)" "p \<notin> set (live S)" "quiet c ts R (arrived p (pid, Some Callback, Some ud) S) b1"
      by (cases x) auto
    have "last (live S) \<noteq> p" using last_in_set [OF Suc.prems(2)] x(2) by auto
    then have "ends (\<lambda>(prev', b'). \<exists>S'. quiet c ts R S' b' \<and> length (live S') = Suc (length (live S)) + i \<and>
        prev' = fst (who S' (hd (live S'))) \<and> first = fst (who S' (last (live S')))) (ring_spawns s c i pid b1)"
      using Suc.IH [OF x(3), of pid] Suc.prems(2,4,5,6) by (simp add: arrived_def)
    then show "ends (\<lambda>(prev', b'). \<exists>S'. quiet c ts R S' b' \<and> length (live S') = length (live S) + Suc i \<and> prev' = fst (who S' (hd (live S'))) \<and>
      first = fst (who S' (last (live S')))) (case x of (cur, b) \<Rightarrow> ring_spawns s c i cur b)"
      using x(1) by simp
  qed (use Suc.prems(4,5) in simp_all)
  then show ?case by (simp add: ring_calloc_Some [of c, OF ud])
qed

text \<open>The oldest process has the two messages of \<open>main\<close>.\<close>

definition mailed :: "ulong \<Rightarrow> (ring_name, nat) scene \<Rightarrow> (ring_name, nat) scene" where
  "mailed c S = posted (last (live S)) (USR_PING, 8, long_bytes c)
     (posted (last (live S)) (USR_START, 8, long_bytes (fst (who S (hd (live S))))) S)"

lemma ring_started:
  assumes os: "os_ok (s_os s)" and q: "quiet c ts R S b0" and l: "2 \<le> length (live S)"
    and b: "solo {#} (mailed msg S) b" "world b = world b0" and n: "unat msg + length (live S) + 8 \<le> n"
  shows "ends (all_over (ts @ lap (live S) (who S) (length (live S) - 1) msg) b) (process_queue_run s ring_program n (Suc 0) b)"
proof -
  obtain k where k: "n = Suc (Suc (Suc (Suc k)))" using n by (intro that [of "n - 4"]) auto
  define p where "p = last (live S)"
  define x where "x = fst (who S (hd (live S)))"
  define j where "j = length (live S) - 1"
  have nn: "live S \<noteq> []" using l by auto
  have pj: "p = live S ! j" "j < length (live S)" "p \<in> set (live S)"
    using nn by (simp_all add: p_def j_def last_conv_nth)
  have ch: "chain (live S) (who S) (world b0)" and ml: "\<forall>r \<in> set (live S). mail S r = []" and bs: "busy S = []" "tail_ok S"
    using q by (simp_all add: quiet_def)
  let ?M = "mailed msg S"
  have M: "live ?M = live S" "who ?M = who S" "tail_ok ?M" "busy ?M = [p]"
    "mail ?M p = [(USR_START, 8, long_bytes x), (USR_PING, 8, long_bytes msg)]" "\<And>r. r \<in> set (live S) \<Longrightarrow> r \<noteq> p \<Longrightarrow> mail ?M r = []"
    using ml bs pj(3) by (simp_all add: mailed_def posted_def p_def x_def)
  have wp: "who ?M p = (fst (who S p), Some Callback, Some (ud_of (who S) p))" using ch pj(3) M(2) by (auto simp: chain_def crew_def)
  let ?w = "(world b0)\<lparr>uds := (uds (world b0))(ud_of (who S) p \<mapsto> x)\<rparr>"
  let ?S = "taken p (served ?M)"
  have rg: "ring (live S) (who S) ?w" unfolding x_def by (rule chain_closed [OF ch l p_def])
  have ping: "with_ping p msg ?S" "busy ?S = []" using M pj(3) by (auto simp: with_ping_def)
  have "ud_of (who S) p \<in> dom (uds (world b0))" using ch pj(3) unfolding chain_def crew_def by blast
  then obtain prev where prev: "uds (world b0) (ud_of (who S) p) = Some prev" by blast
  have tw: "turns (world b0) = ts" using q by (simp add: quiet_def)
  let ?ts = "ts @ lap (live S) (who S) (length (live S) - 1) msg"
  show ?thesis unfolding k
  proof (rule process_queue_run_step [OF b(1) M(4)])
    fix b1 :: "(ring_name, nat, ring_world) base"
    assume 1: "solo {#} (served ?M) b1" "queue_of_domains b1 = queue_of_domains b" "current_process b1 = Some p" "world b1 = world b"
    show "ends (\<lambda>b2. ends (all_over ?ts b) (process_queue_run s ring_program (Suc (Suc (Suc k))) (Suc 0) (b2\<lparr>current_process := None\<rparr>)))
      (process_run s ring_program (Suc (Suc (Suc k))) p b1)"
    proof (rule process_run_ok [where S' = ?S and R = "\<lambda>(q, nt, cp, u). q = queue_of_domains b \<and> cp = Some p \<and> u = ?w", OF 1(1)])
      fix m b2 and payload :: "byte list"
      assume 2: "solo (add_mset m {#}) ?S b2" "rest b2 = rest b1" "take (unat (8 :: 32 word)) payload = long_bytes x"
      have e: "world b2 = world b0" "current_process b2 = Some p" "queue_of_domains b2 = queue_of_domains b" "long_at payload = x"
        using 2(2,3) 1 b(2) by (simp_all add: rest_def long_at_bytes)
      show "ends (\<lambda>(r, b3). r = RECV_OK \<and> solo (add_mset m {#}) ?S b3 \<and>
          (case rest b3 of (q, nt, cp, u) \<Rightarrow> q = queue_of_domains b \<and> cp = Some p \<and> u = ?w))
        (run_act s (run_constructor s ring_program (Suc (Suc k)))
          (on_message ring_program Callback USR_START payload 8 (Some (ud_of (who S) p))) b2)"
        using 2(1) e prev by (simp add: ring_callback_def with_ud_def run_act_World rest_def del: run_act.simps(3))
    next
      fix b3 :: "(ring_name, nat, ring_world) base"
      assume 3: "solo {#} ?S b3" "case rest b3 of (q, nt, cp, u) \<Rightarrow> q = queue_of_domains b \<and> cp = Some p \<and> u = ?w"
      then have e: "queue_of_domains b3 = queue_of_domains b" "current_process b3 = Some p" "world b3 = ?w" by (simp_all add: rest_def)
      have "ends (\<lambda>b2. ends (all_over (turns (world b3) @ lap (live ?S) (who ?S) j msg) b3) (process_queue_run s ring_program (Suc (Suc (Suc k))) (Suc 0) (b2\<lparr>current_process := None\<rparr>)))
        (process_run s ring_program (Suc (Suc k)) p b3)"
      proof (rule ring_turn [OF os 3(1) e(2) ping, where j = j])
        fix S' b2
        assume 4: "msg \<noteq> 0" "solo {#} S' b2" "with_ping (next_of (live ?S) j) (msg - 1) S'" "busy S' = [next_of (live ?S) j]"
          "live S' = live ?S" "who S' = who ?S" "world b2 = turned p msg ?S (world b3)"
        have u: "unat msg = Suc (unat (msg - 1))" using unat_minus_one [OF 4(1)] 4(1) by (simp add: unat_gt_0)
        have "ends (all_over (turns (world b2) @ lap (live S') (who S') (Suc j mod length (live S)) (msg - 1)) b2)
            (process_queue_run s ring_program (Suc (Suc (Suc k))) (Suc 0) b2)"
          by (rule ring_phase [OF os 4(2), of "Suc j mod length (live S)" "msg - 1"])
            (use u 4 M e(3) pj(2) rg n k next_in_range in \<open>simp_all add: next_of_def\<close>)
        then show "ends (all_over (turns (world b2) @ lap (live ?S) (who ?S) (Suc j mod length (live ?S)) (msg - 1)) b2)
            (process_queue_run s ring_program (Suc (Suc (Suc k))) (Suc 0) b2)"
          using 4(5,6) M by simp
      qed (use M pj rg e n k in simp_all)
      then show "ends (\<lambda>b2. ends (all_over ?ts b) (process_queue_run s ring_program (Suc (Suc (Suc k))) (Suc 0) (b2\<lparr>current_process := None\<rparr>)))
        (process_run s ring_program (Suc (Suc k)) p b3)"
        using e(1,3) tw M(1,2) unfolding all_over_def [abs_def] by (simp add: j_def)
    qed (use M pj(3) wp in simp_all)
  qed
qed

lemma ring_sends:
  assumes os: "os_ok (s_os s)" and S: "quiet c ts R S b1" "live S \<noteq> []" and px: "p = last (live S)" "x = fst (who S (hd (live S)))"
  shows "ends (\<lambda>b'. solo {#} (mailed msg S) b' \<and> rest b' = rest b1)
    (rbind (msock_base_send s (fst (who S p)) USR_START (long_bytes x) 8 b1)
      (\<lambda>b. msock_base_send s (fst (who S p)) USR_PING (long_bytes msg) 8 b))"
proof -
  have p: "p \<in> set (live S)" using S(2) px(1) by simp
  have b: "solo {#} S b1" and f: "fair S {p}" using S(1) by (simp_all add: quiet_def fair_def)
  let ?S = "posted p (USR_START, 8, long_bytes x) S"
  have "ends (\<lambda>b2. solo {#} ?S b2 \<and> rest b2 = rest b1) (msock_base_send s (fst (who S p)) USR_START (long_bytes x) 8 b1)"
    using msock_base_send_solo [OF os b p f, where sz = 8 and payload = "long_bytes x" and ty = USR_START] by simp
  then show ?thesis
  proof (rule ends_rbind)
    fix b2 assume "solo {#} ?S b2 \<and> rest b2 = rest b1"
    then have 2: "solo {#} ?S b2" "rest b2 = rest b1" by simp_all
    have "p \<in> set (live ?S)" "fair ?S {p}" using p by (simp_all add: fair_def posted_def)
    from msock_base_send_solo [OF os 2(1) this, where sz = 8 and payload = "long_bytes msg" and ty = USR_PING]
    show "ends (\<lambda>b'. solo {#} (mailed msg S) b' \<and> rest b' = rest b1) (msock_base_send s (fst (who S p)) USR_PING (long_bytes msg) 8 b2)"
      using px 2(2) by (simp add: mailed_def)
  qed
qed

lemma ring_setup_ready:
  assumes os: "os_ok (s_os s)" and c: "calloc_ok (Suc n) c" and q: "quiet c ts R (empty_scene R) b" and n: "1 \<le> n" "Suc n \<le> R"
  shows "ends (\<lambda>b'. \<exists>S b0. quiet c ts R S b0 \<and> length (live S) = Suc n \<and> solo {#} (mailed msg S) b' \<and> rest b' = rest b0)
    (ring_setup s c n msg b)"
proof -
  let ?P = "\<lambda>b'. \<exists>S b0. quiet c ts R S b0 \<and> length (live S) = Suc n \<and> solo {#} (mailed msg S) b' \<and> rest b' = rest b0"
  have l: "callocs (world b) = 0" "live (empty_scene R :: (ring_name, nat) scene) = []" using q by (simp_all add: quiet_def empty_scene_def)
  have "c 0 \<noteq> None" using c unfolding calloc_ok_def by blast
  then obtain ud where ud: "c (callocs (world b)) = Some ud" using l by auto
  have sends: "ends ?P (rbind (msock_base_send s (fst (who S (last (live S)))) USR_START (long_bytes (fst (who S (hd (live S))))) 8 b1)
      (\<lambda>b. msock_base_send s (fst (who S (last (live S)))) USR_PING (long_bytes msg) 8 b))"
    if S: "quiet c ts R S b1" "length (live S) = Suc n" for S b1
    by (rule ends_mono [OF ring_sends [OF os S(1)]]) (use S in auto)
  have "ends ?P (rbind (msock_base_spawn s (Some Callback) (Some ud)
      (b\<lparr>world := (world b)\<lparr>callocs := Suc (callocs (world b)), uds := (uds (world b))(ud \<mapsto> 0)\<rparr>\<rparr>)) (\<lambda>(first, b).
      rbind (ring_spawns s c n first b) (\<lambda>(prev, b).
      rbind (msock_base_send s first USR_START (long_bytes prev) 8 b) (\<lambda>b.
        msock_base_send s first USR_PING (long_bytes msg) 8 b))))"
  proof (rule ends_rbind [OF quiet_spawn [OF os q _ c _ ud]])
    fix x
    assume "case x of (pid, b') \<Rightarrow> \<exists>p. p \<notin> set (live (empty_scene R)) \<and> quiet c ts R (arrived p (pid, Some Callback, Some ud) (empty_scene R)) b'"
    then obtain first b1 p where x: "x = (first, b1)" "quiet c ts R (arrived p (first, Some Callback, Some ud) (empty_scene R)) b1"
      by (cases x) auto
    have "ends (\<lambda>(prev', b'). \<exists>S'. quiet c ts R S' b' \<and> length (live S') = 1 + n \<and> prev' = fst (who S' (hd (live S'))) \<and>
      first = fst (who S' (last (live S')))) (ring_spawns s c n first b1)"
      using ring_spawns_quiet [OF os c x(2), of first n first] n by (simp add: arrived_def empty_scene_def)
    then have "ends ?P (rbind (ring_spawns s c n first b1) (\<lambda>(prev, b).
        rbind (msock_base_send s first USR_START (long_bytes prev) 8 b) (\<lambda>b. msock_base_send s first USR_PING (long_bytes msg) 8 b)))"
      by (rule ends_rbind) (use sends in auto)
    then show "ends ?P (case x of (first, b) \<Rightarrow> rbind (ring_spawns s c n first b) (\<lambda>(prev, b).
        rbind (msock_base_send s first USR_START (long_bytes prev) 8 b) (\<lambda>b. msock_base_send s first USR_PING (long_bytes msg) 8 b)))"
      using x(1) by simp
  qed (use n l in simp_all)
  then show ?thesis unfolding ring_setup_def ring_calloc_Some [of c, OF ud] prod.case .
qed

text \<open>
  C10: The ring benchmark makes all its turns and comes to its end, with at least two processes in the
  ring and any number of turns. Its \<open>main\<close> returns 0 with enough fuel, one for each turn and each process,
  unless \<open>posix_memalign\<close> fails. The turns are \<open>msg_total + 1\<close> pings, in which the counter goes from
  \<open>msg_total\<close> to 0 and which go round the ring: first the process that was spawned first, then the newest,
  and then each time the one that was spawned before. In the end every \<open>struct ud\<close> was freed, and no process,
  no message and no page was left over, as \<open>msock_base_free\<close> would have ended the program otherwise. It
  is assumed that \<open>calloc\<close> does not fail and gives different addresses (\<open>calloc_ok\<close>). With
  \<open>pid_total = 0\<close> the only process would send to itself, which the library gets wrong
  (\<open>Running.self_sends_break_busy_queue\<close>).
\<close>

theorem ring_ends:
  assumes os: "os_ok os" and c: "calloc_ok (Suc pid_total) c"
    and n: "1 \<le> pid_total" "2 * pid_total < 2 ^ 31" and u: "uds u = Map.empty" "callocs u = 0"
    and fuel: "unat msg_total + pid_total + 11 \<le> n"
  shows "ends (\<lambda>(r, w). r = 0 \<and> uds w = Map.empty \<and>
      turns w = turns u @ map (\<lambda>k. (c ((Suc pid_total - k mod Suc pid_total) mod Suc pid_total), msg_total - of_nat k))
        [0 ..< Suc (unat msg_total)])
    (ring_main (user_surroundings os) max_open_files c pid_total msg_total n ram ms ps h u)"
proof -
  obtain k where k: "n = Suc (Suc k)" using fuel by (intro that [of "n - 2"]) auto
  let ?s = "user_surroundings os :: (nat, ring_world) surroundings"
  let ?m = "of_nat (pid_total * 2) :: ulong" and ?R = "pid_total * 2"
  let ?ts = "turns u @ map (\<lambda>k. (c ((Suc pid_total - k mod Suc pid_total) mod Suc pid_total), msg_total - of_nat k)) [0 ..< Suc (unat msg_total)]"
  have os': "os_ok (s_os ?s)" using os by simp
  have m: "unat ?m = ?R" by (rule of_nat_inverse [OF refl]) (use n in simp_all)
  obtain b where b: "msock_base_new (user_engine max_open_files ?m) 0 ram ms ps h u = Inr b" "solo {#} (empty_scene ?R) b"
    "queue_of_domains b = ms_put 1 ms_new" "current_process b = None" "world b = u"
    using msock_base_new_solo [of ?m max_open_files ram ms ps h u] n unfolding m by auto
  have q: "quiet c (turns u) ?R (empty_scene ?R) b"
    using b u by (auto simp: quiet_def empty_scene_def chain_def crew_def in_order_def)
  let ?W = "\<lambda>w. dom (uds w) = {} \<and> turns w = ?ts"
  have loop: "ends (\<lambda>b'. \<exists>S'. solo {#} S' b' \<and> live S' = [] \<and> ?W (world b')) (msock_base_loop ?s ring_program n b1)"
    if b1: "\<exists>S b0. quiet c (turns u) ?R S b0 \<and> length (live S) = Suc pid_total \<and> solo {#} (mailed msg_total S) b1 \<and> rest b1 = rest b0" for b1
  proof -
    from b1 obtain S b0 where S: "quiet c (turns u) ?R S b0" "length (live S) = Suc pid_total" "solo {#} (mailed msg_total S) b1" "rest b1 = rest b0"
      by blast
    have "in_order c (who S) (live S)" using S(1) by (simp add: quiet_def)
    moreover have "live S \<noteq> []" using S(2) by auto
    ultimately have "lap (live S) (who S) (Suc pid_total - 1) msg_total =
        map (\<lambda>k. (c ((Suc pid_total - k mod Suc pid_total) mod Suc pid_total), msg_total - of_nat k)) [0 ..< Suc (unat msg_total)]"
      by (rule lap_order [OF _ S(2) [symmetric]])
    then have ts: "turns u @ lap (live S) (who S) (length (live S) - 1) msg_total = ?ts" unfolding S(2) by (rule arg_cong)
    show ?thesis unfolding k
    proof (rule msock_base_loop_solo [OF S(3)])
      show "queue_of_domains b1 = ms_put 1 ms_new" using S(1,4) by (simp add: quiet_def rest_def)
      fix b2 :: "(ring_name, nat, ring_world) base"
      assume 2: "solo {#} (mailed msg_total S) b2" "world b2 = world b1"
      have "ends (all_over (turns u @ lap (live S) (who S) (length (live S) - 1) msg_total) b2) (process_queue_run ?s ring_program k (Suc 0) b2)"
        by (rule ring_started [OF os' S(1) _ 2(1)]) (use 2(2) S n fuel k in \<open>simp_all add: rest_def\<close>)
      then show "ends (\<lambda>b'. (?W (world b') \<and> queue_of_domains b' = queue_of_domains b2) \<and> (\<exists>S'. solo {#} S' b' \<and> live S' = []))
        (process_queue_run ?s ring_program k (Suc 0) b2)"
        unfolding ts by (simp add: all_over_def [abs_def] conj_assoc)
    qed
  qed
  have "ends (\<lambda>(r, w). r = 0 \<and> uds w = Map.empty \<and> turns w = ?ts) (rbind (msock_base_loop ?s ring_program n b1) (\<lambda>b.
      rbind (msock_base_free ?s b) (\<lambda>u. Inr (0, u\<lparr>printed := printed u @ [line ''done!'']\<rparr>))))"
    if "\<exists>S b0. quiet c (turns u) ?R S b0 \<and> length (live S) = Suc pid_total \<and> solo {#} (mailed msg_total S) b1 \<and> rest b1 = rest b0" for b1
    by (rule ends_rbind [OF loop [OF that]]) (auto simp: msock_base_free_solo)
  then show ?thesis
    unfolding ring_main_def b(1) rbind_simps
    by (intro ends_rbind [OF ring_setup_ready [OF os' c q]]) (use n in simp_all)
qed

theorem ring_ends_witness:
  "ends (\<lambda>(r, w). r = 0 \<and> uds w = Map.empty \<and>
       turns w = map (\<lambda>k. (Some (64 * Suc ((1001 - k mod 1001) mod 1001)), 10000000 - of_nat k)) [0 ..< 10000001])
     (ring_main (user_surroundings bump_os) 1024 (\<lambda>i. Some (64 * Suc i)) 1000 10000000 10001011 empty_ram
       (\<lambda>_. blank_message)
       (\<lambda>_. \<lparr>inbox = vq_empty, badmatch = vq_empty, receive_callback = None, receive_data = None, p_domain = None, p_pid = 0\<rparr>)
       (\<lambda>_. Poison) \<lparr>uds = Map.empty, callocs = 0, printed = [], turns = []\<rparr>)"
proof -
  let ?c = "\<lambda>i. Some (64 * Suc i) :: nat option"
  have "calloc_ok (Suc 1000) ?c" by (simp add: calloc_ok_def inj_on_def)
  from ring_ends [OF bump_os_ok this, of "\<lparr>uds = Map.empty, callocs = 0, printed = [], turns = []\<rparr>" 10000000 10001011]
  show ?thesis by (simp del: upt_Suc map_eq_conv)
qed

end
