(* ===== verification/Startup.thy ===== *)
theory Startup
  imports Runtime
begin

unbundle bit_operations_syntax

text \<open>
  What happens before and around the loop: the engines that are linked into the program register
  themselves before \<open>main\<close> (\<open>msock_register_engine\<close>, \<open>src/msock_engine.c\<close>, through the macro
  \<open>REGISTER_ENGINE\<close>), and \<open>msock_base_loop\<close> starts and joins the threads of the workers
  (\<open>src/msock_worker.c\<close>). What the threads do meanwhile is not modelled: a run has one worker.
\<close>

section \<open>Registering engines\<close>

text \<open>\<open>'e\<close> stands for \<open>struct engine_proto *\<close>; the table is \<open>engine_prototypes\<close>.\<close>

fun register_types :: "nat list \<Rightarrow> 32 word \<Rightarrow> 'e \<Rightarrow> 'e option list \<Rightarrow> error + 'e option list" where
  "register_types [] mk ep protos = Inr protos"
| "register_types (et # ets) mk ep protos =
     (if push_bit et 1 AND mk \<noteq> 0
      then if length protos \<le> et \<or> protos ! et \<noteq> None then Inl (Fatal ''Engine %i already registered.'')
           else register_types ets mk ep (protos[et := Some ep])
      else register_types ets mk ep protos)"

definition msock_register_engine :: "32 word \<Rightarrow> 'e \<Rightarrow> 'e option list \<Rightarrow> error + 'e option list" where
  "msock_register_engine mk ep protos = register_types [0 ..< length protos] mk ep protos"

text \<open>The constructors of a program, in the order in which its start-up code calls them.\<close>

fun register_all :: "(32 word \<times> 'e) list \<Rightarrow> 'e option list \<Rightarrow> error + 'e option list" where
  "register_all [] protos = Inr protos"
| "register_all ((mk, ep) # rs) protos = rbind (msock_register_engine mk ep protos) (register_all rs)"

definition engine_bit :: "nat \<Rightarrow> 32 word" where
  "engine_bit et = 2 ^ et"

lemma engine_bit_and: "et < 32 \<Longrightarrow> 2 ^ e AND engine_bit et \<noteq> 0 \<longleftrightarrow> e = et"
proof -
  assume l: "et < 32"
  have b: "bit ((2 ^ e :: 32 word) AND engine_bit et) i \<longleftrightarrow> i = e \<and> i = et \<and> i < 32" for i
    by (auto simp: engine_bit_def bit_and_iff bit_exp_iff possible_bit_def not_le)
  have "(2 ^ e :: 32 word) AND engine_bit et = 0" if "e \<noteq> et"
  proof (rule bit_eqI)
    fix i
    have "\<not> bit ((2 ^ e :: 32 word) AND engine_bit et) i" unfolding b using that by blast
    then show "bit ((2 ^ e :: 32 word) AND engine_bit et) i \<longleftrightarrow> bit (0 :: 32 word) i" by (simp only: bit_0_eq bot_apply bot_bool_def)
  qed
  moreover have "(2 ^ e :: 32 word) AND engine_bit et \<noteq> 0" if "e = et"
  proof
    assume "(2 ^ e :: 32 word) AND engine_bit et = 0"
    moreover have "bit ((2 ^ e :: 32 word) AND engine_bit et) et" unfolding b using that l by blast
    ultimately show False by (simp only: bit_0_eq bot_apply bot_bool_def)
  qed
  ultimately show "(2 ^ e :: 32 word) AND engine_bit et \<noteq> 0 \<longleftrightarrow> e = et" by blast
qed

lemma register_types_bit:
  assumes "et < 32" and "distinct ets" and "\<forall>e \<in> set ets. e < length protos"
  shows "register_types ets (engine_bit et) ep protos =
    (if et \<in> set ets then if protos ! et = None then Inr (protos[et := Some ep]) else Inl (Fatal ''Engine %i already registered.'')
     else Inr protos)"
  using assms(2,3)
proof (induction ets arbitrary: protos)
  case (Cons e ets)
  show ?case
  proof (cases "e = et")
    case True
    then show ?thesis using Cons by (simp add: engine_bit_and [OF assms(1)])
  next
    case False
    then show ?thesis using Cons by (simp add: engine_bit_and [OF assms(1)])
  qed
qed simp

theorem msock_register_engine_once:
  assumes "et < 32"
  shows "msock_register_engine (engine_bit et) ep protos =
    (if length protos \<le> et then Inr protos
     else if protos ! et = None then Inr (protos[et := Some ep])
     else Inl (Fatal ''Engine %i already registered.''))"
  using register_types_bit [OF assms, of "[0 ..< length protos]" protos ep]
  by (auto simp: msock_register_engine_def)

text \<open>Engines of different types can be linked in any combination; two of the same type end the program.\<close>

theorem register_all_distinct:
  assumes "distinct (map fst rs)" and "\<forall>(et, ep) \<in> set rs. et < length protos \<and> et < 32 \<and> protos ! et = None"
  shows "\<exists>protos'. register_all (map (\<lambda>(et, ep). (engine_bit et, ep)) rs) protos = Inr protos' \<and>
    length protos' = length protos \<and> (\<forall>(et, ep) \<in> set rs. protos' ! et = Some ep) \<and>
    (\<forall>e. e \<notin> fst ` set rs \<longrightarrow> protos' ! e = protos ! e)"
  using assms
proof (induction rs arbitrary: protos)
  case (Cons r rs)
  obtain et ep where r: "r = (et, ep)" by fastforce
  have e: "et < length protos" "et < 32" "protos ! et = None" using Cons.prems(2) by (auto simp: r)
  have new: "et \<notin> fst ` set rs" using Cons.prems(1) by (simp add: r)
  let ?p = "protos[et := Some ep]"
  have "\<forall>(e', ep') \<in> set rs. e' < length ?p \<and> e' < 32 \<and> ?p ! e' = None"
  proof (intro ballI, clarify)
    fix e' ep' assume m: "(e', ep') \<in> set rs"
    then have "e' \<noteq> et" using new by force
    then show "e' < length ?p \<and> e' < 32 \<and> ?p ! e' = None" using Cons.prems(2) m by auto
  qed
  with Cons.IH [of ?p] Cons.prems(1) obtain p' where
    p: "register_all (map (\<lambda>(et, ep). (engine_bit et, ep)) rs) ?p = Inr p'" "length p' = length ?p"
      "\<forall>(et, ep) \<in> set rs. p' ! et = Some ep" "\<forall>e. e \<notin> fst ` set rs \<longrightarrow> p' ! e = ?p ! e"
    by auto
  have "register_all (map (\<lambda>(et, ep). (engine_bit et, ep)) (r # rs)) protos = Inr p'"
    using e p(1) by (simp add: r rbind_def msock_register_engine_once)
  moreover have "p' ! et = Some ep" using p(4) new e(1) by simp
  ultimately show ?case using p by (auto simp: r)
qed simp

section \<open>The threads of the workers\<close>

text \<open>
  \<open>create i\<close> is the \<open>i\<close>th call of \<open>pthread_create\<close>: the thread, or a failure, which is reported and
  skipped. The list is \<open>list_of_workers\<close>; a new worker goes to its front. \<open>workers_join\<close> returns the
  threads in the order in which it joins them, and the list it leaves.
\<close>

definition workers_create :: "(nat \<Rightarrow> 't option) \<Rightarrow> nat \<Rightarrow> 't list \<Rightarrow> 't list" where
  "workers_create create n workers =
     fold (\<lambda>i ws. case create i of None \<Rightarrow> ws | Some thread \<Rightarrow> thread # ws) [0 ..< n] workers"

fun workers_join :: "'t list \<Rightarrow> 't list \<times> 't list" where
  "workers_join [] = ([], [])"
| "workers_join (w # ws) = (let (joined, left) = workers_join ws in (w # joined, left))"

lemma workers_create_eq: "workers_create create n ws = rev (List.map_filter create [0 ..< n]) @ ws"
  by (induction n arbitrary: ws) (simp_all add: workers_create_def List.map_filter_def split: option.split)

lemma workers_join_all: "workers_join ws = (ws, [])"
  by (induction ws) simp_all

theorem workers_joined_once:
  "workers_join (workers_create create n []) = (rev (List.map_filter create [0 ..< n]), [])"
  by (simp add: workers_create_eq workers_join_all)

end
