(* ===== verification/Network.thy ===== *)
theory Network
  imports Msock_Prelude
begin

unbundle bit_operations_syntax

text \<open>
  The helpers for TCP sockets of \<open>src/network.c\<close>, which the program \<open>src/echosrv.c\<close> uses with the
  engines. The calls of the system are a parameter, as in the engines. A descriptor is an \<open>int\<close>; a
  negative one is an error. What is shown is how the helpers keep track of descriptors, and in which
  byte order ports are given.
\<close>

section \<open>The system\<close>

datatype sockopt = SO_SNDBUF | SO_RCVBUF | SO_REUSEADDR | SO_REUSEPORT

record sockaddr_in =
  sin_family :: nat
  sin_addr :: "32 word"
  sin_port :: "16 word"

definition AF_INET :: nat where "AF_INET = 2"
definition INADDR_ANY :: "32 word" where "INADDR_ANY = 0"
definition NET_O_NONBLOCK :: "32 word" where "NET_O_NONBLOCK = 0x800"
definition EINPROGRESS :: int where "EINPROGRESS = 115"

text \<open>
  \<open>'k\<close> is the state of the system. \<open>n_getsockopt\<close> answers with the value of the option, \<open>n_accept\<close> with
  the address of the peer, or, when it fails, with what was on the stack; \<open>n_aton\<close> is \<open>inet_aton\<close>,
  \<open>n_getaddrinfo\<close> gives families and addresses. \<open>n_reuseport\<close>: the system defines \<open>SO_REUSEPORT\<close>.
\<close>

record 'k net_calls =
  n_socket :: "'k \<Rightarrow> int \<times> 'k"
  n_setsockopt :: "int \<Rightarrow> sockopt \<Rightarrow> 32 word \<Rightarrow> 'k \<Rightarrow> int \<times> 'k"
  n_getsockopt :: "int \<Rightarrow> sockopt \<Rightarrow> 'k \<Rightarrow> (int \<times> 32 word) \<times> 'k"
  n_getfl :: "int \<Rightarrow> 'k \<Rightarrow> 32 word \<times> 'k"
  n_setfl :: "int \<Rightarrow> 32 word \<Rightarrow> 'k \<Rightarrow> int \<times> 'k"
  n_bind :: "int \<Rightarrow> sockaddr_in \<Rightarrow> 'k \<Rightarrow> int \<times> 'k"
  n_listen :: "int \<Rightarrow> nat \<Rightarrow> 'k \<Rightarrow> int \<times> 'k"
  n_accept :: "int \<Rightarrow> 'k \<Rightarrow> (int \<times> sockaddr_in) \<times> 'k"
  n_connect :: "int \<Rightarrow> sockaddr_in \<Rightarrow> 'k \<Rightarrow> int \<times> 'k"
  n_errno :: "'k \<Rightarrow> int"
  n_close :: "int \<Rightarrow> 'k \<Rightarrow> 'k"
  n_aton :: "string \<Rightarrow> 32 word option"
  n_ntoa :: "32 word \<Rightarrow> string"
  n_getaddrinfo :: "string \<Rightarrow> 'k \<Rightarrow> (nat \<times> 32 word) list option \<times> 'k"
  n_log :: "string \<Rightarrow> 'k \<Rightarrow> 'k"
  n_reuseport :: bool

text \<open>\<open>htons\<close> on the machines the library is built for.\<close>

definition htons :: "32 word \<Rightarrow> 16 word" where
  "htons port = (let p = ucast port :: 16 word in push_bit 8 p OR drop_bit 8 p)"

section \<open>The helpers\<close>

text \<open>One pass of the inner loop of \<open>net_set_ridiculously_high_buffers\<close>; the flag tells whether it goes on.\<close>

definition buffer_step :: "('k, 'z) net_calls_scheme \<Rightarrow> int \<Rightarrow> sockopt \<Rightarrow> 'k \<Rightarrow> bool \<times> 'k" where
  "buffer_step K cd flag k =
     (let ((r, bef), k) = n_getsockopt K cd flag k
      in if r < 0 then (False, n_log K ''getsockopt()'' k)
         else let (r, k) = n_setsockopt K cd flag (bef * 2) k
           in if r < 0 then (False, k)
              else let ((r, aft), k) = n_getsockopt K cd flag k
                in if r < 0 then (False, k)
                   else (\<not> (aft \<le>s bef \<or> 16777216 \<le>s aft), k))"

fun buffer_loop :: "('k, 'z) net_calls_scheme \<Rightarrow> int \<Rightarrow> sockopt \<Rightarrow> nat \<Rightarrow> 'k \<Rightarrow> 'k" where
  "buffer_loop K cd flag 0 k = k"
| "buffer_loop K cd flag (Suc n) k =
     (let (go, k) = buffer_step K cd flag k in if go then buffer_loop K cd flag n k else k)"

definition net_set_ridiculously_high_buffers :: "('k, 'z) net_calls_scheme \<Rightarrow> int \<Rightarrow> 'k \<Rightarrow> 'k" where
  "net_set_ridiculously_high_buffers K cd k = fold (\<lambda>flag. buffer_loop K cd flag 10) [SO_SNDBUF, SO_RCVBUF] k"

definition net_set_nonblocking :: "('k, 'z) net_calls_scheme \<Rightarrow> int \<Rightarrow> 'k \<Rightarrow> 'k" where
  "net_set_nonblocking K fd k =
     (let (flags, k) = n_getfl K fd k;
          flags = (if - 1 = flags then 0 else flags);
          (ret, k) = n_setfl K fd (flags OR NET_O_NONBLOCK) k
      in if - 1 = ret then n_log K ''fcntl()'' k else k)"

fun first_inet :: "(nat \<times> 32 word) list \<Rightarrow> 32 word option" where
  "first_inet [] = None"
| "first_inet ((family, a) # res) = (if family = AF_INET then Some a else first_inet res)"

text \<open>The host is a string or NULL; \<open>None\<close> is the result -1.\<close>

definition net_gethostbyname :: "('k, 'z) net_calls_scheme \<Rightarrow> string option \<Rightarrow> 'k \<Rightarrow> 32 word option \<times> 'k" where
  "net_gethostbyname K host k =
     (case host of
        None \<Rightarrow> (None, k)
      | Some h \<Rightarrow>
          if h = '''' \<or> h = ''*'' \<or> h = ''0.0.0.0'' then (Some INADDR_ANY, k)
          else case n_aton K h of
            Some a \<Rightarrow> (Some a, k)
          | None \<Rightarrow>
              (case n_getaddrinfo K h k of
                 (None, k) \<Rightarrow> (None, n_log K ''getaddrinfo(): host not found'' k)
               | (Some result, k) \<Rightarrow>
                   (case first_inet result of
                      Some a \<Rightarrow> (Some a, k)
                    | None \<Rightarrow> (None, n_log K ''getaddrinfo(): host not found'' k))))"

definition net_sockaddr :: "32 word \<Rightarrow> 32 word \<Rightarrow> sockaddr_in" where
  "net_sockaddr a port = \<lparr>sin_family = AF_INET, sin_addr = a, sin_port = htons port\<rparr>"

text \<open>A failure of an option is reported and otherwise ignored.\<close>

definition try_option :: "('k, 'z) net_calls_scheme \<Rightarrow> int \<Rightarrow> sockopt \<Rightarrow> string \<Rightarrow> 'k \<Rightarrow> 'k" where
  "try_option K sd opt what k =
     (let (r, k) = n_setsockopt K sd opt 1 k in if r < 0 then n_log K what k else k)"

definition net_bind :: "('k, 'z) net_calls_scheme \<Rightarrow> string option \<Rightarrow> 32 word \<Rightarrow> 'k \<Rightarrow> int \<times> 'k" where
  "net_bind K host port k =
     (let (sd, k) = n_socket K k
      in if sd < 0 then (-1, n_log K ''socket()'' k)
         else let k = try_option K sd SO_REUSEADDR ''setsockopt(SO_REUSEADDR)'' k
           in case net_gethostbyname K host k of
                (None, k) \<Rightarrow> (-1, n_close K sd k)
              | (Some a, k) \<Rightarrow>
                  (let (r, k) = n_bind K sd (net_sockaddr a port) k
                   in if r < 0 then (-1, n_close K sd (n_log K ''bind()'' k))
                      else let (r, k) = n_listen K sd 32 k
                        in if r < 0 then (-1, n_close K sd (n_log K ''listen()'' k))
                           else (sd, net_set_nonblocking K sd k)))"

text \<open>The results are the descriptor and what is stored through \<open>host\<close> and \<open>port\<close>.\<close>

definition net_accept :: "('k, 'z) net_calls_scheme \<Rightarrow> int \<Rightarrow> 'k \<Rightarrow> error + ((int \<times> string \<times> 32 word) \<times> 'k)" where
  "net_accept K sd k =
     (let ((cd, sin), k) = n_accept K sd k
      in if sin_family sin \<noteq> AF_INET then Inl Abort
         else Inr ((cd, n_ntoa K (sin_addr sin), ucast (sin_port sin)), net_set_nonblocking K cd k))"

definition net_connect :: "('k, 'z) net_calls_scheme \<Rightarrow> string option \<Rightarrow> 32 word \<Rightarrow> 'k \<Rightarrow> int \<times> 'k" where
  "net_connect K host port k =
     (case net_gethostbyname K host k of
        (None, k) \<Rightarrow> (-1, k)
      | (Some a, k) \<Rightarrow>
          (let (sd, k) = n_socket K k
           in if sd = -1 then (-1, n_log K ''socket()'' k)
              else let k = net_set_nonblocking K sd k;
                       k = try_option K sd SO_REUSEADDR ''setsockopt(SO_REUSEADDR)'' k;
                       k = (if n_reuseport K then try_option K sd SO_REUSEPORT ''setsockopt(SO_REUSEPORT)'' k else k);
                       (r, k) = n_connect K sd (net_sockaddr a port) k
                in if r = -1 \<and> n_errno K k \<noteq> EINPROGRESS then (-1, n_log K ''connect()'' k)
                   else (sd, net_set_ridiculously_high_buffers K sd k)))"

section \<open>Descriptors\<close>

text \<open>
  What the system promises about open descriptors: \<open>socket\<close> opens a new one or fails, \<open>close\<close>
  closes, nothing else opens or closes any (\<open>accept\<close> does, but is not called by what follows).
\<close>

definition keeps_open :: "('k \<Rightarrow> int set) \<Rightarrow> ('k \<Rightarrow> 'a \<times> 'k) \<Rightarrow> bool" where
  "keeps_open opened f \<longleftrightarrow> (\<forall>k x k'. f k = (x, k') \<longrightarrow> opened k' = opened k)"

definition net_law :: "('k, 'z) net_calls_scheme \<Rightarrow> ('k \<Rightarrow> int set) \<Rightarrow> bool" where
  "net_law K opened \<longleftrightarrow>
     (\<forall>k sd k'. n_socket K k = (sd, k') \<longrightarrow>
        (if 0 \<le> sd then sd \<notin> opened k \<and> opened k' = insert sd (opened k) else sd = -1 \<and> opened k' = opened k)) \<and>
     (\<forall>fd k. opened (n_close K fd k) = opened k - {fd}) \<and>
     (\<forall>what k. opened (n_log K what k) = opened k) \<and>
     (\<forall>fd opt v. keeps_open opened (n_setsockopt K fd opt v)) \<and>
     (\<forall>fd opt. keeps_open opened (n_getsockopt K fd opt)) \<and>
     (\<forall>fd. keeps_open opened (n_getfl K fd)) \<and> (\<forall>fd v. keeps_open opened (n_setfl K fd v)) \<and>
     (\<forall>fd a. keeps_open opened (n_bind K fd a)) \<and> (\<forall>fd n. keeps_open opened (n_listen K fd n)) \<and>
     (\<forall>fd a. keeps_open opened (n_connect K fd a)) \<and> (\<forall>h. keeps_open opened (n_getaddrinfo K h))"

named_theorems keeps

lemma net_lawD:
  assumes "net_law K opened"
  shows "n_socket K k = (sd, k') \<Longrightarrow> 0 \<le> sd \<Longrightarrow> sd \<notin> opened k \<and> opened k' = insert sd (opened k)"
    and "n_socket K k = (sd, k') \<Longrightarrow> sd < 0 \<Longrightarrow> sd = -1 \<and> opened k' = opened k"
    and "opened (n_close K fd k) = opened k - {fd}" and "opened (n_log K what k) = opened k"
  using assms by (simp_all add: net_law_def split: if_splits)

lemma net_law_keeps:
  assumes "net_law K opened"
  shows "n_setsockopt K fd opt v k = (r, k1) \<Longrightarrow> opened k1 = opened k"
    and "n_getsockopt K fd opt k = (rv, k1) \<Longrightarrow> opened k1 = opened k"
    and "n_getfl K fd k = (v, k1) \<Longrightarrow> opened k1 = opened k"
    and "n_setfl K fd v k = (r, k1) \<Longrightarrow> opened k1 = opened k"
    and "n_bind K fd a k = (r, k1) \<Longrightarrow> opened k1 = opened k"
    and "n_listen K fd n k = (r, k1) \<Longrightarrow> opened k1 = opened k"
    and "n_connect K fd a k = (r, k1) \<Longrightarrow> opened k1 = opened k"
    and "n_getaddrinfo K h k = (res, k1) \<Longrightarrow> opened k1 = opened k"
  using assms by (simp_all add: net_law_def keeps_open_def) (metis prod.exhaust)+

text \<open>The helpers that leave the set of open descriptors alone.\<close>

lemma buffer_step_keeps: "net_law K opened \<Longrightarrow> opened (snd (buffer_step K cd flag k)) = opened k"
  unfolding buffer_step_def Let_def
  by (auto simp: net_lawD(4) dest: net_law_keeps split: prod.splits)

lemma buffer_loop_keeps: "net_law K opened \<Longrightarrow> opened (buffer_loop K cd flag n k) = opened k"
proof (induction n arbitrary: k)
  case (Suc n)
  then show ?case using buffer_step_keeps [OF Suc.prems, of cd flag k] by (auto split: prod.split)
qed simp

lemma high_buffers_keep [keeps]: "net_law K opened \<Longrightarrow> opened (net_set_ridiculously_high_buffers K cd k) = opened k"
  by (simp add: net_set_ridiculously_high_buffers_def buffer_loop_keeps)

lemma nonblocking_keeps [keeps]: "net_law K opened \<Longrightarrow> opened (net_set_nonblocking K fd k) = opened k"
  unfolding net_set_nonblocking_def Let_def
  by (auto simp: net_lawD(4) dest: net_law_keeps split: prod.split)

lemma option_keeps [keeps]: "net_law K opened \<Longrightarrow> opened (try_option K sd opt what k) = opened k"
  unfolding try_option_def by (auto simp: net_lawD(4) dest: net_law_keeps split: prod.split)

lemma gethostbyname_keeps [keeps]: "net_law K opened \<Longrightarrow> opened (snd (net_gethostbyname K host k)) = opened k"
  unfolding net_gethostbyname_def
  by (auto simp: net_lawD(4) dest: net_law_keeps split: option.split prod.split)

lemma gethostbyname_keeps' [keeps]: "net_law K opened \<Longrightarrow> net_gethostbyname K host k = (a, k1) \<Longrightarrow> opened k1 = opened k"
  using gethostbyname_keeps [of K opened host k] by simp

text \<open>
  C38: \<open>net_bind\<close> loses no descriptor: it either returns a new one, which is then the only one it has
  opened, or returns -1 and leaves open what was open before, whichever of its calls failed.
\<close>

theorem net_bind_or_close:
  assumes "net_law K opened" and "net_bind K host port k = (r, k')"
  shows "(0 \<le> r \<and> r \<notin> opened k \<and> opened k' = insert r (opened k)) \<or> (r = -1 \<and> opened k' = opened k)"
proof -
  note l = net_lawD [OF assms(1)] and kp = net_law_keeps [OF assms(1)]
  obtain sd k1 where s: "n_socket K k = (sd, k1)" by fastforce
  show ?thesis
  proof (cases "sd < 0")
    case True
    then have "r = -1" "k' = n_log K ''socket()'' k1" using assms(2) by (simp_all add: net_bind_def s)
    moreover have "opened k1 = opened k" using l(2) [OF s True] by blast
    ultimately show ?thesis by (simp only: l(4) simp_thms)
  next
    case False
    then have o1: "sd \<notin> opened k" "opened k1 = insert sd (opened k)" using l(1) [OF s] by simp_all
    let ?k2 = "try_option K sd SO_REUSEADDR ''setsockopt(SO_REUSEADDR)'' k1"
    obtain a k3 where g: "net_gethostbyname K host ?k2 = (a, k3)" by fastforce
    have o3: "opened k3 = insert sd (opened k)"
      using gethostbyname_keeps' [OF assms(1) g] option_keeps [OF assms(1)] o1(2) by simp
    have failed: "opened (n_close K sd k4) = opened k" if "opened k4 = insert sd (opened k)" for k4
      using that o1(1) by (simp add: l(3))
    show ?thesis
    proof (cases a)
      case None
      then show ?thesis using assms(2) s False g failed [OF o3] by (simp add: net_bind_def)
    next
      case (Some addr)
      obtain rb k4 where b: "n_bind K sd (net_sockaddr addr port) k3 = (rb, k4)" by fastforce
      obtain rl k5 where li: "n_listen K sd 32 k4 = (rl, k5)" by fastforce
      have o4: "opened k4 = insert sd (opened k)" using kp(5) [OF b] o3 by simp
      have o5: "opened k5 = insert sd (opened k)" using kp(6) [OF li] o4 by simp
      have o6: "opened (net_set_nonblocking K sd k5) = insert sd (opened k)"
        using nonblocking_keeps [OF assms(1)] o5 by simp
      have "(r, k') = (if rb < 0 then (-1, n_close K sd (n_log K ''bind()'' k4))
          else if rl < 0 then (-1, n_close K sd (n_log K ''listen()'' k5)) else (sd, net_set_nonblocking K sd k5))"
        using assms(2) False by (cases "rb < 0") (simp_all add: net_bind_def s g Some b li)
      then show ?thesis
        using False o1(1) o6 failed [of "n_log K ''bind()'' k4"] failed [of "n_log K ''listen()'' k5"] o4 o5
        by (simp add: l(4) split: if_splits)
    qed
  qed
qed

text \<open>A system that numbers its descriptors, for the examples.\<close>

definition example_net :: "bool \<Rightarrow> int set net_calls" where
  "example_net listens =
     \<lparr>n_socket = (\<lambda>k. if 3 \<in> k then (-1, k) else (3, insert 3 k)), n_setsockopt = (\<lambda>fd opt v k. (0, k)),
      n_getsockopt = (\<lambda>fd opt k. ((0, 4096), k)), n_getfl = (\<lambda>fd k. (0, k)), n_setfl = (\<lambda>fd v k. (0, k)),
      n_bind = (\<lambda>fd a k. (0, k)), n_listen = (\<lambda>fd n k. (if listens then 0 else -1, k)),
      n_accept = (\<lambda>fd k. ((4, net_sockaddr 1 80), k)), n_connect = (\<lambda>fd a k. (-1, k)), n_errno = (\<lambda>k. 111),
      n_close = (\<lambda>fd k. k - {fd}), n_aton = (\<lambda>h. Some 1), n_ntoa = (\<lambda>a. ''0.0.0.1''),
      n_getaddrinfo = (\<lambda>h k. (None, k)), n_log = (\<lambda>what k. k), n_reuseport = True\<rparr>"

lemma example_net_law: "net_law (example_net listens) (\<lambda>k. k)"
  by (auto simp: net_law_def keeps_open_def example_net_def)

theorem net_bind_or_close_witness:
  "net_bind (example_net False) None 80 {1} = (-1, {1}) \<and>
   (\<exists>k'. net_bind (example_net True) (Some ''*'') 80 {1} = (3, k') \<and> k' = {1, 3}) \<and>
   (\<exists>k'. net_bind (example_net False) (Some ''*'') 80 {1} = (-1, k') \<and> k' = {1})"
proof -
  have "fst (net_bind (example_net False) None 80 {1}) = -1" "fst (net_bind (example_net True) (Some ''*'') 80 {1}) = 3"
    "fst (net_bind (example_net False) (Some ''*'') 80 {1}) = -1"
    by (simp_all add: net_bind_def example_net_def try_option_def net_gethostbyname_def net_sockaddr_def)
  then obtain k1 k2 k3 where e: "net_bind (example_net False) None 80 {1} = (-1, k1)"
    "net_bind (example_net True) (Some ''*'') 80 {1} = (3, k2)" "net_bind (example_net False) (Some ''*'') 80 {1} = (-1, k3)"
    by (metis prod.collapse)
  from net_bind_or_close [OF example_net_law e(1)] net_bind_or_close [OF example_net_law e(2)]
    net_bind_or_close [OF example_net_law e(3)]
  show ?thesis by (simp add: e insert_commute)
qed

text \<open>
  \<open>net_connect\<close> does lose one: when the connection is refused at once, it returns -1 and the socket
  stays open, with no way for the caller to close it.
\<close>


text \<open>
  \<open>net_connect\<close> does lose one: when the connection is refused at once, it returns -1 and the socket
  stays open, with no way for the caller to close it.
\<close>

theorem net_connect_leaks:
  assumes law: "net_law K opened" and g: "net_gethostbyname K host k = (Some a, k1)"
    and s: "n_socket K k1 = (sd, k2)" and sd: "0 \<le> sd"
    and r: "\<And>k. \<exists>k'. n_connect K sd (net_sockaddr a port) k = (-1, k') \<and> n_errno K k' \<noteq> EINPROGRESS"
  shows "\<exists>k'. net_connect K host port k = (-1, k') \<and> sd \<notin> opened k \<and> opened k' = insert sd (opened k)"
proof -
  define k3 where "k3 = try_option K sd SO_REUSEADDR ''setsockopt(SO_REUSEADDR)'' (net_set_nonblocking K sd k2)"
  define k4 where "k4 = (if n_reuseport K then try_option K sd SO_REUSEPORT ''setsockopt(SO_REUSEPORT)'' k3 else k3)"
  obtain k5 where c: "n_connect K sd (net_sockaddr a port) k4 = (-1, k5)" "n_errno K k5 \<noteq> EINPROGRESS" using r by blast
  have o1: "opened k1 = opened k" using gethostbyname_keeps' [OF law g] .
  have o2: "sd \<notin> opened k" "opened k2 = insert sd (opened k)" using net_lawD(1) [OF law s sd] o1 by simp_all
  have "opened k4 = opened k2" by (simp add: k4_def k3_def option_keeps [OF law] nonblocking_keeps [OF law])
  then have "opened k5 = insert sd (opened k)" using net_law_keeps(7) [OF law c(1)] o2(2) by simp
  then have "opened (n_log K ''connect()'' k5) = insert sd (opened k)" by (simp add: net_lawD(4) [OF law])
  moreover have "net_connect K host port k = (-1, n_log K ''connect()'' k5)"
    using sd c by (simp add: net_connect_def g s flip: k3_def k4_def)
  ultimately show ?thesis using o2(1) by blast
qed

text \<open>\<open>net_accept\<close> gives the port of the peer as it came from the network, with its bytes swapped: 80 becomes 20480.\<close>

lemma net_accept_swaps_port:
  assumes "n_accept K sd k = ((cd, net_sockaddr a port), k1)"
  shows "\<exists>k'. net_accept K sd k = Inr ((cd, n_ntoa K a, ucast (htons port)), k')"
  using assms by (simp add: net_accept_def net_sockaddr_def)

lemma htons_example: "ucast (htons 80) = (20480 :: 32 word)"
  by code_simp

end
