(* ===== verification/Spinlock.thy ===== *)
theory Spinlock
  imports Msock_Prelude
begin

text \<open>
  The spin locks of \<open>src/spinlock.h\<close>. The library takes one around every access to what several
  threads share: the remote inbox of a domain and the zones of the allocator. What is shown is why
  the other theories can leave them out: sections that run under one lock have the effect of whole
  sections run one after the other, whatever the threads do in between.
\<close>

section \<open>The lock\<close>

definition SPINLOCK_ACQUIRE_TRIES :: nat where "SPINLOCK_ACQUIRE_TRIES = 100"

text \<open>\<open>l\<close> tells whether the lock is taken; \<open>pthread_spin_trylock\<close> takes it at once or answers \<open>EBUSY\<close>.\<close>

record spinlock =
  l :: bool

definition spin_lock_init :: spinlock where
  "spin_lock_init = \<lparr>l = False\<rparr>"

datatype trylock = Taken | Busy

definition pthread_spin_trylock :: "spinlock \<Rightarrow> trylock \<times> spinlock" where
  "pthread_spin_trylock lock = (if l lock then (Busy, lock) else (Taken, lock\<lparr>l := True\<rparr>))"

definition spin_unlock :: "spinlock \<Rightarrow> spinlock" where
  "spin_unlock lock = lock\<lparr>l := False\<rparr>"

section \<open>Threads\<close>

text \<open>
  A section is the list of accesses that a thread makes to what the lock protects, between
  \<open>spin_lock\<close> and \<open>spin_unlock\<close>. A thread is before its next section, in the first loop of \<open>spin_lock\<close>
  with its counter, in the second loop before \<open>sched_yield\<close> or before the next try, or in a section with
  the accesses that are left; with it are the sections to come.
\<close>

type_synonym 's critical = "('s \<Rightarrow> 's) list"

datatype 's locker =
    Before "'s critical list"
  | Spinning nat "'s critical" "'s critical list"
  | Yielding "'s critical" "'s critical list"
  | Trying "'s critical" "'s critical list"
  | Inside "'s critical" "'s critical list"

definition try_lock :: "('s locker) \<Rightarrow> 's critical \<Rightarrow> 's critical list \<Rightarrow> spinlock \<Rightarrow> 's locker \<times> spinlock" where
  "try_lock again sec secs lock =
     (case pthread_spin_trylock lock of
        (Taken, lock) \<Rightarrow> (Inside sec secs, lock)
      | (Busy, lock) \<Rightarrow> (again, lock))"

text \<open>One step of a thread: a try to take the lock, an access, or the release.\<close>

fun lock_step :: "'s locker \<Rightarrow> spinlock \<Rightarrow> 's \<Rightarrow> 's locker \<times> spinlock \<times> 's" where
  "lock_step (Before []) lock s = (Before [], lock, s)"
| "lock_step (Before (sec # secs)) lock s = (Spinning 0 sec secs, lock, s)"
| "lock_step (Spinning i sec secs) lock s =
     (if i < SPINLOCK_ACQUIRE_TRIES
      then case try_lock (Spinning (Suc i) sec secs) sec secs lock of (t, lock) \<Rightarrow> (t, lock, s)
      else (Yielding sec secs, lock, s))"
| "lock_step (Yielding sec secs) lock s = (Trying sec secs, lock, s)"
| "lock_step (Trying sec secs) lock s =
     (case try_lock (Yielding sec secs) sec secs lock of (t, lock) \<Rightarrow> (t, lock, s))"
| "lock_step (Inside [] secs) lock s = (Before secs, spin_unlock lock, s)"
| "lock_step (Inside (f # fs) secs) lock s = (Inside fs secs, lock, f s)"

text \<open>The threads under a schedule, which says whose step is next.\<close>

type_synonym 's lockers = "'s locker list \<times> spinlock \<times> 's"

definition sched_step :: "nat \<Rightarrow> 's lockers \<Rightarrow> 's lockers" where
  "sched_step i = (\<lambda>(ts, lock, s). if i < length ts then (case lock_step (ts ! i) lock s of (t, lock, s) \<Rightarrow> (ts[i := t], lock, s)) else (ts, lock, s))"

fun lock_run :: "nat list \<Rightarrow> 's lockers \<Rightarrow> 's lockers" where
  "lock_run [] c = c"
| "lock_run (i # sched) c = lock_run sched (sched_step i c)"

section \<open>Sections one after the other\<close>

definition run_section :: "'s critical \<Rightarrow> 's \<Rightarrow> 's" where
  "run_section sec s = fold (\<lambda>f. f) sec s"

text \<open>The sections in the order in which they took the lock, each with its thread.\<close>

definition replay :: "(nat \<times> 's critical) list \<Rightarrow> 's \<Rightarrow> 's" where
  "replay order s = fold (\<lambda>(i, sec). run_section sec) order s"

lemma replay_snoc: "replay (order @ [(i, sec)]) s = run_section sec (replay order s)"
  by (simp add: replay_def)

fun waiting :: "'s locker \<Rightarrow> 's critical list" where
  "waiting (Before secs) = secs"
| "waiting (Spinning i sec secs) = sec # secs"
| "waiting (Yielding sec secs) = sec # secs"
| "waiting (Trying sec secs) = sec # secs"
| "waiting (Inside fs secs) = secs"

fun rest :: "'s locker \<Rightarrow> 's critical option" where
  "rest (Inside fs secs) = Some fs"
| "rest _ = None"

definition sections_of :: "nat \<Rightarrow> (nat \<times> 's critical) list \<Rightarrow> 's critical list" where
  "sections_of i order = map snd (filter (\<lambda>x. fst x = i) order)"

lemma sections_of_snoc: "sections_of i (order @ [(j, sec)]) = sections_of i order @ (if j = i then [sec] else [])"
  by (simp add: sections_of_def)

text \<open>
  Either the lock is free, no thread is inside and the state is what the sections so far make of the
  first one; or the lock is taken, one thread is inside and the rest of its section leads there.
\<close>

definition order_ok :: "'s critical list list \<Rightarrow> (nat \<times> 's critical) list \<Rightarrow> 's locker list \<Rightarrow> bool" where
  "order_ok progs order ts \<longleftrightarrow> length ts = length progs \<and>
     (\<forall>i < length progs. sections_of i order @ waiting (ts ! i) = progs ! i)"

definition outside_but :: "nat set \<Rightarrow> 's locker list \<Rightarrow> bool" where
  "outside_but A ts \<longleftrightarrow> (\<forall>i < length ts. i \<notin> A \<longrightarrow> rest (ts ! i) = None)"

definition lock_inv :: "'s critical list list \<Rightarrow> 's \<Rightarrow> (nat \<times> 's critical) list \<Rightarrow> 's lockers \<Rightarrow> bool" where
  "lock_inv progs s0 order = (\<lambda>(ts, lock, s). order_ok progs order ts \<and>
     (if l lock
      then \<exists>i fs. i < length ts \<and> rest (ts ! i) = Some fs \<and> outside_but {i} ts \<and> run_section fs s = replay order s0
      else outside_but {} ts \<and> s = replay order s0))"

lemma order_ok_update:
  assumes "order_ok progs order ts" and "waiting t = waiting (ts ! i)"
  shows "order_ok progs order (ts[i := t])"
  using assms unfolding order_ok_def by (metis length_list_update nth_list_update_eq nth_list_update_neq)

lemma order_ok_acquire:
  assumes "order_ok progs order ts" and "i < length ts" and "waiting (ts ! i) = sec # secs"
  shows "order_ok progs (order @ [(i, sec)]) (ts[i := Inside sec secs])"
  unfolding order_ok_def
proof (intro conjI allI impI)
  show "length (ts[i := Inside sec secs]) = length progs" using assms(1) by (simp add: order_ok_def)
  fix j assume "j < length progs"
  then have "sections_of j order @ waiting (ts ! j) = progs ! j" using assms(1) by (simp add: order_ok_def)
  then show "sections_of j (order @ [(i, sec)]) @ waiting (ts[i := Inside sec secs] ! j) = progs ! j"
    using assms(2,3) by (cases "j = i") (simp_all add: sections_of_snoc)
qed

lemma outside_update: "outside_but A ts \<Longrightarrow> i \<in> A \<or> rest t = None \<Longrightarrow> outside_but A (ts[i := t])"
  unfolding outside_but_def by (metis length_list_update nth_list_update_eq nth_list_update_neq)

lemma lock_inv_wait:
  assumes inv: "lock_inv progs s0 order (ts, lock, s)" and w: "waiting t = waiting (ts ! i)" and r: "rest t = None" "rest (ts ! i) = None"
  shows "lock_inv progs s0 order (ts[i := t], lock, s)"
proof (cases "l lock")
  case True
  then obtain j fs where j: "j < length ts" "rest (ts ! j) = Some fs" "outside_but {j} ts" "run_section fs s = replay order s0"
    using inv by (auto simp: lock_inv_def)
  have "j \<noteq> i" using j(2) r(2) by auto
  then have "ts[i := t] ! j = ts ! j" by simp
  then show ?thesis
    using True inv j order_ok_update [OF _ w] outside_update [OF j(3), of i t] r(1)
    by (simp add: lock_inv_def) (metis j(2))
next
  case False
  then show ?thesis using inv order_ok_update [OF _ w] outside_update [of "{}" ts i t] r(1) by (simp add: lock_inv_def)
qed

lemma lock_inv_try:
  assumes inv: "lock_inv progs s0 order (ts, lock, s)" and i: "i < length ts"
    and w: "waiting (ts ! i) = sec # secs" "rest (ts ! i) = None" and again: "waiting again = sec # secs" "rest again = None"
    and t: "try_lock again sec secs lock = (t, lock')"
  shows "\<exists>order'. lock_inv progs s0 order' (ts[i := t], lock', s)"
proof (cases "l lock")
  case True
  then have "t = again" "lock' = lock" using t by (simp_all add: try_lock_def pthread_spin_trylock_def)
  then show ?thesis using lock_inv_wait [OF inv _ again(2) w(2)] w(1) again(1) by auto
next
  case False
  then have e: "t = Inside sec secs" "lock' = lock\<lparr>l := True\<rparr>" using t by (simp_all add: try_lock_def pthread_spin_trylock_def)
  have f: "outside_but {} ts" "s = replay order s0" "order_ok progs order ts" using inv False by (simp_all add: lock_inv_def)
  have "outside_but {i} (ts[i := t])" using f(1) by (intro outside_update) (auto simp: outside_but_def)
  then have "lock_inv progs s0 (order @ [(i, sec)]) (ts[i := t], lock', s)"
    using order_ok_acquire [OF f(3) i w(1)] i f(2) unfolding lock_inv_def e
    by (auto simp: replay_snoc intro!: exI [of _ i])
  then show ?thesis by blast
qed

lemma lock_inv_inside:
  assumes inv: "lock_inv progs s0 order (ts, lock, s)" and i: "i < length ts" and t: "ts ! i = Inside fs secs"
  shows "l lock" and "outside_but {i} ts" and "run_section fs s = replay order s0" and "order_ok progs order ts"
proof -
  show l: "l lock" using inv i t by (cases "l lock") (auto simp: lock_inv_def outside_but_def)
  then obtain j gs where j: "j < length ts" "rest (ts ! j) = Some gs" "outside_but {j} ts" "run_section gs s = replay order s0"
    using inv by (auto simp: lock_inv_def)
  have "j = i" using j(3) i t unfolding outside_but_def by (metis option.distinct(1) rest.simps(1) singletonD)
  then show "outside_but {i} ts" "run_section fs s = replay order s0" using j t by simp_all
  show "order_ok progs order ts" using inv by (simp add: lock_inv_def)
qed

lemma lock_inv_step:
  assumes inv: "lock_inv progs s0 order (ts, lock, s)" and i: "i < length ts"
    and step: "lock_step (ts ! i) lock s = (t, lock', s')"
  shows "\<exists>order'. lock_inv progs s0 order' (ts[i := t], lock', s')"
proof (cases "ts ! i")
  case (Before secs)
  have "waiting t = waiting (ts ! i) \<and> rest t = None \<and> lock' = lock \<and> s' = s" using step by (cases secs) (auto simp: Before)
  then show ?thesis using lock_inv_wait [OF inv, of t i] Before by auto
next
  case (Spinning n sec secs)
  then show ?thesis
    using lock_inv_wait [OF inv, of t i] lock_inv_try [OF inv i, of sec secs "Spinning (Suc n) sec secs" t lock'] step
    by (auto split: if_splits prod.splits)
next
  case (Yielding sec secs)
  then show ?thesis using lock_inv_wait [OF inv, of t i] step by auto
next
  case (Trying sec secs)
  then show ?thesis using lock_inv_try [OF inv i, of sec secs "Yielding sec secs" t lock'] step by (auto split: prod.splits)
next
  case (Inside fs secs)
  note h = lock_inv_inside [OF inv i Inside]
  show ?thesis
  proof (cases fs)
    case Nil
    have e: "t = Before secs" "lock' = spin_unlock lock" "s' = s" using step Inside Nil by auto
    have "outside_but {} (ts[i := t])" using h(2) i by (auto simp: outside_but_def nth_list_update e)
    then have "lock_inv progs s0 order (ts[i := t], lock', s')"
      using h(3) order_ok_update [OF h(4), of t i] Inside Nil by (simp add: lock_inv_def spin_unlock_def run_section_def e)
    then show ?thesis by blast
  next
    case (Cons f gs)
    have e: "t = Inside gs secs" "lock' = lock" "s' = f s" using step Inside Cons by auto
    have "lock_inv progs s0 order (ts[i := t], lock', s')"
      using h(1,3) order_ok_update [OF h(4), of t i] outside_update [OF h(2), of i t] i Inside Cons
      unfolding lock_inv_def by (auto simp: run_section_def e intro!: exI [of _ i])
    then show ?thesis by blast
  qed
qed

lemma lock_inv_sched:
  assumes "lock_inv progs s0 order c"
  shows "\<exists>order'. lock_inv progs s0 order' (sched_step i c)"
proof -
  obtain ts lock s where c: "c = (ts, lock, s)" by (cases c)
  obtain t lock' s' where t: "lock_step (ts ! i) lock s = (t, lock', s')" by (rule prod_cases3)
  show ?thesis
    using assms lock_inv_step [OF assms [unfolded c] _ t] by (auto simp: c sched_step_def t)
qed

lemma lock_inv_run: "lock_inv progs s0 order c \<Longrightarrow> \<exists>order'. lock_inv progs s0 order' (lock_run sched c)"
proof (induction sched arbitrary: order c)
  case (Cons i sched)
  from lock_inv_sched [OF Cons.prems, of i] obtain order' where "lock_inv progs s0 order' (sched_step i c)" ..
  then show ?case using Cons.IH by simp
qed auto

text \<open>A thread that waits takes a free lock with its next try.\<close>

lemma free_lock_is_taken:
  "\<not> l lock \<Longrightarrow> lock_step (Trying sec secs) lock s = (Inside sec secs, lock\<lparr>l := True\<rparr>, s)"
  "\<not> l lock \<Longrightarrow> i < SPINLOCK_ACQUIRE_TRIES \<Longrightarrow> lock_step (Spinning i sec secs) lock s = (Inside sec secs, lock\<lparr>l := True\<rparr>, s)"
  by (simp_all add: try_lock_def pthread_spin_trylock_def)

text \<open>
  C39: Sections under a spin lock are atomic: for any number of threads, any sections of theirs and any
  schedule, there is never more than one thread inside, and whenever the lock is free the shared state
  is what the sections make of it when run whole, one after the other, in some order in which every
  thread's sections come in the thread's own order.
\<close>

theorem locked_sections_are_atomic:
  assumes "lock_run sched (map Before progs, spin_lock_init, s0) = (ts, lock, s)"
  shows "\<exists>order. (\<forall>i < length progs. sections_of i order @ waiting (ts ! i) = progs ! i) \<and>
    (\<forall>i < length progs. \<forall>j < length progs. rest (ts ! i) \<noteq> None \<longrightarrow> rest (ts ! j) \<noteq> None \<longrightarrow> i = j) \<and>
    (\<not> l lock \<longrightarrow> s = replay order s0)"
proof -
  have "lock_inv progs s0 [] (map Before progs, spin_lock_init, s0)"
    by (simp add: lock_inv_def order_ok_def outside_but_def sections_of_def spin_lock_init_def replay_def)
  from lock_inv_run [OF this, of sched] assms obtain order where inv: "lock_inv progs s0 order (ts, lock, s)" by auto
  then have n: "order_ok progs order ts" by (simp add: lock_inv_def)
  have "i = j" if "i < length progs" "j < length progs" "rest (ts ! i) \<noteq> None" "rest (ts ! j) \<noteq> None" for i j
  proof -
    obtain A where A: "outside_but A ts" "A = {} \<or> (\<exists>x. A = {x})" using inv by (auto simp: lock_inv_def split: if_splits)
    have "i \<in> A" "j \<in> A" using A(1) that n unfolding outside_but_def order_ok_def by metis+
    then show ?thesis using A(2) by auto
  qed
  moreover have "\<not> l lock \<longrightarrow> s = replay order s0" using inv by (simp add: lock_inv_def)
  ultimately show ?thesis using n unfolding order_ok_def by (intro exI [of _ order]) blast
qed

text \<open>
  Two threads that each read a shared number into a register of theirs, and write back one more;
  without a lock both could read the same number.
\<close>

definition read_number :: "nat \<times> nat \<Rightarrow> nat \<times> nat" where "read_number s = (fst s, fst s)"
definition write_number :: "nat \<times> nat \<Rightarrow> nat \<times> nat" where "write_number s = (Suc (snd s), snd s)"

theorem locked_sections_are_atomic_witness:
  "\<exists>ts lock s. lock_run [0, 1, 0, 1, 0, 1, 0, 0, 1, 1, 1, 1] (map Before [[[read_number, write_number]], [[read_number, write_number]]], spin_lock_init, (5, 0)) =
     (ts, lock, s) \<and> \<not> l lock \<and> fst s = 7"
proof -
  let ?inc = "[read_number, write_number]"
  let ?c = "lock_run [0, 1, 0, 1, 0, 1, 0, 0, 1, 1, 1, 1] (map Before [[?inc], [?inc]], spin_lock_init, (5, 0))"
  have e: "?c = ([Before [], Before []], \<lparr>l = False\<rparr>, (7, 6))"
    by (simp add: sched_step_def spin_lock_init_def try_lock_def pthread_spin_trylock_def SPINLOCK_ACQUIRE_TRIES_def
        spin_unlock_def read_number_def write_number_def)
  from locked_sections_are_atomic [OF e] obtain order where
    "\<not> l \<lparr>l = False\<rparr> \<longrightarrow> (7, 6) = replay order (5 :: nat, 0 :: nat)" by blast
  then have "replay order (5, 0) = (7, 6)" by simp
  then show ?thesis using e by auto
qed

end
