(* ===== verification/Texample.thy ===== *)
theory Texample
  imports Timer_Next
begin

unbundle bit_operations_syntax

text \<open>
  The test program \<open>src/texample.c\<close> of the timers: it reads pairs of a time and a key, sets a timer for
  each, and prints each key when its timer fires, going from one time to the next as
  \<open>timer_next_interrupt\<close> says. It is the client for which \<open>timers_run\<close> and \<open>timer_next_interrupt\<close> must fit
  together: what the one leaves pending the other finds.
\<close>

section \<open>The program\<close>

text \<open>What \<open>scanf\<close> read: the items in order; an item is known by its place. \<open>counter\<close> is an int.\<close>

type_synonym te_item = "32 word \<times> string"

type_synonym te_line = "32 word \<times> string"

text \<open>\<open>callback\<close>; its state is \<open>counter\<close>, which it only reads, and what was printed.\<close>

definition te_callback :: "te_item list \<Rightarrow> (32 word \<times> te_line list) timer_cb" where
  "te_callback items t b = (\<lambda>(counter, out). ((counter, out @ [(counter, snd (items ! t))]), []))"

text \<open>The first loop of \<open>main\<close>, from the item \<open>t\<close>; the int is sign extended to an unsigned long.\<close>

fun te_add :: "te_item list \<Rightarrow> tid \<Rightarrow> timer_base \<Rightarrow> timer_base" where
  "te_add [] t tvec = tvec"
| "te_add ((value, key) # items) t tvec = te_add items (Suc t) (timer_add t (scast value) tvec)"

text \<open>The second loop; \<open>delay < 0\<close> never holds of an unsigned long. The result is what was printed and the
  last \<open>counter\<close>.\<close>

partial_function (option) te_loop :: "te_item list \<Rightarrow> timer_base \<Rightarrow> 32 word \<Rightarrow> te_line list \<Rightarrow> (te_line list \<times> 32 word) option" where
  "te_loop items tvec counter out =
     (case timers_run (te_callback items) (scast counter) tvec (counter, out) of
        (expired, tvec, (counter, out)) \<Rightarrow>
          (let t0 = timer_next_interrupt tvec;
               delay = t0 - scast counter
           in if 2 ^ 29 < delay then Some (out, counter)
              else te_loop items tvec (ucast (scast counter + delay)) out))"

definition te_main :: "te_item list \<Rightarrow> (te_line list \<times> 32 word) option" where
  "te_main items = te_loop items (te_add items 0 (init_timer_base 0)) 0 []"

section \<open>When an item is due\<close>

text \<open>Overdue items are due at once.\<close>

definition te_due :: "te_item \<Rightarrow> nat" where
  "te_due i = nat (sint (fst i))"

lemma te_due_less: "te_due i < 2 ^ 31"
  using sint_lt [of "fst i"] by (simp add: te_due_def)

lemma sint_scast_32: "sint (scast (v :: 32 word) :: ulong) = sint v"
  by (rule sint_up_scast) (simp only: is_up, simp)

lemma te_expires_pos:
  assumes "0 \<le> sint (v :: 32 word)"
  shows "(scast v :: ulong) = of_nat (nat (sint v))"
proof -
  have "(scast v :: ulong) = word_of_int (sint v)" by (rule scast_eq)
  also have "sint v = int (nat (sint v))" using assms by (simp only: nat_0_le)
  finally show ?thesis by (simp only: of_int_of_nat_eq)
qed

lemma te_expires:
  assumes "0 < te_due i"
  shows "(scast (fst i) :: ulong) = of_nat (te_due i)"
  using assms te_expires_pos [of "fst i"] by (simp add: te_due_def)

lemma te_overdue:
  assumes "te_due i = 0"
  shows "(scast (fst i) :: ulong) = 0 \<or> (scast (fst i) :: ulong) <s 0"
proof (cases "sint (fst i) < 0")
  case True
  then show ?thesis using sint_scast_32 [of "fst i"] by (simp add: word_sless_alt)
next
  case False
  then show ?thesis using assms te_expires_pos [of "fst i"] by (simp add: te_due_def)
qed

lemma unat_diff_small:
  assumes "n \<le> m" and "m < 2 ^ 32"
  shows "unat (of_nat m - of_nat n :: ulong) = m - n"
proof -
  have u: "unat (of_nat m :: ulong) = m" "unat (of_nat n :: ulong) = n"
    using assms by (simp_all add: unat_of_nat_ulong)
  then show ?thesis using unat_sub_ulong [of "of_nat n" "of_nat m"] assms(1) by simp
qed

lemma te_moderate: "moderate 0 (scast (fst (i :: te_item)))"
proof (cases "te_due i = 0")
  case False
  have "unat (scast (fst i) :: ulong) = te_due i"
    using te_expires [of i] False te_due_less [of i] by (simp add: unat_of_nat_ulong)
  then show ?thesis using te_due_less [of i] by (simp add: moderate_def)
next
  case True
  have l: "- (2 ^ 31) \<le> sint (fst i)" using sint_ge [of "fst i"] by simp
  show ?thesis
  proof (cases "sint (fst i) < 0")
    case True
    have "uint (scast (fst i) :: ulong) = sint (fst i) mod 2 ^ 64"
      unfolding scast_eq uint_word_of_int by (simp only: len_num1 len_bit0 mult_1_right) simp
    also have "\<dots> = sint (fst i) + 2 ^ 64"
      using True l by (subst mod_add_self2 [symmetric], subst mod_pos_pos_trivial) simp_all
    finally have u: "unat (scast (fst i) :: ulong) = nat (sint (fst i) + 2 ^ 64)" by (simp only: unat_eq_nat_uint)
    have "2 ^ 63 + 2 ^ 62 \<le> nat (sint (fst i) + 2 ^ 64)" using l by simp
    then show ?thesis unfolding moderate_def by (simp only: u diff_zero simp_thms)
  next
    case False
    then show ?thesis using True te_expires_pos [of "fst i"] by (simp add: te_due_def moderate_def)
  qed
qed

section \<open>The state between two runs\<close>

text \<open>The items that are due at \<open>n\<close> or later are pending.\<close>

definition te_inv :: "te_item list \<Rightarrow> nat \<Rightarrow> timer_base \<Rightarrow> bool" where
  "te_inv items n b \<longleftrightarrow> wheel_wf b \<and> near b \<and> timer_jiffies b = of_nat n \<and>
     (\<forall>t. timer_pending t b \<longleftrightarrow> t < length items \<and> n \<le> te_due (items ! t)) \<and>
     (\<forall>t < length items. expires b t = scast (fst (items ! t)))"

lemma te_add_spec:
  assumes "wheel_wf b" and "near b" and "timer_jiffies b = 0"
  shows "wheel_wf (te_add items t b) \<and> near (te_add items t b) \<and> timer_jiffies (te_add items t b) = 0 \<and>
    (\<forall>u. timer_pending u (te_add items t b) \<longleftrightarrow> timer_pending u b \<or> t \<le> u \<and> u < t + length items) \<and>
    (\<forall>u. expires (te_add items t b) u =
       (if t \<le> u \<and> u < t + length items then scast (fst (items ! (u - t))) else expires b u))"
  using assms
proof (induction items t b rule: te_add.induct)
  case (2 v k items t b)
  have w: "wheel 0 b" using 2(2) by (simp add: wheel_wf_def)
  have m: "moderate (timer_jiffies b) (scast v)" using te_moderate [of "(v, k)"] 2(4) by simp
  have j: "timer_jiffies (timer_mod t (scast v) b) = 0" using 2(4) by (simp add: timer_mod_def Let_def)
  note IH = 2(1) [unfolded timer_add_def, OF wheel_wf_mod [OF 2(2)] near_mod [OF w 2(3) m] j]
  have p: "timer_pending u (timer_mod t (scast v) b) \<longleftrightarrow> u = t \<or> timer_pending u b" for u by (rule wheel_mod(2) [OF w])
  have e: "expires (timer_mod t (scast v) b) = (expires b)(t := scast v)" by (rule wheel_mod(3) [OF w])
  show ?case
    using IH unfolding p e te_add.simps timer_add_def
    by (auto simp: nth_Cons' Suc_diff_Suc not_less_eq_eq)
qed auto

lemma te_start: "te_inv items 0 (te_add items 0 (init_timer_base 0))"
proof -
  have "timer_jiffies (init_timer_base 0) = 0" by (simp add: init_timer_base_def)
  note s = te_add_spec [OF example_wheel_wf near_init this, of items 0]
  show ?thesis using s init_wheel(2) [of _ 0] by (simp add: te_inv_def)
qed

lemma te_invD:
  assumes "te_inv items n b"
  shows "wheel_wf b" and "near b" and "timer_jiffies b = of_nat n"
    and "timer_pending t b \<longleftrightarrow> t < length items \<and> n \<le> te_due (items ! t)"
    and "timer_pending t b \<Longrightarrow> expires b t = scast (fst (items ! t))"
  using assms by (simp_all add: te_inv_def)

text \<open>The distance of a pending item from the jiffies.\<close>

lemma te_ahead:
  assumes "te_inv items n b" and "timer_pending t b" and "0 < te_due (items ! t)"
  shows "unat (expires b t - timer_jiffies b) = te_due (items ! t) - n"
  using te_invD [OF assms(1)] assms(2,3) te_expires [OF assms(3)] unat_diff_small [of n "te_due (items ! t)"]
    te_due_less [of "items ! t"] by simp

lemma te_fired:
  assumes inv: "te_inv items n b" and t: "timer_pending t b" and c: "n \<le> c" "c < 2 ^ 31"
  shows "fired_by (timer_jiffies b) (Suc (unat (of_nat c - timer_jiffies b))) (expires b t) \<longleftrightarrow> te_due (items ! t) \<le> c"
proof -
  note d = te_invD [OF inv]
  have k: "unat (of_nat c - timer_jiffies b) = c - n" unfolding d(3) using c by (intro unat_diff_small) simp_all
  show ?thesis
  proof (cases "te_due (items ! t) = 0")
    case True
    then have n: "n = 0" using d(4) t by simp
    have "(scast (fst (items ! t)) :: ulong) = 0 \<or> (scast (fst (items ! t)) :: ulong) <s 0" by (rule te_overdue [OF True])
    then show ?thesis using True d(3) d(5) [OF t] n by (auto simp: fired_by_def)
  next
    case False
    then have u: "unat (expires b t - timer_jiffies b) = te_due (items ! t) - n" by (intro te_ahead [OF inv t]) simp
    have "\<not> expires b t - timer_jiffies b <s 0" unfolding slt_0_iff u using te_due_less [of "items ! t"] by simp
    then show ?thesis using u k c(1) d(4) [of t] t unfolding fired_by_def by auto
  qed
qed

lemma te_run:
  assumes inv: "te_inv items n b" and c: "n \<le> c" "c < 2 ^ 31"
  obtains ts m b' where "distinct ts" and "set ts = {t. t < length items \<and> n \<le> te_due (items ! t) \<and> te_due (items ! t) \<le> c}"
    and "timers_run (te_callback items) (of_nat c) b (cw, out) = (m, b', (cw, out @ map (\<lambda>t. (cw, snd (items ! t))) ts))"
    and "te_inv items (Suc c) b'"
proof -
  note d = te_invD [OF inv]
  have ahead: "time_after_eq (of_nat c) (timer_jiffies b)"
    unfolding time_after_eq_unat d(3) using unat_diff_small [OF c(1)] c(2) by simp
  define f where "f = (\<lambda>t (u :: 32 word \<times> te_line list). (fst u, snd u @ [(fst u, snd (items ! t))]))"
  have cb: "fst (te_callback items t b u) = f t u" "snd (te_callback items t b u) = []" for t b u
    by (cases u; simp add: te_callback_def f_def)+
  have q: "quiet (te_callback items)" by (simp add: quiet_def cb)
  obtain ts b' where r: "distinct ts" "set ts = due_by (of_nat c) b"
    "timers_run (te_callback items) (of_nat c) b (cw, out) = (of_nat (length ts), b', fold f ts (cw, out))"
    "wheel_wf b'" "timer_jiffies b' = of_nat c + 1" "expires b' = expires b"
    "\<And>t. timer_pending t b' \<longleftrightarrow> timer_pending t b \<and> t \<notin> due_by (of_nat c) b"
    using timers_run_each [OF d(1) ahead, of "te_callback items" f "(cw, out)"] cb q by (metis (no_types, lifting))
  have due: "due_by (of_nat c) b = {t. t < length items \<and> n \<le> te_due (items ! t) \<and> te_due (items ! t) \<le> c}"
    using te_fired [OF inv _ c] d(4) by (auto simp: due_by_def)
  have fold: "fold f ts (cw, out) = (cw, out @ map (\<lambda>t. (cw, snd (items ! t))) ts)" for ts
    by (induction ts arbitrary: out) (simp_all add: f_def)
  have modest: "modest (te_callback items)" by (simp add: modest_def cb)
  have near: "near b'" using near_run [OF d(1,2) modest r(3)] by blast
  have "te_inv items (Suc c) b'"
    unfolding te_inv_def using r(4-7) near due d(4) inv c(1) by (auto simp: te_inv_def)
  then show ?thesis using that [OF r(1)] r(2,3) due fold by simp
qed

text \<open>The next time: that of the first pending item, unless it is far away.\<close>

lemma te_next:
  assumes inv: "te_inv items (Suc c) b" and c: "c < 2 ^ 31"
  obtains (far) "2 ^ 29 < timer_next_interrupt b - of_nat c" and "\<And>t. timer_pending t b \<Longrightarrow> c + 2 ^ 29 < te_due (items ! t)"
    | (near) m t where "timer_next_interrupt b = of_nat m" and "\<not> 2 ^ 29 < timer_next_interrupt b - of_nat c"
      and "c < m" and "timer_pending t b" and "te_due (items ! t) = m" and "\<And>u. timer_pending u b \<Longrightarrow> m \<le> te_due (items ! u)"
proof -
  let ?r = "timer_next_interrupt b" and ?tj = "timer_jiffies b"
  note d = te_invD [OF inv]
  have "first_due b ?r" using d(1,2) by (intro timer_next_interrupt_first) (simp_all add: wheel_wf_def)
  then have first: "\<And>t. timer_pending t b \<Longrightarrow> when_due ?tj ?r \<le> when_due ?tj (expires b t)"
    "?r = ?tj + NEXT_TIMER_MAX_DELTA \<or> (\<exists>t. timer_pending t b \<and> ?r = expires b t)"
    unfolding first_due_def default_interrupt_def Let_def by auto
  have w: "when_due ?tj (expires b t) = now_nat ?tj + (te_due (items ! t) - Suc c)" if "timer_pending t b" for t
  proof -
    have "0 < te_due (items ! t)" using d(4) [of t] that by simp
    from te_ahead [OF inv that this] have "unat (expires b t - ?tj) = te_due (items ! t) - Suc c" .
    then show ?thesis using te_due_less [of "items ! t"] by (simp add: when_due_def)
  qed
  from first(2) show thesis
  proof
    assume r: "?r = ?tj + NEXT_TIMER_MAX_DELTA"
    have u: "unat NEXT_TIMER_MAX_DELTA = 2 ^ 30 - 1" by (simp add: NEXT_TIMER_MAX_DELTA_def)
    have "when_due ?tj ?r = now_nat ?tj + (2 ^ 30 - 1)" unfolding when_due_def r add_diff_cancel_left' u by simp
    then have "2 ^ 30 - 1 \<le> te_due (items ! t) - Suc c" if "timer_pending t b" for t using first(1) [OF that] w [OF that] by simp
    then have "c + 2 ^ 29 < te_due (items ! t)" if "timer_pending t b" for t using that by fastforce
    moreover have "?r - of_nat c = 2 ^ 30" unfolding r d(3) by (simp add: NEXT_TIMER_MAX_DELTA_def)
    ultimately show thesis using far by simp
  next
    assume "\<exists>t. timer_pending t b \<and> ?r = expires b t"
    then obtain t where t: "timer_pending t b" "?r = expires b t" by blast
    let ?m = "te_due (items ! t)"
    have m: "c < ?m" using d(4) [of t] t(1) by simp
    have r: "?r = of_nat ?m" using t(2) d(5) [OF t(1)] te_expires [of "items ! t"] m by simp
    have least: "?m \<le> te_due (items ! u)" if "timer_pending u b" for u
    proof -
      have "now_nat ?tj + (?m - Suc c) \<le> now_nat ?tj + (te_due (items ! u) - Suc c)"
        using first(1) [OF that] by (simp only: t(2) w [OF that] w [OF t(1)])
      then show ?thesis using d(4) [of u] that m by linarith
    qed
    have u: "unat (?r - of_nat c) = ?m - c"
      unfolding r using m te_due_less [of "items ! t"] by (intro unat_diff_small) simp_all
    show thesis
    proof (cases "2 ^ 29 < ?m - c")
      case True
      then show thesis using far u least by (fastforce simp: word_less_nat_alt)
    next
      case False
      then show thesis using near [OF r _ m t(1) refl least] u by (simp add: word_less_nat_alt)
    qed
  qed
qed

section \<open>The whole run\<close>

text \<open>What is printed when everything that is due before \<open>n\<close> has been run.\<close>

definition te_out :: "te_item list \<Rightarrow> nat \<Rightarrow> te_line list \<Rightarrow> bool" where
  "te_out items n out \<longleftrightarrow> sorted (map (\<lambda>l. unat (fst l)) out) \<and> (\<forall>l \<in> set out. unat (fst l) < n) \<and>
     mset out = image_mset (\<lambda>t. (of_nat (te_due (items ! t)), snd (items ! t))) (mset_set {t. t < length items \<and> te_due (items ! t) < n})"

lemma te_out_step:
  assumes out: "te_out items n out" and c: "n \<le> c" "c < 2 ^ 31" and gap: "\<And>t. t < length items \<Longrightarrow> n \<le> te_due (items ! t) \<Longrightarrow> c \<le> te_due (items ! t)"
    and ts: "distinct ts" "set ts = {t. t < length items \<and> n \<le> te_due (items ! t) \<and> te_due (items ! t) \<le> c}"
  shows "te_out items (Suc c) (out @ map (\<lambda>t. (of_nat c, snd (items ! t))) ts)"
proof -
  let ?A = "{t. t < length items \<and> te_due (items ! t) < n}" and ?g = "\<lambda>t. (of_nat (te_due (items ! t)) :: 32 word, snd (items ! t))"
  have e: "te_due (items ! t) = c" if "t \<in> set ts" for t using that gap unfolding ts(2) by force
  have s: "{t. t < length items \<and> te_due (items ! t) < Suc c} = ?A \<union> set ts"
    unfolding ts(2) using gap c(1) by (auto simp: less_Suc_eq_le not_less)
  have "?A \<inter> set ts = {}" unfolding ts(2) by auto
  then have "mset_set (?A \<union> set ts) = mset_set ?A + mset_set (set ts)" by (intro mset_set_Union) simp_all
  also have "mset_set (set ts) = mset ts" by (rule mset_set_set [OF ts(1)])
  finally have "image_mset ?g (mset_set {t. t < length items \<and> te_due (items ! t) < Suc c}) = mset out + image_mset ?g (mset ts)"
    using out unfolding s te_out_def by simp
  moreover have "image_mset ?g (mset ts) = mset (map (\<lambda>t. (of_nat c, snd (items ! t))) ts)"
    using e by (simp only: mset_map) (intro image_mset_cong, simp)
  moreover have u: "unat (of_nat c :: 32 word) = c"
    using c(2) by (simp add: unsigned_of_nat take_bit_nat_eq_self)
  moreover have "sorted (map (\<lambda>t. unat (of_nat c :: 32 word)) ts)" by (simp only: map_replicate_const sorted_replicate)
  ultimately show ?thesis
    using out c(1) by (auto simp: te_out_def sorted_append comp_def less_Suc_eq_le intro: less_imp_le order.strict_trans2)
qed

lemma te_counter:
  assumes "n < 2 ^ 31"
  shows "(scast (of_nat n :: 32 word) :: ulong) = of_nat n" and "unat (of_nat n :: 32 word) = n"
proof -
  show u: "unat (of_nat n :: 32 word) = n"
    using assms by (simp add: unsigned_of_nat take_bit_nat_eq_self)
  have "unat (scast (of_nat n :: 32 word) :: ulong) = n" using unat_scast_small [of "of_nat n"] assms by (simp add: u)
  then show "(scast (of_nat n :: 32 word) :: ulong) = of_nat n"
    using assms by (simp add: word_unat_eq_iff unat_of_nat_ulong)
qed

lemma te_loop_runs:
  assumes "te_inv items n b" and "n \<le> c" and "c < 2 ^ 31" and "te_out items n out"
    and "\<And>t. t < length items \<Longrightarrow> n \<le> te_due (items ! t) \<Longrightarrow> c \<le> te_due (items ! t)"
  shows "\<exists>out' c'. te_loop items b (of_nat c) out = Some (out', of_nat c') \<and> c' < 2 ^ 31 \<and> te_out items (Suc c') out' \<and>
    (\<forall>t < length items. te_due (items ! t) \<le> c' \<or> c' + 2 ^ 29 < te_due (items ! t))"
  using assms
proof (induction "2 ^ 31 - c" arbitrary: n b c out rule: less_induct)
  case less
  obtain ts m b' where ts: "distinct ts" "set ts = {t. t < length items \<and> n \<le> te_due (items ! t) \<and> te_due (items ! t) \<le> c}"
    and run: "timers_run (te_callback items) (of_nat c) b (of_nat c, out) =
      (m, b', (of_nat c, out @ map (\<lambda>t. (of_nat c, snd (items ! t))) ts))" and inv: "te_inv items (Suc c) b'"
    using te_run [OF less.prems(1-3), of "of_nat c" out] by blast
  let ?out = "out @ map (\<lambda>t. (of_nat c, snd (items ! t))) ts"
  have out: "te_out items (Suc c) ?out" by (rule te_out_step [OF less.prems(4,2,3,5) ts])
  note pending = te_invD(4) [OF inv]
  have step: "te_loop items b (of_nat c) out =
      (if 2 ^ 29 < timer_next_interrupt b' - of_nat c then Some (?out, of_nat c)
       else te_loop items b' (ucast (timer_next_interrupt b')) ?out)"
    by (subst te_loop.simps) (simp add: te_counter(1) [OF less.prems(3)] run Let_def)
  show ?case
  proof (cases rule: te_next [OF inv less.prems(3), case_names far near])
    case far
    have "te_due (items ! t) \<le> c \<or> c + 2 ^ 29 < te_due (items ! t)" if "t < length items" for t
      using far(2) [of t] pending [of t] that by auto
    then show ?thesis using step far(1) out less.prems(3) by auto
  next
    case (near m t)
    have m: "m < 2 ^ 31" using te_due_less [of "items ! t"] near(5) by simp
    have u: "(ucast (of_nat m :: ulong) :: 32 word) = of_nat m"
      using m by (simp add: word_unat_eq_iff unat_ucast_32 unat_of_nat_ulong te_counter(2))
    have "\<exists>out' c'. te_loop items b' (of_nat m) ?out = Some (out', of_nat c') \<and> c' < 2 ^ 31 \<and> te_out items (Suc c') out' \<and>
        (\<forall>t < length items. te_due (items ! t) \<le> c' \<or> c' + 2 ^ 29 < te_due (items ! t))"
      by (rule less.hyps [OF _ inv _ m out]) (use near(3,6) m pending in auto)
    then show ?thesis using step near(1,2) u by simp
  qed
qed

text \<open>
  C40: The test program always ends, whatever times it reads, and prints exactly what is due until then:
  every item once, in the order of time, with the counter at its time (an overdue item at zero). It ends
  when no other item is due within the next \<open>2 ^ 29\<close> jiffies.
\<close>

theorem texample_prints_all_due:
  "\<exists>out c. te_main items = Some (out, c) \<and> sorted (map (\<lambda>l. unat (fst l)) out) \<and>
     mset out = mset (map (\<lambda>i. (of_nat (te_due i), snd i)) (filter (\<lambda>i. te_due i \<le> unat c) items)) \<and>
     (\<forall>i \<in> set items. te_due i \<le> unat c \<or> unat c + 2 ^ 29 < te_due i)"
proof -
  have "te_out items 0 []" by (simp add: te_out_def)
  from te_loop_runs [OF te_start _ _ this, of 0] obtain out c where
    r: "te_main items = Some (out, of_nat c)" "c < 2 ^ 31" "te_out items (Suc c) out"
    "\<forall>t < length items. te_due (items ! t) \<le> c \<or> c + 2 ^ 29 < te_due (items ! t)"
    by (auto simp: te_main_def)
  let ?f = "\<lambda>i. (of_nat (te_due i) :: 32 word, snd i)" and ?P = "\<lambda>i. te_due i \<le> c"
  have "mset (map ?f (filter ?P items)) = mset (map (\<lambda>t. ?f (items ! t)) (filter (\<lambda>t. ?P (items ! t)) [0 ..< length items]))"
  proof -
    have "filter ?P items = map (\<lambda>t. items ! t) (filter (\<lambda>t. ?P (items ! t)) [0 ..< length items])"
      by (subst (1) map_nth [of items, symmetric]) (simp only: filter_map comp_def)
    then show ?thesis by (simp only: map_map comp_def)
  qed
  also have "\<dots> = image_mset (\<lambda>t. ?f (items ! t)) (mset_set {t. t < length items \<and> te_due (items ! t) < Suc c})"
  proof -
    have "{t. t < length items \<and> te_due (items ! t) < Suc c} = set (filter (\<lambda>t. ?P (items ! t)) [0 ..< length items])" by auto
    then show ?thesis by (simp only: mset_map mset_set_set distinct_filter distinct_upt)
  qed
  also have "\<dots> = mset out" using r(3) by (simp add: te_out_def)
  finally have m: "mset out = mset (map ?f (filter ?P items))" by simp
  have "\<forall>i \<in> set items. te_due i \<le> c \<or> c + 2 ^ 29 < te_due i" using r(4) by (metis in_set_conv_nth)
  moreover have "sorted (map (\<lambda>l. unat (fst l)) out)" using r(3) by (simp add: te_out_def)
  ultimately show ?thesis using r(1) m by (intro exI [of _ out] exI [of _ "of_nat c"]) (simp only: te_counter(2) [OF r(2)] simp_thms)
qed

theorem texample_prints_all_due_witness:
  "\<exists>c. te_main [(30, ''b''), (- 5, ''a'')] = Some ([(0, ''a''), (30, ''b'')], c)"
proof -
  have d: "te_due (30, ''b'') = 30" "te_due (- 5, ''a'') = 0" by (simp_all add: te_due_def)
  obtain out c where r: "te_main [(30, ''b''), (- 5, ''a'')] = Some (out, c)" "sorted (map (\<lambda>l. unat (fst l)) out)"
    "mset out = mset (map (\<lambda>i. (of_nat (te_due i), snd i)) (filter (\<lambda>i. te_due i \<le> unat c) [(30, ''b''), (- 5, ''a'')]))"
    "\<forall>i \<in> set [(30, ''b''), (- 5, ''a'')]. te_due i \<le> unat c \<or> unat c + 2 ^ 29 < te_due i"
    using texample_prints_all_due [of "[(30, ''b''), (- 5, ''a'')]"] by blast
  have "30 \<le> unat c" using r(4) by (simp add: d)
  then have m: "mset out = {#(30, ''b''), (0, ''a'')#}" using r(3) by (simp add: d)
  moreover have "length out = 2" using arg_cong [OF m, of size] by simp
  then obtain x y where "out = [x, y]" by (cases out; cases "tl out") auto
  ultimately have "out = [(30, ''b''), (0, ''a'')] \<or> out = [(0, ''a''), (30, ''b'')]"
    by (auto simp: add_eq_conv_ex)
  then show ?thesis using r(1,2) by auto
qed
end
