(* ===== verification/Engine_Os.thy ===== *)
theory Engine_Os
  imports Engine_Fd Timer_Wheel
begin

text \<open>
  The system calls that all engines make, as a parameter: \<open>'k\<close> is the state of the system (and of
  the program outside the library), a call returns its answer and the next state. With them the
  helpers of \<open>src/msock_utils.c\<close> and the pipe through which a sleeping engine is woken up (the
  constructors, ingress callbacks and destructors of the engines share it).
\<close>

unbundle bit_operations_syntax

section \<open>System calls\<close>

text \<open>A descriptor is an int; as a number it is its bit pattern, so that a negative one is above every table.\<close>

type_synonym fd = nat
type_synonym errno = int

definition EINTR :: errno where "EINTR = 4"
definition EBADF :: errno where "EBADF = 9"
definition O_NONBLOCK :: "32 word" where "O_NONBLOCK = 0x800"

text \<open>\<open>k_pipe\<close> answers with the reading and the writing end; \<open>k_getfl\<close> and \<open>k_setfl\<close> are the two commands of
  \<open>fcntl\<close>. \<open>k_read\<close> is a \<open>read\<close> into a buffer of a given size whose result is not looked at. \<open>k_junk\<close> and \<open>k_pad\<close>
  are what is on the stack where the messages leave a field and the padding unset.\<close>

record 'k os_calls =
  k_pipe :: "'k \<Rightarrow> (fd \<times> fd) option \<times> 'k"
  k_getfl :: "fd \<Rightarrow> 'k \<Rightarrow> 32 word"
  k_setfl :: "fd \<Rightarrow> 32 word \<Rightarrow> 'k \<Rightarrow> bool \<times> 'k"
  k_read :: "fd \<Rightarrow> nat \<Rightarrow> 'k \<Rightarrow> 'k"
  k_write :: "fd \<Rightarrow> char \<Rightarrow> 'k \<Rightarrow> 'k"
  k_close :: "fd \<Rightarrow> 'k \<Rightarrow> 'k"
  k_clock :: "'k \<Rightarrow> timespec option \<times> 'k"
  k_junk :: ulong
  k_pad :: "byte list"

definition set_nonblocking :: "('k, 'z) os_calls_scheme \<Rightarrow> fd \<Rightarrow> 'k \<Rightarrow> error + 'k" where
  "set_nonblocking K fd k =
     (let flags = k_getfl K fd k;
          flags = (if flags = - 1 then 0 else flags);
          (ok, k) = k_setfl K fd (flags OR O_NONBLOCK) k
      in if ok then Inr k else Inl (Fatal ''fcntl()''))"

text \<open>The new value of \<open>msock_now_msecs\<close>.\<close>

definition set_msock_now_msecs :: "('k, 'z) os_calls_scheme \<Rightarrow> 'k \<Rightarrow> error + (ulong \<times> 'k)" where
  "set_msock_now_msecs K k = (case k_clock K k of (ts, k) \<Rightarrow> rbind (now_msecs ts) (\<lambda>now. Inr (now, k)))"

section \<open>The pipe of an engine\<close>

definition open_pipe :: "('k, 'z) os_calls_scheme \<Rightarrow> 'k \<Rightarrow> error + (fd \<times> fd \<times> 'k)" where
  "open_pipe K k =
     (case k_pipe K k of
        (None, k) \<Rightarrow> Inl (Fatal ''pipe()'')
      | (Some (r, w), k) \<Rightarrow> rbind (set_nonblocking K w k) (\<lambda>k. Inr (r, w, k)))"

definition pipe_ingress_callback :: "('k, 'z) os_calls_scheme \<Rightarrow> fd \<Rightarrow> 'k \<Rightarrow> 'k" where
  "pipe_ingress_callback K pipe_write k = k_write K pipe_write (CHR ''x'') k"

definition pipe_destructor :: "('k, 'z) os_calls_scheme \<Rightarrow> fd \<Rightarrow> 'k \<Rightarrow> 'k" where
  "pipe_destructor K pipe_write k = k_close K pipe_write k"

section \<open>What an engine sends\<close>

text \<open>
  The messages that an engine's callback sends, in order. Sending does not touch the engine's data,
  so the callbacks of the engines are modelled as what they do to their data and to the system, and
  the list of what they send meanwhile; \<open>send_all\<close> are the calls of \<open>msock_send\<close>.
\<close>

fun send_all :: "byte list \<Rightarrow> sent list \<Rightarrow> ('c, 'd, 'u) act \<Rightarrow> ('c, 'd, 'u) act" where
  "send_all pad [] a = a"
| "send_all pad ((victim, ty, m) # out) a =
     Send victim ty (encode_msg_fd pad m) (of_nat sizeof_msg_fd) (send_all pad out a)"

section \<open>The timers of an engine\<close>

text \<open>
  The number of milliseconds that an engine sleeps, as it computes it: \<open>timer_next_interrupt\<close> less the
  current time, in unsigned longs.
\<close>

definition delta_msecs :: "timer_base \<Rightarrow> ulong \<Rightarrow> ulong" where
  "delta_msecs tbase now = timer_next_interrupt tbase - now"

text \<open>Both engines of file descriptors set or stop the timer of a descriptor like this.\<close>

definition arm_timer :: "tid \<Rightarrow> ulong \<Rightarrow> timer_base \<Rightarrow> timer_base" where
  "arm_timer t ex b = (if ex \<noteq> 0 then timer_add t ex b else timer_del t b)"

text \<open>The timers are in order, and are those of the \<open>n\<close> descriptors of the table.\<close>

definition timers_inv :: "nat \<Rightarrow> timer_base \<Rightarrow> bool" where
  "timers_inv n b \<longleftrightarrow> wheel_wf b \<and> (\<forall>t. timer_pending t b \<longrightarrow> t < n)"

lemma timers_inv_init: "timers_inv n (init_timer_base j)"
  using init_wheel by (simp add: timers_inv_def wheel_wf_def) (simp add: init_timer_base_def)

lemma timers_inv_del:
  assumes "timers_inv n b"
  shows "timers_inv n (timer_del t b)" and "timer_pending u (timer_del t b) \<longleftrightarrow> u \<noteq> t \<and> timer_pending u b"
    and "expires (timer_del t b) = expires b"
  using assms wheel_del [of 0 b t] wheel_del(2) [of 0 b _ t]
  by (auto simp: timers_inv_def wheel_wf_def timer_del_def)

lemma timers_inv_add:
  assumes "timers_inv n b" and "t < n"
  shows "timers_inv n (timer_add t e b)" and "timer_pending u (timer_add t e b) \<longleftrightarrow> u = t \<or> timer_pending u b"
    and "expires (timer_add t e b) = (expires b)(t := e)"
proof -
  have w: "wheel 0 b" "work_list b = []" using assms by (simp_all add: timers_inv_def wheel_wf_def)
  have "work_list (timer_mod t e b) = []" using w(2) by (simp add: timer_mod_def timer_del_def Let_def)
  then show "timers_inv n (timer_add t e b)"
    using assms wheel_mod(1,2) [OF w(1)] by (auto simp: timers_inv_def wheel_wf_def timer_add_def)
  show "timer_pending u (timer_add t e b) \<longleftrightarrow> u = t \<or> timer_pending u b"
    and "expires (timer_add t e b) = (expires b)(t := e)"
    using wheel_mod(2,3) [OF w(1)] by (simp_all add: timer_add_def)
qed

lemma timers_inv_arm:
  assumes "timers_inv n b" and "t < n"
  shows "timers_inv n (arm_timer t ex b)" and "timer_pending u (arm_timer t ex b) \<longleftrightarrow> (if u = t then ex \<noteq> 0 else timer_pending u b)"
    and "timer_jiffies (arm_timer t ex b) = timer_jiffies b"
    and "u \<noteq> t \<or> ex = 0 \<Longrightarrow> expires (arm_timer t ex b) u = expires b u" and "ex \<noteq> 0 \<Longrightarrow> expires (arm_timer t ex b) t = ex"
proof -
  note d = timers_inv_del [OF assms(1), where t = t] and a = timers_inv_add [OF assms, where e = ex]
  show "timers_inv n (arm_timer t ex b)" using d(1) a(1) by (simp add: arm_timer_def)
  show "timer_pending u (arm_timer t ex b) \<longleftrightarrow> (if u = t then ex \<noteq> 0 else timer_pending u b)"
    using d(2) a(2) by (simp add: arm_timer_def)
  show "timer_jiffies (arm_timer t ex b) = timer_jiffies b"
    by (simp add: arm_timer_def timer_add_def timer_mod_def Let_def)
  show "u \<noteq> t \<or> ex = 0 \<Longrightarrow> expires (arm_timer t ex b) u = expires b u" and "ex \<noteq> 0 \<Longrightarrow> expires (arm_timer t ex b) t = ex"
    using d(3) a(3) by (auto simp: arm_timer_def)
qed

lemma one_timer:
  assumes "t < n"
  shows "timers_inv n (timer_add t e (init_timer_base j))"
    and "timer_pending u (timer_add t e (init_timer_base j)) \<longleftrightarrow> u = t"
    and "expires (timer_add t e (init_timer_base j)) t = e"
    and "timer_jiffies (timer_add t e (init_timer_base j)) = j"
proof -
  note a = timers_inv_add [OF timers_inv_init [of n j] assms, where e = e]
  show "timers_inv n (timer_add t e (init_timer_base j))" by (rule a(1))
  show "timer_pending u (timer_add t e (init_timer_base j)) \<longleftrightarrow> u = t" using init_wheel(2) [of u j] by (simp only: a(2) simp_thms)
  show "expires (timer_add t e (init_timer_base j)) t = e" by (simp only: a(3) fun_upd_same)
  have "timer_jiffies (timer_add t e (init_timer_base j)) = timer_jiffies (init_timer_base j)"
    using init_wheel(2) [of t j] by (simp add: timer_add_def timer_mod_def Let_def)
  then show "timer_jiffies (timer_add t e (init_timer_base j)) = j" by (simp add: init_timer_base_def)
qed

text \<open>\<open>timers_run\<close> with a callback that, apart from its data, only stops its own timer.\<close>

lemma engine_timers_run:
  assumes "timers_inv n b" and "time_after_eq j (timer_jiffies b)"
  obtains ts b' where "distinct ts" "set ts = due_by j b" "set ts \<subseteq> {..<n}"
    "timers_run (\<lambda>t b u. (f t u, [TDel t])) j b u = (of_nat (length ts), b', fold f ts u)"
    "timers_inv n b'" "timer_jiffies b' = j + 1" "expires b' = expires b"
    "\<And>t. timer_pending t b' \<longleftrightarrow> timer_pending t b \<and> t \<notin> due_by j b"
proof -
  have w: "wheel_wf b" and t: "\<And>t. timer_pending t b \<Longrightarrow> t < n" using assms(1) by (simp_all add: timers_inv_def)
  obtain ts b' where ts: "distinct ts" "set ts = due_by j b"
    "timers_run (\<lambda>t b u. (f t u, [TDel t])) j b u = (of_nat (length ts), b', fold f ts u)"
    "wheel_wf b'" "timer_jiffies b' = j + 1" "expires b' = expires b"
    "\<And>t. timer_pending t b' \<longleftrightarrow> timer_pending t b \<and> t \<notin> due_by j b"
    by (rule timers_run_each [OF w assms(2), where cb = "\<lambda>t b u. (f t u, [TDel t])" and f = f and u = u])
      (simp_all add: quiet_def)
  moreover have "set ts \<subseteq> {..<n}" using ts(2) t by (auto simp: due_by_def)
  ultimately show ?thesis using that t by (simp add: timers_inv_def)
qed

text \<open>A timer that was set to a time before now makes the engine sleep for a negative time.\<close>

lemma slots_from_first:
  assumes "i < n"
  obtains r where "slots_from n i = i # r"
proof -
  have "[0 ..< n] = 0 # [Suc 0 ..< n]" using assms by (intro upt_conv_Cons) simp
  then show ?thesis using that assms by (simp add: slots_from_def)
qed

lemma next_levels_none:
  "\<forall>v \<in> set vs. length v = 64 \<and> (\<forall>xs \<in> set v. xs = []) \<Longrightarrow> next_levels b vs tj True ex = ex"
proof (induction vs arbitrary: tj)
  case (Cons v vs)
  let ?i = "unat (tj AND TVN_MASK)"
  have i: "?i < 64" by (simp add: unat_and_mask)
  obtain r where sl: "slots_from TVN_SIZE ?i = ?i # r"
    by (rule slots_from_first [of ?i TVN_SIZE]) (use i in \<open>simp_all add: TVN_SIZE_def TVN_BITS_def\<close>)
  have "v ! ?i = []" using Cons.prems i by simp
  then have "next_level b v ?i True ex (slots_from TVN_SIZE ?i) = (if ?i = 0 then Inr (True, ex) else Inl ex)"
    unfolding sl by (simp add: Let_def)
  then show ?case using Cons by (simp add: Let_def)
qed simp

lemma overdue_interrupt:
  assumes "2 ^ 63 \<le> unat (e - j)"
  shows "timer_next_interrupt (timer_add t e (init_timer_base j)) = e"
proof -
  let ?i = "unat (j AND TVR_MASK)" and ?b = "timer_add t e (init_timer_base j)"
  have i: "?i < 256" by (simp add: unat_and_mask)
  have s: "timer_slot j e = (1, ?i)" using assms by (simp add: timer_slot_cases unat_and_mask)
  have b: "?b = (init_timer_base j)\<lparr>expires := (\<lambda>_. 0)(t := e), tv1 := (replicate 256 [])[?i := [t]]\<rparr>"
  proof -
    let ?c = "(init_timer_base j)\<lparr>expires := (\<lambda>_. 0)(t := e)\<rparr>"
    have e: "expires (init_timer_base j) = (\<lambda>_. 0)" "timer_jiffies ?c = j" "expires ?c t = e" "tv1 ?c = replicate 256 []"
      by (simp_all add: init_timer_base_def TVR_SIZE_def TVR_BITS_def)
    have "?b = internal_add_timer t ?c" using init_wheel(2) [of t j] by (simp add: timer_add_def timer_mod_def Let_def e(1))
    also have "\<dots> = set_vec 1 ((vec ?c 1)[?i := vec ?c 1 ! ?i @ [t]]) ?c"
      unfolding internal_add_timer_def e(2,3) s by simp
    also have "vec ?c 1 = replicate 256 []" by (simp add: vec_def e(4))
    finally show ?thesis using i by (simp add: set_vec_def del: fun_upd_apply)
  qed
  obtain r where sl: "slots_from TVR_SIZE ?i = ?i # r"
    by (rule slots_from_first [of ?i TVR_SIZE]) (use i in \<open>simp_all add: TVR_SIZE_def TVR_BITS_def\<close>)
  have f: "next_tv1 ?b ?i ex (slots_from TVR_SIZE ?i) = (if ?i = 0 then Inr (True, e) else Inl e)" for ex
    unfolding sl b using i by simp
  have j: "timer_jiffies ?b = j" unfolding b by (simp add: init_timer_base_def)
  have "next_levels ?b [tv2 ?b, tv3 ?b, tv4 ?b, tv5 ?b] tj True ex = ex" for tj ex
    unfolding b by (rule next_levels_none) (simp add: init_timer_base_def TVN_SIZE_def TVN_BITS_def)
  then show ?thesis unfolding timer_next_interrupt_def Let_def j f by simp
qed

end
