(* ===== verification/Engine_Signal.thy ===== *)
theory Engine_Signal
  imports Engine_Os Delivery
begin

text \<open>
  The engine of signals (\<open>src/msock_engine_signal.c\<close>). All signals are blocked in all threads; only
  while the engine sleeps, in \<open>pselect\<close> with an empty mask, can they arrive. For the signals that a
  process has registered the engine installs a handler, which sends the signal as a message, once:
  after that the signal has to be registered again.
\<close>

section \<open>The data\<close>

type_synonym signum = nat

definition MAX_SIGNALS :: nat where "MAX_SIGNALS = 32"

text \<open>\<open>struct remote_data\<close> and \<open>struct local_data\<close>; signal sets are sets.\<close>

record remote_data =
  org_blocked :: "signum set"
  pipe_write :: fd

record signal_data =
  pipe_read :: fd
  blocked :: "signum set"
  handled :: "signum set"
  prev_handled :: "signum set"
  victims :: "pid list"

text \<open>What a signal does: the default, or the handler of the engine with the signals that it blocks.\<close>

datatype disposition = Sig_Dfl | Signal_Handler "signum set"

text \<open>
  \<open>k_sigaction\<close> sets a disposition. \<open>k_block\<close> and \<open>k_setmask\<close> are the two uses of \<open>sigprocmask\<close>; the first
  answers with the old mask. \<open>k_pselect\<close> waits for the pipe with no signal blocked and answers with
  the signals that arrived meanwhile and have a handler, with their \<open>siginfo\<close> as bytes, and with the
  error or whether the pipe is readable.
\<close>

record 'k signal_calls = "'k os_calls" +
  k_sigaction :: "signum \<Rightarrow> disposition \<Rightarrow> 'k \<Rightarrow> 'k"
  k_block :: "signum set \<Rightarrow> 'k \<Rightarrow> signum set option \<times> 'k"
  k_setmask :: "signum set \<Rightarrow> 'k \<Rightarrow> bool \<times> 'k"
  k_pselect :: "fd \<Rightarrow> 'k \<Rightarrow> ((signum \<times> byte list) list \<times> (errno + bool)) \<times> 'k"

section \<open>Messages\<close>

text \<open>\<open>struct msock_msg_signal\<close>: four bytes of padding after the number; the \<open>siginfo\<close> has 128 bytes.\<close>

record msg_signal =
  ms_signum :: "32 word"
  ms_victim :: pid
  ms_siginfo :: "byte list"

definition sizeof_siginfo :: nat where "sizeof_siginfo = 128"
definition sizeof_msg_signal :: nat where "sizeof_msg_signal = 144"

definition encode_msg_signal :: "byte list \<Rightarrow> msg_signal \<Rightarrow> byte list" where
  "encode_msg_signal pad m = le_bytes 4 (unat (ms_signum m)) @ pad @ le_bytes 8 (unat (ms_victim m)) @ ms_siginfo m"

definition decode_msg_signal :: "byte list \<Rightarrow> msg_signal" where
  "decode_msg_signal bytes =
     \<lparr>ms_signum = of_nat (field 0 4 bytes), ms_victim = of_nat (field 8 8 bytes),
      ms_siginfo = take sizeof_siginfo (drop 16 bytes)\<rparr>"

lemma decode_encode_msg_signal:
  assumes "length pad = 4" and "length (ms_siginfo m) = sizeof_siginfo"
  shows "decode_msg_signal (encode_msg_signal pad m @ rest) = m" and "length (encode_msg_signal pad m) = sizeof_msg_signal"
proof -
  show "length (encode_msg_signal pad m) = sizeof_msg_signal"
    using assms by (simp add: encode_msg_signal_def sizeof_msg_signal_def sizeof_siginfo_def)
  have n: "le_nat (le_bytes 4 (unat (ms_signum m))) = unat (ms_signum m)" "le_nat (le_bytes 8 (unat (ms_victim m))) = unat (ms_victim m)"
    using unat_word32_less [of "ms_signum m"] unat_ulong_less [of "ms_victim m"] by (simp_all add: le_nat_le_bytes)
  show "decode_msg_signal (encode_msg_signal pad m @ rest) = m"
    using assms unfolding decode_msg_signal_def encode_msg_signal_def field_def by (simp add: n)
qed

section \<open>The handler\<close>

text \<open>
  \<open>signal_handler\<close>; \<open>None\<close> is \<open>handler_sd\<close> outside \<open>pselect\<close>. The messages are the process, and the signal
  that it is sent.
\<close>

definition signal_handler :: "signum \<Rightarrow> byte list \<Rightarrow> signal_data option \<Rightarrow> error + (signal_data \<times> (pid \<times> msg_signal) option)" where
  "signal_handler signum si handler_sd =
     (case handler_sd of
        None \<Rightarrow> Inl (Fatal ''Signal not handled correctly!'')
      | Some sd \<Rightarrow>
          if length (victims sd) \<le> signum then Inl Bad_Deref
          else if victims sd ! signum \<noteq> 0
          then Inr (sd\<lparr>victims := (victims sd)[signum := 0], handled := handled sd - {signum}\<rparr>,
                    Some (victims sd ! signum, \<lparr>ms_signum = of_nat signum, ms_victim = 0, ms_siginfo = si\<rparr>))
          else Inr (sd, None))"

fun run_handlers :: "(signum \<times> byte list) list \<Rightarrow> signal_data \<Rightarrow> error + (signal_data \<times> (pid \<times> msg_signal) list)" where
  "run_handlers [] sd = Inr (sd, [])"
| "run_handlers ((signum, si) # sigs) sd =
     rbind (signal_handler signum si (Some sd)) (\<lambda>(sd, m).
     rbind (run_handlers sigs sd) (\<lambda>(sd, out). Inr (sd, (case m of None \<Rightarrow> out | Some m \<Rightarrow> m # out))))"

section \<open>Sleeping\<close>

text \<open>The loop over the signals that installs and removes the handlers.\<close>

fun set_handlers :: "('k, 'z) signal_calls_scheme \<Rightarrow> signal_data \<Rightarrow> signum list \<Rightarrow> 'k \<Rightarrow> 'k" where
  "set_handlers K sd [] k = k"
| "set_handlers K sd (i # is) k =
     (let k = (if i \<notin> prev_handled sd \<and> i \<in> handled sd then k_sigaction K i (Signal_Handler (blocked sd)) k else k);
          k = (if i \<in> prev_handled sd \<and> i \<notin> handled sd then k_sigaction K i Sig_Dfl k else k)
      in set_handlers K sd is k)"

definition signal_process_block :: "('k, 'z) signal_calls_scheme \<Rightarrow> signal_data \<Rightarrow> 'k \<Rightarrow>
    error + (signal_data \<times> (pid \<times> msg_signal) list \<times> 'k)" where
  "signal_process_block K sd k =
     (let k = set_handlers K sd [1 ..< MAX_SIGNALS] k;
          sd = sd\<lparr>prev_handled := handled sd\<rparr>
      in case k_pselect K (pipe_read sd) k of
           ((sigs, r), k) \<Rightarrow>
             rbind (run_handlers sigs sd) (\<lambda>(sd, out).
               case r of
                 Inl e \<Rightarrow> if e \<noteq> EINTR then Inl (Fatal ''pselect()'') else Inr (sd, out, k)
               | Inr ready \<Rightarrow> Inr (sd, out, if ready then k_read K (pipe_read sd) 32 k else k)))"

section \<open>The callback\<close>

text \<open>\<open>sigaddset\<close> and \<open>sigdelset\<close> refuse a number that is not a signal; the array is not checked.\<close>

definition signal_register :: "signum \<Rightarrow> pid \<Rightarrow> signal_data \<Rightarrow> error + signal_data" where
  "signal_register i v sd =
     (if length (victims sd) \<le> i then Inl Bad_Deref
      else Inr (sd\<lparr>victims := (victims sd)[i := v], handled := (if 0 < i then insert i (handled sd) else handled sd)\<rparr>))"

definition signal_unregister :: "signum \<Rightarrow> signal_data \<Rightarrow> error + signal_data" where
  "signal_unregister i sd =
     (if length (victims sd) \<le> i then Inl Bad_Deref
      else Inr (sd\<lparr>victims := (victims sd)[i := 0], handled := handled sd - {i}\<rparr>))"

definition signal_data_free :: "('k, 'z) signal_calls_scheme \<Rightarrow> signal_data \<Rightarrow> 'k \<Rightarrow> 'k" where
  "signal_data_free K sd k =
     fold (\<lambda>i k. if i \<in> handled sd then k_sigaction K i Sig_Dfl k else k) [1 ..< MAX_SIGNALS] (k_close K (pipe_read sd) k)"

definition signal_process_callback :: "('k, 'z) signal_calls_scheme \<Rightarrow> msg_type \<Rightarrow> byte list \<Rightarrow> signal_data \<Rightarrow> 'k \<Rightarrow>
    error + (recv \<times> signal_data option \<times> (pid \<times> msg_signal) list \<times> 'k)" where
  "signal_process_callback K ty payload sd k =
     (let msg = decode_msg_signal payload; i = unat (ms_signum msg) in
      if ty = MSG_SIGNAL_REGISTER
      then rbind (signal_register i (ms_victim msg) sd) (\<lambda>sd. Inr (RECV_OK, Some sd, [], k))
      else if ty = MSG_SIGNAL_UNREGISTER
      then rbind (signal_unregister i sd) (\<lambda>sd. Inr (RECV_OK, Some sd, [], k))
      else if ty = MSG_EXIT then Inr (RECV_EXIT, None, [], signal_data_free K sd k)
      else if ty = MSG_QUEUE_EMPTY
      then rbind (signal_process_block K sd k) (\<lambda>(sd, out, k). Inr (RECV_OK, Some sd, out, k))
      else Inl (Fatal ''Broken message''))"

fun send_signals :: "byte list \<Rightarrow> (pid \<times> msg_signal) list \<Rightarrow> ('c, 'd, 'u) act \<Rightarrow> ('c, 'd, 'u) act" where
  "send_signals pad [] a = a"
| "send_signals pad ((v, m) # out) a =
     Send v MSG_SIGNAL (encode_msg_signal pad m) (of_nat sizeof_msg_signal) (send_signals pad out a)"

definition signal_act :: "('u, 'z) signal_calls_scheme \<Rightarrow> ('u \<Rightarrow> signal_data option) \<Rightarrow> (signal_data option \<Rightarrow> 'u \<Rightarrow> 'u) \<Rightarrow>
    msg_type \<Rightarrow> byte list \<Rightarrow> ('c, 'd, 'u) act" where
  "signal_act K get put ty payload =
     World (\<lambda>u. case rbind (need (get u)) (\<lambda>sd. signal_process_callback K ty payload sd u) of
                  Inl e \<Rightarrow> (u, Fail e)
                | Inr (r, sd, out, u) \<Rightarrow> (put sd u, send_signals (k_pad K) out (Return r)))"

section \<open>The constructor and the destructor\<close>

text \<open>\<open>full\<close> is what \<open>sigfillset\<close> fills in; SIGKILL, SIGSTOP, SIGBUS, SIGFPE, SIGILL, SIGSEGV, SIGABRT and 64 are not blocked.\<close>

definition unblockable :: "signum set" where
  "unblockable = {9, 19, 7, 8, 4, 11, 6, 64}"

definition signal_data_new :: "('k, 'z) signal_calls_scheme \<Rightarrow> signum set \<Rightarrow> 'k \<Rightarrow> error + (signal_data \<times> remote_data \<times> 'k)" where
  "signal_data_new K full k =
     rbind (case k_pipe K k of (None, k) \<Rightarrow> Inl (Fatal ''pipe()'') | (Some ends, k) \<Rightarrow> Inr (ends, k)) (\<lambda>((r, w), k).
     rbind (set_nonblocking K r k) (\<lambda>k.
     rbind (set_nonblocking K w k) (\<lambda>k.
     rbind (case k_block K (full - unblockable) k of
              (None, k) \<Rightarrow> Inl (Fatal ''sigprocmask(SIG_BLOCK, *)'')
            | (Some old, k) \<Rightarrow> Inr (old, k)) (\<lambda>(old, k).
       Inr (\<lparr>pipe_read = r, blocked = full - unblockable, handled = {}, prev_handled = {}, victims = replicate MAX_SIGNALS 0\<rparr>,
            \<lparr>org_blocked = old, pipe_write = w\<rparr>, k)))))"

definition signal_constructor :: "('d, 'u) surroundings \<Rightarrow> ('u, 'z) signal_calls_scheme \<Rightarrow> signum set \<Rightarrow> nat \<Rightarrow> (remote_data \<Rightarrow> 'd) \<Rightarrow>
    'c \<Rightarrow> 'd \<Rightarrow> (signal_data \<Rightarrow> 'u \<Rightarrow> 'u) \<Rightarrow> ('c, 'd, 'u) base \<Rightarrow> error + ('c, 'd, 'u) base" where
  "signal_constructor s K full prot remote cb data put b =
     rbind (signal_data_new K full (world b)) (\<lambda>(sd, rd, k).
     rbind (start_engine s prot (Some (remote rd)) cb (Some data) PID_SIGNAL (b\<lparr>world := k\<rparr>)) (\<lambda>(pid, b).
       Inr (b\<lparr>world := put sd (world b)\<rparr>)))"

definition signal_destructor :: "('k, 'z) signal_calls_scheme \<Rightarrow> remote_data \<Rightarrow> 'k \<Rightarrow> error + 'k" where
  "signal_destructor K rd k =
     (case k_setmask K (org_blocked rd) k of
        (ok, k) \<Rightarrow> if ok then Inr (k_close K (pipe_write rd) k) else Inl (Fatal ''sigprocmask(SIG_SETMASK, old_mask)''))"

section \<open>Requests\<close>

text \<open>\<open>junk\<close> is what the message on the stack holds where the requests leave it unset.\<close>

definition msock_send_msg_signal :: "('d, 'u) surroundings \<Rightarrow> byte list \<Rightarrow> byte list \<Rightarrow> msg_type \<Rightarrow> 32 word \<Rightarrow>
    ('c, 'd, 'u) base \<Rightarrow> error + ('c, 'd, 'u) base" where
  "msock_send_msg_signal s pad junk ty signum b =
     rbind (msock_self b) (\<lambda>v.
       msock_send s PID_SIGNAL ty (encode_msg_signal pad \<lparr>ms_signum = signum, ms_victim = v, ms_siginfo = junk\<rparr>)
         (of_nat sizeof_msg_signal) b)"

definition msock_base_send_msg_signal :: "('d, 'u) surroundings \<Rightarrow> byte list \<Rightarrow> byte list \<Rightarrow> pid \<Rightarrow> msg_type \<Rightarrow> 32 word \<Rightarrow>
    ('c, 'd, 'u) base \<Rightarrow> error + ('c, 'd, 'u) base" where
  "msock_base_send_msg_signal s pad junk v ty signum b =
     msock_base_send s PID_SIGNAL ty (encode_msg_signal pad \<lparr>ms_signum = signum, ms_victim = v, ms_siginfo = junk\<rparr>)
       (of_nat sizeof_msg_signal) b"

section \<open>The invariant\<close>

text \<open>The handled signals are those with a process to send them to.\<close>

definition signal_inv :: "signal_data \<Rightarrow> bool" where
  "signal_inv sd \<longleftrightarrow> length (victims sd) = MAX_SIGNALS \<and>
     (\<forall>i. i \<in> handled sd \<longleftrightarrow> 0 < i \<and> i < MAX_SIGNALS \<and> victims sd ! i \<noteq> 0)"

lemma signal_new_inv: "signal_data_new K full k = Inr (sd, rd, k') \<Longrightarrow> signal_inv sd"
  by (auto simp: signal_data_new_def signal_inv_def)

lemma signal_register_inv:
  assumes "signal_inv sd" and "v \<noteq> 0" and "signal_register i v sd = Inr sd'"
  shows "signal_inv sd'"
proof -
  have l: "i < length (victims sd)" and e: "sd' = sd\<lparr>victims := (victims sd)[i := v], handled := (if 0 < i then insert i (handled sd) else handled sd)\<rparr>"
    using assms(3) by (auto simp: signal_register_def split: if_splits)
  have "j \<in> handled sd' \<longleftrightarrow> 0 < j \<and> j < MAX_SIGNALS \<and> victims sd' ! j \<noteq> 0" for j
    using assms(1,2) l by (cases "j = i") (auto simp: e signal_inv_def)
  then show ?thesis using assms(1) by (simp add: signal_inv_def e)
qed

lemma signal_unregister_inv:
  assumes "signal_inv sd" and "signal_unregister i sd = Inr sd'"
  shows "signal_inv sd'"
proof -
  have l: "i < length (victims sd)" and e: "sd' = sd\<lparr>victims := (victims sd)[i := 0], handled := handled sd - {i}\<rparr>"
    using assms(2) by (auto simp: signal_unregister_def split: if_splits)
  have "j \<in> handled sd' \<longleftrightarrow> 0 < j \<and> j < MAX_SIGNALS \<and> victims sd' ! j \<noteq> 0" for j
    using assms(1) l by (cases "j = i") (auto simp: e signal_inv_def)
  then show ?thesis using assms(1) by (simp add: signal_inv_def e)
qed

text \<open>What \<open>sigaction\<close> promises, but for SIGKILL and SIGSTOP: \<open>disp k i\<close> is the disposition of the signal.\<close>

definition catchable :: "signum set" where
  "catchable = {1 ..< MAX_SIGNALS} - {9, 19}"

definition sigaction_law :: "('k, 'z) signal_calls_scheme \<Rightarrow> ('k \<Rightarrow> signum \<Rightarrow> disposition) \<Rightarrow> bool" where
  "sigaction_law K disp \<longleftrightarrow>
     (\<forall>i d k. disp (k_sigaction K i d k) = (if i \<in> catchable then (disp k)(i := d) else disp k))"

lemma set_handlers_spec:
  assumes "sigaction_law K disp" and "distinct is"
  shows "disp (set_handlers K sd is k) i =
    (if i \<in> set is \<inter> catchable \<and> i \<in> handled sd - prev_handled sd then Signal_Handler (blocked sd)
     else if i \<in> set is \<inter> catchable \<and> i \<in> prev_handled sd - handled sd then Sig_Dfl else disp k i)"
  using assms(2)
proof (induction "is" arbitrary: k)
  case (Cons j js)
  have law: "disp (k_sigaction K j d k) = (if j \<in> catchable then (disp k)(j := d) else disp k)" for d k
    using assms(1) by (simp add: sigaction_law_def)
  show ?case using Cons by (auto simp: Let_def law)
qed simp

lemma run_handlers_spec:
  assumes "signal_inv sd" and "\<forall>(i, si) \<in> set sigs. i < MAX_SIGNALS"
  shows "\<exists>sd' out. run_handlers sigs sd = Inr (sd', out) \<and> signal_inv sd' \<and>
    prev_handled sd' = prev_handled sd \<and> pipe_read sd' = pipe_read sd \<and> blocked sd' = blocked sd \<and>
    (\<forall>i < MAX_SIGNALS. victims sd' ! i = (if i \<in> fst ` set sigs then 0 else victims sd ! i)) \<and>
    (\<forall>(v, m) \<in> set out. \<exists>(i, si) \<in> set sigs. v = victims sd ! i \<and> m = \<lparr>ms_signum = of_nat i, ms_victim = 0, ms_siginfo = si\<rparr>) \<and>
    (\<forall>i < MAX_SIGNALS. length (filter (\<lambda>(v, m). ms_signum m = of_nat i) out) =
       (if i \<in> fst ` set sigs \<and> victims sd ! i \<noteq> 0 then 1 else 0))"
  using assms
proof (induction sigs arbitrary: sd)
  case (Cons sig sigs)
  obtain j si where sig: "sig = (j, si)" by fastforce
  have j: "j < MAX_SIGNALS" and l: "length (victims sd) = MAX_SIGNALS" using Cons.prems by (simp_all add: sig signal_inv_def)
  have inj: "(of_nat i :: 32 word) = of_nat j \<longleftrightarrow> i = j" if "i < MAX_SIGNALS" for i
  proof
    assume "(of_nat i :: 32 word) = of_nat j"
    then have "unat (of_nat i :: 32 word) = unat (of_nat j :: 32 word)" by simp
    then show "i = j" using that j by (simp add: unsigned_of_nat take_bit_nat_eq_self MAX_SIGNALS_def)
  qed simp
  let ?sd = "sd\<lparr>victims := (victims sd)[j := 0], handled := handled sd - {j}\<rparr>"
  let ?m = "\<lparr>ms_signum = of_nat j, ms_victim = 0, ms_siginfo = si\<rparr>"
  have rest: "\<forall>(i, si) \<in> set sigs. i < MAX_SIGNALS" using Cons.prems(2) by simp
  show ?case
  proof (cases "victims sd ! j = 0")
    case True
    have h: "signal_handler j si (Some sd) = Inr (sd, None)" using True j l by (simp add: signal_handler_def)
    from Cons.IH [OF Cons.prems(1) rest] obtain sd' out where r: "run_handlers sigs sd = Inr (sd', out)" "signal_inv sd'"
      "prev_handled sd' = prev_handled sd" "pipe_read sd' = pipe_read sd" "blocked sd' = blocked sd"
      "\<forall>i < MAX_SIGNALS. victims sd' ! i = (if i \<in> fst ` set sigs then 0 else victims sd ! i)"
      "\<forall>(v, m) \<in> set out. \<exists>(i, si) \<in> set sigs. v = victims sd ! i \<and> m = \<lparr>ms_signum = of_nat i, ms_victim = 0, ms_siginfo = si\<rparr>"
      "\<forall>i < MAX_SIGNALS. length (filter (\<lambda>(v, m). ms_signum m = of_nat i) out) = (if i \<in> fst ` set sigs \<and> victims sd ! i \<noteq> 0 then 1 else 0)"
      by blast
    have "run_handlers (sig # sigs) sd = Inr (sd', out)" by (simp add: sig h r(1))
    moreover have "victims sd' ! i = (if i \<in> fst ` set (sig # sigs) then 0 else victims sd ! i)" if "i < MAX_SIGNALS" for i
      using r(6) that True by (auto simp: sig)
    ultimately show ?thesis using r True by (intro exI [of _ sd'] exI [of _ out]) (auto simp: sig)
  next
    case False
    have h: "signal_handler j si (Some sd) = Inr (?sd, Some (victims sd ! j, ?m))" using False j l by (simp add: signal_handler_def)
    have "signal_inv ?sd" using Cons.prems(1) j by (auto simp: signal_inv_def nth_list_update)
    from Cons.IH [OF this rest] obtain sd' out where r: "run_handlers sigs ?sd = Inr (sd', out)" "signal_inv sd'"
      "prev_handled sd' = prev_handled sd" "pipe_read sd' = pipe_read sd" "blocked sd' = blocked sd"
      "\<forall>i < MAX_SIGNALS. victims sd' ! i = (if i \<in> fst ` set sigs then 0 else victims ?sd ! i)"
      "\<forall>(v, m) \<in> set out. \<exists>(i, si) \<in> set sigs. v = victims ?sd ! i \<and> m = \<lparr>ms_signum = of_nat i, ms_victim = 0, ms_siginfo = si\<rparr>"
      "\<forall>i < MAX_SIGNALS. length (filter (\<lambda>(v, m). ms_signum m = of_nat i) out) = (if i \<in> fst ` set sigs \<and> victims ?sd ! i \<noteq> 0 then 1 else 0)"
      by auto
    have e: "run_handlers (sig # sigs) sd = Inr (sd', (victims sd ! j, ?m) # out)" by (simp add: sig h r(1))
    have v: "victims sd' ! i = (if i \<in> fst ` set (sig # sigs) then 0 else victims sd ! i)" if "i < MAX_SIGNALS" for i
      using r(6) that j l by (auto simp: sig nth_list_update)
    have n: "length (filter (\<lambda>(v, m). ms_signum m = of_nat i) ((victims sd ! j, ?m) # out)) =
        (if i \<in> fst ` set (sig # sigs) \<and> victims sd ! i \<noteq> 0 then 1 else 0)" if i: "i < MAX_SIGNALS" for i
      using r(8) i j l False inj [OF i] by (cases "i = j") (auto simp: sig)
    have z: "victims ?sd ! i \<noteq> 0 \<Longrightarrow> i < MAX_SIGNALS \<Longrightarrow> victims ?sd ! i = victims sd ! i" for i
      using j l by (cases "i = j") auto
    have m: "\<exists>(i, si) \<in> set (sig # sigs). v = victims sd ! i \<and> x = \<lparr>ms_signum = of_nat i, ms_victim = 0, ms_siginfo = si\<rparr>"
      if "(v, x) \<in> set ((victims sd ! j, ?m) # out)" for v x
    proof (cases "(v, x) = (victims sd ! j, ?m)")
      case True
      then show ?thesis by (auto simp: sig)
    next
      case other: False
      then have "(v, x) \<in> set out" using that by auto
      then obtain i s where i: "(i, s) \<in> set sigs" "v = victims ?sd ! i" "x = \<lparr>ms_signum = of_nat i, ms_victim = 0, ms_siginfo = s\<rparr>"
        using r(7) by fastforce
      have "i < MAX_SIGNALS" using rest i(1) by auto
      have "length (filter (\<lambda>(v, m). ms_signum m = of_nat i) out) \<noteq> 0"
        using \<open>(v, x) \<in> set out\<close> i(3) by (auto simp: filter_empty_conv intro!: bexI [of _ "(v, x)"])
      then have "victims ?sd ! i \<noteq> 0" using r(8) \<open>i < MAX_SIGNALS\<close> by (metis (no_types, lifting))
      then show ?thesis using z i \<open>i < MAX_SIGNALS\<close> by (intro bexI [of _ "(i, s)"]) auto
    qed
    have "\<forall>(v, x) \<in> set ((victims sd ! j, ?m) # out). \<exists>(i, si) \<in> set (sig # sigs).
        v = victims sd ! i \<and> x = \<lparr>ms_signum = of_nat i, ms_victim = 0, ms_siginfo = si\<rparr>"
      by (intro ballI, split prod.split, intro allI impI) (use m in blast)
    then show ?thesis using e r(2-5) v n by blast
  qed
qed simp

section \<open>Properties\<close>

text \<open>The dispositions agree with what the engine has handlers for.\<close>

definition disp_agrees :: "('k \<Rightarrow> signum \<Rightarrow> disposition) \<Rightarrow> 'k \<Rightarrow> signal_data \<Rightarrow> signum set \<Rightarrow> bool" where
  "disp_agrees disp k sd S \<longleftrightarrow> (\<forall>i \<in> catchable. disp k i = (if i \<in> S then Signal_Handler (blocked sd) else Sig_Dfl))"

lemma set_handlers_agree:
  assumes "sigaction_law K disp" and "disp_agrees disp k sd (prev_handled sd)"
  shows "disp_agrees disp (set_handlers K sd [1 ..< MAX_SIGNALS] k) sd (handled sd)"
proof -
  have "catchable \<subseteq> set [1 ..< MAX_SIGNALS]" by (auto simp: catchable_def)
  then show ?thesis
    using assms(2) set_handlers_spec [OF assms(1), of "[1 ..< MAX_SIGNALS]" sd k]
    unfolding disp_agrees_def by auto
qed

text \<open>
  C37: While the engine sleeps exactly the signals that some process has registered have the engine's
  handler, and every other one that can be caught its default. Each signal that arrives is sent, with
  its data, to the process that registered it, and exactly once however often it arrives; then it is
  no longer registered, and the others are. The invariant holds: a signal is handled when and only
  when there is a process to send it to.
\<close>

theorem signals_sent_once:
  assumes inv: "signal_inv sd" and law: "sigaction_law K disp" and disp: "disp_agrees disp k sd (prev_handled sd)"
    and k1: "k1 = set_handlers K sd [1 ..< MAX_SIGNALS] k"
    and wait: "k_pselect K (pipe_read sd) k1 = ((sigs, r), k2)" "r = Inl EINTR \<or> r = Inr ready"
    and sigs: "\<forall>(i, si) \<in> set sigs. i < MAX_SIGNALS"
  shows "disp_agrees disp k1 sd (handled sd) \<and>
    (\<exists>sd' out k'. signal_process_block K sd k = Inr (sd', out, k') \<and> signal_inv sd' \<and> prev_handled sd' = handled sd \<and>
      (\<forall>i < MAX_SIGNALS. victims sd' ! i = (if i \<in> fst ` set sigs then 0 else victims sd ! i)) \<and>
      (\<forall>(v, m) \<in> set out. \<exists>(i, si) \<in> set sigs. v = victims sd ! i \<and> m = \<lparr>ms_signum = of_nat i, ms_victim = 0, ms_siginfo = si\<rparr>) \<and>
      (\<forall>i < MAX_SIGNALS. length (filter (\<lambda>(v, m). ms_signum m = of_nat i) out) =
         (if i \<in> fst ` set sigs \<and> victims sd ! i \<noteq> 0 then 1 else 0)))"
proof -
  let ?sd = "sd\<lparr>prev_handled := handled sd\<rparr>"
  have "signal_inv ?sd" using inv by (simp add: signal_inv_def)
  from run_handlers_spec [OF this sigs] obtain sd' out where h: "run_handlers sigs ?sd = Inr (sd', out)" "signal_inv sd'"
      "prev_handled sd' = handled sd" "\<forall>i < MAX_SIGNALS. victims sd' ! i = (if i \<in> fst ` set sigs then 0 else victims sd ! i)"
      "\<forall>(v, m) \<in> set out. \<exists>(i, si) \<in> set sigs. v = victims sd ! i \<and> m = \<lparr>ms_signum = of_nat i, ms_victim = 0, ms_siginfo = si\<rparr>"
      "\<forall>i < MAX_SIGNALS. length (filter (\<lambda>(v, m). ms_signum m = of_nat i) out) = (if i \<in> fst ` set sigs \<and> victims sd ! i \<noteq> 0 then 1 else 0)"
    by auto
  obtain k' where "signal_process_block K sd k = Inr (sd', out, k')"
    using wait h(1) unfolding signal_process_block_def Let_def k1 by auto
  then show ?thesis using h(2-6) set_handlers_agree [OF law disp] unfolding k1 by blast
qed

text \<open>
  When the program ends the engine right after a signal was sent, it leaves its handler installed:
  sending the signal has taken it out of the set \<open>handled\<close>, and the engine resets only the signals of
  that set. When the signal arrives again, after the original mask was restored, the handler finds
  no engine and ends the program.
\<close>

theorem signal_exit_leaves_handler:
  assumes inv: "signal_inv sd" and law: "sigaction_law K disp" and disp: "disp_agrees disp k sd (prev_handled sd)"
    and i: "i \<in> handled sd \<inter> catchable" and k1: "k1 = set_handlers K sd [1 ..< MAX_SIGNALS] k"
    and wait: "k_pselect K (pipe_read sd) k1 = (([(i, si)], Inl EINTR), k2)"
    and frame: "disp k2 = disp k1" "\<And>fd k. disp (k_close K fd k) = disp k"
  shows "\<exists>sd' m k3. signal_process_block K sd k = Inr (sd', [m], k2) \<and>
    signal_process_callback K MSG_EXIT [] sd' k2 = Inr (RECV_EXIT, None, [], k3) \<and>
    disp k3 i = Signal_Handler (blocked sd) \<and>
    signal_handler i si2 None = Inl (Fatal ''Signal not handled correctly!'')"
proof -
  have iv: "i < MAX_SIGNALS" "victims sd ! i \<noteq> 0" "length (victims sd) = MAX_SIGNALS" using inv i by (auto simp: signal_inv_def)
  let ?sd = "sd\<lparr>prev_handled := handled sd, victims := (victims sd)[i := 0], handled := handled sd - {i}\<rparr>"
  have p: "signal_process_block K sd k =
      Inr (?sd, [(victims sd ! i, \<lparr>ms_signum = of_nat i, ms_victim = 0, ms_siginfo = si\<rparr>)], k2)"
    using wait iv unfolding signal_process_block_def Let_def k1 by (simp add: signal_handler_def)
  have d1: "disp k1 i = Signal_Handler (blocked sd)"
    using set_handlers_agree [OF law disp] i unfolding k1 disp_agrees_def by auto
  have free: "disp (fold (\<lambda>j k. if j \<in> handled ?sd then k_sigaction K j Sig_Dfl k else k) js k) i = disp k i" for js k
    using law by (induction js arbitrary: k) (auto simp: sigaction_law_def)
  have "disp (signal_data_free K ?sd k2) i = Signal_Handler (blocked sd)"
    unfolding signal_data_free_def free frame by (simp add: d1)
  moreover have "signal_process_callback K MSG_EXIT [] ?sd k2 = Inr (RECV_EXIT, None, [], signal_data_free K ?sd k2)"
    by (simp add: signal_process_callback_def Let_def MSG_EXIT_def MSG_SIGNAL_REGISTER_def MSG_SIGNAL_UNREGISTER_def)
  ultimately show ?thesis using p by (simp add: signal_handler_def)
qed

section \<open>Examples\<close>

text \<open>A system that is its dispositions, and in which signal 2 arrives twice whenever it has a handler.\<close>

definition example_signal :: "(signum \<Rightarrow> disposition) signal_calls" where
  "example_signal =
     \<lparr>k_pipe = (\<lambda>k. (Some (3, 4), k)), k_getfl = (\<lambda>fd k. 0), k_setfl = (\<lambda>fd fl k. (True, k)),
      k_read = (\<lambda>fd n k. k), k_write = (\<lambda>fd c k. k), k_close = (\<lambda>fd k. k), k_clock = (\<lambda>k. (None, k)),
      k_junk = 0, k_pad = [0, 0, 0, 0],
      k_sigaction = (\<lambda>i d k. if i \<in> catchable then k(i := d) else k), k_block = (\<lambda>s k. (Some {}, k)),
      k_setmask = (\<lambda>s k. (True, k)),
      k_pselect = (\<lambda>fd k. ((if k 2 = Sig_Dfl then [] else if fd = 3 then [(2, [7]), (2, [8])] else [(2, [7])], Inl EINTR), k))\<rparr>"

definition example_signal_data :: "fd \<Rightarrow> signal_data" where
  "example_signal_data fd = \<lparr>pipe_read = fd, blocked = {2, 15}, handled = {2}, prev_handled = {}, victims = (replicate MAX_SIGNALS 0)[2 := 77]\<rparr>"

lemma example_signal_inv: "signal_inv (example_signal_data fd)"
  by (auto simp: signal_inv_def example_signal_data_def MAX_SIGNALS_def nth_list_update)

lemma example_sigaction_law: "sigaction_law example_signal (\<lambda>k. k)"
  by (simp add: sigaction_law_def example_signal_def)

lemma example_disp: "disp_agrees (\<lambda>k. k) (\<lambda>_. Sig_Dfl) (example_signal_data fd) (prev_handled (example_signal_data fd))"
  by (simp add: disp_agrees_def example_signal_data_def)

lemma example_set_handlers:
  "set_handlers example_signal (example_signal_data fd) [1 ..< MAX_SIGNALS] (\<lambda>_. Sig_Dfl) 2 = Signal_Handler {2, 15}"
proof -
  have c: "2 \<in> catchable" by (simp add: catchable_def MAX_SIGNALS_def)
  note a = set_handlers_agree [OF example_sigaction_law example_disp, of fd, unfolded disp_agrees_def, THEN bspec, OF c]
  have "handled (example_signal_data fd) = {2}" "blocked (example_signal_data fd) = {2, 15}" by (simp_all add: example_signal_data_def)
  with a show ?thesis by (simp only: insertI1 if_True)
qed

theorem signals_sent_once_witness:
  "\<exists>sd' out k'. signal_process_block example_signal (example_signal_data 3) (\<lambda>_. Sig_Dfl) = Inr (sd', out, k') \<and>
     length (filter (\<lambda>(v, m). ms_signum m = 2) out) = 1 \<and> victims sd' ! 2 = 0"
proof -
  let ?sd = "example_signal_data 3"
  let ?k1 = "set_handlers example_signal ?sd [1 ..< MAX_SIGNALS] (\<lambda>_. Sig_Dfl)"
  have p: "pipe_read ?sd = 3" by (simp add: example_signal_data_def)
  have wait: "k_pselect example_signal (pipe_read ?sd) ?k1 = (([(2, [7]), (2, [8])], Inl EINTR), ?k1)"
    unfolding p using example_set_handlers [of 3] by (simp add: example_signal_def)
  have lt: "2 < MAX_SIGNALS" by (simp add: MAX_SIGNALS_def)
  have v: "victims ?sd ! 2 \<noteq> 0" by (simp add: example_signal_data_def MAX_SIGNALS_def)
  obtain sd' out k' where "signal_process_block example_signal ?sd (\<lambda>_. Sig_Dfl) = Inr (sd', out, k')"
    and a: "\<forall>i < MAX_SIGNALS. victims sd' ! i = (if i \<in> fst ` set [(2, [7 :: byte]), (2, [8])] then 0 else victims ?sd ! i)"
    and b: "\<forall>i < MAX_SIGNALS. length (filter (\<lambda>(v, m). ms_signum m = of_nat i) out) =
         (if i \<in> fst ` set [(2, [7 :: byte]), (2, [8])] \<and> victims ?sd ! i \<noteq> 0 then 1 else 0)"
    using signals_sent_once [OF example_signal_inv example_sigaction_law example_disp refl wait disjI1 [OF refl]] lt by auto
  then show ?thesis using a [rule_format, OF lt] b [rule_format, OF lt] v by (intro exI [of _ sd'] exI [of _ out] exI [of _ k']) simp
qed

theorem signal_exit_leaves_handler_witness:
  "\<exists>sd' m k2 k3. signal_process_block example_signal (example_signal_data 5) (\<lambda>_. Sig_Dfl) = Inr (sd', [m], k2) \<and>
     signal_process_callback example_signal MSG_EXIT [] sd' k2 = Inr (RECV_EXIT, None, [], k3) \<and> k3 2 = Signal_Handler {2, 15}"
proof -
  let ?sd = "example_signal_data 5"
  let ?k1 = "set_handlers example_signal ?sd [1 ..< MAX_SIGNALS] (\<lambda>_. Sig_Dfl)"
  have p: "pipe_read ?sd = 5" "blocked ?sd = {2, 15}" by (simp_all add: example_signal_data_def)
  have wait: "k_pselect example_signal (pipe_read ?sd) ?k1 = (([(2, [7])], Inl EINTR), ?k1)"
    unfolding p using example_set_handlers [of 5] by (simp add: example_signal_def)
  have i: "2 \<in> handled ?sd \<inter> catchable" by (simp add: example_signal_data_def catchable_def MAX_SIGNALS_def)
  have f: "k_close example_signal fd k = k" for fd k by (simp add: example_signal_def)
  show ?thesis
    using signal_exit_leaves_handler [where disp = "\<lambda>k. k", OF example_signal_inv example_sigaction_law example_disp i refl wait refl f] unfolding p by blast
qed

end
