(* ===== verification/Echosrv.thy ===== *)
theory Echosrv
  imports Outside Network Engine_Signal
begin

unbundle bit_operations_syntax

text \<open>
  The echo server \<open>src/echosrv.c\<close>, a program that uses the whole library: its callbacks and
  constructors as trees of calls, its memory and the system as the state outside the library. What
  is shown is that the bytes of every connection come back in order, none lost and none made up, in
  any run of the library, and that no buffer overflows.
\<close>

section \<open>Its data\<close>

text \<open>
  The fields of a client are ints; they stay between 0 and the size of the buffer, so nothing wraps
  around. A descriptor is negative when \<open>net_accept\<close> failed.
\<close>

record client_data =
  ud_fd :: int
  buf_sz :: int
  buf_len :: int
  buf_pos :: int
  buf :: "byte list"

definition sizeof_buf :: nat where "sizeof_buf = 1024 * 1024"

text \<open>The state outside: the clients and the servers in allocated memory, and the system.\<close>

record 'k echo_world =
  clients :: "nat \<Rightarrow> client_data option"
  servers :: "nat \<Rightarrow> int option"
  sys :: 'k

datatype printf_arg = Arg_Int int | Arg_Str string | Arg_Ulong ulong

text \<open>
  \<open>e_read\<close> answers with what was read, \<open>None\<close> is the result -1; \<open>e_malloc\<close> answers with an address or
  NULL; \<open>e_junk\<close> is what a new buffer holds, \<open>e_pad\<close> and \<open>e_siginfo\<close> what is on the stack where the requests
  leave fields unset; \<open>e_now\<close> reads \<open>msock_now_msecs\<close>.
\<close>

record 'k echo_calls = "'k net_calls" +
  e_read :: "int \<Rightarrow> nat \<Rightarrow> 'k \<Rightarrow> byte list option \<times> 'k"
  e_write :: "int \<Rightarrow> byte list \<Rightarrow> 'k \<Rightarrow> int \<times> 'k"
  e_malloc :: "'k \<Rightarrow> nat option \<times> 'k"
  e_free :: "nat \<Rightarrow> 'k \<Rightarrow> 'k"
  e_printf :: "string \<Rightarrow> printf_arg list \<Rightarrow> 'k \<Rightarrow> 'k"
  e_junk :: "byte list"
  e_pad :: "byte list"
  e_siginfo :: "byte list"
  e_now :: "'k \<Rightarrow> ulong"

text \<open>The callbacks and the constructors, and those of the engines.\<close>

datatype 'e echo_name =
    Client_Read_Cb
  | Client_Write_Cb
  | Server_Read_Cb
  | Handle_Quit_Cb
  | Handle_Info_Cb
  | Client_Read
  | Server_Read
  | Handle_Quit
  | Handle_Info
  | Engine 'e

definition SIGHUP :: "32 word" where "SIGHUP = 1"
definition SIGINT :: "32 word" where "SIGINT = 2"
definition SIGUSR1 :: "32 word" where "SIGUSR1 = 10"
definition SIGUSR2 :: "32 word" where "SIGUSR2 = 12"
definition SIGALRM :: "32 word" where "SIGALRM = 14"

section \<open>Steps of a callback\<close>

text \<open>What follows a pointer: NULL and freed memory are bad dereferences.\<close>

definition deref :: "nat option \<Rightarrow> (nat \<Rightarrow> ('c, nat, 'u) act) \<Rightarrow> ('c, nat, 'u) act" where
  "deref data f = (case data of None \<Rightarrow> Fail Bad_Deref | Some p \<Rightarrow> f p)"

definition with_client :: "nat \<Rightarrow> (client_data \<Rightarrow> 'k echo_world \<Rightarrow> 'k echo_world \<times> ('c, nat, 'k echo_world) act) \<Rightarrow>
    ('c, nat, 'k echo_world) act" where
  "with_client p f = World (\<lambda>w. case clients w p of None \<Rightarrow> (w, Fail Bad_Deref) | Some ud \<Rightarrow> f ud w)"

definition with_server :: "nat \<Rightarrow> (int \<Rightarrow> 'k echo_world \<Rightarrow> 'k echo_world \<times> ('c, nat, 'k echo_world) act) \<Rightarrow>
    ('c, nat, 'k echo_world) act" where
  "with_server q f = World (\<lambda>w. case servers w q of None \<Rightarrow> (w, Fail Bad_Deref) | Some fd \<Rightarrow> f fd w)"

definition printf :: "('k, 'z) echo_calls_scheme \<Rightarrow> string \<Rightarrow> printf_arg list \<Rightarrow> 'k echo_world \<Rightarrow> 'k echo_world" where
  "printf K fmt args w = w\<lparr>sys := e_printf K fmt args (sys w)\<rparr>"

text \<open>\<open>msock_send_msg_fd\<close> and \<open>msock_send_msg_signal\<close>, as calls made by a callback.\<close>

definition send_msg_fd :: "('k, 'z) echo_calls_scheme \<Rightarrow> msg_type \<Rightarrow> int \<Rightarrow> ulong \<Rightarrow>
    ('c, nat, 'k echo_world) act \<Rightarrow> ('c, nat, 'k echo_world) act" where
  "send_msg_fd K ty fd timeout_msecs k =
     Self (\<lambda>pid. World (\<lambda>w. (w,
       Send PID_SELECT ty (encode_msg_fd (e_pad K) (fd_request (e_now K (sys w)) pid (word_of_int fd) timeout_msecs))
         (of_nat sizeof_msg_fd) k)))"

definition send_msg_signal :: "('k, 'z) echo_calls_scheme \<Rightarrow> msg_type \<Rightarrow> 32 word \<Rightarrow>
    ('c, nat, 'k echo_world) act \<Rightarrow> ('c, nat, 'k echo_world) act" where
  "send_msg_signal K ty signum k =
     Self (\<lambda>pid. Send PID_SIGNAL ty
       (encode_msg_signal (e_pad K) \<lparr>ms_signum = signum, ms_victim = pid, ms_siginfo = e_siginfo K\<rparr>) (of_nat sizeof_msg_signal) k)"

section \<open>The client\<close>

definition echo_min :: "int \<Rightarrow> int \<Rightarrow> int" where
  "echo_min a b = (if a \<le> b then a else b)"

text \<open>An int as the count of bytes of \<open>read\<close> and \<open>write\<close>, a \<open>size_t\<close>.\<close>

definition byte_count :: "int \<Rightarrow> nat" where
  "byte_count n = unat (word_of_int n :: ulong)"

text \<open>The \<open>read\<close> into the buffer and the \<open>write\<close> from it; bytes outside the buffer are a bad dereference.\<close>

definition client_fill :: "('k, 'z) echo_calls_scheme \<Rightarrow> client_data \<Rightarrow> 'k \<Rightarrow> error + (int \<times> client_data \<times> 'k)" where
  "client_fill K ud k =
     (case e_read K (ud_fd ud) (byte_count (echo_min (64 * 1024) (buf_sz ud - buf_len ud))) k of
        (None, k) \<Rightarrow> Inr (- 1, ud, k)
      | (Some bytes, k) \<Rightarrow>
          if buf_len ud < 0 \<or> int (length (buf ud)) < buf_len ud + int (length bytes) then Inl Bad_Deref
          else let n = nat (buf_len ud)
            in Inr (int (length bytes), ud\<lparr>buf := take n (buf ud) @ bytes @ drop (n + length bytes) (buf ud)\<rparr>, k))"

definition client_drain :: "('k, 'z) echo_calls_scheme \<Rightarrow> client_data \<Rightarrow> 'k \<Rightarrow> error + (int \<times> 'k)" where
  "client_drain K ud k =
     (let n = byte_count (echo_min (64 * 1024) (buf_len ud - buf_pos ud))
      in if buf_pos ud < 0 \<or> int (length (buf ud)) < buf_pos ud + int n then Inl Bad_Deref
         else Inr (e_write K (ud_fd ud) (take n (drop (nat (buf_pos ud)) (buf ud))) k))"

definition client_gone :: "('k, 'z) echo_calls_scheme \<Rightarrow> nat \<Rightarrow> pid \<Rightarrow> client_data \<Rightarrow> 'k echo_world \<Rightarrow>
    'k echo_world \<times> ('c, nat, 'k echo_world) act" where
  "client_gone K p pid ud w =
     (let w = printf K ''fd=%i pid=#%s closed'' [Arg_Int (ud_fd ud), Arg_Str (pid_tostr pid)] w
      in (w\<lparr>clients := (clients w)(p := None), sys := e_free K p (n_close K (ud_fd ud) (sys w))\<rparr>, Return RECV_EXIT))"

definition client_close :: "('k, 'z) echo_calls_scheme \<Rightarrow> nat \<Rightarrow> ('c, nat, 'k echo_world) act" where
  "client_close K p = Self (\<lambda>pid. with_client p (client_gone K p pid))"

definition client_read :: "('k, 'z) echo_calls_scheme \<Rightarrow> nat \<Rightarrow> ('e echo_name, nat, 'k echo_world) act" where
  "client_read K p =
     with_client p (\<lambda>ud w. (w,
       send_msg_fd K MSG_FD_REGISTER_READ (ud_fd ud) 0 (Receive (Some Client_Read_Cb) (Some p) (Return RECV_OK))))"

text \<open>\<open>client_write\<close> with \<open>block\<close> set.\<close>

definition client_block :: "('k, 'z) echo_calls_scheme \<Rightarrow> nat \<Rightarrow> ('e echo_name, nat, 'k echo_world) act" where
  "client_block K p =
     with_client p (\<lambda>ud w. (w,
       send_msg_fd K MSG_FD_REGISTER_WRITE (ud_fd ud) 0 (Receive (Some Client_Write_Cb) (Some p) (Return RECV_OK))))"

text \<open>The case \<open>MSG_FD_WRITE\<close> of \<open>client_write_cb\<close>.\<close>

definition client_on_write :: "('k, 'z) echo_calls_scheme \<Rightarrow> nat \<Rightarrow> client_data \<Rightarrow> 'k echo_world \<Rightarrow>
    'k echo_world \<times> ('e echo_name, nat, 'k echo_world) act" where
  "client_on_write K p ud w =
     (case client_drain K ud (sys w) of
        Inl e \<Rightarrow> (w, Fail e)
      | Inr (r, k) \<Rightarrow>
          if 0 \<le> r
          then let ud = ud\<lparr>buf_pos := buf_pos ud + r\<rparr>
            in if buf_len ud \<le> buf_pos ud
               then (w\<lparr>clients := (clients w)(p \<mapsto> ud\<lparr>buf_pos := 0, buf_len := 0\<rparr>), sys := k\<rparr>, client_read K p)
               else (w\<lparr>clients := (clients w)(p \<mapsto> ud), sys := k\<rparr>, client_block K p)
          else (w\<lparr>sys := k\<rparr>, client_close K p))"

definition client_write_cb :: "('k, 'z) echo_calls_scheme \<Rightarrow> msg_type \<Rightarrow> nat \<Rightarrow> ('e echo_name, nat, 'k echo_world) act" where
  "client_write_cb K ty p =
     (if ty = MSG_FD_WRITE then with_client p (client_on_write K p)
      else if ty = MSG_FD_CLOSE then client_close K p
      else Fail Abort)"

definition client_write :: "('k, 'z) echo_calls_scheme \<Rightarrow> nat \<Rightarrow> bool \<Rightarrow> ('e echo_name, nat, 'k echo_world) act" where
  "client_write K p block = (if block then client_block K p else client_write_cb K MSG_FD_WRITE p)"

text \<open>The case \<open>MSG_FD_READ\<close> of \<open>client_read_cb\<close>; a line ends with the byte 10.\<close>

definition client_on_read :: "('k, 'z) echo_calls_scheme \<Rightarrow> nat \<Rightarrow> client_data \<Rightarrow> 'k echo_world \<Rightarrow>
    'k echo_world \<times> ('e echo_name, nat, 'k echo_world) act" where
  "client_on_read K p ud w =
     (case client_fill K ud (sys w) of
        Inl e \<Rightarrow> (w, Fail e)
      | Inr (r, ud, k) \<Rightarrow>
          if 0 < r
          then let ud = ud\<lparr>buf_len := buf_len ud + r\<rparr>
            in (w\<lparr>clients := (clients w)(p \<mapsto> ud), sys := k\<rparr>,
                if buf ud ! nat (buf_len ud - 1) = 10 \<or> buf_len ud = buf_sz ud
                then client_write K p False else client_read K p)
          else (w\<lparr>sys := k\<rparr>, client_close K p))"

definition client_read_cb :: "('k, 'z) echo_calls_scheme \<Rightarrow> msg_type \<Rightarrow> nat \<Rightarrow> ('e echo_name, nat, 'k echo_world) act" where
  "client_read_cb K ty p =
     (if ty = MSG_FD_READ then with_client p (client_on_read K p)
      else if ty = MSG_FD_CLOSE then client_close K p
      else Fail Abort)"

section \<open>The server\<close>

definition server_read :: "('k, 'z) echo_calls_scheme \<Rightarrow> nat \<Rightarrow> ('e echo_name, nat, 'k echo_world) act" where
  "server_read K q =
     with_server q (\<lambda>fd w. (w,
       send_msg_fd K MSG_FD_REGISTER_READ fd 0 (Receive (Some Server_Read_Cb) (Some q) (Return RECV_OK))))"

text \<open>The case \<open>MSG_FD_READ\<close> of \<open>server_read_cb\<close>.\<close>

definition server_on_read :: "('k, 'z) echo_calls_scheme \<Rightarrow> nat \<Rightarrow> int \<Rightarrow> 'k echo_world \<Rightarrow>
    'k echo_world \<times> ('e echo_name, nat, 'k echo_world) act" where
  "server_on_read K q fd w =
     (case e_malloc K (sys w) of
        (p, k) \<Rightarrow>
          (case net_accept K fd k of
             Inl e \<Rightarrow> (w, Fail e)
           | Inr ((cd, _, _), k) \<Rightarrow>
               (case p of
                  None \<Rightarrow> (w, Fail Bad_Deref)
                | Some p \<Rightarrow>
                    let ud = \<lparr>ud_fd = cd, buf_sz = int sizeof_buf, buf_len = 0, buf_pos = 0, buf = e_junk K\<rparr>
                    in (w\<lparr>clients := (clients w)(p \<mapsto> ud), sys := k\<rparr>,
                        Spawn2 Client_Read (Some p) (\<lambda>pid.
                          World (\<lambda>w. (printf K ''fd=%i pid=#%s new'' [Arg_Int cd, Arg_Str (pid_tostr pid)] w,
                            server_read K q)))))))"

definition server_on_exit :: "('k, 'z) echo_calls_scheme \<Rightarrow> nat \<Rightarrow> int \<Rightarrow> 'k echo_world \<Rightarrow>
    'k echo_world \<times> ('e echo_name, nat, 'k echo_world) act" where
  "server_on_exit K q fd w =
     (w\<lparr>servers := (servers w)(q := None), sys := e_free K q (n_close K fd (sys w))\<rparr>, Return RECV_EXIT)"

definition server_read_cb :: "('k, 'z) echo_calls_scheme \<Rightarrow> msg_type \<Rightarrow> nat \<Rightarrow> ('e echo_name, nat, 'k echo_world) act" where
  "server_read_cb K ty q =
     (if ty = MSG_EXIT then with_server q (server_on_exit K q)
      else if ty = MSG_FD_READ then with_server q (server_on_read K q)
      else Fail Abort)"

section \<open>Signals\<close>

definition handle_quit :: "('k, 'z) echo_calls_scheme \<Rightarrow> nat option \<Rightarrow> ('e echo_name, nat, 'k echo_world) act" where
  "handle_quit K data =
     send_msg_signal K MSG_SIGNAL_REGISTER SIGINT
       (send_msg_signal K MSG_SIGNAL_REGISTER SIGALRM (Receive (Some Handle_Quit_Cb) data (Return RECV_OK)))"

definition handle_quit_cb :: "('k, 'z) echo_calls_scheme \<Rightarrow> msg_type \<Rightarrow> ('e echo_name, nat, 'k echo_world) act" where
  "handle_quit_cb K ty =
     (if ty = MSG_EXIT then Return RECV_EXIT
      else if ty = MSG_SIGNAL
      then World (\<lambda>w. (printf K ''Received Ctrl+C. Quitting.'' [] w, Loopexit (Return RECV_OK)))
      else Fail Abort)"

definition handle_info :: "('k, 'z) echo_calls_scheme \<Rightarrow> nat option \<Rightarrow> ('e echo_name, nat, 'k echo_world) act" where
  "handle_info K data =
     send_msg_signal K MSG_SIGNAL_REGISTER SIGUSR1
       (send_msg_signal K MSG_SIGNAL_REGISTER SIGUSR2
         (send_msg_signal K MSG_SIGNAL_REGISTER SIGHUP (Receive (Some Handle_Info_Cb) data (Return RECV_OK))))"

definition handle_info_cb :: "('k, 'z) echo_calls_scheme \<Rightarrow> msg_type \<Rightarrow> byte list \<Rightarrow> ('e echo_name, nat, 'k echo_world) act" where
  "handle_info_cb K ty payload =
     (if ty = MSG_EXIT then Return RECV_EXIT
      else if ty = MSG_SIGNAL
      then Memory_Stats (\<lambda>used_bytes.
        World (\<lambda>w. (printf K '' [i] Memory: %lu bytes used.'' [Arg_Ulong used_bytes] w,
          Memory_Collect (send_msg_signal K MSG_SIGNAL_REGISTER (ms_signum (decode_msg_signal payload)) (Return RECV_OK)))))
      else Fail Abort)"

section \<open>The program\<close>

text \<open>\<open>engines\<close> are the callbacks of the engines.\<close>

definition echo_program :: "('k, 'z) echo_calls_scheme \<Rightarrow> ('e \<Rightarrow> msg_type \<Rightarrow> byte list \<Rightarrow> 32 word \<Rightarrow> nat option \<Rightarrow>
    ('e echo_name, nat, 'k echo_world) act) \<Rightarrow> ('e echo_name, nat, 'k echo_world) program" where
  "echo_program K engines =
     \<lparr>on_message = (\<lambda>c ty payload sz data.
        case c of
          Client_Read_Cb \<Rightarrow> deref data (client_read_cb K ty)
        | Client_Write_Cb \<Rightarrow> deref data (client_write_cb K ty)
        | Server_Read_Cb \<Rightarrow> deref data (server_read_cb K ty)
        | Handle_Quit_Cb \<Rightarrow> handle_quit_cb K ty
        | Handle_Info_Cb \<Rightarrow> handle_info_cb K ty payload
        | Engine e \<Rightarrow> engines e ty payload sz data
        | _ \<Rightarrow> Fail Bad_Deref),
      on_construct = (\<lambda>c data.
        case c of
          Client_Read \<Rightarrow> deref data (client_read K)
        | Server_Read \<Rightarrow> deref data (server_read K)
        | Handle_Quit \<Rightarrow> handle_quit K data
        | Handle_Info \<Rightarrow> handle_info K data
        | _ \<Rightarrow> Fail Bad_Deref)\<rparr>"

text \<open>The engines \<open>main\<close> asks for: the one of file descriptors and the one of signals.\<close>

definition echo_engines :: ulong where "echo_engines = 2 ^ 2 OR 2 ^ 4"

text \<open>
  \<open>main\<close>: the exit status and the state outside at the end. The arguments are the engines that are linked in,
  what memory holds at first, and the fuel of the loop.
\<close>

definition echosrv_main :: "('k, 'z) echo_calls_scheme \<Rightarrow> (nat, 'k echo_world) surroundings \<Rightarrow>
    ('e echo_name, nat, 'k echo_world) program \<Rightarrow> nat \<Rightarrow>
    (('e echo_name, nat, 'k echo_world) base \<Rightarrow> error + ('e echo_name, nat, 'k echo_world) base) option list \<Rightarrow>
    ram \<Rightarrow> (addr \<Rightarrow> message) \<Rightarrow> (addr \<Rightarrow> ('e echo_name, nat) process) \<Rightarrow> addr qheap \<Rightarrow> 'k echo_world \<Rightarrow>
    error + (int \<times> 'k echo_world)" where
  "echosrv_main K s prog n linked ram ms ps h u =
     rbind (msock_base_new linked echo_engines ram ms ps h u) (\<lambda>b.
       case e_malloc K (sys (world b)) of
         (None, k) \<Rightarrow> Inl Bad_Deref
       | (Some sd, k) \<Rightarrow>
           (case net_bind K (Some ''0.0.0.0'') 1234 k of
              (fd, k) \<Rightarrow>
                (let w = (world b)\<lparr>servers := (servers (world b))(sd \<mapsto> fd), sys := k\<rparr> in
                 if fd < 0 then Inr (- 1, printf K ''can't bind'' [] w)
                 else rbind (msock_base_spawn2 s prog n Server_Read (Some sd) (b\<lparr>world := w\<rparr>)) (\<lambda>(_, b).
                      rbind (msock_base_spawn2 s prog n Handle_Quit None b) (\<lambda>(_, b).
                      rbind (msock_base_spawn2 s prog n Handle_Info None b) (\<lambda>(_, b).
                      rbind (msock_base_loop s prog n b) (\<lambda>b.
                      rbind (msock_base_free s b) (\<lambda>u. Inr (0, printf K ''done!'' [] u)))))))))"

section \<open>The system\<close>

text \<open>
  What is seen of the system: the open descriptors, the bytes read from each and written to each since it was
  opened, the allocated memory. What the code relies on: \<open>read\<close> answers with at most the bytes it was asked
  for, \<open>write\<close> takes a prefix, \<open>accept\<close> and \<open>socket\<close> open a new descriptor, \<open>malloc\<close> gives new memory.
\<close>

record 'k observed =
  opened :: "'k \<Rightarrow> int set"
  got :: "int \<Rightarrow> 'k \<Rightarrow> byte list"
  sent :: "int \<Rightarrow> 'k \<Rightarrow> byte list"
  held :: "'k \<Rightarrow> nat set"

definition same_streams :: "'k observed \<Rightarrow> int set \<Rightarrow> 'k \<Rightarrow> 'k \<Rightarrow> bool" where
  "same_streams V fds k k' \<longleftrightarrow> (\<forall>fd. fd \<notin> fds \<longrightarrow> got V fd k' = got V fd k \<and> sent V fd k' = sent V fd k)"

text \<open>Nothing is seen to change, but the streams of the given descriptors.\<close>

definition same_but :: "'k observed \<Rightarrow> int set \<Rightarrow> 'k \<Rightarrow> 'k \<Rightarrow> bool" where
  "same_but V fds k k' \<longleftrightarrow> opened V k' = opened V k \<and> held V k' = held V k \<and> same_streams V fds k k'"

definition opens :: "'k observed \<Rightarrow> int \<Rightarrow> 'k \<Rightarrow> 'k \<Rightarrow> bool" where
  "opens V fd k k' \<longleftrightarrow>
     (if fd < 0 then same_but V {} k k'
      else fd \<notin> opened V k \<and> opened V k' = insert fd (opened V k) \<and> held V k' = held V k \<and>
        got V fd k' = [] \<and> sent V fd k' = [] \<and> same_streams V {fd} k k')"

definition unseen :: "'k observed \<Rightarrow> ('k \<Rightarrow> 'a \<times> 'k) \<Rightarrow> bool" where
  "unseen V f \<longleftrightarrow> (\<forall>k. same_but V {} k (snd (f k)))"

definition read_law :: "('k, 'z) echo_calls_scheme \<Rightarrow> 'k observed \<Rightarrow> bool" where
  "read_law K V \<longleftrightarrow> (\<forall>fd n k. case e_read K fd n k of
     (None, k') \<Rightarrow> same_but V {} k k'
   | (Some bytes, k') \<Rightarrow> length bytes \<le> n \<and> same_but V {fd} k k' \<and>
       got V fd k' = got V fd k @ bytes \<and> sent V fd k' = sent V fd k)"

definition write_law :: "('k, 'z) echo_calls_scheme \<Rightarrow> 'k observed \<Rightarrow> bool" where
  "write_law K V \<longleftrightarrow> (\<forall>fd bytes k. case e_write K fd bytes k of
     (r, k') \<Rightarrow>
       if r < 0 then same_but V {} k k'
       else nat r \<le> length bytes \<and> same_but V {fd} k k' \<and>
         got V fd k' = got V fd k \<and> sent V fd k' = sent V fd k @ take (nat r) bytes)"

definition memory_law :: "('k, 'z) echo_calls_scheme \<Rightarrow> 'k observed \<Rightarrow> bool" where
  "memory_law K V \<longleftrightarrow> length (e_junk K) = sizeof_buf \<and>
     (\<forall>k. case e_malloc K k of
        (None, k') \<Rightarrow> same_but V {} k k'
      | (Some p, k') \<Rightarrow> p \<notin> held V k \<and> held V k' = insert p (held V k) \<and> opened V k' = opened V k \<and>
          same_streams V {} k k') \<and>
     (\<forall>p k. held V (e_free K p k) = held V k - {p} \<and> opened V (e_free K p k) = opened V k \<and>
        same_streams V {} k (e_free K p k))"

definition descriptor_law :: "('k, 'z) echo_calls_scheme \<Rightarrow> 'k observed \<Rightarrow> bool" where
  "descriptor_law K V \<longleftrightarrow>
     (\<forall>fd k. opens V (fst (fst (n_accept K fd k))) k (snd (n_accept K fd k))) \<and>
     (\<forall>k. opens V (fst (n_socket K k)) k (snd (n_socket K k))) \<and>
     (\<forall>fd k. opened V (n_close K fd k) = opened V k - {fd} \<and> held V (n_close K fd k) = held V k \<and>
        same_streams V {fd} k (n_close K fd k)) \<and>
     (\<forall>fmt args k. same_but V {} k (e_printf K fmt args k)) \<and> (\<forall>what k. same_but V {} k (n_log K what k)) \<and>
     (\<forall>fd. unseen V (n_getfl K fd)) \<and> (\<forall>fd v. unseen V (n_setfl K fd v)) \<and>
     (\<forall>fd opt v. unseen V (n_setsockopt K fd opt v)) \<and> (\<forall>fd a. unseen V (n_bind K fd a)) \<and>
     (\<forall>fd n. unseen V (n_listen K fd n)) \<and> (\<forall>h. unseen V (n_getaddrinfo K h))"

definition echo_law :: "('k, 'z) echo_calls_scheme \<Rightarrow> 'k observed \<Rightarrow> bool" where
  "echo_law K V \<longleftrightarrow> read_law K V \<and> write_law K V \<and> memory_law K V \<and> descriptor_law K V"

lemma same_but_streams: "same_but V fds k k' \<Longrightarrow> same_streams V fds k k'"
  by (simp add: same_but_def)

lemma same_but_trans: "same_but V fds k k1 \<Longrightarrow> same_but V fds k1 k2 \<Longrightarrow> same_but V fds k k2"
  by (simp add: same_but_def same_streams_def)

lemma same_but_refl [simp]: "same_but V fds k k"
  by (simp add: same_but_def same_streams_def)

lemma opens_trans: "opens V fd k k1 \<Longrightarrow> same_but V {} k1 k2 \<Longrightarrow> opens V fd k k2"
  by (auto simp: opens_def same_but_def same_streams_def)

lemma descriptor_lawD:
  assumes "descriptor_law K V"
  shows "same_but V {} k (e_printf K fmt args k)" and "same_but V {} k (n_log K what k)"
    and "n_getfl K fd k = (v, k1) \<Longrightarrow> same_but V {} k k1" and "n_setfl K fd v k = (r, k1) \<Longrightarrow> same_but V {} k k1"
    and "n_setsockopt K fd opt v k = (r, k1) \<Longrightarrow> same_but V {} k k1" and "n_bind K fd a k = (r, k1) \<Longrightarrow> same_but V {} k k1"
    and "n_listen K fd n k = (r, k1) \<Longrightarrow> same_but V {} k k1" and "n_getaddrinfo K h k = (res, k1) \<Longrightarrow> same_but V {} k k1"
    and "n_accept K fd k = ((cd, sin), k1) \<Longrightarrow> opens V cd k k1" and "n_socket K k = (cd, k1) \<Longrightarrow> opens V cd k k1"
  using assms unfolding descriptor_law_def unseen_def by (blast | metis fst_conv snd_conv)+

lemma net_set_nonblocking_unseen:
  assumes "descriptor_law K V"
  shows "same_but V {} k (net_set_nonblocking K fd k)"
proof -
  note d = descriptor_lawD [OF assms]
  obtain v k1 where 1: "n_getfl K fd k = (v, k1)" by (cases "n_getfl K fd k")
  obtain r k2 where 2: "n_setfl K fd ((if - 1 = v then 0 else v) OR NET_O_NONBLOCK) k1 = (r, k2)" by (cases "n_setfl K fd ((if - 1 = v then 0 else v) OR NET_O_NONBLOCK) k1")
  have "same_but V {} k k2" using same_but_trans [OF d(3) [OF 1] d(4) [OF 2]] .
  then show ?thesis using same_but_trans [OF _ d(2)] by (simp add: net_set_nonblocking_def 1 2)
qed

lemma net_accept_opens:
  assumes "descriptor_law K V" and "net_accept K sd k = Inr ((cd, host, port), k')"
  shows "opens V cd k k'"
proof -
  obtain c sin k1 where 1: "n_accept K sd k = ((c, sin), k1)" by (cases "n_accept K sd k") auto
  have "c = cd" "k' = net_set_nonblocking K c k1" using assms(2) 1 by (auto simp: net_accept_def split: if_splits)
  then show ?thesis
    using opens_trans [OF descriptor_lawD(9) [OF assms(1) 1] net_set_nonblocking_unseen [OF assms(1)]] by simp
qed

section \<open>The invariant\<close>

text \<open>What a client holds: the bytes that were read and not yet written.\<close>

definition pending :: "client_data \<Rightarrow> byte list" where
  "pending ud = take (nat (buf_len ud - buf_pos ud)) (drop (nat (buf_pos ud)) (buf ud))"

definition buffer_ok :: "client_data \<Rightarrow> bool" where
  "buffer_ok ud \<longleftrightarrow> buf_sz ud = int sizeof_buf \<and> length (buf ud) = sizeof_buf \<and>
     0 \<le> buf_pos ud \<and> buf_pos ud \<le> buf_len ud \<and> buf_len ud \<le> buf_sz ud"

definition client_ok :: "'k observed \<Rightarrow> 'k \<Rightarrow> client_data \<Rightarrow> bool" where
  "client_ok V k ud \<longleftrightarrow> buffer_ok ud \<and> (0 \<le> ud_fd ud \<longrightarrow> got V (ud_fd ud) k = sent V (ud_fd ud) k @ pending ud)"

definition owner_fd :: "'k echo_world \<Rightarrow> nat \<Rightarrow> int option" where
  "owner_fd w p = (case clients w p of Some ud \<Rightarrow> Some (ud_fd ud) | None \<Rightarrow> servers w p)"

text \<open>Every client and every server has its memory and its descriptor for itself.\<close>

definition echo_ok :: "'k observed \<Rightarrow> 'k echo_world \<Rightarrow> bool" where
  "echo_ok V w \<longleftrightarrow>
     (\<forall>p ud. clients w p = Some ud \<longrightarrow> client_ok V (sys w) ud \<and> servers w p = None) \<and>
     (\<forall>p fd. owner_fd w p = Some fd \<longrightarrow> p \<in> held V (sys w) \<and> (0 \<le> fd \<longrightarrow> fd \<in> opened V (sys w))) \<and>
     (\<forall>p q fd. owner_fd w p = Some fd \<longrightarrow> owner_fd w q = Some fd \<longrightarrow> 0 \<le> fd \<longrightarrow> p = q)"

section \<open>The steps keep it\<close>

lemma byte_count_small: "0 \<le> n \<Longrightarrow> n < 2 ^ 32 \<Longrightarrow> byte_count n = nat n"
proof -
  assume n: "0 \<le> n" "n < 2 ^ 32"
  have "(word_of_int n :: ulong) = of_nat (nat n)" using n by simp
  moreover have "nat n < 2 ^ 64" using n by simp
  ultimately show ?thesis unfolding byte_count_def by (simp only: unat_of_nat_ulong)
qed

lemma echo_min_simps: "echo_min a b \<le> a" "echo_min a b \<le> b" "0 \<le> a \<Longrightarrow> 0 \<le> b \<Longrightarrow> 0 \<le> echo_min a b"
  by (simp_all add: echo_min_def)

lemma pending_read:
  assumes "buffer_ok ud" and "buf_len ud + int (length bytes) \<le> buf_sz ud"
  shows "pending (ud\<lparr>buf := take (nat (buf_len ud)) (buf ud) @ bytes @ drop (nat (buf_len ud) + length bytes) (buf ud),
    buf_len := buf_len ud + int (length bytes)\<rparr>) = pending ud @ bytes"
proof -
  have b: "0 \<le> buf_pos ud" "buf_pos ud \<le> buf_len ud" "buf_len ud \<le> int (length (buf ud))"
    using assms by (simp_all add: buffer_ok_def)
  define p where "p = nat (buf_pos ud)"
  define n where "n = nat (buf_len ud)"
  have e: "buf_pos ud = int p" "buf_len ud = int n" "p \<le> n" "n \<le> length (buf ud)" using b by (simp_all add: p_def n_def)
  have "nat (int n + int (length bytes) - int p) = n - p + length bytes" using e(3) by linarith
  moreover have "nat (int n - int p) = n - p" using e(3) by linarith
  ultimately show ?thesis using e(3,4) by (simp add: pending_def e(1,2) take_drop min_def)
qed

lemma pending_written:
  assumes "buffer_ok ud" and "0 \<le> r" and "r \<le> buf_len ud - buf_pos ud"
  shows "pending ud = take (nat r) (pending ud) @ pending (ud\<lparr>buf_pos := buf_pos ud + r\<rparr>)"
proof -
  have b: "0 \<le> buf_pos ud" "buf_pos ud \<le> buf_len ud" "buf_len ud \<le> int (length (buf ud))"
    using assms(1) by (simp_all add: buffer_ok_def)
  define p where "p = nat (buf_pos ud)"
  define n where "n = nat (buf_len ud)"
  define m where "m = nat r"
  have e: "buf_pos ud = int p" "buf_len ud = int n" "r = int m" "p + m \<le> n" "n \<le> length (buf ud)"
    using b assms(2,3) by (simp_all add: p_def n_def m_def)
  have d: "nat (int n - int p) = n - p" "nat (int n - (int p + int m)) = n - (p + m)" "nat (int p + int m) = p + m"
    using e(4) by linarith+
  have "pending (ud\<lparr>buf_pos := buf_pos ud + r\<rparr>) = drop m (pending ud)"
    by (simp add: pending_def e(1-3) d drop_take add.commute [of m p])
  then show ?thesis by (simp add: m_def)
qed

lemma read_lawD:
  assumes "read_law K V" and "e_read K fd n k = (x, k')"
  shows "case x of None \<Rightarrow> same_but V {} k k'
    | Some bytes \<Rightarrow> length bytes \<le> n \<and> same_but V {fd} k k' \<and> got V fd k' = got V fd k @ bytes \<and> sent V fd k' = sent V fd k"
  using assms(1) [unfolded read_law_def, rule_format, where n = n and fd = fd and k = k] by (simp add: assms(2))

lemma write_lawD:
  assumes "write_law K V" and "e_write K fd bytes k = (r, k')"
  shows "if r < 0 then same_but V {} k k'
    else nat r \<le> length bytes \<and> same_but V {fd} k k' \<and> got V fd k' = got V fd k \<and>
      sent V fd k' = sent V fd k @ take (nat r) bytes"
  using assms(1) [unfolded write_law_def, rule_format, where bytes = bytes and fd = fd and k = k] by (simp add: assms(2))

lemma client_fill_ok:
  assumes "read_law K V" and ok: "client_ok V k ud"
  obtains r ud' k' where "client_fill K ud k = Inr (r, ud', k')" and "ud_fd ud' = ud_fd ud"
    and "same_but V {ud_fd ud} k k'" and "0 < r \<Longrightarrow> client_ok V k' (ud'\<lparr>buf_len := buf_len ud' + r\<rparr>)"
    and "r \<le> 0 \<Longrightarrow> client_ok V k' ud"
proof -
  let ?m = "echo_min (64 * 1024) (buf_sz ud - buf_len ud)"
  have b: "buffer_ok ud" using ok by (simp add: client_ok_def)
  have m: "0 \<le> ?m" "?m \<le> 64 * 1024" "?m \<le> buf_sz ud - buf_len ud"
    using b by (simp_all add: echo_min_simps buffer_ok_def)
  have n: "byte_count ?m = nat ?m" by (rule byte_count_small) (use m in simp_all)
  obtain x k' where r: "e_read K (ud_fd ud) (nat ?m) k = (x, k')" by (cases "e_read K (ud_fd ud) (nat ?m) k")
  note law = read_lawD [OF assms(1) r]
  show ?thesis
  proof (cases x)
    case None
    then have s: "same_but V {} k k'" using law by simp
    show ?thesis
    proof (rule that)
      show "client_fill K ud k = Inr (- 1, ud, k')"
        unfolding client_fill_def n r None prod.case option.case ..
      show "same_but V {ud_fd ud} k k'" using s by (simp add: same_but_def same_streams_def)
      show "client_ok V k' ud" using ok s by (simp add: client_ok_def same_but_def same_streams_def)
    qed simp_all
  next
    case (Some bytes)
    then have s: "length bytes \<le> nat ?m" "same_but V {ud_fd ud} k k'"
      "got V (ud_fd ud) k' = got V (ud_fd ud) k @ bytes" "sent V (ud_fd ud) k' = sent V (ud_fd ud) k" using law by simp_all
    have fits: "buf_len ud + int (length bytes) \<le> buf_sz ud" using s(1) m(1,3) by linarith
    let ?ud = "ud\<lparr>buf := take (nat (buf_len ud)) (buf ud) @ bytes @ drop (nat (buf_len ud) + length bytes) (buf ud)\<rparr>"
    show ?thesis
    proof (rule that)
      have f: "\<not> (buf_len ud < 0 \<or> int (length (buf ud)) < buf_len ud + int (length bytes))"
        using b fits by (simp add: buffer_ok_def)
      show "client_fill K ud k = Inr (int (length bytes), ?ud, k')"
        unfolding client_fill_def n r Some Let_def prod.case option.case if_not_P [OF f] by simp
      show "same_but V {ud_fd ud} k k'" by (rule s(2))
      have "buffer_ok (?ud\<lparr>buf_len := buf_len ?ud + int (length bytes)\<rparr>)"
        using b fits by (simp add: buffer_ok_def) linarith
      then show "client_ok V k' (?ud\<lparr>buf_len := buf_len ?ud + int (length bytes)\<rparr>)"
        using pending_read [OF b fits] ok s(3,4) by (simp add: client_ok_def)
      show "client_ok V k' ud" if "int (length bytes) \<le> 0" using ok s(3,4) that by (simp add: client_ok_def)
    qed simp
  qed
qed

lemma client_drain_ok:
  assumes "write_law K V" and ok: "client_ok V k ud"
  obtains r k' where "client_drain K ud k = Inr (r, k')" and "same_but V {ud_fd ud} k k'"
    and "0 \<le> r \<Longrightarrow> r \<le> buf_len ud - buf_pos ud \<and> client_ok V k' (ud\<lparr>buf_pos := buf_pos ud + r\<rparr>)"
    and "r < 0 \<Longrightarrow> client_ok V k' ud"
proof -
  let ?m = "echo_min (64 * 1024) (buf_len ud - buf_pos ud)"
  have b: "buffer_ok ud" using ok by (simp add: client_ok_def)
  have m: "0 \<le> ?m" "?m \<le> 64 * 1024" "?m \<le> buf_len ud - buf_pos ud"
    using b by (simp_all add: echo_min_simps buffer_ok_def)
  have n: "byte_count ?m = nat ?m" by (rule byte_count_small) (use m in simp_all)
  let ?bytes = "take (nat ?m) (drop (nat (buf_pos ud)) (buf ud))"
  obtain r k' where r: "e_write K (ud_fd ud) ?bytes k = (r, k')" by (cases "e_write K (ud_fd ud) ?bytes k")
  have f: "\<not> (buf_pos ud < 0 \<or> int (length (buf ud)) < buf_pos ud + int (nat ?m))"
    using b m by (simp add: buffer_ok_def)
  have d: "client_drain K ud k = Inr (r, k')"
    unfolding client_drain_def n Let_def if_not_P [OF f] r ..
  note law = write_lawD [OF assms(1) r]
  show ?thesis
  proof (cases "r < 0")
    case True
    then have s: "same_but V {} k k'" using law by simp
    show ?thesis
    proof (rule that [OF d])
      show "same_but V {ud_fd ud} k k'" using s by (simp add: same_but_def same_streams_def)
      show "client_ok V k' ud" using ok s by (simp add: client_ok_def same_but_def same_streams_def)
    qed (use True in simp_all)
  next
    case False
    then have s: "nat r \<le> length ?bytes" "same_but V {ud_fd ud} k k'" "got V (ud_fd ud) k' = got V (ud_fd ud) k"
      "sent V (ud_fd ud) k' = sent V (ud_fd ud) k @ take (nat r) ?bytes" using law by simp_all
    have rm: "nat r \<le> nat ?m" using s(1) by simp
    then have rl: "r \<le> buf_len ud - buf_pos ud" using m False by linarith
    have "take (nat r) ?bytes = take (nat r) (pending ud)"
      using rm m by (simp add: pending_def min_def)
    then have "got V (ud_fd ud) k' = sent V (ud_fd ud) k' @ pending (ud\<lparr>buf_pos := buf_pos ud + r\<rparr>)" if "0 \<le> ud_fd ud"
      using s(3,4) that ok pending_written [OF b _ rl] False by (simp add: client_ok_def)
    moreover have "buffer_ok (ud\<lparr>buf_pos := buf_pos ud + r\<rparr>)" using b rl False by (simp add: buffer_ok_def)
    ultimately have "client_ok V k' (ud\<lparr>buf_pos := buf_pos ud + r\<rparr>)" by (simp add: client_ok_def)
    with that [OF d s(2)] rl False show ?thesis by simp
  qed
qed

text \<open>What is outside, when one owner changes.\<close>

lemma echo_okD:
  assumes "echo_ok V w"
  shows "clients w p = Some ud \<Longrightarrow> client_ok V (sys w) ud" and "clients w p = Some ud \<Longrightarrow> servers w p = None"
    and "owner_fd w p = Some fd \<Longrightarrow> p \<in> held V (sys w)"
    and "owner_fd w p = Some fd \<Longrightarrow> 0 \<le> fd \<Longrightarrow> fd \<in> opened V (sys w)"
    and "owner_fd w p = Some fd \<Longrightarrow> owner_fd w q = Some fd \<Longrightarrow> 0 \<le> fd \<Longrightarrow> p = q"
  using assms unfolding echo_ok_def by blast+

lemma echo_okI:
  assumes "\<And>p ud. clients w p = Some ud \<Longrightarrow> client_ok V (sys w) ud \<and> servers w p = None"
    and "\<And>p fd. owner_fd w p = Some fd \<Longrightarrow> p \<in> held V (sys w) \<and> (0 \<le> fd \<longrightarrow> fd \<in> opened V (sys w))"
    and "\<And>p q fd. owner_fd w p = Some fd \<Longrightarrow> owner_fd w q = Some fd \<Longrightarrow> 0 \<le> fd \<Longrightarrow> p = q"
  shows "echo_ok V w"
  using assms unfolding echo_ok_def by blast

lemma client_owner: "clients w p = Some ud \<Longrightarrow> owner_fd w p = Some (ud_fd ud)"
  by (simp add: owner_fd_def)

lemma client_ok_same:
  assumes "client_ok V k ud" and "same_streams V fds k k'" and "0 \<le> ud_fd ud \<Longrightarrow> ud_fd ud \<notin> fds"
  shows "client_ok V k' ud"
  using assms by (simp add: client_ok_def same_streams_def)

lemma echo_ok_update:
  assumes ok: "echo_ok V w" and c: "clients w p = Some ud" and fd: "ud_fd ud' = ud_fd ud"
    and k: "same_but V {ud_fd ud} (sys w) k" and ok': "client_ok V k ud'"
  shows "echo_ok V (w\<lparr>clients := (clients w)(p \<mapsto> ud'), sys := k\<rparr>)"
proof (rule echo_okI)
  let ?w = "w\<lparr>clients := (clients w)(p \<mapsto> ud'), sys := k\<rparr>"
  have o: "owner_fd ?w x = owner_fd w x" for x using c fd by (simp add: owner_fd_def split: option.split)
  show "client_ok V (sys ?w) x \<and> servers ?w q = None" if q: "clients ?w q = Some x" for q x
  proof (cases "q = p")
    case True
    then show ?thesis using q ok' echo_okD(2) [OF ok c] by simp
  next
    case False
    then have x: "clients w q = Some x" using q by simp
    have "ud_fd x \<noteq> ud_fd ud" if "0 \<le> ud_fd x"
      using echo_okD(5) [OF ok client_owner [OF x], of p] client_owner [OF c] False that by auto
    then have "client_ok V k x"
      using client_ok_same [OF echo_okD(1) [OF ok x] same_but_streams [OF k]] by simp
    then show ?thesis using echo_okD(2) [OF ok x] by simp
  qed
  show "q \<in> held V (sys ?w) \<and> (0 \<le> x \<longrightarrow> x \<in> opened V (sys ?w))" if "owner_fd ?w q = Some x" for q x
    using that echo_okD(3,4) [OF ok, of q x] k unfolding o by (simp add: same_but_def)
  show "q = q'" if "owner_fd ?w q = Some x" "owner_fd ?w q' = Some x" "0 \<le> x" for q q' x
    using that echo_okD(5) [OF ok] unfolding o by blast
qed

lemma echo_ok_sys:
  assumes ok: "echo_ok V w" and k: "same_but V {} (sys w) k"
  shows "echo_ok V (w\<lparr>sys := k\<rparr>)"
proof (rule echo_okI)
  let ?w = "w\<lparr>sys := k\<rparr>"
  have o: "owner_fd ?w x = owner_fd w x" for x by (simp add: owner_fd_def split: option.split)
  show "client_ok V (sys ?w) x \<and> servers ?w q = None" if "clients ?w q = Some x" for q x
    using that echo_okD(1,2) [OF ok, of q x] client_ok_same [OF _ same_but_streams [OF k]] by simp
  show "q \<in> held V (sys ?w) \<and> (0 \<le> x \<longrightarrow> x \<in> opened V (sys ?w))" if "owner_fd ?w q = Some x" for q x
    using that echo_okD(3,4) [OF ok, of q x] k unfolding o by (simp add: same_but_def)
  show "q = q'" if "owner_fd ?w q = Some x" "owner_fd ?w q' = Some x" "0 \<le> x" for q q' x
    using that echo_okD(5) [OF ok] unfolding o by blast
qed

lemma echo_ok_printf: "descriptor_law K V \<Longrightarrow> echo_ok V w \<Longrightarrow> echo_ok V (printf K fmt args w)"
  unfolding printf_def by (rule echo_ok_sys) (auto dest: descriptor_lawD(1))

text \<open>An owner closes its descriptor and frees its memory.\<close>

lemma echo_ok_gone:
  assumes law: "memory_law K V" "descriptor_law K V" and ok: "echo_ok V w" and p: "owner_fd w p = Some fd"
    and w': "clients w' = (clients w)(p := None)" "servers w' = (servers w)(p := None)"
      "sys w' = e_free K p (n_close K fd (sys w))"
  shows "echo_ok V w'"
proof (rule echo_okI)
  have h: "held V (sys w') = held V (sys w) - {p}" "opened V (sys w') = opened V (sys w) - {fd}"
    "same_streams V {fd} (sys w) (sys w')"
    using law unfolding memory_law_def descriptor_law_def w' same_streams_def by auto
  have o: "owner_fd w' x = (if x = p then None else owner_fd w x)" for x by (simp add: owner_fd_def w' split: option.split)
  have other: "x \<noteq> fd" if "owner_fd w' q = Some x" "0 \<le> x" for q x
    using that echo_okD(5) [OF ok _ p, of q] by (auto simp: o split: if_splits)
  show "client_ok V (sys w') x \<and> servers w' q = None" if c: "clients w' q = Some x" for q x
  proof -
    have q: "clients w q = Some x" "q \<noteq> p" using c by (auto simp: w' split: if_splits)
    have "client_ok V (sys w') x"
      by (rule client_ok_same [OF echo_okD(1) [OF ok q(1)] h(3)]) (use other [OF client_owner [OF c]] in simp)
    then show ?thesis using echo_okD(2) [OF ok q(1)] q(2) by (simp add: w')
  qed
  show "q \<in> held V (sys w') \<and> (0 \<le> x \<longrightarrow> x \<in> opened V (sys w'))" if q: "owner_fd w' q = Some x" for q x
    using q other [OF q] echo_okD(3,4) [OF ok, of q x] by (auto simp: h o split: if_splits)
  show "q = q'" if "owner_fd w' q = Some x" "owner_fd w' q' = Some x" "0 \<le> x" for q q' x
    using that echo_okD(5) [OF ok, of q x q'] by (simp add: o split: if_splits)
qed

text \<open>A new owner has new memory and a new descriptor.\<close>

lemma echo_ok_new:
  assumes ok: "echo_ok V w" and p: "p \<notin> held V (sys w)"
    and k1: "held V k1 = insert p (held V (sys w))" "opened V k1 = opened V (sys w)" "same_streams V {} (sys w) k1"
    and k2: "opens V fd k1 k2"
    and w': "\<And>q. q \<noteq> p \<Longrightarrow> clients w' q = clients w q \<and> servers w' q = servers w q"
      "owner_fd w' p = Some fd" "\<And>ud. clients w' p = Some ud \<Longrightarrow> client_ok V k2 ud \<and> servers w' p = None" "sys w' = k2"
  shows "echo_ok V w'"
proof (rule echo_okI)
  have h: "held V k2 = insert p (held V (sys w))" "opened V (sys w) \<subseteq> opened V k2"
    "0 \<le> fd \<Longrightarrow> fd \<in> opened V k2 \<and> fd \<notin> opened V (sys w)"
    "same_streams V (if fd < 0 then {} else {fd}) (sys w) k2"
    using k1 k2 by (auto simp: opens_def same_but_def same_streams_def split: if_splits)
  have o: "owner_fd w' q = owner_fd w q" if "q \<noteq> p" for q using w'(1) [OF that] by (simp add: owner_fd_def split: option.split)
  have old: "x \<noteq> fd" if "owner_fd w q = Some x" "0 \<le> x" for q x
    using echo_okD(4) [OF ok that] h(3) that(2) by auto
  show "client_ok V (sys w') x \<and> servers w' q = None" if c: "clients w' q = Some x" for q x
  proof (cases "q = p")
    case True
    then show ?thesis using w'(3) c by (simp add: w'(4))
  next
    case False
    then have q: "clients w q = Some x" using c w'(1) by simp
    have "client_ok V k2 x"
      by (rule client_ok_same [OF echo_okD(1) [OF ok q] h(4)]) (use old [OF client_owner [OF q]] in auto)
    then show ?thesis using echo_okD(2) [OF ok q] w'(1) [OF False] by (simp add: w'(4))
  qed
  show "q \<in> held V (sys w') \<and> (0 \<le> x \<longrightarrow> x \<in> opened V (sys w'))" if q: "owner_fd w' q = Some x" for q x
  proof (cases "q = p")
    case True
    then show ?thesis using q w'(2) h(1,3) by (simp add: w'(4))
  next
    case False
    then show ?thesis using q echo_okD(3,4) [OF ok, of q x] h(1,2) by (auto simp: w'(4) o)
  qed
  show "q = q'" if q: "owner_fd w' q = Some x" "owner_fd w' q' = Some x" "0 \<le> x" for q q' x
  proof (cases "q = p \<or> q' = p")
    case True
    then show ?thesis using q w'(2) old [of q x] old [of q' x] o [of q] o [of q'] by (cases "q = p"; cases "q' = p") auto
  next
    case False
    then show ?thesis using q echo_okD(5) [OF ok, of q x q'] by (simp add: o)
  qed
qed

section \<open>The callbacks keep it\<close>

lemma act_keeps_World: "act_keeps I (World f) \<longleftrightarrow> (\<forall>u. I u \<longrightarrow> I (fst (f u)) \<and> act_keeps I (snd (f u)))"
  by (simp add: Let_def)

declare act_keeps.simps(3) [simp del]

lemma with_client_keeps:
  assumes "\<And>ud w. I w \<Longrightarrow> clients w p = Some ud \<Longrightarrow> I (fst (f ud w)) \<and> act_keeps I (snd (f ud w))"
  shows "act_keeps I (with_client p f)"
  unfolding with_client_def act_keeps_World using assms by (auto split: option.split)

lemma with_server_keeps:
  assumes "\<And>fd w. I w \<Longrightarrow> servers w p = Some fd \<Longrightarrow> I (fst (f fd w)) \<and> act_keeps I (snd (f fd w))"
  shows "act_keeps I (with_server p f)"
  unfolding with_server_def act_keeps_World using assms by (auto split: option.split)

lemma deref_keeps: "(\<And>p. act_keeps I (f p)) \<Longrightarrow> act_keeps I (deref data f)"
  by (simp add: deref_def split: option.split)

lemma send_msg_keeps [simp]:
  "act_keeps I (send_msg_fd K ty fd t k) \<longleftrightarrow> act_keeps I k \<or> (\<forall>u. \<not> I u)"
  "act_keeps I (send_msg_signal K ty signum k) \<longleftrightarrow> act_keeps I k"
  by (auto simp: send_msg_fd_def send_msg_signal_def act_keeps_World)

lemma client_wait_keeps [simp]: "act_keeps I (client_read K p)" "act_keeps I (client_block K p)" "act_keeps I (server_read K p)"
  unfolding client_read_def client_block_def server_read_def
  by (intro with_client_keeps with_server_keeps; simp)+

lemma client_close_keeps:
  assumes "memory_law K V" and "descriptor_law K V"
  shows "act_keeps (echo_ok V) (client_close K p)"
  unfolding client_close_def act_keeps.simps
proof (intro allI with_client_keeps)
  fix pid ud w
  assume ok: "echo_ok V w" and c: "clients w p = Some ud"
  let ?w = "printf K ''fd=%i pid=#%s closed'' [Arg_Int (ud_fd ud), Arg_Str (pid_tostr pid)] w"
  have o: "owner_fd ?w p = Some (ud_fd ud)" using c by (simp add: owner_fd_def printf_def)
  have "echo_ok V (?w\<lparr>clients := (clients ?w)(p := None), sys := e_free K p (n_close K (ud_fd ud) (sys ?w))\<rparr>)"
    by (rule echo_ok_gone [OF assms echo_ok_printf [OF assms(2) ok] o])
      (use echo_okD(2) [OF ok c] in \<open>auto simp: printf_def\<close>)
  then show "echo_ok V (fst (client_gone K p pid ud w)) \<and> act_keeps (echo_ok V) (snd (client_gone K p pid ud w))"
    by (simp add: client_gone_def Let_def)
qed

lemma client_write_cb_keeps:
  assumes "echo_law K V"
  shows "act_keeps (echo_ok V) (client_write_cb K ty p)"
proof -
  have law: "write_law K V" "memory_law K V" "descriptor_law K V" using assms by (simp_all add: echo_law_def)
  note close = client_close_keeps [OF law(2,3), of p]
  have "act_keeps (echo_ok V) (with_client p (client_on_write K p))"
  proof (rule with_client_keeps)
    fix ud w
    assume ok: "echo_ok V w" and c: "clients w p = Some ud"
    obtain r k where d: "client_drain K ud (sys w) = Inr (r, k)" "same_but V {ud_fd ud} (sys w) k"
      "0 \<le> r \<Longrightarrow> r \<le> buf_len ud - buf_pos ud \<and> client_ok V k (ud\<lparr>buf_pos := buf_pos ud + r\<rparr>)"
      "r < 0 \<Longrightarrow> client_ok V k ud"
      using client_drain_ok [OF law(1) echo_okD(1) [OF ok c]] by blast
    let ?ud = "ud\<lparr>buf_pos := buf_pos ud + r\<rparr>"
    consider (failed) "r < 0" | (all) "0 \<le> r" "buf_len ud \<le> buf_pos ?ud" | (more) "0 \<le> r" "\<not> buf_len ud \<le> buf_pos ?ud"
      by linarith
    then show "echo_ok V (fst (client_on_write K p ud w)) \<and> act_keeps (echo_ok V) (snd (client_on_write K p ud w))"
    proof cases
      case failed
      have "echo_ok V (w\<lparr>clients := (clients w)(p \<mapsto> ud), sys := k\<rparr>)"
        by (rule echo_ok_update [OF ok c _ d(2) d(4) [OF failed]]) simp
      then have "echo_ok V (w\<lparr>sys := k\<rparr>)" using c by (simp add: fun_upd_idem)
      then show ?thesis using failed close by (simp add: client_on_write_def d(1))
    next
      case all
      have "client_ok V k (?ud\<lparr>buf_pos := 0, buf_len := 0\<rparr>)"
        using d(3) [OF all(1)] all by (simp add: client_ok_def buffer_ok_def pending_def)
      then have "echo_ok V (w\<lparr>clients := (clients w)(p \<mapsto> ?ud\<lparr>buf_pos := 0, buf_len := 0\<rparr>), sys := k\<rparr>)"
        by (intro echo_ok_update [OF ok c _ d(2)]) simp_all
      then show ?thesis using all by (simp add: client_on_write_def d(1) Let_def)
    next
      case more
      have "echo_ok V (w\<lparr>clients := (clients w)(p \<mapsto> ?ud), sys := k\<rparr>)"
        by (rule echo_ok_update [OF ok c _ d(2)]) (use d(3) [OF more(1)] in simp_all)
      then show ?thesis using more by (simp add: client_on_write_def d(1) Let_def)
    qed
  qed
  then show ?thesis unfolding client_write_cb_def using close by auto
qed

lemma client_write_keeps: "echo_law K V \<Longrightarrow> act_keeps (echo_ok V) (client_write K p block)"
  by (simp add: client_write_def client_write_cb_keeps)

lemma client_read_cb_keeps:
  assumes "echo_law K V"
  shows "act_keeps (echo_ok V) (client_read_cb K ty p)"
proof -
  have law: "read_law K V" "memory_law K V" "descriptor_law K V" using assms by (simp_all add: echo_law_def)
  note close = client_close_keeps [OF law(2,3), of p]
  have "act_keeps (echo_ok V) (with_client p (client_on_read K p))"
  proof (rule with_client_keeps)
    fix ud w
    assume ok: "echo_ok V w" and c: "clients w p = Some ud"
    obtain r ud' k where d: "client_fill K ud (sys w) = Inr (r, ud', k)" "ud_fd ud' = ud_fd ud"
      "same_but V {ud_fd ud} (sys w) k" "0 < r \<Longrightarrow> client_ok V k (ud'\<lparr>buf_len := buf_len ud' + r\<rparr>)"
      "r \<le> 0 \<Longrightarrow> client_ok V k ud"
      using client_fill_ok [OF law(1) echo_okD(1) [OF ok c]] by blast
    show "echo_ok V (fst (client_on_read K p ud w)) \<and> act_keeps (echo_ok V) (snd (client_on_read K p ud w))"
    proof (cases "0 < r")
      case True
      have "echo_ok V (w\<lparr>clients := (clients w)(p \<mapsto> ud'\<lparr>buf_len := buf_len ud' + r\<rparr>), sys := k\<rparr>)"
        by (rule echo_ok_update [OF ok c _ d(3) d(4) [OF True]]) (simp add: d(2))
      then show ?thesis using True by (simp add: client_on_read_def d(1) Let_def client_write_keeps [OF assms])
    next
      case False
      have "echo_ok V (w\<lparr>clients := (clients w)(p \<mapsto> ud), sys := k\<rparr>)"
        by (rule echo_ok_update [OF ok c _ d(3) d(5)]) (use False in simp_all)
      then have "echo_ok V (w\<lparr>sys := k\<rparr>)" using c by (simp add: fun_upd_idem)
      then show ?thesis using False close by (simp add: client_on_read_def d(1))
    qed
  qed
  then show ?thesis unfolding client_read_cb_def using close by auto
qed

lemma memory_lawD:
  assumes "memory_law K V" and "e_malloc K k = (Some p, k')"
  shows "p \<notin> held V k" and "held V k' = insert p (held V k)" and "opened V k' = opened V k" and "same_streams V {} k k'"
  using assms(1) [unfolded memory_law_def, THEN conjunct2, THEN conjunct1, rule_format, of k] by (simp_all add: assms(2))

lemma new_client_ok:
  assumes "memory_law K V" and "opens V fd k1 k2"
  shows "client_ok V k2 \<lparr>ud_fd = fd, buf_sz = int sizeof_buf, buf_len = 0, buf_pos = 0, buf = e_junk K\<rparr>"
  using assms by (simp add: client_ok_def buffer_ok_def pending_def memory_law_def opens_def)

lemma not_held_free: "echo_ok V w \<Longrightarrow> p \<notin> held V (sys w) \<Longrightarrow> clients w p = None \<and> servers w p = None"
  using echo_okD(3) [of V w p] by (cases "clients w p"; cases "servers w p") (auto simp: owner_fd_def)

lemma server_read_cb_keeps:
  assumes "echo_law K V"
  shows "act_keeps (echo_ok V) (server_read_cb K ty q)"
proof -
  have law: "memory_law K V" "descriptor_law K V" using assms by (simp_all add: echo_law_def)
  have "act_keeps (echo_ok V) (with_server q (server_on_exit K q))"
  proof (rule with_server_keeps)
    fix fd w
    assume ok: "echo_ok V w" and c: "servers w q = Some fd"
    have n: "clients w q = None" using echo_okD(2) [OF ok, of q] c by (cases "clients w q") auto
    have o: "owner_fd w q = Some fd" using c n by (simp add: owner_fd_def)
    have "echo_ok V (w\<lparr>servers := (servers w)(q := None), sys := e_free K q (n_close K fd (sys w))\<rparr>)"
      by (rule echo_ok_gone [OF law ok o]) (use n in auto)
    then show "echo_ok V (fst (server_on_exit K q fd w)) \<and> act_keeps (echo_ok V) (snd (server_on_exit K q fd w))"
      by (simp add: server_on_exit_def)
  qed
  moreover have "act_keeps (echo_ok V) (with_server q (server_on_read K q))"
  proof (rule with_server_keeps)
    fix fd w
    assume ok: "echo_ok V w" and c: "servers w q = Some fd"
    obtain p k1 where m: "e_malloc K (sys w) = (p, k1)" by (cases "e_malloc K (sys w)")
    show "echo_ok V (fst (server_on_read K q fd w)) \<and> act_keeps (echo_ok V) (snd (server_on_read K q fd w))"
    proof (cases "net_accept K fd k1")
      case (Inl e)
      then show ?thesis using ok by (simp add: server_on_read_def m)
    next
      case (Inr a)
      obtain cd host port k2 where a: "net_accept K fd k1 = Inr ((cd, host, port), k2)" using Inr by (cases a) auto
      show ?thesis
      proof (cases p)
        case None
        then show ?thesis using ok by (simp add: server_on_read_def m a)
      next
        case (Some x)
        note new = memory_lawD [OF law(1) m [unfolded Some]]
        let ?ud = "\<lparr>ud_fd = cd, buf_sz = int sizeof_buf, buf_len = 0, buf_pos = 0, buf = e_junk K\<rparr>"
        note k2 = net_accept_opens [OF law(2) a]
        have "echo_ok V (w\<lparr>clients := (clients w)(x \<mapsto> ?ud), sys := k2\<rparr>)"
          by (rule echo_ok_new [OF ok new k2])
            (use not_held_free [OF ok new(1)] new_client_ok [OF law(1) k2] in \<open>auto simp: owner_fd_def\<close>)
        then show ?thesis
          by (simp add: server_on_read_def m a Some Let_def act_keeps_World echo_ok_printf [OF law(2)])
      qed
    qed
  qed
  ultimately show ?thesis unfolding server_read_cb_def by auto
qed

definition engines_keep :: "('u \<Rightarrow> bool) \<Rightarrow> ('e \<Rightarrow> msg_type \<Rightarrow> byte list \<Rightarrow> 32 word \<Rightarrow> nat option \<Rightarrow> ('c, nat, 'u) act) \<Rightarrow> bool" where
  "engines_keep I engines \<longleftrightarrow> (\<forall>e ty payload sz data. act_keeps I (engines e ty payload sz data))"

lemma echo_program_keeps:
  assumes law: "echo_law K V" and engines: "engines_keep (echo_ok V) engines"
  shows "program_keeps (echo_ok V) (echo_program K engines)"
proof -
  have p: "descriptor_law K V" using law by (simp add: echo_law_def)
  have q: "act_keeps (echo_ok V) (handle_quit_cb K ty)" "act_keeps (echo_ok V) (handle_info_cb K ty payload)" for ty payload
    by (simp_all add: handle_quit_cb_def handle_info_cb_def act_keeps_World echo_ok_printf [OF p])
  have i: "act_keeps (echo_ok V) (handle_quit K data)" "act_keeps (echo_ok V) (handle_info K data)" for data
    by (simp_all add: handle_quit_def handle_info_def)
  show ?thesis
    unfolding program_keeps_def echo_program_def program.simps
    by (intro conjI allI) (auto intro!: deref_keeps client_read_cb_keeps [OF law] client_write_cb_keeps [OF law]
        server_read_cb_keeps [OF law] simp: q i engines [unfolded engines_keep_def, rule_format] split: echo_name.split)
qed

section \<open>The whole program\<close>

lemma net_bind_opens:
  assumes law: "descriptor_law K V" and b: "net_bind K host port k = (fd, k')" and fd: "\<not> fd < 0"
  shows "opens V fd k k'"
proof -
  note d = descriptor_lawD [OF law]
  have set_option: "same_but V {} k (try_option K sd opt what k)" for sd opt what k
  proof -
    obtain r k1 where "n_setsockopt K sd opt 1 k = (r, k1)" by (cases "n_setsockopt K sd opt 1 k")
    then show ?thesis using d(5) same_but_trans [OF d(5) d(2)] by (simp add: try_option_def)
  qed
  have lookup: "same_but V {} k k'" if "net_gethostbyname K host k = (a, k')" for k k' a
    using that d(8) same_but_trans [OF d(8) d(2)]
    by (auto simp: net_gethostbyname_def split: option.splits if_splits prod.splits)
  obtain sd k1 where s: "n_socket K k = (sd, k1)" by (cases "n_socket K k")
  let ?k2 = "try_option K sd SO_REUSEADDR ''setsockopt(SO_REUSEADDR)'' k1"
  obtain a k3 where a: "net_gethostbyname K host ?k2 = (a, k3)" by (cases "net_gethostbyname K host ?k2")
  have sd: "\<not> sd < 0" using b fd by (auto simp: net_bind_def s split: if_splits)
  obtain x where x: "a = Some x" using b fd sd by (cases a) (auto simp: net_bind_def s a Let_def)
  obtain r k4 where r: "n_bind K sd (net_sockaddr x port) k3 = (r, k4)" by (cases "n_bind K sd (net_sockaddr x port) k3")
  obtain r' k5 where r': "n_listen K sd 32 k4 = (r', k5)" by (cases "n_listen K sd 32 k4")
  have e: "fd = sd" "k' = net_set_nonblocking K sd k5"
    using b fd sd by (auto simp: net_bind_def s a x r r' Let_def split: if_splits)
  have "same_but V {} k1 k'"
    unfolding e by (rule same_but_trans [OF same_but_trans [OF same_but_trans [OF same_but_trans [OF set_option lookup [OF a]]
        d(6) [OF r]] d(7) [OF r']] net_set_nonblocking_unseen [OF law]])
  then show ?thesis using opens_trans [OF d(10) [OF s]] e(1) by simp
qed

text \<open>The whole of \<open>main\<close>, from a state in which nothing is owned yet.\<close>

lemma echosrv_main_keeps:
  assumes law: "echo_law K V" and engines: "engines_keep (echo_ok V) engines"
    and h: "hooks_keep (echo_ok V) s"
    and linked: "\<And>b. msock_base_new linked echo_engines ram ms ps h u = Inr b \<Longrightarrow> echo_ok V (world b)"
    and run: "echosrv_main K s (echo_program K engines) n linked ram ms ps h u = Inr (0, u')"
  shows "echo_ok V u'"
proof -
  let ?prog = "echo_program K engines"
  note p = echo_program_keeps [OF law engines]
  have d: "memory_law K V" "descriptor_law K V" using law by (simp_all add: echo_law_def)
  obtain b where b: "msock_base_new linked echo_engines ram ms ps h u = Inr b" using run by (auto simp: echosrv_main_def)
  note ok = linked [OF b]
  obtain sd k1 where m: "e_malloc K (sys (world b)) = (sd, k1)" by (cases "e_malloc K (sys (world b))")
  obtain q where q: "sd = Some q" using run b m by (cases sd) (auto simp: echosrv_main_def)
  obtain fd k2 where f: "net_bind K (Some ''0.0.0.0'') 1234 k1 = (fd, k2)" by (cases "net_bind K (Some ''0.0.0.0'') 1234 k1")
  let ?w = "(world b)\<lparr>servers := (servers (world b))(q \<mapsto> fd), sys := k2\<rparr>"
  have pos: "\<not> fd < 0" using run by (auto simp: echosrv_main_def b m q f Let_def)
  note new = memory_lawD [OF d(1) m [unfolded q]]
  have w: "echo_ok V ?w"
    by (rule echo_ok_new [OF ok new net_bind_opens [OF d(2) f pos]])
      (use not_held_free [OF ok new(1)] in \<open>auto simp: owner_fd_def\<close>)
  obtain i1 b1 i2 b2 i3 b3 b4 v where r: "msock_base_spawn2 s ?prog n Server_Read (Some q) (b\<lparr>world := ?w\<rparr>) = Inr (i1, b1)"
    "msock_base_spawn2 s ?prog n Handle_Quit None b1 = Inr (i2, b2)" "msock_base_spawn2 s ?prog n Handle_Info None b2 = Inr (i3, b3)"
    "msock_base_loop s ?prog n b3 = Inr b4" "msock_base_free s b4 = Inr v" "u' = printf K ''done!'' [] v"
    using run pos by (auto simp: echosrv_main_def b m q f Let_def)
  note keep = library_keeps_outside [OF h p]
  have "echo_ok V (world b1)" using keep(1) [OF _ r(1)] w by simp
  then have "echo_ok V (world b4)" using keep(1) [OF _ r(2)] keep(1) [OF _ r(3)] keep(4) [OF _ r(4)] by blast
  then show ?thesis unfolding r(6) using keep(5) [OF _ r(5)] by (intro echo_ok_printf [OF d(2)])
qed

text \<open>
  A client does not know the message \<open>MSG_EXIT\<close>: when the loop is asked to end (by Ctrl+C) while a
  client is connected, the server aborts.
\<close>

lemma client_aborts_on_exit:
  assumes "vq_get (inbox (procs b p)) = (Some m, q)" and "m_type (msgs b m) = MSG_EXIT"
    and "receive_callback (procs b p) = Some c" and "c = Client_Read_Cb \<or> c = Client_Write_Cb"
    and "receive_data (procs b p) = Some ud"
  shows "process_run s (echo_program K engines) (Suc n) p b = Inl Abort"
  using assms
  by (auto simp: Let_def set_process_def echo_program_def deref_def client_read_cb_def client_write_cb_def msg_types)

text \<open>
  C11: The echo server gives back what it is sent. Whatever the system answers and whatever messages
  come, after any run of a process or of the whole loop of the library
  every connected client has been sent exactly what was read from it, in order, but for the bytes
  that are still in its buffer; the buffer never holds more than its megabyte, and no two clients
  share their memory or their descriptor. The system's calls are as documented, and the callbacks of
  the engines leave the descriptors of the program alone.
\<close>

theorem echo_server_echoes:
  assumes "echo_law K V" and "engines_keep (echo_ok V) engines"
    and "hooks_keep (echo_ok V) s" and "echo_ok V (world b)"
    and "process_run s (echo_program K engines) n q b = Inr b' \<or> msock_base_loop s (echo_program K engines) n b = Inr b'"
  shows "echo_ok V (world b') \<and>
    (\<forall>p ud. clients (world b') p = Some ud \<longrightarrow> 0 \<le> ud_fd ud \<longrightarrow>
      got V (ud_fd ud) (sys (world b')) = sent V (ud_fd ud) (sys (world b')) @ pending ud \<and>
      length (pending ud) \<le> sizeof_buf)"
proof -
  note p = echo_program_keeps [OF assms(1,2)]
  have ok: "echo_ok V (world b')"
    using assms(5) process_run_keeps [OF assms(3) p _ assms(4)] library_keeps_outside(4) [OF assms(3) p assms(4)] by blast
  have "got V (ud_fd ud) (sys (world b')) = sent V (ud_fd ud) (sys (world b')) @ pending ud \<and> length (pending ud) \<le> sizeof_buf"
    if "clients (world b') q = Some ud" "0 \<le> ud_fd ud" for q ud
  proof -
    have "client_ok V (sys (world b')) ud" by (rule echo_okD(1) [OF ok that(1)])
    then show ?thesis using that(2) by (auto simp: client_ok_def buffer_ok_def pending_def)
  qed
  then show ?thesis using ok by blast
qed

text \<open>A connection on the descriptor 5 sends a line; its process, which waits for it, sends the line back.\<close>

record demo_sys =
  d_open :: "int set"
  d_got :: "int \<Rightarrow> byte list"
  d_sent :: "int \<Rightarrow> byte list"
  d_held :: "nat set"

definition demo_view :: "demo_sys observed" where
  "demo_view = \<lparr>opened = d_open, got = (\<lambda>fd k. d_got k fd), sent = (\<lambda>fd k. d_sent k fd), held = d_held\<rparr>"

definition demo_calls :: "demo_sys echo_calls" where
  "demo_calls =
     \<lparr>n_socket = (\<lambda>k. (- 1, k)), n_setsockopt = (\<lambda>fd opt v k. (0, k)), n_getsockopt = (\<lambda>fd opt k. ((- 1, 0), k)),
      n_getfl = (\<lambda>fd k. (0, k)), n_setfl = (\<lambda>fd v k. (0, k)), n_bind = (\<lambda>fd a k. (- 1, k)), n_listen = (\<lambda>fd n k. (- 1, k)),
      n_accept = (\<lambda>fd k. ((- 1, net_sockaddr 0 0), k)), n_connect = (\<lambda>fd a k. (- 1, k)), n_errno = (\<lambda>k. 0),
      n_close = (\<lambda>fd k. k\<lparr>d_open := d_open k - {fd}\<rparr>), n_aton = (\<lambda>h. None), n_ntoa = (\<lambda>a. []),
      n_getaddrinfo = (\<lambda>h k. (None, k)), n_log = (\<lambda>what k. k), n_reuseport = False,
      e_read = (\<lambda>fd n k. let bytes = take n [104, 105, 10] in (Some bytes, k\<lparr>d_got := (d_got k)(fd := d_got k fd @ bytes)\<rparr>)),
      e_write = (\<lambda>fd bytes k. (int (length bytes), k\<lparr>d_sent := (d_sent k)(fd := d_sent k fd @ bytes)\<rparr>)),
      e_malloc = (\<lambda>k. (None, k)), e_free = (\<lambda>p k. k\<lparr>d_held := d_held k - {p}\<rparr>), e_printf = (\<lambda>fmt args k. k),
      e_junk = replicate sizeof_buf 0, e_pad = [0, 0, 0, 0], e_siginfo = [], e_now = (\<lambda>k. 0)\<rparr>"

lemma demo_law: "echo_law demo_calls demo_view"
  unfolding echo_law_def
proof (intro conjI)
  show "read_law demo_calls demo_view" "write_law demo_calls demo_view" "memory_law demo_calls demo_view"
    by (simp_all add: read_law_def write_law_def memory_law_def demo_calls_def demo_view_def same_but_def same_streams_def Let_def)
  show "descriptor_law demo_calls demo_view"
    by (simp add: descriptor_law_def opens_def unseen_def demo_calls_def demo_view_def same_but_def same_streams_def)
qed

definition demo_client :: client_data where
  "demo_client = \<lparr>ud_fd = 5, buf_sz = int sizeof_buf, buf_len = 0, buf_pos = 0, buf = replicate sizeof_buf 0\<rparr>"

definition demo_sys_at :: "byte list \<Rightarrow> byte list \<Rightarrow> demo_sys" where
  "demo_sys_at r w = \<lparr>d_open = {5}, d_got = (\<lambda>fd. if fd = 5 then r else []), d_sent = (\<lambda>fd. if fd = 5 then w else []), d_held = {7000}\<rparr>"

definition demo_world :: "demo_sys echo_world" where
  "demo_world =
     \<lparr>clients = [7000 \<mapsto> demo_client], servers = (\<lambda>_. None),
      sys = demo_sys_at [] []\<rparr>"

lemma demo_world_ok: "echo_ok demo_view demo_world"
  by (rule echo_okI)
    (auto simp: demo_world_def demo_sys_at_def demo_view_def demo_client_def client_ok_def buffer_ok_def pending_def owner_fd_def split: if_splits)

definition demo_base :: "(unit echo_name, nat, demo_sys echo_world) base" where
  "demo_base =
     \<lparr>queue_of_domains = [Divider], zone_messages = example_zone, zone_processes = example_zone,
      gid_to_domain = [None, Some ((example_domain 10 64 65 [1000, 1001, 1002])), None, None, None],
      list_of_domains = [1], name_table = [0, poff_gid_to_pid 3 2], memory = empty_ram,
      msgs = (\<lambda>_. blank_message\<lparr>m_type := MSG_FD_READ\<rparr>),
      procs = (\<lambda>p. \<lparr>inbox = \<lparr>vq_items = [900], vq_tail = True\<rparr>, badmatch = vq_empty, receive_callback = Some Client_Read_Cb,
        receive_data = Some 7000, p_domain = Some 1, p_pid = poff_gid_to_pid 3 1\<rparr>),
      busy_next = (\<lambda>_. Poison), current_process = Some 64, world = demo_world\<rparr>"

definition demo_surroundings :: "(nat, demo_sys echo_world) surroundings" where
  "demo_surroundings = \<lparr>s_os = bump_os, ingress_callback = (\<lambda>kind data u. u), destructor = (\<lambda>kind data u. u)\<rparr>"

definition demo_engines :: "unit \<Rightarrow> msg_type \<Rightarrow> byte list \<Rightarrow> 32 word \<Rightarrow> nat option \<Rightarrow> (unit echo_name, nat, demo_sys echo_world) act" where
  "demo_engines e ty payload sz data = Fail Abort"

definition demo_buf :: "byte list" where
  "demo_buf = [104, 105, 10] @ replicate (sizeof_buf - 3) 0"

definition demo_full :: client_data where
  "demo_full = \<lparr>ud_fd = 5, buf_sz = int sizeof_buf, buf_len = 3, buf_pos = 0, buf = demo_buf\<rparr>"

definition demo_after :: "demo_sys echo_world" where
  "demo_after = \<lparr>clients = [7000 \<mapsto> demo_full\<lparr>buf_len := 0\<rparr>], servers = (\<lambda>_. None), sys = demo_sys_at [104, 105, 10] [104, 105, 10]\<rparr>"

lemma demo_buf_simps [simp]: "length demo_buf = sizeof_buf" "take 3 demo_buf = [104, 105, 10]" "demo_buf ! 2 = 10"
  by (simp_all add: demo_buf_def sizeof_buf_def)

lemma demo_min: "echo_min 65536 (int sizeof_buf) = 65536" "echo_min 65536 3 = 3" "3 \<le> sizeof_buf" "3 \<le> int sizeof_buf"
  "int sizeof_buf \<noteq> 3"
  by (simp_all add: echo_min_def sizeof_buf_def)

lemma demo_io:
  "e_read demo_calls 5 65536 (demo_sys_at [] w) = (Some [104, 105, 10], demo_sys_at [104, 105, 10] w)"
  "e_write demo_calls 5 [104, 105, 10] (demo_sys_at r []) = (3, demo_sys_at r [104, 105, 10])"
  by (auto simp: demo_calls_def demo_sys_at_def Let_def fun_eq_iff)

lemma demo_fill:
  "client_fill demo_calls demo_client (demo_sys_at [] []) = Inr (3, demo_client\<lparr>buf := demo_buf\<rparr>, demo_sys_at [104, 105, 10] [])"
  by (simp add: client_fill_def demo_client_def demo_min demo_io byte_count_small Let_def demo_buf_def) (simp add: sizeof_buf_def)

lemma demo_drain:
  "client_drain demo_calls demo_full (demo_sys_at r []) = Inr (3, demo_sys_at r [104, 105, 10])"
  using demo_min(3,4) by (simp add: client_drain_def demo_full_def demo_min demo_io byte_count_small Let_def)
    (simp add: sizeof_buf_def)

lemma demo_read:
  "client_on_read demo_calls 7000 demo_client demo_world =
     (\<lparr>clients = [7000 \<mapsto> demo_full], servers = (\<lambda>_. None), sys = demo_sys_at [104, 105, 10] []\<rparr>, client_write demo_calls 7000 False)"
  by (simp add: client_on_read_def demo_fill Let_def demo_world_def) (auto simp: demo_client_def demo_full_def)

lemma demo_write:
  "client_on_write demo_calls 7000 demo_full
     \<lparr>clients = [7000 \<mapsto> demo_full], servers = (\<lambda>_. None), sys = demo_sys_at [104, 105, 10] []\<rparr> =
     (demo_after, client_read demo_calls 7000)"
  by (simp add: client_on_write_def demo_drain Let_def demo_after_def) (simp add: demo_full_def)

lemma demo_pids: "pid_to_gid PID_SELECT = 0" "pid_to_poff PID_SELECT = 1" "poff_gid_to_pid 3 2 \<noteq> 0"
  using example_parts(5) by (simp_all add: pid_to_gid_def pid_to_poff_def PID_SELECT_def POFF_BITS_def GID_BITS_def) auto

lemma demo_send:
  assumes "length payload = 24"
  shows "\<exists>b. send_indirect s 1 PID_SELECT ty payload 24 (demo_base\<lparr>procs := ps, world := w\<rparr>) = Inr b \<and> world b = w \<and> procs b = ps \<and>
    current_process b = Some 64 \<and> (\<exists>d. get_domain 1 b = Inr d)"
  using assms
  by (simp add: send_indirect_def message_malloc_def demo_base_def name_to_pid_def demo_pids example_parts(5) MAX_MSG_PAYLOAD_SZ_def
      get_domain_def set_domain_def example_domain_def cache_malloc_def vq_get_def Let_def MAX_DOMAINS_def)

lemma demo_waits:
  "\<exists>b. run_act s rc (client_read demo_calls 7000) (demo_base\<lparr>procs := ps, world := demo_after\<rparr>) = Inr (RECV_OK, b) \<and>
     world b = demo_after \<and> inbox (procs b 64) = vq_empty \<and> p_domain (procs b 64) = Some 1 \<and> (\<exists>d. get_domain 1 b = Inr d)"
  if "inbox (ps 64) = vq_empty" and "badmatch (ps 64) = vq_empty" and "p_domain (ps 64) = Some 1"
proof -
  let ?b = "demo_base\<lparr>procs := ps, world := demo_after\<rparr>"
  let ?payload = "encode_msg_fd (e_pad demo_calls) (fd_request 0 (p_pid (ps 64)) 5 0)"
  have l: "length ?payload = 24" by (simp add: encode_msg_fd_def demo_calls_def)
  from demo_send [OF l, where s = s and ty = MSG_FD_REGISTER_READ and ps = ps and w = demo_after] obtain b where
    b: "send_indirect s 1 PID_SELECT MSG_FD_REGISTER_READ ?payload 24 ?b = Inr b" "world b = demo_after" "procs b = ps"
    "current_process b = Some 64" "\<exists>d. get_domain 1 b = Inr d" by blast
  have f: "fd_request (e_now demo_calls k) pid 5 0 = fd_request 0 pid 5 0" for k pid by (simp add: fd_request_def)
  have p: "current_domain ?b = Inr 1" "msock_self ?b = Inr (p_pid (ps 64))"
    using that(3) by (simp_all add: current_domain_def msock_self_def get_current_process_def demo_base_def)
  have q: "vq_splice_prepend vq_empty vq_empty = Some (vq_empty, vq_empty :: addr vqueue)"
    by (simp add: vq_splice_prepend_def vq_empty_def)
  have w: "clients demo_after 7000 = Some (demo_full\<lparr>buf_len := 0\<rparr>)" "world ?b = demo_after" "ud_fd demo_full = 5"
    by (simp_all add: demo_after_def demo_full_def)
  let ?b' = "b\<lparr>procs := ps(64 := (ps 64)\<lparr>receive_callback := Some Client_Read_Cb, receive_data := Some 7000,
    badmatch := vq_empty, inbox := vq_empty\<rparr>)\<rparr>"
  have "run_act s rc (client_read demo_calls 7000) ?b = Inr (RECV_OK, ?b')"
    using b(1-4) that q w p
    by (simp add: client_read_def with_client_def send_msg_fd_def Let_def f msock_send_def sizeof_msg_fd_def
        msock_receive_def get_current_process_def set_process_def)
  moreover have "get_domain 1 ?b' = get_domain 1 b" by (simp add: get_domain_def)
  ultimately show ?thesis using b(2,5) that(3) by (intro exI [of _ ?b']) simp
qed

theorem echo_server_echoes_witness:
  "\<exists>b'. process_run demo_surroundings (echo_program demo_calls demo_engines) 2 64 demo_base = Inr b' \<and>
     got demo_view 5 (sys (world b')) = [104, 105, 10] \<and> sent demo_view 5 (sys (world b')) = [104, 105, 10] \<and>
     echo_ok demo_view (world b')"
proof -
  let ?prog = "echo_program demo_calls demo_engines" and ?q = "vq_empty :: addr vqueue"
  let ?ps = "(procs demo_base)(64 := (procs demo_base 64)\<lparr>inbox := vq_empty\<rparr>)"
  have g: "vq_get (inbox (procs demo_base 64)) = (Some 900, vq_empty)" by (simp add: demo_base_def vq_get_def vq_empty_def)
  have m: "receive_callback (procs demo_base 64) = Some Client_Read_Cb" "receive_data (procs demo_base 64) = Some 7000"
    "m_type (msgs demo_base 900) = MSG_FD_READ" "world demo_base = demo_world" "clients demo_world 7000 = Some demo_client"
    by (simp_all add: demo_base_def demo_world_def)
  have ps: "inbox (?ps 64) = vq_empty" "badmatch (?ps 64) = vq_empty" "p_domain (?ps 64) = Some 1" by (simp_all add: demo_base_def)
  obtain b d where b: "run_act demo_surroundings (run_constructor demo_surroundings ?prog 1) (client_read demo_calls 7000)
      (demo_base\<lparr>procs := ?ps, world := demo_after\<rparr>) = Inr (RECV_OK, b)" "world b = demo_after"
    "inbox (procs b 64) = vq_empty" "p_domain (procs b 64) = Some 1" "get_domain 1 b = Inr d"
    using demo_waits [of ?ps demo_surroundings "run_constructor demo_surroundings ?prog 1", OF ps] by blast
  have a: "run_act demo_surroundings (run_constructor demo_surroundings ?prog 1)
      (on_message ?prog Client_Read_Cb MSG_FD_READ payload sz (Some 7000)) (demo_base\<lparr>procs := ?ps\<rparr>) = Inr (RECV_OK, b)" for payload sz
    using b(1) m
    by (simp add: echo_program_def deref_def client_read_cb_def with_client_def demo_read client_write_def client_write_cb_def
        demo_write Let_def)
  have f: "message_free 1 900 b = Inr (set_domain 1 (d\<lparr>cache_messages := cache_free 900 (cache_messages d)\<rparr>) b)"
    using b(5) by (simp add: message_free_def)
  let ?b' = "set_domain 1 (d\<lparr>cache_messages := cache_free 900 (cache_messages d)\<rparr>) b"
  have e: "vq_get vq_empty = (None, ?q)" by (simp add: vq_get_def vq_empty_def)
  have s: "procs (set_domain g x b) = procs b" for g x b by (simp add: set_domain_def)
  have r: "process_run demo_surroundings ?prog 1 64 ?b' = Inr (set_process 64 ((procs b 64)\<lparr>inbox := vq_empty\<rparr>) ?b')"
    using b(3) e by (simp add: s)
  have run: "process_run demo_surroundings ?prog 2 64 demo_base = Inr (set_process 64 ((procs b 64)\<lparr>inbox := vq_empty\<rparr>) ?b')"
    using a g m b(4) f r by (simp add: numeral_2_eq_2 Let_def set_process_def)
  have k: "engines_keep (echo_ok demo_view) demo_engines" "hooks_keep (echo_ok demo_view) demo_surroundings"
    by (simp_all add: engines_keep_def demo_engines_def hooks_keep_def demo_surroundings_def)
  have "echo_ok demo_view (world demo_base)" using demo_world_ok by (simp add: m)
  note x = echo_server_echoes [OF demo_law k this disjI1 [OF run]]
  have "got demo_view 5 (sys demo_after) = [104, 105, 10]" "sent demo_view 5 (sys demo_after) = [104, 105, 10]"
    by (simp_all add: demo_after_def demo_sys_at_def demo_view_def)
  then show ?thesis using run x b(2) by auto
qed
end
