(* ===== verification/Engine_Io.thy ===== *)
theory Engine_Io
  imports Engine_Os Delivery
begin

text \<open>
  The engine of file operations (\<open>src/msock_engine_io.c\<close>, \<open>src/io.c\<close>): a process in a domain of its own,
  in whose thread the calls may block. A request is the bytes of a \<open>struct msock_msg_io\<close>; the answer,
  of the same type, is the request with the result filled in.
\<close>

section \<open>Messages\<close>

text \<open>\<open>buf\<close> and \<open>pathname\<close> are addresses; what they point to belongs to the program.\<close>

record msg_io =
  io_victim :: pid
  io_fd :: "32 word"
  io_buf :: ulong
  io_count :: ulong
  io_offset :: ulong
  io_pathname :: ulong
  io_flags :: "32 word"
  io_mode :: "32 word"
  io_ret :: "32 word"
  io_errno :: "32 word"

definition sizeof_msg_io :: nat where "sizeof_msg_io = 64"

text \<open>\<open>pad\<close> are the four bytes after \<open>fd\<close>.\<close>

definition encode_msg_io :: "byte list \<Rightarrow> msg_io \<Rightarrow> byte list" where
  "encode_msg_io pad m =
     le_bytes 8 (unat (io_victim m)) @ le_bytes 4 (unat (io_fd m)) @ pad @ le_bytes 8 (unat (io_buf m)) @
     le_bytes 8 (unat (io_count m)) @ le_bytes 8 (unat (io_offset m)) @ le_bytes 8 (unat (io_pathname m)) @
     le_bytes 4 (unat (io_flags m)) @ le_bytes 4 (unat (io_mode m)) @ le_bytes 4 (unat (io_ret m)) @ le_bytes 4 (unat (io_errno m))"

definition decode_msg_io :: "byte list \<Rightarrow> msg_io" where
  "decode_msg_io bytes =
     \<lparr>io_victim = of_nat (field 0 8 bytes), io_fd = of_nat (field 8 4 bytes), io_buf = of_nat (field 16 8 bytes),
      io_count = of_nat (field 24 8 bytes), io_offset = of_nat (field 32 8 bytes), io_pathname = of_nat (field 40 8 bytes),
      io_flags = of_nat (field 48 4 bytes), io_mode = of_nat (field 52 4 bytes), io_ret = of_nat (field 56 4 bytes),
      io_errno = of_nat (field 60 4 bytes)\<rparr>"

lemma le_nat_word4: "le_nat (le_bytes 4 (unat (w :: 32 word))) = unat w"
  using unat_word32_less [of w] by (simp add: le_nat_le_bytes)

lemma le_nat_word8: "le_nat (le_bytes 8 (unat (w :: ulong))) = unat w"
  using unat_ulong_less [of w] by (simp add: le_nat_le_bytes)

text \<open>A field after a prefix whose length is known.\<close>

lemma field_skip: "length xs = off \<Longrightarrow> field (off + n) k (xs @ ys) = field n k ys"
  by (simp add: field_def)

lemma field_here: "length xs = k \<Longrightarrow> field 0 k (xs @ ys) = le_nat xs"
  by (simp add: field_def)

lemma decode_encode_msg_io:
  assumes "length pad = 4"
  shows "decode_msg_io (encode_msg_io pad m @ rest) = m" and "length (encode_msg_io pad m) = sizeof_msg_io"
proof -
  show "length (encode_msg_io pad m) = sizeof_msg_io" using assms by (simp add: encode_msg_io_def sizeof_msg_io_def)
  show "decode_msg_io (encode_msg_io pad m @ rest) = m"
    using assms unfolding decode_msg_io_def encode_msg_io_def field_def by (simp add: le_nat_word4 le_nat_word8)
qed

section \<open>The calls\<close>

text \<open>Each call answers with its result and \<open>errno\<close>; \<open>k_pread\<close> answers with a signed long.\<close>

record 'k io_calls = "'k os_calls" +
  k_open :: "ulong \<Rightarrow> 32 word \<Rightarrow> 32 word \<Rightarrow> 'k \<Rightarrow> (32 word \<times> 32 word) \<times> 'k"
  k_fsync :: "32 word \<Rightarrow> 'k \<Rightarrow> (32 word \<times> 32 word) \<times> 'k"
  k_pread :: "32 word \<Rightarrow> ulong \<Rightarrow> ulong \<Rightarrow> ulong \<Rightarrow> 'k \<Rightarrow> (ulong \<times> 32 word) \<times> 'k"

text \<open>\<open>io_open\<close>, \<open>io_fsync\<close>, \<open>io_pread\<close>, with the value of \<open>*errno_ptr\<close> before and after.\<close>

definition io_open :: "('k, 'z) io_calls_scheme \<Rightarrow> ulong \<Rightarrow> 32 word \<Rightarrow> 32 word \<Rightarrow> 32 word \<Rightarrow> 'k \<Rightarrow> 32 word \<times> 32 word \<times> 'k" where
  "io_open K pathname flags mode old k =
     (case k_open K pathname flags mode k of ((r, e), k) \<Rightarrow> (r, if r = - 1 then e else old, k))"

definition io_fsync :: "('k, 'z) io_calls_scheme \<Rightarrow> 32 word \<Rightarrow> 32 word \<Rightarrow> 'k \<Rightarrow> 32 word \<times> 32 word \<times> 'k" where
  "io_fsync K fd old k = (case k_fsync K fd k of ((r, e), k) \<Rightarrow> (r, if r \<noteq> 0 then e else old, k))"

definition io_pread :: "('k, 'z) io_calls_scheme \<Rightarrow> 32 word \<Rightarrow> ulong \<Rightarrow> ulong \<Rightarrow> ulong \<Rightarrow> 32 word \<Rightarrow> 'k \<Rightarrow> 32 word \<times> 32 word \<times> 'k" where
  "io_pread K fd buf cnt offset old k =
     (case k_pread K fd buf cnt offset k of ((n, e), k) \<Rightarrow> let r = ucast n in (r, if r = - 1 then e else old, k))"

section \<open>The callback\<close>

record io_data =
  pipe_read :: fd

text \<open>One operation: the request with its result. The int of \<open>io_pread\<close> is sign extended to the count.\<close>

definition io_operation :: "('k, 'z) io_calls_scheme \<Rightarrow> msg_type \<Rightarrow> msg_io \<Rightarrow> 'k \<Rightarrow> (msg_io \<times> 'k) option" where
  "io_operation K ty m k =
     (if ty = MSG_IO_FSYNC
      then case io_fsync K (io_fd m) (io_errno m) k of (r, e, k) \<Rightarrow> Some (m\<lparr>io_ret := r, io_errno := e\<rparr>, k)
      else if ty = MSG_IO_PREAD
      then case io_pread K (io_fd m) (io_buf m) (io_count m) (io_offset m) (io_errno m) k of
             (r, e, k) \<Rightarrow> Some (m\<lparr>io_count := scast r, io_errno := e\<rparr>, k)
      else if ty = MSG_IO_OPEN
      then case io_open K (io_pathname m) (io_flags m) (io_mode m) (io_errno m) k of
             (r, e, k) \<Rightarrow> Some (m\<lparr>io_fd := r, io_errno := e\<rparr>, k)
      else None)"

text \<open>\<open>io_data_free\<close> closes the pipe. The answer is a copy of the request, its padding included.\<close>

definition io_data_free :: "('k, 'z) os_calls_scheme \<Rightarrow> io_data \<Rightarrow> 'k \<Rightarrow> 'k" where
  "io_data_free K d k = k_close K (pipe_read d) k"

definition io_process_callback :: "('k, 'z) io_calls_scheme \<Rightarrow> msg_type \<Rightarrow> byte list \<Rightarrow> io_data \<Rightarrow> 'k \<Rightarrow>
    error + (recv \<times> io_data option \<times> (pid \<times> byte list) option \<times> 'k)" where
  "io_process_callback K ty payload d k =
     (let m = decode_msg_io payload in
      case io_operation K ty m k of
        Some (out, k) \<Rightarrow> Inr (RECV_OK, Some d, Some (io_victim m, encode_msg_io (take 4 (drop 12 payload)) out), k)
      | None \<Rightarrow>
          if ty = MSG_EXIT then Inr (RECV_EXIT, None, None, io_data_free K d k)
          else if ty = MSG_QUEUE_EMPTY then Inr (RECV_OK, Some d, None, k_read K (pipe_read d) 256 k)
          else Inl (Fatal ''?''))"

definition io_act :: "('u, 'z) io_calls_scheme \<Rightarrow> ('u \<Rightarrow> io_data option) \<Rightarrow> (io_data option \<Rightarrow> 'u \<Rightarrow> 'u) \<Rightarrow>
    msg_type \<Rightarrow> byte list \<Rightarrow> ('c, 'd, 'u) act" where
  "io_act K get put ty payload =
     World (\<lambda>u. case rbind (need (get u)) (\<lambda>d. io_process_callback K ty payload d u) of
                  Inl e \<Rightarrow> (u, Fail e)
                | Inr (r, d, None, u) \<Rightarrow> (put d u, Return r)
                | Inr (r, d, Some (v, bytes), u) \<Rightarrow> (put d u, Send v ty bytes (of_nat sizeof_msg_io) (Return r)))"

text \<open>\<open>io_constructor\<close>: \<open>put\<close> stores the engine's data, to which \<open>data\<close> points, in the world.\<close>

definition io_constructor :: "('d, 'u) surroundings \<Rightarrow> ('u, 'z) io_calls_scheme \<Rightarrow> nat \<Rightarrow> (fd \<Rightarrow> 'd) \<Rightarrow> 'c \<Rightarrow> 'd \<Rightarrow>
    (io_data \<Rightarrow> 'u \<Rightarrow> 'u) \<Rightarrow> ('c, 'd, 'u) base \<Rightarrow> error + ('c, 'd, 'u) base" where
  "io_constructor s K prot pipe_data cb data put b =
     rbind (open_pipe K (world b)) (\<lambda>(r, w, k).
     rbind (start_engine s prot (Some (pipe_data w)) cb (Some data) PID_IO (b\<lparr>world := k\<rparr>)) (\<lambda>(pid, b).
       Inr (b\<lparr>world := put \<lparr>pipe_read = r\<rparr> (world b)\<rparr>)))"

section \<open>Requests\<close>

text \<open>\<open>memset\<close> clears the message, padding included.\<close>

definition blank_msg_io :: "pid \<Rightarrow> msg_io" where
  "blank_msg_io v = \<lparr>io_victim = v, io_fd = 0, io_buf = 0, io_count = 0, io_offset = 0, io_pathname = 0, io_flags = 0, io_mode = 0,
     io_ret = 0, io_errno = 0\<rparr>"

definition msg_io_send_helper :: "('d, 'u) surroundings \<Rightarrow> msg_type \<Rightarrow> msg_io \<Rightarrow> ('c, 'd, 'u) base \<Rightarrow> error + ('c, 'd, 'u) base" where
  "msg_io_send_helper s ty m b = msock_send s PID_IO ty (encode_msg_io [0, 0, 0, 0] m) (of_nat sizeof_msg_io) b"

definition msock_io_fsync :: "('d, 'u) surroundings \<Rightarrow> 32 word \<Rightarrow> ('c, 'd, 'u) base \<Rightarrow> error + ('c, 'd, 'u) base" where
  "msock_io_fsync s fd b =
     rbind (msock_self b) (\<lambda>v. msg_io_send_helper s MSG_IO_FSYNC ((blank_msg_io v)\<lparr>io_fd := fd\<rparr>) b)"

definition msock_io_open :: "('d, 'u) surroundings \<Rightarrow> ulong \<Rightarrow> 32 word \<Rightarrow> 32 word \<Rightarrow> ('c, 'd, 'u) base \<Rightarrow> error + ('c, 'd, 'u) base" where
  "msock_io_open s pathname flags mode b =
     rbind (msock_self b) (\<lambda>v.
       msg_io_send_helper s MSG_IO_OPEN ((blank_msg_io v)\<lparr>io_pathname := pathname, io_flags := flags, io_mode := mode\<rparr>) b)"

definition msock_io_pread :: "('d, 'u) surroundings \<Rightarrow> 32 word \<Rightarrow> ulong \<Rightarrow> ulong \<Rightarrow> ulong \<Rightarrow> ('c, 'd, 'u) base \<Rightarrow>
    error + ('c, 'd, 'u) base" where
  "msock_io_pread s fd buf cnt offset b =
     rbind (msock_self b) (\<lambda>v.
       msg_io_send_helper s MSG_IO_PREAD ((blank_msg_io v)\<lparr>io_fd := fd, io_buf := buf, io_count := cnt, io_offset := offset\<rparr>) b)"

section \<open>Properties\<close>

text \<open>What a request asks for: the call on its arguments, its result in the field for it, and the error when it failed.\<close>

definition io_spec :: "('k, 'z) io_calls_scheme \<Rightarrow> msg_type \<Rightarrow> msg_io \<Rightarrow> 'k \<Rightarrow> msg_io \<times> 'k" where
  "io_spec K ty m k =
     (if ty = MSG_IO_FSYNC
      then let ((r, e), k) = k_fsync K (io_fd m) k in (m\<lparr>io_ret := r, io_errno := (if r = 0 then io_errno m else e)\<rparr>, k)
      else if ty = MSG_IO_PREAD
      then let ((n, e), k) = k_pread K (io_fd m) (io_buf m) (io_count m) (io_offset m) k
           in (m\<lparr>io_count := n, io_errno := (if n = - 1 then e else io_errno m)\<rparr>, k)
      else let ((r, e), k) = k_open K (io_pathname m) (io_flags m) (io_mode m) k
           in (m\<lparr>io_fd := r, io_errno := (if r = - 1 then e else io_errno m)\<rparr>, k))"

text \<open>A read gives at most \<open>2 ^ 31 - 4096\<close> bytes, or \<open>- 1\<close>.\<close>

definition pread_bounded :: "('k, 'z) io_calls_scheme \<Rightarrow> bool" where
  "pread_bounded K \<longleftrightarrow> (\<forall>fd buf cnt off k. let n = fst (fst (k_pread K fd buf cnt off k)) in n = - 1 \<or> unat n < 2 ^ 31)"

lemma int_of_long:
  fixes n :: ulong
  assumes "n = - 1 \<or> unat n < 2 ^ 31"
  shows "scast (ucast n :: 32 word) = n" and "(ucast n :: 32 word) = - 1 \<longleftrightarrow> n = - 1"
proof -
  have m: "(ucast (- 1 :: ulong) :: 32 word) = - 1" "(scast (- 1 :: 32 word) :: ulong) = - 1"
    by (rule word_unat_eq_iff [THEN iffD2], simp add: unat_ucast_32 unsigned_minus_1_eq_mask mask_eq_exp_minus_1, simp)
  have s: "unat (ucast n :: 32 word) = unat n" if "unat n < 2 ^ 31" using that by (simp add: unat_ucast_32)
  have n1: "unat (- 1 :: 32 word) = 2 ^ 32 - 1" by (simp add: unsigned_minus_1_eq_mask mask_eq_exp_minus_1)
  show "scast (ucast n :: 32 word) = n"
  proof (cases "n = - 1")
    case False
    then have l: "unat n < 2 ^ 31" using assms by simp
    have "unat (scast (ucast n :: 32 word) :: ulong) = unat n" using unat_scast_small [of "ucast n"] s [OF l] l by simp
    then show ?thesis by (rule word_unat_eq_iff [THEN iffD2])
  qed (simp add: m)
  show "(ucast n :: 32 word) = - 1 \<longleftrightarrow> n = - 1"
  proof
    assume a: "(ucast n :: 32 word) = - 1"
    show "n = - 1"
    proof (rule ccontr)
      assume "n \<noteq> - 1"
      then have l: "unat n < 2 ^ 31" using assms by simp
      have "unat n = 2 ^ 32 - 1" using s [OF l] n1 unfolding a by (rule trans [OF sym])
      then show False using l by simp
    qed
  qed (simp add: m)
qed

lemma io_operation_spec:
  assumes "pread_bounded K" and "ty = MSG_IO_FSYNC \<or> ty = MSG_IO_PREAD \<or> ty = MSG_IO_OPEN"
  shows "io_operation K ty m k = Some (io_spec K ty m k)"
proof -
  obtain n e k' where p: "k_pread K (io_fd m) (io_buf m) (io_count m) (io_offset m) k = ((n, e), k')" by (metis surj_pair)
  have "n = - 1 \<or> unat n < 2 ^ 31"
    using assms(1) [unfolded pread_bounded_def Let_def, rule_format, of "io_fd m" "io_buf m" "io_count m" "io_offset m" k] by (simp add: p)
  note i = int_of_long [OF this]
  show ?thesis
    using assms(2) i by (auto simp: io_operation_def io_spec_def io_fsync_def io_pread_def io_open_def p Let_def split: prod.splits)
qed

text \<open>
  C36: A request that reaches the engine is answered with exactly one message, of the type of the
  request, to the process that asked: it holds the request with the result of the call, and with the
  error only when the call failed. Nothing else is sent, and the engine goes on.
\<close>

theorem io_answers_request:
  assumes pad: "length pad = 4" and ty: "ty = MSG_IO_FSYNC \<or> ty = MSG_IO_PREAD \<or> ty = MSG_IO_OPEN" and K: "pread_bounded K"
    and d: "get (world b) = Some d" and g: "current_domain b = Inr g" and r: "io_spec K ty m (world b) = (out, k)"
  shows "\<exists>reply. decode_msg_io (reply @ junk) = out \<and> io_victim out = io_victim m \<and> length reply = 64 \<and>
    run_act s rc (io_act K get put ty (encode_msg_io pad m @ rest)) b =
      rbind (send_indirect s g (io_victim m) ty reply 64 (b\<lparr>world := put (Some d) k\<rparr>)) (\<lambda>b. Inr (RECV_OK, b))"
proof -
  let ?p = "take 4 (drop 12 (encode_msg_io pad m @ rest))" and ?reply = "encode_msg_io (take 4 (drop 12 (encode_msg_io pad m @ rest))) out"
  have l: "length (encode_msg_io pad m) = 64" using decode_encode_msg_io(2) [OF pad] by (simp add: sizeof_msg_io_def)
  have lp: "length ?p = 4" by (simp add: l)
  have op: "io_operation K ty m (world b) = Some (out, k)" using io_operation_spec [OF K ty, of m "world b"] r by simp
  have v: "io_victim out = io_victim m" using r ty by (auto simp: io_spec_def Let_def split: prod.splits if_splits)
  have cb: "io_process_callback K ty (encode_msg_io pad m @ rest) d (world b) = Inr (RECV_OK, Some d, Some (io_victim m, ?reply), k)"
    unfolding io_process_callback_def Let_def decode_encode_msg_io(1) [OF pad] op by simp
  have g': "current_domain (b\<lparr>world := put (Some d) k\<rparr>) = Inr g"
    using g by (simp add: current_domain_def get_current_process_def split: option.splits)
  have "run_act s rc (io_act K get put ty (encode_msg_io pad m @ rest)) b =
      rbind (send_indirect s g (io_victim m) ty ?reply 64 (b\<lparr>world := put (Some d) k\<rparr>)) (\<lambda>b. Inr (RECV_OK, b))"
    by (simp add: io_act_def d cb msock_send_def g' sizeof_msg_io_def)
  then show ?thesis using decode_encode_msg_io [OF lp, of out] v by (auto simp: sizeof_msg_io_def)
qed

text \<open>A system that counts its calls and in which every read gives five bytes.\<close>

definition example_io :: "nat list io_calls" where
  "example_io =
     \<lparr>k_pipe = (\<lambda>k. (Some (3, 4), k)), k_getfl = (\<lambda>fd k. 0), k_setfl = (\<lambda>fd fl k. (True, k)),
      k_read = (\<lambda>fd n k. k), k_write = (\<lambda>fd c k. k), k_close = (\<lambda>fd k. k), k_clock = (\<lambda>k. (None, k)),
      k_junk = 0, k_pad = [0, 0, 0, 0], k_open = (\<lambda>p fl md k. ((- 1, 2), k @ [1])), k_fsync = (\<lambda>fd k. ((0, 0), k @ [2])),
      k_pread = (\<lambda>fd buf cnt off k. ((5, 0), k @ [3]))\<rparr>"

definition example_request :: msg_io where
  "example_request = (blank_msg_io (poff_gid_to_pid 3 2))\<lparr>io_fd := 7, io_buf := 4096, io_count := 100\<rparr>"

theorem io_answers_request_witness:
  "\<exists>reply. decode_msg_io reply = example_request\<lparr>io_count := 5\<rparr> \<and>
     run_act example_surroundings (\<lambda>_ _ _ _. Inr)
       (io_act example_io (\<lambda>u. Some \<lparr>pipe_read = 3\<rparr>) (\<lambda>d u. u) MSG_IO_PREAD (encode_msg_io [1, 2, 3, 4] example_request @ [9]))
       (example_base\<lparr>current_process := Some 64\<rparr>) =
     rbind (send_indirect example_surroundings 1 (poff_gid_to_pid 3 2) MSG_IO_PREAD reply 64
         (example_base\<lparr>current_process := Some 64, world := [3]\<rparr>)) (\<lambda>b. Inr (RECV_OK, b))"
proof -
  let ?b = "example_base\<lparr>current_process := Some 64\<rparr>"
  have pad: "length [1 :: byte, 2, 3, 4] = 4" by simp
  have K: "pread_bounded example_io" by (simp add: pread_bounded_def example_io_def)
  have g: "current_domain ?b = Inr 1"
    by (simp add: current_domain_def get_current_process_def example_base_def example_process_def)
  have w: "world ?b = []" by (simp add: example_base_def)
  have r: "io_spec example_io MSG_IO_PREAD example_request (world ?b) = (example_request\<lparr>io_count := 5\<rparr>, [3])"
    unfolding w by (simp add: io_spec_def example_io_def example_request_def blank_msg_io_def MSG_IO_PREAD_def MSG_IO_FSYNC_def)
  have v: "io_victim example_request = poff_gid_to_pid 3 2" by (simp add: example_request_def blank_msg_io_def)
  show ?thesis
    using io_answers_request [OF pad disjI2 [OF disjI1 [OF refl]] K _ g r, where get = "\<lambda>u. Some \<lparr>pipe_read = 3\<rparr>" and
        d = "\<lparr>pipe_read = 3\<rparr>" and junk = "[]" and rest = "[9]" and s = example_surroundings and
        rc = "\<lambda>_ _ _ _. Inr" and put = "\<lambda>d u. u"] unfolding v by auto
qed

end
