(* ===== verification/Examples.thy ===== *)
theory Examples
  imports Solo Echosrv Engine_Io
begin

text \<open>
  The programs \<open>src/example02.c\<close>, \<open>example03.c\<close>, \<open>example04.c\<close> and \<open>example07.c\<close>: one process each, on the engines of
  file descriptors, of file operations and of signals. The state outside and the calls are those of
  \<open>Echosrv\<close>; these programs have no data of their own. What is shown is that the two that read the
  standard input show it chunk by chunk, in order, whatever else arrives.
\<close>

section \<open>The callbacks\<close>

datatype 'e example_name = Example_Callback | Example_Engine 'e

definition chars_of :: "byte list \<Rightarrow> string" where
  "chars_of = map (\<lambda>x. char_of (unat x))"

text \<open>The part of the case \<open>MSG_FD_READ\<close> that \<open>example03.c\<close> and \<open>example04.c\<close> share; \<open>k\<close> is what follows.\<close>

definition stdin_chunk :: "('k, 'z) echo_calls_scheme \<Rightarrow> ('c, nat, 'k echo_world) act \<Rightarrow> 'k echo_world \<Rightarrow>
    'k echo_world \<times> ('c, nat, 'k echo_world) act" where
  "stdin_chunk K k w =
     (case e_read K 0 256 (sys w) of
        (None, s) \<Rightarrow> (w\<lparr>sys := s\<rparr>, Loopexit k)
      | (Some bytes, s) \<Rightarrow>
          if 256 < length bytes then (w, Fail Bad_Deref)
          else let buf = bytes @ replicate (256 - length bytes) 0; r = int (length bytes)
            in if 0 < r then (printf K (line ''>%.*s<'') [Arg_Int (r - 1), Arg_Str (chars_of buf)] (w\<lparr>sys := s\<rparr>), k)
               else (w\<lparr>sys := s\<rparr>, Loopexit k))"

definition read_stdin :: "('k, 'z) echo_calls_scheme \<Rightarrow> ('c, nat, 'k echo_world) act \<Rightarrow> ('c, nat, 'k echo_world) act" where
  "read_stdin K k = World (stdin_chunk K k)"

text \<open>The case \<open>MSG_SIGNAL\<close> of \<open>example04.c\<close> and \<open>example07.c\<close>.\<close>

definition report_signal :: "('k, 'z) echo_calls_scheme \<Rightarrow> byte list \<Rightarrow> ('c, nat, 'k echo_world) act" where
  "report_signal K payload =
     (let signum = ms_signum (decode_msg_signal payload)
      in Memory_Stats (\<lambda>used_bytes. World (\<lambda>w.
        (printf K (line ''Received %i (%lu bytes memory used)'') [Arg_Int (sint signum), Arg_Ulong used_bytes] w,
         if signum = 2
         then World (\<lambda>w. (printf K (line ''Quitting'') [] w, Loopexit (Return RECV_OK)))
         else send_msg_signal K MSG_SIGNAL_REGISTER signum (Return RECV_OK)))))"

text \<open>\<open>msock_io_fsync\<close> as a call of a callback.\<close>

definition io_fsync_request :: "32 word \<Rightarrow> ('c, 'd, 'u) act \<Rightarrow> ('c, 'd, 'u) act" where
  "io_fsync_request fd k = Self (\<lambda>v.
     Send PID_IO MSG_IO_FSYNC (encode_msg_io [0, 0, 0, 0] ((blank_msg_io v)\<lparr>io_fd := fd\<rparr>)) (of_nat sizeof_msg_io) k)"

definition example02_callback :: "('k, 'z) echo_calls_scheme \<Rightarrow> msg_type \<Rightarrow> byte list \<Rightarrow> ('c, nat, 'k echo_world) act" where
  "example02_callback K ty payload =
     World (\<lambda>w. (printf K (line ''Msg type %#x'') [Arg_Int (sint ty)] w, Loopexit (Return RECV_EXIT)))"

definition example03_callback :: "('k, 'z) echo_calls_scheme \<Rightarrow> msg_type \<Rightarrow> byte list \<Rightarrow> ('c, nat, 'k echo_world) act" where
  "example03_callback K ty payload =
     (let wait = send_msg_fd K MSG_FD_REGISTER_READ 0 12345 (Return RECV_OK)
      in if ty = MSG_FD_READ then read_stdin K wait
         else if ty = MSG_FD_TIMEOUTED then World (\<lambda>w. (printf K (line ''timeout...'') [] w, wait))
         else if ty = MSG_EXIT then Return RECV_EXIT
         else World (\<lambda>w. (printf K (line ''msg_type 0x%#x'') [Arg_Int (sint ty)] w, Fail Abort)))"

definition DELAY :: ulong where "DELAY = 123400"

definition example04_callback :: "('k, 'z) echo_calls_scheme \<Rightarrow> msg_type \<Rightarrow> byte list \<Rightarrow> ('c, nat, 'k echo_world) act" where
  "example04_callback K ty payload =
     (let wait = send_msg_fd K MSG_FD_REGISTER_READ 0 DELAY (Return RECV_OK)
      in if ty = MSG_FD_READ then read_stdin K (io_fsync_request 0 (Return RECV_OK))
         else if ty = MSG_IO_FSYNC then wait
         else if ty = MSG_FD_TIMEOUTED
         then Memory_Stats (\<lambda>used_bytes. World (\<lambda>w.
           (printf K (line ''timeout... (%lu bytes memory used)'') [Arg_Ulong used_bytes] w, Memory_Collect wait)))
         else if ty = MSG_EXIT then Return RECV_EXIT
         else if ty = MSG_SIGNAL then report_signal K payload
         else Fail Abort)"

definition example07_callback :: "('k, 'z) echo_calls_scheme \<Rightarrow> msg_type \<Rightarrow> byte list \<Rightarrow> ('c, nat, 'k echo_world) act" where
  "example07_callback K ty payload =
     (if ty = MSG_EXIT then Return RECV_EXIT
      else if ty = MSG_SIGNAL then report_signal K payload
      else Fail Abort)"

section \<open>The programs\<close>

text \<open>\<open>engines\<close> are the callbacks of the engines.\<close>

definition example_program :: "(msg_type \<Rightarrow> byte list \<Rightarrow> ('e example_name, nat, 'k echo_world) act) \<Rightarrow>
    ('e \<Rightarrow> msg_type \<Rightarrow> byte list \<Rightarrow> 32 word \<Rightarrow> nat option \<Rightarrow> ('e example_name, nat, 'k echo_world) act) \<Rightarrow>
    ('e example_name, nat, 'k echo_world) program" where
  "example_program callback engines =
     \<lparr>on_message = (\<lambda>c ty payload sz data.
        case c of Example_Callback \<Rightarrow> callback ty payload | Example_Engine e \<Rightarrow> engines e ty payload sz data),
      on_construct = (\<lambda>c data. Fail Bad_Deref)\<rparr>"

type_synonym ('e, 'k) example_base = "('e example_name, nat, 'k echo_world) base"

definition register_signals :: "('k, 'z) echo_calls_scheme \<Rightarrow> (nat, 'k echo_world) surroundings \<Rightarrow> pid \<Rightarrow>
    ('e, 'k) example_base \<Rightarrow> error + ('e, 'k) example_base" where
  "register_signals K s pid b =
     rbind (msock_base_send_msg_signal s (e_pad K) (e_siginfo K) pid MSG_SIGNAL_REGISTER SIGINT b) (\<lambda>b.
     rbind (msock_base_send_msg_signal s (e_pad K) (e_siginfo K) pid MSG_SIGNAL_REGISTER SIGUSR1 b) (\<lambda>b.
       msock_base_send_msg_signal s (e_pad K) (e_siginfo K) pid MSG_SIGNAL_REGISTER SIGHUP b))"

definition register_stdin :: "('k, 'z) echo_calls_scheme \<Rightarrow> (nat, 'k echo_world) surroundings \<Rightarrow> ulong \<Rightarrow> pid \<Rightarrow>
    ('e, 'k) example_base \<Rightarrow> error + ('e, 'k) example_base" where
  "register_stdin K s delay pid b = msock_base_send_msg_fd s (\<lambda>w. e_now K (sys w)) (e_pad K) pid MSG_FD_REGISTER_READ 0 delay b"

text \<open>
  What the four \<open>main\<close> functions have in common: \<open>start\<close> is what is sent before the loop, \<open>finish\<close> what is printed
  after \<open>msock_base_free\<close>. The arguments are the engines that are wanted, the engines that are linked in (with room
  for 32 processes), the fuel of the loop and what memory holds at first.
\<close>

definition example_main :: "ulong \<Rightarrow> (pid \<Rightarrow> ('e, 'k) example_base \<Rightarrow> error + ('e, 'k) example_base) \<Rightarrow>
    ('k echo_world \<Rightarrow> 'k echo_world) \<Rightarrow> (nat, 'k echo_world) surroundings \<Rightarrow> ('e example_name, nat, 'k echo_world) program \<Rightarrow> nat \<Rightarrow>
    (('e, 'k) example_base \<Rightarrow> error + ('e, 'k) example_base) option list \<Rightarrow>
    ram \<Rightarrow> (addr \<Rightarrow> message) \<Rightarrow> (addr \<Rightarrow> ('e example_name, nat) process) \<Rightarrow> addr qheap \<Rightarrow> 'k echo_world \<Rightarrow>
    error + (int \<times> 'k echo_world)" where
  "example_main wanted start finish s prog n linked ram ms ps h u =
     rbind (msock_base_new linked wanted ram ms ps h u) (\<lambda>b.
     rbind (msock_base_spawn s (Some Example_Callback) None b) (\<lambda>(pid, b).
     rbind (start pid b) (\<lambda>b.
     rbind (msock_base_loop s prog n b) (\<lambda>b.
     rbind (msock_base_free s b) (\<lambda>u. Inr (0, finish u))))))"

definition example02_main where
  "example02_main K engines s =
     example_main (2 ^ 2) (\<lambda>pid. msock_base_send s pid 0x333 [] 0) id s (example_program (example02_callback K) engines)"

definition example03_main where
  "example03_main K engines s =
     example_main (2 ^ 2) (register_stdin K s 0) id s (example_program (example03_callback K) engines)"

definition example04_main where
  "example04_main K engines s =
     example_main (2 ^ 2 OR 2 ^ 3 OR 2 ^ 4) (\<lambda>pid b. rbind (register_stdin K s DELAY pid b) (register_signals K s pid))
       (printf K (line ''done!'') []) s (example_program (example04_callback K) engines)"

definition example07_main where
  "example07_main K engines s =
     example_main (2 ^ 4) (register_signals K s) (printf K (line ''done!'') []) s (example_program (example07_callback K) engines)"

section \<open>What is shown of the input\<close>

text \<open>What is seen: the chunks read from the standard input, and what the format for chunks printed.\<close>

record 'k shown =
  chunks :: "'k \<Rightarrow> byte list list"
  shown :: "'k \<Rightarrow> string list"

text \<open>\<open>%.*s\<close>: at most so many characters, and none from the first NUL on.\<close>

definition precision :: "int \<Rightarrow> string \<Rightarrow> string" where
  "precision n text = takeWhile (\<lambda>c. c \<noteq> CHR 0x00) (take (nat n) text)"

definition show_law :: "('k, 'z) echo_calls_scheme \<Rightarrow> 'k shown \<Rightarrow> bool" where
  "show_law K V \<longleftrightarrow>
     (\<forall>k. case e_read K 0 256 k of
        (None, k') \<Rightarrow> chunks V k' = chunks V k \<and> shown V k' = shown V k
      | (Some bytes, k') \<Rightarrow> length bytes \<le> 256 \<and> shown V k' = shown V k \<and>
          chunks V k' = chunks V k @ (if bytes = [] then [] else [bytes])) \<and>
     (\<forall>fmt args k. chunks V (e_printf K fmt args k) = chunks V k \<and>
        (fmt \<noteq> line ''>%.*s<'' \<longrightarrow> shown V (e_printf K fmt args k) = shown V k)) \<and>
     (\<forall>n text k. shown V (e_printf K (line ''>%.*s<'') [Arg_Int n, Arg_Str text] k) =
        shown V k @ [line (''>'' @ precision n text @ ''<'')])"

text \<open>Each chunk between angle brackets, without its last byte.\<close>

definition framed :: "byte list \<Rightarrow> string" where
  "framed bytes = line (''>'' @ takeWhile (\<lambda>c. c \<noteq> CHR 0x00) (chars_of (butlast bytes)) @ ''<'')"

definition input_shown :: "'k shown \<Rightarrow> 'k echo_world \<Rightarrow> bool" where
  "input_shown V w \<longleftrightarrow> shown V (sys w) = map framed (chunks V (sys w))"

lemma precision_chunk:
  "bytes \<noteq> [] \<Longrightarrow> precision (int (length bytes) - 1) (chars_of (bytes @ zeros)) =
     takeWhile (\<lambda>c. c \<noteq> CHR 0x00) (chars_of (butlast bytes))"
proof -
  assume "bytes \<noteq> []"
  then have "nat (int (length bytes) - 1) = length bytes - 1" by simp
  moreover have "take (length bytes - 1) (bytes @ zeros) = butlast bytes" by (simp add: butlast_conv_take)
  ultimately show ?thesis by (simp add: precision_def chars_of_def take_map)
qed

lemma show_lawD:
  assumes "show_law K V"
  shows "chunks V (e_printf K fmt args k) = chunks V k"
    and "shown V (e_printf K (line ''>%.*s<'') [Arg_Int n, Arg_Str text] k) = shown V k @ [line (''>'' @ precision n text @ ''<'')]"
    and "fmt \<noteq> line ''>%.*s<'' \<Longrightarrow> shown V (e_printf K fmt args k) = shown V k"
    and "case e_read K 0 256 k of
        (None, k') \<Rightarrow> chunks V k' = chunks V k \<and> shown V k' = shown V k
      | (Some bytes, k') \<Rightarrow> length bytes \<le> 256 \<and> shown V k' = shown V k \<and>
          chunks V k' = chunks V k @ (if bytes = [] then [] else [bytes])"
  using assms unfolding show_law_def by simp_all

lemma read_stdin_keeps:
  assumes law: "show_law K V" and k: "act_keeps (input_shown V) k"
  shows "act_keeps (input_shown V) (read_stdin K k)"
  unfolding read_stdin_def act_keeps_World
proof (intro allI impI)
  fix w assume w: "input_shown V w"
  obtain r s where r: "e_read K 0 256 (sys w) = (r, s)" by (cases "e_read K 0 256 (sys w)")
  note l = show_lawD(4) [OF law, of "sys w", unfolded r prod.case]
  show "input_shown V (fst (stdin_chunk K k w)) \<and> act_keeps (input_shown V) (snd (stdin_chunk K k w))"
  proof (cases r)
    case None
    then show ?thesis using l w k by (simp add: stdin_chunk_def r input_shown_def)
  next
    case (Some bytes)
    then show ?thesis
      using l w k by (simp add: stdin_chunk_def r input_shown_def printf_def show_lawD(1,2) [OF law] precision_chunk framed_def)
  qed
qed

lemma printf_keeps: "show_law K V \<Longrightarrow> fmt \<noteq> line ''>%.*s<'' \<Longrightarrow> input_shown V w \<Longrightarrow> input_shown V (printf K fmt args w)"
  by (simp add: show_lawD input_shown_def printf_def)

lemma example_callbacks_keep:
  assumes law: "show_law K V"
  shows "act_keeps (input_shown V) (example02_callback K ty payload)" and "act_keeps (input_shown V) (example03_callback K ty payload)"
    and "act_keeps (input_shown V) (example04_callback K ty payload)" and "act_keeps (input_shown V) (example07_callback K ty payload)"
proof -
  note keep = printf_keeps [OF law] read_stdin_keeps [OF law]
  have report: "act_keeps (input_shown V) (report_signal K payload)"
    by (auto simp: report_signal_def Let_def act_keeps_World line_def intro!: keep)
  show "act_keeps (input_shown V) (example02_callback K ty payload)"
    by (auto simp: example02_callback_def act_keeps_World line_def intro!: keep)
  show "act_keeps (input_shown V) (example03_callback K ty payload)"
    by (auto simp: example03_callback_def Let_def act_keeps_World line_def intro!: keep)
  show "act_keeps (input_shown V) (example04_callback K ty payload)"
    by (auto simp: example04_callback_def io_fsync_request_def Let_def act_keeps_World line_def intro!: keep report)
  show "act_keeps (input_shown V) (example07_callback K ty payload)"
    by (auto simp: example07_callback_def intro!: report)
qed

text \<open>
  Whatever messages arrive and whatever the engines do, while \<open>example03.c\<close> or \<open>example04.c\<close> runs, what is shown of the
  standard input is each chunk that was read, once and in order, without its last byte.
\<close>

theorem example_shows_input:
  assumes "show_law K V" and "engines_keep (input_shown V) engines" and "hooks_keep (input_shown V) s"
    and "callback \<in> {example02_callback K, example03_callback K, example04_callback K, example07_callback K}"
    and "input_shown V (world b)" and "msock_base_loop s (example_program callback engines) n b = Inr b'"
  shows "shown V (sys (world b')) = map framed (chunks V (sys (world b')))"
proof -
  have "program_keeps (input_shown V) (example_program callback engines)"
    using assms(2,4) example_callbacks_keep [OF assms(1)]
    by (auto simp: program_keeps_def example_program_def engines_keep_def split: example_name.split)
  from library_keeps_outside(4) [OF assms(3) this assms(5)] show ?thesis using assms(6) by (simp add: input_shown_def)
qed

end
