(* ===== verification/Engine_Requests.thy ===== *)
theory Engine_Requests
  imports Engine_Os
begin

text \<open>
  The contract that the two engines of file descriptors, epoll and select, share: what a request of
  \<open>msock_send_msg_fd\<close> does to the registrations. It says nothing of how they are kept. From it
  follows that of any sequence of requests the last one for a descriptor decides whom the engine answers and
  until when it waits. Which events it waits for is where the two differ: epoll replaces the event of the
  request before, select keeps it.
\<close>

section \<open>Requests\<close>

definition fd_kinds :: "msg_type set" where
  "fd_kinds = {MSG_FD_REGISTER_READ, MSG_FD_REGISTER_WRITE, MSG_FD_UNREGISTER}"

lemmas fd_msg_types = MSG_FD_REGISTER_READ_def MSG_FD_REGISTER_WRITE_def MSG_FD_UNREGISTER_def MSG_EXIT_def MSG_QUEUE_EMPTY_def

text \<open>The kind, the descriptor, the process and the time of expiry.\<close>

type_synonym fd_req = "msg_type \<times> fd \<times> pid \<times> ulong"

definition req_fd :: "fd_req \<Rightarrow> fd" where
  "req_fd r = fst (snd r)"

fun run_requests :: "(fd_req \<Rightarrow> 'e \<Rightarrow> error + 'e) \<Rightarrow> fd_req list \<Rightarrow> 'e \<Rightarrow> error + 'e" where
  "run_requests f [] e = Inr e"
| "run_requests f (r # rs) e = rbind (f r e) (run_requests f rs)"

fun last_request :: "fd \<Rightarrow> fd_req list \<Rightarrow> fd_req option" where
  "last_request fd [] = None"
| "last_request fd (r # rs) =
     (case last_request fd rs of Some q \<Rightarrow> Some q | None \<Rightarrow> if req_fd r = fd then Some r else None)"

text \<open>The time of a pending timer.\<close>

definition deadline :: "timer_base \<Rightarrow> tid \<Rightarrow> ulong option" where
  "deadline b t = (if timer_pending t b then Some (expires b t) else None)"

lemma deadline_arm:
  assumes "timers_inv n b" and "t < n"
  shows "deadline (arm_timer t ex b) u = (if u = t then if ex \<noteq> 0 then Some ex else None else deadline b u)"
  using timers_inv_arm(2,4,5) [OF assms] by (auto simp: deadline_def)

section \<open>The contract\<close>

text \<open>
  \<open>handle\<close> handles a request; \<open>table\<close> is the number of descriptors of the table; \<open>waits e ty fd\<close> says whether the
  engine waits for the event of the request \<open>ty\<close>, \<open>client\<close> whom it is going to answer, \<open>until\<close> when.
\<close>

locale fd_engine =
  fixes handle :: "fd_req \<Rightarrow> 'e \<Rightarrow> error + 'e"
    and inv :: "'e \<Rightarrow> bool"
    and table :: "'e \<Rightarrow> nat"
    and waits :: "'e \<Rightarrow> msg_type \<Rightarrow> fd \<Rightarrow> bool"
    and client :: "'e \<Rightarrow> fd \<Rightarrow> pid"
    and until :: "'e \<Rightarrow> fd \<Rightarrow> ulong option"
  assumes handle_inv: "inv e \<Longrightarrow> ty \<in> fd_kinds \<Longrightarrow> fd < table e \<Longrightarrow>
      \<exists>e'. handle (ty, fd, v, ex) e = Inr e' \<and> inv e' \<and> table e' = table e"
    and handle_same: "inv e \<Longrightarrow> ty \<in> fd_kinds \<Longrightarrow> fd < table e \<Longrightarrow> handle (ty, fd, v, ex) e = Inr e' \<Longrightarrow> x \<noteq> fd \<Longrightarrow>
      waits e' ty' x = waits e ty' x \<and> client e' x = client e x \<and> until e' x = until e x"
    and handle_register: "inv e \<Longrightarrow> ty \<in> fd_kinds \<Longrightarrow> ty \<noteq> MSG_FD_UNREGISTER \<Longrightarrow> fd < table e \<Longrightarrow>
      handle (ty, fd, v, ex) e = Inr e' \<Longrightarrow>
      waits e' ty fd \<and> client e' fd = v \<and> until e' fd = (if ex \<noteq> 0 then Some ex else None)"
    and handle_unregister: "inv e \<Longrightarrow> fd < table e \<Longrightarrow> handle (MSG_FD_UNREGISTER, fd, v, ex) e = Inr e' \<Longrightarrow>
      \<not> waits e' ty fd \<and> until e' fd = None"
begin

text \<open>What is registered for a descriptor after a request, if there was one, and before it otherwise.\<close>

definition agrees :: "'e \<Rightarrow> fd \<Rightarrow> fd_req option \<Rightarrow> 'e \<Rightarrow> bool" where
  "agrees e fd r e' \<longleftrightarrow>
     (case r of
        None \<Rightarrow> (\<forall>ty. waits e' ty fd = waits e ty fd) \<and> client e' fd = client e fd \<and> until e' fd = until e fd
      | Some (ty, _, v, ex) \<Rightarrow>
          if ty = MSG_FD_UNREGISTER then (\<forall>ty. \<not> waits e' ty fd) \<and> until e' fd = None
          else waits e' ty fd \<and> client e' fd = v \<and> until e' fd = (if ex \<noteq> 0 then Some ex else None))"

lemma agrees_one:
  assumes "inv e" and "fst r \<in> fd_kinds" and "req_fd r < table e" and "handle r e = Inr e'"
  shows "agrees e fd (if req_fd r = fd then Some r else None) e'"
proof -
  obtain ty f v ex where r: "r = (ty, f, v, ex)" by (cases r)
  have a: "ty \<in> fd_kinds" "f < table e" "handle (ty, f, v, ex) e = Inr e'" using assms(2-4) by (simp_all add: r req_fd_def)
  show ?thesis
  proof (cases "f = fd")
    case True
    then show ?thesis
      using handle_unregister [OF assms(1) a(2)] handle_register [OF assms(1) a(1) _ a(2,3)] a(3)
      by (auto simp: agrees_def r req_fd_def)
  next
    case False
    then show ?thesis using handle_same [OF assms(1) a] by (simp add: agrees_def r req_fd_def)
  qed
qed

lemma agrees_then_none:
  assumes "agrees e fd q e1" and "agrees e1 fd None e'"
  shows "agrees e fd q e'"
proof -
  have "waits e' ty fd = waits e1 ty fd" "client e' fd = client e1 fd" "until e' fd = until e1 fd" for ty
    using assms(2) by (simp_all add: agrees_def)
  then show ?thesis using assms(1) unfolding agrees_def by (simp only:)
qed

lemma run_requests_last:
  assumes "inv e" and "\<forall>r \<in> set rs. fst r \<in> fd_kinds \<and> req_fd r < table e"
  shows "\<exists>e'. run_requests handle rs e = Inr e' \<and> inv e' \<and> table e' = table e \<and> (\<forall>fd. agrees e fd (last_request fd rs) e')"
  using assms
proof (induction rs arbitrary: e)
  case Nil
  then show ?case by (simp add: agrees_def)
next
  case (Cons r rs)
  obtain ty f v ex where r: "r = (ty, f, v, ex)" by (cases r)
  have a: "fst r \<in> fd_kinds" "req_fd r < table e" using Cons.prems by simp_all
  obtain e1 where e1: "handle r e = Inr e1" "inv e1" "table e1 = table e"
    using handle_inv [OF Cons.prems(1), of ty f v ex] a by (auto simp: r req_fd_def)
  have "\<forall>r \<in> set rs. fst r \<in> fd_kinds \<and> req_fd r < table e1" using Cons.prems(2) e1(3) by simp
  from Cons.IH [OF e1(2) this] obtain e' where e': "run_requests handle rs e1 = Inr e'" "inv e'" "table e' = table e1"
    "\<And>fd. agrees e1 fd (last_request fd rs) e'" by blast
  have "agrees e fd (last_request fd (r # rs)) e'" for fd
  proof (cases "last_request fd rs")
    case None
    then have "last_request fd (r # rs) = (if req_fd r = fd then Some r else None)" by simp
    then show ?thesis
      using agrees_then_none [OF agrees_one [OF Cons.prems(1) a e1(1), of fd]] e'(4) [of fd] None by simp
  next
    case (Some q)
    then have "last_request fd (r # rs) = Some q" by simp
    then show ?thesis using e'(4) [of fd] Some by (auto simp: agrees_def split: prod.splits)
  qed
  then show ?case using e1 e' by simp
qed

end

section \<open>The events\<close>

text \<open>The kinds of event that are waited for after the requests, when a registration keeps those before it, or replaces them.\<close>

fun kinds_after :: "bool \<Rightarrow> fd \<Rightarrow> fd_req list \<Rightarrow> msg_type set \<Rightarrow> msg_type set" where
  "kinds_after keep fd [] S = S"
| "kinds_after keep fd (r # rs) S = kinds_after keep fd rs
     (if req_fd r \<noteq> fd then S else if fst r = MSG_FD_UNREGISTER then {} else if keep then insert (fst r) S else {fst r})"

text \<open>The requests for a descriptor since it was taken off last, the newest first.\<close>

definition since_unregister :: "fd \<Rightarrow> fd_req list \<Rightarrow> fd_req list" where
  "since_unregister fd rs = takeWhile (\<lambda>r. fst r \<noteq> MSG_FD_UNREGISTER) (rev (filter (\<lambda>r. req_fd r = fd) rs))"

lemma kinds_after_snoc:
  "kinds_after keep fd (rs @ [r]) S = (if req_fd r \<noteq> fd then kinds_after keep fd rs S
     else if fst r = MSG_FD_UNREGISTER then {} else if keep then insert (fst r) (kinds_after keep fd rs S) else {fst r})"
  by (induction rs arbitrary: S) simp_all

lemma kinds_after_kept:
  "kinds_after True fd rs S = fst ` set (since_unregister fd rs) \<union>
     (if \<exists>r \<in> set rs. req_fd r = fd \<and> fst r = MSG_FD_UNREGISTER then {} else S)"
proof (induction rs rule: rev_induct)
  case (snoc r rs)
  then show ?case unfolding kinds_after_snoc by (auto simp: since_unregister_def)
qed (simp add: since_unregister_def)

lemma kinds_after_replaced:
  "last_request fd rs = Some r \<Longrightarrow> kinds_after False fd rs S = (if fst r = MSG_FD_UNREGISTER then {} else {fst r})"
proof (induction rs arbitrary: S)
  case (Cons q rs)
  have none: "kinds_after False fd rs S = S" if "last_request fd rs = None" for S
    using that by (induction rs) (simp_all split: option.splits if_splits)
  show ?case
  proof (cases "last_request fd rs")
    case None
    then have "req_fd q = fd" "q = r" using Cons.prems by (simp_all split: if_splits)
    then show ?thesis using none [OF None] by simp
  next
    case (Some x)
    then have "last_request fd rs = Some r" using Cons.prems by simp
    from Cons.IH [OF this] show ?thesis by simp
  qed
qed simp

locale fd_engine_kinds = fd_engine +
  fixes keep :: bool
  assumes handle_kinds: "inv e \<Longrightarrow> ty \<in> fd_kinds \<Longrightarrow> ty \<noteq> MSG_FD_UNREGISTER \<Longrightarrow> fd < table e \<Longrightarrow>
      handle (ty, fd, v, ex) e = Inr e' \<Longrightarrow> waits e' ty' fd \<longleftrightarrow> ty' = ty \<or> (keep \<and> waits e ty' fd)"
begin

lemma run_requests_kinds:
  assumes "inv e" and "\<forall>r \<in> set rs. fst r \<in> fd_kinds \<and> req_fd r < table e" and "run_requests handle rs e = Inr e'"
  shows "{ty. waits e' ty fd} = kinds_after keep fd rs {ty. waits e ty fd}"
  using assms
proof (induction rs arbitrary: e)
  case (Cons r rs)
  obtain ty f v ex where r: "r = (ty, f, v, ex)" by (cases r)
  have a: "ty \<in> fd_kinds" "f < table e" using Cons.prems(2) by (simp_all add: r req_fd_def)
  obtain e1 where e1: "handle (ty, f, v, ex) e = Inr e1" "inv e1" "table e1 = table e"
    using handle_inv [OF Cons.prems(1) a] by blast
  have "{t. waits e1 t fd} = (if f \<noteq> fd then {t. waits e t fd}
      else if ty = MSG_FD_UNREGISTER then {} else if keep then insert ty {t. waits e t fd} else {ty})"
    using handle_same [OF Cons.prems(1) a e1(1)] handle_unregister [OF Cons.prems(1) a(2)]
      handle_kinds [OF Cons.prems(1) a(1) _ a(2) e1(1)] e1(1)
    by (cases "f = fd"; cases "ty = MSG_FD_UNREGISTER") auto
  moreover have "{t. waits e' t fd} = kinds_after keep fd rs {t. waits e1 t fd}"
    by (rule Cons.IH) (use Cons.prems e1 in \<open>simp_all add: r\<close>)
  ultimately show ?case by (simp add: r req_fd_def)
qed simp

end

end
