(* ===== verification/Engine_Epoll.thy ===== *)
theory Engine_Epoll
  imports Engine_Requests
begin

text \<open>
  The engine of file descriptors on Linux (\<open>src/msock_engine_epoll.c\<close>). Per descriptor it keeps what
  it should wait for (\<open>new_mask\<close>) and what it has told the system (\<open>epoll_mask\<close>); the descriptors for
  which the two differ are in the list \<open>changed\<close>, and before it sleeps the engine tells the system
  about them. An event is answered once, with a message to the process that asked; so is a time-out.
\<close>

section \<open>The data\<close>

definition EPOLLIN :: "32 word" where "EPOLLIN = 1"
definition EPOLLOUT :: "32 word" where "EPOLLOUT = 4"
definition EPOLLERR :: "32 word" where "EPOLLERR = 8"
definition EPOLLHUP :: "32 word" where "EPOLLHUP = 16"

text \<open>\<open>struct local_item\<close>; its index in \<open>map\<close> is \<open>fd\<close>, and also names its timer.\<close>

record epoll_item =
  new_mask :: "32 word"
  epoll_mask :: "32 word"
  victim :: pid

record epoll_data =
  epfd :: fd
  pipe_read :: fd
  items :: "epoll_item list"
  changed :: "fd list"
  tbase :: timer_base

datatype ctl_op = EPOLL_CTL_ADD | EPOLL_CTL_MOD | EPOLL_CTL_DEL

text \<open>
  The calls of epoll: \<open>k_ctl\<close> answers with the error, if any; \<open>k_wait\<close> gets the time-out as an int and
  answers with the error or with the descriptors and their events.
\<close>

record 'k epoll_calls = "'k os_calls" +
  k_create :: "'k \<Rightarrow> fd option \<times> 'k"
  k_ctl :: "ctl_op \<Rightarrow> fd \<Rightarrow> 32 word \<Rightarrow> 'k \<Rightarrow> errno option \<times> 'k"
  k_wait :: "32 word \<Rightarrow> 'k \<Rightarrow> (errno + (fd \<times> 32 word) list) \<times> 'k"

definition get_item :: "fd \<Rightarrow> epoll_data \<Rightarrow> error + epoll_item" where
  "get_item fd sd = (if fd < length (items sd) then Inr (items sd ! fd) else Inl Bad_Deref)"

section \<open>Changes\<close>

text \<open>\<open>schedule_change\<close>, first without its timer.\<close>

definition mark_change :: "pid \<Rightarrow> fd \<Rightarrow> 32 word \<Rightarrow> epoll_data \<Rightarrow> error + epoll_data" where
  "mark_change v fd mk sd =
     rbind (get_item fd sd) (\<lambda>li.
       let li = li\<lparr>victim := v, new_mask := mk\<rparr>
       in Inr (sd\<lparr>items := (items sd)[fd := li],
                 changed := (if new_mask li = epoll_mask li then remove1 fd (changed sd)
                             else if fd \<notin> set (changed sd) then changed sd @ [fd]
                             else changed sd)\<rparr>))"

definition schedule_change :: "pid \<Rightarrow> fd \<Rightarrow> 32 word \<Rightarrow> ulong \<Rightarrow> epoll_data \<Rightarrow> error + epoll_data" where
  "schedule_change v fd mk ex sd =
     rbind (mark_change v fd mk sd) (\<lambda>sd.
       Inr (sd\<lparr>tbase := arm_timer fd ex (tbase sd)\<rparr>))"

text \<open>
  \<open>timer_callback\<close>: what it does to the map and what it sends; its own timer, which is off already, it
  stops again. The state of the callback is that of the rest of the engine.
\<close>

definition epoll_expire :: "('k, 'z) os_calls_scheme \<Rightarrow> tid \<Rightarrow> epoll_data \<times> sent list \<Rightarrow> error + (epoll_data \<times> sent list)" where
  "epoll_expire K fd = (\<lambda>(sd, out).
     rbind (get_item fd sd) (\<lambda>li.
     rbind (mark_change (victim li) fd 0 sd) (\<lambda>sd.
       Inr (sd, out @ [send_msg_helper (k_junk K) (victim li) MSG_FD_TIMEOUTED (of_nat fd)]))))"

definition epoll_timer_callback :: "('k, 'z) os_calls_scheme \<Rightarrow> (error + (epoll_data \<times> sent list)) timer_cb" where
  "epoll_timer_callback K fd b u = (rbind u (epoll_expire K fd), [TDel fd])"

section \<open>Sleeping\<close>

text \<open>One turn of the loop over the changed descriptors, after the entry was taken off the list.\<close>

definition sync_item :: "('k, 'z) epoll_calls_scheme \<Rightarrow> fd \<Rightarrow> epoll_item \<Rightarrow> 'k \<Rightarrow> error + 'k" where
  "sync_item K fd li k =
     (if new_mask li \<noteq> 0
      then case k_ctl K (if epoll_mask li = 0 then EPOLL_CTL_ADD else EPOLL_CTL_MOD) fd (new_mask li) k of
             (None, k) \<Rightarrow> Inr k
           | (Some e, k) \<Rightarrow> Inl (Fatal ''epoll_ctl'')
      else if epoll_mask li = 0 then Inl (Fatal ''wtf?'')
      else case k_ctl K EPOLL_CTL_DEL fd 0 k of
             (None, k) \<Rightarrow> Inr k
           | (Some e, k) \<Rightarrow> if e = EBADF then Inr k else Inl (Fatal ''epoll_ctl''))"

fun sync_changes :: "('k, 'z) epoll_calls_scheme \<Rightarrow> fd list \<Rightarrow> epoll_data \<Rightarrow> 'k \<Rightarrow> error + (epoll_data \<times> 'k)" where
  "sync_changes K [] sd k = Inr (sd, k)"
| "sync_changes K (fd # fds) sd k =
     rbind (get_item fd sd) (\<lambda>li.
     rbind (sync_item K fd li k) (\<lambda>k.
       sync_changes K fds
         (sd\<lparr>changed := remove1 fd (changed sd), items := (items sd)[fd := li\<lparr>epoll_mask := new_mask li\<rparr>]\<rparr>) k))"

text \<open>The time-out of \<open>epoll_wait\<close> is the unsigned long converted to an int; a negative one is none.\<close>

definition epoll_timeout :: "timer_base \<Rightarrow> ulong \<Rightarrow> 32 word" where
  "epoll_timeout tb now = ucast (delta_msecs tb now)"

fun wait_events :: "('k, 'z) epoll_calls_scheme \<Rightarrow> nat \<Rightarrow> ulong \<Rightarrow> epoll_data \<Rightarrow> 'k \<Rightarrow> error + ((fd \<times> 32 word) list \<times> 'k)" where
  "wait_events K 0 now sd k = Inl No_Fuel"
| "wait_events K (Suc n) now sd k =
     (case k_wait K (epoll_timeout (tbase sd) now) k of
        (Inl e, k) \<Rightarrow> if e = EINTR then wait_events K n now sd k else Inl (Fatal ''epoll_wait()'')
      | (Inr evs, k) \<Rightarrow> Inr (evs, k))"

text \<open>The kind of message that answers an event.\<close>

definition event_msg :: "32 word \<Rightarrow> error + msg_type" where
  "event_msg ev =
     (if ev AND EPOLLIN \<noteq> 0 then Inr MSG_FD_READ
      else if ev AND EPOLLOUT \<noteq> 0 then Inr MSG_FD_WRITE
      else if ev AND (EPOLLERR OR EPOLLHUP) \<noteq> 0 then Inr MSG_FD_CLOSE
      else Inl (Fatal ''ftf?''))"

fun handle_events :: "('k, 'z) epoll_calls_scheme \<Rightarrow> (fd \<times> 32 word) list \<Rightarrow> epoll_data \<Rightarrow> sent list \<Rightarrow> 'k \<Rightarrow>
    error + (epoll_data \<times> sent list \<times> 'k)" where
  "handle_events K [] sd out k = Inr (sd, out, k)"
| "handle_events K ((fd, ev) # evs) sd out k =
     (if ev AND EPOLLIN \<noteq> 0 \<and> fd = pipe_read sd
      then handle_events K evs sd out (k_read K fd 32 k)
      else rbind (event_msg ev) (\<lambda>ty.
           rbind (get_item fd sd) (\<lambda>li.
           rbind (schedule_change 0 fd 0 0 sd) (\<lambda>sd.
             handle_events K evs sd (out @ [send_msg_helper (k_junk K) (victim li) ty (of_nat fd)]) k))))"

text \<open>The end of \<open>process_block\<close>: the time, and the timers.\<close>

definition epoll_timers :: "('k, 'z) os_calls_scheme \<Rightarrow> ulong \<Rightarrow> epoll_data \<Rightarrow> sent list \<Rightarrow> error + (epoll_data \<times> sent list)" where
  "epoll_timers K now sd out =
     (case timers_run (epoll_timer_callback K) now (tbase sd) (Inr (sd, out)) of
        (expired, tb, u) \<Rightarrow> rbind u (\<lambda>(sd, out). Inr (sd\<lparr>tbase := tb\<rparr>, out)))"

text \<open>The result: the engine's data, the messages sent, the new \<open>msock_now_msecs\<close> and the system.\<close>

definition epoll_process_block :: "('k, 'z) epoll_calls_scheme \<Rightarrow> nat \<Rightarrow> ulong \<Rightarrow> epoll_data \<Rightarrow> 'k \<Rightarrow>
    error + (epoll_data \<times> sent list \<times> ulong \<times> 'k)" where
  "epoll_process_block K n now sd k =
     rbind (sync_changes K (changed sd) sd k) (\<lambda>(sd, k).
     rbind (wait_events K n now sd k) (\<lambda>(evs, k).
     rbind (handle_events K evs sd [] k) (\<lambda>(sd, out, k).
     rbind (set_msock_now_msecs K k) (\<lambda>(now, k).
     rbind (epoll_timers K now sd out) (\<lambda>(sd, out). Inr (sd, out, now, k))))))"

section \<open>The callback\<close>

definition epoll_data_free :: "('k, 'z) os_calls_scheme \<Rightarrow> epoll_data \<Rightarrow> 'k \<Rightarrow> 'k" where
  "epoll_data_free K sd k = k_close K (pipe_read sd) (k_close K (epfd sd) k)"

definition epoll_process_callback :: "('k, 'z) epoll_calls_scheme \<Rightarrow> nat \<Rightarrow> msg_type \<Rightarrow> byte list \<Rightarrow> ulong \<Rightarrow> epoll_data \<Rightarrow> 'k \<Rightarrow>
    error + (recv \<times> epoll_data option \<times> sent list \<times> ulong \<times> 'k)" where
  "epoll_process_callback K n ty payload now sd k =
     (let msg = decode_msg_fd payload; fd = unat (mf_fd msg);
          change = (\<lambda>mk ex. rbind (schedule_change (mf_victim msg) fd mk ex sd) (\<lambda>sd. Inr (RECV_OK, Some sd, [], now, k)))
      in if ty = MSG_FD_REGISTER_READ then change EPOLLIN (mf_expires msg)
         else if ty = MSG_FD_REGISTER_WRITE then change EPOLLOUT (mf_expires msg)
         else if ty = MSG_FD_UNREGISTER then change 0 0
         else if ty = MSG_EXIT then Inr (RECV_EXIT, None, [], now, epoll_data_free K sd k)
         else if ty = MSG_QUEUE_EMPTY
         then rbind (epoll_process_block K n now sd k) (\<lambda>(sd, out, now, k). Inr (RECV_OK, Some sd, out, now, k))
         else Inl (Fatal ''Broken message''))"

section \<open>The constructor\<close>

definition fresh_epoll_item :: epoll_item where
  "fresh_epoll_item = \<lparr>new_mask = 0, epoll_mask = 0, victim = 0\<rparr>"

text \<open>
  \<open>epoll_constructor\<close> up to the start of the domain: the data, the writing end of the pipe and the time.
  A negative limit on open files is a size that cannot be allocated.
\<close>

definition epoll_data_new :: "('k, 'z) epoll_calls_scheme \<Rightarrow> ulong option \<Rightarrow> 'k \<Rightarrow> error + (epoll_data \<times> fd \<times> ulong \<times> 'k)" where
  "epoll_data_new K rlim_max k =
     rbind (get_max_open_files rlim_max) (\<lambda>map_sz.
     if map_sz <s 0 then Inl (Fatal ''Memory allocation failed! posix_memalign()'')
     else case k_create K k of
       (None, k) \<Rightarrow> Inl (Fatal ''epoll_create()'')
     | (Some ep, k) \<Rightarrow>
         rbind (set_msock_now_msecs K k) (\<lambda>(now, k).
         rbind (open_pipe K k) (\<lambda>(r, w, k).
           Inr (\<lparr>epfd = ep, pipe_read = r, items = replicate (unat map_sz) fresh_epoll_item, changed = [],
                 tbase = init_timer_base now\<rparr>, w, now, k))))"

text \<open>The rest of it: \<open>put\<close> stores the engine's data, to which \<open>data\<close> points, in the world.\<close>

definition epoll_constructor :: "('d, 'u) surroundings \<Rightarrow> ('u, 'z) epoll_calls_scheme \<Rightarrow> ulong option \<Rightarrow> nat \<Rightarrow> (fd \<Rightarrow> 'd) \<Rightarrow> 'c \<Rightarrow> 'd \<Rightarrow>
    (epoll_data \<Rightarrow> ulong \<Rightarrow> 'u \<Rightarrow> 'u) \<Rightarrow> ('c, 'd, 'u) base \<Rightarrow> error + ('c, 'd, 'u) base" where
  "epoll_constructor s K rlim_max prot pipe_data cb data put b =
     rbind (epoll_data_new K rlim_max (world b)) (\<lambda>(sd, w, now, k).
     rbind (start_engine s prot (Some (pipe_data w)) cb (Some data) PID_SELECT (b\<lparr>world := k\<rparr>)) (\<lambda>(pid, b).
     rbind (schedule_change pid (pipe_read sd) EPOLLIN 0 sd) (\<lambda>sd.
       Inr (b\<lparr>world := put sd now (world b)\<rparr>))))"

text \<open>The callback of the engine's process: it works on the data in the world, and then sends.\<close>

definition epoll_act :: "('u, 'z) epoll_calls_scheme \<Rightarrow> nat \<Rightarrow> ('u \<Rightarrow> (epoll_data \<times> ulong) option) \<Rightarrow>
    (epoll_data option \<Rightarrow> ulong \<Rightarrow> 'u \<Rightarrow> 'u) \<Rightarrow> msg_type \<Rightarrow> byte list \<Rightarrow> ('c, 'd, 'u) act" where
  "epoll_act K n get put ty payload =
     World (\<lambda>u. case rbind (need (get u)) (\<lambda>(sd, now). epoll_process_callback K n ty payload now sd u) of
                  Inl e \<Rightarrow> (u, Fail e)
                | Inr (r, sd, out, now, u) \<Rightarrow> (put sd now u, send_all (k_pad K) out (Return r)))"

section \<open>The invariant\<close>

text \<open>The list \<open>changed\<close> holds exactly the descriptors for which the two masks differ.\<close>

definition map_inv :: "epoll_data \<Rightarrow> bool" where
  "map_inv sd \<longleftrightarrow> distinct (changed sd) \<and>
     (\<forall>fd. fd \<in> set (changed sd) \<longleftrightarrow> fd < length (items sd) \<and> new_mask (items sd ! fd) \<noteq> epoll_mask (items sd ! fd))"

definition epoll_inv :: "epoll_data \<Rightarrow> bool" where
  "epoll_inv sd \<longleftrightarrow> map_inv sd \<and> timers_inv (length (items sd)) (tbase sd)"

lemma mark_change_spec:
  assumes "map_inv sd" and "fd < length (items sd)"
  obtains sd' where "mark_change v fd mk sd = Inr sd'" "map_inv sd'"
    "items sd' = (items sd)[fd := (items sd ! fd)\<lparr>victim := v, new_mask := mk\<rparr>]"
    "pipe_read sd' = pipe_read sd" "epfd sd' = epfd sd" "tbase sd' = tbase sd"
proof -
  let ?li = "(items sd ! fd)\<lparr>victim := v, new_mask := mk\<rparr>"
  let ?sd = "sd\<lparr>items := (items sd)[fd := ?li], changed := (if new_mask ?li = epoll_mask ?li then remove1 fd (changed sd)
      else if fd \<notin> set (changed sd) then changed sd @ [fd] else changed sd)\<rparr>"
  have "mark_change v fd mk sd = Inr ?sd" using assms(2) by (simp add: mark_change_def get_item_def Let_def)
  moreover have "map_inv ?sd"
    using assms unfolding map_inv_def by (auto simp: nth_list_update)
  ultimately show ?thesis using that by simp
qed

lemma schedule_change_spec:
  assumes "epoll_inv sd" and "fd < length (items sd)"
  obtains sd' where "schedule_change v fd mk ex sd = Inr sd'" "epoll_inv sd'"
    "items sd' = (items sd)[fd := (items sd ! fd)\<lparr>victim := v, new_mask := mk\<rparr>]"
    "pipe_read sd' = pipe_read sd" "tbase sd' = arm_timer fd ex (tbase sd)"
proof -
  have m: "map_inv sd" and t: "timers_inv (length (items sd)) (tbase sd)" using assms(1) by (simp_all add: epoll_inv_def)
  obtain sd1 where sd1: "mark_change v fd mk sd = Inr sd1" "map_inv sd1"
    "items sd1 = (items sd)[fd := (items sd ! fd)\<lparr>victim := v, new_mask := mk\<rparr>]"
    "pipe_read sd1 = pipe_read sd" "epfd sd1 = epfd sd" "tbase sd1 = tbase sd"
    by (rule mark_change_spec [OF m assms(2), where v = v and mk = mk])
  let ?sd = "sd1\<lparr>tbase := arm_timer fd ex (tbase sd)\<rparr>"
  have "epoll_inv ?sd"
    using sd1(2,3) timers_inv_arm(1) [OF t assms(2)] by (simp add: epoll_inv_def map_inv_def)
  then show ?thesis using that [of ?sd] sd1 by (simp add: schedule_change_def)
qed

section \<open>Telling the system\<close>

text \<open>
  What the manual of \<open>epoll_ctl\<close> promises, for descriptors whose open file has no other descriptor:
  \<open>watch k fd\<close> are the events that the system waits for, none if it does not watch the descriptor. A
  call that succeeds has its effect, one that fails has none, and it fails with EBADF only for a
  descriptor that is not open and therefore not watched.
\<close>

definition ctl_law :: "('k, 'z) epoll_calls_scheme \<Rightarrow> ('k \<Rightarrow> fd \<Rightarrow> 32 word) \<Rightarrow> bool" where
  "ctl_law K watch \<longleftrightarrow> (\<forall>op fd mk k k'.
     (k_ctl K op fd mk k = (None, k') \<longrightarrow> watch k' = (watch k)(fd := (if op = EPOLL_CTL_DEL then 0 else mk))) \<and>
     (\<forall>e. k_ctl K op fd mk k = (Some e, k') \<longrightarrow> watch k' = watch k \<and> (e = EBADF \<longrightarrow> watch k fd = 0)))"

lemma ctl_lawD:
  assumes "ctl_law K watch"
  shows "k_ctl K op fd mk k = (None, k') \<Longrightarrow> watch k' = (watch k)(fd := (if op = EPOLL_CTL_DEL then 0 else mk))"
    and "k_ctl K op fd mk k = (Some e, k') \<Longrightarrow> watch k' = watch k"
    and "k_ctl K op fd mk k = (Some EBADF, k') \<Longrightarrow> watch k fd = 0"
  using assms unfolding ctl_law_def by blast+

text \<open>The call of the system that fails.\<close>

definition ctl_fails :: "('k, 'z) epoll_calls_scheme \<Rightarrow> fd \<Rightarrow> bool" where
  "ctl_fails K fd \<longleftrightarrow> (\<exists>op mk k. fst (k_ctl K op fd mk k) \<noteq> None)"

lemma sync_item_spec:
  assumes law: "ctl_law K watch" and "new_mask li \<noteq> epoll_mask li"
  shows "case sync_item K fd li k of Inl e \<Rightarrow> e = Fatal ''epoll_ctl'' \<and> ctl_fails K fd | Inr k' \<Rightarrow> watch k' = (watch k)(fd := new_mask li)"
proof -
  let ?op = "if new_mask li = 0 then EPOLL_CTL_DEL else if epoll_mask li = 0 then EPOLL_CTL_ADD else EPOLL_CTL_MOD"
  obtain r k' where c: "k_ctl K ?op fd (new_mask li) k = (r, k')" by fastforce
  have f: "r \<noteq> None \<Longrightarrow> ctl_fails K fd" using c unfolding ctl_fails_def by (metis fst_conv)
  have z: "new_mask li = 0 \<Longrightarrow> epoll_mask li \<noteq> 0" using assms(2) by auto
  show ?thesis
  proof (cases r)
    case None
    then show ?thesis using c z ctl_lawD(1) [OF law, of ?op fd "new_mask li" k k'] by (auto simp: sync_item_def)
  next
    case (Some e)
    have "(watch k)(fd := 0) = watch k'" if "e = EBADF"
      using c Some that ctl_lawD(2,3) [OF law, of ?op fd "new_mask li" k] by (metis fun_upd_triv)
    then show ?thesis using c z f Some by (auto simp: sync_item_def)
  qed
qed

lemma sync_changes_spec:
  fixes fds :: "fd list"
  assumes "ctl_law K watch" and "distinct fds" and "changed sd = fds"
    and "\<forall>fd \<in> set fds. fd < length (items sd) \<and> new_mask (items sd ! fd) \<noteq> epoll_mask (items sd ! fd)"
  shows "case sync_changes K fds sd k of
      Inl e \<Rightarrow> e = Fatal ''epoll_ctl'' \<and> (\<exists>fd \<in> set fds. ctl_fails K fd)
    | Inr (sd', k') \<Rightarrow> changed sd' = [] \<and> length (items sd') = length (items sd) \<and> tbase sd' = tbase sd \<and>
        pipe_read sd' = pipe_read sd \<and>
        (\<forall>fd. watch k' fd = (if fd \<in> set fds then new_mask (items sd ! fd) else watch k fd)) \<and>
        (\<forall>fd < length (items sd). items sd' ! fd =
           (if fd \<in> set fds then (items sd ! fd)\<lparr>epoll_mask := new_mask (items sd ! fd)\<rparr> else items sd ! fd))"
  using assms(2-4)
proof (induction fds arbitrary: sd k)
  case (Cons fd fds)
  let ?li = "items sd ! fd"
  let ?sd = "sd\<lparr>changed := fds, items := (items sd)[fd := ?li\<lparr>epoll_mask := new_mask ?li\<rparr>]\<rparr>"
  have fd: "fd < length (items sd)" "new_mask ?li \<noteq> epoll_mask ?li" and nin: "fd \<notin> set fds" using Cons.prems by simp_all
  have g: "get_item fd sd = Inr ?li" using fd(1) by (simp add: get_item_def)
  note s = sync_item_spec [OF assms(1) fd(2), of fd k]
  show ?case
  proof (cases "sync_item K fd ?li k")
    case (Inl e)
    then show ?thesis using s by (simp add: g)
  next
    case (Inr k1)
    then have w: "watch k1 = (watch k)(fd := new_mask ?li)" using s by simp
    have "\<forall>x \<in> set fds. x < length (items ?sd) \<and> new_mask (items ?sd ! x) \<noteq> epoll_mask (items ?sd ! x)"
      using Cons.prems(3) nin by (auto simp: nth_list_update)
    then have ih: "case sync_changes K fds ?sd k1 of
        Inl e \<Rightarrow> e = Fatal ''epoll_ctl'' \<and> (\<exists>fd \<in> set fds. ctl_fails K fd)
      | Inr (sd', k') \<Rightarrow> changed sd' = [] \<and> length (items sd') = length (items sd) \<and> tbase sd' = tbase sd \<and>
          pipe_read sd' = pipe_read sd \<and>
          (\<forall>fd. watch k' fd = (if fd \<in> set fds then new_mask (items ?sd ! fd) else watch k1 fd)) \<and>
          (\<forall>fd < length (items sd). items sd' ! fd =
             (if fd \<in> set fds then (items ?sd ! fd)\<lparr>epoll_mask := new_mask (items ?sd ! fd)\<rparr> else items ?sd ! fd))"
      using Cons.IH [of ?sd k1] Cons.prems(1) by (auto split: sum.splits prod.splits)
    have e: "sync_changes K (fd # fds) sd k = sync_changes K fds ?sd k1" by (simp add: g Inr Cons.prems(2))
    show ?thesis
    proof (cases "sync_changes K fds ?sd k1")
      case (Inl e1)
      then show ?thesis using ih unfolding e by simp
    next
      case r: (Inr p)
      obtain sd' k' where p: "p = (sd', k')" by fastforce
      have "watch k' x = (if x \<in> set (fd # fds) then new_mask (items sd ! x) else watch k x)" for x
        using ih nin fd(1) by (cases "x = fd") (auto simp: r p w)
      moreover have "items sd' ! x = (if x \<in> set (fd # fds) then (items sd ! x)\<lparr>epoll_mask := new_mask (items sd ! x)\<rparr> else items sd ! x)"
        if "x < length (items sd)" for x
        using ih nin fd(1) that by (cases "x = fd") (auto simp: r p)
      ultimately show ?thesis using ih unfolding e r p by simp
    qed
  qed
qed simp

text \<open>
  What the manual says about the errors: a descriptor that is not open is answered with EBADF and not watched;
  adding one that is watched, with EEXIST, and changing or deleting one that is not, with ENOENT; and
  no call opens or closes one.
\<close>

definition EEXIST :: errno where "EEXIST = 17"
definition ENOENT :: errno where "ENOENT = 2"

definition ctl_answers :: "('k, 'z) epoll_calls_scheme \<Rightarrow> ('k \<Rightarrow> fd \<Rightarrow> bool) \<Rightarrow> ('k \<Rightarrow> fd \<Rightarrow> 32 word) \<Rightarrow> bool" where
  "ctl_answers K opened watch \<longleftrightarrow> (\<forall>k fd. \<not> opened k fd \<longrightarrow> watch k fd = 0) \<and>
     (\<forall>op fd mk k r k'. k_ctl K op fd mk k = (r, k') \<longrightarrow> opened k' = opened k \<and> (r = Some EBADF \<longleftrightarrow> \<not> opened k fd) \<and>
        (opened k fd \<longrightarrow> (r = Some EEXIST \<longleftrightarrow> op = EPOLL_CTL_ADD \<and> watch k fd \<noteq> 0) \<and>
           (r = Some ENOENT \<longleftrightarrow> op \<noteq> EPOLL_CTL_ADD \<and> watch k fd = 0)))"

text \<open>The other errors: no memory, too many watches, a file that cannot be watched.\<close>

definition ctl_refuses :: "('k, 'z) epoll_calls_scheme \<Rightarrow> fd \<Rightarrow> bool" where
  "ctl_refuses K fd \<longleftrightarrow> (\<exists>op mk k e. fst (k_ctl K op fd mk k) = Some e \<and> e \<notin> {EBADF, EEXIST, ENOENT})"

lemma sync_item_answers:
  assumes ans: "ctl_answers K opened watch" and ne: "new_mask li \<noteq> epoll_mask li" and w: "opened k fd \<Longrightarrow> watch k fd = epoll_mask li"
  shows "case sync_item K fd li k of Inl e \<Rightarrow> (\<not> opened k fd \<and> new_mask li \<noteq> 0) \<or> ctl_refuses K fd
    | Inr k' \<Rightarrow> opened k' = opened k \<and> (opened k fd \<or> new_mask li = 0)"
proof -
  let ?op = "if new_mask li = 0 then EPOLL_CTL_DEL else if epoll_mask li = 0 then EPOLL_CTL_ADD else EPOLL_CTL_MOD"
  obtain r k' where c: "k_ctl K ?op fd (new_mask li) k = (r, k')" by fastforce
  have a: "opened k' = opened k" "r = Some EBADF \<longleftrightarrow> \<not> opened k fd"
    "opened k fd \<Longrightarrow> r = Some EEXIST \<longleftrightarrow> ?op = EPOLL_CTL_ADD \<and> watch k fd \<noteq> 0"
    "opened k fd \<Longrightarrow> r = Some ENOENT \<longleftrightarrow> ?op \<noteq> EPOLL_CTL_ADD \<and> watch k fd = 0"
    using ans c unfolding ctl_answers_def by blast+
  have z: "new_mask li = 0 \<Longrightarrow> epoll_mask li \<noteq> 0" using ne by auto
  have i: "sync_item K fd li k = (case r of None \<Rightarrow> Inr k'
      | Some e \<Rightarrow> if new_mask li = 0 \<and> e = EBADF then Inr k' else Inl (Fatal ''epoll_ctl''))"
    using c z by (auto simp: sync_item_def split: option.split)
  show ?thesis
  proof (cases r)
    case None
    then show ?thesis using a(1,2) i by simp
  next
    case (Some e)
    have "e \<noteq> EEXIST \<and> e \<noteq> ENOENT" if "opened k fd"
      using a(3,4) [OF that] Some w [OF that] z by (auto split: if_splits)
    moreover have "ctl_refuses K fd" if "e \<notin> {EBADF, EEXIST, ENOENT}"
      using that c Some unfolding ctl_refuses_def by (metis fst_conv)
    ultimately show ?thesis using a(1,2) Some i by auto
  qed
qed

lemma sync_changes_answers:
  fixes fds :: "fd list"
  assumes law: "ctl_law K watch" and ans: "ctl_answers K opened watch" and "distinct fds" and "changed sd = fds"
    and "\<forall>fd \<in> set fds. fd < length (items sd) \<and> new_mask (items sd ! fd) \<noteq> epoll_mask (items sd ! fd)"
    and "\<forall>fd \<in> set fds. opened k fd \<longrightarrow> watch k fd = epoll_mask (items sd ! fd)"
  shows "case sync_changes K fds sd k of
      Inl e \<Rightarrow> \<exists>fd \<in> set fds. (\<not> opened k fd \<and> new_mask (items sd ! fd) \<noteq> 0) \<or> ctl_refuses K fd
    | Inr (sd', k') \<Rightarrow> opened k' = opened k \<and> (\<forall>fd \<in> set fds. opened k fd \<or> new_mask (items sd ! fd) = 0)"
  using assms(3-6)
proof (induction fds arbitrary: sd k)
  case (Cons fd fds)
  let ?li = "items sd ! fd"
  let ?sd = "sd\<lparr>changed := fds, items := (items sd)[fd := ?li\<lparr>epoll_mask := new_mask ?li\<rparr>]\<rparr>"
  have fd: "fd < length (items sd)" "new_mask ?li \<noteq> epoll_mask ?li" and nin: "fd \<notin> set fds" using Cons.prems by simp_all
  have g: "get_item fd sd = Inr ?li" using fd(1) by (simp add: get_item_def)
  have s: "case sync_item K fd ?li k of Inl e \<Rightarrow> (\<not> opened k fd \<and> new_mask ?li \<noteq> 0) \<or> ctl_refuses K fd
    | Inr k' \<Rightarrow> opened k' = opened k \<and> (opened k fd \<or> new_mask ?li = 0)"
    by (rule sync_item_answers [OF ans fd(2)]) (use Cons.prems(4) in simp)
  show ?case
  proof (cases "sync_item K fd ?li k")
    case (Inl e)
    then show ?thesis using s by (simp add: g)
  next
    case (Inr k1)
    have w: "watch k1 = (watch k)(fd := new_mask ?li)" using sync_item_spec [OF law fd(2), of fd k] Inr by simp
    have k1: "opened k1 = opened k" "opened k fd \<or> new_mask ?li = 0" using s Inr by simp_all
    have it: "items ?sd ! x = items sd ! x" if "x \<in> set fds" for x using that nin by (cases "x = fd") auto
    have "case sync_changes K fds ?sd k1 of
        Inl e \<Rightarrow> \<exists>fd \<in> set fds. (\<not> opened k1 fd \<and> new_mask (items ?sd ! fd) \<noteq> 0) \<or> ctl_refuses K fd
      | Inr (sd', k') \<Rightarrow> opened k' = opened k1 \<and> (\<forall>fd \<in> set fds. opened k1 fd \<or> new_mask (items ?sd ! fd) = 0)"
      by (rule Cons.IH) (use Cons.prems nin k1(1) in \<open>auto simp: w nth_list_update\<close>)
    moreover have "sync_changes K (fd # fds) sd k = sync_changes K fds ?sd k1" by (simp add: g Inr Cons.prems(2))
    ultimately show ?thesis using k1 it by (auto split: sum.splits)
  qed
qed simp

text \<open>
  C30: Before it sleeps, the engine brings the system up to date. Let the system watch every open descriptor
  for what the engine had told it last. Then the engine stops only for two reasons: a descriptor that is closed is to be
  watched anew or for something else, or the system refuses a call for lack of means. Otherwise it
  goes on, and afterwards the system watches every open descriptor for exactly what the engine now wants, and
  no closed one, whatever the engine wanted to take back of it; no change is left to make, and the invariant
  holds. In particular the engine never adds a descriptor that is watched, or changes or deletes one that
  is not, and the case that the code calls impossible is.
\<close>

theorem epoll_sync_tells_system:
  assumes inv: "epoll_inv sd" and law: "ctl_law K watch" and ans: "ctl_answers K opened watch"
    and w: "\<forall>fd < length (items sd). opened k fd \<longrightarrow> watch k fd = epoll_mask (items sd ! fd)"
  shows "case sync_changes K (changed sd) sd k of
      Inl e \<Rightarrow> e = Fatal ''epoll_ctl'' \<and>
        (\<exists>fd < length (items sd). new_mask (items sd ! fd) \<noteq> epoll_mask (items sd ! fd) \<and>
           (\<not> opened k fd \<and> new_mask (items sd ! fd) \<noteq> 0 \<or> ctl_refuses K fd))
    | Inr (sd', k') \<Rightarrow> epoll_inv sd' \<and> changed sd' = [] \<and> length (items sd') = length (items sd) \<and>
        (\<forall>fd < length (items sd). watch k' fd = (if opened k fd then new_mask (items sd ! fd) else 0) \<and>
           items sd' ! fd = (items sd ! fd)\<lparr>epoll_mask := new_mask (items sd ! fd)\<rparr>)"
proof -
  let ?n = "length (items sd)"
  have m: "distinct (changed sd)" "\<forall>fd. fd \<in> set (changed sd) \<longleftrightarrow> fd < ?n \<and> new_mask (items sd ! fd) \<noteq> epoll_mask (items sd ! fd)"
    and t: "timers_inv ?n (tbase sd)"
    using inv by (simp_all add: epoll_inv_def map_inv_def)
  then have c: "\<forall>fd \<in> set (changed sd). fd < ?n \<and> new_mask (items sd ! fd) \<noteq> epoll_mask (items sd ! fd)" by simp
  note s = sync_changes_spec [OF law m(1) refl c, of k]
  have a: "case sync_changes K (changed sd) sd k of
      Inl e \<Rightarrow> \<exists>fd \<in> set (changed sd). (\<not> opened k fd \<and> new_mask (items sd ! fd) \<noteq> 0) \<or> ctl_refuses K fd
    | Inr (sd', k') \<Rightarrow> opened k' = opened k \<and> (\<forall>fd \<in> set (changed sd). opened k fd \<or> new_mask (items sd ! fd) = 0)"
    by (rule sync_changes_answers [OF law ans m(1) refl c]) (use w m(2) in simp)
  show ?thesis
  proof (cases "sync_changes K (changed sd) sd k")
    case (Inl e)
    then show ?thesis using s a m(2) by auto
  next
    case (Inr p)
    obtain sd' k' where p: "p = (sd', k')" by fastforce
    note s' = s [unfolded Inr p sum.case prod.case] and a' = a [unfolded Inr p sum.case prod.case]
    have i: "items sd' ! fd = (items sd ! fd)\<lparr>epoll_mask := new_mask (items sd ! fd)\<rparr>" if "fd < ?n" for fd
      using s' m(2) that by (cases "fd \<in> set (changed sd)") simp_all
    then have "epoll_inv sd'" using s' t by (simp add: epoll_inv_def map_inv_def)
    moreover have "watch k' fd = (if opened k fd then new_mask (items sd ! fd) else 0)" if "fd < ?n" for fd
    proof (cases "fd \<in> set (changed sd)")
      case True
      then show ?thesis using s' a' by auto
    next
      case False
      then have "watch k' fd = watch k fd" "new_mask (items sd ! fd) = epoll_mask (items sd ! fd)" using s' m(2) that by auto
      then show ?thesis using w that ans by (auto simp: ctl_answers_def)
    qed
    ultimately show ?thesis using s' i by (simp add: Inr p)
  qed
qed

section \<open>Answering events and time-outs\<close>

text \<open>An event on the pipe only wakes the engine up; every other one is answered.\<close>

definition answered :: "epoll_data \<Rightarrow> (fd \<times> 32 word) list \<Rightarrow> (fd \<times> 32 word) list" where
  "answered sd evs = filter (\<lambda>(fd, ev). \<not> (ev AND EPOLLIN \<noteq> 0 \<and> fd = pipe_read sd)) evs"

definition answer :: "('k, 'z) os_calls_scheme \<Rightarrow> epoll_data \<Rightarrow> fd \<times> 32 word \<Rightarrow> sent" where
  "answer K sd = (\<lambda>(fd, ev). send_msg_helper (k_junk K) (victim (items sd ! fd)) (projr (event_msg ev)) (of_nat fd))"

definition timeout_answer :: "('k, 'z) os_calls_scheme \<Rightarrow> epoll_data \<Rightarrow> fd \<Rightarrow> sent" where
  "timeout_answer K sd fd = send_msg_helper (k_junk K) (victim (items sd ! fd)) MSG_FD_TIMEOUTED (of_nat fd)"

text \<open>The pipe is read at each of its events.\<close>

definition woken :: "('k, 'z) os_calls_scheme \<Rightarrow> epoll_data \<Rightarrow> (fd \<times> 32 word) list \<Rightarrow> 'k \<Rightarrow> 'k" where
  "woken K sd evs k = fold (\<lambda>(fd, ev) k. if ev AND EPOLLIN \<noteq> 0 \<and> fd = pipe_read sd then k_read K fd 32 k else k) evs k"

text \<open>Events that can be answered: of descriptors of the map, each once, and of a known kind.\<close>

definition good_events :: "epoll_data \<Rightarrow> (fd \<times> 32 word) list \<Rightarrow> bool" where
  "good_events sd evs \<longleftrightarrow> distinct (map fst (answered sd evs)) \<and>
     (\<forall>(fd, ev) \<in> set (answered sd evs). fd < length (items sd) \<and> \<not> isl (event_msg ev))"

lemma handle_events_spec:
  assumes "epoll_inv sd" and "good_events sd evs"
  shows "\<exists>sd'. handle_events K evs sd out k = Inr (sd', out @ map (answer K sd) (answered sd evs), woken K sd evs k) \<and>
    epoll_inv sd' \<and> length (items sd') = length (items sd) \<and> pipe_read sd' = pipe_read sd \<and>
    timer_jiffies (tbase sd') = timer_jiffies (tbase sd) \<and> expires (tbase sd') = expires (tbase sd) \<and>
    (\<forall>fd < length (items sd). items sd' ! fd =
       (if fd \<in> fst ` set (answered sd evs) then (items sd ! fd)\<lparr>victim := 0, new_mask := 0\<rparr> else items sd ! fd)) \<and>
    (\<forall>t. timer_pending t (tbase sd') \<longleftrightarrow> timer_pending t (tbase sd) \<and> t \<notin> fst ` set (answered sd evs))"
  using assms
proof (induction evs arbitrary: sd out k)
  case Nil
  then show ?case by (simp add: answered_def woken_def)
next
  case (Cons e evs)
  obtain fd ev where e: "e = (fd, ev)" by fastforce
  show ?case
  proof (cases "ev AND EPOLLIN \<noteq> 0 \<and> fd = pipe_read sd")
    case True
    then have a: "answered sd (e # evs) = answered sd evs" by (simp add: e answered_def)
    then have "good_events sd evs" using Cons.prems(2) by (simp add: good_events_def)
    from Cons.IH [OF Cons.prems(1) this, of out "k_read K fd 32 k"] show ?thesis unfolding a using True by (simp add: e woken_def)
  next
    case False
    then have a: "answered sd (e # evs) = (fd, ev) # answered sd evs" by (auto simp: e answered_def)
    have g: "fd < length (items sd)" "\<not> isl (event_msg ev)" "fd \<notin> fst ` set (answered sd evs)" "good_events sd evs"
      using Cons.prems(2) by (auto simp: good_events_def a)
    obtain ty where ty: "event_msg ev = Inr ty" using g(2) by (cases "event_msg ev") simp_all
    obtain sd1 where sd1: "schedule_change 0 fd 0 0 sd = Inr sd1" "epoll_inv sd1"
      "items sd1 = (items sd)[fd := (items sd ! fd)\<lparr>victim := 0, new_mask := 0\<rparr>]"
      "pipe_read sd1 = pipe_read sd" "tbase sd1 = arm_timer fd 0 (tbase sd)"
      by (rule schedule_change_spec [OF Cons.prems(1) g(1)])
    have an: "answered sd1 evs = answered sd evs" by (simp add: answered_def sd1(4))
    have "good_events sd1 evs" using g(4) by (simp add: good_events_def an sd1(3))
    note ih = Cons.IH [OF sd1(2) this, of "out @ [answer K sd (fd, ev)]" k, unfolded an]
    have m: "map (answer K sd1) (answered sd evs) = map (answer K sd) (answered sd evs)"
      using g(3) by (intro map_cong refl) (auto simp: answer_def sd1(3) nth_list_update image_iff)
    have "timers_inv (length (items sd)) (tbase sd)" using Cons.prems(1) by (simp add: epoll_inv_def)
    note ti = timers_inv_arm [OF this g(1), where ex = 0]
    have h: "handle_events K (e # evs) sd out k = handle_events K evs sd1 (out @ [answer K sd (fd, ev)]) k"
      using False g(1) ty by (auto simp: e get_item_def sd1(1) answer_def)
    obtain sd' where r: "handle_events K evs sd1 (out @ [answer K sd (fd, ev)]) k =
        Inr (sd', (out @ [answer K sd (fd, ev)]) @ map (answer K sd) (answered sd evs), woken K sd1 evs k)"
      and p: "epoll_inv sd'" "length (items sd') = length (items sd1)" "pipe_read sd' = pipe_read sd1"
        "timer_jiffies (tbase sd') = timer_jiffies (tbase sd1)" "expires (tbase sd') = expires (tbase sd1)"
        "\<forall>fd < length (items sd1). items sd' ! fd = (if fd \<in> fst ` set (answered sd evs)
           then (items sd1 ! fd)\<lparr>victim := 0, new_mask := 0\<rparr> else items sd1 ! fd)"
        "\<forall>t. timer_pending t (tbase sd') \<longleftrightarrow> timer_pending t (tbase sd1) \<and> t \<notin> fst ` set (answered sd evs)"
      using ih unfolding m by blast
    have "expires (tbase sd1) = expires (tbase sd)" using ti(4) by (simp add: sd1(5) fun_eq_iff)
    moreover have "items sd' ! x = (if x \<in> fst ` set (answered sd (e # evs)) then (items sd ! x)\<lparr>victim := 0, new_mask := 0\<rparr> else items sd ! x)"
      if "x < length (items sd)" for x
      using p(6) that g(1) by (auto simp: a sd1(3) nth_list_update)
    moreover have "timer_pending t (tbase sd') \<longleftrightarrow> timer_pending t (tbase sd) \<and> t \<notin> fst ` set (answered sd (e # evs))" for t
      using p(7) by (auto simp: a sd1(5) ti(2))
    moreover have "woken K sd1 evs k = woken K sd (e # evs) k"
    proof -
      have "woken K sd1 evs k = woken K sd evs k" by (simp only: woken_def sd1(4))
      also have "\<dots> = woken K sd (e # evs) k" using False by (auto simp: e woken_def)
      finally show ?thesis .
    qed
    ultimately show ?thesis using h r p(1-5) by (simp add: a sd1(3,4,5) ti(3))
  qed
qed

lemma expire_fold:
  assumes "map_inv sd" and "distinct ts" and "set ts \<subseteq> {..<length (items sd)}"
  shows "\<exists>sd'. fold (\<lambda>t u. rbind u (epoll_expire K t)) ts (Inr (sd, out)) = Inr (sd', out @ map (timeout_answer K sd) ts) \<and>
    map_inv sd' \<and> length (items sd') = length (items sd) \<and> pipe_read sd' = pipe_read sd \<and>
    (\<forall>fd < length (items sd). items sd' ! fd = (if fd \<in> set ts then (items sd ! fd)\<lparr>new_mask := 0\<rparr> else items sd ! fd))"
  using assms
proof (induction ts arbitrary: sd out)
  case (Cons t ts)
  have t: "t < length (items sd)" "t \<notin> set ts" using Cons.prems by simp_all
  obtain sd1 where sd1: "mark_change (victim (items sd ! t)) t 0 sd = Inr sd1" "map_inv sd1"
    "items sd1 = (items sd)[t := (items sd ! t)\<lparr>victim := victim (items sd ! t), new_mask := 0\<rparr>]"
    "pipe_read sd1 = pipe_read sd" "epfd sd1 = epfd sd" "tbase sd1 = tbase sd"
    by (rule mark_change_spec [OF Cons.prems(1) t(1)])
  have ex: "epoll_expire K t (sd, out) = Inr (sd1, out @ [timeout_answer K sd t])"
    using t(1) by (simp add: epoll_expire_def get_item_def sd1(1) timeout_answer_def)
  have m: "map (timeout_answer K sd1) ts = map (timeout_answer K sd) ts"
  proof (intro map_cong refl)
    fix x assume "x \<in> set ts"
    then have "x \<noteq> t" using t(2) by auto
    then show "timeout_answer K sd1 x = timeout_answer K sd x" by (simp add: timeout_answer_def sd1(3))
  qed
  from Cons.IH [OF sd1(2), of "out @ [timeout_answer K sd t]", unfolded m] Cons.prems(2,3)
  show ?case using t by (fastforce simp: ex sd1(3,4) nth_list_update)
qed simp

lemma epoll_timers_spec:
  assumes inv: "epoll_inv sd" and now: "time_after_eq now (timer_jiffies (tbase sd))"
  shows "\<exists>ts sd'. epoll_timers K now sd out = Inr (sd', out @ map (timeout_answer K sd) ts) \<and>
    distinct ts \<and> set ts = due_by now (tbase sd) \<and> epoll_inv sd' \<and> timer_jiffies (tbase sd') = now + 1 \<and>
    length (items sd') = length (items sd) \<and>
    (\<forall>fd < length (items sd). items sd' ! fd =
       (if fd \<in> due_by now (tbase sd) then (items sd ! fd)\<lparr>new_mask := 0\<rparr> else items sd ! fd)) \<and>
    (\<forall>t. timer_pending t (tbase sd') \<longleftrightarrow> timer_pending t (tbase sd) \<and> t \<notin> due_by now (tbase sd))"
proof -
  have m: "map_inv sd" and t: "timers_inv (length (items sd)) (tbase sd)" using inv by (simp_all add: epoll_inv_def)
  obtain ts b' where r: "distinct ts" "set ts = due_by now (tbase sd)" "set ts \<subseteq> {..<length (items sd)}"
    "timers_run (\<lambda>t b u. (rbind u (epoll_expire K t), [TDel t])) now (tbase sd) (Inr (sd, out)) =
       (of_nat (length ts), b', fold (\<lambda>t u. rbind u (epoll_expire K t)) ts (Inr (sd, out)))"
    "timers_inv (length (items sd)) b'" "timer_jiffies b' = now + 1"
    "\<And>t. timer_pending t b' \<longleftrightarrow> timer_pending t (tbase sd) \<and> t \<notin> due_by now (tbase sd)"
    by (rule engine_timers_run [OF t now, where f = "\<lambda>t u. rbind u (epoll_expire K t)" and u = "Inr (sd, out)"]) blast
  obtain sd1 where sd1: "fold (\<lambda>t u. rbind u (epoll_expire K t)) ts (Inr (sd, out)) = Inr (sd1, out @ map (timeout_answer K sd) ts)"
    "map_inv sd1" "length (items sd1) = length (items sd)"
    "\<forall>fd < length (items sd). items sd1 ! fd = (if fd \<in> set ts then (items sd ! fd)\<lparr>new_mask := 0\<rparr> else items sd ! fd)"
    using expire_fold [OF m r(1,3), of K out] by blast
  let ?sd = "sd1\<lparr>tbase := b'\<rparr>"
  have cb: "epoll_timer_callback K = (\<lambda>t b u. (rbind u (epoll_expire K t), [TDel t]))"
    by (intro ext) (simp add: epoll_timer_callback_def)
  have e: "epoll_timers K now sd out = Inr (?sd, out @ map (timeout_answer K sd) ts)"
    unfolding epoll_timers_def cb r(4) sd1(1) by simp
  have "epoll_inv ?sd" using sd1(2,3) r(5) by (simp add: epoll_inv_def map_inv_def)
  then show ?thesis using e r(1,2,6,7) sd1(3,4) by (intro exI [of _ ts] exI [of _ ?sd]) simp
qed

text \<open>
  C29: Once the system has been told about the changes and has answered with events, every event of a
  registered descriptor is answered with exactly one message to the process that had registered it,
  of the kind of the event, in the order of the events; then every descriptor whose time is over by
  then, and that had no event, is answered with exactly one MSG_FD_TIMEOUTED. What was answered is
  no longer registered and its timer is off; all else stays registered as it was, and the invariant
  holds.
\<close>

theorem epoll_answers_once:
  assumes inv: "epoll_inv sd" and law: "ctl_law K watch"
    and sync: "sync_changes K (changed sd) sd k = Inr (sd1, k1)"
    and wait: "wait_events K n now sd1 k1 = Inr (evs, k2)" and good: "good_events sd evs"
    and clock: "set_msock_now_msecs K (woken K sd evs k2) = Inr (now', k3)"
    and late: "time_after_eq now' (timer_jiffies (tbase sd))"
  shows "\<exists>sd' ts. epoll_process_block K n now sd k =
      Inr (sd', map (answer K sd) (answered sd evs) @ map (timeout_answer K sd) ts, now', k3) \<and>
    distinct ts \<and> set ts = due_by now' (tbase sd) - fst ` set (answered sd evs) \<and> epoll_inv sd' \<and>
    (\<forall>fd < length (items sd). if fd \<in> fst ` set (answered sd evs) \<union> set ts
       then new_mask (items sd' ! fd) = 0 \<and> \<not> timer_pending fd (tbase sd')
       else new_mask (items sd' ! fd) = new_mask (items sd ! fd) \<and> victim (items sd' ! fd) = victim (items sd ! fd) \<and>
         (timer_pending fd (tbase sd') \<longleftrightarrow> timer_pending fd (tbase sd)))"
proof -
  let ?n = "length (items sd)" and ?A = "fst ` set (answered sd evs)"
  have m: "distinct (changed sd)" "\<forall>fd \<in> set (changed sd). fd < ?n \<and> new_mask (items sd ! fd) \<noteq> epoll_mask (items sd ! fd)"
    using inv by (simp_all add: epoll_inv_def map_inv_def)
  note s = sync_changes_spec [OF law m(1) refl m(2), of k, unfolded sync, simplified]
  have i1: "new_mask (items sd1 ! fd) = new_mask (items sd ! fd)" "victim (items sd1 ! fd) = victim (items sd ! fd)"
    if "fd < ?n" for fd using s that by simp_all
  have inv1: "epoll_inv sd1"
    using s inv by (auto simp: epoll_inv_def map_inv_def)
  have an: "answered sd1 evs = answered sd evs" and wo: "woken K sd1 evs k2 = woken K sd evs k2"
    using s by (simp_all add: answered_def woken_def)
  have good1: "good_events sd1 evs" using good s by (simp add: good_events_def an)
  obtain sd2 where h: "handle_events K evs sd1 [] k2 = Inr (sd2, map (answer K sd1) (answered sd evs), woken K sd evs k2)"
    and p: "epoll_inv sd2" "length (items sd2) = ?n" "timer_jiffies (tbase sd2) = timer_jiffies (tbase sd)"
      "expires (tbase sd2) = expires (tbase sd)"
      "\<forall>fd < ?n. items sd2 ! fd = (if fd \<in> ?A then (items sd1 ! fd)\<lparr>victim := 0, new_mask := 0\<rparr> else items sd1 ! fd)"
      "\<forall>t. timer_pending t (tbase sd2) \<longleftrightarrow> timer_pending t (tbase sd) \<and> t \<notin> ?A"
    using handle_events_spec [OF inv1 good1, of K "[]" k2] s unfolding an wo by auto
  have due: "due_by now' (tbase sd2) = due_by now' (tbase sd) - ?A"
    using p(3,4,6) by (auto simp: due_by_def)
  obtain ts sd3 where t: "epoll_timers K now' sd2 (map (answer K sd1) (answered sd evs)) =
      Inr (sd3, map (answer K sd1) (answered sd evs) @ map (timeout_answer K sd2) ts)"
    "distinct ts" "set ts = due_by now' (tbase sd) - ?A" "epoll_inv sd3"
    "\<forall>fd < ?n. items sd3 ! fd = (if fd \<in> set ts then (items sd2 ! fd)\<lparr>new_mask := 0\<rparr> else items sd2 ! fd)"
    "\<forall>t. timer_pending t (tbase sd3) \<longleftrightarrow> timer_pending t (tbase sd2) \<and> t \<notin> set ts"
    using epoll_timers_spec [OF p(1), of now' K "map (answer K sd1) (answered sd evs)"] late p(2,3) unfolding due by auto
  have lt: "fd < ?n" if "fd \<in> ?A" for fd using good that by (auto simp: good_events_def)
  have ltt: "fd < ?n" if "fd \<in> set ts" for fd
    using inv that by (auto simp: t(3) due_by_def epoll_inv_def timers_inv_def)
  have a: "map (answer K sd1) (answered sd evs) = map (answer K sd) (answered sd evs)"
    using lt i1 by (intro map_cong refl) (force simp: answer_def)
  have b: "map (timeout_answer K sd2) ts = map (timeout_answer K sd) ts"
    using ltt i1 p(5) t(3) by (intro map_cong refl) (simp add: timeout_answer_def)
  have "epoll_process_block K n now sd k =
      Inr (sd3, map (answer K sd) (answered sd evs) @ map (timeout_answer K sd) ts, now', k3)"
    using t(1) unfolding epoll_process_block_def sync a b by (simp add: wait h a clock)
  then show ?thesis using t(2-6) p(5,6) i1 by (intro exI [of _ sd3] exI [of _ ts]) auto
qed

section \<open>Requests\<close>

lemma epoll_new_inv:
  assumes "epoll_data_new K rlim_max k = Inr (sd, w, now, k')"
  shows "epoll_inv sd" and "\<forall>fd < length (items sd). items sd ! fd = fresh_epoll_item"
  using assms
  by (auto simp: epoll_data_new_def epoll_inv_def map_inv_def fresh_epoll_item_def timers_inv_init
      split: if_splits option.splits prod.splits)

definition request_mask :: "msg_type \<Rightarrow> 32 word" where
  "request_mask ty = (if ty = MSG_FD_REGISTER_READ then EPOLLIN else if ty = MSG_FD_REGISTER_WRITE then EPOLLOUT else 0)"

lemma epoll_callback_request:
  assumes "length pad = 4" and "ty = MSG_FD_REGISTER_READ \<or> ty = MSG_FD_REGISTER_WRITE \<or> ty = MSG_FD_UNREGISTER"
  shows "epoll_process_callback K n ty (encode_msg_fd pad msg @ rest) now sd k =
    rbind (schedule_change (mf_victim msg) (unat (mf_fd msg)) (request_mask ty)
             (if ty = MSG_FD_UNREGISTER then 0 else mf_expires msg) sd)
      (\<lambda>sd. Inr (RECV_OK, Some sd, [], now, k))"
  using assms(2)
  by (auto simp: epoll_process_callback_def Let_def decode_encode_msg_fd [OF assms(1)] request_mask_def fd_msg_types)

lemma epoll_request_aux:
  assumes inv: "epoll_inv sd" and pad: "length pad = 4"
    and ty: "ty = MSG_FD_REGISTER_READ \<or> ty = MSG_FD_REGISTER_WRITE \<or> ty = MSG_FD_UNREGISTER"
    and msg: "msg = fd_request t v fd timeout" and i: "i = unat fd"
  shows "if i < length (items sd)
    then \<exists>sd'. epoll_process_callback K n ty (encode_msg_fd pad msg @ rest) now sd k = Inr (RECV_OK, Some sd', [], now, k) \<and>
      epoll_inv sd' \<and> items sd' = (items sd)[i := (items sd ! i)\<lparr>victim := v, new_mask := request_mask ty\<rparr>] \<and>
      (\<forall>j. timer_pending j (tbase sd') \<longleftrightarrow>
         (if j = i then ty \<noteq> MSG_FD_UNREGISTER \<and> mf_expires msg \<noteq> 0 else timer_pending j (tbase sd))) \<and>
      (timer_pending i (tbase sd') \<longrightarrow> expires (tbase sd') i = t + timeout)
    else epoll_process_callback K n ty (encode_msg_fd pad msg @ rest) now sd k = Inl Bad_Deref"
proof -
  have e: "mf_fd msg = fd" "mf_victim msg = v" "mf_expires msg \<noteq> 0 \<Longrightarrow> mf_expires msg = t + timeout"
    by (auto simp: msg fd_request_def split: if_splits)
  let ?ex = "if ty = MSG_FD_UNREGISTER then 0 else mf_expires msg"
  show ?thesis
  proof (cases "i < length (items sd)")
    case True
    obtain sd' where s: "schedule_change v i (request_mask ty) ?ex sd = Inr sd'" "epoll_inv sd'"
      "items sd' = (items sd)[i := (items sd ! i)\<lparr>victim := v, new_mask := request_mask ty\<rparr>]"
      "pipe_read sd' = pipe_read sd" "tbase sd' = arm_timer i ?ex (tbase sd)"
      by (rule schedule_change_spec [OF inv True])
    have "timers_inv (length (items sd)) (tbase sd)" using inv by (simp add: epoll_inv_def)
    note ti = timers_inv_arm [OF this True, where ex = ?ex]
    show ?thesis using True s ti(2,5) e
      by (simp add: epoll_callback_request [OF pad ty]) (auto simp: i [symmetric])
  next
    case False
    then show ?thesis
      by (simp add: epoll_callback_request [OF pad ty] e i schedule_change_def mark_change_def get_item_def)
  qed
qed


text \<open>
  C32: A descriptor that is closed and opened again between its event and the next time the engine
  sleeps is lost. When its process, on the event, closes it, and a new descriptor of the same number
  is registered for the same event, the engine finds nothing to change and does not tell the system,
  which has forgotten the descriptor when it was closed: it is registered but not watched.
\<close>

theorem epoll_misses_reopened:
  assumes inv: "epoll_inv sd" and law: "ctl_law K watch" and i: "i = unat fd" "i < length (items sd)" "i \<noteq> pipe_read sd"
    and settled: "new_mask (items sd ! i) = EPOLLIN" "epoll_mask (items sd ! i) = EPOLLIN" and pad: "length pad = 4"
  shows "\<exists>sd1 sd2. handle_events K [(i, EPOLLIN)] sd [] kb = Inr (sd1, [answer K sd (i, EPOLLIN)], kb) \<and>
    epoll_process_callback K n MSG_FD_REGISTER_READ (encode_msg_fd pad (fd_request t v fd timeout) @ rest) now sd1 k =
      Inr (RECV_OK, Some sd2, [], now, k) \<and>
    (case sync_changes K (changed sd2) sd2 k of
       Inl e \<Rightarrow> \<exists>fd. fd \<noteq> i \<and> ctl_fails K fd
     | Inr (sd3, k3) \<Rightarrow> new_mask (items sd3 ! i) = EPOLLIN \<and> changed sd3 = [] \<and> watch k3 i = watch k i)"
proof -
  have ev: "event_msg EPOLLIN = Inr MSG_FD_READ" by (simp add: event_msg_def EPOLLIN_def)
  have an: "answered sd [(i, EPOLLIN)] = [(i, EPOLLIN)]" using i by (simp add: answered_def)
  have "good_events sd [(i, EPOLLIN)]" using i(2) by (simp add: good_events_def an ev)
  from handle_events_spec [OF inv this, of K "[]" kb, unfolded an]
  obtain sd1 where h: "handle_events K [(i, EPOLLIN)] sd [] kb = Inr (sd1, [answer K sd (i, EPOLLIN)], kb)"
    and p: "epoll_inv sd1" "length (items sd1) = length (items sd)"
      "items sd1 ! i = (items sd ! i)\<lparr>victim := 0, new_mask := 0\<rparr>"
    using i by (auto simp: woken_def)
  have i1: "i < length (items sd1)" using i p(2) by simp
  obtain sd2 where r: "epoll_process_callback K n MSG_FD_REGISTER_READ (encode_msg_fd pad (fd_request t v fd timeout) @ rest) now sd1 k =
      Inr (RECV_OK, Some sd2, [], now, k)" "epoll_inv sd2"
      "items sd2 = (items sd1)[i := (items sd1 ! i)\<lparr>victim := v, new_mask := request_mask MSG_FD_REGISTER_READ\<rparr>]"
    using epoll_request_aux [OF p(1) pad disjI1 [OF refl] refl i(1), where K = K and n = n and rest = rest and now = now and k = k] i1
    by (simp only: if_True) blast
  have m: "distinct (changed sd2)"
    "\<forall>x. x \<in> set (changed sd2) \<longleftrightarrow> x < length (items sd2) \<and> new_mask (items sd2 ! x) \<noteq> epoll_mask (items sd2 ! x)"
    using r(2) by (simp_all add: epoll_inv_def map_inv_def)
  have i2: "items sd2 ! i = (items sd ! i)\<lparr>victim := v, new_mask := EPOLLIN\<rparr>"
    using i1 by (simp add: r(3) p(3) request_mask_def)
  then have nin: "i \<notin> set (changed sd2)" using m(2) settled(2) by simp
  have m2: "\<forall>x \<in> set (changed sd2). x < length (items sd2) \<and> new_mask (items sd2 ! x) \<noteq> epoll_mask (items sd2 ! x)"
    using m(2) by simp
  have "case sync_changes K (changed sd2) sd2 k of
       Inl e \<Rightarrow> \<exists>fd. fd \<noteq> i \<and> ctl_fails K fd
     | Inr (sd3, k3) \<Rightarrow> new_mask (items sd3 ! i) = EPOLLIN \<and> changed sd3 = [] \<and> watch k3 i = watch k i"
    using sync_changes_spec [OF law m(1) refl m2, of k] nin i1 i2 r(3)
    by (auto split: sum.splits prod.splits)
  then show ?thesis using h r(1) by blast
qed

lemma ucast_of_nat_32: "n < 2 ^ 64 \<Longrightarrow> ucast (of_nat n :: ulong) = (of_nat n :: 32 word)"
  by (rule word_unat_eq_iff [THEN iffD2]) (simp add: unat_ucast_32 unat_of_nat_ulong unsigned_of_nat take_bit_eq_mod)

text \<open>
  A timer that is overdue when the engine goes to sleep (its time is \<open>d\<close> milliseconds before the
  current time) does not wake the engine: the time-out that \<open>epoll_wait\<close> gets is \<open>- d\<close>, and with a
  negative time-out it waits for an event, however long that takes.
\<close>

theorem overdue_timer_blocks:
  assumes "0 < d" and "d < 2 ^ 31"
  shows "epoll_timeout (timer_add fd (now - of_nat d) (init_timer_base (now + 1))) now = - of_nat d \<and>
    sint (- of_nat d :: 32 word) = - int d"
proof -
  let ?e = "now - of_nat d" and ?j = "now + 1"
  have neg: "- of_nat n = (of_nat (2 ^ 64 - n) :: ulong)" if "n \<le> 2 ^ 64" for n
  proof -
    have "of_nat (2 ^ 64 - n) = (of_nat (2 ^ 64) - of_nat n :: ulong)" using that by (rule of_nat_diff)
    then show ?thesis by simp
  qed
  have "?e - ?j = - of_nat (Suc d)" by simp
  also have "\<dots> = of_nat (2 ^ 64 - Suc d)" by (rule neg) (use assms in simp)
  finally have e: "?e - ?j = of_nat (2 ^ 64 - Suc d)" .
  have "unat (?e - ?j) = 2 ^ 64 - Suc d" unfolding e by (rule unat_of_nat_ulong) simp
  then have "timer_next_interrupt (timer_add fd ?e (init_timer_base ?j)) = ?e"
    using assms by (intro overdue_interrupt) simp
  then have "epoll_timeout (timer_add fd ?e (init_timer_base ?j)) now = ucast (- of_nat d :: ulong)"
    by (simp add: epoll_timeout_def delta_msecs_def)
  also have "\<dots> = ucast (of_nat (2 ^ 64 - d) :: ulong)" by (subst neg) (use assms in simp_all)
  also have "\<dots> = of_nat (2 ^ 64 - d)"
    by (rule ucast_of_nat_32) (use assms in simp)
  also have "\<dots> = of_nat (2 ^ 64) - of_nat d" by (rule of_nat_diff) (use assms in simp)
  finally have t: "epoll_timeout (timer_add fd ?e (init_timer_base ?j)) now = - of_nat d" by simp
  have "sint (- of_nat d :: 32 word) = sint (word_of_int (- int d) :: 32 word)" by simp
  also have "\<dots> = signed_take_bit 31 (- int d)" by (subst sint_sbintrunc') simp
  also have "\<dots> = - int d" by (rule signed_take_bit_int_eq_self) (use assms in simp_all)
  finally show ?thesis using t by simp
qed

section \<open>The contract of the engines\<close>

text \<open>The part of \<open>process_callback\<close> that handles a request, see \<open>epoll_callback_request\<close>.\<close>

definition epoll_handle :: "fd_req \<Rightarrow> epoll_data \<Rightarrow> error + epoll_data" where
  "epoll_handle = (\<lambda>(ty, fd, v, ex) sd.
     schedule_change v fd (request_mask ty) (if ty = MSG_FD_UNREGISTER then 0 else ex) sd)"

definition epoll_waits :: "epoll_data \<Rightarrow> msg_type \<Rightarrow> fd \<Rightarrow> bool" where
  "epoll_waits sd ty fd \<longleftrightarrow> new_mask (items sd ! fd) AND request_mask ty \<noteq> 0"

lemma epoll_handle_spec:
  assumes "epoll_inv sd" and "fd < length (items sd)"
  obtains sd' where "epoll_handle (ty, fd, v, ex) sd = Inr sd'" "epoll_inv sd'"
    "items sd' = (items sd)[fd := (items sd ! fd)\<lparr>victim := v, new_mask := request_mask ty\<rparr>]"
    "\<And>u. deadline (tbase sd') u = (if u = fd then if ty \<noteq> MSG_FD_UNREGISTER \<and> ex \<noteq> 0 then Some ex else None else deadline (tbase sd) u)"
proof -
  let ?ex = "if ty = MSG_FD_UNREGISTER then 0 else ex"
  obtain sd' where s: "schedule_change v fd (request_mask ty) ?ex sd = Inr sd'" "epoll_inv sd'"
    "items sd' = (items sd)[fd := (items sd ! fd)\<lparr>victim := v, new_mask := request_mask ty\<rparr>]"
    "tbase sd' = arm_timer fd ?ex (tbase sd)"
    by (rule schedule_change_spec [OF assms])
  have "timers_inv (length (items sd)) (tbase sd)" using assms(1) by (simp add: epoll_inv_def)
  note d = deadline_arm [OF this assms(2), of ?ex]
  show ?thesis by (rule that [of sd']) (simp_all add: epoll_handle_def s d)
qed

interpretation ep: fd_engine epoll_handle epoll_inv "\<lambda>sd. length (items sd)" epoll_waits
  "\<lambda>sd fd. victim (items sd ! fd)" "\<lambda>sd. deadline (tbase sd)"
proof
  fix sd sd' :: epoll_data and ty ty' fd x v ex
  assume inv: "epoll_inv sd" and fd: "fd < length (items sd)"
  obtain sd1 where h: "epoll_handle (ty, fd, v, ex) sd = Inr sd1" "epoll_inv sd1"
    "items sd1 = (items sd)[fd := (items sd ! fd)\<lparr>victim := v, new_mask := request_mask ty\<rparr>]"
    "\<And>u. deadline (tbase sd1) u = (if u = fd then if ty \<noteq> MSG_FD_UNREGISTER \<and> ex \<noteq> 0 then Some ex else None else deadline (tbase sd) u)"
    by (rule epoll_handle_spec [OF inv fd, where ty = ty and v = v and ex = ex]) blast
  show "\<exists>e'. epoll_handle (ty, fd, v, ex) sd = Inr e' \<and> epoll_inv e' \<and> length (items e') = length (items sd)"
    using h by simp
  show "epoll_handle (ty, fd, v, ex) sd = Inr sd' \<Longrightarrow> x \<noteq> fd \<Longrightarrow> epoll_waits sd' ty' x = epoll_waits sd ty' x \<and>
      victim (items sd' ! x) = victim (items sd ! x) \<and> deadline (tbase sd') x = deadline (tbase sd) x"
    using h by (simp add: epoll_waits_def)
  show "epoll_handle (ty, fd, v, ex) sd = Inr sd' \<Longrightarrow> ty \<in> fd_kinds \<Longrightarrow> ty \<noteq> MSG_FD_UNREGISTER \<Longrightarrow>
      epoll_waits sd' ty fd \<and> victim (items sd' ! fd) = v \<and> deadline (tbase sd') fd = (if ex \<noteq> 0 then Some ex else None)"
    using h fd by (auto simp: epoll_waits_def fd_kinds_def request_mask_def EPOLLIN_def EPOLLOUT_def)
next
  fix sd sd' :: epoll_data and ty fd v ex
  assume inv: "epoll_inv sd" and fd: "fd < length (items sd)" and h: "epoll_handle (MSG_FD_UNREGISTER, fd, v, ex) sd = Inr sd'"
  show "\<not> epoll_waits sd' ty fd \<and> deadline (tbase sd') fd = None"
    by (rule epoll_handle_spec [OF inv fd, of MSG_FD_UNREGISTER v ex])
      (use h fd in \<open>simp add: epoll_waits_def request_mask_def fd_msg_types\<close>)
qed

interpretation epk: fd_engine_kinds epoll_handle epoll_inv "\<lambda>sd. length (items sd)" epoll_waits
  "\<lambda>sd fd. victim (items sd ! fd)" "\<lambda>sd. deadline (tbase sd)" False
proof
  fix sd sd' :: epoll_data and ty ty' fd v ex
  assume inv: "epoll_inv sd" and ty: "ty \<in> fd_kinds" "ty \<noteq> MSG_FD_UNREGISTER" and fd: "fd < length (items sd)"
    and h: "epoll_handle (ty, fd, v, ex) sd = Inr sd'"
  show "epoll_waits sd' ty' fd = (ty' = ty \<or> (False \<and> epoll_waits sd ty' fd))"
    by (rule epoll_handle_spec [OF inv fd, where ty = ty and v = v and ex = ex])
      (use h fd ty in \<open>auto simp: epoll_waits_def fd_kinds_def request_mask_def EPOLLIN_def EPOLLOUT_def fd_msg_types split: if_splits\<close>)
qed

section \<open>Examples\<close>

text \<open>A system that is what it watches; descriptor 5 always has an event, and the time is always 30.\<close>

definition example_epoll :: "(fd \<Rightarrow> 32 word) epoll_calls" where
  "example_epoll =
     \<lparr>k_pipe = (\<lambda>k. (Some (3, 4), k)), k_getfl = (\<lambda>fd k. 0), k_setfl = (\<lambda>fd fl k. (True, k)),
      k_read = (\<lambda>fd n k. k), k_write = (\<lambda>fd c k. k), k_close = (\<lambda>fd k. k(fd := 0)),
      k_clock = (\<lambda>k. (Some \<lparr>tv_sec = 0, tv_nsec = 30000000\<rparr>, k)), k_junk = 0, k_pad = [0, 0, 0, 0],
      k_create = (\<lambda>k. (Some 2, k)),
      k_ctl = (\<lambda>op fd mk k. (None, k(fd := (if op = EPOLL_CTL_DEL then 0 else mk)))),
      k_wait = (\<lambda>t k. (Inr [(5, EPOLLIN)], k))\<rparr>"

text \<open>Descriptor 5 has just been registered, descriptor 6 has been for a while and is to time out at 20.\<close>

definition example_epoll_data :: epoll_data where
  "example_epoll_data =
     \<lparr>epfd = 2, pipe_read = 3,
      items = (replicate 8 fresh_epoll_item)[5 := \<lparr>new_mask = EPOLLIN, epoll_mask = 0, victim = 77\<rparr>,
                                             6 := \<lparr>new_mask = EPOLLOUT, epoll_mask = EPOLLOUT, victim = 78\<rparr>],
      changed = [5], tbase = timer_add 6 20 (init_timer_base 11)\<rparr>"

definition example_watch :: "fd \<Rightarrow> 32 word" where
  "example_watch = (\<lambda>_. 0)(6 := EPOLLOUT)"

lemma all_less_8: "(\<forall>n < (8 :: nat). P n) \<longleftrightarrow> P 0 \<and> P 1 \<and> P 2 \<and> P 3 \<and> P 4 \<and> P 5 \<and> P 6 \<and> P 7"
  by (simp add: eval_nat_numeral All_less_Suc2)

lemmas example_epoll_defs = example_epoll_data_def fresh_epoll_item_def EPOLLIN_def EPOLLOUT_def

lemmas example_epoll_timers = one_timer [where t = 6 and n = 8 and e = 20 and j = 11, simplified]

lemma example_epoll_inv: "epoll_inv example_epoll_data"
proof -
  have "fd \<in> set (changed example_epoll_data) \<longleftrightarrow> fd < length (items example_epoll_data) \<and>
      new_mask (items example_epoll_data ! fd) \<noteq> epoll_mask (items example_epoll_data ! fd)" for fd
    by (cases "fd < 8") (auto simp: example_epoll_defs nth_list_update)
  then show ?thesis
    using example_epoll_timers(1) unfolding epoll_inv_def map_inv_def by (simp add: example_epoll_data_def)
qed

lemma example_ctl_law: "ctl_law example_epoll (\<lambda>k. k)"
  by (simp add: ctl_law_def example_epoll_def)

text \<open>
  A system that says no as the manual does; 7 is closed. Descriptor 4 is to be added, 5 is to be
  watched for something else, 6 no more, and so is 7, which was closed.
\<close>

definition strict_epoll :: "(fd \<Rightarrow> 32 word) epoll_calls" where
  "strict_epoll = example_epoll\<lparr>k_ctl := (\<lambda>op fd mk k.
     if fd = 7 then (Some EBADF, k)
     else if op = EPOLL_CTL_ADD \<and> k fd \<noteq> 0 then (Some EEXIST, k)
     else if op \<noteq> EPOLL_CTL_ADD \<and> k fd = 0 then (Some ENOENT, k)
     else (None, k(fd := (if op = EPOLL_CTL_DEL then 0 else mk))))\<rparr>"

definition strict_watch :: "(fd \<Rightarrow> 32 word) \<Rightarrow> fd \<Rightarrow> 32 word" where
  "strict_watch k = k(7 := 0)"

definition strict_data :: epoll_data where
  "strict_data =
     \<lparr>epfd = 2, pipe_read = 3,
      items = (replicate 8 fresh_epoll_item)[4 := \<lparr>new_mask = EPOLLIN, epoll_mask = 0, victim = 77\<rparr>,
        5 := \<lparr>new_mask = EPOLLIN, epoll_mask = EPOLLOUT, victim = 77\<rparr>,
        6 := \<lparr>new_mask = 0, epoll_mask = EPOLLOUT, victim = 78\<rparr>,
        7 := \<lparr>new_mask = 0, epoll_mask = EPOLLIN, victim = 78\<rparr>],
      changed = [4, 5, 6, 7], tbase = timer_add 6 20 (init_timer_base 11)\<rparr>"

lemma strict_laws: "ctl_law strict_epoll strict_watch" "ctl_answers strict_epoll (\<lambda>k fd. fd \<noteq> 7) strict_watch"
  by (auto simp: ctl_law_def ctl_answers_def strict_epoll_def strict_watch_def EBADF_def EEXIST_def ENOENT_def split: if_splits)

lemma strict_inv: "epoll_inv strict_data"
proof -
  have "fd \<in> set (changed strict_data) \<longleftrightarrow> fd < length (items strict_data) \<and>
      new_mask (items strict_data ! fd) \<noteq> epoll_mask (items strict_data ! fd)" for fd
    by (cases "fd < 8") (auto simp: strict_data_def fresh_epoll_item_def EPOLLIN_def EPOLLOUT_def nth_list_update)
  then show ?thesis
    using example_epoll_timers(1) unfolding epoll_inv_def map_inv_def by (simp add: strict_data_def)
qed

theorem epoll_sync_tells_system_witness:
  "\<exists>sd' k'. sync_changes strict_epoll (changed strict_data) strict_data ((\<lambda>_. 0)(5 := EPOLLOUT, 6 := EPOLLOUT)) = Inr (sd', k') \<and>
     strict_watch k' 4 = EPOLLIN \<and> strict_watch k' 5 = EPOLLIN \<and> strict_watch k' 6 = 0 \<and> strict_watch k' 7 = 0 \<and> changed sd' = []"
proof -
  let ?k = "(\<lambda>_. 0)(5 := EPOLLOUT, 6 := EPOLLOUT) :: fd \<Rightarrow> 32 word"
  have "\<forall>fd < length (items strict_data). fd \<noteq> 7 \<longrightarrow> strict_watch ?k fd = epoll_mask (items strict_data ! fd)"
    by (simp add: strict_data_def strict_watch_def fresh_epoll_item_def all_less_8)
  note w = epoll_sync_tells_system [OF strict_inv strict_laws, of ?k, OF this]
  have "\<not> ctl_refuses strict_epoll fd" for fd by (simp add: ctl_refuses_def strict_epoll_def)
  moreover have "new_mask (items strict_data ! 7) = 0" by (simp add: strict_data_def)
  ultimately obtain sd' k' where r: "sync_changes strict_epoll (changed strict_data) strict_data ?k = Inr (sd', k')"
    and c: "changed sd' = []" and k: "\<forall>fd < length (items strict_data). strict_watch k' fd = (if fd \<noteq> 7 then new_mask (items strict_data ! fd) else 0)"
    using w by (auto split: sum.splits)
  have "strict_watch k' 4 = EPOLLIN" "strict_watch k' 5 = EPOLLIN" "strict_watch k' 6 = 0" "strict_watch k' 7 = 0"
    using k [rule_format, of 4] k [rule_format, of 5] k [rule_format, of 6] k [rule_format, of 7] by (simp_all add: strict_data_def)
  then show ?thesis using r c by blast
qed

theorem epoll_answers_once_witness:
  "\<exists>sd'. epoll_process_block example_epoll 1 10 example_epoll_data example_watch =
     Inr (sd', [send_msg_helper 0 77 MSG_FD_READ 5, send_msg_helper 0 78 MSG_FD_TIMEOUTED 6], 30, example_watch(5 := EPOLLIN)) \<and>
     new_mask (items sd' ! 6) = 0"
proof -
  let ?sd = example_epoll_data
  obtain sd1 where sync: "sync_changes example_epoll (changed ?sd) ?sd example_watch = Inr (sd1, example_watch(5 := EPOLLIN))"
    by (simp add: example_epoll_data_def get_item_def sync_item_def example_epoll_def EPOLLIN_def)
  have wait: "wait_events example_epoll 1 10 sd1 (example_watch(5 := EPOLLIN)) = Inr ([(5, EPOLLIN)], example_watch(5 := EPOLLIN))"
    by (simp add: example_epoll_def)
  have an: "answered ?sd [(5, EPOLLIN)] = [(5, EPOLLIN)]" by (simp add: answered_def example_epoll_data_def)
  have ev: "event_msg EPOLLIN = Inr MSG_FD_READ" by (simp add: event_msg_def EPOLLIN_def)
  have good: "good_events ?sd [(5, EPOLLIN)]" unfolding good_events_def an by (simp add: ev) (simp add: example_epoll_data_def)
  have clock: "set_msock_now_msecs example_epoll (woken example_epoll ?sd [(5, EPOLLIN)] (example_watch(5 := EPOLLIN))) =
      Inr (30, example_watch(5 := EPOLLIN))"
    by (simp add: set_msock_now_msecs_def woken_def example_epoll_data_def) (simp add: example_epoll_def now_msecs_def)
  have late: "time_after_eq 30 (timer_jiffies (tbase ?sd))"
    by (simp add: example_epoll_data_def example_epoll_timers time_after_eq_unat)
  have due: "due_by 30 (tbase ?sd) = {6}"
    by (auto simp: due_by_def example_epoll_data_def example_epoll_timers fired_by_def)
  obtain sd' ts where r: "epoll_process_block example_epoll 1 10 ?sd example_watch =
      Inr (sd', map (answer example_epoll ?sd) [(5, EPOLLIN)] @ map (timeout_answer example_epoll ?sd) ts, 30, example_watch(5 := EPOLLIN))"
    "distinct ts" "set ts = {6}" "\<forall>fd < length (items ?sd). if fd \<in> {5, 6}
       then new_mask (items sd' ! fd) = 0 \<and> \<not> timer_pending fd (tbase sd') else True"
    using epoll_answers_once [OF example_epoll_inv example_ctl_law sync wait good clock late] unfolding an due by auto
  have "ts = [6]" using r(2,3) by (cases ts; cases "tl ts") auto
  moreover have "answer example_epoll ?sd (5, EPOLLIN) = send_msg_helper 0 77 MSG_FD_READ 5"
    by (simp add: answer_def ev) (simp add: example_epoll_data_def example_epoll_def)
  moreover have "timeout_answer example_epoll ?sd 6 = send_msg_helper 0 78 MSG_FD_TIMEOUTED 6"
    by (simp add: timeout_answer_def) (simp add: example_epoll_data_def example_epoll_def)
  moreover have "6 < length (items ?sd)" by (simp add: example_epoll_data_def)
  ultimately show ?thesis using r(1,4) by auto
qed


text \<open>Descriptor 6 alone, settled.\<close>

definition example_settled :: epoll_data where
  "example_settled = example_epoll_data\<lparr>items := (replicate 8 fresh_epoll_item)[6 := \<lparr>new_mask = EPOLLIN, epoll_mask = EPOLLIN, victim = 78\<rparr>],
     changed := []\<rparr>"

lemma example_settled_inv: "epoll_inv example_settled"
proof -
  have "fd < length (items example_settled) \<Longrightarrow> new_mask (items example_settled ! fd) = epoll_mask (items example_settled ! fd)" for fd
    by (cases "fd = 6") (simp_all add: example_settled_def fresh_epoll_item_def)
  then show ?thesis
    using example_epoll_timers(1) unfolding epoll_inv_def map_inv_def by (simp add: example_settled_def example_epoll_data_def)
qed

theorem epoll_misses_reopened_witness:
  "\<exists>sd1 sd2 sd3 k3. handle_events example_epoll [(6, EPOLLIN)] example_settled [] ((\<lambda>_. 0)(6 := EPOLLIN)) =
       Inr (sd1, [answer example_epoll example_settled (6, EPOLLIN)], (\<lambda>_. 0)(6 := EPOLLIN)) \<and>
     epoll_process_callback example_epoll 1 MSG_FD_REGISTER_READ (encode_msg_fd [0, 0, 0, 0] (fd_request 100 79 6 0) @ []) 10 sd1 (\<lambda>_. 0) =
       Inr (RECV_OK, Some sd2, [], 10, \<lambda>_. 0) \<and>
     sync_changes example_epoll (changed sd2) sd2 (\<lambda>_. 0) = Inr (sd3, k3) \<and> new_mask (items sd3 ! 6) = EPOLLIN \<and> k3 6 = 0"
proof -
  have s: "6 = unat (6 :: 32 word)" "6 < length (items example_settled)" "6 \<noteq> pipe_read example_settled"
    "new_mask (items example_settled ! 6) = EPOLLIN" "epoll_mask (items example_settled ! 6) = EPOLLIN"
    and l: "length [0 :: byte, 0, 0, 0] = 4"
    by (simp_all add: example_settled_def example_epoll_data_def)
  obtain sd1 sd2 where w: "handle_events example_epoll [(6, EPOLLIN)] example_settled [] ((\<lambda>_. 0)(6 := EPOLLIN)) =
       Inr (sd1, [answer example_epoll example_settled (6, EPOLLIN)], (\<lambda>_. 0)(6 := EPOLLIN))"
     "epoll_process_callback example_epoll 1 MSG_FD_REGISTER_READ (encode_msg_fd [0, 0, 0, 0] (fd_request 100 79 6 0) @ []) 10 sd1 (\<lambda>_. 0) =
       Inr (RECV_OK, Some sd2, [], 10, \<lambda>_. 0)"
     "case sync_changes example_epoll (changed sd2) sd2 (\<lambda>_. 0) of
       Inl e \<Rightarrow> \<exists>fd. fd \<noteq> 6 \<and> ctl_fails example_epoll fd
     | Inr (sd3, k3) \<Rightarrow> new_mask (items sd3 ! 6) = EPOLLIN \<and> changed sd3 = [] \<and> k3 6 = 0"
    using epoll_misses_reopened [OF example_settled_inv example_ctl_law s l, where kb = "(\<lambda>_. 0)(6 := EPOLLIN)" and n = 1 and t = 100
      and v = 79 and timeout = 0 and rest = "[]" and now = 10 and k = "\<lambda>_. 0"] by (elim exE conjE)
  have nf: "\<not> ctl_fails example_epoll fd" for fd by (simp add: ctl_fails_def example_epoll_def)
  show ?thesis
  proof (cases "sync_changes example_epoll (changed sd2) sd2 (\<lambda>_. 0)")
    case (Inl e)
    then show ?thesis using w(3) nf by simp
  next
    case (Inr p)
    obtain sd3 k3 where p: "p = (sd3, k3)" by fastforce
    have "new_mask (items sd3 ! 6) = EPOLLIN \<and> k3 6 = 0" using w(3) unfolding Inr p by simp
    then show ?thesis using w(1,2) Inr unfolding p by blast
  qed
qed

theorem overdue_timer_blocks_witness:
  "epoll_timeout (timer_add 6 100 (init_timer_base 106)) 105 = - 5"
  using overdue_timer_blocks [of 5 6 105] by simp

end
