(* ===== verification/Engine_Select.thy ===== *)
theory Engine_Select
  imports Engine_Requests Delivery
begin

text \<open>
  The engine of file descriptors for systems without epoll (\<open>src/msock_engine_select.c\<close>). It keeps the
  two sets of descriptors that it passes to \<open>select\<close>, whom to answer per descriptor, and the timers.
  An event, or a time-out, is answered and ends both registrations of its descriptor.
\<close>

section \<open>The data\<close>

definition FD_SETSIZE :: nat where "FD_SETSIZE = 1024"

text \<open>\<open>items\<close> is the array of \<open>struct local_item\<close>, of which the field \<open>victim\<close> varies; the index is \<open>fd\<close>.\<close>

record select_data =
  read_fds :: "fd set"
  write_fds :: "fd set"
  pipe_read :: fd
  items :: "pid list"
  tbase :: timer_base

text \<open>\<open>k_select\<close> gets the two sets and the seconds and microseconds to wait, and answers with the error or
  with the number of events and the sets of descriptors that are ready.\<close>

record 'k select_calls = "'k os_calls" +
  k_select :: "fd set \<Rightarrow> fd set \<Rightarrow> ulong \<times> ulong \<Rightarrow> 'k \<Rightarrow> (errno + (nat \<times> fd set \<times> fd set)) \<times> 'k"

section \<open>Registrations\<close>

text \<open>Beyond the end of the array the macros and the array write outside their memory.\<close>

definition fd_unregister :: "fd \<Rightarrow> select_data \<Rightarrow> error + select_data" where
  "fd_unregister fd sd =
     (if fd < length (items sd)
      then Inr (sd\<lparr>read_fds := read_fds sd - {fd}, write_fds := write_fds sd - {fd}, items := (items sd)[fd := 0],
                   tbase := timer_del fd (tbase sd)\<rparr>)
      else Inl Bad_Deref)"

definition select_register :: "msg_type \<Rightarrow> fd \<Rightarrow> pid \<Rightarrow> ulong \<Rightarrow> select_data \<Rightarrow> error + select_data" where
  "select_register ty fd v ex sd =
     (if fd < length (items sd)
      then Inr ((if ty = MSG_FD_REGISTER_READ then sd\<lparr>read_fds := insert fd (read_fds sd)\<rparr>
                 else sd\<lparr>write_fds := insert fd (write_fds sd)\<rparr>)
                \<lparr>items := (items sd)[fd := v], tbase := arm_timer fd ex (tbase sd)\<rparr>)
      else Inl Bad_Deref)"

text \<open>\<open>process_handle_msg_fd\<close>: the test of \<open>fd\<close> is one of ints, which a negative one passes.\<close>

definition process_handle_msg_fd :: "msg_type \<Rightarrow> msg_fd \<Rightarrow> select_data \<Rightarrow> error + select_data" where
  "process_handle_msg_fd ty msg sd =
     (if of_nat FD_SETSIZE \<le>s mf_fd msg then Inl (Fatal ''File descriptor out of range'')
      else if ty = MSG_FD_REGISTER_READ \<or> ty = MSG_FD_REGISTER_WRITE
      then select_register ty (unat (mf_fd msg)) (mf_victim msg) (mf_expires msg) sd
      else if ty = MSG_FD_UNREGISTER then fd_unregister (unat (mf_fd msg)) sd
      else Inl (Fatal ''Broken message''))"

text \<open>\<open>timer_callback\<close>: its own timer is off already when it is called; stopping it is its one command.\<close>

definition select_expire :: "('k, 'z) os_calls_scheme \<Rightarrow> tid \<Rightarrow> select_data \<times> sent list \<Rightarrow> error + (select_data \<times> sent list)" where
  "select_expire K fd = (\<lambda>(sd, out).
     if fd < length (items sd)
     then Inr (sd\<lparr>read_fds := read_fds sd - {fd}, write_fds := write_fds sd - {fd}, items := (items sd)[fd := 0]\<rparr>,
               out @ [send_msg_helper (k_junk K) (items sd ! fd) MSG_FD_TIMEOUTED (of_nat fd)])
     else Inl Bad_Deref)"

definition select_timer_callback :: "('k, 'z) os_calls_scheme \<Rightarrow> (error + (select_data \<times> sent list)) timer_cb" where
  "select_timer_callback K fd b u = (rbind u (select_expire K fd), [TDel fd])"

section \<open>Sleeping\<close>

definition select_timeout :: "timer_base \<Rightarrow> ulong \<Rightarrow> ulong \<times> ulong" where
  "select_timeout tb now = (let delta = delta_msecs tb now in (delta div 1000, delta mod 1000 * 1000))"

fun wait_select :: "('k, 'z) select_calls_scheme \<Rightarrow> nat \<Rightarrow> ulong \<Rightarrow> select_data \<Rightarrow> 'k \<Rightarrow> error + ((nat \<times> fd set \<times> fd set) \<times> 'k)" where
  "wait_select K 0 now sd k = Inl No_Fuel"
| "wait_select K (Suc n) now sd k =
     (case k_select K (read_fds sd) (write_fds sd) (select_timeout (tbase sd) now) k of
        (Inl e, k) \<Rightarrow> if e = EINTR then wait_select K n now sd k else Inl (Fatal ''select()'')
      | (Inr r, k) \<Rightarrow> Inr (r, k))"

text \<open>The two halves of a turn of the loop over the descriptors, and the loop, which ends after \<open>r\<close> hits.\<close>

definition read_event :: "('k, 'z) os_calls_scheme \<Rightarrow> fd \<Rightarrow> select_data \<Rightarrow> sent list \<Rightarrow> 'k \<Rightarrow> error + (select_data \<times> sent list \<times> 'k)" where
  "read_event K fd sd out k =
     (if fd = pipe_read sd then Inr (sd, out, k_read K fd 32 k)
      else rbind (fd_unregister fd sd) (\<lambda>sd'.
             Inr (sd', out @ [send_msg_helper (k_junk K) (items sd ! fd) MSG_FD_READ (of_nat fd)], k)))"

definition write_event :: "('k, 'z) os_calls_scheme \<Rightarrow> fd \<Rightarrow> select_data \<Rightarrow> sent list \<Rightarrow> error + (select_data \<times> sent list)" where
  "write_event K fd sd out =
     rbind (fd_unregister fd sd) (\<lambda>sd'.
       Inr (sd', out @ [send_msg_helper (k_junk K) (items sd ! fd) MSG_FD_WRITE (of_nat fd)]))"

fun select_events :: "('k, 'z) os_calls_scheme \<Rightarrow> nat \<Rightarrow> fd set \<Rightarrow> fd set \<Rightarrow> fd list \<Rightarrow> nat \<Rightarrow> select_data \<Rightarrow> sent list \<Rightarrow> 'k \<Rightarrow>
    error + (select_data \<times> sent list \<times> 'k)" where
  "select_events K r rs ws [] hit sd out k = Inr (sd, out, k)"
| "select_events K r rs ws (fd # fds) hit sd out k =
     (if hit < r
      then rbind (if fd \<in> rs then read_event K fd sd out k else Inr (sd, out, k)) (\<lambda>(sd, out, k).
           rbind (if fd \<in> ws then write_event K fd sd out else Inr (sd, out)) (\<lambda>(sd, out).
             select_events K r rs ws fds
               (hit + (if fd \<in> rs then 1 else 0) + (if fd \<in> ws then 1 else 0)) sd out k))
      else Inr (sd, out, k))"

definition select_timers :: "('k, 'z) os_calls_scheme \<Rightarrow> ulong \<Rightarrow> select_data \<Rightarrow> sent list \<Rightarrow> error + (select_data \<times> sent list)" where
  "select_timers K now sd out =
     (case timers_run (select_timer_callback K) now (tbase sd) (Inr (sd, out)) of
        (expired, tb, u) \<Rightarrow> rbind u (\<lambda>(sd, out). Inr (sd\<lparr>tbase := tb\<rparr>, out)))"

definition select_process_block :: "('k, 'z) select_calls_scheme \<Rightarrow> nat \<Rightarrow> ulong \<Rightarrow> select_data \<Rightarrow> 'k \<Rightarrow>
    error + (select_data \<times> sent list \<times> ulong \<times> 'k)" where
  "select_process_block K n now sd k =
     rbind (wait_select K n now sd k) (\<lambda>((r, rs, ws), k).
     rbind (if r = 0 then Inr (sd, [], k) else select_events K r rs ws [0 ..< FD_SETSIZE] 0 sd [] k) (\<lambda>(sd, out, k).
     rbind (set_msock_now_msecs K k) (\<lambda>(now, k).
     rbind (select_timers K now sd out) (\<lambda>(sd, out). Inr (sd, out, now, k)))))"

section \<open>The callback\<close>

definition select_data_free :: "('k, 'z) os_calls_scheme \<Rightarrow> select_data \<Rightarrow> 'k \<Rightarrow> 'k" where
  "select_data_free K sd k = k_close K (pipe_read sd) k"

definition select_process_callback :: "('k, 'z) select_calls_scheme \<Rightarrow> nat \<Rightarrow> msg_type \<Rightarrow> byte list \<Rightarrow> ulong \<Rightarrow> select_data \<Rightarrow> 'k \<Rightarrow>
    error + (recv \<times> select_data option \<times> sent list \<times> ulong \<times> 'k)" where
  "select_process_callback K n ty payload now sd k =
     (if ty \<in> fd_kinds
      then rbind (process_handle_msg_fd ty (decode_msg_fd payload) sd) (\<lambda>sd. Inr (RECV_OK, Some sd, [], now, k))
      else if ty = MSG_EXIT then Inr (RECV_EXIT, None, [], now, select_data_free K sd k)
      else if ty = MSG_QUEUE_EMPTY
      then rbind (select_process_block K n now sd k) (\<lambda>(sd, out, now, k). Inr (RECV_OK, Some sd, out, now, k))
      else Inl (Fatal ''Broken message''))"

definition select_act :: "('u, 'z) select_calls_scheme \<Rightarrow> nat \<Rightarrow> ('u \<Rightarrow> (select_data \<times> ulong) option) \<Rightarrow>
    (select_data option \<Rightarrow> ulong \<Rightarrow> 'u \<Rightarrow> 'u) \<Rightarrow> msg_type \<Rightarrow> byte list \<Rightarrow> ('c, 'd, 'u) act" where
  "select_act K n get put ty payload =
     World (\<lambda>u. case rbind (need (get u)) (\<lambda>(sd, now). select_process_callback K n ty payload now sd u) of
                  Inl e \<Rightarrow> (u, Fail e)
                | Inr (r, sd, out, now, u) \<Rightarrow> (put sd now u, send_all (k_pad K) out (Return r)))"

section \<open>The constructor\<close>

definition select_data_new :: "('k, 'z) select_calls_scheme \<Rightarrow> ulong option \<Rightarrow> 'k \<Rightarrow> error + (select_data \<times> fd \<times> ulong \<times> 'k)" where
  "select_data_new K rlim_max k =
     rbind (get_max_open_files rlim_max) (\<lambda>_.
     rbind (open_pipe K k) (\<lambda>(r, w, k).
     rbind (set_msock_now_msecs K k) (\<lambda>(now, k).
       Inr (\<lparr>read_fds = {}, write_fds = {}, pipe_read = r, items = replicate FD_SETSIZE 0, tbase = init_timer_base now\<rparr>,
            w, now, k))))"

definition select_constructor :: "('d, 'u) surroundings \<Rightarrow> ('u, 'z) select_calls_scheme \<Rightarrow> ulong option \<Rightarrow> nat \<Rightarrow> (fd \<Rightarrow> 'd) \<Rightarrow> 'c \<Rightarrow> 'd \<Rightarrow>
    (select_data \<Rightarrow> ulong \<Rightarrow> 'u \<Rightarrow> 'u) \<Rightarrow> ('c, 'd, 'u) base \<Rightarrow> error + ('c, 'd, 'u) base" where
  "select_constructor s K rlim_max prot pipe_data cb data put b =
     rbind (select_data_new K rlim_max (world b)) (\<lambda>(sd, w, now, k).
     rbind (start_engine s prot (Some (pipe_data w)) cb (Some data) PID_SELECT (b\<lparr>world := k\<rparr>)) (\<lambda>(pid, b).
     rbind (process_handle_msg_fd MSG_FD_REGISTER_READ
              \<lparr>mf_fd = of_nat (pipe_read sd), mf_victim = pid, mf_expires = 0\<rparr> sd) (\<lambda>sd.
       Inr (b\<lparr>world := put sd now (world b)\<rparr>))))"

section \<open>The invariant, and the contract of the engines\<close>

definition select_inv :: "select_data \<Rightarrow> bool" where
  "select_inv sd \<longleftrightarrow> length (items sd) = FD_SETSIZE \<and> timers_inv FD_SETSIZE (tbase sd) \<and>
     read_fds sd \<subseteq> {..<FD_SETSIZE} \<and> write_fds sd \<subseteq> {..<FD_SETSIZE}"

lemma select_new_inv: "select_data_new K rlim_max k = Inr (sd, w, now, k') \<Longrightarrow> select_inv sd"
  by (auto simp: select_data_new_def select_inv_def timers_inv_init split: prod.splits)

lemma fd_unregister_spec:
  assumes "select_inv sd" and "fd < FD_SETSIZE"
  obtains sd' where "fd_unregister fd sd = Inr sd'" "select_inv sd'" "items sd' = (items sd)[fd := 0]"
    "read_fds sd' = read_fds sd - {fd}" "write_fds sd' = write_fds sd - {fd}" "pipe_read sd' = pipe_read sd"
    "tbase sd' = timer_del fd (tbase sd)"
proof -
  let ?sd = "sd\<lparr>read_fds := read_fds sd - {fd}, write_fds := write_fds sd - {fd}, items := (items sd)[fd := 0],
      tbase := timer_del fd (tbase sd)\<rparr>"
  have "timers_inv FD_SETSIZE (tbase sd)" using assms(1) by (simp add: select_inv_def)
  then have "select_inv ?sd" using assms(1) timers_inv_del(1) by (auto simp: select_inv_def)
  then show ?thesis using that [of ?sd] assms by (simp add: fd_unregister_def select_inv_def)
qed

lemma timer_del_arm: "timer_del t b = arm_timer t 0 b"
  by (simp add: arm_timer_def)

definition select_handle :: "fd_req \<Rightarrow> select_data \<Rightarrow> error + select_data" where
  "select_handle = (\<lambda>(ty, fd, v, ex). process_handle_msg_fd ty \<lparr>mf_fd = of_nat fd, mf_victim = v, mf_expires = ex\<rparr>)"

definition select_waits :: "select_data \<Rightarrow> msg_type \<Rightarrow> fd \<Rightarrow> bool" where
  "select_waits sd ty fd \<longleftrightarrow> ty = MSG_FD_REGISTER_READ \<and> fd \<in> read_fds sd \<or> ty = MSG_FD_REGISTER_WRITE \<and> fd \<in> write_fds sd"

lemma small_fd: "fd < FD_SETSIZE \<Longrightarrow> unat (of_nat fd :: 32 word) = fd \<and> \<not> (of_nat FD_SETSIZE :: 32 word) \<le>s of_nat fd"
proof -
  assume fd: "fd < FD_SETSIZE"
  then have u: "unat (of_nat fd :: 32 word) = fd" by (simp add: unsigned_of_nat take_bit_nat_eq_self FD_SETSIZE_def)
  have "sint (of_nat fd :: 32 word) = int fd" using fd u sint_of_small [of "of_nat fd"] by (simp add: FD_SETSIZE_def)
  moreover have "sint (of_nat FD_SETSIZE :: 32 word) = int FD_SETSIZE" by (simp add: FD_SETSIZE_def)
  ultimately show ?thesis using u fd by (simp add: word_sle_eq)
qed

lemma select_handle_spec:
  assumes inv: "select_inv sd" and ty: "ty \<in> fd_kinds" and fd: "fd < FD_SETSIZE"
  obtains sd' where "select_handle (ty, fd, v, ex) sd = Inr sd'" "select_inv sd'"
    "items sd' = (items sd)[fd := (if ty = MSG_FD_UNREGISTER then 0 else v)]"
    "\<And>ty' x. select_waits sd' ty' x \<longleftrightarrow> (if x = fd then ty \<noteq> MSG_FD_UNREGISTER \<and> (ty' = ty \<or> select_waits sd ty' x) else select_waits sd ty' x)"
    "\<And>u. deadline (tbase sd') u = (if u = fd then if ty \<noteq> MSG_FD_UNREGISTER \<and> ex \<noteq> 0 then Some ex else None else deadline (tbase sd) u)"
proof -
  have t: "timers_inv FD_SETSIZE (tbase sd)" and l: "length (items sd) = FD_SETSIZE" using inv by (simp_all add: select_inv_def)
  note d = deadline_arm [OF t fd] and sf = small_fd [OF fd]
  show ?thesis
  proof (cases "ty = MSG_FD_UNREGISTER")
    case True
    obtain sd' where s: "fd_unregister fd sd = Inr sd'" "select_inv sd'" "items sd' = (items sd)[fd := 0]"
      "read_fds sd' = read_fds sd - {fd}" "write_fds sd' = write_fds sd - {fd}" "tbase sd' = timer_del fd (tbase sd)"
      by (rule fd_unregister_spec [OF inv fd])
    show ?thesis
    proof (rule that [of sd'])
      show "select_handle (ty, fd, v, ex) sd = Inr sd'"
        using sf s(1) True by (simp add: select_handle_def process_handle_msg_fd_def fd_msg_types)
    qed (use s d True in \<open>auto simp: select_waits_def timer_del_arm\<close>)
  next
    case False
    let ?sd = "(if ty = MSG_FD_REGISTER_READ then sd\<lparr>read_fds := insert fd (read_fds sd)\<rparr>
        else sd\<lparr>write_fds := insert fd (write_fds sd)\<rparr>)\<lparr>items := (items sd)[fd := v], tbase := arm_timer fd ex (tbase sd)\<rparr>"
    have k: "ty = MSG_FD_REGISTER_READ \<or> ty = MSG_FD_REGISTER_WRITE" using ty False by (auto simp: fd_kinds_def)
    show ?thesis
    proof (rule that [of ?sd])
      show "select_handle (ty, fd, v, ex) sd = Inr ?sd"
        using sf fd k by (simp add: select_handle_def process_handle_msg_fd_def select_register_def l)
      show "select_inv ?sd" using inv fd timers_inv_arm(1) [OF t fd] by (auto simp: select_inv_def)
    qed (use False d k in \<open>auto simp: select_waits_def fd_msg_types\<close>)
  qed
qed

interpretation sel: fd_engine select_handle select_inv "\<lambda>_. FD_SETSIZE" select_waits
  "\<lambda>sd fd. items sd ! fd" "\<lambda>sd. deadline (tbase sd)"
proof
  fix sd sd' :: select_data and ty ty' fd x v ex
  assume inv: "select_inv sd" and ty: "ty \<in> fd_kinds" and fd: "fd < FD_SETSIZE"
  have l: "length (items sd) = FD_SETSIZE" using inv by (simp add: select_inv_def)
  obtain sd1 where h: "select_handle (ty, fd, v, ex) sd = Inr sd1" "select_inv sd1"
    "items sd1 = (items sd)[fd := (if ty = MSG_FD_UNREGISTER then 0 else v)]"
    "\<And>ty' x. select_waits sd1 ty' x \<longleftrightarrow> (if x = fd then ty \<noteq> MSG_FD_UNREGISTER \<and> (ty' = ty \<or> select_waits sd ty' x) else select_waits sd ty' x)"
    "\<And>u. deadline (tbase sd1) u = (if u = fd then if ty \<noteq> MSG_FD_UNREGISTER \<and> ex \<noteq> 0 then Some ex else None else deadline (tbase sd) u)"
    by (rule select_handle_spec [OF inv ty fd, where v = v and ex = ex]) blast
  show "\<exists>e'. select_handle (ty, fd, v, ex) sd = Inr e' \<and> select_inv e' \<and> FD_SETSIZE = FD_SETSIZE" using h by simp
  show "select_handle (ty, fd, v, ex) sd = Inr sd' \<Longrightarrow> x \<noteq> fd \<Longrightarrow> select_waits sd' ty' x = select_waits sd ty' x \<and>
      items sd' ! x = items sd ! x \<and> deadline (tbase sd') x = deadline (tbase sd) x"
    using h by simp
  show "select_handle (ty, fd, v, ex) sd = Inr sd' \<Longrightarrow> ty \<noteq> MSG_FD_UNREGISTER \<Longrightarrow>
      select_waits sd' ty fd \<and> items sd' ! fd = v \<and> deadline (tbase sd') fd = (if ex \<noteq> 0 then Some ex else None)"
    using h fd l by simp
next
  fix sd sd' :: select_data and ty fd v ex
  assume inv: "select_inv sd" and fd: "fd < FD_SETSIZE" and h: "select_handle (MSG_FD_UNREGISTER, fd, v, ex) sd = Inr sd'"
  have "MSG_FD_UNREGISTER \<in> fd_kinds" by (simp add: fd_kinds_def)
  then show "\<not> select_waits sd' ty fd \<and> deadline (tbase sd') fd = None"
    by (rule select_handle_spec [OF inv _ fd, where v = v and ex = ex]) (use h in simp)
qed

interpretation slk: fd_engine_kinds select_handle select_inv "\<lambda>_. FD_SETSIZE" select_waits
  "\<lambda>sd fd. items sd ! fd" "\<lambda>sd. deadline (tbase sd)" True
proof
  fix sd sd' :: select_data and ty ty' fd v ex
  assume inv: "select_inv sd" and ty: "ty \<in> fd_kinds" "ty \<noteq> MSG_FD_UNREGISTER" and fd: "fd < FD_SETSIZE"
    and h: "select_handle (ty, fd, v, ex) sd = Inr sd'"
  show "select_waits sd' ty' fd = (ty' = ty \<or> (True \<and> select_waits sd ty' fd))"
    by (rule select_handle_spec [OF inv ty(1) fd, where v = v and ex = ex]) (use h ty(2) in simp)
qed

section \<open>Answering events and time-outs\<close>

text \<open>The ready descriptors, in the order of the loop, and those that are answered: all but the pipe.\<close>

definition ready_fds :: "fd set \<Rightarrow> fd set \<Rightarrow> fd list \<Rightarrow> fd list" where
  "ready_fds rs ws = filter (\<lambda>fd. fd \<in> rs \<union> ws)"

definition answered :: "select_data \<Rightarrow> fd set \<Rightarrow> fd set \<Rightarrow> fd list \<Rightarrow> fd list" where
  "answered sd rs ws fds = filter (\<lambda>fd. fd \<noteq> pipe_read sd \<or> fd \<in> ws) (ready_fds rs ws fds)"

definition answer :: "('k, 'z) os_calls_scheme \<Rightarrow> select_data \<Rightarrow> fd set \<Rightarrow> fd \<Rightarrow> sent" where
  "answer K sd rs fd = send_msg_helper (k_junk K) (items sd ! fd) (if fd \<in> rs then MSG_FD_READ else MSG_FD_WRITE) (of_nat fd)"

definition timeout_answer :: "('k, 'z) os_calls_scheme \<Rightarrow> select_data \<Rightarrow> fd \<Rightarrow> sent" where
  "timeout_answer K sd fd = send_msg_helper (k_junk K) (items sd ! fd) MSG_FD_TIMEOUTED (of_nat fd)"

definition woken :: "('k, 'z) os_calls_scheme \<Rightarrow> select_data \<Rightarrow> fd set \<Rightarrow> fd list \<Rightarrow> 'k \<Rightarrow> 'k" where
  "woken K sd rs fds k = (if pipe_read sd \<in> rs \<inter> set fds then k_read K (pipe_read sd) 32 k else k)"

text \<open>The registrations of the descriptors in \<open>A\<close> have ended, the others are as they were.\<close>

definition unregistered :: "fd set \<Rightarrow> select_data \<Rightarrow> select_data \<Rightarrow> bool" where
  "unregistered A sd sd' \<longleftrightarrow> read_fds sd' = read_fds sd - A \<and> write_fds sd' = write_fds sd - A \<and>
     pipe_read sd' = pipe_read sd \<and> (\<forall>fd < FD_SETSIZE. items sd' ! fd = (if fd \<in> A then 0 else items sd ! fd)) \<and>
     (\<forall>t. timer_pending t (tbase sd') \<longleftrightarrow> timer_pending t (tbase sd) \<and> t \<notin> A) \<and>
     expires (tbase sd') = expires (tbase sd)"

lemma unregistered_trans: "unregistered A sd sd1 \<Longrightarrow> unregistered B sd1 sd2 \<Longrightarrow> unregistered (A \<union> B) sd sd2"
  unfolding unregistered_def by auto

lemma unregister_one:
  assumes "select_inv sd" and "fd < FD_SETSIZE"
  obtains sd' where "fd_unregister fd sd = Inr sd'" "select_inv sd'" "unregistered {fd} sd sd'"
    "timer_jiffies (tbase sd') = timer_jiffies (tbase sd)"
proof -
  obtain sd' where s: "fd_unregister fd sd = Inr sd'" "select_inv sd'" "items sd' = (items sd)[fd := 0]"
    "read_fds sd' = read_fds sd - {fd}" "write_fds sd' = write_fds sd - {fd}" "pipe_read sd' = pipe_read sd"
    "tbase sd' = timer_del fd (tbase sd)"
    by (rule fd_unregister_spec [OF assms])
  have "timers_inv FD_SETSIZE (tbase sd)" and l: "length (items sd) = FD_SETSIZE" using assms(1) by (simp_all add: select_inv_def)
  then have "unregistered {fd} sd sd'"
    using s timers_inv_del(2,3) by (auto simp: unregistered_def nth_list_update)
  then show ?thesis using that s by simp
qed

lemma select_events_spec:
  assumes "select_inv sd" and "distinct fds" and "set fds \<subseteq> {..<FD_SETSIZE}" and dis: "rs \<inter> ws = {}"
    and "hit + length (ready_fds rs ws fds) = r"
  shows "\<exists>sd'. select_events K r rs ws fds hit sd out k =
      Inr (sd', out @ map (answer K sd rs) (answered sd rs ws fds), woken K sd rs fds k) \<and>
    select_inv sd' \<and> unregistered (set (answered sd rs ws fds)) sd sd' \<and> timer_jiffies (tbase sd') = timer_jiffies (tbase sd)"
  using assms(1-3,5)
proof (induction fds arbitrary: sd hit out k)
  case Nil
  then show ?case by (simp add: answered_def ready_fds_def woken_def unregistered_def)
next
  case (Cons fd fds)
  have fd: "fd < FD_SETSIZE" "fd \<notin> set fds" "set fds \<subseteq> {..<FD_SETSIZE}" "distinct fds" using Cons.prems by auto
  show ?case
  proof (cases "fd \<in> rs \<union> ws")
    case False
    have f: "answered sd rs ws (fd # fds) = answered sd rs ws fds" "ready_fds rs ws (fd # fds) = ready_fds rs ws fds"
      "woken K sd rs (fd # fds) k = woken K sd rs fds k"
      using False by (auto simp: answered_def ready_fds_def woken_def)
    have h: "hit + length (ready_fds rs ws fds) = r" using Cons.prems(4) f(2) by simp
    show ?thesis
    proof (cases "hit < r")
      case True
      then have "select_events K r rs ws (fd # fds) hit sd out k = select_events K r rs ws fds hit sd out k" using False by simp
      then show ?thesis using Cons.IH [OF Cons.prems(1) fd(4,3) h, of out k] unfolding f by simp
    next
      case none: False
      then have "length (ready_fds rs ws fds) = 0" using h by linarith
      then have "ready_fds rs ws fds = []" by simp
      then have "answered sd rs ws (fd # fds) = []" "pipe_read sd \<notin> rs \<inter> set (fd # fds)"
        using False by (auto simp: answered_def ready_fds_def filter_empty_conv)
      moreover from this have "woken K sd rs (fd # fds) k = k" by (auto simp: woken_def)
      ultimately show ?thesis using none Cons.prems(1) by (simp add: unregistered_def)
    qed
  next
    case ev: True
    have h: "Suc hit + length (ready_fds rs ws fds) = r" "hit < r" using Cons.prems(4) ev by (auto simp: ready_fds_def)
    show ?thesis
    proof (cases "fd = pipe_read sd \<and> fd \<in> rs")
      case True
      then have nw: "fd \<notin> ws" using dis by auto
      have f: "answered sd rs ws (fd # fds) = answered sd rs ws fds"
        "woken K sd rs fds (k_read K fd 32 k) = woken K sd rs (fd # fds) k"
        using True nw ev fd(2) by (auto simp: answered_def ready_fds_def woken_def)
      have "select_events K r rs ws (fd # fds) hit sd out k = select_events K r rs ws fds (Suc hit) sd out (k_read K fd 32 k)"
        using conjunct2 [OF True] nw h(2) by (simp add: read_event_def conjunct1 [OF True, symmetric])
      then show ?thesis using Cons.IH [OF Cons.prems(1) fd(4,3) h(1), of out "k_read K fd 32 k"] unfolding f by simp
    next
      case False
      obtain sd1 where u: "fd_unregister fd sd = Inr sd1" "select_inv sd1" "unregistered {fd} sd sd1"
        "timer_jiffies (tbase sd1) = timer_jiffies (tbase sd)"
        by (rule unregister_one [OF Cons.prems(1) fd(1)])
      have p: "pipe_read sd1 = pipe_read sd" and it: "\<And>x. x < FD_SETSIZE \<Longrightarrow> x \<noteq> fd \<Longrightarrow> items sd1 ! x = items sd ! x"
        using u(3) by (auto simp: unregistered_def)
      have f: "answered sd rs ws (fd # fds) = fd # answered sd rs ws fds" "answered sd1 rs ws fds = answered sd rs ws fds"
        "woken K sd1 rs fds k = woken K sd rs (fd # fds) k"
        using False ev by (auto simp: answered_def ready_fds_def woken_def p)
      have m: "map (answer K sd1 rs) (answered sd rs ws fds) = map (answer K sd rs) (answered sd rs ws fds)"
      proof (intro map_cong refl)
        fix x assume "x \<in> set (answered sd rs ws fds)"
        then have "x < FD_SETSIZE" "x \<noteq> fd" using fd(2,3) by (auto simp: answered_def ready_fds_def)
        then show "answer K sd1 rs x = answer K sd rs x" using it by (simp add: answer_def)
      qed
      have "select_events K r rs ws (fd # fds) hit sd out k = select_events K r rs ws fds (Suc hit) sd1 (out @ [answer K sd rs fd]) k"
        using ev False h(2) dis u(1) by (auto simp: read_event_def write_event_def answer_def)
      moreover obtain sd' where "select_events K r rs ws fds (Suc hit) sd1 (out @ [answer K sd rs fd]) k =
          Inr (sd', (out @ [answer K sd rs fd]) @ map (answer K sd rs) (answered sd rs ws fds), woken K sd rs (fd # fds) k)"
        "select_inv sd'" "unregistered (set (answered sd rs ws fds)) sd1 sd'" "timer_jiffies (tbase sd') = timer_jiffies (tbase sd1)"
        using Cons.IH [OF u(2) fd(4,3) h(1), of "out @ [answer K sd rs fd]" k] unfolding f m by blast
      ultimately show ?thesis using unregistered_trans [OF u(3), of "set (answered sd rs ws fds)" sd'] u(4) unfolding f by simp
    qed
  qed
qed

lemma select_expire_fold:
  assumes "length (items sd) = FD_SETSIZE" and "distinct ts" and "set ts \<subseteq> {..<FD_SETSIZE}"
  shows "\<exists>sd'. fold (\<lambda>t u. rbind u (select_expire K t)) ts (Inr (sd, out)) = Inr (sd', out @ map (timeout_answer K sd) ts) \<and>
    length (items sd') = FD_SETSIZE \<and> pipe_read sd' = pipe_read sd \<and> read_fds sd' = read_fds sd - set ts \<and>
    write_fds sd' = write_fds sd - set ts \<and>
    (\<forall>fd < FD_SETSIZE. items sd' ! fd = (if fd \<in> set ts then 0 else items sd ! fd))"
  using assms
proof (induction ts arbitrary: sd out)
  case (Cons t ts)
  let ?sd = "sd\<lparr>read_fds := read_fds sd - {t}, write_fds := write_fds sd - {t}, items := (items sd)[t := 0]\<rparr>"
  have t: "t < FD_SETSIZE" "t \<notin> set ts" using Cons.prems by simp_all
  have ex: "select_expire K t (sd, out) = Inr (?sd, out @ [timeout_answer K sd t])"
    using t(1) Cons.prems(1) by (simp add: select_expire_def timeout_answer_def)
  have m: "map (timeout_answer K ?sd) ts = map (timeout_answer K sd) ts"
  proof (intro map_cong refl)
    fix x assume "x \<in> set ts"
    then have "x \<noteq> t" using t(2) by auto
    then show "timeout_answer K ?sd x = timeout_answer K sd x" by (simp add: timeout_answer_def)
  qed
  have l: "length (items ?sd) = FD_SETSIZE" using Cons.prems(1) by simp
  obtain sd' where "fold (\<lambda>t u. rbind u (select_expire K t)) ts (Inr (?sd, out @ [timeout_answer K sd t])) =
      Inr (sd', (out @ [timeout_answer K sd t]) @ map (timeout_answer K sd) ts)"
    "length (items sd') = FD_SETSIZE" "pipe_read sd' = pipe_read ?sd" "read_fds sd' = read_fds ?sd - set ts"
    "write_fds sd' = write_fds ?sd - set ts"
    "\<forall>fd < FD_SETSIZE. items sd' ! fd = (if fd \<in> set ts then 0 else items ?sd ! fd)"
    using Cons.IH [OF l, of "out @ [timeout_answer K sd t]", unfolded m] Cons.prems(2,3) by auto
  then show ?case using Cons.prems(1) by (intro exI [of _ sd']) (auto simp: ex nth_list_update)
qed simp

lemma select_timers_spec:
  assumes inv: "select_inv sd" and now: "time_after_eq now (timer_jiffies (tbase sd))"
  shows "\<exists>ts sd'. select_timers K now sd out = Inr (sd', out @ map (timeout_answer K sd) ts) \<and>
    distinct ts \<and> set ts = due_by now (tbase sd) \<and> select_inv sd' \<and> unregistered (set ts) sd sd'"
proof -
  have l: "length (items sd) = FD_SETSIZE" and t: "timers_inv FD_SETSIZE (tbase sd)" using inv by (simp_all add: select_inv_def)
  obtain ts b' where r: "distinct ts" "set ts = due_by now (tbase sd)" "set ts \<subseteq> {..<FD_SETSIZE}"
    "timers_run (\<lambda>t b u. (rbind u (select_expire K t), [TDel t])) now (tbase sd) (Inr (sd, out)) =
       (of_nat (length ts), b', fold (\<lambda>t u. rbind u (select_expire K t)) ts (Inr (sd, out)))"
    "timers_inv FD_SETSIZE b'" "timer_jiffies b' = now + 1" "expires b' = expires (tbase sd)"
    "\<And>t. timer_pending t b' \<longleftrightarrow> timer_pending t (tbase sd) \<and> t \<notin> due_by now (tbase sd)"
    by (rule engine_timers_run [OF t now, where f = "\<lambda>t u. rbind u (select_expire K t)" and u = "Inr (sd, out)"]) blast
  obtain sd1 where sd1: "fold (\<lambda>t u. rbind u (select_expire K t)) ts (Inr (sd, out)) = Inr (sd1, out @ map (timeout_answer K sd) ts)"
    "length (items sd1) = FD_SETSIZE" "pipe_read sd1 = pipe_read sd" "read_fds sd1 = read_fds sd - set ts"
    "write_fds sd1 = write_fds sd - set ts" "\<forall>fd < FD_SETSIZE. items sd1 ! fd = (if fd \<in> set ts then 0 else items sd ! fd)"
    using select_expire_fold [OF l r(1,3), of K out] by blast
  have cb: "select_timer_callback K = (\<lambda>t b u. (rbind u (select_expire K t), [TDel t]))"
    by (intro ext) (simp add: select_timer_callback_def)
  have e: "select_timers K now sd out = Inr (sd1\<lparr>tbase := b'\<rparr>, out @ map (timeout_answer K sd) ts)"
    unfolding select_timers_def cb r(4) sd1(1) by simp
  have "select_inv (sd1\<lparr>tbase := b'\<rparr>)" using sd1 r(5) inv by (auto simp: select_inv_def)
  moreover have "unregistered (set ts) sd (sd1\<lparr>tbase := b'\<rparr>)" using sd1 r(2,7,8) by (simp add: unregistered_def)
  ultimately show ?thesis using e r(1,2) by blast
qed

text \<open>
  What the manual of \<open>select\<close> promises: the ready descriptors are among those asked for, and the result
  counts the members of the two sets. Here no descriptor is ready for both.
\<close>

definition select_answer_ok :: "select_data \<Rightarrow> nat \<times> fd set \<times> fd set \<Rightarrow> bool" where
  "select_answer_ok sd = (\<lambda>(r, rs, ws). rs \<subseteq> read_fds sd \<and> ws \<subseteq> write_fds sd \<and> rs \<inter> ws = {} \<and> r = card rs + card ws)"

lemma ready_fds_count:
  assumes "select_inv sd" and "select_answer_ok sd (r, rs, ws)"
  shows "0 + length (ready_fds rs ws [0 ..< FD_SETSIZE]) = r"
proof -
  have s: "rs \<union> ws \<subseteq> {..<FD_SETSIZE}" using assms by (auto simp: select_inv_def select_answer_ok_def)
  then have fin: "finite rs" "finite ws" using finite_subset [OF s] by simp_all
  have "distinct (ready_fds rs ws [0 ..< FD_SETSIZE])" by (simp add: ready_fds_def)
  moreover have "set (ready_fds rs ws [0 ..< FD_SETSIZE]) = rs \<union> ws" using s by (auto simp: ready_fds_def)
  ultimately have "length (ready_fds rs ws [0 ..< FD_SETSIZE]) = card (rs \<union> ws)" by (metis distinct_card)
  then show ?thesis using assms(2) fin by (simp add: select_answer_ok_def card_Un_disjoint)
qed


text \<open>A message to the pid 0 is one to the name 0, which nobody registers.\<close>

lemma run_send_nobody:
  assumes "current_domain b = Inr g" and "name_to_pid 0 b = Inr 0"
  shows "run_act s rc (send_all pad ((0, ty, m) # out) a) b = Inl (Fatal ''Name not registered.'')"
proof -
  have "pid_to_gid 0 = 0" by (simp add: pid_to_gid_def)
  then show ?thesis using assms by (simp add: msock_send_def send_indirect_def)
qed

text \<open>
  C35: A descriptor that is registered for reading and for writing, and is ready for both at once, ends
  the program: answering the first event ends both registrations and clears the process to answer,
  so the second answer goes to pid 0, the name that is not registered, which is fatal.
\<close>

theorem select_both_ready_ends:
  assumes inv: "select_inv sd" and fd: "fd < FD_SETSIZE" "fd \<noteq> pipe_read sd" "fd \<in> rs" "fd \<in> ws" and r: "hit < r"
    and b: "current_domain b = Inr g" "name_to_pid 0 b = Inr 0"
  shows "\<exists>sd' second. select_events K r rs ws [fd] hit sd [] k =
      Inr (sd', [send_msg_helper (k_junk K) (items sd ! fd) MSG_FD_READ (of_nat fd), second], k) \<and>
    run_act s rc (send_all pad [second] a) b = Inl (Fatal ''Name not registered.'')"
proof -
  obtain sd1 where u: "fd_unregister fd sd = Inr sd1" "select_inv sd1" "unregistered {fd} sd sd1"
    by (rule unregister_one [OF inv fd(1)])
  obtain sd2 where u2: "fd_unregister fd sd1 = Inr sd2" by (rule unregister_one [OF u(2) fd(1)])
  have z: "items sd1 ! fd = 0" using u(3) fd(1) by (simp add: unregistered_def)
  have "select_events K r rs ws [fd] hit sd [] k =
      Inr (sd2, [send_msg_helper (k_junk K) (items sd ! fd) MSG_FD_READ (of_nat fd), send_msg_helper (k_junk K) 0 MSG_FD_WRITE (of_nat fd)], k)"
    using fd r by (simp add: read_event_def write_event_def u(1) u2 z)
  moreover have "run_act s rc (send_all pad [send_msg_helper (k_junk K) 0 MSG_FD_WRITE (of_nat fd)] a) b = Inl (Fatal ''Name not registered.'')"
    unfolding send_msg_helper_def by (rule run_send_nobody [OF b])
  ultimately show ?thesis by blast
qed

section \<open>Examples\<close>

text \<open>A system in which descriptor 5, when asked for, is readable, and the time is always 30.\<close>

definition example_select :: "nat select_calls" where
  "example_select =
     \<lparr>k_pipe = (\<lambda>k. (Some (3, 4), k)), k_getfl = (\<lambda>fd k. 0), k_setfl = (\<lambda>fd fl k. (True, k)),
      k_read = (\<lambda>fd n k. k + 1), k_write = (\<lambda>fd c k. k), k_close = (\<lambda>fd k. k),
      k_clock = (\<lambda>k. (Some \<lparr>tv_sec = 0, tv_nsec = 30000000\<rparr>, k)), k_junk = 0, k_pad = [0, 0, 0, 0],
      k_select = (\<lambda>rs ws t k. (Inr (card (rs \<inter> {5}), rs \<inter> {5}, {}), k))\<rparr>"

text \<open>Descriptor 5 is registered for reading, descriptor 6 for writing until the time 20.\<close>

definition example_select_data :: select_data where
  "example_select_data =
     \<lparr>read_fds = {3, 5}, write_fds = {6}, pipe_read = 3, items = (replicate FD_SETSIZE 0)[5 := 77, 6 := 78],
      tbase = timer_add 6 20 (init_timer_base 11)\<rparr>"

lemmas example_select_timers = one_timer [where t = 6 and n = FD_SETSIZE and e = 20 and j = 11, unfolded FD_SETSIZE_def, simplified]

lemma example_select_inv: "select_inv example_select_data"
  using one_timer(1) [where t = 6 and n = FD_SETSIZE and e = 20 and j = 11] by (auto simp: select_inv_def example_select_data_def FD_SETSIZE_def)


theorem select_both_ready_ends_witness:
  "\<exists>sd' second. select_events example_select 2 {5} {5} [5] 0 example_select_data [] 0 =
      Inr (sd', [send_msg_helper 0 77 MSG_FD_READ 5, second], 0) \<and>
    run_act example_surroundings (\<lambda>_ _ _ _. Inr) (send_all [0, 0, 0, 0] [second] (Return RECV_OK))
      (example_base\<lparr>current_process := Some 64\<rparr>) = Inl (Fatal ''Name not registered.'')"
proof -
  let ?b = "example_base\<lparr>current_process := Some 64\<rparr>"
  have b: "current_domain ?b = Inr 1" "name_to_pid 0 ?b = Inr 0"
    by (simp_all add: current_domain_def get_current_process_def example_base_def example_process_def name_to_pid_def pid_to_poff_def
        MAX_REG_NAMES_def)
  have i: "5 < FD_SETSIZE" "5 \<noteq> pipe_read example_select_data" "items example_select_data ! 5 = 77" "k_junk example_select = 0"
    by (simp_all add: example_select_data_def FD_SETSIZE_def example_select_def)
  have m: "(5 :: fd) \<in> {5}" and r: "(0 :: nat) < 2" by simp_all
  show ?thesis
    using select_both_ready_ends [OF example_select_inv i(1,2) m m r b, where
        K = example_select and k = 0 and s = example_surroundings and rc = "\<lambda>_ _ _ _. Inr" and pad = "[0, 0, 0, 0]"
        and a = "Return RECV_OK"] i by simp
qed

end
