(* ===== verification/Spec2Isabelle.thy ===== *)
theory Spec2Isabelle
  imports Upqueue List_Head List_Loops Hlist Umap Memalloc Timer_Wheel Timer_Next Pid Msqueue Msqueue_Threads Messaging Runtime Delivery Flush
    Running Lifecycle Ownership Broadcast Outside Solo Hello Ring Startup Network Spinlock Texample Echosrv Examples Engine_Fd Engine_Epoll Engine_Select Engine_Io Engine_Signal
begin

text \<open>
  \<^bold>\<open>What this is.\<close> A verification of \<open>libmsock\<close> (directory \<open>src/\<close> of the repository; file names below are
  relative to it), a library in C for programs made of processes that send each other messages. A
  \<^emph>\<open>process\<close> is a callback with its data and an inbox; processes live in \<^emph>\<open>domains\<close>, each of which is run by
  one thread at a time; a \<^emph>\<open>worker\<close> takes domains from a shared queue and runs them; \<^emph>\<open>engines\<close> are domains
  with one process that talks to the system (descriptors, signals, file operations) and turns what
  happens there into messages. Definitions carry the names of the C functions they model.

  \<^bold>\<open>How the parts interact.\<close> A callback calls \<open>msock_send\<close>, which takes a chunk from the domain's cache
  (\<open>memalloc.c\<close>) and puts the message into the inbox of a process of the same domain, found in the
  domain's table (\<open>umap.c\<close>), or into the outbox for another domain. After a round the domain splices its
  outboxes into the remote inboxes of the others (\<open>upqueue.h\<close>), puts those domains into the queue of the
  workers (\<open>msqueue.h\<close>), and wakes engines that sleep through a pipe. A worker runs a domain until
  nothing is left to do, and a domain of an engine calls the engine's ingress callback, which sleeps in
  \<open>epoll_wait\<close>, \<open>select\<close> or \<open>pselect\<close> until the next time-out of the timer wheels (\<open>timer.c\<close>).
\<close>

text \<open>
  \<^bold>\<open>Theories, and the sources they model.\<close>

  \<^item> \<open>Msock_Prelude\<close>: machine types, the type of errors, facts on lists and results.
  \<^item> \<open>Upqueue\<close> (\<open>upqueue.h\<close>): the singly linked queue on a store of pointers and as a value, with the
    refinement between the two. \<open>List_Head\<close>, \<open>List_Loops\<close>, \<open>Hlist\<close> (\<open>list.h\<close>): the doubly linked rings and
    the lists with a one-pointer head, on stores of pointers, against lists as values.
  \<^item> \<open>Umap\<close> (\<open>umap.h\<close>, \<open>umap.c\<close>): the table of numbered pointers against a finite map.
  \<^item> \<open>Memalloc\<close> (\<open>memalloc.h\<close>, \<open>memalloc.c\<close>): pages, chunks and caches; every chunk is handed out, in a cache or in its page.
  \<^item> \<open>Timer\<close>, \<open>Timer_Wheel\<close>, \<open>Timer_Next\<close> (\<open>timer.h\<close>, \<open>timer.c\<close>): the definitions; where a pending timer is and
    when it fires; what \<open>timer_next_interrupt\<close> promises. \<open>Texample\<close> (\<open>texample.c\<close>): their client.
  \<^item> \<open>Pid\<close> (\<open>msock_internal.h\<close>, \<open>msock.h\<close>): process identifiers and message types.
  \<^item> \<open>Msqueue\<close>, \<open>Msqueue_Threads\<close> (\<open>msqueue.h\<close>): the lock-free queue for one thread against a first-in
    first-out queue, and its atomic steps under any schedule of several threads. \<open>Spinlock\<close>
    (\<open>spinlock.h\<close>): the locks, likewise under any schedule.
  \<^item> \<open>Messaging\<close> (\<open>msock_base.c\<close>, \<open>msock_domain.c\<close>, \<open>msock_process.c\<close>, \<open>msock_reg.c\<close>, \<open>msock_engine_user.c\<close> and
    their headers): the state of the library (\<open>base\<close>, \<open>domain\<close>, \<open>process\<close>, \<open>message\<close>) and every
    operation that moves messages. \<open>Runtime\<close> (the same files, \<open>msock_worker.c\<close>): callbacks, and the loops
    of processes, domains and the worker. \<open>Startup\<close> (\<open>msock_engine.c\<close>, \<open>msock_worker.c\<close>): registration of
    engines, threads of workers.
  \<^item> Theories of properties of these two: \<open>Delivery\<close> (sending), \<open>Flush\<close> (outboxes), \<open>Running\<close> (the loops),
    \<open>Lifecycle\<close> (processes, names, domains), \<open>Ownership\<close> (no chunk in two places, as an invariant of the
    whole state), \<open>Broadcast\<close> (every process gets its copy), \<open>Outside\<close> (what callbacks and engines keep of the state outside, the library keeps).
  \<^item> \<open>Engine_Os\<close> (\<open>msock_utils.c\<close>, the pipe of the engines), \<open>Engine_Fd\<close> (\<open>msock_engine_fd.c\<close>), \<open>Engine_Requests\<close>
    (the contract of requests on descriptors), \<open>Engine_Epoll\<close>, \<open>Engine_Select\<close>, \<open>Engine_Io\<close> (\<open>io.c\<close> too),
    \<open>Engine_Signal\<close>: the engines \<open>msock_engine_*.c\<close>, on a parameter for the system.
  \<^item> \<open>Network\<close> (\<open>network.c\<close>): the socket helpers.
  \<^item> Programs on top of the library: \<open>Echosrv\<close> (\<open>echosrv.c\<close>), the echo server; \<open>Examples\<close> (\<open>example02.c\<close>, \<open>example03.c\<close>,
    \<open>example04.c\<close>, \<open>example07.c\<close>), which use the engines; \<open>Hello\<close> (\<open>example01.c\<close>) and \<open>Ring\<close> (\<open>example05.c\<close>), which are run
    from \<open>msock_base_new\<close> to \<open>msock_base_free\<close> with the rules of \<open>Solo\<close>, a calculus of total correctness for programs
    in one domain without engines.
  \<^item> \<open>Spec2Isabelle\<close>: where the two engines of descriptors agree, and where not.
\<close>

text \<open>
  \<^bold>\<open>How state and effects are modelled.\<close> A struct is a record. The linked structures of \<open>upqueue.h\<close>, \<open>list.h\<close>
  and \<open>msqueue.h\<close> are stores of pointers; elsewhere they are the lists that those theories show them to
  be, except for the queue of busy processes, into which the code can put a process twice: it stays a
  queue of pointers. A queue as a value remembers whether its tail pointer is set, since
  \<open>queue_splice_prepend\<close> can lose it. Integers have the width of the code (\<open>ulong\<close> is 64 bits, an \<open>int\<close> 32)
  wherever they can wrap around. Errors are values: \<open>Fatal\<close> and \<open>Abort\<close> for the functions that end the
  program, \<open>Bad_Deref\<close> for a bad pointer, \<open>Div_By_Zero\<close>, \<open>Diverge\<close>. A callback is a tree of the calls it
  makes (\<open>act\<close> in \<open>Runtime\<close>), so that what the library does to it can be reasoned about for every program.

  \<^bold>\<open>Loops and fuel.\<close> Loops over data are recursive. A loop that ends for another reason has its
  termination proved, or is a partial function with value \<open>None\<close> when it does not end
  (\<open>queue_slow_del\<close>, \<open>umap_count\<close>, \<open>te_loop\<close>). The loops of processes, domains and workers run as long as the
  program wants: they take fuel, \<open>No_Fuel\<close> marks a run that was cut off, and \<open>Running.msock_base_loop_fuel\<close>
  says that any other outcome is independent of the fuel; \<open>Ring.ring_ends\<close> gives the fuel that a whole
  program needs. The waits of the engines repeat on \<open>EINTR\<close> and
  take fuel the same way.

  \<^bold>\<open>What is a parameter.\<close> \<open>posix_memalign\<close> (with \<open>os_ok\<close>: aligned and separate blocks), the system calls of the
  engines (records of functions on a state \<open>'k\<close>, with \<open>ctl_law\<close>, \<open>ctl_answers\<close>, \<open>sigaction_law\<close>), of \<open>network.c\<close> (\<open>net_law\<close>) and of
  the echo server (\<open>echo_law\<close>), the callbacks of the timers. Each law states what the manual pages
  document; each theorem that has one as a hypothesis has a witness with a concrete system.

  \<^bold>\<open>What is assumed of threads.\<close> Except in \<open>Msqueue_Threads\<close> and \<open>Spinlock\<close>, one thread runs at a time. The
  steps of those two theories are sequentially consistent. \<open>Spinlock\<close> shows why the locked sections (remote
  inboxes, zones) may be taken as atomic elsewhere. \<open>Msqueue_Threads.get_returns_twice\<close> shows that with
  several workers \<open>msqueue_get\<close> is not safe, which is a flaw of the code and bounds what can be
  claimed for runs of more than one worker.
\<close>

text \<open>
  \<^bold>\<open>What the lemmas show.\<close>

  \<^item> Data structures: every operation keeps the representation and computes the operation on the
    abstract value (\<open>*_refines\<close>, \<open>dlist_*\<close>, \<open>hlist_*\<close>, \<open>umap_abs\<close>); \<open>queue_slow_del\<close> and \<open>queue_splice_prepend\<close> are shown
    to lose the tail pointer, with what follows from it for \<open>msock_receive\<close> (\<open>Running\<close>).
  \<^item> Memory: chunks are aligned, disjoint and never handed out twice (\<open>Memalloc\<close>), and in a running program
    no chunk is ever in two places and no assertion of the allocator fails (\<open>Ownership\<close>). That none is lost is
    not claimed: a message is, when a process sends to itself at the wrong time (\<open>Running\<close>).
  \<^item> Timers: no timer fires early, each due timer fires once, on time and in order, across the wrap-around of
    the 64-bit clock; the next interrupt is not later than any timer, as long as no timer is
    set further ahead than 32 bits of milliseconds.
  \<^item> Messages: a message arrives once, after those sent before it, and nothing else changes; what cannot
    be delivered is freed or reported; a process handles its messages in order; outboxes are handed over whole.
  \<^item> Engines: what was asked for is registered with the system before the engine sleeps; each event and each
    time-out is answered once, to the process that asked; epoll and select agree on whom they answer and until
    when they wait, but not on the events: select keeps what was asked for before.
  \<^item> Programs: the echo server gives back what it reads, whatever happens; the timer program prints
    every item that falls due; the ring benchmark makes all its turns, in order, comes to its end and
    gives all memory back.

  \<^bold>\<open>Not modelled.\<close> \<open>example06.c\<close>, which does not compile: it calls \<open>msock_send_msg_fd\<close> with one argument less
  than \<open>msock.h\<close> declares. The files of kernel timers
  (\<open>timer-linux.c\<close>, \<open>timer-linux.h\<close>, \<open>timer2.c\<close>, \<open>timer2.h\<close>, \<open>timerwheels.h\<close>, \<open>twheels.c\<close>): no target of the \<open>Makefile\<close>
  compiles them, the first is the kernel's own file, and \<open>timer.c\<close> is what became of them. \<open>config.h\<close> and
  the empty headers. Printing, prefetching and the exit of \<open>fatal\<close>. The locks as mutexes, which are compiled
  only for Valgrind. What other threads do between \<open>workers_create\<close> and \<open>workers_join\<close>.
\<close>

section \<open>The two engines of file descriptors\<close>

text \<open>The registration of a descriptor in both engines, when its last request is \<open>r\<close>.\<close>

definition both_agree :: "epoll_data \<Rightarrow> select_data \<Rightarrow> fd \<Rightarrow> fd_req \<Rightarrow> bool" where
  "both_agree e s fd = (\<lambda>(ty, _, v, ex).
     if ty = MSG_FD_UNREGISTER
     then (\<forall>ty. \<not> epoll_waits e ty fd \<and> \<not> select_waits s ty fd) \<and>
       deadline (Engine_Epoll.tbase e) fd = None \<and> deadline (Engine_Select.tbase s) fd = None
     else epoll_waits e ty fd \<and> select_waits s ty fd \<and>
       victim (Engine_Epoll.items e ! fd) = v \<and> Engine_Select.items s ! fd = v \<and>
       deadline (Engine_Epoll.tbase e) fd = (if ex \<noteq> 0 then Some ex else None) \<and>
       deadline (Engine_Select.tbase s) fd = (if ex \<noteq> 0 then Some ex else None))"

text \<open>
  C33: Fed with the same requests for descriptors that both can hold, in any number and order, the epoll
  and the select engine both handle them all, and for every descriptor that was asked for the last request decides in both:
  they wait for its event, will answer its process and give up at its time, or neither waits at all. They
  do not always wait for the same events: epoll waits for the event of the last request only, while select waits
  for every event that was asked for since the descriptor was taken off last (and, if it never was, for those it
  waited for at the start). So they agree on the events as long as a program asks for one kind
  between two removals, and after a read and then a write select still waits for the read.
\<close>

theorem fd_engines_agree:
  assumes "epoll_inv e" and "select_inv s"
    and "\<forall>r \<in> set rs. fst r \<in> fd_kinds \<and> req_fd r < length (Engine_Epoll.items e) \<and> req_fd r < FD_SETSIZE"
  shows "\<exists>e' s'. run_requests epoll_handle rs e = Inr e' \<and> run_requests select_handle rs s = Inr s' \<and>
    epoll_inv e' \<and> select_inv s' \<and>
    (\<forall>fd r. last_request fd rs = Some r \<longrightarrow> both_agree e' s' fd r \<and>
       {ty. epoll_waits e' ty fd} = (if fst r = MSG_FD_UNREGISTER then {} else {fst r}) \<and>
       {ty. select_waits s' ty fd} = fst ` set (since_unregister fd rs) \<union>
         (if \<exists>q \<in> set rs. req_fd q = fd \<and> fst q = MSG_FD_UNREGISTER then {} else {ty. select_waits s ty fd}))"
proof -
  have re: "\<forall>r \<in> set rs. fst r \<in> fd_kinds \<and> req_fd r < length (Engine_Epoll.items e)"
    and rs: "\<forall>r \<in> set rs. fst r \<in> fd_kinds \<and> req_fd r < FD_SETSIZE" using assms(3) by simp_all
  obtain e' where e': "run_requests epoll_handle rs e = Inr e'" "epoll_inv e'" "\<And>fd. ep.agrees e fd (last_request fd rs) e'"
    using ep.run_requests_last [OF assms(1) re] by blast
  obtain s' where s': "run_requests select_handle rs s = Inr s'" "select_inv s'" "\<And>fd. sel.agrees s fd (last_request fd rs) s'"
    using sel.run_requests_last [OF assms(2) rs] by blast
  have "both_agree e' s' fd r" if "last_request fd rs = Some r" for fd r
    using e'(3) [of fd] s'(3) [of fd] that
    by (cases r) (simp add: both_agree_def ep.agrees_def sel.agrees_def)
  then show ?thesis
    using e'(1,2) s'(1,2) epk.run_requests_kinds [OF assms(1) re e'(1)] slk.run_requests_kinds [OF assms(2) rs s'(1)]
    by (simp add: kinds_after_replaced kinds_after_kept)
qed

theorem fd_engines_agree_witness:
  "\<exists>e' s'. run_requests epoll_handle [(MSG_FD_REGISTER_READ, 7, 70, 0), (MSG_FD_REGISTER_WRITE, 7, 71, 50)] example_epoll_data = Inr e' \<and>
     run_requests select_handle [(MSG_FD_REGISTER_READ, 7, 70, 0), (MSG_FD_REGISTER_WRITE, 7, 71, 50)] example_select_data = Inr s' \<and>
     victim (Engine_Epoll.items e' ! 7) = 71 \<and> Engine_Select.items s' ! 7 = 71 \<and>
     deadline (Engine_Epoll.tbase e') 7 = Some 50 \<and> deadline (Engine_Select.tbase s') 7 = Some 50 \<and>
     \<not> epoll_waits e' MSG_FD_REGISTER_READ 7 \<and> select_waits s' MSG_FD_REGISTER_READ 7"
proof -
  let ?rs = "[(MSG_FD_REGISTER_READ, 7, 70, 0), (MSG_FD_REGISTER_WRITE, 7, 71, 50)] :: fd_req list"
  have r: "\<forall>r \<in> set ?rs. fst r \<in> fd_kinds \<and> req_fd r < length (Engine_Epoll.items example_epoll_data) \<and> req_fd r < FD_SETSIZE"
    by (simp add: fd_kinds_def req_fd_def example_epoll_data_def FD_SETSIZE_def)
  have l: "last_request 7 ?rs = Some (MSG_FD_REGISTER_WRITE, 7, 71, 50)" by (simp add: req_fd_def)
  have ne: "MSG_FD_REGISTER_WRITE \<noteq> MSG_FD_UNREGISTER" "MSG_FD_REGISTER_READ \<noteq> MSG_FD_UNREGISTER"
    "MSG_FD_REGISTER_READ \<noteq> MSG_FD_REGISTER_WRITE" by (simp_all add: fd_msg_types)
  have k: "fst ` set (since_unregister 7 ?rs) = {MSG_FD_REGISTER_WRITE, MSG_FD_REGISTER_READ}"
    using ne by (simp add: since_unregister_def req_fd_def)
  obtain e' s' where x: "run_requests epoll_handle ?rs example_epoll_data = Inr e'" "run_requests select_handle ?rs example_select_data = Inr s'"
    "both_agree e' s' 7 (MSG_FD_REGISTER_WRITE, 7, 71, 50)" "{ty. epoll_waits e' ty 7} = {MSG_FD_REGISTER_WRITE}"
    "{MSG_FD_REGISTER_WRITE, MSG_FD_REGISTER_READ} \<subseteq> {ty. select_waits s' ty 7}"
    using fd_engines_agree [OF example_epoll_inv example_select_inv r] l ne unfolding k [symmetric] by fastforce
  have "\<not> epoll_waits e' MSG_FD_REGISTER_READ 7" using x(4) ne(3) by blast
  then show ?thesis using x ne(1) by (auto simp: both_agree_def)
qed

end
